(* ===== verification/Prelude.thy ===== *)
theory Prelude
  imports Complex_Main "HOL-Library.Word" "HOL-Library.Multiset"
begin

text \<open>
  Shared vocabulary of the development: the machine integers of the C++ sources, the result
  type that carries failed assertions, process exits and undefined behaviour, two-dimensional
  arrays as functions, and the generic lemmas about words and finite sums that the component
  theories use.

  The named collection \<open>res_simps\<close> holds the rules that evaluate a computation in the result
  type; \<open>arr_simps\<close> the rules that read an updated array; \<open>word_arith\<close> the rules that turn
  word arithmetic without wrap-around into arithmetic on natural numbers; \<open>ends_rules\<close> the
  rules that show, along the structure of a computation, that it does not run out of iterations.
\<close>

named_theorems res_simps
named_theorems arr_simps
named_theorems word_arith
named_theorems ends_rules

unbundle bit_operations_syntax

type_synonym u8 = "8 word"
type_synonym u16 = "16 word"
type_synonym u32 = "32 word"
type_synonym u64 = "64 word"

subsection \<open>Results: values or the way the program stopped\<close>

text \<open>
  \<open>Exit\<close> is a call of \<^verbatim>\<open>exit(1)\<close>, \<open>Assert\<close> a failed \<^verbatim>\<open>NS_ASSERT\<close>, \<open>Abort\<close> a
  \<^verbatim>\<open>NS_ABORT_MSG\<close>; the remaining constructors name undefined behaviour of C++ that the model
  refuses to give a value: an index outside a fixed array, a floating-point value outside the
  target integer type, a division that has no finite value, a function that ends without a
  \<^verbatim>\<open>return\<close>, a dereferenced null pointer, a signed integer overflow,
  a variable that is read before it is set (\<open>Uninit\<close>).  \<open>Diverge\<close> is a loop that
  has not ended within the number of iterations the model grants it.
\<close>

datatype err =
    Exit
  | Assert
  | Abort
  | OutOfBounds
  | FloatCast
  | NotFinite
  | NoReturn
  | NullDeref
  | SignedOverflow
  | Uninit
  | Diverge

type_synonym 'a res = "err + 'a"

definition bindr :: "'a res \<Rightarrow> ('a \<Rightarrow> 'b res) \<Rightarrow> 'b res" where
  "bindr m f = (case m of Inl e \<Rightarrow> Inl e | Inr x \<Rightarrow> f x)"

definition guardr :: "bool \<Rightarrow> err \<Rightarrow> unit res" where
  "guardr b e = (if b then Inr () else Inl e)"

lemma bindr_simps [simp, res_simps]:
  "bindr (Inl e) f = Inl e"
  "bindr (Inr x) f = f x"
  by (simp_all add: bindr_def)

lemma bindr_Inr_iff: "bindr m f = Inr y \<longleftrightarrow> (\<exists>x. m = Inr x \<and> f x = Inr y)"
  by (cases m) auto

lemma bindr_InrE [elim]:
  assumes "bindr m f = Inr y"
  obtains x where "m = Inr x" and "f x = Inr y"
  using assms by (auto simp: bindr_Inr_iff)

lemma guardr_Inr_iff [simp]: "guardr b e = Inr u \<longleftrightarrow> b"
  by (simp add: guardr_def)

lemma guardr_simps [simp, res_simps]: "guardr True e = Inr ()" "guardr False e = Inl e"
  by (simp_all add: guardr_def)

lemma res_cases_iff: "(\<exists>x. (r :: 'a res) = Inr x) \<longleftrightarrow> (\<forall>e. r \<noteq> Inl e)"
  by (cases r) auto

text \<open>A loop whose body may stop the program: \<open>for (x : xs) s = f(x, s)\<close>.\<close>

fun loopr :: "('a \<Rightarrow> 's \<Rightarrow> 's res) \<Rightarrow> 'a list \<Rightarrow> 's \<Rightarrow> 's res" where
  "loopr f [] s = Inr s"
| "loopr f (x # xs) s = bindr (f x s) (loopr f xs)"

lemma loopr_invariant:
  assumes "loopr f xs s = Inr t" "P s"
    and "\<And>x s t. x \<in> set xs \<Longrightarrow> P s \<Longrightarrow> f x s = Inr t \<Longrightarrow> P t"
  shows "P t"
  using assms by (induction xs arbitrary: s) (auto simp: bindr_Inr_iff)

lemma loopr_append: "loopr f (xs @ ys) s = bindr (loopr f xs s) (loopr f ys)"
  by (induction xs arbitrary: s) (auto simp: bindr_def split: sum.splits)

text \<open>A computation that is granted enough iterations.\<close>

definition ends :: "'a res \<Rightarrow> bool" where
  "ends r \<longleftrightarrow> r \<noteq> Inl Diverge"

lemma ends_Inr [ends_rules]: "ends (Inr x)"
  by (simp add: ends_def)

lemma ends_Inl_iff [simp]: "ends (Inl x) \<longleftrightarrow> x \<noteq> Diverge"
  by (simp add: ends_def)

lemma ends_Inl [ends_rules]:
  "ends (Inl Assert)" "ends (Inl OutOfBounds)" "ends (Inl FloatCast)" "ends (Inl NotFinite)" "ends (Inl NoReturn)"
  "ends (Inl NullDeref)" "ends (Inl SignedOverflow)" "ends (Inl Uninit)" "ends (Inl Exit)" "ends (Inl Abort)"
  by (simp_all add: ends_def)

lemma ends_bind [ends_rules]: "ends m \<Longrightarrow> (\<And>x. ends (f x)) \<Longrightarrow> ends (bindr m f)"
  by (cases m) (auto simp: ends_def)

lemma ends_if [ends_rules]: "(b \<Longrightarrow> ends x) \<Longrightarrow> (\<not> b \<Longrightarrow> ends y) \<Longrightarrow> ends (if b then x else y)"
  by simp

lemma ends_let [ends_rules]: "ends (f x) \<Longrightarrow> ends (Let x f)"
  by simp

lemma ends_prod [ends_rules]: "(\<And>a b. ends (f a b)) \<Longrightarrow> ends (case p of (a, b) \<Rightarrow> f a b)"
  by (cases p) simp

lemma ends_option [ends_rules]: "ends x \<Longrightarrow> (\<And>a. ends (f a)) \<Longrightarrow> ends (case r of None \<Rightarrow> x | Some a \<Rightarrow> f a)"
  by (cases r) simp_all

lemma ends_loopr [ends_rules]: "(\<And>x s. ends (f x s)) \<Longrightarrow> ends (loopr f xs s)"
  by (induction xs arbitrary: s) (simp_all add: ends_rules)

lemma ends_guardr [ends_rules]: "e \<noteq> Diverge \<Longrightarrow> ends (guardr b e)"
  by (simp add: guardr_def ends_def)

subsection \<open>Arrays\<close>

text \<open>
  A C array of fixed size is a function from indices; the operations that read or write it
  check the index first and answer \<open>OutOfBounds\<close> where the source has undefined behaviour.
\<close>

type_synonym 'a arr = "nat \<Rightarrow> 'a"
type_synonym 'a arr2 = "nat \<Rightarrow> nat \<Rightarrow> 'a"

definition upd2 :: "'a arr2 \<Rightarrow> nat \<Rightarrow> nat \<Rightarrow> 'a \<Rightarrow> 'a arr2" where
  "upd2 a i j v = a(i := (a i)(j := v))"

lemma upd2_apply [simp, arr_simps]:
  "upd2 a i j v i' j' = (if i' = i \<and> j' = j then v else a i' j')"
  by (simp add: upd2_def)

lemma upd2_same [simp]: "upd2 a i j (a i j) = a"
  by (simp add: upd2_def fun_eq_iff)

lemma upd2_triv [simp]: "a i j = v \<Longrightarrow> upd2 a i j v = a"
  by auto

lemma upd2_upd2 [simp]: "upd2 (upd2 a i j v) i j w = upd2 a i j w"
  by (simp add: upd2_def fun_eq_iff)

subsection \<open>Sums over a grid of counters\<close>

definition grid_sum :: "nat \<Rightarrow> nat \<Rightarrow> (nat \<Rightarrow> nat \<Rightarrow> nat) \<Rightarrow> nat" where
  "grid_sum n k f = (\<Sum>i<n. \<Sum>j<k. f i j)"

lemma grid_sum_pairs: "grid_sum n k f = (\<Sum>(i, j)\<in>{..<n} \<times> {..<k}. f i j)"
  by (simp add: grid_sum_def sum.cartesian_product)

lemma grid_sum_cong:
  "(\<And>i j. i < n \<Longrightarrow> j < k \<Longrightarrow> f i j = g i j) \<Longrightarrow> grid_sum n k f = grid_sum n k g"
  by (simp add: grid_sum_def)

lemma grid_sum_add: "grid_sum n k (\<lambda>i j. f i j + g i j) = grid_sum n k f + grid_sum n k g"
  by (simp add: grid_sum_def sum.distrib)

lemma grid_sum_zero [simp]: "grid_sum n k (\<lambda>i j. 0) = 0"
  by (simp add: grid_sum_def)

lemma grid_sum_mono:
  "(\<And>i j. i < n \<Longrightarrow> j < k \<Longrightarrow> f i j \<le> g i j) \<Longrightarrow> grid_sum n k f \<le> grid_sum n k g"
  by (auto simp: grid_sum_def intro!: sum_mono)

text \<open>One cell taken out of the sum: the rest does not depend on what that cell holds.\<close>

definition grid_rest :: "nat \<Rightarrow> nat \<Rightarrow> (nat \<Rightarrow> nat \<Rightarrow> nat) \<Rightarrow> nat \<Rightarrow> nat \<Rightarrow> nat" where
  "grid_rest n k f p q = (\<Sum>(i, j)\<in>{..<n} \<times> {..<k} - {(p, q)}. f i j)"

lemma grid_sum_split:
  "p < n \<Longrightarrow> q < k \<Longrightarrow> grid_sum n k f = f p q + grid_rest n k f p q"
  unfolding grid_sum_pairs grid_rest_def
  by (subst sum.remove[of _ "(p, q)"]) auto

lemma grid_rest_cong:
  "(\<And>i j. (i, j) \<noteq> (p, q) \<Longrightarrow> f i j = g i j) \<Longrightarrow> grid_rest n k f p q = grid_rest n k g p q"
  unfolding grid_rest_def by (rule sum.cong) auto

lemma grid_sum_change:
  assumes "p < n" "q < k" "\<And>i j. (i, j) \<noteq> (p, q) \<Longrightarrow> g i j = f i j"
  shows "grid_sum n k g + f p q = grid_sum n k f + g p q"
proof -
  have "grid_rest n k g p q = grid_rest n k f p q"
    by (rule grid_rest_cong) (use assms(3) in auto)
  then show ?thesis
    using grid_sum_split[OF assms(1,2), of g] grid_sum_split[OF assms(1,2), of f] by simp
qed

lemma grid_cell_le: "p < n \<Longrightarrow> q < k \<Longrightarrow> f p q \<le> grid_sum n k f"
  by (simp add: grid_sum_split)

subsection \<open>Words without wrap-around\<close>

lemma unat_ucast_32_64 [simp, word_arith]: "unat (ucast (w :: u32) :: u64) = unat w"
  by (simp add: unsigned_ucast_eq take_bit_nat_eq_self_iff order_less_trans[OF unsigned_less])

lemma unat_plus_u64 [word_arith]:
  "unat (a :: u64) + unat b < 2 ^ 64 \<Longrightarrow> unat (a + b) = unat a + unat b"
  by (simp add: unat_word_ariths)

lemma unat_minus_le [word_arith]:
  "(b :: 'a::len word) \<le> a \<Longrightarrow> unat (a - b) = unat a - unat b"
  by (simp add: unat_sub)

lemma unat_u32_bound [simp]: "unat (w :: u32) < 2 ^ 32"
  using unsigned_less[of w, where ?'a = nat] by simp

lemma unat_u64_bound [simp]: "unat (w :: u64) < 2 ^ 64"
  using unsigned_less[of w, where ?'a = nat] by simp

lemma sum_mset_size_union [simp]:
  "sum_mset (image_mset f (A + B)) = sum_mset (image_mset f A) + sum_mset (image_mset f B)"
  by simp

end
