(* ===== verification/Cpp_Double.thy ===== *)
theory Cpp_Double
  imports Prelude "HOL-Library.Log_Nat"
begin

text \<open>
  The C++ type \<^verbatim>\<open>double\<close>: finite binary64 values as rational numbers, each arithmetic
  operation rounded to 53 significant bits, to nearest, ties to even (\<open>rnd\<close>).  Exponents are
  not bounded, so overflow to infinity and subnormal numbers are outside the model; a division by
  zero is reported as \<open>NotFinite\<close> by the operations that divide.  \<open>trunc_u64\<close> is the conversion
  to \<^verbatim>\<open>uint64_t\<close>: truncation towards zero, undefined behaviour (\<open>FloatCast\<close>) when the
  truncated value does not fit.

  The lemmas: rounding is monotone, odd, keeps the sign, is exact on numbers with at most 53
  significant bits (in particular on all integers up to \<open>2 ^ 53\<close>), and the conversion to
  \<^verbatim>\<open>uint64_t\<close> is monotone and exact on the integers it accepts.
\<close>

type_synonym double = rat

subsection \<open>Rounding an exact rational\<close>

definition rne :: "rat \<Rightarrow> int" where
  "rne r = (let f = \<lfloor>r\<rfloor>; d = r - of_int f in
     if d < 1 / 2 then f else if 1 / 2 < d then f + 1 else if even f then f else f + 1)"

definition expo :: "rat \<Rightarrow> int" where
  "expo x = (let (n, d) = quotient_of x;
                 e = int (floorlog 2 (nat n)) - int (floorlog 2 (nat d))
             in if 2 powi e \<le> x then e else e - 1)"

definition rnd :: "rat \<Rightarrow> double" where
  "rnd x = (if x = 0 then 0 else
     (let u = 2 powi (expo \<bar>x\<bar> - 52) in sgn x * (of_int (rne (\<bar>x\<bar> / u)) * u)))"

definition fadd :: "double \<Rightarrow> double \<Rightarrow> double" where "fadd x y = rnd (x + y)"
definition fsub :: "double \<Rightarrow> double \<Rightarrow> double" where "fsub x y = rnd (x - y)"
definition fmul :: "double \<Rightarrow> double \<Rightarrow> double" where "fmul x y = rnd (x * y)"
definition fdiv :: "double \<Rightarrow> double \<Rightarrow> double res" where
  "fdiv x y = (if y = 0 then Inl NotFinite else Inr (rnd (x / y)))"

definition u64_to_double :: "u64 \<Rightarrow> double" where "u64_to_double w = rnd (of_nat (unat w))"
definition u32_to_double :: "u32 \<Rightarrow> double" where "u32_to_double w = of_nat (unat w)"

definition trunc_u64 :: "double \<Rightarrow> u64 res" where
  "trunc_u64 x = (if -1 < x \<and> x < 2 ^ 64 then Inr (word_of_int (max 0 \<lfloor>x\<rfloor>)) else Inl FloatCast)"

subsection \<open>Rounding to an integer\<close>

lemma rne_of_int [simp]: "rne (of_int k) = k"
  by (simp add: rne_def)

lemma rne_bounds: "\<lfloor>r\<rfloor> \<le> rne r" "rne r \<le> \<lfloor>r\<rfloor> + 1"
  by (auto simp: rne_def Let_def)

lemma rne_mono: "r \<le> s \<Longrightarrow> rne r \<le> rne s"
proof (cases "\<lfloor>r\<rfloor> = \<lfloor>s\<rfloor>")
  case True
  assume "r \<le> s"
  with True show ?thesis by (auto simp: rne_def Let_def)
next
  case False
  assume "r \<le> s"
  then have "\<lfloor>r\<rfloor> + 1 \<le> \<lfloor>s\<rfloor>" using False floor_mono[of r s] by linarith
  then show ?thesis using rne_bounds[of r] rne_bounds[of s] by linarith
qed

lemma rne_nonneg: "0 \<le> r \<Longrightarrow> 0 \<le> rne r"
  using rne_mono[of 0 r] rne_of_int[of 0] by simp

subsection \<open>The binary exponent\<close>

lemma powi_2_pos [simp]: "0 < (2 :: rat) powi e"
  by (simp add: zero_less_power_int)

lemma powi_2_le: "a \<le> b \<Longrightarrow> (2 :: rat) powi a \<le> 2 powi b"
  by (rule power_int_increasing) auto

lemma powi_2_less_imp: "(2 :: rat) powi a < 2 powi b \<Longrightarrow> a < b"
  using powi_2_le[of b a] by (meson leD leI)

lemma powi_2_plus: "(2 :: rat) powi (a + b) = 2 powi a * 2 powi b"
  by (simp add: power_int_add)

lemma powi_2_quot: "(2 :: rat) ^ a / 2 ^ b = 2 powi (int a - int b)"
  by (simp add: power_int_diff)

lemma of_nat_bounds_rat:
  assumes "0 < n" "2 ^ a \<le> nat n" "nat n < 2 ^ b"
  shows "(2 :: rat) ^ a \<le> of_int n" "of_int n < (2 :: rat) ^ b"
proof -
  have "2 ^ a \<le> n" "n < 2 ^ b"
    using assms by (simp_all add: le_nat_iff nat_less_iff)
  then show "(2 :: rat) ^ a \<le> of_int n" "of_int n < (2 :: rat) ^ b" by simp_all
qed

lemma expo_bounds:
  assumes "0 < x"
  shows "2 powi expo x \<le> x" "x < 2 powi (expo x + 1)"
proof -
  obtain n d where q: "quotient_of x = (n, d)" by force
  have d: "0 < d" using quotient_of_denom_pos[OF q] .
  have x: "x = of_int n / of_int d" using quotient_of_div[OF q] .
  have n: "0 < n" using assms d x by (simp add: zero_less_divide_iff)
  define ln ld where "ln = floorlog 2 (nat n)" and "ld = floorlog 2 (nat d)"
  have pos: "0 < ln" "0 < ld" using n d by (auto simp: ln_def ld_def floorlog_def)
  have bn: "2 ^ (ln - 1) \<le> nat n" "nat n < 2 ^ ln"
    using floorlog_bounds[of "nat n" 2] n by (auto simp: ln_def)
  have bd: "2 ^ (ld - 1) \<le> nat d" "nat d < 2 ^ ld"
    using floorlog_bounds[of "nat d" 2] d by (auto simp: ld_def)
  note rn = of_nat_bounds_rat[OF n bn] and rd = of_nat_bounds_rat[OF d bd]
  define e where "e = int ln - int ld"
  have up: "x < 2 powi (e + 1)"
  proof -
    have "x < 2 ^ ln / 2 ^ (ld - 1)"
      unfolding x using rn(2) rd(1) d
      by (intro frac_less) (auto simp: n less_imp_le)
    also have "\<dots> = 2 powi (e + 1)"
      using pos by (simp add: powi_2_quot e_def of_nat_diff algebra_simps)
    finally show ?thesis .
  qed
  have lo: "2 powi (e - 1) < x"
  proof -
    have "(2 :: rat) powi (e - 1) = 2 ^ (ln - 1) / 2 ^ ld"
      using pos by (simp add: powi_2_quot e_def of_nat_diff algebra_simps)
    also have "\<dots> < x"
      unfolding x using rn(1) rd(2) d
      by (intro frac_less2) (auto simp: n less_imp_le)
    finally show ?thesis .
  qed
  have E: "expo x = (if 2 powi e \<le> x then e else e - 1)"
    by (simp add: expo_def q e_def ln_def ld_def)
  show "2 powi expo x \<le> x" using lo by (simp add: E)
  show "x < 2 powi (expo x + 1)" using up by (auto simp: E)
qed

lemma expo_eqI:
  assumes "2 powi e \<le> x" "x < 2 powi (e + 1)"
  shows "expo x = e"
proof -
  have x: "0 < x" using assms(1) powi_2_pos[of e] by linarith
  have "2 powi e < (2 :: rat) powi (expo x + 1)" "2 powi expo x < (2 :: rat) powi (e + 1)"
    using expo_bounds[OF x] assms by linarith+
  then show ?thesis using powi_2_less_imp[of e "expo x + 1"] powi_2_less_imp[of "expo x" "e + 1"]
    by linarith
qed

lemma expo_mono: "0 < x \<Longrightarrow> x \<le> y \<Longrightarrow> expo x \<le> expo y"
  using expo_bounds(1)[of x] expo_bounds(2)[of y] powi_2_less_imp[of "expo x" "expo y + 1"]
  by linarith

subsection \<open>Rounding\<close>

lemma rnd_0 [simp]: "rnd 0 = 0"
  by (simp add: rnd_def)

lemma rnd_minus: "rnd (- x) = - rnd x"
  by (simp add: rnd_def Let_def)

lemma rnd_pos_eq:
  "0 < x \<Longrightarrow> rnd x = of_int (rne (x / 2 powi (expo x - 52))) * 2 powi (expo x - 52)"
  by (simp add: rnd_def Let_def)

lemma rnd_nonneg: "0 \<le> x \<Longrightarrow> 0 \<le> rnd x"
  by (cases "x = 0") (auto simp: rnd_pos_eq intro!: mult_nonneg_nonneg rne_nonneg divide_nonneg_nonneg)

text \<open>Numbers with at most 53 significant bits are kept.\<close>

lemma rnd_exact_small:
  assumes "0 < m" "m < 2 ^ 53"
  shows "rnd (of_int m * 2 powi s) = of_int m * 2 powi s"
proof -
  define x where "x = (of_int m :: rat) * 2 powi s"
  have x: "0 < x" using assms by (simp add: x_def)
  have "x < 2 powi 53 * 2 powi s"
    unfolding x_def using assms(2) by (intro mult_strict_right_mono) auto
  then have "2 powi expo x < (2 :: rat) powi (53 + s)"
    using expo_bounds(1)[OF x] powi_2_plus[of 53 s] by simp
  then have "expo x < 53 + s" by (rule powi_2_less_imp)
  define k where "k = nat (s - (expo x - 52))"
  have k: "s = (expo x - 52) + int k" using \<open>expo x < 53 + s\<close> by (simp add: k_def)
  have "(2 :: rat) powi s = 2 powi (expo x - 52) * 2 ^ k"
    by (subst k) (simp add: powi_2_plus)
  then have x2: "x = of_int (m * 2 ^ k) * 2 powi (expo x - 52)"
    unfolding x_def by (simp add: mult.assoc mult.commute)
  then have "x / 2 powi (expo x - 52) = of_int (m * 2 ^ k)"
    by (metis nonzero_mult_div_cancel_right powi_2_pos less_numeral_extra(3))
  then have "rnd x = of_int (m * 2 ^ k) * 2 powi (expo x - 52)"
    by (simp only: rnd_pos_eq[OF x] rne_of_int)
  also have "\<dots> = x" using x2 by simp
  finally show ?thesis by (simp add: x_def)
qed

lemma rnd_exact:
  assumes "\<bar>m\<bar> \<le> 2 ^ 53"
  shows "rnd (of_int m * 2 powi s) = of_int m * 2 powi s"
proof -
  have pos: "rnd (of_int k * 2 powi s) = of_int k * 2 powi s" if k: "0 < k" "k \<le> 2 ^ 53" for k
  proof (cases "k < 2 ^ 53")
    case True
    with k(1) show ?thesis by (rule rnd_exact_small)
  next
    case False
    with k(2) have "k = 2 ^ 53" by simp
    then have "(of_int k :: rat) * 2 powi s = of_int 1 * 2 powi (53 + s)"
      by (simp add: powi_2_plus del: power_int_add_numeral)
    then show ?thesis using rnd_exact_small[of 1 "53 + s"] by simp
  qed
  consider "m = 0" | "0 < m" | "m < 0" by linarith
  then show ?thesis
  proof cases
    case 3
    with assms pos[of "- m"] show ?thesis by (simp add: rnd_minus)
  qed (use assms pos in auto)
qed

lemma rnd_of_int [simp]: "\<bar>m\<bar> \<le> 2 ^ 53 \<Longrightarrow> rnd (of_int m) = of_int m"
  using rnd_exact[of m 0] by simp

lemma rnd_powi [simp]: "rnd (2 powi s) = 2 powi s"
  using rnd_exact[of 1 s] by simp

lemma rne_expo_bound:
  assumes "0 < x"
  shows "2 ^ 52 \<le> rne (x / 2 powi (expo x - 52))" "rne (x / 2 powi (expo x - 52)) \<le> 2 ^ 53"
proof -
  define u where "u = (2 :: rat) powi (expo x - 52)"
  have u: "0 < u" by (simp add: u_def)
  have "(2 :: rat) powi expo x = of_int (2 ^ 52) * u"
    using powi_2_plus[of 52 "expo x - 52"] by (simp add: u_def)
  then have "of_int (2 ^ 52) \<le> x / u"
    using expo_bounds(1)[OF assms] u by (simp add: pos_le_divide_eq)
  then show "2 ^ 52 \<le> rne (x / 2 powi (expo x - 52))"
    using rne_mono rne_of_int u_def by metis
  have "(2 :: rat) powi (expo x + 1) = of_int (2 ^ 53) * u"
    using powi_2_plus[of 53 "expo x - 52"] by (simp add: u_def add.commute)
  then have "x / u \<le> of_int (2 ^ 53)"
    using expo_bounds(2)[OF assms] u by (simp add: pos_divide_le_eq)
  then show "rne (x / 2 powi (expo x - 52)) \<le> 2 ^ 53"
    using rne_mono rne_of_int u_def by metis
qed

text \<open>A rounded value is representable, so rounding again does nothing.\<close>

lemma rnd_rnd [simp]: "rnd (rnd x) = rnd x"
proof -
  have pos: "rnd (rnd y) = rnd y" if "0 < y" for y
    unfolding rnd_pos_eq[OF that] using rne_expo_bound[OF that] by (intro rnd_exact) simp
  consider "x = 0" | "0 < x" | "x < 0" by linarith
  then show ?thesis
  proof cases
    case 3 then show ?thesis using pos[of "- x"] by (simp add: rnd_minus)
  qed (use pos in auto)
qed

lemma rnd_mono_pos:
  assumes "0 < x" "x \<le> y"
  shows "rnd x \<le> rnd y"
proof (cases "expo x = expo y")
  case True
  have "x / 2 powi (expo y - 52) \<le> y / 2 powi (expo y - 52)"
    by (rule divide_right_mono[OF assms(2)]) (simp add: less_imp_le)
  then show ?thesis using assms True
    by (auto simp: rnd_pos_eq intro!: mult_right_mono rne_mono less_imp_le[OF powi_2_pos])
next
  case False
  then have lt: "expo x + 1 \<le> expo y" using expo_mono[OF assms] by simp
  have y: "0 < y" using assms by linarith
  have "rnd x \<le> of_int (2 ^ 53) * 2 powi (expo x - 52)"
    unfolding rnd_pos_eq[OF assms(1)] of_int_le_iff
    by (intro mult_right_mono less_imp_le[OF powi_2_pos])
       (simp only: of_int_le_iff rne_expo_bound[OF assms(1)])
  then have up: "rnd x \<le> 2 powi (expo x + 1)"
    using powi_2_plus[of 53 "expo x - 52"] by (simp add: add.commute)
  have "of_int (2 ^ 52) * 2 powi (expo y - 52) \<le> rnd y"
    unfolding rnd_pos_eq[OF y]
    by (intro mult_right_mono less_imp_le[OF powi_2_pos])
       (simp only: of_int_le_iff rne_expo_bound[OF y])
  then have lo: "2 powi expo y \<le> rnd y"
    using powi_2_plus[of 52 "expo y - 52"] by simp
  show ?thesis using up lo powi_2_le[OF lt] by linarith
qed

lemma rnd_mono: "x \<le> y \<Longrightarrow> rnd x \<le> rnd y"
proof -
  assume le: "x \<le> y"
  consider "0 < x" | "x \<le> 0" "0 \<le> y" | "y < 0" by linarith
  then show ?thesis
  proof cases
    case 1 then show ?thesis using rnd_mono_pos le by blast
  next
    case 2
    have "0 \<le> rnd (- x)" "0 \<le> rnd y" using 2 by (auto intro: rnd_nonneg)
    then show ?thesis by (simp add: rnd_minus)
  next
    case 3
    then have "rnd (- y) \<le> rnd (- x)" using le by (intro rnd_mono_pos) auto
    then show ?thesis by (simp add: rnd_minus)
  qed
qed

lemma rnd_le_of_int: "x \<le> of_int m \<Longrightarrow> \<bar>m\<bar> \<le> 2 ^ 53 \<Longrightarrow> rnd x \<le> of_int m"
  using rnd_mono[of x "of_int m"] by simp

lemma rnd_ge_of_int: "of_int m \<le> x \<Longrightarrow> \<bar>m\<bar> \<le> 2 ^ 53 \<Longrightarrow> of_int m \<le> rnd x"
  using rnd_mono[of "of_int m" x] by simp

text \<open>Scaling a double by a factor of at most one does not increase it.\<close>

lemma fmul_le_left: "rnd x = x \<Longrightarrow> 0 \<le> x \<Longrightarrow> y \<le> 1 \<Longrightarrow> fmul x y \<le> x"
  unfolding fmul_def using rnd_mono[of "x * y" x] mult_left_le[of y x] by simp

lemma fmul_nonneg: "0 \<le> x \<Longrightarrow> 0 \<le> y \<Longrightarrow> 0 \<le> fmul x y"
  by (simp add: fmul_def rnd_nonneg)

lemma fdiv_Inr: "fdiv x y = Inr z \<Longrightarrow> y \<noteq> 0 \<and> z = rnd (x / y)"
  by (auto simp: fdiv_def split: if_splits)

lemma rnd_fmul [simp]: "rnd (fmul x y) = fmul x y"
  by (simp add: fmul_def)

subsection \<open>Conversions\<close>

lemma rnd_of_nat: "n \<le> 2 ^ 53 \<Longrightarrow> rnd (of_nat n) = of_nat n"
  using rnd_of_int[of "int n"] by simp

lemma u64_to_double_exact: "unat w \<le> 2 ^ 53 \<Longrightarrow> u64_to_double w = of_nat (unat w)"
  unfolding u64_to_double_def by (rule rnd_of_nat)

lemma u64_to_double_nonneg [simp]: "0 \<le> u64_to_double w"
  unfolding u64_to_double_def by (rule rnd_nonneg) (rule of_nat_0_le_iff)

lemma u64_to_double_mono: "v \<le> w \<Longrightarrow> u64_to_double v \<le> u64_to_double w"
  unfolding u64_to_double_def word_le_nat_alt by (rule rnd_mono) (simp only: of_nat_le_iff)

lemma trunc_u64_of_nat:
  assumes "n < 2 ^ 64"
  shows "trunc_u64 (of_nat n) = Inr (of_nat n)"
proof -
  have "(of_nat n :: rat) < 2 ^ 64" using assms by simp
  moreover have "(-1 :: rat) < of_nat n" by (rule less_le_trans[of _ 0]) auto
  ultimately show ?thesis by (simp add: trunc_u64_def)
qed

lemma trunc_u64_unat: "trunc_u64 x = Inr w \<Longrightarrow> 0 \<le> x \<Longrightarrow> unat w = nat \<lfloor>x\<rfloor>"
proof -
  assume t: "trunc_u64 x = Inr w" and x: "0 \<le> x"
  then have lt: "x < 2 ^ 64" and w: "w = word_of_int \<lfloor>x\<rfloor>"
    by (auto simp: trunc_u64_def max_def split: if_splits)
  have "\<lfloor>x\<rfloor> < 2 ^ 64" using lt by (simp add: floor_less_iff)
  then show ?thesis using x by (simp add: w unsigned_of_int take_bit_int_eq_self)
qed

lemma trunc_u64_le: "trunc_u64 x = Inr w \<Longrightarrow> 0 \<le> x \<Longrightarrow> of_nat (unat w) \<le> x"
  using trunc_u64_unat[of x w] by (simp add: of_nat_nat)

lemma trunc_u64_ok: "0 \<le> x \<Longrightarrow> x < 2 ^ 64 \<Longrightarrow> \<exists>w. trunc_u64 x = Inr w"
  by (auto simp: trunc_u64_def)

lemma trunc_u64_mono:
  assumes "trunc_u64 x = Inr v" "trunc_u64 y = Inr w" "0 \<le> x" "x \<le> y"
  shows "v \<le> w"
  using assms trunc_u64_unat[of x v] trunc_u64_unat[of y w]
  by (simp add: word_le_nat_alt nat_mono floor_mono)

subsection \<open>Evaluation on numerals\<close>

lemma rne_near: "\<bar>r - of_int k\<bar> < 1 / 2 \<Longrightarrow> rne r = k"
proof -
  assume a: "\<bar>r - of_int k\<bar> < 1 / 2"
  then have "\<lfloor>r\<rfloor> = k \<or> \<lfloor>r\<rfloor> = k - 1" by linarith
  then show ?thesis using a by (auto simp: rne_def Let_def)
qed

lemma rnd_near:
  assumes "2 powi e \<le> x" "x < 2 powi (e + 1)" "\<bar>x / 2 powi (e - 52) - of_int k\<bar> < 1 / 2"
  shows "rnd x = of_int k * 2 powi (e - 52)"
proof -
  have "0 < x" using assms(1) powi_2_pos[of e] by linarith
  then show ?thesis using rne_near[OF assms(3)] by (simp add: rnd_pos_eq expo_eqI[OF assms(1,2)])
qed

named_theorems double_eval

lemma rnd_numeral [double_eval]: "(numeral n :: int) \<le> 2 ^ 53 \<Longrightarrow> rnd (numeral n) = numeral n"
  using rnd_of_int[of "numeral n"] by simp

lemma rnd_1 [double_eval, simp]: "rnd 1 = 1"
  using rnd_of_int[of 1] by simp

lemma u64_to_double_numeral [double_eval]:
  "unat (numeral n :: u64) \<le> 2 ^ 53 \<Longrightarrow> u64_to_double (numeral n) = of_nat (unat (numeral n :: u64))"
  by (rule u64_to_double_exact)

lemma u64_to_double_0 [double_eval, simp]: "u64_to_double 0 = 0"
  by (simp add: u64_to_double_def)

lemma u64_to_double_1 [double_eval, simp]: "u64_to_double 1 = 1"
  by (simp add: u64_to_double_def)

lemma trunc_u64_numeral [double_eval]:
  "(numeral n :: nat) < 2 ^ 64 \<Longrightarrow> trunc_u64 (numeral n) = Inr (numeral n)"
  using trunc_u64_of_nat[of "numeral n"] by simp

lemma trunc_u64_01 [double_eval, simp]: "trunc_u64 0 = Inr 0" "trunc_u64 1 = Inr 1"
  by (simp_all add: trunc_u64_def)

end
