(* ===== verification/Switch_Mmu.thy ===== *)
theory Switch_Mmu
  imports Cpp_Double
begin

text \<open>
  The shared-memory switch buffer (\<^verbatim>\<open>SwitchMmu\<close>, point-to-point/model/switch-mmu.h and
  switch-mmu.cc): its state, the constructor, the configuration setters and the small accessors.
  Thresholds are in \<open>Switch_Mmu_Threshold\<close>, admission control and the accounting invariant in
  \<open>Switch_Mmu_Admission\<close> and \<open>Switch_Mmu_Ledger\<close>.

  Byte counters are 64-bit words, packet sizes 32-bit words; \<^verbatim>\<open>double\<close> fields are values of
  \<open>Cpp_Double\<close>.  The arrays indexed by port and priority are functions; every operation that
  indexes them first checks the index against \<open>pCnt\<close> and \<open>qCnt\<close>.  The field \<open>scheduled\<close> records
  the delays passed to \<^verbatim>\<open>Simulator::Schedule\<close>.  The array \<^verbatim>\<open>hdrm_bytes\<close> and the number
  \<^verbatim>\<open>node_id\<close>, which no member function reads or writes, are left out.

  The lemmas show that the two configured totals, \<open>xoffTotal\<close> and \<open>totalIngressReserved\<close>, are at
  every moment the sums of the per-queue settings they summarise.
\<close>

subsection \<open>Constants and state\<close>

definition pCnt :: nat where "pCnt = 257"
definition qCnt :: nat where "qCnt = 8"

definition LOSSLESS :: nat where "LOSSLESS = 0"
definition LOSSY :: nat where "LOSSY = 1"

definition DT :: u32 where "DT = 101"
definition FAB :: u32 where "FAB = 102"
definition ABM :: u32 where "ABM = 110"

lemmas mmu_consts = pCnt_def qCnt_def LOSSLESS_def LOSSY_def DT_def FAB_def ABM_def

record mmu =
  kmin :: "u32 arr"
  kmax :: "u32 arr"
  pmax :: "double arr"
  bufferModel :: string
  bufferPool :: u64
  ingressPool :: u64
  egressPool :: "u64 arr"
  egressPoolAll :: u64
  sharedPool :: u64
  xoffTotal :: u64
  totalIngressReserved :: u64
  totalUsed :: u64
  egressPoolUsed :: "u64 arr"
  xoffTotalUsed :: u64
  totalIngressReservedUsed :: u64
  sharedPoolUsed :: u64
  reserveIngress :: "u64 arr2"
  reserveEgress :: "u64 arr2"
  alphaEgress :: "double arr2"
  alphaIngress :: "double arr2"
  xoff :: "u64 arr2"
  xon :: "u64 arr2"
  xon_offset :: "u64 arr2"
  ingress_bytes :: "u64 arr2"
  paused :: "u32 arr2"
  egress_bytes :: "u64 arr2"
  xoffUsed :: "u64 arr2"
  ingressLpf_bytes :: "u64 arr2"
  egressLpf_bytes :: "u64 arr2"
  ingressAlg :: "u32 arr"
  egressAlg :: "u32 arr"
  NofPIngress :: "double arr"
  NofPEgress :: "double arr"
  congestedIngress :: "double arr2"
  congestedEgress :: "double arr2"
  dequeueRateIngress :: "double arr2"
  dequeueRateEgress :: "double arr2"
  txBytesIngress :: "u64 arr2"
  txBytesEgress :: "u64 arr2"
  bandwidth :: "u64 arr"
  congestionIndicator :: u32
  alphaHigh :: double
  updateIntervalNS :: double
  dequeueUpdatedOnce :: u32
  portCount :: u32
  Reveriegamma :: double
  lpfUpdatedOnce :: u32
  scheduled :: "double list"

text \<open>
  The constructor leaves the ECN arrays \<^verbatim>\<open>kmin\<close>, \<^verbatim>\<open>kmax\<close>, \<^verbatim>\<open>pmax\<close> uninitialised:
  they are whatever memory held, the arguments of the model.
\<close>

definition SwitchMmu :: "u32 arr \<Rightarrow> u32 arr \<Rightarrow> double arr \<Rightarrow> mmu" where
  "SwitchMmu kmin0 kmax0 pmax0 = \<lparr>
     kmin = kmin0, kmax = kmax0, pmax = pmax0,
     bufferModel = ''sonic'',
     bufferPool = 24 * 1024 * 1024,
     ingressPool = 18 * 1024 * 1024,
     egressPool = (\<lambda>_. 0)(LOSSLESS := 24 * 1024 * 1024, LOSSY := 14 * 1024 * 1024),
     egressPoolAll = 24 * 1024 * 1024,
     sharedPool = 18 * 1024 * 1024,
     xoffTotal = 0,
     totalIngressReserved = 0,
     totalUsed = 0,
     egressPoolUsed = (\<lambda>_. 0),
     xoffTotalUsed = 0,
     totalIngressReservedUsed = 0,
     sharedPoolUsed = 0,
     reserveIngress = (\<lambda>_ _. 0),
     reserveEgress = (\<lambda>_ _. 0),
     alphaEgress = (\<lambda>_ _. 1),
     alphaIngress = (\<lambda>_ _. 1),
     xoff = (\<lambda>_ _. 0),
     xon = (\<lambda>_ _. 1248),
     xon_offset = (\<lambda>_ _. 2496),
     ingress_bytes = (\<lambda>_ _. 0),
     paused = (\<lambda>_ _. 0),
     egress_bytes = (\<lambda>_ _. 0),
     xoffUsed = (\<lambda>_ _. 0),
     ingressLpf_bytes = (\<lambda>_ _. 0),
     egressLpf_bytes = (\<lambda>_ _. 0),
     ingressAlg = (\<lambda>_. DT),
     egressAlg = (\<lambda>_. DT),
     NofPIngress = (\<lambda>_. 0),
     NofPEgress = (\<lambda>_. 0),
     congestedIngress = (\<lambda>_ _. 0),
     congestedEgress = (\<lambda>_ _. 0),
     dequeueRateIngress = (\<lambda>_ _. 1),
     dequeueRateEgress = (\<lambda>_ _. 1),
     txBytesIngress = (\<lambda>_ _. 0),
     txBytesEgress = (\<lambda>_ _. 0),
     bandwidth = (\<lambda>_. 25000000000),
     congestionIndicator = 20 * 1024,
     alphaHigh = 1024,
     updateIntervalNS = 25 * 1000,
     dequeueUpdatedOnce = 0,
     portCount = 257,
     Reveriegamma = rnd (99 / 100),
     lpfUpdatedOnce = 0,
     scheduled = [] \<rparr>"

subsection \<open>Configuration\<close>

definition ok_pq :: "nat \<Rightarrow> nat \<Rightarrow> bool" where
  "ok_pq port q \<longleftrightarrow> port < pCnt \<and> q < qCnt"

text \<open>A loop over all ports and priorities whose iterations write one cell each.\<close>

definition fill2 :: "'a \<Rightarrow> 'a arr2 \<Rightarrow> 'a arr2" where
  "fill2 v a = (\<lambda>port q. if ok_pq port q then v else a port q)"

text \<open>A loop over all ports and priorities whose iterations depend on each other.\<close>

definition for_pq :: "(nat \<Rightarrow> nat \<Rightarrow> 's \<Rightarrow> 's) \<Rightarrow> 's \<Rightarrow> 's" where
  "for_pq f = fold (\<lambda>port. fold (f port) [0..<qCnt]) [0..<pCnt]"

definition SetBufferModel :: "string \<Rightarrow> mmu \<Rightarrow> mmu" where
  "SetBufferModel model m = m\<lparr>bufferModel := model\<rparr>"

definition SetBufferPool :: "u64 \<Rightarrow> mmu \<Rightarrow> mmu" where
  "SetBufferPool b m = m\<lparr>bufferPool := b\<rparr>"

definition SetIngressPool :: "u64 \<Rightarrow> mmu \<Rightarrow> mmu" where
  "SetIngressPool b m = m\<lparr>ingressPool := b\<rparr>"

definition SetSharedPool :: "u64 \<Rightarrow> mmu \<Rightarrow> mmu" where
  "SetSharedPool b m = m\<lparr>sharedPool := b\<rparr>"

definition SetEgressPoolAll :: "u64 \<Rightarrow> mmu \<Rightarrow> mmu" where
  "SetEgressPoolAll b m = m\<lparr>egressPoolAll := b\<rparr>"

definition SetEgressLossyPool :: "u64 \<Rightarrow> mmu \<Rightarrow> mmu" where
  "SetEgressLossyPool b m = m\<lparr>egressPool := (egressPool m)(LOSSY := b)\<rparr>"

definition SetEgressLosslessPool :: "u64 \<Rightarrow> mmu \<Rightarrow> mmu" where
  "SetEgressLosslessPool b m = m\<lparr>egressPool := (egressPool m)(LOSSLESS := b)\<rparr>"

definition reserveCell :: "u64 \<Rightarrow> nat \<Rightarrow> nat \<Rightarrow> mmu \<Rightarrow> mmu" where
  "reserveCell b port q m =
     (let t = (if totalIngressReserved m \<ge> reserveIngress m port q
               then totalIngressReserved m - reserveIngress m port q else 0)
      in m\<lparr>reserveIngress := upd2 (reserveIngress m) port q b, totalIngressReserved := t + b\<rparr>)"

definition SetReserved :: "u64 \<Rightarrow> nat \<Rightarrow> nat \<Rightarrow> string \<Rightarrow> mmu \<Rightarrow> mmu res" where
  "SetReserved b port q inout m =
     (if inout = ''ingress'' then
        (if ok_pq port q then Inr (reserveCell b port q m) else Inl OutOfBounds)
      else if inout = ''egress'' then Inl Exit
      else Inr m)"

definition SetReservedAll :: "u64 \<Rightarrow> string \<Rightarrow> mmu \<Rightarrow> mmu res" where
  "SetReservedAll b inout m =
     (if inout = ''ingress'' then Inr (for_pq (reserveCell b) m)
      else if inout = ''egress'' then Inl Exit
      else Inr m)"

definition SetAlphaIngress :: "double \<Rightarrow> nat \<Rightarrow> nat \<Rightarrow> mmu \<Rightarrow> mmu res" where
  "SetAlphaIngress v port q m =
     (if ok_pq port q then Inr (m\<lparr>alphaIngress := upd2 (alphaIngress m) port q v\<rparr>)
      else Inl OutOfBounds)"

definition SetAlphaIngressAll :: "double \<Rightarrow> mmu \<Rightarrow> mmu" where
  "SetAlphaIngressAll v m = m\<lparr>alphaIngress := fill2 v (alphaIngress m)\<rparr>"

definition SetAlphaEgress :: "double \<Rightarrow> nat \<Rightarrow> nat \<Rightarrow> mmu \<Rightarrow> mmu res" where
  "SetAlphaEgress v port q m =
     (if ok_pq port q then Inr (m\<lparr>alphaEgress := upd2 (alphaEgress m) port q v\<rparr>)
      else Inl OutOfBounds)"

definition SetAlphaEgressAll :: "double \<Rightarrow> mmu \<Rightarrow> mmu" where
  "SetAlphaEgressAll v m = m\<lparr>alphaEgress := fill2 v (alphaEgress m)\<rparr>"

definition headroomCell :: "u64 \<Rightarrow> nat \<Rightarrow> nat \<Rightarrow> mmu \<Rightarrow> mmu" where
  "headroomCell b port q m =
     m\<lparr>xoffTotal := xoffTotal m - xoff m port q + b, xoff := upd2 (xoff m) port q b\<rparr>"

definition SetHeadroom :: "u64 \<Rightarrow> nat \<Rightarrow> nat \<Rightarrow> mmu \<Rightarrow> mmu res" where
  "SetHeadroom b port q m = (if ok_pq port q then Inr (headroomCell b port q m) else Inl OutOfBounds)"

definition SetHeadroomAll :: "u64 \<Rightarrow> mmu \<Rightarrow> mmu" where
  "SetHeadroomAll b m = for_pq (headroomCell b) m"

definition SetXon :: "u64 \<Rightarrow> nat \<Rightarrow> nat \<Rightarrow> mmu \<Rightarrow> mmu res" where
  "SetXon b port q m =
     (if ok_pq port q then Inr (m\<lparr>xon := upd2 (xon m) port q b\<rparr>) else Inl OutOfBounds)"

definition SetXonAll :: "u64 \<Rightarrow> mmu \<Rightarrow> mmu" where
  "SetXonAll b m = m\<lparr>xon := fill2 b (xon m)\<rparr>"

definition SetXonOffset :: "u64 \<Rightarrow> nat \<Rightarrow> nat \<Rightarrow> mmu \<Rightarrow> mmu res" where
  "SetXonOffset b port q m =
     (if ok_pq port q then Inr (m\<lparr>xon_offset := upd2 (xon_offset m) port q b\<rparr>) else Inl OutOfBounds)"

definition SetXonOffsetAll :: "u64 \<Rightarrow> mmu \<Rightarrow> mmu" where
  "SetXonOffsetAll b m = m\<lparr>xon_offset := fill2 b (xon_offset m)\<rparr>"

definition SetGamma :: "double \<Rightarrow> mmu \<Rightarrow> mmu" where
  "SetGamma v m = m\<lparr>Reveriegamma := v\<rparr>"

definition SetIngressLossyAlg :: "u32 \<Rightarrow> mmu \<Rightarrow> mmu" where
  "SetIngressLossyAlg alg m = m\<lparr>ingressAlg := (ingressAlg m)(LOSSY := alg)\<rparr>"

definition SetIngressLosslessAlg :: "u32 \<Rightarrow> mmu \<Rightarrow> mmu" where
  "SetIngressLosslessAlg alg m = m\<lparr>ingressAlg := (ingressAlg m)(LOSSLESS := alg)\<rparr>"

definition SetEgressLossyAlg :: "u32 \<Rightarrow> mmu \<Rightarrow> mmu" where
  "SetEgressLossyAlg alg m = m\<lparr>egressAlg := (egressAlg m)(LOSSY := alg)\<rparr>"

definition SetEgressLosslessAlg :: "u32 \<Rightarrow> mmu \<Rightarrow> mmu" where
  "SetEgressLosslessAlg alg m = m\<lparr>egressAlg := (egressAlg m)(LOSSLESS := alg)\<rparr>"

definition SetABMalphaHigh :: "double \<Rightarrow> mmu \<Rightarrow> mmu" where
  "SetABMalphaHigh alpha m = m\<lparr>alphaHigh := alpha\<rparr>"

definition SetABMdequeueUpdateNS :: "double \<Rightarrow> mmu \<Rightarrow> mmu" where
  "SetABMdequeueUpdateNS t m = m\<lparr>updateIntervalNS := t\<rparr>"

definition SetPortCount :: "u32 \<Rightarrow> mmu \<Rightarrow> mmu" where
  "SetPortCount pc m = m\<lparr>portCount := pc\<rparr>"

definition ConfigEcn :: "nat \<Rightarrow> u32 \<Rightarrow> u32 \<Rightarrow> double \<Rightarrow> mmu \<Rightarrow> mmu res" where
  "ConfigEcn port kmi kma pma m =
     (if port < pCnt
      then Inr (m\<lparr>kmin := (kmin m)(port := kmi * 1000), kmax := (kmax m)(port := kma * 1000),
                  pmax := (pmax m)(port := pma)\<rparr>)
      else Inl OutOfBounds)"

subsection \<open>Accessors and the pause state\<close>

definition GetIngressReservedUsed :: "mmu \<Rightarrow> u64" where
  "GetIngressReservedUsed m = totalIngressReservedUsed m"

definition GetIngressReservedUsedQ :: "mmu \<Rightarrow> nat \<Rightarrow> nat \<Rightarrow> u64" where
  "GetIngressReservedUsedQ m port q =
     (if ingress_bytes m port q > reserveIngress m port q
      then reserveIngress m port q else ingress_bytes m port q)"

definition GetIngressSharedUsed :: "mmu \<Rightarrow> u64" where
  "GetIngressSharedUsed m = totalUsed m - xoffTotalUsed m - totalIngressReservedUsed m"

definition GetHdrmBytes :: "mmu \<Rightarrow> nat \<Rightarrow> nat \<Rightarrow> u64" where
  "GetHdrmBytes m port q = xoffUsed m port q"

definition CheckShouldPause :: "nat \<Rightarrow> nat \<Rightarrow> mmu \<Rightarrow> bool res" where
  "CheckShouldPause port q m =
     (if ok_pq port q then Inr (paused m port q = 0 \<and> GetHdrmBytes m port q > 0)
      else Inl OutOfBounds)"

definition SetPause :: "nat \<Rightarrow> nat \<Rightarrow> mmu \<Rightarrow> mmu res" where
  "SetPause port q m =
     (if ok_pq port q then Inr (m\<lparr>paused := upd2 (paused m) port q 1\<rparr>) else Inl OutOfBounds)"

definition SetResume :: "nat \<Rightarrow> nat \<Rightarrow> mmu \<Rightarrow> mmu res" where
  "SetResume port q m =
     (if ok_pq port q then Inr (m\<lparr>paused := upd2 (paused m) port q 0\<rparr>) else Inl OutOfBounds)"

text \<open>
  \<^verbatim>\<open>ShouldSendCN\<close> draws a uniform variate only between the two thresholds; the variate is
  the argument \<open>u\<close>.  The subtraction \<^verbatim>\<open>egress_bytes - kmin\<close> is 64 bits wide,
  \<^verbatim>\<open>kmax - kmin\<close> 32 bits.
\<close>

definition ShouldSendCN :: "double \<Rightarrow> nat \<Rightarrow> nat \<Rightarrow> mmu \<Rightarrow> bool res" where
  "ShouldSendCN u ifindex q m =
     (if q = 0 then Inr False
      else if \<not> ok_pq ifindex q then Inl OutOfBounds
      else if egress_bytes m ifindex q > ucast (kmax m ifindex) then Inr True
      else if egress_bytes m ifindex q > ucast (kmin m ifindex) then
        bindr (fdiv (fmul (pmax m ifindex) (u64_to_double (egress_bytes m ifindex q - ucast (kmin m ifindex))))
                    (u32_to_double (kmax m ifindex - kmin m ifindex)))
              (\<lambda>p. Inr (u < p))
      else Inr False)"

subsection \<open>The configured totals\<close>

lemma for_pq_invariant:
  assumes "P m" "\<And>p q m. ok_pq p q \<Longrightarrow> P m \<Longrightarrow> P (f p q m)"
  shows "P (for_pq f m)"
proof -
  have inner: "P s \<Longrightarrow> set qs \<subseteq> {..<qCnt} \<Longrightarrow> p < pCnt \<Longrightarrow> P (fold (f p) qs s)" for p qs s
    by (induction qs arbitrary: s) (auto simp: assms(2) ok_pq_def)
  have row: "P s \<Longrightarrow> p < pCnt \<Longrightarrow> P (fold (f p) [0..<qCnt] s)" for p s
    by (rule inner) auto
  have all: "P s \<Longrightarrow> set ps \<subseteq> {..<pCnt} \<Longrightarrow> P (fold (\<lambda>p. fold (f p) [0..<qCnt]) ps s)" for ps s
    by (induction ps arbitrary: s) (simp_all add: row)
  show ?thesis unfolding for_pq_def by (rule all[OF assms(1)]) auto
qed

lemma for_pq_cells:
  assumes "\<And>p q m. g (f p q m) = upd2 (g m) p q b"
  shows "g (for_pq f m) = fill2 b (g m)"
proof -
  have inner: "g (fold (f p) qs s) = (\<lambda>i j. if i = p \<and> j \<in> set qs then b else g s i j)" for p qs s
    by (induction qs arbitrary: s) (auto simp: assms fun_eq_iff)
  have "g (fold (\<lambda>p. fold (f p) [0..<qCnt]) ps s) =
      (\<lambda>i j. if i \<in> set ps \<and> j < qCnt then b else g s i j)" for ps s
    by (induction ps arbitrary: s) (auto simp: inner fun_eq_iff)
  then show ?thesis by (simp add: for_pq_def fill2_def ok_pq_def fun_eq_iff)
qed

definition cfg_exact :: "mmu \<Rightarrow> bool" where
  "cfg_exact m \<longleftrightarrow> unat (xoffTotal m) = grid_sum pCnt qCnt (\<lambda>p q. unat (xoff m p q))
     \<and> unat (totalIngressReserved m) = grid_sum pCnt qCnt (\<lambda>p q. unat (reserveIngress m p q))"

lemma grid_sum_upd2:
  fixes a :: "u64 arr2"
  assumes "ok_pq p q"
  shows "grid_sum pCnt qCnt (\<lambda>i j. unat (upd2 a p q v i j)) + unat (a p q) =
         grid_sum pCnt qCnt (\<lambda>i j. unat (a i j)) + unat v"
proof -
  have "grid_sum pCnt qCnt (\<lambda>i j. unat (upd2 a p q v i j)) + unat (a p q) =
        grid_sum pCnt qCnt (\<lambda>i j. unat (a i j)) + unat (upd2 a p q v p q)"
    by (rule grid_sum_change) (use assms in \<open>auto simp: ok_pq_def\<close>)
  then show ?thesis by simp
qed

lemma cell_total:
  assumes "unat t = grid_sum pCnt qCnt (\<lambda>i j. unat (a i j))" "ok_pq p q"
    and "grid_sum pCnt qCnt (\<lambda>i j. unat (upd2 a p q b i j)) < 2 ^ 64"
  shows "a p q \<le> t" "unat (t - a p q + b) = grid_sum pCnt qCnt (\<lambda>i j. unat (upd2 a p q (b :: u64) i j))"
proof -
  have ch: "grid_sum pCnt qCnt (\<lambda>i j. unat (upd2 a p q b i j)) + unat (a p q) = unat t + unat b"
    using grid_sum_upd2[OF assms(2)] assms(1) by simp
  show le: "a p q \<le> t"
    using grid_cell_le[of p pCnt q qCnt "\<lambda>i j. unat (a i j)"] assms(1,2)
    by (simp add: ok_pq_def word_le_nat_alt)
  then have "unat (t - a p q) + unat b = grid_sum pCnt qCnt (\<lambda>i j. unat (upd2 a p q b i j))"
    using ch by (simp add: unat_minus_le word_le_nat_alt)
  then show "unat (t - a p q + b) = grid_sum pCnt qCnt (\<lambda>i j. unat (upd2 a p q b i j))"
    using assms(3) by (subst unat_plus_u64) auto
qed

lemma grid_small:
  assumes "\<And>p q. ok_pq p q \<Longrightarrow> unat (a p q :: u64) < 2 ^ 52"
  shows "grid_sum pCnt qCnt (\<lambda>p q. unat (a p q)) < 2 ^ 64"
proof -
  have "grid_sum pCnt qCnt (\<lambda>p q. unat (a p q)) \<le> grid_sum pCnt qCnt (\<lambda>p q. 2 ^ 52)"
    using assms by (intro grid_sum_mono less_imp_le) (simp add: ok_pq_def)
  also have "\<dots> < 2 ^ 64" by (simp add: grid_sum_def mmu_consts)
  finally show ?thesis .
qed

definition cfg_ok :: "mmu \<Rightarrow> bool" where
  "cfg_ok m \<longleftrightarrow> cfg_exact m \<and> (\<forall>p q. ok_pq p q \<longrightarrow> unat (xoff m p q) < 2 ^ 52 \<and> unat (reserveIngress m p q) < 2 ^ 52)"

lemma headroomCell_ok: "cfg_ok m \<Longrightarrow> ok_pq p q \<Longrightarrow> unat b < 2 ^ 52 \<Longrightarrow> cfg_ok (headroomCell b p q m)"
  using cell_total(2)[of "xoffTotal m" "xoff m" p q b, OF _ _ grid_small]
  by (simp add: cfg_ok_def cfg_exact_def headroomCell_def del: power_numeral upd2_apply) (simp del: power_numeral)

lemma reserveCell_ok: "cfg_ok m \<Longrightarrow> ok_pq p q \<Longrightarrow> unat b < 2 ^ 52 \<Longrightarrow> cfg_ok (reserveCell b p q m)"
  using cell_total[of "totalIngressReserved m" "reserveIngress m" p q b, OF _ _ grid_small]
  by (simp add: cfg_ok_def cfg_exact_def reserveCell_def del: power_numeral upd2_apply) (simp del: power_numeral)

text \<open>
  The configured totals are exact: from the freshly constructed buffer on, whatever headrooms
  and reserves below \<open>2 ^ 52\<close> bytes are set, for one queue or for all, \<^verbatim>\<open>xoffTotal\<close> is the
  sum of all \<^verbatim>\<open>xoff\<close> and \<^verbatim>\<open>totalIngressReserved\<close> the sum of all
  \<^verbatim>\<open>reserveIngress\<close>: neither the unguarded nor the guarded replacement drifts.
\<close>

lemma configured_totals:
  assumes "unat b < 2 ^ 52"
  shows "cfg_ok (SwitchMmu k1 k2 pm)
    \<and> (cfg_ok m \<and> SetHeadroom b p q m = Inr m' \<longrightarrow> cfg_ok m')
    \<and> (cfg_ok m \<longrightarrow> cfg_ok (SetHeadroomAll b m))
    \<and> (cfg_ok m \<and> SetReserved b p q io m = Inr m' \<longrightarrow> cfg_ok m')
    \<and> (cfg_ok m \<and> SetReservedAll b io m = Inr m' \<longrightarrow> cfg_ok m')"
proof -
  have "cfg_ok (SwitchMmu k1 k2 pm)"
    by (simp add: cfg_ok_def cfg_exact_def SwitchMmu_def)
  moreover have "cfg_ok m \<Longrightarrow> cfg_ok (for_pq (headroomCell b) m)"
    by (rule for_pq_invariant) (auto intro: headroomCell_ok assms)
  moreover have "cfg_ok m \<Longrightarrow> cfg_ok (for_pq (reserveCell b) m)"
    by (rule for_pq_invariant) (auto intro: reserveCell_ok assms)
  ultimately show ?thesis
    using headroomCell_ok[OF _ _ assms] reserveCell_ok[OF _ _ assms]
    by (auto simp: SetHeadroom_def SetHeadroomAll_def SetReserved_def SetReservedAll_def split: if_splits)
qed

text \<open>
  The loop that sets every headroom really sets every one, and the total is the product of
  the number of queues and the headroom, in 64-bit arithmetic.
\<close>

lemma headroom_for_all:
  "xoff (SetHeadroomAll b m) = (\<lambda>p q. if ok_pq p q then b else xoff m p q)
   \<and> reserveIngress (SetHeadroomAll b m) = reserveIngress m
   \<and> (cfg_ok m \<and> unat b < 2 ^ 52 \<longrightarrow> unat (xoffTotal (SetHeadroomAll b m)) = 2056 * unat b)"
proof -
  have x: "xoff (SetHeadroomAll b m) = fill2 b (xoff m)"
    unfolding SetHeadroomAll_def by (rule for_pq_cells) (simp add: headroomCell_def fun_eq_iff)
  have r: "reserveIngress (SetHeadroomAll b m) = reserveIngress m"
    unfolding SetHeadroomAll_def
    by (rule for_pq_invariant[where P = "\<lambda>n. reserveIngress n = reserveIngress m"])
       (simp_all add: headroomCell_def)
  have "unat (xoffTotal (SetHeadroomAll b m)) = 2056 * unat b" if "cfg_ok m" "unat b < 2 ^ 52"
  proof -
    have "cfg_ok (SetHeadroomAll b m)"
      unfolding SetHeadroomAll_def using that(1) by (rule for_pq_invariant) (auto intro: headroomCell_ok that(2))
    then have "unat (xoffTotal (SetHeadroomAll b m)) = grid_sum pCnt qCnt (\<lambda>p q. unat b)"
      unfolding cfg_ok_def cfg_exact_def x fill2_def ok_pq_def by (simp cong: grid_sum_cong)
    then show ?thesis by (simp add: grid_sum_def mmu_consts)
  qed
  then show ?thesis using x r by (simp add: fill2_def)
qed

end
