(* ===== verification/Switch_Mmu_Threshold.thy ===== *)
theory Switch_Mmu_Threshold
  imports Switch_Mmu
begin

text \<open>
  The buffer-sharing algorithms of \<^verbatim>\<open>SwitchMmu\<close>: dynamic thresholds, active buffer
  management, flow-aware buffering and the Reverie threshold, with the congestion bookkeeping
  they update on the way.  A threshold computation returns the new state beside the threshold,
  since \<^verbatim>\<open>ActiveBufferManagement\<close> and \<^verbatim>\<open>ReverieThreshold\<close> write
  \<^verbatim>\<open>NofPIngress\<close>, \<^verbatim>\<open>congestedIngress\<close> and the dequeue rates.

  The lemmas: every threshold is at most \<open>UINT64_MAX - 1024 * 1024\<close>; no threshold computation
  touches a byte counter (\<open>same_counters\<close>); with factors of at most one, the dynamic, flow-aware
  and Reverie thresholds never exceed what the pool still has; active buffer management with a
  dequeue rate of at most one never grants more than the flow-aware threshold with the same factor.
\<close>

subsection \<open>Congestion bookkeeping\<close>

definition setCongested :: "nat \<Rightarrow> nat \<Rightarrow> string \<Rightarrow> double \<Rightarrow> mmu \<Rightarrow> mmu" where
  "setCongested portId q inout satLevel m =
     (if inout = ''ingress'' then
        m\<lparr>NofPIngress := (NofPIngress m)(q := fadd (NofPIngress m q) (fsub satLevel (congestedIngress m portId q))),
          congestedIngress := upd2 (congestedIngress m) portId q satLevel\<rparr>
      else if inout = ''egress'' then
        m\<lparr>NofPEgress := (NofPEgress m)(q := fadd (NofPEgress m q) (fsub satLevel (congestedEgress m portId q))),
          congestedEgress := upd2 (congestedEgress m) portId q satLevel\<rparr>
      else m)"

definition GetNofP :: "string \<Rightarrow> nat \<Rightarrow> mmu \<Rightarrow> double" where
  "GetNofP inout q m =
     (if inout = ''ingress'' then (if NofPIngress m q < 1 then 1 else NofPIngress m q)
      else if inout = ''egress'' then (if NofPEgress m q < 1 then 1 else NofPEgress m q)
      else 0)"

definition getDequeueRate :: "nat \<Rightarrow> nat \<Rightarrow> string \<Rightarrow> mmu \<Rightarrow> double" where
  "getDequeueRate port q inout m =
     (if inout = ''ingress'' then dequeueRateIngress m port q
      else if inout = ''egress'' then dequeueRateEgress m port q
      else 0)"

definition dequeueRate :: "double \<Rightarrow> u64 \<Rightarrow> u64 \<Rightarrow> double res" where
  "dequeueRate interval temp bw =
     bindr (fdiv (fmul (fmul 1000000000 (u64_to_double temp)) 8) interval)
           (\<lambda>r. fdiv r (u64_to_double bw))"

definition rateCell :: "nat \<Rightarrow> nat \<Rightarrow> mmu \<Rightarrow> mmu res" where
  "rateCell i j m =
     (if \<not> ok_pq i j then Inl OutOfBounds else
      (let temp = txBytesIngress m i j in
       bindr (dequeueRate (updateIntervalNS m) temp (bandwidth m i)) (\<lambda>temp1.
       let m = m\<lparr>txBytesIngress := upd2 (txBytesIngress m) i j 0,
                 dequeueRateIngress := upd2 (dequeueRateIngress m) i j
                   (if ingress_bytes m i j > ucast (congestionIndicator m) \<and> temp > 2 * 1024
                    then temp1 else 1)\<rparr>;
           temp' = txBytesEgress m i j in
       bindr (dequeueRate (updateIntervalNS m) temp' (bandwidth m i)) (\<lambda>temp1'.
       Inr (m\<lparr>txBytesEgress := upd2 (txBytesEgress m) i j 0,
              dequeueRateEgress := upd2 (dequeueRateEgress m) i j
                (if egress_bytes m i j > ucast (congestionIndicator m) \<and> temp' > 2 * 1024
                 then temp1' else 1)\<rparr>)))))"

definition updateDequeueRates :: "mmu \<Rightarrow> mmu res" where
  "updateDequeueRates m =
     bindr (loopr (\<lambda>i. loopr (rateCell i) [0..<qCnt]) [0..<unat (portCount m)] m) (\<lambda>m.
     Inr (m\<lparr>dequeueUpdatedOnce := 1, scheduled := scheduled m @ [updateIntervalNS m]\<rparr>))"

subsection \<open>Thresholds\<close>

text \<open>\<^verbatim>\<open>UINT64_MAX - 1024 * 1024\<close>\<close>

definition thresholdCap :: u64 where
  "thresholdCap = - 1 - 1024 * 1024"

definition capped :: "u64 \<Rightarrow> u64" where
  "capped t = min t thresholdCap"

definition satLevelOf :: "u64 \<Rightarrow> mmu \<Rightarrow> double res" where
  "satLevelOf bytes m =
     bindr (fdiv (u64_to_double bytes) (u32_to_double (congestionIndicator m)))
           (\<lambda>satLevel. Inr (if satLevel > 1 then 1 else satLevel))"

definition DynamicThreshold :: "nat \<Rightarrow> nat \<Rightarrow> string \<Rightarrow> nat \<Rightarrow> mmu \<Rightarrow> u64 res" where
  "DynamicThreshold port q inout type m =
     (if inout = ''ingress'' then
        (let ingressPoolSharedUsed = GetIngressSharedUsed m;
             ingressSharedPool = ingressPool m - totalIngressReserved m in
         if ingressSharedPool > ingressPoolSharedUsed then
           (let remaining = ingressSharedPool - ingressPoolSharedUsed in
            bindr (trunc_u64 (fmul (alphaIngress m port q) (u64_to_double remaining)))
                  (\<lambda>t. Inr (capped t)))
         else Inr 0)
      else if inout = ''egress'' then
        (if egressPool m type > egressPoolUsed m type then
           (let remaining = egressPool m type - egressPoolUsed m type in
            bindr (trunc_u64 (fmul (alphaEgress m port q) (u64_to_double remaining)))
                  (\<lambda>t. Inr (capped t)))
         else Inr 0)
      else Inl NoReturn)"

definition abmThreshold :: "double \<Rightarrow> u64 \<Rightarrow> double \<Rightarrow> double \<Rightarrow> u64 res" where
  "abmThreshold alphaP remaining nofp rate =
     bindr (fdiv 1 nofp) (\<lambda>inv.
     bindr (trunc_u64 (fmul (fmul (fmul alphaP (u64_to_double remaining)) inv) rate))
           (\<lambda>t. Inr (capped t)))"

definition ActiveBufferManagement ::
    "nat \<Rightarrow> nat \<Rightarrow> string \<Rightarrow> nat \<Rightarrow> u32 \<Rightarrow> mmu \<Rightarrow> (mmu \<times> u64) res" where
  "ActiveBufferManagement port q inout type unsched m =
     bindr (if dequeueUpdatedOnce m = 0 then updateDequeueRates m else Inr m) (\<lambda>m.
     if inout = ''ingress'' then
       bindr (satLevelOf (ingress_bytes m port q) m) (\<lambda>satLevel.
       let ingressPoolSharedUsed = GetIngressSharedUsed m;
           ingressSharedPool = ingressPool m - totalIngressReserved m;
           m = setCongested port q inout satLevel m in
       if ingressSharedPool > ingressPoolSharedUsed then
         bindr (abmThreshold (if unsched \<noteq> 0 then alphaHigh m else alphaIngress m port q)
                  (ingressSharedPool - ingressPoolSharedUsed)
                  (GetNofP inout q m) (getDequeueRate port q inout m))
               (\<lambda>t. Inr (m, t))
       else Inr (m, 0))
     else if inout = ''egress'' then
       bindr (satLevelOf (egress_bytes m port q) m) (\<lambda>satLevel.
       let m = setCongested port q inout satLevel m in
       if egressPool m type > egressPoolUsed m type then
         bindr (abmThreshold (if unsched \<noteq> 0 then alphaHigh m else alphaEgress m port q)
                  (egressPool m type - egressPoolUsed m type)
                  (GetNofP inout q m) (getDequeueRate port q inout m))
               (\<lambda>t. Inr (m, t))
       else Inr (m, 0))
     else Inl NoReturn)"

definition FlowAwareBuffer :: "nat \<Rightarrow> nat \<Rightarrow> string \<Rightarrow> nat \<Rightarrow> u32 \<Rightarrow> mmu \<Rightarrow> u64 res" where
  "FlowAwareBuffer port q inout type unsched m =
     (if inout = ''ingress'' then
        (let ingressPoolSharedUsed = GetIngressSharedUsed m;
             ingressSharedPool = ingressPool m - totalIngressReserved m in
         if ingressSharedPool > ingressPoolSharedUsed then
           (let remaining = ingressSharedPool - ingressPoolSharedUsed;
                alphaP = (if unsched \<noteq> 0 then alphaHigh m else alphaIngress m port q) in
            bindr (trunc_u64 (fmul alphaP (u64_to_double remaining))) (\<lambda>t. Inr (capped t)))
         else Inr 0)
      else if inout = ''egress'' then
        (if egressPool m type > egressPoolUsed m type then
           (let remaining = egressPool m type - egressPoolUsed m type;
                alphaP = (if unsched \<noteq> 0 then alphaHigh m else alphaEgress m port q) in
            bindr (trunc_u64 (fmul alphaP (u64_to_double remaining))) (\<lambda>t. Inr (capped t)))
         else Inr 0)
      else Inl NoReturn)"

definition reverieValue :: "double \<Rightarrow> u64 \<Rightarrow> double \<Rightarrow> u64 res" where
  "reverieValue alphaP remaining nofp =
     bindr (fdiv 1 nofp) (\<lambda>inv.
     bindr (trunc_u64 (fmul (fmul alphaP (u64_to_double remaining)) inv)) (\<lambda>t. Inr (capped t)))"

definition ReverieThreshold :: "nat \<Rightarrow> nat \<Rightarrow> nat \<Rightarrow> u32 \<Rightarrow> mmu \<Rightarrow> (mmu \<times> u64) res" where
  "ReverieThreshold port q type unsched m =
     (if type = LOSSLESS then
        bindr (satLevelOf (ingressLpf_bytes m port q) m) (\<lambda>satLevel.
        let m = setCongested port q ''ingress'' satLevel m in
        if sharedPool m > sharedPoolUsed m then
          bindr (reverieValue (alphaIngress m port q) (sharedPool m - sharedPoolUsed m)
                   (GetNofP ''ingress'' q m)) (\<lambda>t. Inr (m, t))
        else Inr (m, 0))
      else if type = LOSSY then
        bindr (satLevelOf (egressLpf_bytes m port q) m) (\<lambda>satLevel.
        let m = setCongested port q ''egress'' satLevel m in
        if sharedPool m > sharedPoolUsed m then
          bindr (reverieValue (if unsched \<noteq> 0 then alphaHigh m else alphaEgress m port q)
                   (sharedPool m - sharedPoolUsed m) (GetNofP ''egress'' q m)) (\<lambda>t. Inr (m, t))
        else Inr (m, 0))
      else Inl NoReturn)"

definition keep :: "mmu \<Rightarrow> u64 res \<Rightarrow> (mmu \<times> u64) res" where
  "keep m r = bindr r (\<lambda>t. Inr (m, t))"

definition Threshold :: "nat \<Rightarrow> nat \<Rightarrow> string \<Rightarrow> nat \<Rightarrow> u32 \<Rightarrow> mmu \<Rightarrow> (mmu \<times> u64) res" where
  "Threshold port q inout type unsched m =
     (if \<not> ok_pq port q \<or> 2 \<le> type then Inl OutOfBounds
      else if inout = ''ingress'' then
        (if ingressAlg m type = DT then keep m (DynamicThreshold port q inout type m)
         else if ingressAlg m type = ABM then ActiveBufferManagement port q inout type unsched m
         else if ingressAlg m type = FAB then keep m (FlowAwareBuffer port q inout type unsched m)
         else keep m (DynamicThreshold port q inout type m))
      else if inout = ''egress'' then
        (if egressAlg m type = DT then keep m (DynamicThreshold port q inout type m)
         else if egressAlg m type = ABM then ActiveBufferManagement port q inout type unsched m
         else if egressAlg m type = FAB then keep m (FlowAwareBuffer port q inout type unsched m)
         else keep m (DynamicThreshold port q inout type m))
      else Inr (m, 0))"

subsection \<open>Thresholds leave the byte counters alone\<close>

text \<open>
  Two states that differ at most in the congestion bookkeeping: the dequeue rates and their
  counters, the congestion levels, and the events scheduled.
\<close>

definition forget_congestion :: "mmu \<Rightarrow> mmu" where
  "forget_congestion m = m\<lparr>NofPIngress := (\<lambda>_. 0), NofPEgress := (\<lambda>_. 0),
     congestedIngress := (\<lambda>_ _. 0), congestedEgress := (\<lambda>_ _. 0),
     dequeueRateIngress := (\<lambda>_ _. 0), dequeueRateEgress := (\<lambda>_ _. 0),
     txBytesIngress := (\<lambda>_ _. 0), txBytesEgress := (\<lambda>_ _. 0),
     dequeueUpdatedOnce := 0, scheduled := []\<rparr>"

definition same_counters :: "mmu \<Rightarrow> mmu \<Rightarrow> bool" where
  "same_counters m m' \<longleftrightarrow> forget_congestion m = forget_congestion m'"

lemma same_counters_refl [simp]: "same_counters m m"
  by (simp add: same_counters_def)

lemma same_counters_trans: "same_counters a b \<Longrightarrow> same_counters b c \<Longrightarrow> same_counters a c"
  by (simp add: same_counters_def)

lemma forget_fields [simp]:
    "bufferModel (forget_congestion m) = bufferModel m"
    "bufferPool (forget_congestion m) = bufferPool m"
    "ingressPool (forget_congestion m) = ingressPool m"
    "egressPool (forget_congestion m) = egressPool m"
    "sharedPool (forget_congestion m) = sharedPool m"
    "xoffTotal (forget_congestion m) = xoffTotal m"
    "totalIngressReserved (forget_congestion m) = totalIngressReserved m"
    "totalUsed (forget_congestion m) = totalUsed m"
    "egressPoolUsed (forget_congestion m) = egressPoolUsed m"
    "xoffTotalUsed (forget_congestion m) = xoffTotalUsed m"
    "totalIngressReservedUsed (forget_congestion m) = totalIngressReservedUsed m"
    "sharedPoolUsed (forget_congestion m) = sharedPoolUsed m"
    "reserveIngress (forget_congestion m) = reserveIngress m" "xoff (forget_congestion m) = xoff m"
    "xon (forget_congestion m) = xon m" "xon_offset (forget_congestion m) = xon_offset m"
    "ingress_bytes (forget_congestion m) = ingress_bytes m"
    "paused (forget_congestion m) = paused m" "egress_bytes (forget_congestion m) = egress_bytes m"
    "xoffUsed (forget_congestion m) = xoffUsed m"
    "ingressLpf_bytes (forget_congestion m) = ingressLpf_bytes m"
    "egressLpf_bytes (forget_congestion m) = egressLpf_bytes m"
    "ingressAlg (forget_congestion m) = ingressAlg m"
    "egressAlg (forget_congestion m) = egressAlg m"
    "alphaIngress (forget_congestion m) = alphaIngress m"
    "alphaEgress (forget_congestion m) = alphaEgress m"
    "alphaHigh (forget_congestion m) = alphaHigh m"
    "Reveriegamma (forget_congestion m) = Reveriegamma m" "kmin (forget_congestion m) = kmin m"
    "kmax (forget_congestion m) = kmax m" "pmax (forget_congestion m) = pmax m"
    "congestionIndicator (forget_congestion m) = congestionIndicator m"
    "portCount (forget_congestion m) = portCount m" "bandwidth (forget_congestion m) = bandwidth m"
    "updateIntervalNS (forget_congestion m) = updateIntervalNS m"
  by (simp_all add: forget_congestion_def)

lemma same_counters_fields:
  assumes "same_counters m m'"
  shows
    "bufferModel m' = bufferModel m" "bufferPool m' = bufferPool m"
    "ingressPool m' = ingressPool m" "egressPool m' = egressPool m" "sharedPool m' = sharedPool m"
    "xoffTotal m' = xoffTotal m" "totalIngressReserved m' = totalIngressReserved m"
    "totalUsed m' = totalUsed m" "egressPoolUsed m' = egressPoolUsed m"
    "xoffTotalUsed m' = xoffTotalUsed m" "totalIngressReservedUsed m' = totalIngressReservedUsed m"
    "sharedPoolUsed m' = sharedPoolUsed m" "reserveIngress m' = reserveIngress m"
    "xoff m' = xoff m" "xon m' = xon m" "xon_offset m' = xon_offset m"
    "ingress_bytes m' = ingress_bytes m" "paused m' = paused m" "egress_bytes m' = egress_bytes m"
    "xoffUsed m' = xoffUsed m" "ingressLpf_bytes m' = ingressLpf_bytes m"
    "egressLpf_bytes m' = egressLpf_bytes m" "ingressAlg m' = ingressAlg m"
    "egressAlg m' = egressAlg m" "alphaIngress m' = alphaIngress m"
    "alphaEgress m' = alphaEgress m" "alphaHigh m' = alphaHigh m"
    "Reveriegamma m' = Reveriegamma m" "kmin m' = kmin m" "kmax m' = kmax m" "pmax m' = pmax m"
    "congestionIndicator m' = congestionIndicator m" "portCount m' = portCount m"
    "bandwidth m' = bandwidth m" "updateIntervalNS m' = updateIntervalNS m"
  using assms unfolding same_counters_def by (metis forget_fields)+

lemma same_counters_setCongested [simp]: "same_counters m (setCongested p q io l m)"
  by (simp add: same_counters_def forget_congestion_def setCongested_def)

lemma setCongested_fields [simp]:
  "alphaHigh (setCongested p q io l m) = alphaHigh m"
  "alphaIngress (setCongested p q io l m) = alphaIngress m"
  "alphaEgress (setCongested p q io l m) = alphaEgress m"
  "egressPool (setCongested p q io l m) = egressPool m"
  "egressPoolUsed (setCongested p q io l m) = egressPoolUsed m"
  "getDequeueRate p' q' io' (setCongested p q io l m) = getDequeueRate p' q' io' m"
  by (simp_all add: setCongested_def getDequeueRate_def)

lemma same_counters_rateCell:
  assumes "rateCell i j m = Inr m'"
  shows "same_counters m m'"
  using assms unfolding rateCell_def Let_def
  by (auto simp: same_counters_def forget_congestion_def split: if_splits elim!: bindr_InrE)

lemma same_counters_updateDequeueRates:
  assumes "updateDequeueRates m = Inr m'"
  shows "same_counters m m'"
proof -
  obtain n where l: "loopr (\<lambda>i. loopr (rateCell i) [0..<qCnt]) [0..<unat (portCount m)] m = Inr n"
    and m': "m' = n\<lparr>dequeueUpdatedOnce := 1, scheduled := scheduled n @ [updateIntervalNS n]\<rparr>"
    using assms unfolding updateDequeueRates_def by (auto elim!: bindr_InrE)
  have "same_counters m n"
  proof (rule loopr_invariant[OF l])
    fix i s t
    assume "same_counters m s" and t: "loopr (rateCell i) [0..<qCnt] s = Inr t"
    from t this(1) show "same_counters m t"
      by (rule loopr_invariant) (blast intro: same_counters_trans same_counters_rateCell)
  qed simp
  moreover have "same_counters n m'"
    by (simp add: m' same_counters_def forget_congestion_def)
  ultimately show ?thesis by (rule same_counters_trans)
qed

lemma same_counters_ABM:
  assumes "ActiveBufferManagement p q io t u m = Inr (m', v)"
  shows "same_counters m m'"
proof -
  obtain n where n: "(if dequeueUpdatedOnce m = 0 then updateDequeueRates m else Inr m) = Inr n"
    and rest: "same_counters n m'"
    using assms unfolding ActiveBufferManagement_def Let_def
    by (auto split: if_splits elim!: bindr_InrE)
  have "same_counters m n"
    using n by (auto split: if_splits intro: same_counters_updateDequeueRates)
  then show ?thesis using rest by (rule same_counters_trans)
qed

lemma same_counters_Reverie:
  assumes "ReverieThreshold p q t u m = Inr (m', v)"
  shows "same_counters m m'"
  using assms unfolding ReverieThreshold_def Let_def
  by (auto split: if_splits elim!: bindr_InrE)

lemma keep_Inr [simp]: "keep m r = Inr (m', v) \<longleftrightarrow> m' = m \<and> r = Inr v"
  by (cases r) (auto simp: keep_def)

lemma same_counters_Threshold:
  assumes "Threshold p q io t u m = Inr (m', v)"
  shows "same_counters m m'"
  using assms unfolding Threshold_def
  by (auto split: if_splits intro: same_counters_ABM)

subsection \<open>Bounds\<close>

lemma capped_le [simp]: "capped t \<le> thresholdCap"
  by (simp add: capped_def)

lemma capped_mono: "s \<le> t \<Longrightarrow> capped s \<le> capped t"
  by (auto simp: capped_def min_def)

lemma DynamicThreshold_le_cap: "DynamicThreshold p q io t m = Inr v \<Longrightarrow> v \<le> thresholdCap"
  by (auto simp: DynamicThreshold_def Let_def split: if_splits elim!: bindr_InrE)

lemma FlowAwareBuffer_le_cap: "FlowAwareBuffer p q io t u m = Inr v \<Longrightarrow> v \<le> thresholdCap"
  by (auto simp: FlowAwareBuffer_def Let_def split: if_splits elim!: bindr_InrE)

lemma abmThreshold_le_cap: "abmThreshold a r n d = Inr v \<Longrightarrow> v \<le> thresholdCap"
  by (auto simp: abmThreshold_def elim!: bindr_InrE)

lemma ABM_le_cap: "ActiveBufferManagement p q io t u m = Inr (m', v) \<Longrightarrow> v \<le> thresholdCap"
  unfolding ActiveBufferManagement_def Let_def
  by (auto split: if_splits elim!: bindr_InrE) (erule abmThreshold_le_cap)+

lemma Reverie_le_cap: "ReverieThreshold p q t u m = Inr (m', v) \<Longrightarrow> v \<le> thresholdCap"
  unfolding ReverieThreshold_def reverieValue_def Let_def
  by (auto split: if_splits elim!: bindr_InrE)

lemma Threshold_le_cap: "Threshold p q io t u m = Inr (m', v) \<Longrightarrow> v \<le> thresholdCap"
  unfolding Threshold_def
  by (auto split: if_splits dest: DynamicThreshold_le_cap FlowAwareBuffer_le_cap ABM_le_cap)

lemma share_le:
  assumes "trunc_u64 (fmul a (u64_to_double r)) = Inr t" "0 \<le> a" "a \<le> 1" "unat r \<le> 2 ^ 53"
  shows "t \<le> r"
proof -
  have r: "u64_to_double r = of_nat (unat r)" using assms(4) by (rule u64_to_double_exact)
  have "fmul (of_nat (unat r)) a \<le> of_nat (unat r)"
    using assms(3,4) by (intro fmul_le_left rnd_of_nat of_nat_0_le_iff)
  then have le: "fmul a (u64_to_double r) \<le> of_nat (unat r)"
    by (simp only: r fmul_def mult.commute)
  have "of_nat (unat t) \<le> fmul a (u64_to_double r)"
    using assms by (intro trunc_u64_le fmul_nonneg) auto
  then have "(of_nat (unat t) :: rat) \<le> of_nat (unat r)" using le by (rule order_trans)
  then show ?thesis by (simp only: of_nat_le_iff word_le_nat_alt)
qed

lemmas threshold_eval =
  SwitchMmu_def ok_pq_def mmu_consts Threshold_def DynamicThreshold_def ActiveBufferManagement_def
  FlowAwareBuffer_def abmThreshold_def satLevelOf_def setCongested_def GetNofP_def getDequeueRate_def
  GetIngressSharedUsed_def keep_def capped_def thresholdCap_def u32_to_double_def
  fmul_def fadd_def fsub_def fdiv_def double_eval Let_def

lemma capped_le_arg: "capped t \<le> t"
  by (simp add: capped_def)

lemma GetNofP_ge_1: "io = ''ingress'' \<or> io = ''egress'' \<Longrightarrow> 1 \<le> GetNofP io q m"
  by (auto simp: GetNofP_def)

lemma abmThreshold_le_share:
  assumes "abmThreshold a r n d = Inr v" "trunc_u64 (fmul a (u64_to_double r)) = Inr w"
    and "0 \<le> a" "1 \<le> n" "0 \<le> d" "d \<le> 1"
  shows "v \<le> capped w"
proof -
  define x where "x = fmul a (u64_to_double r)"
  define i where "i = rnd (1 / n)"
  have i: "0 \<le> i" "i \<le> 1"
    using assms(4) rnd_nonneg[of "1 / n"] rnd_le_of_int[of "1 / n" 1] by (auto simp: i_def)
  have x: "0 \<le> x" unfolding x_def using assms(3) by (intro fmul_nonneg) auto
  have "fdiv 1 n = Inr i" using assms(4) by (simp add: fdiv_def i_def)
  then obtain t where t: "trunc_u64 (fmul (fmul x i) d) = Inr t" and v: "v = capped t"
    using assms(1) by (auto simp: abmThreshold_def x_def elim!: bindr_InrE)
  have "fmul x i \<le> x" using x i by (intro fmul_le_left) (simp_all add: x_def)
  moreover have "fmul (fmul x i) d \<le> fmul x i"
    using x i assms by (intro fmul_le_left fmul_nonneg) simp_all
  ultimately have "fmul (fmul x i) d \<le> x" by linarith
  moreover have "0 \<le> fmul (fmul x i) d" using x i assms by (intro fmul_nonneg) auto
  ultimately have "t \<le> w" using trunc_u64_mono[OF t] assms(2) by (auto simp: x_def)
  then show ?thesis unfolding v by (rule capped_mono)
qed

subsection \<open>Thresholds and the free buffer\<close>

text \<open>
  What is left of a pool, as a natural number: nothing when at least as much is used as the pool
  holds, a state the code reaches when headroom packets are charged or pools are reconfigured.
\<close>

definition freeIngress :: "mmu \<Rightarrow> nat" where
  "freeIngress m = unat (ingressPool m - totalIngressReserved m) - unat (GetIngressSharedUsed m)"

definition freeEgress :: "nat \<Rightarrow> mmu \<Rightarrow> nat" where
  "freeEgress t m = unat (egressPool m t) - unat (egressPoolUsed m t)"

definition freeShared :: "mmu \<Rightarrow> nat" where
  "freeShared m = unat (sharedPool m) - unat (sharedPoolUsed m)"

definition fraction :: "double \<Rightarrow> bool" where
  "fraction a \<longleftrightarrow> 0 \<le> a \<and> a \<le> 1"

lemma free_word: "b < (a :: u64) \<Longrightarrow> unat (a - b) = unat a - unat b"
  by (simp add: unat_sub order_less_imp_le)

lemma share_total:
  assumes "fraction a" "unat r \<le> 2 ^ 53"
  shows "\<exists>t. trunc_u64 (fmul a (u64_to_double r)) = Inr t \<and> t \<le> r"
proof -
  have r: "u64_to_double r = of_nat (unat r)" using assms(2) by (rule u64_to_double_exact)
  have "fmul (u64_to_double r) a \<le> u64_to_double r"
    by (rule fmul_le_left[OF _ u64_to_double_nonneg]) (use assms(1) in \<open>simp_all add: u64_to_double_def fraction_def\<close>)
  then have "fmul a (u64_to_double r) \<le> of_nat (unat r)" by (simp only: r fmul_def mult.commute)
  moreover have "(of_nat (unat r) :: rat) < 2 ^ 64"
    using of_nat_le_iff[where ?'a = rat, of "unat r" "2 ^ 53"] assms(2) by simp
  ultimately have "fmul a (u64_to_double r) < 2 ^ 64" by linarith
  moreover have "0 \<le> fmul a (u64_to_double r)" using assms(1) by (intro fmul_nonneg) (simp_all add: fraction_def)
  ultimately obtain t where t: "trunc_u64 (fmul a (u64_to_double r)) = Inr t" using trunc_u64_ok by blast
  with share_le[OF t] assms show ?thesis by (auto simp: fraction_def)
qed

lemma scaled_total:
  assumes "fraction a" "1 \<le> n" "unat r \<le> 2 ^ 53"
  shows "\<exists>t. reverieValue a r n = Inr t \<and> t \<le> r"
proof -
  let ?x = "fmul a (u64_to_double r)"
  define i where "i = rnd (1 / n)"
  have i: "0 \<le> i" "i \<le> 1"
    using assms(2) rnd_nonneg[of "1 / n"] rnd_le_of_int[of "1 / n" 1] by (auto simp: i_def)
  obtain w where w: "trunc_u64 ?x = Inr w" "w \<le> r" using share_total[OF assms(1,3)] by blast
  have x: "0 \<le> ?x" using assms(1) by (intro fmul_nonneg) (simp_all add: fraction_def)
  have le: "fmul ?x i \<le> ?x" using x i by (intro fmul_le_left) simp_all
  have lt: "?x < 2 ^ 64" using w(1) by (auto simp: trunc_u64_def split: if_splits)
  have nn: "0 \<le> fmul ?x i" by (rule fmul_nonneg[OF x i(1)])
  obtain t where t: "trunc_u64 (fmul ?x i) = Inr t" using trunc_u64_ok[OF nn] le lt by auto
  have "t \<le> w" using trunc_u64_mono[OF t w(1) nn le] .
  moreover have "fdiv 1 n = Inr i" using assms(2) by (simp add: fdiv_def i_def)
  ultimately show ?thesis using t w(2) capped_le_arg[of t] by (auto simp: reverieValue_def)
qed

lemma capped_le_nat: "t \<le> r \<Longrightarrow> unat (capped t) \<le> unat r"
  using capped_le_arg[of t] by (simp add: word_le_nat_alt)

text \<open>
  C31.  No threshold promises buffer that is not free: with factors between zero and one, the
  dynamic threshold and the flow-aware threshold of the ingress and of the egress pool, and the
  Reverie threshold of the shared pool, are at most what the pool still has, and zero when the pool is used
  up or overdrawn, rounding of the \<^verbatim>\<open>double\<close> products included, for pools of up to
  \<open>2 ^ 53\<close> bytes.  None of these computations fails: the products stay in the range of
  \<^verbatim>\<open>uint64_t\<close>.
\<close>

theorem thresholds_le_free:
  assumes "fraction (alphaIngress m p q)" "fraction (alphaEgress m p q)" "u = 0 \<or> fraction (alphaHigh m)"
    and "unat (ingressPool m - totalIngressReserved m) \<le> 2 ^ 53" "unat (egressPool m t) \<le> 2 ^ 53" "unat (sharedPool m) \<le> 2 ^ 53"
    and "congestionIndicator m \<noteq> 0" "t < 2"
  shows "(\<exists>v. DynamicThreshold p q ''ingress'' t m = Inr v \<and> unat v \<le> freeIngress m)
    \<and> (\<exists>v. DynamicThreshold p q ''egress'' t m = Inr v \<and> unat v \<le> freeEgress t m)
    \<and> (\<exists>v. FlowAwareBuffer p q ''ingress'' t u m = Inr v \<and> unat v \<le> freeIngress m)
    \<and> (\<exists>v. FlowAwareBuffer p q ''egress'' t u m = Inr v \<and> unat v \<le> freeEgress t m)
    \<and> (\<exists>m' v. ReverieThreshold p q t u m = Inr (m', v) \<and> unat v \<le> freeShared m)"
proof -
  have dt: "\<exists>v. (if used < pool then bindr (trunc_u64 (fmul a (u64_to_double (pool - used)))) (\<lambda>t. Inr (capped t)) else Inr 0)
      = Inr v \<and> unat v \<le> unat pool - unat used" if "fraction a" "unat pool \<le> 2 ^ 53" for a and pool used :: u64
  proof (cases "used < pool")
    case True
    have "unat (pool - used) \<le> 2 ^ 53" using that(2) free_word[OF True] by simp
    from share_total[OF that(1) this] show ?thesis using True capped_le_nat free_word[OF True] by fastforce
  qed simp
  have rv: "\<exists>m' v. (if used < pool then bindr (reverieValue a (pool - used) n) (\<lambda>t. Inr (m1, t)) else Inr (m1, 0))
      = Inr (m', v) \<and> unat v \<le> unat pool - unat used"
    if "fraction a" "unat pool \<le> 2 ^ 53" "1 \<le> n" for a n and pool used :: u64 and m1 :: mmu
  proof (cases "used < pool")
    case True
    have "unat (pool - used) \<le> 2 ^ 53" using that(2) free_word[OF True] by simp
    from scaled_total[OF that(1,3) this] show ?thesis using True free_word[OF True] by (auto simp: word_le_nat_alt)
  qed simp
  have sat: "\<exists>s. satLevelOf b m = Inr s" for b
    using assms(7) by (simp add: satLevelOf_def fdiv_def u32_to_double_def unsigned_eq_0_iff)
  have a: "fraction (if u \<noteq> 0 then alphaHigh m else alphaIngress m p q)" "fraction (if u \<noteq> 0 then alphaHigh m else alphaEgress m p q)"
    using assms(1-3) by auto
  have s: "alphaHigh (setCongested p q io l m) = alphaHigh m" "alphaIngress (setCongested p q io l m) = alphaIngress m"
    "alphaEgress (setCongested p q io l m) = alphaEgress m" "sharedPool (setCongested p q io l m) = sharedPool m"
    "sharedPoolUsed (setCongested p q io l m) = sharedPoolUsed m" for io l
    by (simp_all add: setCongested_def)
  obtain si se where si: "satLevelOf (ingressLpf_bytes m p q) m = Inr si" and se: "satLevelOf (egressLpf_bytes m p q) m = Inr se"
    using sat by blast
  have io: "1 \<le> GetNofP ''ingress'' q m1" "1 \<le> GetNofP ''egress'' q m1" for m1 by (rule GetNofP_ge_1, simp)+
  have "\<exists>m' v. ReverieThreshold p q t u m = Inr (m', v) \<and> unat v \<le> freeShared m"
  proof (cases "t = LOSSLESS")
    case True
    then show ?thesis using rv[OF assms(1,6) io(1)]
      unfolding ReverieThreshold_def freeShared_def Let_def si bindr_simps s by (simp add: True)
  next
    case False
    then have "t = LOSSY" using assms(8) by (auto simp: mmu_consts less_2_cases_iff)
    then show ?thesis using rv[OF a(2) assms(6) io(2)] False
      unfolding ReverieThreshold_def freeShared_def Let_def se bindr_simps s by simp
  qed
  moreover note dt[OF assms(1,4), of "GetIngressSharedUsed m"] dt[OF assms(2,5), of "egressPoolUsed m t"]
    dt[OF a(1) assms(4), of "GetIngressSharedUsed m"] dt[OF a(2) assms(5), of "egressPoolUsed m t"]
  ultimately show ?thesis
    unfolding DynamicThreshold_def FlowAwareBuffer_def freeIngress_def freeEgress_def Let_def by simp
qed

theorem thresholds_le_free_witness:
  "DynamicThreshold 0 3 ''ingress'' LOSSLESS ((SwitchMmu (\<lambda>_. 0) (\<lambda>_. 0) (\<lambda>_. 0))\<lparr>totalUsed := 19 * 1024 * 1024\<rparr>) = Inr 0
   \<and> (\<exists>v. DynamicThreshold 0 3 ''ingress'' LOSSLESS (SwitchMmu (\<lambda>_. 0) (\<lambda>_. 0) (\<lambda>_. 0)) = Inr v
         \<and> unat v \<le> 18 * 1024 * 1024)"
proof -
  define m0 where "m0 = SwitchMmu (\<lambda>_. 0) (\<lambda>_. 0) (\<lambda>_. 0)"
  have f: "alphaIngress m0 0 3 = 1" "alphaEgress m0 0 3 = 1" "ingressPool m0 = 18 * 1024 * 1024" "totalIngressReserved m0 = 0"
    "totalUsed m0 = 0" "xoffTotalUsed m0 = 0" "totalIngressReservedUsed m0 = 0"
    "unat (egressPool m0 LOSSLESS) \<le> 2 ^ 53" "unat (sharedPool m0) \<le> 2 ^ 53" "congestionIndicator m0 \<noteq> 0"
    by (simp_all add: m0_def SwitchMmu_def mmu_consts)
  have dt: "\<exists>v. DynamicThreshold 0 3 ''ingress'' LOSSLESS (m0\<lparr>totalUsed := n\<rparr>) = Inr v \<and> unat v \<le> freeIngress (m0\<lparr>totalUsed := n\<rparr>)" for n
    by (rule conjunct1[OF thresholds_le_free[where u = 0]]) (use f in \<open>simp_all add: fraction_def mmu_consts\<close>)
  have "freeIngress (m0\<lparr>totalUsed := 19 * 1024 * 1024\<rparr>) = 0" "freeIngress m0 = 18 * 1024 * 1024"
    "m0\<lparr>totalUsed := 0\<rparr> = m0"
    using f by (simp_all add: freeIngress_def GetIngressSharedUsed_def)
  then show ?thesis using dt[of "19 * 1024 * 1024"] dt[of 0] unfolding m0_def[symmetric] by (auto simp: unat_eq_0)
qed

text \<open>
  Active buffer management and flow-aware buffering compared: the weights the former applies on top of the
  flow-aware threshold (one over the number of congested ports, and the queue's measured dequeue
  rate) only shrink it, in \<^verbatim>\<open>double\<close> arithmetic with its rounding, once the rates have been
  measured and as long as the measured rate is at most one.  The code does not enforce the latter:
  \<^verbatim>\<open>updateDequeueRates\<close> stores the quotient of the bytes sent in an interval and the line rate as it is.
\<close>

lemma ABM_le_FAB:
  assumes abm: "ActiveBufferManagement p q io t u m = Inr (m', v)"
    and fab: "FlowAwareBuffer p q io t u m = Inr w"
    and "dequeueUpdatedOnce m \<noteq> 0"
    and "0 \<le> alphaHigh m" "0 \<le> alphaIngress m p q" "0 \<le> alphaEgress m p q"
    and "0 \<le> getDequeueRate p q io m" "getDequeueRate p q io m \<le> 1"
  shows "v \<le> w"
proof -
  have io: "io = ''ingress'' \<or> io = ''egress''"
    using fab by (auto simp: FlowAwareBuffer_def split: if_splits)
  then show ?thesis
  proof
    assume [simp]: "io = ''ingress''"
    show ?thesis
      using abm fab assms(3-) GetNofP_ge_1[OF io]
      unfolding ActiveBufferManagement_def FlowAwareBuffer_def Let_def
      by (auto split: if_splits elim!: bindr_InrE)
         (erule (1) abmThreshold_le_share; simp)+
  next
    assume [simp]: "io = ''egress''"
    show ?thesis
      using abm fab assms(3-) GetNofP_ge_1[OF io]
      unfolding ActiveBufferManagement_def FlowAwareBuffer_def Let_def
      by (auto split: if_splits elim!: bindr_InrE)
         (erule (1) abmThreshold_le_share; simp)+
  qed
qed

text \<open>
  Computing a threshold changes nothing but the congestion bookkeeping (whichever of the four
  algorithms runs, the first call of the periodic rate update included), and the threshold leaves
  at least one mebibyte below the largest 64-bit value, so that the sums the admission checks
  compare with it do not have to fear a saturated threshold.
\<close>

lemma threshold_capped_frame:
  assumes "Threshold p q io t u m = Inr (m', v)"
  shows "v \<le> - 1 - 1024 * 1024 \<and> same_counters m m'"
  using Threshold_le_cap[OF assms] same_counters_Threshold[OF assms] by (simp add: thresholdCap_def)

end
