(* ===== verification/Switch_Mmu_Admission.thy ===== *)
theory Switch_Mmu_Admission
  imports Switch_Mmu_Threshold
begin

text \<open>
  Admission control and buffer accounting of \<^verbatim>\<open>SwitchMmu\<close>: the two checks a packet has to
  pass, the updates when it is admitted, the updates when it leaves, and the test that ends a
  pause.  A check returns the new state with its verdict, because it may compute a threshold that
  writes the congestion bookkeeping; it writes nothing else (\<open>CheckIngress_same\<close>,
  \<open>CheckEgress_same\<close>).  The effect lemmas give, for each update, the exact new value of every
  counter it writes, as 64-bit words.
\<close>

subsection \<open>Checks\<close>

definition losslessFull :: "nat \<Rightarrow> nat \<Rightarrow> u64 \<Rightarrow> mmu \<Rightarrow> bool" where
  "losslessFull port q ps m \<longleftrightarrow>
     (ps + ingress_bytes m port q > reserveIngress m port q
        \<and> ps + GetHdrmBytes m port q > xoff m port q \<and> GetHdrmBytes m port q > 0)
     \<or> (ps + xoffTotalUsed m > xoffTotal m \<and> GetHdrmBytes m port q > 0)
     \<or> ps + totalUsed m > ingressPool m + xoffTotal m
     \<or> ps + totalUsed m > bufferPool m"

definition CheckIngressAdmission ::
    "nat \<Rightarrow> nat \<Rightarrow> u32 \<Rightarrow> nat \<Rightarrow> u32 \<Rightarrow> mmu \<Rightarrow> (mmu \<times> bool) res" where
  "CheckIngressAdmission port q psize type unsched m =
     (let ps = ucast psize in
      if bufferModel m = ''reverie'' then
        (if type = LOSSY then Inr (m, True)
         else if type = LOSSLESS then
           (if \<not> ok_pq port q then Inl OutOfBounds
            else if losslessFull port q ps m then
              bindr (ReverieThreshold port q LOSSLESS unsched m) (\<lambda>(m, _). Inr (m, False))
            else Inr (m, True))
         else Inl Exit)
      else if bufferModel m = ''sonic'' then
        (if type = LOSSY then
           bindr (Threshold port q ''ingress'' type unsched m) (\<lambda>(m, t).
           Inr (m, \<not> ((ps + ingress_bytes m port q > t
                        \<and> ps + ingress_bytes m port q > reserveIngress m port q)
                      \<or> ps + (totalUsed m - xoffTotalUsed m) > ingressPool m
                      \<or> ps + totalUsed m > bufferPool m)))
         else if type = LOSSLESS then
           (if \<not> ok_pq port q then Inl OutOfBounds
            else Inr (m, \<not> losslessFull port q ps m))
         else Inl Exit)
      else if bufferModel m = ''blank'' then Inr (m, True)
      else Inl Exit)"

definition CheckEgressAdmission ::
    "nat \<Rightarrow> nat \<Rightarrow> u32 \<Rightarrow> nat \<Rightarrow> u32 \<Rightarrow> mmu \<Rightarrow> (mmu \<times> bool) res" where
  "CheckEgressAdmission port q psize type unsched m =
     (let ps = ucast psize in
      if bufferModel m = ''reverie'' then
        (if type = LOSSLESS then Inr (m, True)
         else if type = LOSSY then
           (if \<not> ok_pq port q then Inl OutOfBounds else
            bindr (ReverieThreshold port q LOSSY unsched m) (\<lambda>(m, t).
            Inr (m, \<not> (ps + egressLpf_bytes m port q > t
                      \<or> ps + sharedPoolUsed m > sharedPool m
                      \<or> ps + totalUsed m > bufferPool m))))
         else Inl Exit)
      else if bufferModel m = ''sonic'' then
        (if type = LOSSY then
           bindr (Threshold port q ''egress'' type unsched m) (\<lambda>(m, t).
           Inr (m, \<not> (ps + egress_bytes m port q > t
                     \<or> ps + egressPoolUsed m type > egressPool m type
                     \<or> ps + totalUsed m > bufferPool m)))
         else if type = LOSSLESS then
           bindr (Threshold port q ''egress'' type unsched m) (\<lambda>(m, t).
           if ps + egress_bytes m port q > t
              \<or> ps + egressPoolUsed m type > egressPool m type
              \<or> ps + totalUsed m > bufferPool m
           then bindr (Threshold port q ''egress'' type unsched m) (\<lambda>(m, _). Inr (m, False))
           else Inr (m, True))
         else Inl Exit)
      else if bufferModel m = ''blank'' then Inr (m, True)
      else Inl Exit)"

subsection \<open>Updates on arrival\<close>

text \<open>The guarded subtraction the source writes as \<^verbatim>\<open>if (a >= b) a -= b; else a = 0;\<close>\<close>

definition satsub :: "u64 \<Rightarrow> u64 \<Rightarrow> u64" where
  "satsub a b = (if a \<ge> b then a - b else 0)"

lemma satsub_0 [simp]: "satsub a 0 = a"
  by (simp add: satsub_def)

definition headroomLevel :: "nat \<Rightarrow> nat \<Rightarrow> mmu \<Rightarrow> u64" where
  "headroomLevel port q m =
     (if bufferModel m = ''sonic'' then ingress_bytes m port q
      else if bufferModel m = ''reverie'' then ingressLpf_bytes m port q
      else 0)"

definition useHeadroom :: "nat \<Rightarrow> nat \<Rightarrow> u64 \<Rightarrow> u64 \<Rightarrow> mmu \<Rightarrow> mmu" where
  "useHeadroom port q ps threshold m =
     (let m = m\<lparr>xoffTotalUsed := xoffTotalUsed m - xoffUsed m port q\<rparr>;
          m = (if xoffUsed m port q = 0 then
                 (if headroomLevel port q m > threshold then
                    m\<lparr>xoffUsed := upd2 (xoffUsed m) port q (xoffUsed m port q + ps),
                      sharedPoolUsed := sharedPoolUsed m - ps\<rparr>
                  else m)
               else m\<lparr>xoffUsed := upd2 (xoffUsed m) port q (xoffUsed m port q + ps),
                      sharedPoolUsed := sharedPoolUsed m - ps\<rparr>)
      in m\<lparr>xoffTotalUsed := xoffTotalUsed m + xoffUsed m port q\<rparr>)"

definition chargeIngress :: "nat \<Rightarrow> nat \<Rightarrow> u64 \<Rightarrow> mmu \<Rightarrow> mmu" where
  "chargeIngress port q ps m =
     (let m = m\<lparr>totalIngressReservedUsed :=
                  satsub (totalIngressReservedUsed m) (GetIngressReservedUsedQ m port q)\<rparr>;
          m = m\<lparr>ingress_bytes := upd2 (ingress_bytes m) port q (ingress_bytes m port q + ps),
                totalUsed := totalUsed m + ps\<rparr>
      in m\<lparr>totalIngressReservedUsed :=
             totalIngressReservedUsed m + GetIngressReservedUsedQ m port q\<rparr>)"

definition losslessThreshold :: "nat \<Rightarrow> nat \<Rightarrow> u32 \<Rightarrow> mmu \<Rightarrow> (mmu \<times> u64) res" where
  "losslessThreshold port q unsched m =
     (if bufferModel m = ''sonic'' then Threshold port q ''ingress'' LOSSLESS unsched m
      else if bufferModel m = ''reverie'' then ReverieThreshold port q LOSSLESS unsched m
      else Inr (m, 0))"

definition UpdateIngressAdmission :: "nat \<Rightarrow> nat \<Rightarrow> u32 \<Rightarrow> nat \<Rightarrow> u32 \<Rightarrow> mmu \<Rightarrow> mmu res" where
  "UpdateIngressAdmission port q psize type unsched m =
     (if \<not> ok_pq port q then Inl OutOfBounds else
      (let ps = ucast psize;
           m = chargeIngress port q ps m
       in if type = LOSSLESS then
            (let m = m\<lparr>sharedPoolUsed := sharedPoolUsed m + ps\<rparr> in
             bindr (losslessThreshold port q unsched m)
                   (\<lambda>(m, threshold). Inr (useHeadroom port q ps threshold m)))
          else Inr m))"

definition UpdateEgressAdmission :: "nat \<Rightarrow> nat \<Rightarrow> u32 \<Rightarrow> nat \<Rightarrow> mmu \<Rightarrow> mmu res" where
  "UpdateEgressAdmission port q psize type m =
     (if \<not> ok_pq port q \<or> 2 \<le> type then Inl OutOfBounds else
      (let ps = ucast psize;
           m = m\<lparr>egress_bytes := upd2 (egress_bytes m) port q (egress_bytes m port q + ps),
                 egressPoolUsed := (egressPoolUsed m)(type := egressPoolUsed m type + ps)\<rparr>
       in Inr (if type = LOSSY then m\<lparr>sharedPoolUsed := sharedPoolUsed m + ps\<rparr> else m)))"

subsection \<open>Updates on departure\<close>

definition lpfValue :: "double \<Rightarrow> u64 \<Rightarrow> u64 \<Rightarrow> u64 res" where
  "lpfValue gamma lpf inst =
     trunc_u64 (fadd (fmul gamma (u64_to_double lpf)) (fmul (fsub 1 gamma) (u64_to_double inst)))"

definition releaseHeadroom :: "nat \<Rightarrow> nat \<Rightarrow> u64 \<Rightarrow> mmu \<Rightarrow> mmu" where
  "releaseHeadroom port q ps m =
     (let m = m\<lparr>xoffTotalUsed := satsub (xoffTotalUsed m) (xoffUsed m port q)\<rparr>;
          m = (if xoffUsed m port q > 0 then
                 (if xoffUsed m port q \<ge> ps then
                    m\<lparr>xoffUsed := upd2 (xoffUsed m) port q (xoffUsed m port q - ps)\<rparr>
                  else
                    m\<lparr>sharedPoolUsed := sharedPoolUsed m - (ps - xoffUsed m port q),
                      xoffUsed := upd2 (xoffUsed m) port q 0\<rparr>)
               else m\<lparr>sharedPoolUsed := satsub (sharedPoolUsed m) ps\<rparr>)
      in m\<lparr>xoffTotalUsed := xoffTotalUsed m + xoffUsed m port q\<rparr>)"

definition creditIngress :: "nat \<Rightarrow> nat \<Rightarrow> u64 \<Rightarrow> mmu \<Rightarrow> mmu" where
  "creditIngress port q ps m =
     (let m = m\<lparr>totalIngressReservedUsed :=
                  satsub (totalIngressReservedUsed m) (GetIngressReservedUsedQ m port q)\<rparr>;
          m = m\<lparr>ingress_bytes := upd2 (ingress_bytes m) port q (satsub (ingress_bytes m port q) ps),
                totalUsed := satsub (totalUsed m) ps\<rparr>
      in m\<lparr>totalIngressReservedUsed :=
             totalIngressReservedUsed m + GetIngressReservedUsedQ m port q\<rparr>)"

definition RemoveFromIngressAdmission :: "nat \<Rightarrow> nat \<Rightarrow> u32 \<Rightarrow> nat \<Rightarrow> mmu \<Rightarrow> mmu res" where
  "RemoveFromIngressAdmission port q psize type m =
     (if \<not> ok_pq port q then Inl OutOfBounds else
      (let ps = ucast psize;
           m = m\<lparr>txBytesIngress := upd2 (txBytesIngress m) port q (txBytesIngress m port q + ps)\<rparr>;
           m = creditIngress port q ps m
       in if type = LOSSLESS then
            bindr (lpfValue (Reveriegamma m) (ingressLpf_bytes m port q) (ingress_bytes m port q))
              (\<lambda>l. let m = m\<lparr>ingressLpf_bytes := upd2 (ingressLpf_bytes m) port q
                              (if ingress_bytes m port q < l then ingress_bytes m port q else l)\<rparr>
                   in Inr (releaseHeadroom port q ps m))
          else Inr m))"

definition RemoveFromEgressAdmission :: "nat \<Rightarrow> nat \<Rightarrow> u32 \<Rightarrow> nat \<Rightarrow> mmu \<Rightarrow> mmu res" where
  "RemoveFromEgressAdmission port q psize type m =
     (if \<not> ok_pq port q \<or> 2 \<le> type then Inl OutOfBounds else
      (let ps = ucast psize;
           m = m\<lparr>txBytesEgress := upd2 (txBytesEgress m) port q (txBytesEgress m port q + ps)\<rparr>;
           m = m\<lparr>egress_bytes := upd2 (egress_bytes m) port q (satsub (egress_bytes m port q) ps),
                 egressPoolUsed := (egressPoolUsed m)(type := satsub (egressPoolUsed m type) ps)\<rparr>
       in if type = LOSSY then
            (let m = m\<lparr>sharedPoolUsed := satsub (sharedPoolUsed m) ps\<rparr> in
             bindr (lpfValue (Reveriegamma m) (egressLpf_bytes m port q) (egress_bytes m port q))
               (\<lambda>l. Inr (m\<lparr>egressLpf_bytes := upd2 (egressLpf_bytes m) port q
                            (if egress_bytes m port q < l then egress_bytes m port q else l)\<rparr>)))
          else Inr m))"

definition CheckShouldResume :: "nat \<Rightarrow> nat \<Rightarrow> mmu \<Rightarrow> (mmu \<times> bool) res" where
  "CheckShouldResume port q m =
     (if \<not> ok_pq port q then Inl OutOfBounds
      else if paused m port q = 0 then Inr (m, False)
      else if bufferModel m = ''sonic'' then
        (if GetHdrmBytes m port q \<noteq> 0 then Inr (m, False)
         else if ingress_bytes m port q < xon m port q then Inr (m, True)
         else bindr (Threshold port q ''ingress'' LOSSLESS 0 m) (\<lambda>(m, t).
              Inr (m, ingress_bytes m port q + xon_offset m port q \<le> t)))
      else if bufferModel m = ''reverie'' then
        (if GetHdrmBytes m port q \<noteq> 0 then Inr (m, False)
         else if ingressLpf_bytes m port q < xon m port q then Inr (m, True)
         else bindr (ReverieThreshold port q LOSSLESS 0 m) (\<lambda>(m, t).
              Inr (m, ingressLpf_bytes m port q + xon_offset m port q \<le> t)))
      else Inl NoReturn)"

subsection \<open>What the checks promise\<close>

lemma CheckIngress_same:
  assumes "CheckIngressAdmission p q s t u m = Inr (m', ok)"
  shows "same_counters m m'"
  using assms unfolding CheckIngressAdmission_def Let_def
  by (auto split: if_splits prod.splits elim!: bindr_InrE
           intro: same_counters_Threshold same_counters_Reverie)

lemma CheckEgress_same:
  assumes "CheckEgressAdmission p q s t u m = Inr (m', ok)"
  shows "same_counters m m'"
  using assms unfolding CheckEgressAdmission_def Let_def
  by (auto split: if_splits prod.splits elim!: bindr_InrE
           intro: same_counters_Threshold same_counters_Reverie
                  same_counters_trans[OF same_counters_Threshold same_counters_Threshold])

lemma CheckShouldResume_same:
  assumes "CheckShouldResume p q m = Inr (m', ok)"
  shows "same_counters m m'"
  using assms unfolding CheckShouldResume_def
  by (auto split: if_splits prod.splits elim!: bindr_InrE
           intro: same_counters_Threshold same_counters_Reverie)

text \<open>
  Of the two buffer models that limit anything, each has one check per traffic class that
  compares the whole buffer with its size.
\<close>

lemma CheckIngress_fits:
  assumes "CheckIngressAdmission p q s t u m = Inr (m', True)"
    and "bufferModel m = ''sonic'' \<or> bufferModel m = ''reverie'' \<and> t = LOSSLESS"
  shows "ucast s + totalUsed m \<le> bufferPool m"
proof -
  note sf = same_counters_fields[OF CheckIngress_same[OF assms(1)]]
  have lossless: "\<not> losslessFull p q (ucast s) m \<Longrightarrow> ?thesis"
    by (simp add: losslessFull_def not_less)
  from assms(2) show ?thesis
  proof
    assume [simp]: "bufferModel m = ''sonic''"
    show ?thesis
    proof (cases "t = LOSSY")
      case True
      with assms(1) show ?thesis
        by (auto simp: CheckIngressAdmission_def Let_def bindr_Inr_iff sf not_less)
    next
      case False
      with assms(1) show ?thesis
        by (intro lossless) (auto simp: CheckIngressAdmission_def Let_def split: if_splits)
    qed
  next
    assume "bufferModel m = ''reverie'' \<and> t = LOSSLESS"
    with assms(1) show ?thesis
      by (intro lossless)
         (auto simp: CheckIngressAdmission_def Let_def mmu_consts bindr_Inr_iff split: if_splits)
  qed
qed

lemma CheckEgress_fits:
  assumes "CheckEgressAdmission p q s t u m = Inr (m', True)"
    and "bufferModel m = ''sonic'' \<or> bufferModel m = ''reverie'' \<and> t = LOSSY"
  shows "ucast s + totalUsed m \<le> bufferPool m"
proof -
  have "same_counters m m'" using assms(1) by (rule CheckEgress_same)
  then show ?thesis
    using assms unfolding CheckEgressAdmission_def Let_def
    by (auto simp: same_counters_fields mmu_consts split: if_splits prod.splits elim!: bindr_InrE)
qed

subsection \<open>Effects\<close>

lemma reservedUsed_min:
  "GetIngressReservedUsedQ m p q = min (ingress_bytes m p q) (reserveIngress m p q)"
  by (auto simp: GetIngressReservedUsedQ_def min_def)

definition headroomShare :: "nat \<Rightarrow> nat \<Rightarrow> u64 \<Rightarrow> u64 \<Rightarrow> mmu \<Rightarrow> u64" where
  "headroomShare p q ps thr m =
     (if xoffUsed m p q \<noteq> 0 \<or> headroomLevel p q m > thr then ps else 0)"

lemma headroomLevel_upd [simp]:
  "headroomLevel p q (m\<lparr>xoffTotalUsed := x\<rparr>) = headroomLevel p q m"
  by (simp add: headroomLevel_def)

lemma useHeadroom_effect:
  "useHeadroom p q ps thr m = m\<lparr>xoffTotalUsed := xoffTotalUsed m + headroomShare p q ps thr m,
     xoffUsed := upd2 (xoffUsed m) p q (xoffUsed m p q + headroomShare p q ps thr m),
     sharedPoolUsed := sharedPoolUsed m - headroomShare p q ps thr m\<rparr>"
proof (cases "xoffUsed m p q = 0")
  case True
  then show ?thesis
    by (cases "headroomLevel p q m > thr") (simp_all add: useHeadroom_def headroomShare_def)
next
  case False
  then show ?thesis by (simp add: useHeadroom_def headroomShare_def)
qed

text \<open>
  The headroom share \<open>h\<close> of an admitted packet is all of it or nothing: the packet is charged to
  the headroom when the queue already uses headroom or has passed its threshold.
\<close>

lemma chargeIngress_fields:
  "ingress_bytes (chargeIngress p q ps m) = upd2 (ingress_bytes m) p q (ingress_bytes m p q + ps)"
  "totalUsed (chargeIngress p q ps m) = totalUsed m + ps"
  "totalIngressReservedUsed (chargeIngress p q ps m) =
     satsub (totalIngressReservedUsed m) (min (ingress_bytes m p q) (reserveIngress m p q))
       + min (ingress_bytes m p q + ps) (reserveIngress m p q)"
  "egress_bytes (chargeIngress p q ps m) = egress_bytes m"
  "egressPoolUsed (chargeIngress p q ps m) = egressPoolUsed m"
  "reserveIngress (chargeIngress p q ps m) = reserveIngress m"
  "bufferPool (chargeIngress p q ps m) = bufferPool m"
  "bufferModel (chargeIngress p q ps m) = bufferModel m"
  "xoffUsed (chargeIngress p q ps m) = xoffUsed m"
  "xoffTotalUsed (chargeIngress p q ps m) = xoffTotalUsed m"
  "sharedPoolUsed (chargeIngress p q ps m) = sharedPoolUsed m"
  by (simp_all add: chargeIngress_def Let_def reservedUsed_min)

lemma losslessThreshold_same: "losslessThreshold p q u m = Inr (m', t) \<Longrightarrow> same_counters m m'"
  by (auto simp: losslessThreshold_def split: if_splits
           intro: same_counters_Threshold same_counters_Reverie)

lemma UpdateIngress_effect:
  assumes "UpdateIngressAdmission p q s t u m = Inr m'"
  shows "ok_pq p q
    \<and> ingress_bytes m' = upd2 (ingress_bytes m) p q (ingress_bytes m p q + ucast s)
    \<and> totalUsed m' = totalUsed m + ucast s
    \<and> totalIngressReservedUsed m' =
        satsub (totalIngressReservedUsed m) (min (ingress_bytes m p q) (reserveIngress m p q))
          + min (ingress_bytes m p q + ucast s) (reserveIngress m p q)
    \<and> egress_bytes m' = egress_bytes m \<and> egressPoolUsed m' = egressPoolUsed m
    \<and> reserveIngress m' = reserveIngress m \<and> bufferPool m' = bufferPool m
    \<and> bufferModel m' = bufferModel m
    \<and> (\<exists>h. (h = 0 \<or> h = ucast s) \<and> (t \<noteq> LOSSLESS \<longrightarrow> h = 0)
         \<and> (t = LOSSLESS \<and> xoffUsed m p q \<noteq> 0 \<longrightarrow> h = ucast s)
         \<and> xoffUsed m' = upd2 (xoffUsed m) p q (xoffUsed m p q + h)
         \<and> xoffTotalUsed m' = xoffTotalUsed m + h
         \<and> sharedPoolUsed m' = sharedPoolUsed m + (if t = LOSSLESS then ucast s - h else 0))"
proof -
  define n where "n = chargeIngress p q (ucast s) m"
  note nf = chargeIngress_fields[of p q "ucast s" m, folded n_def]
  have ok: "ok_pq p q" using assms by (simp add: UpdateIngressAdmission_def split: if_splits)
  show ?thesis
  proof (cases "t = LOSSLESS")
    case False
    then have "m' = n" using assms ok by (simp add: UpdateIngressAdmission_def n_def Let_def)
    with ok nf False show ?thesis by auto
  next
    case True
    then obtain k thr where
      thr: "losslessThreshold p q u (n\<lparr>sharedPoolUsed := sharedPoolUsed n + ucast s\<rparr>) = Inr (k, thr)"
      and m': "m' = useHeadroom p q (ucast s) thr k"
      using assms ok by (auto simp: UpdateIngressAdmission_def n_def[symmetric] Let_def bindr_Inr_iff)
    define h where "h = headroomShare p q (ucast s) thr k"
    have h: "h = 0 \<or> h = ucast s" by (simp add: h_def headroomShare_def)
    have m'': "m' = k\<lparr>xoffTotalUsed := xoffTotalUsed k + h,
        xoffUsed := upd2 (xoffUsed k) p q (xoffUsed k p q + h), sharedPoolUsed := sharedPoolUsed k - h\<rparr>"
      by (simp only: m' useHeadroom_effect h_def)
    note kf = same_counters_fields[OF losslessThreshold_same[OF thr], simplified]
    have used: "xoffUsed m p q \<noteq> 0 \<Longrightarrow> h = ucast s"
      by (simp add: h_def headroomShare_def kf nf)
    show ?thesis using ok h used True
      by (auto simp: m'' kf nf intro!: exI[of _ h])
  qed
qed

lemma UpdateEgress_effect:
  assumes "UpdateEgressAdmission p q s t m = Inr m'"
  shows "ok_pq p q \<and> t < 2
    \<and> egress_bytes m' = upd2 (egress_bytes m) p q (egress_bytes m p q + ucast s)
    \<and> egressPoolUsed m' = (egressPoolUsed m)(t := egressPoolUsed m t + ucast s)
    \<and> sharedPoolUsed m' = sharedPoolUsed m + (if t = LOSSY then ucast s else 0)
    \<and> ingress_bytes m' = ingress_bytes m \<and> totalUsed m' = totalUsed m
    \<and> totalIngressReservedUsed m' = totalIngressReservedUsed m
    \<and> reserveIngress m' = reserveIngress m \<and> bufferPool m' = bufferPool m
    \<and> bufferModel m' = bufferModel m
    \<and> xoffUsed m' = xoffUsed m \<and> xoffTotalUsed m' = xoffTotalUsed m"
  using assms by (auto simp: UpdateEgressAdmission_def Let_def split: if_splits)

text \<open>
  On departure a packet gives back headroom first: the share \<open>released\<close> is what the queue still
  holds there, at most the packet's size.  The two hypotheses say that the guarded subtractions
  of the source do not have to clamp.
\<close>

definition released :: "nat \<Rightarrow> nat \<Rightarrow> u64 \<Rightarrow> mmu \<Rightarrow> u64" where
  "released p q ps m = min ps (xoffUsed m p q)"

lemma releaseHeadroom_effect:
  assumes "xoffUsed m p q \<le> xoffTotalUsed m" "ps - released p q ps m \<le> sharedPoolUsed m"
  shows "releaseHeadroom p q ps m = m\<lparr>xoffTotalUsed := xoffTotalUsed m - released p q ps m,
     xoffUsed := upd2 (xoffUsed m) p q (xoffUsed m p q - released p q ps m),
     sharedPoolUsed := sharedPoolUsed m - (ps - released p q ps m)\<rparr>"
proof -
  consider "xoffUsed m p q = 0" | "xoffUsed m p q > 0" "ps \<le> xoffUsed m p q"
    | "xoffUsed m p q > 0" "\<not> ps \<le> xoffUsed m p q"
    by (auto simp: word_gt_0)
  then show ?thesis
  proof cases
    case 1
    then have r: "released p q ps m = 0" by (simp add: released_def)
    show ?thesis using 1 assms unfolding r by (simp add: releaseHeadroom_def satsub_def)
  next
    case 2
    then have r: "released p q ps m = ps" by (simp add: released_def)
    show ?thesis using 2 assms unfolding r by (simp add: releaseHeadroom_def satsub_def)
  next
    case 3
    then have r: "released p q ps m = xoffUsed m p q" by (simp add: released_def)
    show ?thesis using 3 assms unfolding r by (simp add: releaseHeadroom_def satsub_def)
  qed
qed

lemma creditIngress_fields:
  "ingress_bytes (creditIngress p q ps m) = upd2 (ingress_bytes m) p q (satsub (ingress_bytes m p q) ps)"
  "totalUsed (creditIngress p q ps m) = satsub (totalUsed m) ps"
  "totalIngressReservedUsed (creditIngress p q ps m) =
     satsub (totalIngressReservedUsed m) (min (ingress_bytes m p q) (reserveIngress m p q))
       + min (satsub (ingress_bytes m p q) ps) (reserveIngress m p q)"
  "egress_bytes (creditIngress p q ps m) = egress_bytes m"
  "egressPoolUsed (creditIngress p q ps m) = egressPoolUsed m"
  "reserveIngress (creditIngress p q ps m) = reserveIngress m"
  "bufferPool (creditIngress p q ps m) = bufferPool m"
  "bufferModel (creditIngress p q ps m) = bufferModel m"
  "xoffUsed (creditIngress p q ps m) = xoffUsed m"
  "xoffTotalUsed (creditIngress p q ps m) = xoffTotalUsed m"
  "sharedPoolUsed (creditIngress p q ps m) = sharedPoolUsed m"
  "Reveriegamma (creditIngress p q ps m) = Reveriegamma m"
  "ingressLpf_bytes (creditIngress p q ps m) = ingressLpf_bytes m"
  by (simp_all add: creditIngress_def Let_def reservedUsed_min)

lemma RemoveIngress_effect:
  assumes "RemoveFromIngressAdmission p q s t m = Inr m'"
    and "t = LOSSLESS \<Longrightarrow> xoffUsed m p q \<le> xoffTotalUsed m"
    and "t = LOSSLESS \<Longrightarrow> ucast s - released p q (ucast s) m \<le> sharedPoolUsed m"
  defines "r \<equiv> (if t = LOSSLESS then released p q (ucast s) m else 0)"
  shows "ok_pq p q
    \<and> ingress_bytes m' = upd2 (ingress_bytes m) p q (satsub (ingress_bytes m p q) (ucast s))
    \<and> totalUsed m' = satsub (totalUsed m) (ucast s)
    \<and> totalIngressReservedUsed m' =
        satsub (totalIngressReservedUsed m) (min (ingress_bytes m p q) (reserveIngress m p q))
          + min (satsub (ingress_bytes m p q) (ucast s)) (reserveIngress m p q)
    \<and> egress_bytes m' = egress_bytes m \<and> egressPoolUsed m' = egressPoolUsed m
    \<and> reserveIngress m' = reserveIngress m \<and> bufferPool m' = bufferPool m
    \<and> bufferModel m' = bufferModel m
    \<and> xoffUsed m' = upd2 (xoffUsed m) p q (xoffUsed m p q - r)
    \<and> xoffTotalUsed m' = xoffTotalUsed m - r
    \<and> sharedPoolUsed m' = sharedPoolUsed m - (if t = LOSSLESS then ucast s - r else 0)"
proof -
  define n0 where
    "n0 = m\<lparr>txBytesIngress := upd2 (txBytesIngress m) p q (txBytesIngress m p q + ucast s)\<rparr>"
  define n where "n = creditIngress p q (ucast s) n0"
  have n0: "ingress_bytes n0 = ingress_bytes m" "totalUsed n0 = totalUsed m"
    "totalIngressReservedUsed n0 = totalIngressReservedUsed m" "egress_bytes n0 = egress_bytes m"
    "egressPoolUsed n0 = egressPoolUsed m" "reserveIngress n0 = reserveIngress m"
    "bufferPool n0 = bufferPool m" "bufferModel n0 = bufferModel m" "xoffUsed n0 = xoffUsed m"
    "xoffTotalUsed n0 = xoffTotalUsed m" "sharedPoolUsed n0 = sharedPoolUsed m"
    by (simp_all add: n0_def)
  note nf = creditIngress_fields[of p q "ucast s" n0, folded n_def, unfolded n0]
  have ok: "ok_pq p q" using assms(1) by (simp add: RemoveFromIngressAdmission_def split: if_splits)
  show ?thesis
  proof (cases "t = LOSSLESS")
    case False
    then have "m' = n" using assms(1) ok
      by (simp add: RemoveFromIngressAdmission_def n_def n0_def Let_def)
    with ok nf False show ?thesis by (auto simp: r_def)
  next
    case True
    then obtain l where m': "m' = releaseHeadroom p q (ucast s) (n\<lparr>ingressLpf_bytes := l\<rparr>)"
      using assms(1) ok unfolding RemoveFromIngressAdmission_def Let_def n0_def[symmetric] n_def[symmetric]
      by (auto simp: bindr_Inr_iff)
    have rel: "released p q (ucast s) (n\<lparr>ingressLpf_bytes := l\<rparr>) = released p q (ucast s) m"
      by (simp add: released_def nf)
    show ?thesis
      using ok True assms(2,3)[OF True]
      by (simp add: m' releaseHeadroom_effect rel nf r_def)
  qed
qed

lemma RemoveEgress_effect:
  assumes "RemoveFromEgressAdmission p q s t m = Inr m'"
  shows "ok_pq p q \<and> t < 2
    \<and> egress_bytes m' = upd2 (egress_bytes m) p q (satsub (egress_bytes m p q) (ucast s))
    \<and> egressPoolUsed m' = (egressPoolUsed m)(t := satsub (egressPoolUsed m t) (ucast s))
    \<and> sharedPoolUsed m' = satsub (sharedPoolUsed m) (if t = LOSSY then ucast s else 0)
    \<and> ingress_bytes m' = ingress_bytes m \<and> totalUsed m' = totalUsed m
    \<and> totalIngressReservedUsed m' = totalIngressReservedUsed m
    \<and> reserveIngress m' = reserveIngress m \<and> bufferPool m' = bufferPool m
    \<and> bufferModel m' = bufferModel m
    \<and> xoffUsed m' = xoffUsed m \<and> xoffTotalUsed m' = xoffTotalUsed m"
proof -
  have ok: "ok_pq p q \<and> t < 2"
    using assms by (simp add: RemoveFromEgressAdmission_def split: if_splits)
  show ?thesis
  proof (cases "t = LOSSY")
    case True
    with ok assms show ?thesis
      unfolding RemoveFromEgressAdmission_def Let_def by (clarsimp simp: bindr_Inr_iff)
  next
    case False
    with ok assms show ?thesis
      unfolding RemoveFromEgressAdmission_def Let_def by (clarsimp simp: satsub_0)
  qed
qed

end
