(* ===== verification/Switch_Mmu_Ledger.thy ===== *)
theory Switch_Mmu_Ledger
  imports Switch_Mmu_Admission
begin

text \<open>
  The specification of the switch buffer: a ledger, the multiset of the packets that are in the
  buffer, each with the port it came from, the port it leaves by, its priority, size and traffic
  class.  \<open>agrees\<close> relates the ledger to the counters of \<^verbatim>\<open>SwitchMmu\<close>: every counter is the
  aggregate of the ledger it stands for.  \<open>mmu_step\<close> is the protocol between the switch node and
  the buffer (checks, then updates; departures; pause changes; the periodic rate update).  The
  refinement: every step keeps the agreement, so it holds in every reachable state.  From it
  follow that the guarded subtractions of the source never clamp, that the buffer never holds more
  than its size, that the headroom of every queue is bounded, and that an empty ledger means that
  the byte counters are back at zero.
\<close>

subsection \<open>The ledger\<close>

record bpkt =
  b_in :: nat
  b_out :: nat
  b_q :: nat
  b_size :: u32
  b_type :: nat

definition bytes :: "(bpkt \<Rightarrow> bool) \<Rightarrow> bpkt multiset \<Rightarrow> nat" where
  "bytes P L = sum_mset (image_mset (\<lambda>b. if P b then unat (b_size b) else 0) L)"

definition wf_bpkt :: "bpkt \<Rightarrow> bool" where
  "wf_bpkt b \<longleftrightarrow> ok_pq (b_in b) (b_q b) \<and> ok_pq (b_out b) (b_q b) \<and> b_type b < 2"

definition inQ :: "nat \<Rightarrow> nat \<Rightarrow> bpkt \<Rightarrow> bool" where
  "inQ p q b \<longleftrightarrow> b_in b = p \<and> b_q b = q"

definition outQ :: "nat \<Rightarrow> nat \<Rightarrow> bpkt \<Rightarrow> bool" where
  "outQ p q b \<longleftrightarrow> b_out b = p \<and> b_q b = q"

definition losslessQ :: "nat \<Rightarrow> nat \<Rightarrow> bpkt \<Rightarrow> bool" where
  "losslessQ p q b \<longleftrightarrow> inQ p q b \<and> b_type b = LOSSLESS"

lemma losslessQ_eq: "losslessQ p q = (\<lambda>b. inQ p q b \<and> b_type b = LOSSLESS)"
  by (auto simp: fun_eq_iff losslessQ_def)

lemma bytes_empty [simp]: "bytes P {#} = 0"
  by (simp add: bytes_def)

lemma bytes_add [simp]: "bytes P (add_mset b L) = (if P b then unat (b_size b) else 0) + bytes P L"
  by (simp add: bytes_def)

lemma bytes_mono: "(\<And>b. P b \<Longrightarrow> Q b) \<Longrightarrow> bytes P L \<le> bytes Q L"
  by (induction L) (auto simp: add_mono)

lemma grid_bytes:
  "(\<And>b. b \<in># L \<Longrightarrow> ok_pq (b_in b) (b_q b)) \<Longrightarrow>
   grid_sum pCnt qCnt (\<lambda>p q. bytes (\<lambda>b. inQ p q b \<and> P b) L) = bytes P L"
proof (induction L)
  case empty
  show ?case by simp
next
  case (add b L)
  have cell: "grid_sum pCnt qCnt (\<lambda>p q. if inQ p q b \<and> P b then unat (b_size b) else 0) =
      (if P b then unat (b_size b) else 0)"
  proof -
    have ok: "b_in b < pCnt" "b_q b < qCnt" using add.prems[of b] by (auto simp: ok_pq_def)
    have "grid_rest pCnt qCnt (\<lambda>p q. if inQ p q b \<and> P b then unat (b_size b) else 0) (b_in b) (b_q b) = 0"
      unfolding grid_rest_def by (rule sum.neutral) (auto simp: inQ_def split: if_splits)
    then show ?thesis by (simp add: grid_sum_split[OF ok] inQ_def)
  qed
  show ?case using add by (simp add: grid_sum_add cell)
qed

subsection \<open>Agreement of the counters with the ledger\<close>

definition agrees :: "bpkt multiset \<Rightarrow> mmu \<Rightarrow> bool" where
  "agrees L m \<longleftrightarrow>
     (\<forall>b\<in>#L. wf_bpkt b)
   \<and> (\<forall>p q. ok_pq p q \<longrightarrow> unat (ingress_bytes m p q) = bytes (inQ p q) L)
   \<and> (\<forall>p q. ok_pq p q \<longrightarrow> unat (egress_bytes m p q) = bytes (outQ p q) L)
   \<and> (\<forall>t<2. unat (egressPoolUsed m t) = bytes (\<lambda>b. b_type b = t) L)
   \<and> unat (totalUsed m) = bytes (\<lambda>_. True) L
   \<and> unat (totalIngressReservedUsed m) =
       grid_sum pCnt qCnt (\<lambda>p q. min (unat (ingress_bytes m p q)) (unat (reserveIngress m p q)))
   \<and> unat (xoffTotalUsed m) = grid_sum pCnt qCnt (\<lambda>p q. unat (xoffUsed m p q))
   \<and> (\<forall>p q. ok_pq p q \<longrightarrow> unat (xoffUsed m p q) \<le> bytes (losslessQ p q) L)
   \<and> unat (sharedPoolUsed m) + unat (xoffTotalUsed m) = bytes (\<lambda>_. True) L"

lemma agreesD:
  assumes "agrees L m"
  shows "b \<in># L \<Longrightarrow> wf_bpkt b"
    and "ok_pq p q \<Longrightarrow> unat (ingress_bytes m p q) = bytes (inQ p q) L"
    and "ok_pq p q \<Longrightarrow> unat (egress_bytes m p q) = bytes (outQ p q) L"
    and "t < 2 \<Longrightarrow> unat (egressPoolUsed m t) = bytes (\<lambda>b. b_type b = t) L"
    and "unat (totalUsed m) = bytes (\<lambda>_. True) L"
    and "unat (totalIngressReservedUsed m) =
       grid_sum pCnt qCnt (\<lambda>p q. min (unat (ingress_bytes m p q)) (unat (reserveIngress m p q)))"
    and "unat (xoffTotalUsed m) = grid_sum pCnt qCnt (\<lambda>p q. unat (xoffUsed m p q))"
    and "ok_pq p q \<Longrightarrow> unat (xoffUsed m p q) \<le> bytes (losslessQ p q) L"
    and "unat (sharedPoolUsed m) + unat (xoffTotalUsed m) = bytes (\<lambda>_. True) L"
  using assms by (auto simp: agrees_def)

lemma agrees_same_counters: "agrees L m \<Longrightarrow> same_counters m m' \<Longrightarrow> agrees L m'"
  by (simp add: agrees_def same_counters_fields)

text \<open>The reserved bytes in use never exceed the bytes in use.\<close>

lemma reserved_le_total:
  assumes "agrees L m"
  shows "unat (totalIngressReservedUsed m) \<le> unat (totalUsed m)"
proof -
  have "unat (totalIngressReservedUsed m) \<le> grid_sum pCnt qCnt (\<lambda>p q. bytes (\<lambda>b. inQ p q b \<and> True) L)"
    using agreesD[OF assms] by (auto simp: ok_pq_def intro!: grid_sum_mono)
  also have "\<dots> = bytes (\<lambda>_. True) L"
    using agreesD(1)[OF assms] by (intro grid_bytes) (auto simp: wf_bpkt_def)
  finally show ?thesis by (simp add: agreesD(5)[OF assms])
qed

lemma reserved_cell_le:
  assumes "agrees L m" "ok_pq p q"
  shows "min (ingress_bytes m p q) (reserveIngress m p q) \<le> totalIngressReservedUsed m"
proof -
  have "min (unat (ingress_bytes m p q)) (unat (reserveIngress m p q)) \<le> unat (totalIngressReservedUsed m)"
    unfolding agreesD(6)[OF assms(1)]
    using assms(2) grid_cell_le[of p pCnt q qCnt "\<lambda>p q. min (unat (ingress_bytes m p q)) (unat (reserveIngress m p q))"]
    by (simp add: ok_pq_def)
  then show ?thesis by (auto simp: word_le_nat_alt min_def split: if_splits)
qed

lemma unat_min: "unat (min a b) = min (unat a) (unat (b :: u64))"
  by (auto simp: min_def word_le_nat_alt)

text \<open>
  The reserved total when one queue's occupancy changes: the source takes the old share out and
  puts the new one in.
\<close>

lemma reserved_total_change:
  assumes "agrees L m" "ok_pq p q"
    and "unat v \<le> unat (ingress_bytes m p q) + d" "unat (totalUsed m) + d < 2 ^ 64"
  shows "unat (satsub (totalIngressReservedUsed m) (min (ingress_bytes m p q) (reserveIngress m p q))
           + min v (reserveIngress m p q)) =
         grid_sum pCnt qCnt (\<lambda>i j. min (unat (upd2 (ingress_bytes m) p q v i j)) (unat (reserveIngress m i j)))"
proof -
  let ?f = "\<lambda>i j. min (unat (ingress_bytes m i j)) (unat (reserveIngress m i j))"
  let ?g = "\<lambda>i j. min (unat (upd2 (ingress_bytes m) p q v i j)) (unat (reserveIngress m i j))"
  have "grid_sum pCnt qCnt ?g + ?f p q = grid_sum pCnt qCnt ?f + ?g p q"
    using assms(2) by (intro grid_sum_change) (auto simp: ok_pq_def)
  then have g: "grid_sum pCnt qCnt ?g = unat (totalIngressReservedUsed m) - ?f p q + ?g p q"
    using agreesD(6)[OF assms(1)] reserved_cell_le[OF assms(1,2)]
    by (simp add: word_le_nat_alt unat_min)
  have le: "min (ingress_bytes m p q) (reserveIngress m p q) \<le> totalIngressReservedUsed m"
    using assms(1,2) by (rule reserved_cell_le)
  have "?f p q \<le> unat (totalIngressReservedUsed m)" using le by (simp add: word_le_nat_alt unat_min)
  moreover have "?g p q \<le> ?f p q + d" using assms(3) by (auto simp: min_def)
  ultimately have "unat (totalIngressReservedUsed m) - ?f p q + ?g p q < 2 ^ 64"
    using reserved_le_total[OF assms(1)] assms(4) by linarith
  then show ?thesis
    unfolding g using le
    by (subst unat_plus_u64) (simp_all add: satsub_def unat_minus_le unat_min)
qed

lemma bytes_le_total: "bytes P L \<le> bytes (\<lambda>_. True) L"
  by (rule bytes_mono) simp

lemma agrees_le:
  assumes "agrees L m"
  shows "ok_pq p q \<Longrightarrow> unat (ingress_bytes m p q) \<le> bytes (\<lambda>_. True) L"
    and "ok_pq p q \<Longrightarrow> unat (egress_bytes m p q) \<le> bytes (\<lambda>_. True) L"
    and "t < 2 \<Longrightarrow> unat (egressPoolUsed m t) \<le> bytes (\<lambda>_. True) L"
    and "unat (totalUsed m) \<le> bytes (\<lambda>_. True) L"
    and "unat (xoffTotalUsed m) \<le> bytes (\<lambda>_. True) L"
    and "unat (sharedPoolUsed m) \<le> bytes (\<lambda>_. True) L"
    and "ok_pq p q \<Longrightarrow> unat (xoffUsed m p q) \<le> bytes (\<lambda>_. True) L"
  using agreesD(2-7)[OF assms] bytes_le_total agreesD(9)[OF assms]
    order_trans[OF agreesD(8)[OF assms] bytes_le_total]
  by auto

lemma agrees_arrive:
  assumes ag: "agrees L m"
    and ui: "UpdateIngressAdmission p q s t u m = Inr m1"
    and ue: "UpdateEgressAdmission p' q s t m1 = Inr m2"
    and fits: "unat (totalUsed m) + unat s < 2 ^ 64"
  shows "agrees (add_mset \<lparr>b_in = p, b_out = p', b_q = q, b_size = s, b_type = t\<rparr> L) m2"
proof -
  define b where "b = \<lparr>b_in = p, b_out = p', b_q = q, b_size = s, b_type = t\<rparr>"
  let ?T = "bytes (\<lambda>_. True) L"
  have T: "?T + unat s < 2 ^ 64" using fits agreesD(5)[OF ag] by simp
  have ok: "ok_pq p q" "ok_pq p' q" "t < 2"
    using UpdateIngress_effect[OF ui] UpdateEgress_effect[OF ue] by auto
  have plus: "unat (w + ucast s) = unat w + unat s" if "unat w \<le> ?T" for w :: u64
    using that T by (subst unat_plus_u64) auto
  obtain h where h: "h = 0 \<or> h = ucast s" "t \<noteq> LOSSLESS \<Longrightarrow> h = 0"
    and x1: "xoffUsed m1 = upd2 (xoffUsed m) p q (xoffUsed m p q + h)"
    and xt1: "xoffTotalUsed m1 = xoffTotalUsed m + h"
    and s1: "sharedPoolUsed m1 = sharedPoolUsed m + (if t = LOSSLESS then ucast s - h else 0)"
    using UpdateIngress_effect[OF ui] by blast
  note eff = UpdateIngress_effect[OF ui] UpdateEgress_effect[OF ue]
  note le = agrees_le(1)[OF ag ok(1)] agrees_le(2)[OF ag ok(2)] agrees_le(3)[OF ag ok(3)]
    agrees_le(4,5,6)[OF ag] agrees_le(7)[OF ag ok(1)]
  have hx: "unat (xoffUsed m p q + h) = unat (xoffUsed m p q) + unat h"
    "unat (xoffTotalUsed m + h) = unat (xoffTotalUsed m) + unat h"
    using h(1) plus le by auto
  have m2: "xoffUsed m2 = xoffUsed m1" "xoffTotalUsed m2 = xoffTotalUsed m1"
    "sharedPoolUsed m2 = sharedPoolUsed m1 + (if t = LOSSY then ucast s else 0)"
    using UpdateEgress_effect[OF ue] by simp_all
  have wf: "\<forall>c\<in>#add_mset b L. wf_bpkt c"
    using agreesD(1)[OF ag] ok by (auto simp: b_def wf_bpkt_def)
  have ing: "unat (ingress_bytes m2 i j) = bytes (inQ i j) (add_mset b L)" if "ok_pq i j" for i j
    using eff agreesD(2)[OF ag that] plus[OF le(1)] by (auto simp: b_def inQ_def)
  have egr: "unat (egress_bytes m2 i j) = bytes (outQ i j) (add_mset b L)" if "ok_pq i j" for i j
    using eff agreesD(3)[OF ag that] plus[OF le(2)] by (auto simp: b_def outQ_def)
  have pool: "unat (egressPoolUsed m2 k) = bytes (\<lambda>b. b_type b = k) (add_mset b L)" if "k < 2" for k
    using eff agreesD(4)[OF ag that] plus[OF le(3)] by (auto simp: b_def)
  have tot: "unat (totalUsed m2) = bytes (\<lambda>_. True) (add_mset b L)"
    using eff agreesD(5)[OF ag] plus[OF le(4)] by (simp add: b_def)
  have res: "unat (totalIngressReservedUsed m2) =
       grid_sum pCnt qCnt (\<lambda>p q. min (unat (ingress_bytes m2 p q)) (unat (reserveIngress m2 p q)))"
    using eff reserved_total_change[OF ag ok(1), of "ingress_bytes m p q + ucast s" "unat s"]
      plus[OF le(1)] fits by simp
  have xt: "unat (xoffTotalUsed m2) = grid_sum pCnt qCnt (\<lambda>p q. unat (xoffUsed m2 p q))"
    using eff agreesD(7)[OF ag] hx grid_sum_upd2[OF ok(1), of "xoffUsed m" "xoffUsed m p q + h"]
    by (simp add: x1 xt1 del: upd2_apply)
  have xu: "unat (xoffUsed m2 i j) \<le> bytes (losslessQ i j) (add_mset b L)" if "ok_pq i j" for i j
    using agreesD(8)[OF ag that] hx(1) h by (auto simp: m2(1) x1 b_def losslessQ_def inQ_def)
  have sh: "unat (sharedPoolUsed m2) + unat (xoffTotalUsed m2) = bytes (\<lambda>_. True) (add_mset b L)"
  proof -
    have "sharedPoolUsed m2 = sharedPoolUsed m + (ucast s - h)"
      using s1 h ok(3) by (auto simp: m2(3) mmu_consts)
    moreover have "unat (sharedPoolUsed m + (ucast s - h)) = unat (sharedPoolUsed m) + unat s - unat h"
      using h(1) plus[OF le(6)] by auto
    ultimately show ?thesis
      using agreesD(9)[OF ag] hx(2) h(1) by (auto simp: m2(2) xt1 b_def)
  qed
  show ?thesis unfolding agrees_def b_def[symmetric]
    using wf ing egr pool tot res xt xu sh by blast
qed

lemma headroom_cell_le:
  "agrees L m \<Longrightarrow> ok_pq p q \<Longrightarrow> xoffUsed m p q \<le> xoffTotalUsed m"
  using grid_cell_le[of p pCnt q qCnt "\<lambda>i j. unat (xoffUsed m i j)"] agreesD(7)[of L m]
  by (simp add: word_le_nat_alt ok_pq_def)

text \<open>
  What is not in the headroom is in the shared pool: all lossy bytes, and of each queue's lossless
  bytes the part that is not in its headroom.
\<close>

lemma lossless_bytes_grid:
  "agrees L m \<Longrightarrow> grid_sum pCnt qCnt (\<lambda>i j. bytes (losslessQ i j) L) = bytes (\<lambda>b. b_type b = LOSSLESS) L"
  unfolding losslessQ_eq by (rule grid_bytes) (auto dest: agreesD(1) simp: wf_bpkt_def)

lemma bytes_by_type:
  "(\<And>b. b \<in># L \<Longrightarrow> b_type b < 2) \<Longrightarrow>
   bytes (\<lambda>b. b_type b = LOSSLESS) L + bytes (\<lambda>b. b_type b = LOSSY) L = bytes (\<lambda>_. True) L"
proof (induction L)
  case (add b L)
  then have "b_type b = LOSSLESS \<or> b_type b = LOSSY" by (fastforce simp: mmu_consts)
  with add show ?case by (auto simp: mmu_consts)
qed simp

lemma shared_covers_lossy:
  assumes "agrees L m"
  shows "bytes (\<lambda>b. b_type b = LOSSY) L \<le> unat (sharedPoolUsed m)"
proof -
  have "unat (xoffTotalUsed m) \<le> bytes (\<lambda>b. b_type b = LOSSLESS) L"
    unfolding agreesD(7)[OF assms] lossless_bytes_grid[OF assms, symmetric]
    using agreesD(8)[OF assms] by (auto intro!: grid_sum_mono simp: ok_pq_def)
  moreover have "bytes (\<lambda>b. b_type b = LOSSLESS) L + bytes (\<lambda>b. b_type b = LOSSY) L = bytes (\<lambda>_. True) L"
    using agreesD(1)[OF assms] by (intro bytes_by_type) (auto simp: wf_bpkt_def)
  ultimately show ?thesis using agreesD(9)[OF assms] by linarith
qed

lemma shared_covers_lossless:
  assumes ag: "agrees L m" and ok: "ok_pq p q"
  shows "bytes (losslessQ p q) L - unat (xoffUsed m p q) \<le> unat (sharedPoolUsed m)"
proof -
  let ?l = "\<lambda>i j. bytes (losslessQ i j) L" and ?x = "\<lambda>i j. unat (xoffUsed m i j)"
  have "grid_sum pCnt qCnt ?l \<le> unat (sharedPoolUsed m) + grid_sum pCnt qCnt ?x"
    unfolding lossless_bytes_grid[OF ag] agreesD(7)[OF ag, symmetric] agreesD(9)[OF ag]
    by (rule bytes_le_total)
  moreover have "grid_rest pCnt qCnt ?x p q \<le> grid_rest pCnt qCnt ?l p q"
    unfolding grid_rest_def using agreesD(8)[OF ag] by (intro sum_mono) (auto simp: ok_pq_def)
  ultimately show ?thesis
    using grid_sum_split[of p pCnt q qCnt ?l] grid_sum_split[of p pCnt q qCnt ?x] ok
    unfolding ok_pq_def by linarith
qed

text \<open>
  The headroom share a departing packet gives back, and the shared-pool share that remains: with
  an agreeing ledger both subtractions stay above zero.
\<close>

definition departShare :: "bpkt \<Rightarrow> mmu \<Rightarrow> u64" where
  "departShare b m =
     (if b_type b = LOSSLESS then released (b_in b) (b_q b) (ucast (b_size b)) m else 0)"

lemma departShare_bounds:
  assumes ag: "agrees (add_mset b L) m"
  shows "departShare b m \<le> ucast (b_size b)" "departShare b m \<le> xoffUsed m (b_in b) (b_q b)"
    "departShare b m \<le> xoffTotalUsed m"
    "ucast (b_size b) - departShare b m \<le> sharedPoolUsed m"
proof -
  have wf: "ok_pq (b_in b) (b_q b)" "b_type b < 2"
    using agreesD(1)[OF ag, of b] by (auto simp: wf_bpkt_def)
  show s: "departShare b m \<le> ucast (b_size b)" and x: "departShare b m \<le> xoffUsed m (b_in b) (b_q b)"
    by (auto simp: departShare_def released_def)
  show "departShare b m \<le> xoffTotalUsed m"
    using x headroom_cell_le[OF ag wf(1)] by (rule order_trans)
  have "unat (b_size b) - unat (departShare b m) \<le> unat (sharedPoolUsed m)"
    using wf(2) shared_covers_lossy[OF ag] shared_covers_lossless[OF ag wf(1)]
    by (auto simp: departShare_def released_def unat_min min_def losslessQ_def inQ_def mmu_consts)
  then show "ucast (b_size b) - departShare b m \<le> sharedPoolUsed m"
    using s by (simp add: word_le_nat_alt unat_minus_le)
qed

lemma depart_effect:
  assumes ag: "agrees (add_mset b L) m"
    and ri: "RemoveFromIngressAdmission (b_in b) (b_q b) (b_size b) (b_type b) m = Inr m1"
    and re: "RemoveFromEgressAdmission (b_out b) (b_q b) (b_size b) (b_type b) m1 = Inr m2"
  defines "s \<equiv> ucast (b_size b) :: u64" and "r \<equiv> departShare b m"
  shows "ingress_bytes m2 = upd2 (ingress_bytes m) (b_in b) (b_q b) (ingress_bytes m (b_in b) (b_q b) - s)
    \<and> egress_bytes m2 = upd2 (egress_bytes m) (b_out b) (b_q b) (egress_bytes m (b_out b) (b_q b) - s)
    \<and> egressPoolUsed m2 = (egressPoolUsed m)(b_type b := egressPoolUsed m (b_type b) - s)
    \<and> totalUsed m2 = totalUsed m - s
    \<and> totalIngressReservedUsed m2 =
        satsub (totalIngressReservedUsed m) (min (ingress_bytes m (b_in b) (b_q b)) (reserveIngress m (b_in b) (b_q b)))
          + min (ingress_bytes m (b_in b) (b_q b) - s) (reserveIngress m (b_in b) (b_q b))
    \<and> xoffUsed m2 = upd2 (xoffUsed m) (b_in b) (b_q b) (xoffUsed m (b_in b) (b_q b) - r)
    \<and> xoffTotalUsed m2 = xoffTotalUsed m - r
    \<and> sharedPoolUsed m2 = sharedPoolUsed m - (s - r)
    \<and> reserveIngress m2 = reserveIngress m
    \<and> bufferModel m2 = bufferModel m \<and> bufferPool m2 = bufferPool m
    \<and> s \<le> ingress_bytes m (b_in b) (b_q b) \<and> s \<le> egress_bytes m (b_out b) (b_q b)
    \<and> s \<le> egressPoolUsed m (b_type b) \<and> s \<le> totalUsed m"
proof -
  have wf: "ok_pq (b_in b) (b_q b)" "ok_pq (b_out b) (b_q b)" "b_type b < 2"
    using agreesD(1)[OF ag, of b] by (auto simp: wf_bpkt_def)
  have ge: "s \<le> ingress_bytes m (b_in b) (b_q b)" "s \<le> egress_bytes m (b_out b) (b_q b)"
    "s \<le> egressPoolUsed m (b_type b)" "s \<le> totalUsed m"
    using agreesD(2)[OF ag wf(1)] agreesD(3)[OF ag wf(2)] agreesD(4)[OF ag wf(3)] agreesD(5)[OF ag]
    by (auto simp: s_def word_le_nat_alt inQ_def outQ_def)
  have c: "b_type b = LOSSLESS \<Longrightarrow>
      ucast (b_size b) - released (b_in b) (b_q b) (ucast (b_size b)) m \<le> sharedPoolUsed m"
    using departShare_bounds(4)[OF ag] by (simp add: departShare_def)
  note e1 = RemoveIngress_effect[OF ri headroom_cell_le[OF ag wf(1)] c,
      folded departShare_def, folded s_def r_def]
  note e2 = RemoveEgress_effect[OF re, folded s_def]
  have r0: "b_type b \<noteq> LOSSLESS \<Longrightarrow> r = 0 \<and> b_type b = LOSSY"
    using wf(3) by (auto simp: r_def departShare_def mmu_consts)
  have "sharedPoolUsed m2 = sharedPoolUsed m - (s - r)"
    using e1 e2 r0 departShare_bounds(4)[OF ag, folded s_def r_def]
    by (cases "b_type b = LOSSLESS") (simp_all add: satsub_def mmu_consts)
  then show ?thesis using e1 e2 ge by (simp add: satsub_def)
qed

lemma agrees_depart:
  assumes ag: "agrees (add_mset b L) m"
    and ri: "RemoveFromIngressAdmission (b_in b) (b_q b) (b_size b) (b_type b) m = Inr m1"
    and re: "RemoveFromEgressAdmission (b_out b) (b_q b) (b_size b) (b_type b) m1 = Inr m2"
  shows "agrees L m2"
proof -
  have wf: "ok_pq (b_in b) (b_q b)" "ok_pq (b_out b) (b_q b)" "b_type b < 2"
    using agreesD(1)[OF ag, of b] by (auto simp: wf_bpkt_def)
  define s where "s = (ucast (b_size b) :: u64)"
  define r where "r = departShare b m"
  note e = depart_effect[OF ag ri re, folded s_def r_def]
  note rb = departShare_bounds[OF ag, folded s_def r_def]
  have us: "unat s = unat (b_size b)" by (simp add: s_def)
  have sub: "unat (w - s) = unat w - unat (b_size b)" if "s \<le> w" for w
    using that by (simp add: us unat_minus_le)
  have ing: "unat (ingress_bytes m2 i j) = bytes (inQ i j) L" if "ok_pq i j" for i j
    using e agreesD(2)[OF ag that] sub by (auto simp: inQ_def)
  have egr: "unat (egress_bytes m2 i j) = bytes (outQ i j) L" if "ok_pq i j" for i j
    using e agreesD(3)[OF ag that] sub by (auto simp: outQ_def)
  have pool: "unat (egressPoolUsed m2 k) = bytes (\<lambda>b. b_type b = k) L" if "k < 2" for k
    using e agreesD(4)[OF ag that] sub by auto
  have tot: "unat (totalUsed m2) = bytes (\<lambda>_. True) L"
    using e agreesD(5)[OF ag] sub by simp
  have res: "unat (totalIngressReservedUsed m2) =
       grid_sum pCnt qCnt (\<lambda>p q. min (unat (ingress_bytes m2 p q)) (unat (reserveIngress m2 p q)))"
    using e reserved_total_change[OF ag wf(1), of "ingress_bytes m (b_in b) (b_q b) - s" 0]
      sub unat_u64_bound[of "totalUsed m"] by simp
  have xt: "unat (xoffTotalUsed m2) = grid_sum pCnt qCnt (\<lambda>p q. unat (xoffUsed m2 p q))"
    using e agreesD(7)[OF ag] rb(2,3)
      grid_sum_upd2[OF wf(1), of "xoffUsed m" "xoffUsed m (b_in b) (b_q b) - r"]
    by (simp add: unat_minus_le word_le_nat_alt del: upd2_apply)
  have xu: "unat (xoffUsed m2 i j) \<le> bytes (losslessQ i j) L" if "ok_pq i j" for i j
    using e agreesD(8)[OF ag that] rb(2)
    by (auto simp: losslessQ_def inQ_def unat_minus_le r_def departShare_def released_def unat_min
             split: if_splits)
  have sh: "unat (sharedPoolUsed m2) + unat (xoffTotalUsed m2) = bytes (\<lambda>_. True) L"
    using e agreesD(9)[OF ag] rb by (simp add: unat_minus_le word_le_nat_alt us)
  show ?thesis unfolding agrees_def
    using agreesD(1)[OF ag] ing egr pool tot res xt xu sh by auto
qed

subsection \<open>The buffer protocol\<close>

text \<open>
  The admission sequence of \<^verbatim>\<open>SwitchNode::SendToDev\<close>: the egress check runs only when the ingress
  check passes, and both updates only when both do.
\<close>

definition admitPacket :: "nat \<Rightarrow> nat \<Rightarrow> nat \<Rightarrow> u32 \<Rightarrow> nat \<Rightarrow> u32 \<Rightarrow> mmu \<Rightarrow> (mmu \<times> bool) res" where
  "admitPacket inDev idx q psize type unsched m =
     bindr (CheckIngressAdmission inDev q psize type unsched m) (\<lambda>(m, okIn).
     if \<not> okIn then Inr (m, False) else
     bindr (CheckEgressAdmission idx q psize type unsched m) (\<lambda>(m, okOut).
     if \<not> okOut then Inr (m, False) else
     bindr (UpdateIngressAdmission inDev q psize type unsched m) (\<lambda>m.
     bindr (UpdateEgressAdmission idx q psize type m) (\<lambda>m. Inr (m, True)))))"

text \<open>
  A step of the buffer as the switch drives it: a packet that passes both checks is charged to the
  ingress and to the egress counters; a check that refuses it changes at most the congestion
  bookkeeping; a buffered packet leaves; the pause state of a queue is set, tested or cleared; the
  periodic rate update fires.
\<close>

inductive mmu_step :: "bpkt multiset \<times> mmu \<Rightarrow> bpkt multiset \<times> mmu \<Rightarrow> bool" where
  admit: "CheckIngressAdmission p q s t u m = Inr (m1, True) \<Longrightarrow>
     CheckEgressAdmission p' q s t u m1 = Inr (m2, True) \<Longrightarrow>
     UpdateIngressAdmission p q s t u m2 = Inr m3 \<Longrightarrow>
     UpdateEgressAdmission p' q s t m3 = Inr m4 \<Longrightarrow>
     mmu_step (L, m) (add_mset \<lparr>b_in = p, b_out = p', b_q = q, b_size = s, b_type = t\<rparr> L, m4)"
| drop_in: "CheckIngressAdmission p q s t u m = Inr (m1, False) \<Longrightarrow> mmu_step (L, m) (L, m1)"
| drop_out: "CheckIngressAdmission p q s t u m = Inr (m1, True) \<Longrightarrow>
     CheckEgressAdmission p' q s t u m1 = Inr (m2, False) \<Longrightarrow> mmu_step (L, m) (L, m2)"
| leave: "RemoveFromIngressAdmission (b_in b) (b_q b) (b_size b) (b_type b) m = Inr m1 \<Longrightarrow>
     RemoveFromEgressAdmission (b_out b) (b_q b) (b_size b) (b_type b) m1 = Inr m2 \<Longrightarrow>
     mmu_step (add_mset b L, m) (L, m2)"
| pause: "SetPause p q m = Inr m1 \<Longrightarrow> mmu_step (L, m) (L, m1)"
| resume: "SetResume p q m = Inr m1 \<Longrightarrow> mmu_step (L, m) (L, m1)"
| check_resume: "CheckShouldResume p q m = Inr (m1, v) \<Longrightarrow> mmu_step (L, m) (L, m1)"
| rates: "updateDequeueRates m = Inr m1 \<Longrightarrow> mmu_step (L, m) (L, m1)"

inductive mmu_reach :: "mmu \<Rightarrow> bpkt multiset \<times> mmu \<Rightarrow> bool" for m0 :: mmu where
  start: "mmu_reach m0 ({#}, m0)"
| step: "mmu_reach m0 a \<Longrightarrow> mmu_step a b \<Longrightarrow> mmu_reach m0 b"

text \<open>The states a simulation starts from: nothing buffered, one of the two limiting models.\<close>

definition limiting :: "mmu \<Rightarrow> bool" where
  "limiting m \<longleftrightarrow> (bufferModel m = ''sonic'' \<or> bufferModel m = ''reverie'')
     \<and> unat (bufferPool m) < 2 ^ 64 - 2 ^ 32"

definition idle :: "mmu \<Rightarrow> bool" where
  "idle m \<longleftrightarrow> totalUsed m = 0 \<and> xoffTotalUsed m = 0 \<and> totalIngressReservedUsed m = 0
     \<and> sharedPoolUsed m = 0
     \<and> (\<forall>p q. ok_pq p q \<longrightarrow> ingress_bytes m p q = 0 \<and> egress_bytes m p q = 0 \<and> xoffUsed m p q = 0)
     \<and> (\<forall>t<2. egressPoolUsed m t = 0)"

lemma agrees_idle: "agrees {#} m \<longleftrightarrow> idle m"
proof
  assume ag: "agrees {#} m"
  show "idle m"
    using agreesD(2-5,8,9)[OF ag] agreesD(6,7)[OF ag]
    by (auto simp: idle_def unat_eq_0 ok_pq_def cong: grid_sum_cong)
next
  assume "idle m"
  then show "agrees {#} m"
    by (auto simp: agrees_def idle_def ok_pq_def cong: grid_sum_cong)
qed

definition mmu_inv :: "mmu \<Rightarrow> bpkt multiset \<times> mmu \<Rightarrow> bool" where
  "mmu_inv m0 = (\<lambda>(L, m). agrees L m \<and> bufferModel m = bufferModel m0
     \<and> bufferPool m = bufferPool m0 \<and> bytes (\<lambda>_. True) L \<le> unat (bufferPool m0))"

lemma mmu_inv_same: "mmu_inv m0 (L, m) \<Longrightarrow> same_counters m m' \<Longrightarrow> mmu_inv m0 (L, m')"
  by (auto simp: mmu_inv_def agrees_same_counters same_counters_fields)

lemma mmu_inv_paused: "mmu_inv m0 (L, m\<lparr>paused := x\<rparr>) = mmu_inv m0 (L, m)"
  by (simp add: mmu_inv_def agrees_def)

lemma fits_total:
  assumes "limiting m" "unat (totalUsed m) \<le> unat (bufferPool m)" "ucast s + totalUsed m \<le> bufferPool m"
  shows "unat (totalUsed m) + unat (s :: u32) \<le> unat (bufferPool m)"
proof -
  have "unat (totalUsed m) + unat s < 2 ^ 64"
    using assms(1,2) unat_u32_bound[of s] by (simp add: limiting_def)
  then have "unat (ucast s + totalUsed m) = unat (totalUsed m) + unat s"
    by (subst unat_plus_u64) (auto simp: add.commute)
  then show ?thesis using assms(3) by (simp add: word_le_nat_alt)
qed

lemma admit_fits:
  assumes lim: "limiting m" and inv: "agrees L m" "bytes (\<lambda>_. True) L \<le> unat (bufferPool m)"
    and ci: "CheckIngressAdmission p q s t u m = Inr (m1, True)"
    and ce: "CheckEgressAdmission p' q s t u m1 = Inr (m2, True)"
    and t: "t < 2"
  shows "unat (totalUsed m) + unat s \<le> unat (bufferPool m)"
proof -
  note sf = same_counters_fields[OF CheckIngress_same[OF ci]]
  have "ucast s + totalUsed m \<le> bufferPool m"
  proof (cases "bufferModel m = ''reverie'' \<and> t = LOSSY")
    case True
    then show ?thesis using CheckEgress_fits[OF ce] by (simp add: sf)
  next
    case False
    then show ?thesis using CheckIngress_fits[OF ci] lim t by (auto simp: limiting_def mmu_consts)
  qed
  then show ?thesis using fits_total[OF lim] inv agreesD(5)[OF inv(1)] by simp
qed

lemma mmu_step_inv:
  assumes "mmu_step a b" "limiting m0" "mmu_inv m0 a"
  shows "mmu_inv m0 b"
  using assms
proof (induction rule: mmu_step.induct)
  case (admit p q s t u m m1 p' m2 m3 m4 L)
  note same = same_counters_trans[OF CheckIngress_same[OF admit(1)] CheckEgress_same[OF admit(2)]]
  note sf = same_counters_fields[OF same]
  have inv: "agrees L m" "bytes (\<lambda>_. True) L \<le> unat (bufferPool m)"
    and m0: "bufferModel m = bufferModel m0" "bufferPool m = bufferPool m0"
    using admit(6) by (auto simp: mmu_inv_def)
  have lim: "limiting m" using admit(5) m0 by (simp add: limiting_def)
  have fit: "unat (totalUsed m) + unat s \<le> unat (bufferPool m)"
    using admit_fits[OF lim inv admit(1,2)] UpdateEgress_effect[OF admit(4)] by blast
  then have lt: "unat (totalUsed m2) + unat s < 2 ^ 64"
    using lim by (simp add: limiting_def sf)
  have "agrees (add_mset \<lparr>b_in = p, b_out = p', b_q = q, b_size = s, b_type = t\<rparr> L) m4"
    by (rule agrees_arrive[OF agrees_same_counters[OF inv(1) same] admit(3,4) lt])
  then show ?case
    using UpdateIngress_effect[OF admit(3)] UpdateEgress_effect[OF admit(4)] m0 fit agreesD(5)[OF inv(1)]
    by (simp add: mmu_inv_def sf)
next
  case (leave b m m1 m2 L)
  have inv: "agrees (add_mset b L) m" "bufferModel m = bufferModel m0" "bufferPool m = bufferPool m0"
    "bytes (\<lambda>_. True) (add_mset b L) \<le> unat (bufferPool m0)"
    using leave(4) by (simp_all add: mmu_inv_def)
  show ?case
    using agrees_depart[OF inv(1) leave(1,2)] depart_effect[OF inv(1) leave(1,2)] inv
    by (simp add: mmu_inv_def)
next
  case (drop_out p q s t u m m1 p' m2 L)
  then show ?case
    using mmu_inv_same same_counters_trans[OF CheckIngress_same CheckEgress_same] by blast
next
  case (drop_in p q s t u m m1 L)
  then show ?case using mmu_inv_same CheckIngress_same by blast
next
  case (check_resume p q m m1 v L)
  then show ?case using mmu_inv_same CheckShouldResume_same by blast
next
  case (rates m m1 L)
  then show ?case using mmu_inv_same same_counters_updateDequeueRates by blast
qed (auto simp: SetPause_def SetResume_def mmu_inv_paused split: if_splits)

lemma mmu_reach_inv: "mmu_reach m0 a \<Longrightarrow> limiting m0 \<Longrightarrow> idle m0 \<Longrightarrow> mmu_inv m0 a"
proof (induction rule: mmu_reach.induct)
  case start
  then show ?case using agrees_idle[of m0] by (simp add: mmu_inv_def)
next
  case (step a b)
  then show ?case using mmu_step_inv by blast
qed

lemma admitPacket_step:
  assumes "admitPacket p p' q s t u m = Inr (m', v)"
  shows "mmu_step (L, m)
     (if v then add_mset \<lparr>b_in = p, b_out = p', b_q = q, b_size = s, b_type = t\<rparr> L else L, m')"
proof -
  obtain m1 ok1 where ci: "CheckIngressAdmission p q s t u m = Inr (m1, ok1)"
    using assms by (auto simp: admitPacket_def elim!: bindr_InrE)
  show ?thesis
  proof (cases ok1)
    case False
    with assms ci show ?thesis by (auto simp: admitPacket_def intro: mmu_step.drop_in)
  next
    case ok1: True
    then obtain m2 ok2 where ce: "CheckEgressAdmission p' q s t u m1 = Inr (m2, ok2)"
      using assms ci by (auto simp: admitPacket_def elim!: bindr_InrE)
    show ?thesis
    proof (cases ok2)
      case False
      with assms ok1 ci ce show ?thesis by (auto simp: admitPacket_def intro: mmu_step.drop_out)
    next
      case True
      with assms ok1 ci ce show ?thesis
        by (auto simp: admitPacket_def elim!: bindr_InrE intro: mmu_step.admit)
    qed
  qed
qed

lemma mmu_reach_admit:
  "mmu_reach m0 (L, m) \<Longrightarrow> admitPacket p p' q s t u m = Inr (m', True) \<Longrightarrow>
   mmu_reach m0 (add_mset \<lparr>b_in = p, b_out = p', b_q = q, b_size = s, b_type = t\<rparr> L, m')"
  using mmu_reach.step admitPacket_step by fastforce

lemmas mmu_eval =
  SwitchMmu_def headroomCell_def SetIngressPool_def ok_pq_def mmu_consts
  admitPacket_def CheckIngressAdmission_def CheckEgressAdmission_def losslessFull_def GetHdrmBytes_def
  UpdateIngressAdmission_def chargeIngress_def UpdateEgressAdmission_def GetIngressReservedUsedQ_def
  losslessThreshold_def useHeadroom_def headroomLevel_def satsub_def
  Threshold_def DynamicThreshold_def GetIngressSharedUsed_def keep_def capped_def thresholdCap_def
  fmul_def double_eval Let_def

subsection \<open>Properties of the buffer\<close>

text \<open>
  A small configuration on which the properties are evaluated: 2000 bytes of ingress pool and
  10000 bytes of headroom for queue 3 of port 0.
\<close>

definition exampleSwitch :: mmu where
  "exampleSwitch = headroomCell 10000 0 3 (SetIngressPool 2000 (SwitchMmu (\<lambda>_. 0) (\<lambda>_. 0) (\<lambda>_. 0)))"

definition examplePkt :: bpkt where
  "examplePkt = \<lparr>b_in = 0, b_out = 2, b_q = 3, b_size = 1000, b_type = LOSSLESS\<rparr>"

lemma exampleSwitch_start: "limiting exampleSwitch" "idle exampleSwitch"
  by (simp_all add: exampleSwitch_def limiting_def idle_def mmu_eval)

abbreviation exampleAdmit :: "mmu \<Rightarrow> (mmu \<times> bool) res" where
  "exampleAdmit m \<equiv> admitPacket 0 2 3 1000 LOSSLESS 0 m"

definition exampleFull :: "mmu \<Rightarrow> bool" where
  "exampleFull m \<longleftrightarrow> bufferModel m = ''sonic'' \<and> ingressAlg m LOSSLESS = DT \<and> alphaIngress m 0 3 = 1
     \<and> xoff m 0 3 = 10000 \<and> xoffTotal m = 10000 \<and> xoffUsed m 0 3 = 1000 \<and> xoffTotalUsed m = 1000
     \<and> totalUsed m = 2000 \<and> ingressPool m = 2000 \<and> bufferPool m = 24 * 1024 * 1024
     \<and> reserveIngress m 0 3 = 0 \<and> ingress_bytes m 0 3 = 2000 \<and> totalIngressReserved m = 0
     \<and> totalIngressReservedUsed m = 0"

lemma exampleSwitch_runs:
  "\<exists>m1. exampleAdmit exampleSwitch = Inr (m1, True) \<and> (\<exists>m2. exampleAdmit m1 = Inr (m2, True) \<and> exampleFull m2)"
  by (simp add: exampleSwitch_def exampleFull_def mmu_eval)

lemma exampleSwitch_two:
  obtains m where "mmu_reach exampleSwitch ({#examplePkt, examplePkt#}, m)" "exampleFull m"
proof -
  obtain m1 m2 where a: "exampleAdmit exampleSwitch = Inr (m1, True)"
    and b: "exampleAdmit m1 = Inr (m2, True)" and c: "exampleFull m2"
    using exampleSwitch_runs by blast
  have "mmu_reach exampleSwitch ({#examplePkt, examplePkt#}, m2)"
    using mmu_reach_admit[OF mmu_reach_admit[OF mmu_reach.start a] b] by (simp add: examplePkt_def)
  then show ?thesis using c by (rule that)
qed

text \<open>
  C9.  The counters are exact: in every state reachable from an idle switch by admissions, drops,
  departures, pause changes and rate updates, each byte counter of the buffer is the aggregate of
  the packets that are in it, so no guarded subtraction has clamped and no sum has wrapped; and the
  packets in the buffer never add up to more than the configured buffer size.
\<close>

theorem mmu_counters_exact:
  assumes "mmu_reach m0 (L, m)" "limiting m0" "idle m0"
  shows "agrees L m \<and> bytes (\<lambda>_. True) L \<le> unat (bufferPool m) \<and> bufferPool m = bufferPool m0"
  using mmu_reach_inv[OF assms] by (simp add: mmu_inv_def)

theorem mmu_counters_exact_witness:
  "\<exists>m. agrees {#examplePkt, examplePkt#} m \<and> 2000 \<le> unat (bufferPool m)"
proof (rule exampleSwitch_two)
  fix m assume "mmu_reach exampleSwitch ({#examplePkt, examplePkt#}, m)"
  from mmu_counters_exact[OF this exampleSwitch_start] show ?thesis
    by (auto simp: examplePkt_def)
qed

text \<open>
  Nothing leaks: when every admitted packet has left again, the byte counters of an initially idle
  switch (\<open>idle\<close>) are back at zero; the counters of transmitted bytes, which only grow until the
  next rate update, are not.
\<close>

lemma mmu_drained:
  assumes "mmu_reach m0 ({#}, m)" "limiting m0" "idle m0"
  shows "idle m"
  using mmu_reach_inv[OF assms] by (simp add: mmu_inv_def agrees_idle)

subsection \<open>The headroom is bounded\<close>

lemma UpdateIngress_xoff: "UpdateIngressAdmission p q s t u m = Inr m' \<Longrightarrow> xoff m' = xoff m"
  by (auto simp: UpdateIngressAdmission_def Let_def chargeIngress_def useHeadroom_def
           dest!: losslessThreshold_same same_counters_fields(14) split: if_splits)

lemma UpdateEgress_xoff: "UpdateEgressAdmission p q s t m = Inr m' \<Longrightarrow> xoff m' = xoff m"
  by (auto simp: UpdateEgressAdmission_def Let_def split: if_splits)

lemma RemoveIngress_xoff: "RemoveFromIngressAdmission p q s t m = Inr m' \<Longrightarrow> xoff m' = xoff m"
  by (auto simp: RemoveFromIngressAdmission_def Let_def creditIngress_def releaseHeadroom_def split: if_splits)

lemma RemoveEgress_xoff: "RemoveFromEgressAdmission p q s t m = Inr m' \<Longrightarrow> xoff m' = xoff m"
  by (auto simp: RemoveFromEgressAdmission_def Let_def split: if_splits)

text \<open>
  What the headroom of a queue is limited by: its \<^verbatim>\<open>xoff\<close>; its reserved bytes, below which
  \<^verbatim>\<open>xoff\<close> is not looked at; and the size of a packet, because the first packet that enters
  the headroom is not checked against it.
\<close>

definition headroomLimit :: "nat \<Rightarrow> mmu \<Rightarrow> nat \<Rightarrow> nat \<Rightarrow> nat" where
  "headroomLimit B m p q = max B (max (unat (xoff m p q)) (unat (reserveIngress m p q)))"

definition headroom_ok :: "nat \<Rightarrow> mmu \<Rightarrow> bool" where
  "headroom_ok B m \<longleftrightarrow> (\<forall>p q. ok_pq p q \<longrightarrow> unat (xoffUsed m p q) \<le> headroomLimit B m p q)"

text \<open>Runs of the protocol in which no admitted packet is longer than \<open>B\<close> bytes.\<close>

inductive mmu_run :: "nat \<Rightarrow> mmu \<Rightarrow> bpkt multiset \<times> mmu \<Rightarrow> bool" for B m0 where
  start: "mmu_run B m0 ({#}, m0)"
| step: "mmu_run B m0 a \<Longrightarrow> mmu_step a b \<Longrightarrow> (\<And>x. x \<in># fst b \<Longrightarrow> unat (b_size x) \<le> B) \<Longrightarrow> mmu_run B m0 b"

lemma mmu_run_reach: "mmu_run B m0 a \<Longrightarrow> mmu_reach m0 a"
  by (induction rule: mmu_run.induct) (auto intro: mmu_reach.intros)

lemma headroom_same:
  "same_counters m m' \<Longrightarrow> headroom_ok B m' = headroom_ok B m \<and> headroomLimit B m' = headroomLimit B m"
  by (simp add: headroom_ok_def headroomLimit_def same_counters_fields fun_eq_iff)

lemma headroom_admit:
  fixes s :: u32
  assumes inv: "agrees L m" "bytes (\<lambda>_. True) L \<le> unat (bufferPool m)" "limiting m"
    and hr: "headroom_ok B m" and s: "unat s \<le> B" and ok: "ok_pq p q"
    and nf: "t = LOSSLESS \<Longrightarrow> \<not> losslessFull p q (ucast s) m"
    and h: "h = 0 \<or> h = (ucast s :: u64)" "t \<noteq> LOSSLESS \<Longrightarrow> h = 0" "t = LOSSLESS \<and> xoffUsed m p q \<noteq> 0 \<longrightarrow> h = ucast s"
  shows "unat (xoffUsed m p q + h) \<le> headroomLimit B m p q"
proof -
  have old: "unat (xoffUsed m p q) \<le> headroomLimit B m p q" using hr ok by (simp add: headroom_ok_def)
  have plus: "unat (w + ucast s) = unat w + unat s" if "unat w \<le> bytes (\<lambda>_. True) L" for w :: u64
    using that inv(2,3) unat_u32_bound[of s] by (subst unat_plus_u64) (auto simp: limiting_def)
  note le = agrees_le(1)[OF inv(1) ok] agrees_le(7)[OF inv(1) ok]
  have xi: "unat (xoffUsed m p q) \<le> unat (ingress_bytes m p q)"
    using agreesD(8)[OF inv(1) ok] agreesD(2)[OF inv(1) ok] bytes_mono[of "losslessQ p q" "inQ p q" L]
    by (simp add: losslessQ_def)
  consider "h = 0" | "h = ucast s" "xoffUsed m p q = 0" | "h = ucast s" "xoffUsed m p q \<noteq> 0" "t = LOSSLESS"
    using h by blast
  then show ?thesis
  proof cases
    case 1
    then show ?thesis using old by simp
  next
    case 2
    then show ?thesis using s by (simp add: headroomLimit_def)
  next
    case 3
    then have "ucast s + ingress_bytes m p q \<le> reserveIngress m p q \<or> ucast s + xoffUsed m p q \<le> xoff m p q"
      using nf by (auto simp: losslessFull_def GetHdrmBytes_def not_less word_gt_0)
    then have "unat (ingress_bytes m p q) + unat s \<le> unat (reserveIngress m p q)
        \<or> unat (xoffUsed m p q) + unat s \<le> unat (xoff m p q)"
      using plus[OF le(1)] plus[OF le(2)] by (simp add: word_le_nat_alt add.commute)
    then show ?thesis using plus[OF le(2)] xi 3(1) by (auto simp: headroomLimit_def)
  qed
qed

lemma CheckIngress_notFull:
  "CheckIngressAdmission p q s LOSSLESS u m = Inr (m1, True) \<Longrightarrow> limiting m \<Longrightarrow> \<not> losslessFull p q (ucast s) m"
  by (auto simp: CheckIngressAdmission_def Let_def limiting_def mmu_consts bindr_Inr_iff split: if_splits)

lemma headroom_step:
  assumes "mmu_step a b" "limiting m0" "mmu_inv m0 a" "headroom_ok B (snd a)" "\<And>x. x \<in># fst b \<Longrightarrow> unat (b_size x) \<le> B"
  shows "headroom_ok B (snd b) \<and> headroomLimit B (snd b) = headroomLimit B (snd a)"
  using assms
proof (induction rule: mmu_step.induct)
  case (admit p q s t u m m1 p' m2 m3 m4 L)
  note same = same_counters_trans[OF CheckIngress_same[OF admit(1)] CheckEgress_same[OF admit(2)]]
  note sf = same_counters_fields[OF same]
  have inv: "agrees L m" "bytes (\<lambda>_. True) L \<le> unat (bufferPool m)" "limiting m"
    using admit(5,6) by (auto simp: mmu_inv_def limiting_def)
  obtain h where h: "h = 0 \<or> h = (ucast s :: u64)" "t \<noteq> LOSSLESS \<longrightarrow> h = 0" "t = LOSSLESS \<and> xoffUsed m2 p q \<noteq> 0 \<longrightarrow> h = ucast s"
    "xoffUsed m3 = upd2 (xoffUsed m2) p q (xoffUsed m2 p q + h)" and ok: "ok_pq p q"
    using UpdateIngress_effect[OF admit(3)] by auto
  have lim: "headroomLimit B m4 = headroomLimit B m"
    using UpdateIngress_xoff[OF admit(3)] UpdateEgress_xoff[OF admit(4)] UpdateIngress_effect[OF admit(3)]
      UpdateEgress_effect[OF admit(4)] by (simp add: headroomLimit_def fun_eq_iff sf)
  have "unat s \<le> B" using admit(8)[of "\<lparr>b_in = p, b_out = p', b_q = q, b_size = s, b_type = t\<rparr>"] by simp
  moreover have "t = LOSSLESS \<Longrightarrow> \<not> losslessFull p q (ucast s) m" using admit(1) CheckIngress_notFull inv(3) by blast
  moreover have "headroom_ok B m" using admit(7) by simp
  ultimately have "unat (xoffUsed m p q + h) \<le> headroomLimit B m p q"
    using headroom_admit[OF inv, of B s p q t h] ok h(1-3) unfolding sf by blast
  then have "headroom_ok B m4"
    using admit(7) UpdateEgress_effect[OF admit(4)] lim h(4) by (simp add: headroom_ok_def sf)
  then show ?case using lim by simp
next
  case (leave b m m1 m2 L)
  have ag: "agrees (add_mset b L) m" using leave(4) by (simp add: mmu_inv_def)
  note e = depart_effect[OF ag leave(1,2)]
  have "unat (xoffUsed m (b_in b) (b_q b) - departShare b m) \<le> unat (xoffUsed m (b_in b) (b_q b))"
    using departShare_bounds(2)[OF ag] by (simp add: unat_minus_le)
  moreover have lim: "headroomLimit B m2 = headroomLimit B m"
    using RemoveIngress_xoff[OF leave(1)] RemoveEgress_xoff[OF leave(2)] e by (simp add: headroomLimit_def fun_eq_iff)
  ultimately show ?case using leave(5) e by (auto simp: headroom_ok_def intro: order_trans)
next
  case (drop_out p q s t u m m1 p' m2 L)
  then show ?case
    using headroom_same[OF same_counters_trans[OF CheckIngress_same CheckEgress_same]] by simp
next
  case (drop_in p q s t u m m1 L)
  then show ?case using headroom_same[OF CheckIngress_same] by simp
next
  case (check_resume p q m m1 v L)
  then show ?case using headroom_same[OF CheckShouldResume_same] by simp
next
  case (rates m m1 L)
  then show ?case using headroom_same[OF same_counters_updateDequeueRates] by simp
qed (auto simp: SetPause_def SetResume_def headroom_ok_def headroomLimit_def fun_eq_iff split: if_splits)

lemma mmu_run_headroom:
  assumes "mmu_run B m0 a" "limiting m0" "idle m0"
  shows "headroom_ok B (snd a) \<and> headroomLimit B (snd a) = headroomLimit B m0"
  using assms(1)
proof induction
  case start
  then show ?case using assms(3) by (auto simp: headroom_ok_def idle_def)
next
  case (step a b)
  then show ?case
    using headroom_step[OF step(2) assms(2) mmu_reach_inv[OF mmu_run_reach[OF step(1)] assms(2,3)]] by simp
qed

text \<open>
  C16.  The headroom is bounded: in every state reachable by packets of at most \<open>B\<close> bytes from an idle switch, no queue has
  more bytes in its headroom than its \<^verbatim>\<open>xoff\<close>, its reserved bytes or \<open>B\<close>, whichever is
  largest (\<open>headroomLimit\<close>, of the initial configuration, which no step changes), and the headroom in use over all queues is at most the
  sum of these limits.
  \<^verbatim>\<open>xoff\<close> alone is not the bound: the packet that makes a queue enter its headroom is not
  checked against it, and \<^verbatim>\<open>xoff\<close> is not looked at while the queue is below its reserved bytes.
\<close>

theorem headroom_bounded:
  assumes "mmu_run B m0 (L, m)" "limiting m0" "idle m0"
  shows "(\<forall>p q. ok_pq p q \<longrightarrow> unat (xoffUsed m p q) \<le> headroomLimit B m0 p q)
    \<and> unat (xoffTotalUsed m) \<le> grid_sum pCnt qCnt (headroomLimit B m0)"
proof -
  have h: "headroom_ok B m" "headroomLimit B m = headroomLimit B m0" using mmu_run_headroom[OF assms] by simp_all
  have "agrees L m" using mmu_reach_inv[OF mmu_run_reach[OF assms(1)] assms(2,3)] by (simp add: mmu_inv_def)
  from agreesD(7)[OF this] show ?thesis using h by (auto simp: headroom_ok_def ok_pq_def intro!: grid_sum_mono)
qed

theorem headroom_bounded_witness:
  "\<exists>m. mmu_run 1000 exampleSwitch ({#examplePkt, examplePkt#}, m) \<and> xoffUsed m 0 3 = 1000
     \<and> unat (xoffUsed m 0 3) \<le> 10000"
proof -
  obtain m1 m2 where a: "exampleAdmit exampleSwitch = Inr (m1, True)"
    and b: "exampleAdmit m1 = Inr (m2, True)" and c: "exampleFull m2"
    using exampleSwitch_runs by blast
  have r1: "mmu_run 1000 exampleSwitch ({#examplePkt#}, m1)"
    by (rule mmu_run.step[OF mmu_run.start admitPacket_step[OF a, of "{#}", simplified, folded examplePkt_def]])
       (simp add: examplePkt_def)
  have r2: "mmu_run 1000 exampleSwitch ({#examplePkt, examplePkt#}, m2)"
    by (rule mmu_run.step[OF r1 admitPacket_step[OF b, of "{#examplePkt#}", simplified, folded examplePkt_def]])
       (auto simp: examplePkt_def)
  have "headroomLimit 1000 exampleSwitch 0 3 = 10000" "ok_pq 0 3"
    by (simp_all add: headroomLimit_def exampleSwitch_def mmu_eval)
  then show ?thesis using headroom_bounded[OF r2 exampleSwitch_start] r2 c by (auto simp: exampleFull_def)
qed

end
