(* ===== verification/Event_Scheduler.thy ===== *)
theory Event_Scheduler
  imports Prelude "HOL-Library.Product_Lexorder"
begin

text \<open>
  The event list of the simulator (core/model/scheduler.h): event keys and their comparison
  operators, the virtual interface \<^verbatim>\<open>Scheduler\<close> as a record of operations, and its contract
  as locales.  \<open>event_queue\<close> is what \<^verbatim>\<open>Insert\<close>, \<^verbatim>\<open>IsEmpty\<close>, \<^verbatim>\<open>PeekNext\<close> and
  \<^verbatim>\<open>RemoveNext\<close> promise: the queue is a multiset of events and the next event is one with the
  smallest key.  \<open>event_queue_remove\<close> adds the promise of \<^verbatim>\<open>Remove\<close>.  Inside the locales: a queue
  is drained in key order, and moving all events to another scheduler loses none.  The weaker
  \<open>timed_queue\<close> and \<open>timed_queue_remove\<close> promise the same to a client whose clock never goes back.
\<close>

subsection \<open>Keys and events\<close>

record EventKey =
  m_ts :: u64
  m_uid :: u32
  m_context :: u32

text \<open>The event implementation is a pointer: \<open>None\<close> is the null pointer.\<close>

record Event =
  impl :: "nat option"
  key :: EventKey

definition key_eq :: "EventKey \<Rightarrow> EventKey \<Rightarrow> bool" where
  "key_eq a b \<longleftrightarrow> m_uid a = m_uid b"

definition key_neq :: "EventKey \<Rightarrow> EventKey \<Rightarrow> bool" where
  "key_neq a b \<longleftrightarrow> m_uid a \<noteq> m_uid b"

definition key_less :: "EventKey \<Rightarrow> EventKey \<Rightarrow> bool" where
  "key_less a b =
     (if m_ts a < m_ts b then True
      else if m_ts a = m_ts b \<and> m_uid a < m_uid b then True
      else False)"

definition key_greater :: "EventKey \<Rightarrow> EventKey \<Rightarrow> bool" where
  "key_greater a b =
     (if m_ts a > m_ts b then True
      else if m_ts a = m_ts b \<and> m_uid a > m_uid b then True
      else False)"

definition event_eq :: "Event \<Rightarrow> Event \<Rightarrow> bool" where
  "event_eq a b \<longleftrightarrow> key_eq (key a) (key b)"

definition event_less :: "Event \<Rightarrow> Event \<Rightarrow> bool" where
  "event_less a b \<longleftrightarrow> key_less (key a) (key b)"

definition event_greater :: "Event \<Rightarrow> Event \<Rightarrow> bool" where
  "event_greater a b \<longleftrightarrow> key_greater (key a) (key b)"

text \<open>The order behind the operators: time stamp first, then the unique id.\<close>

definition rank :: "EventKey \<Rightarrow> u64 \<times> u32" where
  "rank k = (m_ts k, m_uid k)"

abbreviation erank :: "Event \<Rightarrow> u64 \<times> u32" where
  "erank e \<equiv> rank (key e)"

abbreviation euid :: "Event \<Rightarrow> u32" where
  "euid e \<equiv> m_uid (key e)"

lemma key_less_rank: "key_less a b \<longleftrightarrow> rank a < rank b"
  by (auto simp: key_less_def rank_def)

lemma key_greater_rank: "key_greater a b \<longleftrightarrow> rank b < rank a"
  by (auto simp: key_greater_def rank_def)

lemma event_less_rank: "event_less a b \<longleftrightarrow> erank a < erank b"
  by (simp add: event_less_def key_less_rank)

lemma rank_eqD: "rank a = rank b \<Longrightarrow> m_uid a = m_uid b"
  by (simp add: rank_def)

lemmas rank_orders = key_less_rank key_greater_rank event_less_rank

subsection \<open>The interface\<close>

record 'q Scheduler =
  Insert :: "Event \<Rightarrow> 'q \<Rightarrow> 'q res"
  IsEmpty :: "'q \<Rightarrow> bool"
  PeekNext :: "'q \<Rightarrow> Event res"
  RemoveNext :: "'q \<Rightarrow> (Event \<times> 'q) res"
  Remove :: "Event \<Rightarrow> 'q \<Rightarrow> 'q res"

text \<open>
  The loop of \<^verbatim>\<open>DefaultSimulatorImpl::SetScheduler\<close> that moves all events to a new
  scheduler, and the loop that takes all events out; \<open>None\<close> is a loop that has not ended within
  \<open>n\<close> iterations.
\<close>

fun moveEvents :: "'a Scheduler \<Rightarrow> 'b Scheduler \<Rightarrow> nat \<Rightarrow> 'a \<Rightarrow> 'b \<Rightarrow> ('b res) option" where
  "moveEvents A B 0 q r = None"
| "moveEvents A B (Suc n) q r =
     (if IsEmpty A q then Some (Inr r)
      else case RemoveNext A q of
             Inl e \<Rightarrow> Some (Inl e)
           | Inr (next, q') \<Rightarrow>
               (case Insert B next r of
                  Inl e \<Rightarrow> Some (Inl e)
                | Inr r' \<Rightarrow> moveEvents A B n q' r'))"

fun drain :: "'q Scheduler \<Rightarrow> nat \<Rightarrow> 'q \<Rightarrow> (Event list res) option" where
  "drain S 0 q = None"
| "drain S (Suc n) q =
     (if IsEmpty S q then Some (Inr [])
      else case RemoveNext S q of
             Inl e \<Rightarrow> Some (Inl e)
           | Inr (next, q') \<Rightarrow>
               (case drain S n q' of
                  Some (Inr es) \<Rightarrow> Some (Inr (next # es))
                | r \<Rightarrow> r))"

fun insertAll :: "'q Scheduler \<Rightarrow> Event list \<Rightarrow> 'q \<Rightarrow> 'q res" where
  "insertAll S es q = loopr (Insert S) es q"

subsection \<open>The contract\<close>

definition ranks_distinct :: "Event multiset \<Rightarrow> bool" where
  "ranks_distinct M \<longleftrightarrow> (\<forall>x\<in>#M. \<forall>y\<in>#M - {#x#}. erank x \<noteq> erank y)"

definition uids_distinct :: "Event multiset \<Rightarrow> bool" where
  "uids_distinct M \<longleftrightarrow> (\<forall>x\<in>#M. \<forall>y\<in>#M - {#x#}. euid x \<noteq> euid y)"

lemma ranks_distinct_empty [simp]: "ranks_distinct {#}"
  by (simp add: ranks_distinct_def)

lemma uids_distinct_empty [simp]: "uids_distinct {#}"
  by (simp add: uids_distinct_def)

lemma mset_pairwise_add:
  assumes "\<And>x y. R x y = R y x"
  shows "(\<forall>x\<in>#add_mset a M. \<forall>y\<in>#add_mset a M - {#x#}. R x y) \<longleftrightarrow>
         (\<forall>y\<in>#M. R a y) \<and> (\<forall>x\<in>#M. \<forall>y\<in>#M - {#x#}. R x y)"
proof -
  have "add_mset a M - {#x#} = add_mset a (M - {#x#})" if "x \<in># M" for x
    using that by simp
  then show ?thesis using assms by (auto split: if_splits)
qed

lemma ranks_distinct_add [simp]:
  "ranks_distinct (add_mset a M) \<longleftrightarrow> (\<forall>y\<in>#M. erank a \<noteq> erank y) \<and> ranks_distinct M"
  unfolding ranks_distinct_def by (rule mset_pairwise_add) auto

lemma uids_distinct_add [simp]:
  "uids_distinct (add_mset a M) \<longleftrightarrow> (\<forall>y\<in>#M. euid a \<noteq> euid y) \<and> uids_distinct M"
  unfolding uids_distinct_def by (rule mset_pairwise_add) auto

lemma uids_ranks_distinct: "uids_distinct M \<Longrightarrow> ranks_distinct M"
  by (auto simp: uids_distinct_def ranks_distinct_def dest: rank_eqD)

lemma uids_distinct_inj:
  assumes "uids_distinct M" "x \<in># M" "y \<in># M" "euid x = euid y"
  shows "x = y"
proof -
  obtain A where "M = add_mset x A" using assms(2) by (rule mset_add)
  then show ?thesis using assms by auto
qed

lemma uids_distinct_part: "uids_distinct (M + N) \<Longrightarrow> uids_distinct N"
  by (induction M) auto

lemma ranks_distinct_union:
  "ranks_distinct (M + N) \<longleftrightarrow>
     ranks_distinct M \<and> ranks_distinct N \<and> (\<forall>x\<in>#M. \<forall>y\<in>#N. erank x \<noteq> erank y)"
  by (induction M) auto

text \<open>Two lists in strictly increasing key order with the same events are the same list.\<close>

lemma sorted_ranks_unique:
  assumes "mset xs = mset ys" "ranks_distinct (mset xs)"
    and "sorted (map erank xs)" "sorted (map erank ys)"
  shows "xs = ys"
  using assms
proof (induction xs arbitrary: ys)
  case (Cons x xs)
  then obtain y ys' where ys: "ys = y # ys'" by (cases ys) auto
  have "x \<in> set ys" "y \<in> set (x # xs)"
    using Cons.prems(1) ys by (metis list.set_intros(1) set_mset_mset)+
  then have "erank y \<le> erank x" "erank x \<le> erank y"
    using Cons.prems(3,4) ys by auto
  then have "erank x = erank y" by simp
  then have "x = y" using \<open>y \<in> set (x # xs)\<close> Cons.prems(2) by auto
  then show ?case using Cons ys by simp
qed simp

locale event_queue =
  fixes S :: "'q Scheduler" and inv :: "'q \<Rightarrow> bool" and evs :: "'q \<Rightarrow> Event multiset" and start :: 'q
  assumes start: "inv start" "evs start = {#}"
    and insert: "inv q \<Longrightarrow> (\<And>e. e \<in># evs q \<Longrightarrow> erank ev \<noteq> erank e) \<Longrightarrow>
      \<exists>q'. Insert S ev q = Inr q' \<and> inv q' \<and> evs q' = add_mset ev (evs q)"
    and isEmpty: "inv q \<Longrightarrow> IsEmpty S q \<longleftrightarrow> evs q = {#}"
    and removeNext: "inv q \<Longrightarrow> evs q \<noteq> {#} \<Longrightarrow>
      \<exists>e q'. RemoveNext S q = Inr (e, q') \<and> PeekNext S q = Inr e \<and> inv q'
        \<and> evs q = add_mset e (evs q') \<and> (\<forall>x\<in>#evs q. erank e \<le> erank x)"
begin

lemma removeNextE:
  assumes "inv q" "evs q \<noteq> {#}"
  obtains e q' where "RemoveNext S q = Inr (e, q')" "PeekNext S q = Inr e" "inv q'"
    "evs q = add_mset e (evs q')" "\<forall>x\<in>#evs q'. erank e \<le> erank x"
  using removeNext[OF assms] by auto

text \<open>Taking all events out gives them in key order, and takes one iteration per event.\<close>

lemma drain_sorted:
  assumes "inv q" "size (evs q) < n"
  shows "\<exists>es. drain S n q = Some (Inr es) \<and> mset es = evs q \<and> sorted (map erank es)"
  using assms
proof (induction n arbitrary: q)
  case (Suc n)
  show ?case
  proof (cases "evs q = {#}")
    case True
    then show ?thesis using isEmpty[OF Suc.prems(1)] by simp
  next
    case False
    with Suc.prems(1) obtain e q' where r: "RemoveNext S q = Inr (e, q')" "inv q'"
      "evs q = add_mset e (evs q')" "\<forall>x\<in>#evs q'. erank e \<le> erank x"
      by (rule removeNextE)
    then obtain es where "drain S n q' = Some (Inr es)" "mset es = evs q'" "sorted (map erank es)"
      using Suc.IH[of q'] Suc.prems(2) by auto
    then show ?thesis
      using r isEmpty[OF Suc.prems(1)] by (auto simp flip: set_mset_mset)
  qed
qed simp

lemma insertAll_ok:
  assumes "inv q" "ranks_distinct (mset es + evs q)"
  shows "\<exists>q'. insertAll S es q = Inr q' \<and> inv q' \<and> evs q' = mset es + evs q"
  using assms
proof (induction es arbitrary: q)
  case (Cons e es)
  have "\<And>x. x \<in># evs q \<Longrightarrow> erank e \<noteq> erank x"
    using Cons.prems(2) by (auto simp: ranks_distinct_union)
  from insert[OF Cons.prems(1) this] obtain q1 where
    q1: "Insert S e q = Inr q1" "inv q1" "evs q1 = add_mset e (evs q)" by blast
  have "ranks_distinct (mset es + evs q1)" using Cons.prems(2) q1(3) by simp
  from Cons.IH[OF q1(2) this] show ?case using q1 by auto
qed simp

end

text \<open>Two schedulers: what \<^verbatim>\<open>SetScheduler\<close> relies on.\<close>

locale scheduler_switch =
  A: event_queue A invA evsA startA + B: event_queue B invB evsB startB
  for A :: "'a Scheduler" and invA evsA startA and B :: "'b Scheduler" and invB evsB startB
begin

lemma moveEvents_ok:
  assumes "invA q" "invB r" "ranks_distinct (evsA q + evsB r)" "size (evsA q) < n"
  shows "\<exists>r'. moveEvents A B n q r = Some (Inr r') \<and> invB r' \<and> evsB r' = evsA q + evsB r"
  using assms
proof (induction n arbitrary: q r)
  case (Suc n)
  show ?case
  proof (cases "evsA q = {#}")
    case True
    then show ?thesis using A.isEmpty[OF Suc.prems(1)] Suc.prems(2) by simp
  next
    case False
    with Suc.prems(1) obtain e q' where q': "RemoveNext A q = Inr (e, q')" "invA q'"
      "evsA q = add_mset e (evsA q')"
      by (rule A.removeNextE)
    have "\<And>x. x \<in># evsB r \<Longrightarrow> erank e \<noteq> erank x"
      using Suc.prems(3) q'(3) by (auto simp: ranks_distinct_union)
    from B.insert[OF Suc.prems(2) this] obtain r1 where
      r1: "Insert B e r = Inr r1" "invB r1" "evsB r1 = add_mset e (evsB r)" by blast
    have "ranks_distinct (evsA q' + evsB r1)" "size (evsA q') < n"
      using Suc.prems(3,4) q'(3) r1(3) by simp_all
    from Suc.IH[OF q'(2) r1(2) this] show ?thesis
      using q' r1 False A.isEmpty[OF Suc.prems(1)] by auto
  qed
qed simp

text \<open>Whatever the data structure, the same events come out in the same order.\<close>

lemma same_order:
  assumes "ranks_distinct (mset es)" "length es < n"
  shows "\<exists>q r out. insertAll A es startA = Inr q \<and> insertAll B es startB = Inr r
    \<and> drain A n q = Some (Inr out) \<and> drain B n r = Some (Inr out)
    \<and> mset out = mset es \<and> sorted (map erank out)"
proof -
  obtain q r where q: "insertAll A es startA = Inr q" "invA q" "evsA q = mset es"
    and r: "insertAll B es startB = Inr r" "invB r" "evsB r = mset es"
    using A.insertAll_ok[of startA es] B.insertAll_ok[of startB es] A.start B.start assms(1) by auto
  obtain o1 o2 where o1: "drain A n q = Some (Inr o1)" "mset o1 = mset es" "sorted (map erank o1)"
    and o2: "drain B n r = Some (Inr o2)" "mset o2 = mset es" "sorted (map erank o2)"
    using A.drain_sorted[OF q(2), of n] B.drain_sorted[OF r(2), of n] q(3) r(3) assms(2) by auto
  have "o1 = o2" using sorted_ranks_unique[of o1 o2] o1 o2 assms(1) by simp
  then show ?thesis using q r o1 o2 by blast
qed

end

locale event_queue_remove = event_queue +
  assumes remove: "inv q \<Longrightarrow> uids_distinct (evs q) \<Longrightarrow> ev \<in># evs q \<Longrightarrow>
    \<exists>q'. Remove S ev q = Inr q' \<and> inv q' \<and> evs q = add_mset ev (evs q')"

subsection \<open>The contract along the clock\<close>

text \<open>
  What the simulator needs is less: it never inserts an event before the time of the event it
  removed last, times are below \<open>2 ^ 63\<close>, and there are fewer than \<open>2 ^ 32\<close> events.  \<open>inv t q\<close>
  says that the queue is well formed and open for events from time \<open>t\<close> on.
\<close>

locale timed_queue =
  fixes S :: "'q Scheduler" and inv :: "u64 \<Rightarrow> 'q \<Rightarrow> bool" and evs :: "'q \<Rightarrow> Event multiset" and start :: 'q
  assumes start: "inv 0 start" "evs start = {#}"
    and insert: "inv t q \<Longrightarrow> (\<And>e. e \<in># evs q \<Longrightarrow> euid ev \<noteq> euid e) \<Longrightarrow> t \<le> m_ts (key ev) \<Longrightarrow>
      unat (m_ts (key ev)) < 2 ^ 63 \<Longrightarrow> Suc (size (evs q)) < 2 ^ 32 \<Longrightarrow>
      \<exists>q'. Insert S ev q = Inr q' \<and> inv t q' \<and> evs q' = add_mset ev (evs q)"
    and isEmpty: "inv t q \<Longrightarrow> IsEmpty S q \<longleftrightarrow> evs q = {#}"
    and removeNext: "inv t q \<Longrightarrow> evs q \<noteq> {#} \<Longrightarrow>
      \<exists>e q'. RemoveNext S q = Inr (e, q') \<and> PeekNext S q = Inr e \<and> inv (m_ts (key e)) q'
        \<and> evs q = add_mset e (evs q') \<and> (\<forall>x\<in>#evs q. erank e \<le> erank x)"
begin

lemma removeNextE:
  assumes "inv t q" "evs q \<noteq> {#}"
  obtains e q' where "RemoveNext S q = Inr (e, q')" "PeekNext S q = Inr e" "inv (m_ts (key e)) q'"
    "evs q = add_mset e (evs q')" "\<forall>x\<in>#evs q'. erank e \<le> erank x"
  using removeNext[OF assms] by auto

end

locale timed_queue_remove = timed_queue +
  assumes remove: "inv t q \<Longrightarrow> uids_distinct (evs q) \<Longrightarrow> ev \<in># evs q \<Longrightarrow>
    \<exists>q'. Remove S ev q = Inr q' \<and> inv t q' \<and> evs q = add_mset ev (evs q')"

text \<open>A new scheduler starts at time 0, so that the events of any other one can be moved to it.\<close>

locale timed_switch =
  A: timed_queue A invA evsA startA + B: timed_queue B invB evsB startB
  for A :: "'a Scheduler" and invA evsA startA and B :: "'b Scheduler" and invB evsB startB
begin

lemma moveEvents_timed:
  assumes "invA t q" "invB 0 r" "uids_distinct (evsA q + evsB r)" "size (evsA q) + size (evsB r) < 2 ^ 32"
    and "\<forall>e\<in>#evsA q. unat (m_ts (key e)) < 2 ^ 63" "size (evsA q) < n"
  shows "\<exists>r'. moveEvents A B n q r = Some (Inr r') \<and> invB 0 r' \<and> evsB r' = evsA q + evsB r"
  using assms
proof (induction n arbitrary: t q r)
  case (Suc n)
  note emp = A.isEmpty[OF Suc.prems(1)]
  show ?case
  proof (cases "evsA q = {#}")
    case False
    with Suc.prems(1) obtain e q' where q': "RemoveNext A q = Inr (e, q')" "invA (m_ts (key e)) q'"
      "evsA q = add_mset e (evsA q')"
      by (rule A.removeNextE)
    have "\<And>x. x \<in># evsB r \<Longrightarrow> euid e \<noteq> euid x" "unat (m_ts (key e)) < 2 ^ 63" "Suc (size (evsB r)) < 2 ^ 32"
      using Suc.prems(3-5) q'(3) by auto
    with B.insert[OF Suc.prems(2), of e] obtain r1 where
      r1: "Insert B e r = Inr r1" "invB 0 r1" "evsB r1 = add_mset e (evsB r)" by auto
    then show ?thesis using Suc.IH[OF q'(2) r1(2)] Suc.prems q' emp False by auto
  qed (use emp Suc.prems(2) in simp)
qed simp

end

sublocale event_queue \<subseteq> timed: timed_queue S "\<lambda>_. inv" evs start
proof unfold_locales
  fix q ev
  assume q: "inv q" and fresh: "\<And>e. e \<in># evs q \<Longrightarrow> euid ev \<noteq> euid e"
  have "erank ev \<noteq> erank e" if "e \<in># evs q" for e
    using fresh[OF that] rank_eqD by blast
  then show "\<exists>q'. Insert S ev q = Inr q' \<and> inv q' \<and> evs q' = add_mset ev (evs q)"
    by (rule insert[OF q])
qed (fact start isEmpty removeNext | assumption)+

sublocale event_queue_remove \<subseteq> timed: timed_queue_remove S "\<lambda>_. inv" evs start
  by unfold_locales (fact remove)

end
