(* ===== verification/Scheduler_Programs.thy ===== *)
theory Scheduler_Programs
  imports Event_Scheduler
begin

text \<open>
  What a client sees of a scheduler: programs of scheduler calls and their answers.  The reference is
  a list of events in key order.  The locales of the timed contract show that every scheduler
  that fulfils it answers as the reference does, for every program whose clock does not go back.
\<close>

datatype qop = OpInsert Event | OpIsEmpty | OpPeekNext | OpRemoveNext | OpRemove Event

datatype answer = AnsEvent Event | AnsBool bool

text \<open>One call through the virtual interface, and a program of calls.\<close>

fun callOp :: "'q Scheduler \<Rightarrow> qop \<Rightarrow> 'q \<Rightarrow> (answer list \<times> 'q) res" where
  "callOp S (OpInsert ev) q = bindr (Insert S ev q) (\<lambda>q. Inr ([], q))"
| "callOp S OpIsEmpty q = Inr ([AnsBool (IsEmpty S q)], q)"
| "callOp S OpPeekNext q = bindr (PeekNext S q) (\<lambda>e. Inr ([AnsEvent e], q))"
| "callOp S OpRemoveNext q = bindr (RemoveNext S q) (\<lambda>(e, q). Inr ([AnsEvent e], q))"
| "callOp S (OpRemove ev) q = bindr (Remove S ev q) (\<lambda>q. Inr ([], q))"

fun answers :: "'q Scheduler \<Rightarrow> qop list \<Rightarrow> 'q \<Rightarrow> answer list res" where
  "answers S [] q = Inr []"
| "answers S (c # cs) q =
     bindr (callOp S c q) (\<lambda>(a, q). bindr (answers S cs q) (\<lambda>as. Inr (a @ as)))"

text \<open>The reference: the pending events in key order.\<close>

fun refOp :: "qop \<Rightarrow> Event list \<Rightarrow> answer list \<times> Event list" where
  "refOp (OpInsert ev) l = ([], insort_key erank ev l)"
| "refOp OpIsEmpty l = ([AnsBool (l = [])], l)"
| "refOp OpPeekNext l = ([AnsEvent (hd l)], l)"
| "refOp OpRemoveNext l = ([AnsEvent (hd l)], tl l)"
| "refOp (OpRemove ev) l = ([], remove1 ev l)"

fun reference :: "qop list \<Rightarrow> Event list \<Rightarrow> answer list" where
  "reference [] l = []"
| "reference (c # cs) l = fst (refOp c l) @ reference cs (snd (refOp c l))"

text \<open>
  A program that keeps to the rules, \<open>t\<close> the time of the event removed last: events are inserted with a
  new unique id and not in the past, only pending events are removed, and the next event is asked
  for only when there is one.
\<close>

fun timelyOp :: "u64 \<Rightarrow> qop \<Rightarrow> Event list \<Rightarrow> bool" where
  "timelyOp t (OpInsert ev) l \<longleftrightarrow> t \<le> m_ts (key ev) \<and> unat (m_ts (key ev)) < 2 ^ 63
     \<and> euid ev \<notin> set (map euid l) \<and> Suc (length l) < 2 ^ 32"
| "timelyOp t OpIsEmpty l \<longleftrightarrow> True"
| "timelyOp t OpPeekNext l \<longleftrightarrow> l \<noteq> []"
| "timelyOp t OpRemoveNext l \<longleftrightarrow> l \<noteq> []"
| "timelyOp t (OpRemove ev) l \<longleftrightarrow> ev \<in> set l"

fun clockOp :: "u64 \<Rightarrow> qop \<Rightarrow> Event list \<Rightarrow> u64" where
  "clockOp t OpRemoveNext l = m_ts (key (hd l))"
| "clockOp t _ l = t"

fun timely :: "u64 \<Rightarrow> qop list \<Rightarrow> Event list \<Rightarrow> bool" where
  "timely t [] l \<longleftrightarrow> True"
| "timely t (c # cs) l \<longleftrightarrow> timelyOp t c l \<and> timely (clockOp t c l) cs (snd (refOp c l))"

definition removes :: "qop list \<Rightarrow> bool" where
  "removes cs \<longleftrightarrow> list_ex (\<lambda>c. case c of OpRemove _ \<Rightarrow> True | _ \<Rightarrow> False) cs"

lemma removes_Cons [simp]: "removes (c # cs) \<longleftrightarrow> (\<exists>ev. c = OpRemove ev) \<or> removes cs"
  by (auto simp: removes_def split: qop.splits)

lemma insort_key_mset [simp]: "mset (insort_key erank ev l) = add_mset ev (mset l)"
  by (induction l) auto

text \<open>The queue \<open>q\<close> holds the events of the reference list \<open>l\<close> at time \<open>t\<close>.\<close>

definition holds ::
    "(u64 \<Rightarrow> 'q \<Rightarrow> bool) \<Rightarrow> ('q \<Rightarrow> Event multiset) \<Rightarrow> u64 \<Rightarrow> 'q \<Rightarrow> Event list \<Rightarrow> bool" where
  "holds qinv evs t q l \<longleftrightarrow> qinv t q \<and> evs q = mset l \<and> sorted (map erank l) \<and> uids_distinct (mset l)"

context timed_queue
begin

lemma holds_hd:
  assumes "holds inv evs t q l" "l \<noteq> []"
  shows "\<exists>q'. RemoveNext S q = Inr (hd l, q') \<and> PeekNext S q = Inr (hd l) \<and> holds inv evs (m_ts (key (hd l))) q' (tl l)"
proof -
  obtain x l' where l: "l = x # l'" using assms(2) by (cases l) auto
  have q: "inv t q" "evs q = add_mset x (mset l')" "sorted (map erank l)" "uids_distinct (mset l)"
    using assms(1) by (auto simp: holds_def l)
  have "evs q \<noteq> {#}" by (simp add: q(2))
  from removeNext[OF q(1) this] obtain e q' where e: "RemoveNext S q = Inr (e, q')" "PeekNext S q = Inr e" "inv (m_ts (key e)) q'"
    "evs q = add_mset e (evs q')" "\<forall>x\<in>#evs q. erank e \<le> erank x"
    by blast
  have "e \<in># evs q" using e(4) by simp
  then have "e \<in> set l" "erank e \<le> erank x" using q(2) e(5) by (auto simp: l)
  moreover have "erank x \<le> erank e" using q(3) \<open>e \<in> set l\<close> by (auto simp: l)
  ultimately have "euid e = euid x" by (intro rank_eqD) simp
  then have x: "e = x" using \<open>e \<in> set l\<close> q(4) by (auto simp: l)
  then have "evs q' = mset l'" using e(4) q(2) by simp
  then show ?thesis using e(1-3) q(3,4) by (simp add: holds_def l x)
qed

lemma holds_callOp:
  assumes "holds inv evs t q l" "timelyOp t c l"
    and rm: "\<And>ev. c = OpRemove ev \<Longrightarrow> \<exists>q'. Remove S ev q = Inr q' \<and> inv t q' \<and> evs q = add_mset ev (evs q')"
  shows "\<exists>q'. callOp S c q = Inr (fst (refOp c l), q') \<and> holds inv evs (clockOp t c l) q' (snd (refOp c l))"
proof -
  have q: "inv t q" "evs q = mset l" "sorted (map erank l)" "uids_distinct (mset l)"
    using assms(1) by (auto simp: holds_def)
  show ?thesis
  proof (cases c)
    case (OpInsert ev)
    then obtain q' where "Insert S ev q = Inr q'" "inv t q'" "evs q' = add_mset ev (evs q)"
      using insert[OF q(1), of ev] assms(2) q(2) by auto
    then show ?thesis using OpInsert assms(2) q by (auto simp: holds_def sorted_insort_key)
  next
    case OpIsEmpty
    then show ?thesis using isEmpty[OF q(1)] q(2) assms(1) by simp
  next
    case OpPeekNext
    then show ?thesis using holds_hd[OF assms(1)] assms by auto
  next
    case OpRemoveNext
    then show ?thesis using holds_hd[OF assms(1)] assms(2) by auto
  next
    case (OpRemove ev)
    then obtain q' where r: "Remove S ev q = Inr q'" "inv t q'" "evs q = add_mset ev (evs q')"
      using rm by blast
    have m: "mset l = add_mset ev (evs q')" using q(2) r(3) by simp
    have "evs q' = mset (remove1 ev l)" by (simp add: m)
    moreover have "sorted (map erank (remove1 ev l))" using q(3) by (simp add: sorted_map_remove1)
    moreover have "uids_distinct (mset (remove1 ev l))" using q(4) unfolding m by (simp add: m)
    ultimately show ?thesis using OpRemove r by (simp add: holds_def)
  qed
qed

lemma answers_reference:
  assumes "holds inv evs t q l" "timely t cs l"
    and rm: "\<And>t ev q. removes cs \<Longrightarrow> inv t q \<Longrightarrow> uids_distinct (evs q) \<Longrightarrow> ev \<in># evs q \<Longrightarrow>
      \<exists>q'. Remove S ev q = Inr q' \<and> inv t q' \<and> evs q = add_mset ev (evs q')"
  shows "answers S cs q = Inr (reference cs l)"
  using assms
proof (induction cs arbitrary: t q l)
  case (Cons c cs)
  have "\<exists>q'. Remove S ev q = Inr q' \<and> inv t q' \<and> evs q = add_mset ev (evs q')" if "c = OpRemove ev" for ev
    using Cons.prems that by (intro Cons.prems(3)) (auto simp: holds_def)
  then obtain q' where q': "callOp S c q = Inr (fst (refOp c l), q')"
    "holds inv evs (clockOp t c l) q' (snd (refOp c l))"
    using holds_callOp[OF Cons.prems(1), of c] Cons.prems(2) by auto
  have "answers S cs q' = Inr (reference cs (snd (refOp c l)))"
    using Cons.prems(2,3) by (intro Cons.IH[OF q'(2)]) auto
  then show ?case using q'(1) by simp
qed simp

lemma holds_start: "holds inv evs 0 start []"
  using start by (simp add: holds_def)

lemma program_reference:
  "timely 0 cs [] \<Longrightarrow> \<not> removes cs \<Longrightarrow> answers S cs start = Inr (reference cs [])"
  by (rule answers_reference[OF holds_start]) simp_all

end

context timed_queue_remove
begin

lemma program_reference_remove:
  "timely 0 cs [] \<Longrightarrow> answers S cs start = Inr (reference cs [])"
  by (rule answers_reference[OF holds_start]) (simp_all add: remove)

end

end
