(* ===== verification/Ordered_Schedulers.thy ===== *)
theory Ordered_Schedulers
  imports Scheduler_Programs
begin

text \<open>
  The two schedulers that keep their events in order: \<^verbatim>\<open>ListScheduler\<close> on a
  \<^verbatim>\<open>std::list\<close> and \<^verbatim>\<open>MapScheduler\<close> on a \<^verbatim>\<open>std::map\<close> from keys to event
  pointers.  The map of the standard library is the list of its entries in key order.  Both
  interpret the full contract \<open>event_queue_remove\<close>.
\<close>

subsection \<open>ListScheduler\<close>

type_synonym list_queue = "Event list"

fun insertBefore :: "Event \<Rightarrow> list_queue \<Rightarrow> list_queue" where
  "insertBefore ev [] = [ev]"
| "insertBefore ev (i # is) =
     (if key_less (key ev) (key i) then ev # i # is else i # insertBefore ev is)"

definition ListScheduler_Insert :: "Event \<Rightarrow> list_queue \<Rightarrow> list_queue res" where
  "ListScheduler_Insert ev q = Inr (insertBefore ev q)"

definition ListScheduler_IsEmpty :: "list_queue \<Rightarrow> bool" where
  "ListScheduler_IsEmpty q \<longleftrightarrow> q = []"

fun ListScheduler_PeekNext :: "list_queue \<Rightarrow> Event res" where
  "ListScheduler_PeekNext [] = Inl OutOfBounds"
| "ListScheduler_PeekNext (e # q) = Inr e"

fun ListScheduler_RemoveNext :: "list_queue \<Rightarrow> (Event \<times> list_queue) res" where
  "ListScheduler_RemoveNext [] = Inl OutOfBounds"
| "ListScheduler_RemoveNext (e # q) = Inr (e, q)"

fun ListScheduler_Remove :: "Event \<Rightarrow> list_queue \<Rightarrow> list_queue res" where
  "ListScheduler_Remove ev [] = Inl Assert"
| "ListScheduler_Remove ev (i # is) =
     (if euid i = euid ev then (if impl ev = impl i then Inr is else Inl Assert)
      else bindr (ListScheduler_Remove ev is) (\<lambda>r. Inr (i # r)))"

definition ListScheduler :: "list_queue Scheduler" where
  "ListScheduler = \<lparr>Insert = ListScheduler_Insert, IsEmpty = ListScheduler_IsEmpty,
     PeekNext = ListScheduler_PeekNext, RemoveNext = ListScheduler_RemoveNext,
     Remove = ListScheduler_Remove\<rparr>"

definition list_inv :: "list_queue \<Rightarrow> bool" where
  "list_inv q \<longleftrightarrow> sorted (map erank q)"

lemma mset_insertBefore [simp]: "mset (insertBefore ev q) = add_mset ev (mset q)"
  by (induction q) auto

lemma set_insertBefore [simp]: "set (insertBefore ev q) = insert ev (set q)"
  by (induction q) auto

lemma sorted_insertBefore: "sorted (map erank q) \<Longrightarrow> sorted (map erank (insertBefore ev q))"
  by (induction q) (force simp: key_less_rank not_less)+

lemma ListScheduler_Remove_ok:
  "uids_distinct (mset q) \<Longrightarrow> ev \<in> set q \<Longrightarrow>
   \<exists>q'. ListScheduler_Remove ev q = Inr q' \<and> mset q = add_mset ev (mset q')
      \<and> (list_inv q \<longrightarrow> list_inv q')"
proof (induction q)
  case (Cons i q)
  show ?case
  proof (cases "euid i = euid ev")
    case True
    then have "i = ev" using Cons.prems by (auto dest: sym)
    then show ?thesis by (auto simp: list_inv_def)
  next
    case False
    then have "ev \<in> set q" using Cons.prems by auto
    then obtain r where "ListScheduler_Remove ev q = Inr r" "mset q = add_mset ev (mset r)"
      "list_inv q \<longrightarrow> list_inv r"
      using Cons by auto
    moreover from this(2) have "set r \<subseteq> set q" by (metis set_mset_mset set_mset_add_mset_insert subset_insertI)
    ultimately show ?thesis using False by (auto simp: list_inv_def)
  qed
qed simp

lemmas ListScheduler_ops [simp] = ListScheduler_def ListScheduler_Insert_def ListScheduler_IsEmpty_def

interpretation ls: event_queue_remove ListScheduler list_inv mset "[]"
proof unfold_locales
  fix q ev
  assume "list_inv q"
  then show "\<exists>q'. Insert ListScheduler ev q = Inr q' \<and> list_inv q' \<and> mset q' = add_mset ev (mset q)"
    by (simp add: list_inv_def sorted_insertBefore)
next
  fix q
  assume "list_inv q" "mset q \<noteq> {#}"
  then show "\<exists>e q'. RemoveNext ListScheduler q = Inr (e, q') \<and> PeekNext ListScheduler q = Inr e
      \<and> list_inv q' \<and> mset q = add_mset e (mset q') \<and> (\<forall>x\<in>#mset q. erank e \<le> erank x)"
    by (cases q) (auto simp: list_inv_def)
next
  fix q ev
  assume "list_inv q" "uids_distinct (mset q)" "ev \<in># mset q"
  then show "\<exists>q'. Remove ListScheduler ev q = Inr q' \<and> list_inv q' \<and> mset q = add_mset ev (mset q')"
    using ListScheduler_Remove_ok[of q ev] by auto
qed (simp_all add: list_inv_def)

subsection \<open>MapScheduler\<close>

type_synonym map_queue = "(EventKey \<times> nat option) list"

fun map_insert :: "EventKey \<Rightarrow> nat option \<Rightarrow> map_queue \<Rightarrow> map_queue option" where
  "map_insert k v [] = Some [(k, v)]"
| "map_insert k v ((k', v') # q) =
     (if key_less k k' then Some ((k, v) # (k', v') # q)
      else if key_less k' k then map_option (Cons (k', v')) (map_insert k v q)
      else None)"

fun map_find :: "EventKey \<Rightarrow> map_queue \<Rightarrow> nat option option" where
  "map_find k [] = None"
| "map_find k ((k', v') # q) =
     (if \<not> key_less k k' \<and> \<not> key_less k' k then Some v' else map_find k q)"

fun map_erase :: "EventKey \<Rightarrow> map_queue \<Rightarrow> map_queue" where
  "map_erase k [] = []"
| "map_erase k ((k', v') # q) =
     (if \<not> key_less k k' \<and> \<not> key_less k' k then q else (k', v') # map_erase k q)"

definition MapScheduler_Insert :: "Event \<Rightarrow> map_queue \<Rightarrow> map_queue res" where
  "MapScheduler_Insert ev q =
     (case map_insert (key ev) (impl ev) q of None \<Rightarrow> Inl Assert | Some q' \<Rightarrow> Inr q')"

definition MapScheduler_IsEmpty :: "map_queue \<Rightarrow> bool" where
  "MapScheduler_IsEmpty q \<longleftrightarrow> q = []"

fun MapScheduler_PeekNext :: "map_queue \<Rightarrow> Event res" where
  "MapScheduler_PeekNext [] = Inl Assert"
| "MapScheduler_PeekNext ((k, v) # q) = Inr \<lparr>impl = v, key = k\<rparr>"

fun MapScheduler_RemoveNext :: "map_queue \<Rightarrow> (Event \<times> map_queue) res" where
  "MapScheduler_RemoveNext [] = Inl Assert"
| "MapScheduler_RemoveNext ((k, v) # q) = Inr (\<lparr>impl = v, key = k\<rparr>, q)"

definition MapScheduler_Remove :: "Event \<Rightarrow> map_queue \<Rightarrow> map_queue res" where
  "MapScheduler_Remove ev q =
     (case map_find (key ev) q of
        None \<Rightarrow> Inl NullDeref
      | Some v \<Rightarrow> if v = impl ev then Inr (map_erase (key ev) q) else Inl Assert)"

definition MapScheduler :: "map_queue Scheduler" where
  "MapScheduler = \<lparr>Insert = MapScheduler_Insert, IsEmpty = MapScheduler_IsEmpty,
     PeekNext = MapScheduler_PeekNext, RemoveNext = MapScheduler_RemoveNext,
     Remove = MapScheduler_Remove\<rparr>"

definition map_inv :: "map_queue \<Rightarrow> bool" where
  "map_inv q \<longleftrightarrow> sorted_wrt (<) (map (rank \<circ> fst) q)"

definition entry :: "EventKey \<times> nat option \<Rightarrow> Event" where
  "entry e = \<lparr>impl = snd e, key = fst e\<rparr>"

definition map_evs :: "map_queue \<Rightarrow> Event multiset" where
  "map_evs q = mset (map entry q)"

lemma entry_sel [simp]: "key (entry e) = fst e" "impl (entry e) = snd e"
  by (simp_all add: entry_def)

lemma map_evs_simps [simp]:
  "map_evs [] = {#}" "map_evs (e # q) = add_mset (entry e) (map_evs q)"
  by (simp_all add: map_evs_def)

lemma map_evs_iff: "e \<in># map_evs q \<longleftrightarrow> (key e, impl e) \<in> set q"
proof -
  have "e = entry (key e, impl e)" by (simp add: entry_def)
  then show ?thesis by (force simp: map_evs_def)
qed

lemma map_inv_Cons [simp]:
  "map_inv (e # q) \<longleftrightarrow> (\<forall>x\<in>set q. rank (fst e) < rank (fst x)) \<and> map_inv q"
  by (auto simp: map_inv_def)

lemma map_insert_ok:
  assumes "map_inv q" "\<And>x. x \<in> set q \<Longrightarrow> rank k \<noteq> rank (fst x)"
  shows "\<exists>q'. map_insert k v q = Some q' \<and> map_inv q' \<and> map_evs q' = add_mset (entry (k, v)) (map_evs q)
    \<and> set q' = insert (k, v) (set q)"
  using assms
proof (induction q)
  case Nil
  then show ?case by (simp add: map_inv_def)
next
  case (Cons e q)
  obtain k' v' where e: "e = (k', v')" by force
  have "rank k \<noteq> rank k'" using Cons.prems(2)[of e] e by simp
  then consider "rank k < rank k'" | "rank k' < rank k" by fastforce
  then show ?case
  proof cases
    case 1
    then show ?thesis using Cons.prems e by (auto simp: key_less_rank)
  next
    case 2
    then have "\<not> rank k < rank k'" by simp
    moreover obtain q' where "map_insert k v q = Some q'" "map_inv q'"
      "map_evs q' = add_mset (entry (k, v)) (map_evs q)" "set q' = insert (k, v) (set q)"
      using Cons by auto
    ultimately show ?thesis using 2 Cons.prems e by (auto simp: key_less_rank)
  qed
qed

lemma map_remove_ok:
  assumes "map_inv q" "(k, v) \<in> set q"
  shows "map_find k q = Some v \<and> map_inv (map_erase k q) \<and> set (map_erase k q) \<subseteq> set q
    \<and> map_evs q = add_mset (entry (k, v)) (map_evs (map_erase k q))"
  using assms
proof (induction q)
  case (Cons e q)
  obtain k' v' where e: "e = (k', v')" by force
  show ?case
  proof (cases "rank k = rank k'")
    case True
    then have "(k, v) = e" using Cons.prems e by fastforce
    then show ?thesis using Cons.prems e by (auto simp: key_less_rank)
  next
    case False
    then have "(k, v) \<in> set q" using Cons.prems e by auto
    moreover have "key_less k k' \<or> key_less k' k" using False by (auto simp: key_less_rank)
    ultimately show ?thesis using Cons e by auto
  qed
qed simp

lemmas MapScheduler_ops = MapScheduler_def MapScheduler_Insert_def MapScheduler_IsEmpty_def
  MapScheduler_Remove_def

interpretation ms: event_queue_remove MapScheduler map_inv map_evs "[]"
proof unfold_locales
  fix q ev
  assume inv: "map_inv q" and fresh: "\<And>e. e \<in># map_evs q \<Longrightarrow> erank ev \<noteq> erank e"
  have "rank (key ev) \<noteq> rank (fst x)" if "x \<in> set q" for x
    using fresh[of "entry x"] that by (simp add: map_evs_iff)
  from map_insert_ok[OF inv this, of "impl ev"] obtain q' where
    "map_insert (key ev) (impl ev) q = Some q'" "map_inv q'"
    "map_evs q' = add_mset (entry (key ev, impl ev)) (map_evs q)" by blast
  moreover have "entry (key ev, impl ev) = ev" by (simp add: entry_def)
  ultimately show "\<exists>q'. Insert MapScheduler ev q = Inr q' \<and> map_inv q' \<and> map_evs q' = add_mset ev (map_evs q)"
    by (simp add: MapScheduler_ops)
next
  fix q
  assume "map_inv q" "map_evs q \<noteq> {#}"
  then show "\<exists>e q'. RemoveNext MapScheduler q = Inr (e, q') \<and> PeekNext MapScheduler q = Inr e
      \<and> map_inv q' \<and> map_evs q = add_mset e (map_evs q') \<and> (\<forall>x\<in>#map_evs q. erank e \<le> erank x)"
    using less_imp_le
    by (cases q) (fastforce simp: MapScheduler_ops map_evs_iff entry_def)+
next
  fix q ev
  assume "map_inv q" "uids_distinct (map_evs q)" "ev \<in># map_evs q"
  moreover have "entry (key ev, impl ev) = ev" by (simp add: entry_def)
  ultimately show "\<exists>q'. Remove MapScheduler ev q = Inr q' \<and> map_inv q' \<and> map_evs q = add_mset ev (map_evs q')"
    using map_remove_ok[of q "key ev" "impl ev"] by (auto simp: MapScheduler_ops map_evs_iff)
qed (auto simp: map_inv_def MapScheduler_ops map_evs_def)

interpretation lm: scheduler_switch ListScheduler list_inv mset "[]" MapScheduler map_inv map_evs "[]"
  by unfold_locales

end
