(* ===== verification/Heap_Scheduler.thy ===== *)
theory Heap_Scheduler
  imports Ordered_Schedulers
begin

text \<open>
  The binary-heap scheduler (core/model/heap-scheduler.cc): an array whose element 0 is unused, the
  root at index 1.  The sift loops are the loops of the source; \<open>topDownLoop\<close> is given one
  iteration per array element, which \<open>topDown_fixes\<close> shows to be enough from any index but 0.

  \<open>hs\<close> interprets the contract \<open>event_queue\<close>.  The full contract is out of reach:
  \<^verbatim>\<open>Remove\<close> moves the last element into the gap and only sifts it down, so that an element can
  end up above a larger parent (\<open>heap_Remove_breaks_order\<close>).
\<close>

subsection \<open>The heap\<close>

type_synonym heap_queue = "Event list"

definition HeapScheduler_init :: heap_queue where
  "HeapScheduler_init = [\<lparr>impl = None, key = \<lparr>m_ts = 0, m_uid = 0, m_context = 0\<rparr>\<rparr>]"

definition Parent :: "nat \<Rightarrow> nat" where "Parent i = i div 2"
definition LeftChild :: "nat \<Rightarrow> nat" where "LeftChild i = i * 2"
definition RightChild :: "nat \<Rightarrow> nat" where "RightChild i = i * 2 + 1"
definition Root :: nat where "Root = 1"
definition IsRoot :: "nat \<Rightarrow> bool" where "IsRoot i \<longleftrightarrow> i = Root"
definition Last :: "heap_queue \<Rightarrow> nat" where "Last h = length h - 1"
definition IsBottom :: "nat \<Rightarrow> heap_queue \<Rightarrow> bool" where "IsBottom i h \<longleftrightarrow> i \<ge> length h"

definition Exch :: "nat \<Rightarrow> nat \<Rightarrow> heap_queue \<Rightarrow> heap_queue res" where
  "Exch a b h =
     (if b < length h \<and> a < length h then Inr (h[a := h ! b, b := h ! a]) else Inl Assert)"

definition IsLessStrictly :: "nat \<Rightarrow> nat \<Rightarrow> heap_queue \<Rightarrow> bool" where
  "IsLessStrictly a b h \<longleftrightarrow> event_less (h ! a) (h ! b)"

definition Smallest :: "nat \<Rightarrow> nat \<Rightarrow> heap_queue \<Rightarrow> nat" where
  "Smallest a b h = (if IsLessStrictly a b h then a else b)"

definition HeapScheduler_IsEmpty :: "heap_queue \<Rightarrow> bool" where
  "HeapScheduler_IsEmpty h \<longleftrightarrow> length h = 1"

function bottomUpLoop :: "nat \<Rightarrow> heap_queue \<Rightarrow> heap_queue res" where
  "bottomUpLoop index h =
     (if \<not> IsRoot index \<and> IsLessStrictly index (Parent index) h then
        (case Exch index (Parent index) h of
           Inl e \<Rightarrow> Inl e
         | Inr h' \<Rightarrow> bottomUpLoop (Parent index) h')
      else Inr h)"
  by pat_completeness auto

termination
proof (relation "measure fst")
  fix index h h'
  assume "\<not> IsRoot index \<and> IsLessStrictly index (Parent index) h"
  then have "index \<noteq> 0" by (intro notI) (simp add: IsLessStrictly_def Parent_def event_less_rank)
  then show "((Parent index, h'), (index, h)) \<in> measure fst" by (simp add: Parent_def)
qed simp

definition BottomUp :: "heap_queue \<Rightarrow> heap_queue res" where
  "BottomUp h = bottomUpLoop (Last h) h"

fun topDownLoop :: "nat \<Rightarrow> nat \<Rightarrow> heap_queue \<Rightarrow> heap_queue res" where
  "topDownLoop 0 index h = Inl Diverge"
| "topDownLoop (Suc n) index h =
     (if \<not> IsBottom (RightChild index) h then
        (let tmp = Smallest (LeftChild index) (RightChild index) h in
         if IsLessStrictly index tmp h then Inr h
         else case Exch index tmp h of
                Inl e \<Rightarrow> Inl e
              | Inr h' \<Rightarrow> topDownLoop n tmp h')
      else if IsBottom index h then Inr h
      else if IsBottom (LeftChild index) h then Inr h
      else if IsLessStrictly index (LeftChild index) h then Inr h
      else Exch index (LeftChild index) h)"

definition TopDown :: "nat \<Rightarrow> heap_queue \<Rightarrow> heap_queue res" where
  "TopDown start h = topDownLoop (length h + 1) start h"

definition HeapScheduler_Insert :: "Event \<Rightarrow> heap_queue \<Rightarrow> heap_queue res" where
  "HeapScheduler_Insert ev h = BottomUp (h @ [ev])"

definition HeapScheduler_PeekNext :: "heap_queue \<Rightarrow> Event res" where
  "HeapScheduler_PeekNext h = (if Root < length h then Inr (h ! Root) else Inl OutOfBounds)"

definition HeapScheduler_RemoveNext :: "heap_queue \<Rightarrow> (Event \<times> heap_queue) res" where
  "HeapScheduler_RemoveNext h =
     (if \<not> Root < length h then Inl OutOfBounds else
      (let next = h ! Root in
       bindr (Exch Root (Last h) h) (\<lambda>h.
       bindr (TopDown Root (butlast h)) (\<lambda>h. Inr (next, h)))))"

fun findUid :: "u32 \<Rightarrow> nat \<Rightarrow> Event list \<Rightarrow> nat option" where
  "findUid uid i [] = None"
| "findUid uid i (e # es) = (if uid = euid e then Some i else findUid uid (Suc i) es)"

definition HeapScheduler_Remove :: "Event \<Rightarrow> heap_queue \<Rightarrow> heap_queue res" where
  "HeapScheduler_Remove ev h =
     (case findUid (euid ev) 1 (tl h) of
        None \<Rightarrow> Inl Assert
      | Some i \<Rightarrow>
          if impl (h ! i) \<noteq> impl ev then Inl Assert else
          bindr (Exch i (Last h) h) (\<lambda>h. TopDown i (butlast h)))"

definition HeapScheduler :: "heap_queue Scheduler" where
  "HeapScheduler = \<lparr>Insert = HeapScheduler_Insert, IsEmpty = HeapScheduler_IsEmpty,
     PeekNext = HeapScheduler_PeekNext, RemoveNext = HeapScheduler_RemoveNext,
     Remove = HeapScheduler_Remove\<rparr>"

subsection \<open>The heap order\<close>

definition edge :: "heap_queue \<Rightarrow> nat \<Rightarrow> bool" where
  "edge h i \<longleftrightarrow> erank (h ! (i div 2)) \<le> erank (h ! i)"

definition heap_inv :: "heap_queue \<Rightarrow> bool" where
  "heap_inv h \<longleftrightarrow> h \<noteq> [] \<and> (\<forall>i. 2 \<le> i \<and> i < length h \<longrightarrow> edge h i)"

definition heap_evs :: "heap_queue \<Rightarrow> Event multiset" where
  "heap_evs h = mset (tl h)"

text \<open>The children of a node are not smaller than its parent.\<close>

definition skip :: "heap_queue \<Rightarrow> nat \<Rightarrow> bool" where
  "skip h k \<longleftrightarrow> (\<forall>c. c < length h \<and> c div 2 = k \<and> 2 \<le> k \<longrightarrow> erank (h ! (k div 2)) \<le> erank (h ! c))"

definition hole_up :: "heap_queue \<Rightarrow> nat \<Rightarrow> bool" where
  "hole_up h k \<longleftrightarrow> skip h k \<and> (\<forall>i. 2 \<le> i \<and> i < length h \<and> i \<noteq> k \<longrightarrow> edge h i)"

definition hole_down :: "heap_queue \<Rightarrow> nat \<Rightarrow> bool" where
  "hole_down h k \<longleftrightarrow> skip h k \<and> (\<forall>i. 2 \<le> i \<and> i < length h \<and> i div 2 \<noteq> k \<longrightarrow> edge h i)"

abbreviation swapped :: "nat \<Rightarrow> nat \<Rightarrow> heap_queue \<Rightarrow> heap_queue" where
  "swapped a b h \<equiv> h[a := h ! b, b := h ! a]"

lemma swapped_nth:
  "a < length h \<Longrightarrow> b < length h \<Longrightarrow>
   swapped a b h ! i = (if i = a then h ! b else if i = b then h ! a else h ! i)"
  by (auto simp: nth_list_update)

lemma heap_evs_add: "h \<noteq> [] \<Longrightarrow> mset h = add_mset (h ! 0) (heap_evs h)"
  by (cases h) (simp_all add: heap_evs_def)

lemma heap_evs_swapped:
  assumes "0 < a" "0 < b" "a < length h" "b < length h"
  shows "heap_evs (swapped a b h) = heap_evs h"
proof -
  have "mset (swapped a b h) = mset h" using assms by (simp add: mset_swap)
  moreover have "swapped a b h ! 0 = h ! 0" using assms by (simp add: swapped_nth)
  moreover have "h \<noteq> []" using assms by auto
  ultimately show ?thesis
    using heap_evs_add[of h] heap_evs_add[of "swapped a b h"] by simp
qed

lemma div2_facts: "(2 :: nat) \<le> k \<Longrightarrow> 1 \<le> k div 2 \<and> k div 2 < k"
  by auto

lemma hole_up_step:
  assumes "hole_up h k" "2 \<le> k" "k < length h" "erank (h ! k) < erank (h ! (k div 2))"
  shows "hole_up (swapped k (k div 2) h) (k div 2)"
proof -
  define p where "p = k div 2"
  define g where "g = swapped k p h"
  have pk: "1 \<le> p" "p < k" using assms(2) by (auto simp: p_def)
  have g: "g ! i = (if i = k then h ! p else if i = p then h ! k else h ! i)" for i
    unfolding g_def using assms(3) pk by (intro swapped_nth) auto
  have len: "length g = length h" by (simp add: g_def)
  have lt: "erank (h ! k) < erank (h ! p)" using assms(4) by (simp add: p_def)
  have ok: "erank (h ! (i div 2)) \<le> erank (h ! i)" if "2 \<le> i" "i < length h" "i \<noteq> k" for i
    using assms(1) that by (simp add: hole_up_def edge_def)
  have down: "erank (h ! p) \<le> erank (h ! c)" if "c < length h" "c div 2 = k" for c
    using assms(1,2) that by (simp add: hole_up_def skip_def p_def)
  have "edge g i" if i: "2 \<le> i" "i < length h" "i \<noteq> p" for i
  proof -
    have "i div 2 < i" using i by simp
    consider "i = k" | "i div 2 = k" | "i \<noteq> k" "i div 2 = p" | "i \<noteq> k" "i div 2 \<noteq> k" "i div 2 \<noteq> p"
      by blast
    then show ?thesis
    proof cases
      case 1
      then show ?thesis using lt pk by (auto simp: edge_def g p_def)
    next
      case 2
      then show ?thesis using down[of i] i \<open>i div 2 < i\<close> pk by (auto simp: edge_def g)
    next
      case 3
      then show ?thesis using ok[of i] i lt pk by (auto simp: edge_def g)
    next
      case 4
      then show ?thesis using ok[of i] i by (auto simp: edge_def g)
    qed
  qed
  moreover have "skip g p"
    unfolding skip_def len
  proof (intro allI impI)
    fix c assume c: "c < length h \<and> c div 2 = p \<and> 2 \<le> p"
    then have "erank (h ! (p div 2)) \<le> erank (h ! p)" using ok[of p] pk assms(3) by auto
    moreover have "c \<noteq> k \<Longrightarrow> erank (h ! p) \<le> erank (h ! c)" using ok[of c] c by auto
    moreover have "p div 2 < p" "p div 2 \<noteq> k" "c \<noteq> p" using c pk by auto
    ultimately show "erank (g ! (p div 2)) \<le> erank (g ! c)" by (auto simp: g)
  qed
  ultimately show ?thesis by (auto simp: hole_up_def len g_def p_def)
qed

lemma bottomUp_fixes:
  assumes "hole_up h k" "1 \<le> k" "k < length h"
  shows "\<exists>h'. bottomUpLoop k h = Inr h' \<and> heap_inv h' \<and> heap_evs h' = heap_evs h"
  using assms
proof (induction k h rule: bottomUpLoop.induct)
  case (1 k h)
  show ?case
  proof (cases "\<not> IsRoot k \<and> IsLessStrictly k (Parent k) h")
    case True
    then have k: "2 \<le> k" and lt: "erank (h ! k) < erank (h ! (k div 2))"
      using 1(3) by (auto simp: IsRoot_def Root_def IsLessStrictly_def Parent_def event_less_rank)
    then have p: "1 \<le> k div 2" "k div 2 < length h" using 1(4) by auto
    let ?h = "swapped k (k div 2) h"
    have ex: "Exch k (Parent k) h = Inr ?h" using 1(4) p by (simp add: Exch_def Parent_def)
    have "\<exists>h'. bottomUpLoop (Parent k) ?h = Inr h' \<and> heap_inv h' \<and> heap_evs h' = heap_evs ?h"
      using True ex hole_up_step[OF 1(2) k 1(4) lt] p by (intro 1(1)) (auto simp: Parent_def)
    moreover have "heap_evs ?h = heap_evs h" using k p 1(4) by (intro heap_evs_swapped) auto
    ultimately show ?thesis using True ex by (simp add: bottomUpLoop.simps[of k h])
  next
    case False
    have "edge h k" if "2 \<le> k"
      using False that by (auto simp: IsRoot_def Root_def IsLessStrictly_def Parent_def event_less_rank edge_def)
    then have "heap_inv h" using 1(2,4) by (auto simp: heap_inv_def hole_up_def)
    moreover have "bottomUpLoop k h = Inr h" using False by (subst bottomUpLoop.simps) auto
    ultimately show ?thesis by simp
  qed
qed

declare bottomUpLoop.simps [simp del]

lemma heap_Insert_ok:
  assumes "heap_inv h"
  shows "\<exists>h'. HeapScheduler_Insert ev h = Inr h' \<and> heap_inv h' \<and> heap_evs h' = add_mset ev (heap_evs h)"
proof -
  have h: "1 \<le> length h" "h \<noteq> []" using assms by (auto simp: heap_inv_def Suc_le_eq)
  have "edge (h @ [ev]) i" if "2 \<le> i" "i < length h" for i
    using assms that by (auto simp: heap_inv_def edge_def nth_append)
  then have "hole_up (h @ [ev]) (length h)"
    by (auto simp: hole_up_def skip_def less_Suc_eq)
  from bottomUp_fixes[OF this] obtain h' where
    "bottomUpLoop (length h) (h @ [ev]) = Inr h'" "heap_inv h'" "heap_evs h' = heap_evs (h @ [ev])"
    using h by auto
  moreover have "heap_evs (h @ [ev]) = add_mset ev (heap_evs h)"
    using h(2) by (cases h) (simp_all add: heap_evs_def)
  ultimately show ?thesis by (simp add: HeapScheduler_Insert_def BottomUp_def Last_def)
qed

lemma root_smallest:
  assumes "heap_inv h"
  shows "1 \<le> i \<Longrightarrow> i < length h \<Longrightarrow> erank (h ! 1) \<le> erank (h ! i)"
proof (induction i rule: less_induct)
  case (less i)
  show ?case
  proof (cases "i = 1")
    case False
    then have "erank (h ! 1) \<le> erank (h ! (i div 2))" using less by (intro less.IH) auto
    also have "\<dots> \<le> erank (h ! i)" using assms less.prems False by (auto simp: heap_inv_def edge_def)
    finally show ?thesis .
  qed simp
qed

subsection \<open>Sifting down\<close>

lemma child_iff: "c div 2 = k \<longleftrightarrow> c = 2 * k \<or> c = Suc (2 * k)" for c k :: nat
  by auto

lemma hole_down_done:
  assumes "hole_down h k" "h \<noteq> []"
    and "\<And>c. c < length h \<Longrightarrow> c div 2 = k \<Longrightarrow> erank (h ! k) \<le> erank (h ! c)"
  shows "heap_inv h"
  using assms by (auto simp: heap_inv_def hole_down_def edge_def)

lemma hole_down_step:
  assumes hd: "hole_down h k" and k: "1 \<le> k" and t: "t < length h" "t div 2 = k"
    and le: "erank (h ! t) \<le> erank (h ! k)"
    and least: "\<And>c. c < length h \<Longrightarrow> c div 2 = k \<Longrightarrow> erank (h ! t) \<le> erank (h ! c)"
  shows "hole_down (swapped k t h) t"
proof -
  define g where "g = swapped k t h"
  have kt: "k < t" using k t(2) by auto
  have g: "g ! i = (if i = k then h ! t else if i = t then h ! k else h ! i)" for i
    unfolding g_def using t(1) kt by (intro swapped_nth) auto
  have len: "length g = length h" by (simp add: g_def)
  have ok: "erank (h ! (i div 2)) \<le> erank (h ! i)" if "2 \<le> i" "i < length h" "i div 2 \<noteq> k" for i
    using hd that by (simp add: hole_down_def edge_def)
  have up: "erank (h ! (k div 2)) \<le> erank (h ! t)" if "2 \<le> k"
    using hd that t by (simp add: hole_down_def skip_def)
  have "edge g i" if i: "2 \<le> i" "i < length h" "i div 2 \<noteq> t" for i
  proof -
    have lt: "i div 2 < i" using i by simp
    consider "i = k" | "i = t" | "i \<noteq> k" "i \<noteq> t" "i div 2 = k" | "i \<noteq> k" "i \<noteq> t" "i div 2 \<noteq> k"
      by blast
    then show ?thesis
    proof cases
      case 1
      then show ?thesis using up i lt kt by (auto simp: edge_def g)
    next
      case 2
      then show ?thesis using le t kt by (auto simp: edge_def g)
    next
      case 3
      then show ?thesis using least[of i] i lt by (auto simp: edge_def g)
    next
      case 4
      then show ?thesis using ok[of i] i by (auto simp: edge_def g)
    qed
  qed
  moreover have "skip g t"
    unfolding skip_def len
  proof (intro allI impI)
    fix c assume c: "c < length h \<and> c div 2 = t \<and> 2 \<le> t"
    then have "t < c" by auto
    moreover have "erank (h ! t) \<le> erank (h ! c)" using ok[of c] c kt \<open>t < c\<close> by auto
    ultimately show "erank (g ! (t div 2)) \<le> erank (g ! c)" using t(2) kt by (auto simp: g)
  qed
  ultimately show ?thesis by (auto simp: hole_down_def len g_def)
qed

lemma topDown_fixes:
  assumes "hole_down h k" "1 \<le> k" "h \<noteq> []" "length h < n + k" "0 < n"
  shows "\<exists>h'. topDownLoop n k h = Inr h' \<and> heap_inv h' \<and> heap_evs h' = heap_evs h"
  using assms
proof (induction n arbitrary: h k)
  case (Suc n)
  have idx: "LeftChild k = 2 * k" "RightChild k = Suc (2 * k)" by (simp_all add: LeftChild_def RightChild_def)
  note defs = idx IsBottom_def IsLessStrictly_def Smallest_def event_less_rank Exch_def
  show ?case
  proof (cases "Suc (2 * k) < length h")
    case True
    define t where "t = Smallest (2 * k) (Suc (2 * k)) h"
    have t: "t < length h" "t div 2 = k" "k < t" using True Suc.prems(2) by (auto simp: t_def Smallest_def)
    have least: "erank (h ! t) \<le> erank (h ! c)" if "c div 2 = k" for c
      using that unfolding child_iff t_def by (auto simp: defs)
    show ?thesis
    proof (cases "IsLessStrictly k t h")
      case less: True
      have "heap_inv h"
        using hole_down_done[OF Suc.prems(1,3)] least less by (fastforce simp: defs)
      then show ?thesis using True less by (auto simp: idx IsBottom_def t_def Let_def)
    next
      case False
      then have "erank (h ! t) \<le> erank (h ! k)" by (simp add: defs)
      from hole_down_step[OF Suc.prems(1,2) t(1,2) this least]
      have "hole_down (swapped k t h) t" by simp
      from Suc.IH[OF this] t Suc.prems obtain h' where
        "topDownLoop n t (swapped k t h) = Inr h'" "heap_inv h'" "heap_evs h' = heap_evs (swapped k t h)"
        by auto
      moreover have "heap_evs (swapped k t h) = heap_evs h" using t Suc.prems(2) by (intro heap_evs_swapped) auto
      moreover have "Exch k t h = Inr (swapped k t h)" using t by (simp add: Exch_def)
      ultimately show ?thesis using True False by (auto simp: idx IsBottom_def t_def Let_def)
    qed
  next
    case noright: False
    show ?thesis
    proof (cases "2 * k < length h")
      case True
      then have len: "length h = Suc (2 * k)" using noright by simp
      show ?thesis
      proof (cases "IsLessStrictly k (2 * k) h")
        case less: True
        have c: "c = 2 * k" if "c < length h" "c div 2 = k" for c using that len by auto
        have le: "erank (h ! k) \<le> erank (h ! (2 * k))" using less by (simp add: defs)
        have "erank (h ! k) \<le> erank (h ! c)" if "c < length h" "c div 2 = k" for c
          using c[OF that] le by simp
        with Suc.prems(1,3) have "heap_inv h" by (rule hole_down_done)
        then show ?thesis using noright less by (auto simp: idx IsBottom_def)
      next
        case False
        then have le: "erank (h ! (2 * k)) \<le> erank (h ! k)" by (simp add: defs)
        have c: "c = 2 * k" if "c < length h" "c div 2 = k" for c using that len by auto
        have "erank (h ! (2 * k)) \<le> erank (h ! c)" if "c < length h" "c div 2 = k" for c
          using c[OF that] by simp
        with Suc.prems(1,2) True _ le have "hole_down (swapped k (2 * k) h) (2 * k)"
          by (rule hole_down_step) simp
        then have "heap_inv (swapped k (2 * k) h)"
          using Suc.prems(2,3) len by (intro hole_down_done) auto
        moreover have "heap_evs (swapped k (2 * k) h) = heap_evs h"
          using True Suc.prems(2) by (intro heap_evs_swapped) auto
        ultimately show ?thesis using noright True False by (auto simp: idx IsBottom_def Exch_def)
      qed
    next
      case False
      have "heap_inv h"
        using hole_down_done[OF Suc.prems(1,3)] False by auto
      then show ?thesis using False noright by (auto simp: idx IsBottom_def)
    qed
  qed
qed simp

lemma mset_last: "xs \<noteq> [] \<Longrightarrow> mset xs = add_mset (last xs) (mset (butlast xs))"
  by (induction xs) auto

lemma heap_RemoveNext_ok:
  assumes inv: "heap_inv h" and ne: "heap_evs h \<noteq> {#}"
  shows "\<exists>h'. HeapScheduler_RemoveNext h = Inr (h ! 1, h') \<and> heap_inv h'
    \<and> heap_evs h = add_mset (h ! 1) (heap_evs h')"
proof -
  define l where "l = length h - 1"
  have l: "1 \<le> l" "length h = Suc l"
    using ne inv by (cases h; auto simp: l_def heap_evs_def heap_inv_def Suc_le_eq)+
  define g where "g = butlast (swapped 1 l h)"
  have g: "g ! i = (if i = 1 then h ! l else h ! i)" if "i < l" for i
    using that l by (simp add: g_def nth_butlast swapped_nth nth_list_update)
  have len: "length g = l" using l by (simp add: g_def)
  have ne': "swapped 1 l h \<noteq> []" using l by auto
  have "last (swapped 1 l h) = h ! 1" unfolding last_conv_nth[OF ne'] using l by (simp add: swapped_nth)
  then have "mset (swapped 1 l h) = add_mset (h ! 1) (mset g)"
    using mset_last[OF ne'] by (simp add: g_def)
  then have m: "mset h = add_mset (h ! 1) (mset g)" using l by (simp add: mset_swap)
  have "g \<noteq> []" "g ! 0 = h ! 0" using l len g[of 0] by auto
  then have evs: "heap_evs h = add_mset (h ! 1) (heap_evs g)"
    using m heap_evs_add[of h] heap_evs_add[of g] l by (cases h) auto
  have "edge g i" if "2 \<le> i" "i < l" "i div 2 \<noteq> 1" for i
  proof -
    have "i div 2 < l" "i \<noteq> 1" using that by auto
    then show ?thesis using that inv l by (simp add: edge_def g heap_inv_def)
  qed
  then have "hole_down g 1" by (auto simp: hole_down_def skip_def len)
  from topDown_fixes[OF this, of "length g + 1"] \<open>g \<noteq> []\<close> obtain h' where
    "topDownLoop (length g + 1) 1 g = Inr h'" "heap_inv h'" "heap_evs h' = heap_evs g"
    by auto
  moreover have "Exch Root (Last h) h = Inr (swapped 1 l h)"
    using l by (simp add: Exch_def Root_def Last_def)
  moreover have "butlast (swapped (Suc 0) l h) = g" by (simp add: g_def)
  ultimately show ?thesis
    using l evs len by (simp add: HeapScheduler_RemoveNext_def TopDown_def Root_def del: topDownLoop.simps)
qed

lemma heap_evs_nth: "e \<in># heap_evs h \<longleftrightarrow> (\<exists>i. 1 \<le> i \<and> i < length h \<and> h ! i = e)"
proof (cases h)
  case (Cons d t)
  have "e \<in> set t \<longleftrightarrow> (\<exists>j. j < length t \<and> t ! j = e)" by (auto simp: in_set_conv_nth)
  also have "\<dots> \<longleftrightarrow> (\<exists>i. 1 \<le> i \<and> i < length h \<and> h ! i = e)"
    unfolding Cons by (metis One_nat_def Suc_le_D Suc_less_eq Suc_le_mono le0 length_Cons nth_Cons_Suc)
  finally show ?thesis by (simp add: heap_evs_def Cons)
qed (simp add: heap_evs_def)

lemmas HeapScheduler_ops = HeapScheduler_def HeapScheduler_IsEmpty_def HeapScheduler_PeekNext_def

interpretation hs: event_queue HeapScheduler heap_inv heap_evs HeapScheduler_init
proof unfold_locales
  show "heap_inv HeapScheduler_init" "heap_evs HeapScheduler_init = {#}"
    by (simp_all add: HeapScheduler_init_def heap_inv_def heap_evs_def)
next
  fix q ev assume "heap_inv q"
  then show "\<exists>q'. Insert HeapScheduler ev q = Inr q' \<and> heap_inv q' \<and> heap_evs q' = add_mset ev (heap_evs q)"
    using heap_Insert_ok by (simp add: HeapScheduler_ops)
next
  fix q assume "heap_inv q"
  then show "IsEmpty HeapScheduler q \<longleftrightarrow> heap_evs q = {#}"
    by (cases q) (auto simp: HeapScheduler_ops heap_inv_def heap_evs_def)
next
  fix q assume inv: "heap_inv q" and ne: "heap_evs q \<noteq> {#}"
  have len: "1 < length q" using ne by (cases q) (auto simp: heap_evs_def)
  obtain h' where "HeapScheduler_RemoveNext q = Inr (q ! 1, h')" "heap_inv h'"
    "heap_evs q = add_mset (q ! 1) (heap_evs h')"
    using heap_RemoveNext_ok[OF inv ne] by blast
  moreover have "\<forall>x\<in>#heap_evs q. erank (q ! 1) \<le> erank x"
    using root_smallest[OF inv] by (auto simp: heap_evs_nth)
  ultimately show "\<exists>e q'. RemoveNext HeapScheduler q = Inr (e, q') \<and> PeekNext HeapScheduler q = Inr e
      \<and> heap_inv q' \<and> heap_evs q = add_mset e (heap_evs q') \<and> (\<forall>x\<in>#heap_evs q. erank e \<le> erank x)"
    using len by (simp add: HeapScheduler_ops Root_def)
qed

interpretation lh: scheduler_switch ListScheduler list_inv mset "[]"
    HeapScheduler heap_inv heap_evs HeapScheduler_init
  by unfold_locales

interpretation hm: scheduler_switch HeapScheduler heap_inv heap_evs HeapScheduler_init
    MapScheduler map_inv map_evs "[]"
  by unfold_locales

subsection \<open>Properties\<close>

definition exampleEvent :: "nat \<Rightarrow> Event" where
  "exampleEvent n = \<lparr>impl = Some n, key = \<lparr>m_ts = of_nat n, m_uid = of_nat n, m_context = 0\<rparr>\<rparr>"

text \<open>
  Without any condition on the times: events with distinct keys inserted into the list, the heap and
  the map scheduler in the same order come out of all three as one and the same list, in
  ascending order of time stamp and unique id; as many iterations as there are events suffice.
\<close>

lemma schedulers_same_order:
  assumes "ranks_distinct (mset es)" "length es < n"
  shows "\<exists>l h m out. insertAll ListScheduler es [] = Inr l \<and> insertAll HeapScheduler es HeapScheduler_init = Inr h
    \<and> insertAll MapScheduler es [] = Inr m
    \<and> drain ListScheduler n l = Some (Inr out) \<and> drain HeapScheduler n h = Some (Inr out)
    \<and> drain MapScheduler n m = Some (Inr out)
    \<and> mset out = mset es \<and> sorted (map erank out)"
proof -
  obtain l h out where "insertAll ListScheduler es [] = Inr l" "insertAll HeapScheduler es HeapScheduler_init = Inr h"
    "drain ListScheduler n l = Some (Inr out)" "drain HeapScheduler n h = Some (Inr out)"
    "mset out = mset es" "sorted (map erank out)"
    using lh.same_order[OF assms] by blast
  moreover obtain h' m out' where "insertAll HeapScheduler es HeapScheduler_init = Inr h'"
    "insertAll MapScheduler es [] = Inr m"
    "drain HeapScheduler n h' = Some (Inr out')" "drain MapScheduler n m = Some (Inr out')"
    using hm.same_order[OF assms] by blast
  ultimately show ?thesis by auto
qed

text \<open>
  Changing the scheduler in the middle of a simulation loses no event: moving all events of a
  list scheduler into a new heap scheduler ends after at most one iteration more than there are
  events, never fails, and leaves exactly the same events pending.
\<close>

lemma moveEvents_keeps_all:
  assumes "list_inv q" "ranks_distinct (mset q)" "length q < n"
  shows "\<exists>h. moveEvents ListScheduler HeapScheduler n q HeapScheduler_init = Some (Inr h)
    \<and> heap_inv h \<and> heap_evs h = mset q"
  using lh.moveEvents_ok[OF assms(1) hs.start(1), of n] assms hs.start(2) by simp

text \<open>
  C30.  Removing an event from the heap scheduler can break the order of execution: seven events are
  inserted, the one with time stamp 6 is removed, and the remaining events come out with time
  stamp 4 before time stamp 3.  \<^verbatim>\<open>Remove\<close> puts the last element into the gap and calls only
  \<^verbatim>\<open>TopDown\<close>, although the moved element may be smaller than the parent of the gap.
\<close>

theorem heap_Remove_breaks_order:
  "\<exists>h h'. insertAll HeapScheduler (map exampleEvent [1, 6, 7, 4, 5, 2, 3]) HeapScheduler_init = Inr h
     \<and> HeapScheduler_Remove (exampleEvent 6) h = Inr h'
     \<and> drain HeapScheduler 7 h' = Some (Inr (map exampleEvent [1, 2, 4, 3, 5, 7]))"
proof -
  let ?h = "HeapScheduler_init @ map exampleEvent [1, 4, 2, 6, 5, 7, 3]"
  have "insertAll HeapScheduler (map exampleEvent [1, 6, 7, 4, 5, 2, 3]) HeapScheduler_init = Inr ?h"
    by code_simp
  moreover have "HeapScheduler_Remove (exampleEvent 6) ?h =
      Inr (HeapScheduler_init @ map exampleEvent [1, 4, 2, 3, 5, 7])"
    by code_simp
  moreover have "drain HeapScheduler 7 (HeapScheduler_init @ map exampleEvent [1, 4, 2, 3, 5, 7]) =
      Some (Inr (map exampleEvent [1, 2, 4, 3, 5, 7]))"
    by code_simp
  ultimately show ?thesis by blast
qed

end
