(* ===== verification/Priority_Scheduler.thy ===== *)
theory Priority_Scheduler
  imports Scheduler_Programs
begin

text \<open>
  \<^verbatim>\<open>PriorityQueueScheduler\<close> (core/model/priority-queue-scheduler.cc), a layer over
  \<^verbatim>\<open>std::priority_queue\<close> with the comparison \<^verbatim>\<open>std::greater\<close>.  The underlying vector is a
  list; \<^verbatim>\<open>top\<close> is an element that is greater than no other one, and how the library arranges the
  vector is left open beyond that.  Unlike the heap scheduler it rebuilds the heap on
  \<^verbatim>\<open>Remove\<close>, so that it interprets the full contract.
\<close>

type_synonym pq = "Event list"

fun pq_top :: "pq \<Rightarrow> Event res" where
  "pq_top [] = Inl OutOfBounds"
| "pq_top [e] = Inr e"
| "pq_top (e # es) = bindr (pq_top es) (\<lambda>m. Inr (if event_greater e m then m else e))"

definition pq_pop :: "pq \<Rightarrow> pq res" where
  "pq_pop c = bindr (pq_top c) (\<lambda>e. Inr (remove1 e c))"

definition PriorityQueueScheduler_Insert :: "Event \<Rightarrow> pq \<Rightarrow> pq res" where
  "PriorityQueueScheduler_Insert ev c = Inr (c @ [ev])"

definition PriorityQueueScheduler_IsEmpty :: "pq \<Rightarrow> bool" where
  "PriorityQueueScheduler_IsEmpty c \<longleftrightarrow> c = []"

definition PriorityQueueScheduler_PeekNext :: "pq \<Rightarrow> Event res" where
  "PriorityQueueScheduler_PeekNext c = pq_top c"

definition PriorityQueueScheduler_RemoveNext :: "pq \<Rightarrow> (Event \<times> pq) res" where
  "PriorityQueueScheduler_RemoveNext c = bindr (pq_top c) (\<lambda>ev. bindr (pq_pop c) (\<lambda>c. Inr (ev, c)))"

text \<open>
  \<^verbatim>\<open>EventPriorityQueue::remove\<close>: \<^verbatim>\<open>std::find\<close> compares events by their unique id; the result
  tells whether there was one.
\<close>

fun EventPriorityQueue_remove :: "Event \<Rightarrow> pq \<Rightarrow> bool \<times> pq" where
  "EventPriorityQueue_remove ev [] = (False, [])"
| "EventPriorityQueue_remove ev (i # is) =
     (if event_eq i ev then (True, is)
      else (let (b, is) = EventPriorityQueue_remove ev is in (b, i # is)))"

definition PriorityQueueScheduler_Remove :: "Event \<Rightarrow> pq \<Rightarrow> pq res" where
  "PriorityQueueScheduler_Remove ev c = Inr (snd (EventPriorityQueue_remove ev c))"

definition PriorityQueueScheduler :: "pq Scheduler" where
  "PriorityQueueScheduler = \<lparr>Insert = PriorityQueueScheduler_Insert, IsEmpty = PriorityQueueScheduler_IsEmpty,
     PeekNext = PriorityQueueScheduler_PeekNext, RemoveNext = PriorityQueueScheduler_RemoveNext,
     Remove = PriorityQueueScheduler_Remove\<rparr>"

lemmas PriorityQueueScheduler_ops = PriorityQueueScheduler_def PriorityQueueScheduler_Insert_def
  PriorityQueueScheduler_IsEmpty_def PriorityQueueScheduler_PeekNext_def
  PriorityQueueScheduler_RemoveNext_def PriorityQueueScheduler_Remove_def

lemma pq_top_least:
  "c \<noteq> [] \<Longrightarrow> \<exists>e\<in>set c. pq_top c = Inr e \<and> (\<forall>x\<in>set c. erank e \<le> erank x)"
proof (induction c rule: pq_top.induct)
  case (3 e e' es)
  then obtain m where m: "m \<in> set (e' # es)" "pq_top (e' # es) = Inr m" "\<forall>x\<in>set (e' # es). erank m \<le> erank x"
    by auto
  then show ?case
    by (auto simp: event_greater_def key_greater_rank not_less)
qed auto

lemma EventPriorityQueue_remove_ok:
  "uids_distinct (mset c) \<Longrightarrow> ev \<in> set c \<Longrightarrow>
   fst (EventPriorityQueue_remove ev c) \<and> mset c = add_mset ev (mset (snd (EventPriorityQueue_remove ev c)))"
  by (induction c) (auto simp: event_eq_def key_eq_def split: prod.splits)

interpretation pqs: event_queue_remove PriorityQueueScheduler "\<lambda>_. True" mset "[]"
proof unfold_locales
  fix c :: pq
  assume "mset c \<noteq> {#}"
  then obtain e where "e \<in> set c" "pq_top c = Inr e" "\<forall>x\<in>set c. erank e \<le> erank x"
    using pq_top_least[of c] by auto
  then show "\<exists>e c'. RemoveNext PriorityQueueScheduler c = Inr (e, c') \<and> PeekNext PriorityQueueScheduler c = Inr e
      \<and> True \<and> mset c = add_mset e (mset c') \<and> (\<forall>x\<in>#mset c. erank e \<le> erank x)"
    by (simp add: PriorityQueueScheduler_ops pq_pop_def)
qed (use EventPriorityQueue_remove_ok in \<open>auto simp: PriorityQueueScheduler_ops\<close>)

end
