(* ===== verification/Calendar_Scheduler.thy ===== *)
theory Calendar_Scheduler
  imports Scheduler_Programs
begin

text \<open>
  \<^verbatim>\<open>CalendarScheduler\<close> (core/model/calendar-scheduler.cc): events are spread over an array of
  buckets by their time, as appointments over the days of a year; the next event is searched from
  the bucket of the last one on, and the number and the width of the buckets follow the load.
  The three function pointers \<^verbatim>\<open>NextEvent\<close>, \<^verbatim>\<open>Order\<close> and \<^verbatim>\<open>Pop\<close> depend on the attribute
  \<^verbatim>\<open>Reverse\<close> only and are functions of it.  The array \<^verbatim>\<open>m_buckets\<close> is a list; an access
  outside of it is \<open>OutOfBounds\<close>.

  The search is right only for events not before the last one removed, so that the scheduler
  interprets the contract along the clock, \<open>timed_queue_remove\<close>.  The sums of bucket limits may
  wrap around; for times below \<open>2 ^ 63\<close> this is shown to have no effect.
\<close>

subsection \<open>State and operations\<close>

type_synonym Bucket = "Event list"

record calendar =
  m_buckets :: "Bucket list"
  m_nBuckets :: u32
  m_width :: u64
  m_lastBucket :: u32
  m_bucketTop :: u64
  m_lastPrio :: u64
  m_qSize :: u32
  m_reverse :: bool

definition NextEvent :: "bool \<Rightarrow> Bucket \<Rightarrow> Event res" where
  "NextEvent reverse b = (if b = [] then Inl OutOfBounds else Inr (if reverse then last b else hd b))"

definition Order :: "bool \<Rightarrow> EventKey \<Rightarrow> EventKey \<Rightarrow> bool" where
  "Order reverse a b = (if reverse then key_greater a b else key_less a b)"

definition Pop :: "bool \<Rightarrow> Bucket \<Rightarrow> Bucket" where
  "Pop reverse b = (if reverse then butlast b else tl b)"

definition SetReverse :: "bool \<Rightarrow> calendar \<Rightarrow> calendar" where
  "SetReverse reverse c = c\<lparr>m_reverse := reverse\<rparr>"

definition Hash :: "calendar \<Rightarrow> u64 \<Rightarrow> u32 res" where
  "Hash c ts =
     (if m_width c = 0 \<or> m_nBuckets c = 0 then Inl NotFinite
      else Inr (ucast ((ts div m_width c) mod ucast (m_nBuckets c))))"

definition Init :: "u32 \<Rightarrow> u64 \<Rightarrow> u64 \<Rightarrow> calendar \<Rightarrow> calendar res" where
  "Init nBuckets width startPrio c =
     (let c = c\<lparr>m_buckets := replicate (unat nBuckets) [], m_nBuckets := nBuckets, m_width := width,
               m_lastPrio := startPrio\<rparr> in
      bindr (Hash c startPrio) (\<lambda>b.
      Inr (c\<lparr>m_lastBucket := b, m_bucketTop := (startPrio div width + 1) * width\<rparr>)))"

text \<open>The constructor, applied to a record whose members have arbitrary values.\<close>

definition CalendarScheduler_new :: "calendar \<Rightarrow> calendar res" where
  "CalendarScheduler_new c = bindr (Init 2 1 0 c) (\<lambda>c. Inr (c\<lparr>m_qSize := 0\<rparr>))"

definition bucketAt :: "calendar \<Rightarrow> nat \<Rightarrow> Bucket res" where
  "bucketAt c i = (if i < length (m_buckets c) then Inr (m_buckets c ! i) else Inl OutOfBounds)"

definition setBucket :: "nat \<Rightarrow> Bucket \<Rightarrow> calendar \<Rightarrow> calendar" where
  "setBucket i b c = c\<lparr>m_buckets := (m_buckets c)[i := b]\<rparr>"

fun insertOrdered :: "bool \<Rightarrow> Event \<Rightarrow> Bucket \<Rightarrow> Bucket" where
  "insertOrdered reverse ev [] = [ev]"
| "insertOrdered reverse ev (i # is) =
     (if Order reverse (key ev) (key i) then ev # i # is else i # insertOrdered reverse ev is)"

definition DoInsert :: "Event \<Rightarrow> calendar \<Rightarrow> calendar res" where
  "DoInsert ev c =
     bindr (Hash c (m_ts (key ev))) (\<lambda>bucket.
     bindr (bucketAt c (unat bucket)) (\<lambda>b.
     Inr (setBucket (unat bucket) (insertOrdered (m_reverse c) ev b) c)))"

definition CalendarScheduler_IsEmpty :: "calendar \<Rightarrow> bool" where
  "CalendarScheduler_IsEmpty c \<longleftrightarrow> m_qSize c = 0"

text \<open>
  The search of \<^verbatim>\<open>PeekNext\<close>: \<open>i\<close> is the bucket, \<open>bucketTop\<close> the end of its current day and
  \<open>minEvent\<close> the smallest event seen.  The loop ends when it is back at the first bucket.
\<close>

fun peekLoop :: "nat \<Rightarrow> calendar \<Rightarrow> u32 \<Rightarrow> u64 \<Rightarrow> Event \<Rightarrow> Event res" where
  "peekLoop 0 c i bucketTop minEvent = Inl Diverge"
| "peekLoop (Suc fuel) c i bucketTop minEvent =
     (let cont = (\<lambda>minEvent.
        let i = (i + 1) mod m_nBuckets c; bucketTop = bucketTop + m_width c in
        if i \<noteq> m_lastBucket c then peekLoop fuel c i bucketTop minEvent else Inr minEvent) in
      bindr (bucketAt c (unat i)) (\<lambda>b.
      if b \<noteq> [] then
        bindr (NextEvent (m_reverse c) b) (\<lambda>next.
        if m_ts (key next) < bucketTop then Inr next
        else if key_less (key next) (key minEvent) then cont next
        else cont minEvent)
      else cont minEvent))"

definition noEvent :: Event where
  "noEvent = \<lparr>impl = None, key = \<lparr>m_ts = - 1, m_uid = - 1, m_context = 0\<rparr>\<rparr>"

definition CalendarScheduler_PeekNext :: "calendar \<Rightarrow> Event res" where
  "CalendarScheduler_PeekNext c =
     (if CalendarScheduler_IsEmpty c then Inl Assert
      else peekLoop (Suc (unat (m_nBuckets c))) c (m_lastBucket c) (m_bucketTop c) noEvent)"

text \<open>\<^verbatim>\<open>DoRemoveNext\<close>: what follows its loop, the loop, and the whole.\<close>

definition removeMin :: "calendar \<Rightarrow> int \<Rightarrow> EventKey \<Rightarrow> (Event \<times> calendar) res" where
  "removeMin c minBucket minKey =
     bindr (Hash c (m_ts minKey)) (\<lambda>lastBucket.
     let c = c\<lparr>m_lastPrio := m_ts minKey, m_lastBucket := lastBucket,
               m_bucketTop := (m_ts minKey div m_width c + 1) * m_width c\<rparr> in
     if minBucket < 0 then Inl OutOfBounds
     else bindr (bucketAt c (nat minBucket)) (\<lambda>b.
          bindr (NextEvent (m_reverse c) b) (\<lambda>next.
          Inr (next, setBucket (nat minBucket) (Pop (m_reverse c) b) c))))"

fun removeLoop :: "nat \<Rightarrow> calendar \<Rightarrow> u32 \<Rightarrow> u64 \<Rightarrow> int \<Rightarrow> EventKey \<Rightarrow> (Event \<times> calendar) res" where
  "removeLoop 0 c i bucketTop minBucket minKey = Inl Diverge"
| "removeLoop (Suc fuel) c i bucketTop minBucket minKey =
     (let cont = (\<lambda>minBucket minKey.
        let i = (i + 1) mod m_nBuckets c; bucketTop = bucketTop + m_width c in
        if i \<noteq> m_lastBucket c then removeLoop fuel c i bucketTop minBucket minKey
        else removeMin c minBucket minKey) in
      bindr (bucketAt c (unat i)) (\<lambda>b.
      if b \<noteq> [] then
        bindr (NextEvent (m_reverse c) b) (\<lambda>next.
        if m_ts (key next) < bucketTop then
          Inr (next, setBucket (unat i) (Pop (m_reverse c) b)
                 (c\<lparr>m_lastBucket := i, m_lastPrio := m_ts (key next), m_bucketTop := bucketTop\<rparr>))
        else if key_less (key next) minKey then cont (sint i) (key next)
        else cont minBucket minKey)
      else cont minBucket minKey))"

definition noKey :: EventKey where
  "noKey = \<lparr>m_ts = - 1, m_uid = 0, m_context = 0xffffffff\<rparr>"

definition DoRemoveNext :: "calendar \<Rightarrow> (Event \<times> calendar) res" where
  "DoRemoveNext c =
     (if CalendarScheduler_IsEmpty c then Inl Assert
      else removeLoop (Suc (unat (m_nBuckets c))) c (m_lastBucket c) (m_bucketTop c) (- 1) noKey)"

text \<open>The new width: three times the separation of the next events, far apart ones left out.\<close>

fun gather :: "nat \<Rightarrow> calendar \<Rightarrow> (Event list \<times> calendar) res" where
  "gather 0 c = Inr ([], c)"
| "gather (Suc n) c =
     bindr (DoRemoveNext c) (\<lambda>(e, c). bindr (gather n c) (\<lambda>(es, c). Inr (e # es, c)))"

fun separation :: "Event list \<Rightarrow> u64" where
  "separation (cur # next # es) = (m_ts (key next) - m_ts (key cur)) + separation (next # es)"
| "separation _ = 0"

fun closeSeparation :: "u64 \<Rightarrow> Event list \<Rightarrow> u64" where
  "closeSeparation twiceAvg (cur # next # es) =
     (let diff = m_ts (key next) - m_ts (key cur) in
      (if diff \<le> twiceAvg then diff else 0) + closeSeparation twiceAvg (next # es))"
| "closeSeparation twiceAvg _ = 0"

definition sampleCount :: "u32 \<Rightarrow> u32" where
  "sampleCount qSize = (let n = (if qSize \<le> 5 then qSize else 5 + qSize div 10) in if n > 25 then 25 else n)"

definition CalculateNewWidth :: "calendar \<Rightarrow> (u64 \<times> calendar) res" where
  "CalculateNewWidth c =
     (if m_qSize c < 2 then Inr (1, c)
      else let nSamples = sampleCount (m_qSize c) in
        bindr (gather (unat nSamples) c) (\<lambda>(samples, c').
        bindr (loopr DoInsert samples c') (\<lambda>c'.
        let c' = c'\<lparr>m_lastBucket := m_lastBucket c, m_bucketTop := m_bucketTop c, m_lastPrio := m_lastPrio c\<rparr>;
            twiceAvg = separation samples div ucast (nSamples - 1) * 2;
            totalSeparation = closeSeparation twiceAvg samples * 3 in
        Inr (max totalSeparation 1, c'))))"

definition DoResize :: "u32 \<Rightarrow> u64 \<Rightarrow> calendar \<Rightarrow> calendar res" where
  "DoResize newSize newWidth c =
     bindr (Init newSize newWidth (m_lastPrio c) c) (loopr (loopr DoInsert) (m_buckets c))"

definition Resize :: "u32 \<Rightarrow> calendar \<Rightarrow> calendar res" where
  "Resize newSize c = bindr (CalculateNewWidth c) (\<lambda>(newWidth, c). DoResize newSize newWidth c)"

definition ResizeUp :: "calendar \<Rightarrow> calendar res" where
  "ResizeUp c =
     (if m_qSize c > m_nBuckets c * 2 \<and> m_nBuckets c < 32768 then Resize (m_nBuckets c * 2) c else Inr c)"

definition ResizeDown :: "calendar \<Rightarrow> calendar res" where
  "ResizeDown c =
     (if m_qSize c < m_nBuckets c div 2 then Resize (m_nBuckets c div 2) c else Inr c)"

definition CalendarScheduler_Insert :: "Event \<Rightarrow> calendar \<Rightarrow> calendar res" where
  "CalendarScheduler_Insert ev c =
     bindr (DoInsert ev c) (\<lambda>c. ResizeUp (c\<lparr>m_qSize := m_qSize c + 1\<rparr>))"

definition CalendarScheduler_RemoveNext :: "calendar \<Rightarrow> (Event \<times> calendar) res" where
  "CalendarScheduler_RemoveNext c =
     (if CalendarScheduler_IsEmpty c then Inl Assert
      else bindr (DoRemoveNext c) (\<lambda>(ev, c).
           bindr (ResizeDown (c\<lparr>m_qSize := m_qSize c - 1\<rparr>)) (\<lambda>c. Inr (ev, c))))"

fun eraseUid :: "Event \<Rightarrow> Bucket \<Rightarrow> Bucket res" where
  "eraseUid ev [] = Inl Assert"
| "eraseUid ev (i # is) =
     (if euid i = euid ev then (if impl ev = impl i then Inr is else Inl Assert)
      else bindr (eraseUid ev is) (\<lambda>r. Inr (i # r)))"

definition CalendarScheduler_Remove :: "Event \<Rightarrow> calendar \<Rightarrow> calendar res" where
  "CalendarScheduler_Remove ev c =
     (if CalendarScheduler_IsEmpty c then Inl Assert
      else bindr (Hash c (m_ts (key ev))) (\<lambda>bucket.
           bindr (bucketAt c (unat bucket)) (\<lambda>b.
           bindr (eraseUid ev b) (\<lambda>b.
           let c = setBucket (unat bucket) b c in
           ResizeDown (c\<lparr>m_qSize := m_qSize c - 1\<rparr>)))))"

definition CalendarScheduler :: "calendar Scheduler" where
  "CalendarScheduler = \<lparr>Insert = CalendarScheduler_Insert, IsEmpty = CalendarScheduler_IsEmpty,
     PeekNext = CalendarScheduler_PeekNext, RemoveNext = CalendarScheduler_RemoveNext,
     Remove = CalendarScheduler_Remove\<rparr>"

lemmas CalendarScheduler_ops = CalendarScheduler_def CalendarScheduler_Insert_def
  CalendarScheduler_IsEmpty_def CalendarScheduler_PeekNext_def CalendarScheduler_RemoveNext_def
  CalendarScheduler_Remove_def

subsection \<open>Buckets\<close>

definition before :: "bool \<Rightarrow> Event \<Rightarrow> Event \<Rightarrow> bool" where
  "before reverse x y = (if reverse then erank y \<le> erank x else erank x \<le> erank y)"

abbreviation bucket_sorted :: "bool \<Rightarrow> Bucket \<Rightarrow> bool" where
  "bucket_sorted reverse \<equiv> sorted_wrt (before reverse)"

definition bucketHead :: "bool \<Rightarrow> Bucket \<Rightarrow> Event" where
  "bucketHead reverse b = (if reverse then last b else hd b)"

lemma NextEvent_head [simp]: "b \<noteq> [] \<Longrightarrow> NextEvent r b = Inr (bucketHead r b)"
  by (simp add: NextEvent_def bucketHead_def)

lemma mset_insertOrdered [simp]: "mset (insertOrdered r ev b) = add_mset ev (mset b)"
  by (induction b) auto

lemma set_insertOrdered [simp]: "set (insertOrdered r ev b) = insert ev (set b)"
  by (induction b) auto

lemma sorted_insertOrdered: "bucket_sorted r b \<Longrightarrow> bucket_sorted r (insertOrdered r ev b)"
  by (induction b) (fastforce simp: before_def Order_def rank_orders not_less split: if_splits)+

lemma bucketHead_in: "b \<noteq> [] \<Longrightarrow> bucketHead r b \<in> set b"
  by (simp add: bucketHead_def)

lemma bucketHead_least:
  assumes "bucket_sorted r b" "x \<in> set b"
  shows "erank (bucketHead r b) \<le> erank x"
proof (cases r)
  case True
  have "b = butlast b @ [last b]" using assms(2) by (cases b) auto
  then have "x = last b \<or> before r x (last b)"
    using assms by (metis (no_types, lifting) Un_iff empty_iff empty_set list.set_intros(1) set_ConsD
        set_append sorted_wrt_append)
  then show ?thesis using True by (auto simp: bucketHead_def before_def)
next
  case False
  then show ?thesis using assms by (cases b) (auto simp: bucketHead_def before_def)
qed

lemma mset_Pop:
  assumes "b \<noteq> []"
  shows "mset b = add_mset (bucketHead r b) (mset (Pop r b))"
proof (cases r)
  case True
  have "mset (butlast b @ [last b]) = mset b" using assms by simp
  then show ?thesis using True by (simp add: bucketHead_def Pop_def)
next
  case False
  then show ?thesis using assms by (cases b) (auto simp: bucketHead_def Pop_def)
qed

lemma sorted_Pop: "bucket_sorted r b \<Longrightarrow> bucket_sorted r (Pop r b)"
proof (cases r)
  case True
  assume "bucket_sorted r b"
  then show ?thesis using True by (cases b rule: rev_cases) (auto simp: Pop_def sorted_wrt_append)
next
  case False
  assume "bucket_sorted r b"
  then show ?thesis using False by (cases b) (auto simp: Pop_def)
qed

lemma set_Pop: "set (Pop r b) \<subseteq> set b"
  by (cases b) (auto simp: Pop_def dest: in_set_butlastD)

lemma eraseUid_remove1: "uids_distinct (mset b) \<Longrightarrow> ev \<in> set b \<Longrightarrow> eraseUid ev b = Inr (remove1 ev b)"
  by (induction b) auto

lemma sorted_wrt_remove1: "sorted_wrt R b \<Longrightarrow> sorted_wrt R (remove1 x b)"
  using set_remove1_subset by (induction b) fastforce+

lemma mset_concat_update:
  "i < length bs \<Longrightarrow> mset (concat (bs[i := b])) + mset (bs ! i) = mset (concat bs) + mset b"
  by (induction bs arbitrary: i) (auto simp: nth_Cons split: nat.splits)

lemma loopr_concat: "loopr (loopr f) xss s = loopr f (concat xss) s"
  by (induction xss arbitrary: s) (auto simp: loopr_append bindr_def split: sum.splits)

subsection \<open>Days and the invariant\<close>

definition day :: "calendar \<Rightarrow> u64 \<Rightarrow> nat" where
  "day c t = unat t div unat (m_width c)"

definition slot :: "calendar \<Rightarrow> u64 \<Rightarrow> nat" where
  "slot c t = day c t mod unat (m_nBuckets c)"

abbreviation ets :: "Event \<Rightarrow> u64" where
  "ets e \<equiv> m_ts (key e)"

definition cal_evs :: "calendar \<Rightarrow> Event multiset" where
  "cal_evs c = mset (concat (m_buckets c))"

definition cal_size :: "calendar \<Rightarrow> bool" where
  "cal_size c \<longleftrightarrow> m_width c \<noteq> 0 \<and> (\<exists>j\<le>15. unat (m_nBuckets c) = 2 ^ j)
     \<and> length (m_buckets c) = unat (m_nBuckets c)"

definition cal_shape :: "calendar \<Rightarrow> bool" where
  "cal_shape c \<longleftrightarrow> cal_size c
     \<and> (\<forall>i < unat (m_nBuckets c). bucket_sorted (m_reverse c) (m_buckets c ! i)
           \<and> (\<forall>e\<in>set (m_buckets c ! i). slot c (ets e) = i \<and> unat (ets e) < 2 ^ 63))"

definition cal_time :: "calendar \<Rightarrow> bool" where
  "cal_time c \<longleftrightarrow> unat (m_lastPrio c) < 2 ^ 63 \<and> unat (m_lastBucket c) = slot c (m_lastPrio c)
     \<and> m_bucketTop c = of_nat ((day c (m_lastPrio c) + 1) * unat (m_width c))
     \<and> (\<forall>e\<in>#cal_evs c. m_lastPrio c \<le> ets e)"

lemma cal_size_bounds:
  assumes "cal_size c"
  shows "0 < unat (m_width c)" "0 < unat (m_nBuckets c)" "unat (m_nBuckets c) \<le> 32768"
    "length (m_buckets c) = unat (m_nBuckets c)"
proof -
  obtain j where j: "j \<le> 15" "unat (m_nBuckets c) = 2 ^ j" using assms by (auto simp: cal_size_def)
  then have "(2::nat) ^ j \<le> 2 ^ 15" by (intro power_increasing) auto
  then show "unat (m_nBuckets c) \<le> 32768" "0 < unat (m_nBuckets c)" using j(2) by auto
qed (use assms in \<open>auto simp: cal_size_def unat_gt_0\<close>)

lemma slot_less: "cal_size c \<Longrightarrow> slot c t < unat (m_nBuckets c)"
  using cal_size_bounds(2) by (simp add: slot_def)

lemma Hash_slot:
  assumes "cal_size c"
  shows "\<exists>b. Hash c t = Inr b \<and> unat b = slot c t"
proof -
  note n = cal_size_bounds[OF assms]
  define x where "x = (t div m_width c) mod ucast (m_nBuckets c)"
  have "unat x = slot c t"
    by (simp add: x_def slot_def day_def unat_mod_distrib unat_div_distrib)
  moreover have "slot c t < 2 ^ 32" using slot_less[OF assms, of t] n(3) by simp
  ultimately have "unat (ucast x :: u32) = slot c t"
    by (simp add: unsigned_ucast_eq take_bit_nat_eq_self)
  moreover have "Hash c t = Inr (ucast x)" using n(1,2) by (auto simp: Hash_def x_def)
  ultimately show ?thesis by blast
qed

lemma top_of_nat: "(t div m_width c + 1) * m_width c = of_nat ((day c t + 1) * unat (m_width c))"
proof -
  have "t div m_width c = of_nat (day c t)" by (simp add: day_def flip: unat_div_distrib)
  then show ?thesis by (simp add: algebra_simps)
qed

text \<open>The limit of a day that does not lie after an event is not wrapped around.\<close>

lemma window_bound:
  assumes "0 < w" "w < 2 ^ 64" "h < 2 ^ 63" "d \<le> h div w"
  shows "(d + 1) * w < (2 ^ 64 :: nat)"
proof (cases "w \<le> 2 ^ 63")
  case True
  have "d * w \<le> h div w * w" using assms(4) by (rule mult_le_mono1)
  also have "\<dots> \<le> h" by simp
  finally show ?thesis using True assms(3) by simp
next
  case False
  then have "h div w = 0" using assms(3) by simp
  then show ?thesis using assms(2,4) by simp
qed

lemma day_after:
  assumes "(a + m) mod n = (a + k) mod n" "k < (n :: nat)"
  shows "k \<le> m"
proof (rule ccontr)
  assume "\<not> k \<le> m"
  then have "n dvd (a + k) - (a + m)" using assms(1) mod_eq_dvd_iff_nat[of "a + m" "a + k" n] by simp
  then show False using assms(2) \<open>\<not> k \<le> m\<close> by (auto dest!: dvd_imp_le)
qed

text \<open>
  Step \<open>k\<close> of the search looks at the bucket of day \<open>d + k\<close>, where \<open>d\<close> is the day of the last event:
  the test against the limit, as the source computes it, says whether the event is of that day.
\<close>

lemma today_iff:
  assumes c: "cal_size c" and k: "k < unat (m_nBuckets c)"
    and e: "slot c t = (day c l + k) mod unat (m_nBuckets c)" "unat t < 2 ^ 63" "l \<le> t"
  shows "day c l + k \<le> day c t"
    and "t < of_nat ((day c l + k + 1) * unat (m_width c)) \<longleftrightarrow> day c t = day c l + k"
proof -
  let ?w = "unat (m_width c)" and ?n = "unat (m_nBuckets c)"
  note n = cal_size_bounds[OF c]
  have "day c l \<le> day c t" using e(3) by (simp add: day_def div_le_mono word_le_nat_alt)
  then obtain m where m: "day c t = day c l + m" using le_Suc_ex by blast
  then have "k \<le> m" using day_after[OF _ k, of "day c l" m] e(1) by (simp add: slot_def)
  then show le: "day c l + k \<le> day c t" by (simp add: m)
  have "?w < 2 ^ 64" using unsigned_less[of "m_width c", where ?'a = nat] by simp
  then have lm: "(day c l + k + 1) * ?w < 2 ^ 64"
    using window_bound[OF n(1) _ e(2)] le by (simp add: day_def)
  have "t < of_nat ((day c l + k + 1) * ?w) \<longleftrightarrow> unat t < (day c l + k + 1) * ?w"
    using lm by (simp add: word_less_nat_alt unsigned_of_nat take_bit_nat_eq_self del: of_nat_mult of_nat_add)
  also have "\<dots> \<longleftrightarrow> day c t < day c l + k + 1"
    using n(1) by (simp add: day_def div_less_iff_less_mult)
  finally show "t < of_nat ((day c l + k + 1) * ?w) \<longleftrightarrow> day c t = day c l + k" using le by auto
qed

subsection \<open>The search for the next event\<close>

text \<open>The bucket of step \<open>k\<close>.\<close>

definition visited :: "calendar \<Rightarrow> nat \<Rightarrow> nat" where
  "visited c k = (day c (m_lastPrio c) + k) mod unat (m_nBuckets c)"

text \<open>
  After \<open>k\<close> steps without success no event is of one of the first \<open>k\<close> days, and \<open>acc\<close> is the
  smallest event of the buckets visited, \<open>None\<close> when these were empty.
\<close>

definition searched :: "calendar \<Rightarrow> nat \<Rightarrow> Event option \<Rightarrow> bool" where
  "searched c k acc \<longleftrightarrow>
     (\<forall>e\<in>#cal_evs c. day c (m_lastPrio c) + k \<le> day c (ets e))
   \<and> (case acc of
        None \<Rightarrow> \<forall>j<k. m_buckets c ! visited c j = []
      | Some e \<Rightarrow> (\<exists>j<k. m_buckets c ! visited c j \<noteq> [] \<and> e = bucketHead (m_reverse c) (m_buckets c ! visited c j))
          \<and> (\<forall>j<k. \<forall>x\<in>set (m_buckets c ! visited c j). erank e \<le> erank x))"

definition least_event :: "calendar \<Rightarrow> Event \<Rightarrow> bool" where
  "least_event c e \<longleftrightarrow> m_buckets c ! slot c (ets e) \<noteq> []
     \<and> e = bucketHead (m_reverse c) (m_buckets c ! slot c (ets e))
     \<and> e \<in># cal_evs c \<and> (\<forall>x\<in>#cal_evs c. erank e \<le> erank x)"

lemma cal_evs_iff: "e \<in># cal_evs c \<longleftrightarrow> (\<exists>i<length (m_buckets c). e \<in> set (m_buckets c ! i))"
  by (auto simp: cal_evs_def in_set_conv_nth) (metis in_set_conv_nth)+

lemma cal_evs_slot:
  assumes "cal_shape c"
  shows "e \<in># cal_evs c \<longleftrightarrow> e \<in> set (m_buckets c ! slot c (ets e))"
proof -
  have c: "cal_size c" using assms by (simp add: cal_shape_def)
  show ?thesis
    using assms slot_less[OF c, of "ets e"] cal_size_bounds(4)[OF c]
    by (auto simp: cal_shape_def cal_evs_iff)
qed

lemma shape_bucket:
  assumes "cal_shape c" "i < unat (m_nBuckets c)"
  shows "bucket_sorted (m_reverse c) (m_buckets c ! i)"
    "e \<in> set (m_buckets c ! i) \<Longrightarrow> slot c (ets e) = i" "e \<in> set (m_buckets c ! i) \<Longrightarrow> unat (ets e) < 2 ^ 63"
    "e \<in> set (m_buckets c ! i) \<Longrightarrow> e \<in># cal_evs c"
  using assms cal_size_bounds(4)[of c] by (auto simp: cal_shape_def cal_evs_iff)

lemma visited_less: "cal_size c \<Longrightarrow> visited c k < unat (m_nBuckets c)"
  using cal_size_bounds(2) by (simp add: visited_def)

text \<open>An event seen at step \<open>k\<close> is of a day from the \<open>k\<close>-th on, and of that day if it passes the test.\<close>

lemma visit:
  assumes c: "cal_shape c" "cal_time c" and k: "k < unat (m_nBuckets c)"
    and x: "x \<in> set (m_buckets c ! visited c k)"
  shows "day c (m_lastPrio c) + k \<le> day c (ets x)"
    "ets x < of_nat ((day c (m_lastPrio c) + k + 1) * unat (m_width c)) \<longleftrightarrow>
       day c (ets x) = day c (m_lastPrio c) + k"
proof -
  have s: "cal_size c" using c(1) by (simp add: cal_shape_def)
  note b = shape_bucket[OF c(1) visited_less[OF s]]
  have "slot c (ets x) = (day c (m_lastPrio c) + k) mod unat (m_nBuckets c)"
    using b(2)[OF x] by (simp add: visited_def)
  moreover have "m_lastPrio c \<le> ets x" using b(4)[OF x] c(2) by (simp add: cal_time_def)
  ultimately show "day c (m_lastPrio c) + k \<le> day c (ets x)"
    "ets x < of_nat ((day c (m_lastPrio c) + k + 1) * unat (m_width c)) \<longleftrightarrow>
       day c (ets x) = day c (m_lastPrio c) + k"
    using today_iff[OF s k _ b(3)[OF x]] by blast+
qed

lemma rank_by_day: "day c (ets x) < day c (ets y) \<Longrightarrow> erank x < erank y"
proof -
  assume "day c (ets x) < day c (ets y)"
  then have "ets x < ets y"
    by (metis day_def div_le_mono not_less word_le_nat_alt)
  then show ?thesis by (auto simp: rank_def)
qed

text \<open>The search succeeds: the first event of a day no event precedes is the next one.\<close>

lemma search_hit:
  assumes c: "cal_shape c" "cal_time c" and k: "k < unat (m_nBuckets c)" and s: "searched c k acc"
    and b: "m_buckets c ! visited c k \<noteq> []"
    and e: "e = bucketHead (m_reverse c) (m_buckets c ! visited c k)"
    and d: "day c (ets e) = day c (m_lastPrio c) + k"
  shows "least_event c e"
proof -
  have z: "cal_size c" using c(1) by (simp add: cal_shape_def)
  note bk = shape_bucket[OF c(1) visited_less[OF z, of k]]
  have eb: "e \<in> set (m_buckets c ! visited c k)" unfolding e by (rule bucketHead_in[OF b])
  have "erank e \<le> erank x" if x: "x \<in># cal_evs c" for x
  proof (cases "day c (ets x) = day c (ets e)")
    case True
    then have "x \<in> set (m_buckets c ! visited c k)"
      using x cal_evs_slot[OF c(1), of x] by (simp add: slot_def visited_def d)
    then show ?thesis unfolding e by (rule bucketHead_least[OF bk(1)])
  next
    case False
    then have "day c (ets e) < day c (ets x)" using s x d by (fastforce simp: searched_def)
    then show ?thesis using rank_by_day by (simp add: less_imp_le)
  qed
  then show ?thesis using bk(2,4)[OF eb] b e by (auto simp: least_event_def)
qed

text \<open>The search goes on: the smallest event so far, and no event on the day just looked at.\<close>

definition smaller :: "Event \<Rightarrow> Event option \<Rightarrow> Event" where
  "smaller e acc = (case acc of None \<Rightarrow> e | Some a \<Rightarrow> if key_less (key e) (key a) then e else a)"

lemma search_no_day:
  assumes c: "cal_shape c" "cal_time c" and k: "k < unat (m_nBuckets c)" and s: "searched c k acc"
    and d: "\<And>x. x \<in> set (m_buckets c ! visited c k) \<Longrightarrow> day c (ets x) \<noteq> day c (m_lastPrio c) + k"
    and x: "x \<in># cal_evs c"
  shows "day c (m_lastPrio c) + Suc k \<le> day c (ets x)"
proof -
  have "day c (m_lastPrio c) + k \<le> day c (ets x)" using s x by (simp add: searched_def)
  moreover have "day c (ets x) \<noteq> day c (m_lastPrio c) + k"
    using d[of x] x cal_evs_slot[OF c(1), of x] by (auto simp: slot_def visited_def)
  ultimately show ?thesis by simp
qed

lemma search_miss_empty:
  assumes "cal_shape c" "cal_time c" "k < unat (m_nBuckets c)" "searched c k acc"
    and b: "m_buckets c ! visited c k = []"
  shows "searched c (Suc k) acc"
  using search_no_day[OF assms(1-4)] assms(4) b
  by (auto simp: searched_def less_Suc_eq split: option.splits)

lemma search_miss:
  assumes c: "cal_shape c" "cal_time c" and k: "k < unat (m_nBuckets c)" and s: "searched c k acc"
    and b: "m_buckets c ! visited c k \<noteq> []"
    and e: "e = bucketHead (m_reverse c) (m_buckets c ! visited c k)"
    and d: "day c (ets e) \<noteq> day c (m_lastPrio c) + k"
  shows "searched c (Suc k) (Some (smaller e acc))"
proof -
  have z: "cal_size c" using c(1) by (simp add: cal_shape_def)
  have least: "erank e \<le> erank x" if "x \<in> set (m_buckets c ! visited c k)" for x
    unfolding e using bucketHead_least[OF shape_bucket(1)[OF c(1) visited_less[OF z]] that] .
  have "day c (ets x) \<noteq> day c (m_lastPrio c) + k" if "x \<in> set (m_buckets c ! visited c k)" for x
  proof
    assume "day c (ets x) = day c (m_lastPrio c) + k"
    moreover have "day c (m_lastPrio c) + k \<le> day c (ets e)"
      using visit(1)[OF c k] bucketHead_in[OF b] e by simp
    ultimately have "erank x < erank e" using d by (intro rank_by_day[of c]) simp
    then show False using least[OF that] by simp
  qed
  then have "\<forall>x\<in>#cal_evs c. day c (m_lastPrio c) + Suc k \<le> day c (ets x)"
    using search_no_day[OF c k s] by blast
  moreover have "\<exists>j<Suc k. m_buckets c ! visited c j \<noteq> []
      \<and> smaller e acc = bucketHead (m_reverse c) (m_buckets c ! visited c j)"
    using s b e by (auto simp: searched_def smaller_def less_Suc_eq split: option.splits)
  moreover have "erank (smaller e acc) \<le> erank x"
    if "j < Suc k" "x \<in> set (m_buckets c ! visited c j)" for j x
  proof (cases acc)
    case None
    then show ?thesis using s that least by (auto simp: searched_def smaller_def less_Suc_eq)
  next
    case (Some a)
    then have "j < k \<Longrightarrow> erank a \<le> erank x" using s that by (auto simp: searched_def)
    then show ?thesis
      using that least[of x] Some by (cases "j = k") (auto simp: smaller_def rank_orders)
  qed
  ultimately show ?thesis by (simp add: searched_def)
qed

lemma visited_onto:
  assumes "cal_size c" "i < unat (m_nBuckets c)"
  shows "\<exists>j < unat (m_nBuckets c). visited c j = i"
proof -
  let ?n = "unat (m_nBuckets c)" and ?a = "day c (m_lastPrio c)"
  let ?j = "(i + (?n - ?a mod ?n)) mod ?n"
  have "?a mod ?n \<le> ?n" using assms by (simp add: less_imp_le)
  then have "?a mod ?n + (i + (?n - ?a mod ?n)) = i + ?n" by arith
  then have "(?a mod ?n + (i + (?n - ?a mod ?n))) mod ?n = i" using assms(2) by simp
  then have "(?a + ?j) mod ?n = i" by (simp add: mod_simps)
  then show ?thesis using cal_size_bounds(2)[OF assms(1)] by (intro exI[of _ ?j]) (simp add: visited_def)
qed

lemma search_end:
  assumes c: "cal_shape c" "cal_time c" and s: "searched c (unat (m_nBuckets c)) acc" and ne: "cal_evs c \<noteq> {#}"
  shows "\<exists>e. acc = Some e \<and> least_event c e"
proof -
  have z: "cal_size c" using c(1) by (simp add: cal_shape_def)
  have vis: "\<exists>j < unat (m_nBuckets c). x \<in> set (m_buckets c ! visited c j)" if "x \<in># cal_evs c" for x
    using that cal_evs_slot[OF c(1), of x] visited_onto[OF z slot_less[OF z, of "ets x"]] by metis
  obtain y where y: "y \<in># cal_evs c" using ne by blast
  obtain e where e: "acc = Some e" using s vis[OF y] by (cases acc) (auto simp: searched_def)
  then obtain j where j: "j < unat (m_nBuckets c)" "m_buckets c ! visited c j \<noteq> []"
    "e = bucketHead (m_reverse c) (m_buckets c ! visited c j)" using s by (auto simp: searched_def)
  have eb: "e \<in> set (m_buckets c ! visited c j)" unfolding j(3) by (rule bucketHead_in[OF j(2)])
  have "erank e \<le> erank x" if "x \<in># cal_evs c" for x
    using vis[OF that] s e by (auto simp: searched_def)
  then have "least_event c e"
    using shape_bucket(2,4)[OF c(1) visited_less[OF z] eb] j by (auto simp: least_event_def)
  then show ?thesis using e by blast
qed

text \<open>One step of the index and of the limit.\<close>

lemma next_index:
  assumes c: "cal_size c" and i: "unat i = visited c k"
  shows "unat ((i + 1) mod m_nBuckets c) = visited c (Suc k)"
proof -
  have "unat i + 1 < 2 ^ 32" using i visited_less[OF c, of k] cal_size_bounds(3)[OF c] by simp
  then have "unat (i + 1) = visited c k + 1" using i by (simp add: unat_word_ariths)
  then have "unat ((i + 1) mod m_nBuckets c) = (visited c k + 1) mod unat (m_nBuckets c)"
    by (simp only: unat_mod_distrib)
  also have "\<dots> = visited c (Suc k)" by (simp add: visited_def mod_Suc_eq)
  finally show ?thesis .
qed

lemma back_at_start:
  assumes c: "cal_size c" "cal_time c" and i: "unat i = visited c k" and k: "k < unat (m_nBuckets c)"
  shows "(i + 1) mod m_nBuckets c = m_lastBucket c \<longleftrightarrow> Suc k = unat (m_nBuckets c)"
proof -
  have "unat (m_lastBucket c) = visited c 0" using c(2) by (simp add: cal_time_def slot_def visited_def)
  then have "(i + 1) mod m_nBuckets c = m_lastBucket c \<longleftrightarrow> visited c (Suc k) = visited c 0"
    by (simp only: word_unat_eq_iff next_index[OF c(1) i])
  also have "\<dots> \<longleftrightarrow> Suc k = unat (m_nBuckets c)"
  proof
    assume "visited c (Suc k) = visited c 0"
    then have "\<not> Suc k < unat (m_nBuckets c)"
      using day_after[of "day c (m_lastPrio c)" 0 "unat (m_nBuckets c)" "Suc k"] by (auto simp: visited_def)
    then show "Suc k = unat (m_nBuckets c)" using k by simp
  next
    assume "Suc k = unat (m_nBuckets c)"
    then have "day c (m_lastPrio c) + Suc k = day c (m_lastPrio c) + unat (m_nBuckets c)" by simp
    then show "visited c (Suc k) = visited c 0" unfolding visited_def by simp
  qed
  finally show ?thesis .
qed

lemma next_limit:
  "of_nat ((d + k + 1) * unat (m_width c)) + m_width c = of_nat ((d + Suc k + 1) * unat (m_width c))"
  by (simp add: algebra_simps)

lemma early_noKey:
  assumes "unat (ets e) < 2 ^ 63"
  shows "key_less (key e) noKey" "key_less (key e) (key noEvent)"
proof -
  have "unat (ets e) < unat (- 1 :: u64)" using assms by (simp add: unsigned_minus_1_eq_mask mask_eq_exp_minus_1)
  then have "ets e < - 1" by (simp only: word_less_nat_alt)
  then show "key_less (key e) noKey" "key_less (key e) (key noEvent)"
    by (simp_all add: key_less_def noKey_def noEvent_def)
qed

text \<open>The state after the next event has been taken out.\<close>

definition taken :: "calendar \<Rightarrow> Event \<Rightarrow> calendar" where
  "taken c e = setBucket (slot c (ets e)) (Pop (m_reverse c) (m_buckets c ! slot c (ets e)))
     (c\<lparr>m_lastPrio := ets e, m_lastBucket := of_nat (slot c (ets e)),
        m_bucketTop := of_nat ((day c (ets e) + 1) * unat (m_width c))\<rparr>)"

lemma slot_upd [simp]:
  "slot (c\<lparr>m_lastPrio := p\<rparr>) = slot c" "slot (c\<lparr>m_lastBucket := i\<rparr>) = slot c"
  "slot (c\<lparr>m_bucketTop := t\<rparr>) = slot c" "slot (c\<lparr>m_buckets := b\<rparr>) = slot c" "slot (c\<lparr>m_qSize := q\<rparr>) = slot c"
  "day (c\<lparr>m_lastPrio := p\<rparr>) = day c" "day (c\<lparr>m_lastBucket := i\<rparr>) = day c"
  "day (c\<lparr>m_bucketTop := t\<rparr>) = day c" "day (c\<lparr>m_buckets := b\<rparr>) = day c" "day (c\<lparr>m_qSize := q\<rparr>) = day c"
  by (simp_all add: fun_eq_iff slot_def day_def)

lemma removeMin_ok:
  assumes c: "cal_shape c" and e: "least_event c e"
  shows "removeMin c (int (slot c (ets e))) (key e) = Inr (e, taken c e)"
proof -
  have z: "cal_size c" using c by (simp add: cal_shape_def)
  obtain b where b: "Hash c (ets e) = Inr b" "unat b = slot c (ets e)" using Hash_slot[OF z] by blast
  then have "b = of_nat (slot c (ets e))" by (simp flip: b(2))
  moreover have "slot c (ets e) < length (m_buckets c)"
    using slot_less[OF z] cal_size_bounds(4)[OF z] by simp
  ultimately show ?thesis
    using e b(1) by (simp add: removeMin_def bucketAt_def least_event_def taken_def setBucket_def top_of_nat
        del: of_nat_mult of_nat_add)
qed

lemma sint_u32:
  assumes "unat (i :: u32) < 32768"
  shows "sint i = int (unat i)"
proof -
  define n where "n = unat i"
  have "n < 32768" "uint i = int n" using assms by (simp_all add: n_def)
  moreover from this(1) have "signed_take_bit 31 (int n) = int n"
    by (intro signed_take_bit_int_eq_self) simp_all
  ultimately show ?thesis unfolding sint_uint n_def[symmetric] by simp
qed

text \<open>Both loops find the least event; one round over the buckets is enough.\<close>

definition minKeyOf :: "Event option \<Rightarrow> EventKey" where
  "minKeyOf acc = (case acc of None \<Rightarrow> noKey | Some e \<Rightarrow> key e)"

definition minBucketOf :: "calendar \<Rightarrow> Event option \<Rightarrow> int" where
  "minBucketOf c acc = (case acc of None \<Rightarrow> - 1 | Some e \<Rightarrow> int (slot c (ets e)))"

definition minEventOf :: "Event option \<Rightarrow> Event" where
  "minEventOf acc = (case acc of None \<Rightarrow> noEvent | Some e \<Rightarrow> e)"

lemma smaller_noKey:
  assumes "unat (ets e) < 2 ^ 63"
  shows "key_less (key e) (minKeyOf acc) \<Longrightarrow> smaller e acc = e"
    "\<not> key_less (key e) (minKeyOf acc) \<Longrightarrow> acc = Some (smaller e acc)"
    "key_less (key e) (key (minEventOf acc)) \<Longrightarrow> smaller e acc = e"
    "\<not> key_less (key e) (key (minEventOf acc)) \<Longrightarrow> acc = Some (smaller e acc)"
  using early_noKey[OF assms] by (auto simp: smaller_def minKeyOf_def minEventOf_def split: option.splits)

definition step_acc :: "calendar \<Rightarrow> Bucket \<Rightarrow> Event option \<Rightarrow> Event option" where
  "step_acc c b acc = (if b = [] then acc else Some (smaller (bucketHead (m_reverse c) b) acc))"

lemma search_loop:
  fixes P :: "nat \<Rightarrow> u32 \<Rightarrow> u64 \<Rightarrow> Event option \<Rightarrow> bool"
  assumes c: "cal_shape c" "cal_time c" "cal_evs c \<noteq> {#}"
    and hit: "\<And>fuel i lm acc b e. bucketAt c (unat i) = Inr b \<Longrightarrow> b \<noteq> [] \<Longrightarrow> e = bucketHead (m_reverse c) b \<Longrightarrow>
      ets e < lm \<Longrightarrow> least_event c e \<Longrightarrow> unat i = slot c (ets e) \<Longrightarrow>
      lm = of_nat ((day c (ets e) + 1) * unat (m_width c)) \<Longrightarrow> P (Suc fuel) i lm acc"
    and miss: "\<And>fuel i lm acc b. bucketAt c (unat i) = Inr b \<Longrightarrow> unat i < 32768 \<Longrightarrow>
      (b \<noteq> [] \<Longrightarrow> \<not> ets (bucketHead (m_reverse c) b) < lm \<and> unat (ets (bucketHead (m_reverse c) b)) < 2 ^ 63
         \<and> slot c (ets (bucketHead (m_reverse c) b)) = unat i) \<Longrightarrow>
      (if (i + 1) mod m_nBuckets c \<noteq> m_lastBucket c
       then P fuel ((i + 1) mod m_nBuckets c) (lm + m_width c) (step_acc c b acc)
       else \<exists>e. step_acc c b acc = Some e \<and> least_event c e) \<Longrightarrow> P (Suc fuel) i lm acc"
    and k: "k < unat (m_nBuckets c)" "unat i = visited c k" "searched c k acc" "unat (m_nBuckets c) \<le> k + fuel"
      "lm = of_nat ((day c (m_lastPrio c) + k + 1) * unat (m_width c))"
  shows "P fuel i lm acc"
  using k
proof (induction fuel arbitrary: k i acc lm)
  case (Suc fuel)
  have z: "cal_size c" using c(1) by (simp add: cal_shape_def)
  let ?b = "m_buckets c ! visited c k" and ?e = "bucketHead (m_reverse c) (m_buckets c ! visited c k)"
  have b: "bucketAt c (unat i) = Inr ?b"
    using Suc.prems(2) visited_less[OF z] cal_size_bounds(4)[OF z] by (simp add: bucketAt_def)
  have i: "unat i < 32768" using Suc.prems(2) visited_less[OF z, of k] cal_size_bounds(3)[OF z] by simp
  have head: "ets ?e < lm \<longleftrightarrow> day c (ets ?e) = day c (m_lastPrio c) + k" "unat (ets ?e) < 2 ^ 63"
    "slot c (ets ?e) = unat i" if "?b \<noteq> []"
    using visit(2)[OF c(1,2) Suc.prems(1) bucketHead_in[OF that]] Suc.prems(2,5)
      shape_bucket(2,3)[OF c(1) visited_less[OF z] bucketHead_in[OF that]] by simp_all
  show ?case
  proof (cases "?b \<noteq> [] \<and> ets ?e < lm")
    case True
    then show ?thesis
      using search_hit[OF c(1,2) Suc.prems(1,3) _ refl] head Suc.prems(5) by (intro hit[OF b]) auto
  next
    case False
    have s: "searched c (Suc k) (step_acc c ?b acc)"
      using search_miss_empty[OF c(1,2) Suc.prems(1,3)] search_miss[OF c(1,2) Suc.prems(1,3) _ refl] False head(1)
      by (auto simp: step_acc_def)
    have "P fuel ((i + 1) mod m_nBuckets c) (lm + m_width c) (step_acc c ?b acc)"
      if "Suc k \<noteq> unat (m_nBuckets c)"
      using that Suc.prems next_limit[of "day c (m_lastPrio c)" k c]
      by (intro Suc.IH[OF _ next_index[OF z Suc.prems(2)] s]) simp_all
    then show ?thesis
      using back_at_start[OF z c(2) Suc.prems(2,1)] search_end[OF c(1,2) _ c(3)] s False head
      by (intro miss[OF b i]) auto
  qed
qed simp

lemma search_start:
  assumes "cal_shape c" "cal_time c"
  shows "0 < unat (m_nBuckets c)" "unat (m_lastBucket c) = visited c 0" "searched c 0 None"
    "m_bucketTop c = of_nat ((day c (m_lastPrio c) + 0 + 1) * unat (m_width c))"
proof -
  show "0 < unat (m_nBuckets c)" using assms(1) cal_size_bounds(2)[of c] by (simp add: cal_shape_def)
  show "unat (m_lastBucket c) = visited c 0" "m_bucketTop c = of_nat ((day c (m_lastPrio c) + 0 + 1) * unat (m_width c))"
    using assms(2) by (simp_all add: cal_time_def visited_def slot_def)
  have "day c (m_lastPrio c) \<le> day c (ets e)" if "e \<in># cal_evs c" for e
    using assms(2) that by (auto simp: cal_time_def day_def word_le_nat_alt intro!: div_le_mono)
  then show "searched c 0 None" by (simp add: searched_def)
qed

lemma peekLoop_ok:
  assumes c: "cal_shape c" "cal_time c" "cal_evs c \<noteq> {#}"
  shows "\<exists>e. peekLoop (Suc (unat (m_nBuckets c))) c (m_lastBucket c) (m_bucketTop c) noEvent = Inr e \<and> least_event c e"
proof -
  let ?P = "\<lambda>fuel i lm acc. \<exists>e. peekLoop fuel c i lm (minEventOf acc) = Inr e \<and> least_event c e"
  have "?P (Suc (unat (m_nBuckets c))) (m_lastBucket c) (m_bucketTop c) None"
  proof (rule search_loop[OF c _ _ search_start(1-3)[OF c(1,2)] _ search_start(4)[OF c(1,2)]])
    fix fuel lm acc b and i :: u32
    assume b: "bucketAt c (unat i) = Inr b" and "unat i < 32768"
      and h: "b \<noteq> [] \<Longrightarrow> \<not> ets (bucketHead (m_reverse c) b) < lm \<and> unat (ets (bucketHead (m_reverse c) b)) < 2 ^ 63
         \<and> slot c (ets (bucketHead (m_reverse c) b)) = unat i"
      and go: "if (i + 1) mod m_nBuckets c \<noteq> m_lastBucket c
         then ?P fuel ((i + 1) mod m_nBuckets c) (lm + m_width c) (step_acc c b acc)
         else \<exists>e. step_acc c b acc = Some e \<and> least_event c e"
    let ?e = "bucketHead (m_reverse c) b"
    have "minEventOf (step_acc c b acc) =
        (if b \<noteq> [] \<and> key_less (key ?e) (key (minEventOf acc)) then ?e else minEventOf acc)"
      using h smaller_noKey(3,4)[of ?e acc] by (auto simp: step_acc_def minEventOf_def split: option.splits)
    moreover have "minEventOf (Some e) = e" for e by (simp add: minEventOf_def)
    ultimately show "?P (Suc fuel) i lm acc" using b h go by (auto simp: Let_def split: if_splits)
  qed simp_all
  then show ?thesis by (simp only: minEventOf_def option.case)
qed

lemma removeLoop_ok:
  assumes c: "cal_shape c" "cal_time c" "cal_evs c \<noteq> {#}"
  shows "\<exists>e. removeLoop (Suc (unat (m_nBuckets c))) c (m_lastBucket c) (m_bucketTop c) (- 1) noKey = Inr (e, taken c e)
    \<and> least_event c e"
proof -
  let ?P = "\<lambda>fuel i lm acc. \<exists>e. removeLoop fuel c i lm (minBucketOf c acc) (minKeyOf acc) = Inr (e, taken c e)
    \<and> least_event c e"
  have "?P (Suc (unat (m_nBuckets c))) (m_lastBucket c) (m_bucketTop c) None"
  proof (rule search_loop[OF c _ _ search_start(1-3)[OF c(1,2)] _ search_start(4)[OF c(1,2)]])
    fix fuel lm acc b e and i :: u32
    assume b: "bucketAt c (unat i) = Inr b" "b \<noteq> []" "e = bucketHead (m_reverse c) b" "ets e < lm"
      and e: "least_event c e" "unat i = slot c (ets e)" "lm = of_nat ((day c (ets e) + 1) * unat (m_width c))"
    have "removeLoop (Suc fuel) c i lm (minBucketOf c acc) (minKeyOf acc) =
        Inr (e, setBucket (unat i) (Pop (m_reverse c) b)
               (c\<lparr>m_lastBucket := i, m_lastPrio := ets e, m_bucketTop := lm\<rparr>))"
      using b(1,2,4) by (simp add: Let_def flip: b(3))
    moreover have "b = m_buckets c ! unat i" using b(1) by (simp add: bucketAt_def split: if_splits)
    then have "taken c e = setBucket (unat i) (Pop (m_reverse c) b)
        (c\<lparr>m_lastBucket := i, m_lastPrio := ets e, m_bucketTop := lm\<rparr>)"
      unfolding taken_def e(3) by (simp add: setBucket_def del: of_nat_mult of_nat_add flip: e(2))
    ultimately have "removeLoop (Suc fuel) c i lm (minBucketOf c acc) (minKeyOf acc) = Inr (e, taken c e)"
      by simp
    then show "?P (Suc fuel) i lm acc" using e(1) by blast
  next
    fix fuel lm acc b and i :: u32
    assume b: "bucketAt c (unat i) = Inr b" and i: "unat i < 32768"
      and h: "b \<noteq> [] \<Longrightarrow> \<not> ets (bucketHead (m_reverse c) b) < lm \<and> unat (ets (bucketHead (m_reverse c) b)) < 2 ^ 63
         \<and> slot c (ets (bucketHead (m_reverse c) b)) = unat i"
      and go: "if (i + 1) mod m_nBuckets c \<noteq> m_lastBucket c
         then ?P fuel ((i + 1) mod m_nBuckets c) (lm + m_width c) (step_acc c b acc)
         else \<exists>e. step_acc c b acc = Some e \<and> least_event c e"
    let ?e = "bucketHead (m_reverse c) b"
    have "sint i = int (unat i)" using i by (rule sint_u32)
    then have "minKeyOf (step_acc c b acc) =
        (if b \<noteq> [] \<and> key_less (key ?e) (minKeyOf acc) then key ?e else minKeyOf acc)"
      "minBucketOf c (step_acc c b acc) =
        (if b \<noteq> [] \<and> key_less (key ?e) (minKeyOf acc) then sint i else minBucketOf c acc)"
      using h smaller_noKey(1,2)[of ?e acc]
      by (auto simp: step_acc_def minKeyOf_def minBucketOf_def split: option.splits)
    moreover have "\<exists>e. removeMin c (minBucketOf c (step_acc c b acc)) (minKeyOf (step_acc c b acc)) = Inr (e, taken c e)
        \<and> least_event c e" if "step_acc c b acc = Some e" "least_event c e" for e
      using removeMin_ok[OF c(1) that(2)] that by (auto simp: minKeyOf_def minBucketOf_def)
    ultimately show "?P (Suc fuel) i lm acc" using b h go by (auto simp: Let_def split: if_splits)
  qed simp
  then show ?thesis by (simp only: minKeyOf_def minBucketOf_def option.case)
qed

subsection \<open>Operations keep the invariant\<close>

lemma calendar_upd [simp]:
  "cal_shape (c\<lparr>m_lastPrio := p\<rparr>) = cal_shape c" "cal_shape (c\<lparr>m_lastBucket := i\<rparr>) = cal_shape c"
  "cal_shape (c\<lparr>m_bucketTop := t\<rparr>) = cal_shape c" "cal_shape (c\<lparr>m_qSize := q\<rparr>) = cal_shape c"
  "cal_evs (c\<lparr>m_lastPrio := p\<rparr>) = cal_evs c" "cal_evs (c\<lparr>m_lastBucket := i\<rparr>) = cal_evs c"
  "cal_evs (c\<lparr>m_bucketTop := t\<rparr>) = cal_evs c" "cal_evs (c\<lparr>m_qSize := q\<rparr>) = cal_evs c"
  "cal_time (c\<lparr>m_qSize := q\<rparr>) = cal_time c"
  by (simp_all add: cal_shape_def cal_size_def cal_evs_def cal_time_def)

lemma setBucket_fields [simp]:
  "m_nBuckets (setBucket i b c) = m_nBuckets c" "m_width (setBucket i b c) = m_width c"
  "m_lastBucket (setBucket i b c) = m_lastBucket c" "m_bucketTop (setBucket i b c) = m_bucketTop c"
  "m_lastPrio (setBucket i b c) = m_lastPrio c" "m_qSize (setBucket i b c) = m_qSize c"
  "m_reverse (setBucket i b c) = m_reverse c"
  "slot (setBucket i b c) = slot c" "day (setBucket i b c) = day c"
  by (simp_all add: setBucket_def)

lemma setBucket_shape:
  assumes "cal_shape c" "bucket_sorted (m_reverse c) b" "\<And>x. x \<in> set b \<Longrightarrow> slot c (ets x) = i \<and> unat (ets x) < 2 ^ 63"
  shows "cal_shape (setBucket i b c)"
proof -
  have z: "cal_size c" using assms(1) by (simp add: cal_shape_def)
  have nth: "m_buckets (setBucket i b c) ! j = (if j = i then b else m_buckets c ! j)"
    if "j < unat (m_nBuckets c)" for j
    using that cal_size_bounds(4)[OF z] by (simp add: setBucket_def)
  have "cal_size (setBucket i b c)" using z by (simp add: cal_size_def setBucket_def)
  then show ?thesis using shape_bucket[OF assms(1)] assms(2,3) by (auto simp: cal_shape_def nth)
qed

lemma setBucket_evs:
  assumes "cal_shape c" "i < unat (m_nBuckets c)"
  shows "cal_evs (setBucket i b c) + mset (m_buckets c ! i) = cal_evs c + mset b"
  using assms mset_concat_update[of i "m_buckets c" b] cal_size_bounds(4)[of c]
  by (simp add: cal_shape_def cal_evs_def setBucket_def)

lemma DoInsert_ok:
  assumes c: "cal_shape c" and e: "unat (ets ev) < 2 ^ 63"
  shows "\<exists>bs. DoInsert ev c = Inr (c\<lparr>m_buckets := bs\<rparr>) \<and> cal_shape (c\<lparr>m_buckets := bs\<rparr>)
    \<and> cal_evs (c\<lparr>m_buckets := bs\<rparr>) = add_mset ev (cal_evs c)"
proof -
  have z: "cal_size c" using c by (simp add: cal_shape_def)
  obtain b where b: "Hash c (ets ev) = Inr b" "unat b = slot c (ets ev)" using Hash_slot[OF z] by blast
  let ?i = "slot c (ets ev)"
  let ?b = "insertOrdered (m_reverse c) ev (m_buckets c ! ?i)"
  have i: "?i < unat (m_nBuckets c)" by (rule slot_less[OF z])
  note bk = shape_bucket[OF c i]
  have "DoInsert ev c = Inr (setBucket ?i ?b c)"
    using b i cal_size_bounds(4)[OF z] by (simp add: DoInsert_def bucketAt_def)
  moreover have "cal_shape (setBucket ?i ?b c)"
    using bk e by (intro setBucket_shape[OF c sorted_insertOrdered]) auto
  moreover have "cal_evs (setBucket ?i ?b c) = add_mset ev (cal_evs c)"
    using setBucket_evs[OF c i, of ?b] by simp
  ultimately show ?thesis unfolding setBucket_def by blast
qed

lemma insertAll_calendar:
  assumes "cal_shape c" "\<And>e. e \<in> set es \<Longrightarrow> unat (ets e) < 2 ^ 63"
  shows "\<exists>bs. loopr DoInsert es c = Inr (c\<lparr>m_buckets := bs\<rparr>) \<and> cal_shape (c\<lparr>m_buckets := bs\<rparr>)
    \<and> cal_evs (c\<lparr>m_buckets := bs\<rparr>) = mset es + cal_evs c"
  using assms
proof (induction es arbitrary: c)
  case Nil
  then show ?case by (intro exI[of _ "m_buckets c"]) simp
next
  case (Cons e es)
  obtain b1 where b1: "DoInsert e c = Inr (c\<lparr>m_buckets := b1\<rparr>)" "cal_shape (c\<lparr>m_buckets := b1\<rparr>)"
    "cal_evs (c\<lparr>m_buckets := b1\<rparr>) = add_mset e (cal_evs c)"
    using DoInsert_ok[OF Cons.prems(1)] Cons.prems(2)[of e] by auto
  from Cons.IH[OF b1(2)] Cons.prems(2) show ?case using b1 by auto
qed

lemma least_time: "least_event c e \<Longrightarrow> x \<in># cal_evs c \<Longrightarrow> ets e \<le> ets x"
  by (fastforce simp: least_event_def rank_def)

lemma cal_evs_early: "cal_shape c \<Longrightarrow> e \<in># cal_evs c \<Longrightarrow> unat (ets e) < 2 ^ 63"
  using cal_size_bounds(4)[of c] by (auto simp: cal_shape_def cal_evs_iff)

lemma taken_ok:
  assumes c: "cal_shape c" "cal_time c" and e: "least_event c e"
  shows "cal_shape (taken c e)" "cal_time (taken c e)" "cal_evs c = add_mset e (cal_evs (taken c e))"
    "m_lastPrio (taken c e) = ets e" "m_qSize (taken c e) = m_qSize c"
    "m_nBuckets (taken c e) = m_nBuckets c" "m_width (taken c e) = m_width c" "m_reverse (taken c e) = m_reverse c"
proof -
  have z: "cal_size c" using c(1) by (simp add: cal_shape_def)
  let ?i = "slot c (ets e)"
  let ?c = "c\<lparr>m_lastPrio := ets e, m_lastBucket := of_nat ?i, m_bucketTop := of_nat ((day c (ets e) + 1) * unat (m_width c))\<rparr>"
  have i: "?i < unat (m_nBuckets c)" by (rule slot_less[OF z])
  note bk = shape_bucket[OF c(1) i]
  have b: "m_buckets c ! ?i \<noteq> []" "e = bucketHead (m_reverse c) (m_buckets c ! ?i)" "e \<in># cal_evs c"
    using e by (auto simp: least_event_def)
  have shape: "cal_shape ?c" using c(1) by simp
  show t: "cal_shape (taken c e)" unfolding taken_def
    using bk set_Pop[of "m_reverse c" "m_buckets c ! ?i"]
    by (intro setBucket_shape[OF shape]) (auto intro: sorted_Pop)
  show ev: "cal_evs c = add_mset e (cal_evs (taken c e))"
    using setBucket_evs[OF shape, of ?i "Pop (m_reverse c) (m_buckets c ! ?i)"] i mset_Pop[OF b(1), of "m_reverse c"]
    by (simp add: taken_def flip: b(2))
  have "unat (of_nat ?i :: u32) = ?i"
    using i cal_size_bounds(3)[OF z] by (simp add: unsigned_of_nat take_bit_nat_eq_self)
  moreover have "ets e \<le> ets x" if "x \<in># cal_evs (taken c e)" for x
    using least_time[OF e] ev that by simp
  ultimately show "cal_time (taken c e)"
    using cal_evs_early[OF c(1) b(3)] unfolding cal_time_def by (simp add: taken_def del: of_nat_mult of_nat_add)
qed (simp_all add: taken_def)

lemma DoRemoveNext_ok:
  assumes "cal_shape c" "cal_time c" "cal_evs c \<noteq> {#}" "m_qSize c \<noteq> 0"
  obtains e where "DoRemoveNext c = Inr (e, taken c e)" "least_event c e"
  using removeLoop_ok[OF assms(1-3)] assms(4)
  by (auto simp: DoRemoveNext_def CalendarScheduler_IsEmpty_def simp del: removeLoop.simps)

text \<open>Taking samples, putting them back and restoring the search position changes nothing.\<close>

lemma gather_ok:
  assumes "cal_shape c" "cal_time c" "n \<le> size (cal_evs c)" "m_qSize c \<noteq> 0"
  shows "\<exists>es c'. gather n c = Inr (es, c') \<and> cal_shape c' \<and> cal_evs c = mset es + cal_evs c'
    \<and> m_qSize c' = m_qSize c \<and> m_nBuckets c' = m_nBuckets c \<and> m_width c' = m_width c \<and> m_reverse c' = m_reverse c"
  using assms
proof (induction n arbitrary: c)
  case (Suc n)
  have "cal_evs c \<noteq> {#}" using Suc.prems(3) by auto
  from Suc.prems(1,2) this Suc.prems(4) obtain e where
    e: "DoRemoveNext c = Inr (e, taken c e)" "least_event c e" by (rule DoRemoveNext_ok)
  note t = taken_ok[OF Suc.prems(1,2) e(2)]
  have "n \<le> size (cal_evs (taken c e))" using Suc.prems(3) t(3) by simp
  from Suc.IH[OF t(1,2) this] obtain es c' where
    "gather n (taken c e) = Inr (es, c')" "cal_shape c'" "cal_evs (taken c e) = mset es + cal_evs c'"
    "m_qSize c' = m_qSize c" "m_nBuckets c' = m_nBuckets c" "m_width c' = m_width c" "m_reverse c' = m_reverse c"
    using Suc.prems(4) t by auto
  then show ?case using e(1) t(3) by auto
qed simp

lemma sampleCount_bounds:
  assumes "2 \<le> unat q"
  shows "unat (sampleCount q) \<le> unat q"
proof -
  have "unat (5 + q div 10) = 5 + unat q div 10"
    using unsigned_less[of q, where ?'a = nat] by (simp add: unat_word_ariths unat_div_distrib)
  moreover have "unat (5 :: u32) = 5" "unat (25 :: u32) = 25" by simp_all
  ultimately show ?thesis
    by (auto simp: sampleCount_def Let_def word_le_nat_alt word_less_nat_alt)
qed

definition restored :: "calendar \<Rightarrow> calendar \<Rightarrow> bool" where
  "restored c c' \<longleftrightarrow> cal_shape c' \<and> cal_time c' \<and> cal_evs c' = cal_evs c \<and> m_lastPrio c' = m_lastPrio c
     \<and> m_qSize c' = m_qSize c \<and> m_nBuckets c' = m_nBuckets c \<and> m_reverse c' = m_reverse c"

lemma CalculateNewWidth_ok:
  assumes c: "cal_shape c" "cal_time c" and q: "unat (m_qSize c) = size (cal_evs c)"
  shows "\<exists>w c'. CalculateNewWidth c = Inr (w, c') \<and> w \<noteq> 0 \<and> restored c c'"
proof (cases "m_qSize c < 2")
  case True
  then show ?thesis using c by (simp add: CalculateNewWidth_def restored_def)
next
  case False
  let ?n = "sampleCount (m_qSize c)"
  have "2 \<le> unat (m_qSize c)" using False by (simp add: word_less_nat_alt)
  then have n: "unat ?n \<le> size (cal_evs c)" "m_qSize c \<noteq> 0" using sampleCount_bounds[of "m_qSize c"] q by auto
  from gather_ok[OF c n] obtain es c1 where g: "gather (unat ?n) c = Inr (es, c1)" "cal_shape c1"
    "cal_evs c = mset es + cal_evs c1" "m_qSize c1 = m_qSize c" "m_nBuckets c1 = m_nBuckets c"
    "m_width c1 = m_width c" "m_reverse c1 = m_reverse c" by blast
  have "unat (ets e) < 2 ^ 63" if "e \<in> set es" for e
    using cal_evs_early[OF c(1), of e] g(3) that by simp
  from insertAll_calendar[OF g(2) this] obtain bs where i: "loopr DoInsert es c1 = Inr (c1\<lparr>m_buckets := bs\<rparr>)"
    "cal_shape (c1\<lparr>m_buckets := bs\<rparr>)" "cal_evs (c1\<lparr>m_buckets := bs\<rparr>) = cal_evs c"
    using g(3) by auto
  let ?c = "c1\<lparr>m_buckets := bs, m_lastBucket := m_lastBucket c, m_bucketTop := m_bucketTop c, m_lastPrio := m_lastPrio c\<rparr>"
  have "CalculateNewWidth c = Inr (max (closeSeparation (separation es div ucast (?n - 1) * 2) es * 3) 1, ?c)"
    using False g(1) i(1) by (simp add: CalculateNewWidth_def Let_def)
  moreover have "max x 1 \<noteq> 0" for x :: u64 by (auto simp: max_def)
  moreover have "cal_time ?c"
    using c(2) g(5,6) i(3) by (simp add: cal_time_def slot_def day_def)
  then have "restored c ?c" using g i by (simp add: restored_def)
  ultimately show ?thesis by blast
qed

lemma Init_ok:
  assumes "unat n = 2 ^ j" "j \<le> 15" "w \<noteq> 0"
  shows "\<exists>c'. Init n w p c = Inr c' \<and> cal_shape c' \<and> cal_evs c' = {#} \<and> m_lastPrio c' = p
    \<and> unat (m_lastBucket c') = slot c' p \<and> m_bucketTop c' = of_nat ((day c' p + 1) * unat (m_width c'))
    \<and> m_qSize c' = m_qSize c \<and> m_nBuckets c' = n \<and> m_reverse c' = m_reverse c"
proof -
  let ?c = "c\<lparr>m_buckets := replicate (unat n) [], m_nBuckets := n, m_width := w, m_lastPrio := p\<rparr>"
  have z: "cal_size ?c" using assms by (auto simp: cal_size_def)
  obtain b where b: "Hash ?c p = Inr b" "unat b = slot ?c p" using Hash_slot[OF z] by blast
  let ?c' = "?c\<lparr>m_lastBucket := b, m_bucketTop := (p div w + 1) * w\<rparr>"
  have "Init n w p c = Inr ?c'" using b(1) by (simp add: Init_def)
  moreover have "cal_shape ?c'" using z by (simp add: cal_shape_def cal_size_def)
  moreover have "concat (replicate m []) = []" for m by (induction m) auto
  then have "cal_evs ?c' = {#}" by (simp add: cal_evs_def)
  moreover have "(p div w + 1) * w = of_nat ((day ?c' p + 1) * unat w)"
    using top_of_nat[of p ?c'] by (simp del: of_nat_mult of_nat_add)
  ultimately show ?thesis using b(2) by (intro exI[of _ ?c']) (simp del: of_nat_mult of_nat_add)
qed

lemma DoResize_ok:
  assumes c: "cal_shape c" "cal_time c" and n: "unat n = 2 ^ j" "j \<le> 15" and w: "w \<noteq> 0"
  shows "\<exists>c'. DoResize n w c = Inr c' \<and> cal_shape c' \<and> cal_time c' \<and> cal_evs c' = cal_evs c
    \<and> m_lastPrio c' = m_lastPrio c \<and> m_qSize c' = m_qSize c \<and> m_reverse c' = m_reverse c"
proof -
  obtain c1 where i: "Init n w (m_lastPrio c) c = Inr c1" "cal_shape c1" "cal_evs c1 = {#}"
    "m_lastPrio c1 = m_lastPrio c" "unat (m_lastBucket c1) = slot c1 (m_lastPrio c)"
    "m_bucketTop c1 = of_nat ((day c1 (m_lastPrio c) + 1) * unat (m_width c1))"
    "m_qSize c1 = m_qSize c" "m_reverse c1 = m_reverse c"
    using Init_ok[OF n w, of "m_lastPrio c" c] by blast
  have "unat (ets e) < 2 ^ 63" if "e \<in> set (concat (m_buckets c))" for e
    using cal_evs_early[OF c(1), of e] that by (simp add: cal_evs_def)
  from insertAll_calendar[OF i(2), of "concat (m_buckets c)", OF this] obtain bs where
    b: "loopr DoInsert (concat (m_buckets c)) c1 = Inr (c1\<lparr>m_buckets := bs\<rparr>)" "cal_shape (c1\<lparr>m_buckets := bs\<rparr>)"
      "cal_evs (c1\<lparr>m_buckets := bs\<rparr>) = cal_evs c"
    by (auto simp: i(3) cal_evs_def[of c])
  moreover have "cal_time (c1\<lparr>m_buckets := bs\<rparr>)"
    using c(2) i(4-6) b(3) by (simp add: cal_time_def del: of_nat_mult of_nat_add)
  ultimately show ?thesis using i by (auto simp: DoResize_def loopr_concat)
qed

lemma Resize_ok:
  assumes "cal_shape c" "cal_time c" "unat (m_qSize c) = size (cal_evs c)" and "unat n = 2 ^ j" "j \<le> 15"
  shows "\<exists>c'. Resize n c = Inr c' \<and> cal_shape c' \<and> cal_time c' \<and> cal_evs c' = cal_evs c
    \<and> m_lastPrio c' = m_lastPrio c \<and> m_qSize c' = m_qSize c \<and> m_reverse c' = m_reverse c"
proof -
  obtain w c1 where w: "CalculateNewWidth c = Inr (w, c1)" "w \<noteq> 0" "restored c c1"
    using CalculateNewWidth_ok[OF assms(1-3)] by blast
  then show ?thesis
    using DoResize_ok[OF _ _ assms(4,5) w(2), of c1] by (auto simp: Resize_def restored_def)
qed

text \<open>The whole invariant at time \<open>t\<close>.\<close>

definition cal_inv :: "u64 \<Rightarrow> calendar \<Rightarrow> bool" where
  "cal_inv t c \<longleftrightarrow> cal_shape c \<and> cal_time c \<and> m_lastPrio c \<le> t
     \<and> unat (m_qSize c) = size (cal_evs c) \<and> uids_distinct (cal_evs c)"

lemma ResizeUp_ok:
  assumes "cal_inv t c"
  shows "\<exists>c'. ResizeUp c = Inr c' \<and> cal_inv t c' \<and> cal_evs c' = cal_evs c"
proof (cases "m_qSize c > m_nBuckets c * 2 \<and> m_nBuckets c < 32768")
  case True
  have c: "cal_shape c" "cal_time c" "unat (m_qSize c) = size (cal_evs c)" "cal_size c"
    using assms by (auto simp: cal_inv_def cal_shape_def)
  then obtain j where j: "j \<le> 15" "unat (m_nBuckets c) = 2 ^ j" by (auto simp: cal_size_def)
  have lt: "unat (m_nBuckets c) < 32768" using True by (simp add: word_less_nat_alt)
  then have "unat (m_nBuckets c * 2) = 2 ^ Suc j" using j(2) by (simp add: unat_word_ariths)
  moreover have "(2::nat) ^ j < 2 ^ 15" using lt j(2) by simp
  then have "Suc j \<le> 15" using power_less_imp_less_exp[of "2 :: nat" j 15] by simp
  ultimately show ?thesis
    using Resize_ok[OF c(1-3)] assms True by (fastforce simp: ResizeUp_def cal_inv_def)
qed (use assms in \<open>auto simp: ResizeUp_def\<close>)

lemma ResizeDown_ok:
  assumes "cal_inv t c"
  shows "\<exists>c'. ResizeDown c = Inr c' \<and> cal_inv t c' \<and> cal_evs c' = cal_evs c"
proof (cases "m_qSize c < m_nBuckets c div 2")
  case True
  have c: "cal_shape c" "cal_time c" "unat (m_qSize c) = size (cal_evs c)" "cal_size c"
    using assms by (auto simp: cal_inv_def cal_shape_def)
  then obtain j where j: "j \<le> 15" "unat (m_nBuckets c) = 2 ^ j" by (auto simp: cal_size_def)
  have d: "unat (m_nBuckets c div 2) = 2 ^ j div 2" using j(2) by (simp add: unat_div_distrib)
  have "0 < unat (m_nBuckets c div 2)" using True by (simp add: word_less_nat_alt)
  then obtain i where i: "j = Suc i" unfolding d by (cases j) auto
  then have "unat (m_nBuckets c div 2) = 2 ^ i" "i \<le> 15" using d j(1) by simp_all
  then show ?thesis
    using Resize_ok[OF c(1-3)] assms True by (fastforce simp: ResizeDown_def cal_inv_def)
qed (use assms in \<open>auto simp: ResizeDown_def\<close>)

lemma cal_inv_qSize:
  assumes "cal_inv t c" "cal_evs c \<noteq> {#}"
  shows "m_qSize c \<noteq> 0" "unat (m_qSize c - 1) = unat (m_qSize c) - 1"
proof -
  have "unat (m_qSize c) \<noteq> 0" using assms by (simp add: cal_inv_def)
  then show q: "m_qSize c \<noteq> 0" by auto
  show "unat (m_qSize c - 1) = unat (m_qSize c) - 1" using q by (rule unat_minus_one)
qed

lemma calendar_Insert_ok:
  assumes c: "cal_inv t c" and fresh: "\<And>e. e \<in># cal_evs c \<Longrightarrow> euid ev \<noteq> euid e"
    and ts: "t \<le> ets ev" "unat (ets ev) < 2 ^ 63" and n: "Suc (size (cal_evs c)) < 2 ^ 32"
  shows "\<exists>c'. CalendarScheduler_Insert ev c = Inr c' \<and> cal_inv t c' \<and> cal_evs c' = add_mset ev (cal_evs c)"
proof -
  have i: "cal_shape c" "cal_time c" "m_lastPrio c \<le> t" "unat (m_qSize c) = size (cal_evs c)"
    using c by (simp_all add: cal_inv_def)
  obtain bs where b: "DoInsert ev c = Inr (c\<lparr>m_buckets := bs\<rparr>)" "cal_shape (c\<lparr>m_buckets := bs\<rparr>)"
    "cal_evs (c\<lparr>m_buckets := bs\<rparr>) = add_mset ev (cal_evs c)"
    using DoInsert_ok[OF i(1) ts(2)] by blast
  let ?c = "c\<lparr>m_buckets := bs, m_qSize := m_qSize c + 1\<rparr>"
  have "unat (m_qSize c + 1) = unat (m_qSize c) + 1" using i(4) n by (simp add: unat_word_ariths)
  moreover have "cal_time (c\<lparr>m_buckets := bs\<rparr>)"
    using i(2,3) ts(1) b(3) by (auto simp: cal_time_def simp del: of_nat_mult of_nat_add)
  ultimately have "cal_inv t ?c" using c b(2,3) i fresh by (simp add: cal_inv_def)
  from ResizeUp_ok[OF this] show ?thesis using b by (simp add: CalendarScheduler_Insert_def)
qed

lemma calendar_RemoveNext_ok:
  assumes c: "cal_inv t c" and ne: "cal_evs c \<noteq> {#}"
  shows "\<exists>e c'. CalendarScheduler_RemoveNext c = Inr (e, c') \<and> CalendarScheduler_PeekNext c = Inr e
    \<and> cal_inv (ets e) c' \<and> cal_evs c = add_mset e (cal_evs c') \<and> (\<forall>x\<in>#cal_evs c. erank e \<le> erank x)"
proof -
  have i: "cal_shape c" "cal_time c" "uids_distinct (cal_evs c)" "unat (m_qSize c) = size (cal_evs c)"
    using c by (simp_all add: cal_inv_def)
  note q = cal_inv_qSize[OF c ne]
  obtain e where e: "DoRemoveNext c = Inr (e, taken c e)" "least_event c e"
    using i(1,2) ne q(1) by (rule DoRemoveNext_ok)
  obtain p where p: "CalendarScheduler_PeekNext c = Inr p" "least_event c p"
    using peekLoop_ok[OF i(1,2) ne] q(1)
    by (auto simp: CalendarScheduler_PeekNext_def CalendarScheduler_IsEmpty_def simp del: peekLoop.simps)
  have "erank p = erank e" "p \<in># cal_evs c" "e \<in># cal_evs c"
    using e(2) p(2) by (auto simp: least_event_def intro: antisym)
  then have pe: "p = e" using uids_distinct_inj[OF i(3), of p e] rank_eqD by blast
  note t = taken_ok[OF i(1,2) e(2)]
  let ?c = "(taken c e)\<lparr>m_qSize := m_qSize (taken c e) - 1\<rparr>"
  have "cal_inv (ets e) ?c" using t i(3,4) q(2) by (simp add: cal_inv_def)
  from ResizeDown_ok[OF this] obtain c' where "ResizeDown ?c = Inr c'" "cal_inv (ets e) c'"
    "cal_evs c' = cal_evs (taken c e)" by auto
  then show ?thesis
    using e t(3) p(1) pe q(1) by (auto simp: CalendarScheduler_RemoveNext_def CalendarScheduler_IsEmpty_def least_event_def)
qed

lemma calendar_Remove_ok:
  assumes c: "cal_inv t c" and ev: "ev \<in># cal_evs c"
  shows "\<exists>c'. CalendarScheduler_Remove ev c = Inr c' \<and> cal_inv t c' \<and> cal_evs c = add_mset ev (cal_evs c')"
proof -
  have i: "cal_shape c" "cal_time c" "uids_distinct (cal_evs c)" "unat (m_qSize c) = size (cal_evs c)"
    "m_lastPrio c \<le> t" "cal_size c"
    using c by (simp_all add: cal_inv_def cal_shape_def)
  have "cal_evs c \<noteq> {#}" using ev by auto
  note q = cal_inv_qSize[OF c this]
  let ?i = "slot c (ets ev)"
  let ?b = "m_buckets c ! ?i"
  have s: "?i < unat (m_nBuckets c)" by (rule slot_less[OF i(6)])
  obtain b where b: "Hash c (ets ev) = Inr b" "unat b = ?i" using Hash_slot[OF i(6)] by blast
  have mem: "ev \<in> set ?b" using ev cal_evs_slot[OF i(1)] by simp
  have "uids_distinct (cal_evs (setBucket ?i [] c) + mset ?b)"
    using i(3) setBucket_evs[OF i(1) s, of "[]"] by simp
  then have "uids_distinct (mset ?b)" by (rule uids_distinct_part)
  then have er: "eraseUid ev ?b = Inr (remove1 ev ?b)" using mem by (rule eraseUid_remove1)
  let ?c = "setBucket ?i (remove1 ev ?b) c"
  note bk = shape_bucket[OF i(1) s]
  have sh: "cal_shape ?c"
    using bk set_remove1_subset[of ev ?b] by (intro setBucket_shape[OF i(1) sorted_wrt_remove1]) auto
  obtain X where X: "mset ?b = add_mset ev X" using mem by (metis mset_add set_mset_mset)
  then have "mset (remove1 ev ?b) = X" by simp
  then have evs: "cal_evs c = add_mset ev (cal_evs ?c)"
    using setBucket_evs[OF i(1) s, of "remove1 ev ?b"] X by simp
  have "cal_time ?c" using i(2) evs by (simp add: cal_time_def del: of_nat_mult of_nat_add)
  then have "cal_inv t (?c\<lparr>m_qSize := m_qSize ?c - 1\<rparr>)" using sh evs i q(2) by (simp add: cal_inv_def)
  from ResizeDown_ok[OF this] show ?thesis
    using b er q(1) s cal_size_bounds(4)[OF i(6)] evs
    by (auto simp: CalendarScheduler_Remove_def CalendarScheduler_IsEmpty_def bucketAt_def Let_def)
qed

text \<open>
  The constructor gives an empty calendar whatever the members held before, and
  \<^verbatim>\<open>SetReverse\<close> sets the direction.
\<close>

definition calendar_start :: "bool \<Rightarrow> calendar" where
  "calendar_start reverse = \<lparr>m_buckets = [[], []], m_nBuckets = 2, m_width = 1, m_lastBucket = 0, m_bucketTop = 1,
     m_lastPrio = 0, m_qSize = 0, m_reverse = reverse\<rparr>"

lemma CalendarScheduler_new_start:
  "\<exists>c'. CalendarScheduler_new c = Inr c' \<and> SetReverse reverse c' = calendar_start reverse"
proof -
  have "replicate 2 ([] :: Bucket) = [[], []]" by (simp add: numeral_2_eq_2)
  then show ?thesis
    by (simp add: CalendarScheduler_new_def Init_def Hash_def SetReverse_def calendar_start_def)
qed

lemma calendar_start_inv: "cal_inv 0 (calendar_start r)"
proof -
  have "\<exists>j\<le>15. (2::nat) = 2 ^ j" by (intro exI[of _ 1]) simp
  then have "cal_size (calendar_start r)" by (simp add: cal_size_def calendar_start_def)
  moreover have "([[], []] :: Bucket list) ! i = []" if "i < 2" for i using that by (cases i) auto
  ultimately have "cal_shape (calendar_start r)" by (simp add: cal_shape_def calendar_start_def)
  moreover have "cal_time (calendar_start r)"
    by (simp add: cal_time_def calendar_start_def slot_def day_def cal_evs_def)
  ultimately show ?thesis by (simp add: cal_inv_def) (simp add: calendar_start_def cal_evs_def)
qed

interpretation cs: timed_queue_remove CalendarScheduler cal_inv cal_evs "calendar_start reverse" for reverse
proof unfold_locales
  show "cal_inv 0 (calendar_start reverse)" by (rule calendar_start_inv)
  show "cal_evs (calendar_start reverse) = {#}" by (simp add: calendar_start_def cal_evs_def)
next
  fix t c ev
  assume "cal_inv t c" "\<And>e. e \<in># cal_evs c \<Longrightarrow> euid ev \<noteq> euid e" "t \<le> ets ev" "unat (ets ev) < 2 ^ 63"
    "Suc (size (cal_evs c)) < 2 ^ 32"
  then show "\<exists>c'. Insert CalendarScheduler ev c = Inr c' \<and> cal_inv t c' \<and> cal_evs c' = add_mset ev (cal_evs c)"
    using calendar_Insert_ok by (simp add: CalendarScheduler_def)
next
  fix t c
  assume "cal_inv t c"
  then show "IsEmpty CalendarScheduler c \<longleftrightarrow> cal_evs c = {#}"
    by (auto simp: CalendarScheduler_def CalendarScheduler_IsEmpty_def cal_inv_def unat_eq_zero)
next
  fix t c
  assume "cal_inv t c" "cal_evs c \<noteq> {#}"
  then show "\<exists>e c'. RemoveNext CalendarScheduler c = Inr (e, c') \<and> PeekNext CalendarScheduler c = Inr e
      \<and> cal_inv (ets e) c' \<and> cal_evs c = add_mset e (cal_evs c') \<and> (\<forall>x\<in>#cal_evs c. erank e \<le> erank x)"
    using calendar_RemoveNext_ok by (simp add: CalendarScheduler_def)
next
  fix t c ev
  assume "cal_inv t c" "ev \<in># cal_evs c"
  then show "\<exists>c'. Remove CalendarScheduler ev c = Inr c' \<and> cal_inv t c' \<and> cal_evs c = add_mset ev (cal_evs c')"
    using calendar_Remove_ok by (simp add: CalendarScheduler_def)
qed

end
