(* ===== verification/Scheduler_Equivalence.thy ===== *)
theory Scheduler_Equivalence
  imports Heap_Scheduler Priority_Scheduler Calendar_Scheduler
begin

text \<open>
  The five schedulers side by side: all of them answer every program of scheduler calls as the
  ordered list does, as long as the program keeps to the clock.  The limits of that statement:
  the heap scheduler without \<^verbatim>\<open>Remove\<close> only, and two inputs outside of the rules on which the
  calendar goes wrong.
\<close>

definition eventAt :: "u64 \<Rightarrow> u32 \<Rightarrow> Event" where
  "eventAt t u = \<lparr>impl = Some 0, key = \<lparr>m_ts = t, m_uid = u, m_context = 0\<rparr>\<rparr>"

definition exampleProgram :: "qop list" where
  "exampleProgram = [OpInsert (eventAt 30 1), OpInsert (eventAt 10 2), OpPeekNext, OpRemoveNext,
     OpInsert (eventAt 20 3), OpInsert (eventAt 20 4), OpRemove (eventAt 20 3), OpRemoveNext, OpIsEmpty]"

text \<open>
  C19.  The schedulers are interchangeable: for every program of \<^verbatim>\<open>Insert\<close>, \<^verbatim>\<open>IsEmpty\<close>,
  \<^verbatim>\<open>PeekNext\<close>, \<^verbatim>\<open>RemoveNext\<close> and \<^verbatim>\<open>Remove\<close> calls that inserts no event before the time of the last
  event removed, the list, the map, the priority-queue and the calendar scheduler (in either
  direction of its buckets, through all its changes of bucket number and width) give
  the answers of a list of events in order of time stamp and unique id, and never fail.  So does the
  heap scheduler when the program removes no event by its id.
\<close>

theorem schedulers_agree:
  assumes "timely 0 cs []"
  shows "answers ListScheduler cs [] = Inr (reference cs [])
    \<and> answers MapScheduler cs [] = Inr (reference cs [])
    \<and> answers PriorityQueueScheduler cs [] = Inr (reference cs [])
    \<and> answers CalendarScheduler cs (calendar_start reverse) = Inr (reference cs [])
    \<and> (\<not> removes cs \<longrightarrow> answers HeapScheduler cs HeapScheduler_init = Inr (reference cs []))"
  using ls.timed.program_reference_remove[OF assms] ms.timed.program_reference_remove[OF assms]
    pqs.timed.program_reference_remove[OF assms] cs.program_reference_remove[OF assms]
    hs.timed.program_reference[OF assms] by simp

theorem schedulers_agree_witness:
  "answers CalendarScheduler exampleProgram (calendar_start True) =
     Inr [AnsEvent (eventAt 10 2), AnsEvent (eventAt 10 2), AnsEvent (eventAt 20 4), AnsBool False]"
proof -
  have "timely 0 exampleProgram []"
    by (simp add: exampleProgram_def eventAt_def rank_def)
  moreover have "reference exampleProgram [] =
      [AnsEvent (eventAt 10 2), AnsEvent (eventAt 10 2), AnsEvent (eventAt 20 4), AnsBool False]"
    by (simp add: exampleProgram_def eventAt_def rank_def)
  ultimately show ?thesis using schedulers_agree[of exampleProgram True] by simp
qed

text \<open>
  An event at the last representable time is found by \<^verbatim>\<open>PeekNext\<close> of the calendar but not by
  \<^verbatim>\<open>RemoveNext\<close>, whose smallest key starts at that time with unique id 0: it takes bucket \<open>- 1\<close>.
\<close>

lemma calendar_last_time:
  "answers CalendarScheduler [OpInsert (eventAt (- 1) 7), OpPeekNext] (calendar_start False) =
     Inr [AnsEvent (eventAt (- 1) 7)]"
  "answers CalendarScheduler [OpInsert (eventAt (- 1) 7), OpRemoveNext] (calendar_start False) = Inl OutOfBounds"
  by code_simp+

text \<open>
  The calendar relies on the clock: an event that is inserted before the time of the last event
  removed can be overtaken by a later one.
\<close>

lemma calendar_past_overtaken:
  "answers CalendarScheduler [OpInsert (eventAt 10 1), OpInsert (eventAt 10 2), OpRemoveNext,
     OpInsert (eventAt 5 3), OpRemoveNext] (calendar_start False) =
     Inr [AnsEvent (eventAt 10 1), AnsEvent (eventAt 10 2)]"
  by code_simp

end
