(* ===== verification/Simulator.thy ===== *)
theory Simulator
  imports Scheduler_Equivalence
begin

text \<open>
  The event loop (core/model/default-simulator-impl.cc, event-id.cc and event-impl.cc).  The state is
  a record over the state \<open>'q\<close> of whichever scheduler is installed; the scheduler's operations
  are the argument \<open>S\<close> of the functions that call them (the virtual interface of
  \<open>Event_Scheduler\<close>).  The code an event runs is the argument \<open>notify\<close>: a function on the
  simulated world and the simulator state.  \<open>cancelled\<close> holds the flag \<^verbatim>\<open>m_cancel\<close> of every
  event object.  Times are signed 64-bit numbers; an addition that leaves their range is
  \<open>SignedOverflow\<close>; the \<^verbatim>\<open>int\<close> \<^verbatim>\<open>m_unscheduledEvents\<close>, which is only
  incremented, decremented and compared with 0, is kept as its 32 bits.  The loops of \<^verbatim>\<open>Run\<close> and \<^verbatim>\<open>Destroy\<close> get a bound on their iterations,
  since event code may schedule new events forever.

  The lemmas are proved once for every scheduler that fulfils the contract, in the locale
  \<open>timed_queue_remove\<close>: an invariant that links queue, clock, unique ids and the ids handed out;
  every call of the interface keeps it; the clock assertion of \<^verbatim>\<open>ProcessOneEvent\<close> and the
  consistency assertion of \<^verbatim>\<open>Run\<close> never fail; an id is expired exactly when its event is no
  longer pending.
\<close>

subsection \<open>Event ids and the state\<close>

record EventId =
  m_eventImpl :: "nat option"
  i_ts :: u64
  i_context :: u32
  i_uid :: u32

definition UID_INVALID :: u32 where "UID_INVALID = 0"
definition UID_DESTROY :: u32 where "UID_DESTROY = 2"
definition UID_VALID :: u32 where "UID_VALID = 4"

definition eventId_eq :: "EventId \<Rightarrow> EventId \<Rightarrow> bool" where
  "eventId_eq a b \<longleftrightarrow> i_uid a = i_uid b \<and> i_context a = i_context b \<and> i_ts a = i_ts b
     \<and> m_eventImpl a = m_eventImpl b"

definition eventId_less :: "EventId \<Rightarrow> EventId \<Rightarrow> bool" where
  "eventId_less a b \<longleftrightarrow> i_ts a < i_ts b"

record EventWithContext =
  ewc_context :: u32
  ewc_timestamp :: u64
  ewc_event :: "nat option"

record 'q sim =
  m_eventsWithContext :: "EventWithContext list"
  m_eventsWithContextEmpty :: bool
  m_destroyEvents :: "EventId list"
  m_stop :: bool
  m_events :: 'q
  sim_uid :: u32
  m_currentUid :: u32
  m_currentTs :: u64
  m_currentContext :: u32
  m_eventCount :: u64
  m_unscheduledEvents :: u32
  cancelled :: "nat \<Rightarrow> bool"

definition DefaultSimulatorImpl :: "'q \<Rightarrow> 'q sim" where
  "DefaultSimulatorImpl q = \<lparr>m_eventsWithContext = [], m_eventsWithContextEmpty = True,
     m_destroyEvents = [], m_stop = False, m_events = q, sim_uid = UID_VALID,
     m_currentUid = UID_INVALID, m_currentTs = 0, m_currentContext = 0xffffffff,
     m_eventCount = 0, m_unscheduledEvents = 0, cancelled = (\<lambda>_. False)\<rparr>"

subsection \<open>Scheduling\<close>

definition now_plus :: "int \<Rightarrow> 'q sim \<Rightarrow> u64 res" where
  "now_plus delay s =
     (let t = delay + sint (m_currentTs s) in
      if - (2 ^ 63) \<le> t \<and> t < 2 ^ 63 then Inr (word_of_int t) else Inl SignedOverflow)"

definition insertEvent :: "'q Scheduler \<Rightarrow> nat option \<Rightarrow> u64 \<Rightarrow> u32 \<Rightarrow> 'q sim \<Rightarrow> ('q sim \<times> EventId) res" where
  "insertEvent S ev ts ctx s =
     (let uid = sim_uid s in
      bindr (Insert S \<lparr>impl = ev, key = \<lparr>m_ts = ts, m_uid = uid, m_context = ctx\<rparr>\<rparr> (m_events s)) (\<lambda>q.
      Inr (s\<lparr>sim_uid := uid + 1, m_unscheduledEvents := m_unscheduledEvents s + 1, m_events := q\<rparr>,
           \<lparr>m_eventImpl = ev, i_ts = ts, i_context = ctx, i_uid = uid\<rparr>)))"

definition Schedule :: "'q Scheduler \<Rightarrow> int \<Rightarrow> nat option \<Rightarrow> 'q sim \<Rightarrow> ('q sim \<times> EventId) res" where
  "Schedule S delay ev s =
     (if delay < 0 then Inl Assert
      else bindr (now_plus delay s) (\<lambda>ts. insertEvent S ev ts (m_currentContext s) s))"

definition ScheduleNow :: "'q Scheduler \<Rightarrow> nat option \<Rightarrow> 'q sim \<Rightarrow> ('q sim \<times> EventId) res" where
  "ScheduleNow S ev s = Schedule S 0 ev s"

text \<open>The first argument tells whether the caller is the main thread.\<close>

definition ScheduleWithContext ::
    "'q Scheduler \<Rightarrow> bool \<Rightarrow> u32 \<Rightarrow> int \<Rightarrow> nat option \<Rightarrow> 'q sim \<Rightarrow> 'q sim res" where
  "ScheduleWithContext S main ctx delay ev s =
     (if main then
        bindr (now_plus delay s) (\<lambda>ts. bindr (insertEvent S ev ts ctx s) (\<lambda>(s, _). Inr s))
      else
        Inr (s\<lparr>m_eventsWithContext := m_eventsWithContext s @
                 [\<lparr>ewc_context = ctx, ewc_timestamp = word_of_int delay, ewc_event = ev\<rparr>],
               m_eventsWithContextEmpty := False\<rparr>))"

definition ScheduleDestroy :: "nat option \<Rightarrow> 'q sim \<Rightarrow> 'q sim \<times> EventId" where
  "ScheduleDestroy ev s =
     (let i = \<lparr>m_eventImpl = ev, i_ts = m_currentTs s, i_context = 0xffffffff, i_uid = UID_DESTROY\<rparr>
      in (s\<lparr>m_destroyEvents := m_destroyEvents s @ [i], sim_uid := sim_uid s + 1\<rparr>, i))"

definition ProcessEventsWithContext :: "'q Scheduler \<Rightarrow> 'q sim \<Rightarrow> 'q sim res" where
  "ProcessEventsWithContext S s =
     (if m_eventsWithContextEmpty s then Inr s else
      loopr (\<lambda>e s. bindr (insertEvent S (ewc_event e) (m_currentTs s + ewc_timestamp e) (ewc_context e) s)
                     (\<lambda>(s, _). Inr s))
        (m_eventsWithContext s) (s\<lparr>m_eventsWithContext := [], m_eventsWithContextEmpty := True\<rparr>))"

subsection \<open>Queries, cancellation and removal\<close>

definition IsCancelled :: "nat option \<Rightarrow> 'q sim \<Rightarrow> bool" where
  "IsCancelled i s = (case i of None \<Rightarrow> False | Some n \<Rightarrow> cancelled s n)"

definition CancelImpl :: "nat option \<Rightarrow> 'q sim \<Rightarrow> 'q sim" where
  "CancelImpl i s = (case i of None \<Rightarrow> s | Some n \<Rightarrow> s\<lparr>cancelled := (cancelled s)(n := True)\<rparr>)"

definition IsExpired :: "EventId \<Rightarrow> 'q sim \<Rightarrow> bool" where
  "IsExpired i s =
     (if i_uid i = UID_DESTROY then
        (if m_eventImpl i = None \<or> IsCancelled (m_eventImpl i) s then True
         else \<not> list_ex (\<lambda>d. eventId_eq d i) (m_destroyEvents s))
      else m_eventImpl i = None \<or> i_ts i < m_currentTs s
        \<or> (i_ts i = m_currentTs s \<and> i_uid i \<le> m_currentUid s)
        \<or> IsCancelled (m_eventImpl i) s)"

definition Cancel :: "EventId \<Rightarrow> 'q sim \<Rightarrow> 'q sim" where
  "Cancel i s = (if \<not> IsExpired i s then CancelImpl (m_eventImpl i) s else s)"

fun eraseFirst :: "EventId \<Rightarrow> EventId list \<Rightarrow> EventId list" where
  "eraseFirst i [] = []"
| "eraseFirst i (d # ds) = (if eventId_eq d i then ds else d # eraseFirst i ds)"

definition eventOf :: "EventId \<Rightarrow> Event" where
  "eventOf i = \<lparr>impl = m_eventImpl i, key = \<lparr>m_ts = i_ts i, m_uid = i_uid i, m_context = i_context i\<rparr>\<rparr>"

definition RemoveEvent :: "'q Scheduler \<Rightarrow> EventId \<Rightarrow> 'q sim \<Rightarrow> 'q sim res" where
  "RemoveEvent S i s =
     (if i_uid i = UID_DESTROY then Inr (s\<lparr>m_destroyEvents := eraseFirst i (m_destroyEvents s)\<rparr>)
      else if IsExpired i s then Inr s
      else bindr (Remove S (eventOf i) (m_events s)) (\<lambda>q.
           let s = CancelImpl (m_eventImpl i) (s\<lparr>m_events := q\<rparr>) in
           Inr (s\<lparr>m_unscheduledEvents := m_unscheduledEvents s - 1\<rparr>)))"

definition GetDelayLeft :: "EventId \<Rightarrow> 'q sim \<Rightarrow> int" where
  "GetDelayLeft i s = (if IsExpired i s then 0 else sint (i_ts i - m_currentTs s))"

definition Stop :: "'q sim \<Rightarrow> 'q sim" where
  "Stop s = s\<lparr>m_stop := True\<rparr>"

definition IsFinished :: "'q Scheduler \<Rightarrow> 'q sim \<Rightarrow> bool" where
  "IsFinished S s \<longleftrightarrow> IsEmpty S (m_events s) \<or> m_stop s"

subsection \<open>The event loop\<close>

type_synonym ('w, 'q) handler = "nat \<Rightarrow> 'w \<Rightarrow> 'q sim \<Rightarrow> ('w \<times> 'q sim) res"

definition Invoke :: "('w, 'q) handler \<Rightarrow> nat option \<Rightarrow> 'w \<times> 'q sim \<Rightarrow> ('w \<times> 'q sim) res" where
  "Invoke notify i = (\<lambda>(w, s).
     case i of
       None \<Rightarrow> Inl NullDeref
     | Some n \<Rightarrow> if \<not> cancelled s n then notify n w s else Inr (w, s))"

text \<open>\<^verbatim>\<open>ProcessOneEvent\<close> up to the call of the event's code, and the whole of it.\<close>

definition nextEvent :: "'q Scheduler \<Rightarrow> 'q sim \<Rightarrow> (Event \<times> 'q sim) res" where
  "nextEvent S s =
     bindr (RemoveNext S (m_events s)) (\<lambda>(next, q).
     if \<not> m_ts (key next) \<ge> m_currentTs s then Inl Assert
     else Inr (next, s\<lparr>m_events := q, m_unscheduledEvents := m_unscheduledEvents s - 1,
                       m_eventCount := m_eventCount s + 1, m_currentTs := m_ts (key next),
                       m_currentContext := m_context (key next), m_currentUid := m_uid (key next)\<rparr>))"

definition ProcessOneEvent ::
    "'q Scheduler \<Rightarrow> ('w, 'q) handler \<Rightarrow> 'w \<times> 'q sim \<Rightarrow> ('w \<times> 'q sim) res" where
  "ProcessOneEvent S notify = (\<lambda>(w, s).
     bindr (nextEvent S s) (\<lambda>(next, s).
     bindr (Invoke notify (impl next) (w, s)) (\<lambda>(w, s).
     bindr (ProcessEventsWithContext S s) (\<lambda>s. Inr (w, s)))))"

fun runLoop :: "'q Scheduler \<Rightarrow> ('w, 'q) handler \<Rightarrow> nat \<Rightarrow> 'w \<times> 'q sim \<Rightarrow> ('w \<times> 'q sim) res" where
  "runLoop S notify 0 (w, s) = Inl Diverge"
| "runLoop S notify (Suc n) (w, s) =
     (if \<not> IsEmpty S (m_events s) \<and> \<not> m_stop s then
        bindr (ProcessOneEvent S notify (w, s)) (runLoop S notify n)
      else if \<not> IsEmpty S (m_events s) \<or> m_unscheduledEvents s = 0 then Inr (w, s)
      else Inl Assert)"

definition Run :: "'q Scheduler \<Rightarrow> ('w, 'q) handler \<Rightarrow> nat \<Rightarrow> 'w \<times> 'q sim \<Rightarrow> ('w \<times> 'q sim) res" where
  "Run S notify n = (\<lambda>(w, s).
     bindr (ProcessEventsWithContext S s) (\<lambda>s. runLoop S notify n (w, s\<lparr>m_stop := False\<rparr>)))"

fun Destroy :: "('w, 'q) handler \<Rightarrow> nat \<Rightarrow> 'w \<times> 'q sim \<Rightarrow> ('w \<times> 'q sim) res" where
  "Destroy notify 0 (w, s) = Inl Diverge"
| "Destroy notify (Suc n) (w, s) =
     (case m_destroyEvents s of
        [] \<Rightarrow> Inr (w, s)
      | d # ds \<Rightarrow>
          (let s = s\<lparr>m_destroyEvents := ds\<rparr> in
           if \<not> IsCancelled (m_eventImpl d) s
           then bindr (Invoke notify (m_eventImpl d) (w, s)) (Destroy notify n)
           else Destroy notify n (w, s)))"

text \<open>\<^verbatim>\<open>SetScheduler\<close>: the type of the queue changes with the scheduler.\<close>

definition SetScheduler ::
    "'a Scheduler \<Rightarrow> 'b Scheduler \<Rightarrow> 'b \<Rightarrow> nat \<Rightarrow> 'a sim \<Rightarrow> 'b sim res" where
  "SetScheduler A B fresh n s =
     bindr (case moveEvents A B n (m_events s) fresh of None \<Rightarrow> Inl Diverge | Some r \<Rightarrow> r) (\<lambda>q.
     Inr \<lparr>m_eventsWithContext = m_eventsWithContext s,
          m_eventsWithContextEmpty = m_eventsWithContextEmpty s,
          m_destroyEvents = m_destroyEvents s, m_stop = m_stop s, m_events = q, sim_uid = sim_uid s,
          m_currentUid = m_currentUid s, m_currentTs = m_currentTs s,
          m_currentContext = m_currentContext s, m_eventCount = m_eventCount s,
          m_unscheduledEvents = m_unscheduledEvents s, cancelled = cancelled s\<rparr>)"

subsection \<open>What event code may do\<close>

text \<open>
  One call of the simulator's interface from the main thread.  The first component is the set of
  ids handed out so far: only those are cancelled or removed.  A call that takes a unique id needs
  one to be left of the \<open>2 ^ 32\<close> the counter can count.
\<close>

inductive api :: "'q Scheduler \<Rightarrow> EventId set \<times> 'q sim \<Rightarrow> EventId set \<times> 'q sim \<Rightarrow> bool"
  for S :: "'q Scheduler" where
  schedule: "Schedule S d (Some n) s = Inr (s', k) \<Longrightarrow> unat (sim_uid s) + 1 < 2 ^ 32 \<Longrightarrow>
    api S (H, s) (insert k H, s')"
| schedule_context: "ScheduleWithContext S True c d (Some n) s = Inr s' \<Longrightarrow> 0 \<le> d \<Longrightarrow>
    unat (sim_uid s) + 1 < 2 ^ 32 \<Longrightarrow> api S (H, s) (H, s')"
| schedule_destroy: "ScheduleDestroy i s = (s', k) \<Longrightarrow> unat (sim_uid s) + 1 < 2 ^ 32 \<Longrightarrow>
    api S (H, s) (insert k H, s')"
| cancel: "k \<in> H \<Longrightarrow> api S (H, s) (H, Cancel k s)"
| remove: "k \<in> H \<Longrightarrow> RemoveEvent S k s = Inr s' \<Longrightarrow> api S (H, s) (H, s')"
| stop: "api S (H, s) (H, Stop s)"

text \<open>
  Event code that uses nothing but this interface, with ids it was given: \<open>ids w\<close> are the ids
  the world \<open>w\<close> holds.
\<close>

definition handler_ok :: "'q Scheduler \<Rightarrow> ('w \<Rightarrow> EventId set) \<Rightarrow> ('w, 'q) handler \<Rightarrow> bool" where
  "handler_ok S ids notify \<longleftrightarrow>
     (\<forall>n w s w' s' H. ids w \<subseteq> H \<longrightarrow> notify n w s = Inr (w', s') \<longrightarrow>
        (\<exists>H'. (api S)\<^sup>*\<^sup>* (H, s) (H', s') \<and> ids w' \<subseteq> H'))"

subsection \<open>The invariant\<close>

definition live :: "(nat \<Rightarrow> bool) \<Rightarrow> Event list \<Rightarrow> nat list" where
  "live c es = filter (\<lambda>i. \<not> c i) (map (the \<circ> impl) es)"

definition clock :: "'q sim \<Rightarrow> u64 \<times> u32" where
  "clock s = (m_currentTs s, m_currentUid s)"

definition id_rank :: "EventId \<Rightarrow> u64 \<times> u32" where
  "id_rank k = (i_ts k, i_uid k)"

definition pending_ok :: "'q sim \<Rightarrow> Event \<Rightarrow> bool" where
  "pending_ok s e \<longleftrightarrow> 4 \<le> unat (euid e) \<and> unat (euid e) < unat (sim_uid s) \<and> clock s < erank e
     \<and> unat (m_ts (key e)) < 2 ^ 63 \<and> impl e \<noteq> None"

definition id_ok :: "Event multiset \<Rightarrow> 'q sim \<Rightarrow> EventId \<Rightarrow> bool" where
  "id_ok M s k \<longleftrightarrow> i_uid k = UID_DESTROY
     \<or> (m_eventImpl k \<noteq> None
        \<and> (eventOf k \<in># M \<or> id_rank k \<le> clock s \<or> IsCancelled (m_eventImpl k) s))"

definition sim_ok :: "(u64 \<Rightarrow> 'q \<Rightarrow> bool) \<Rightarrow> ('q \<Rightarrow> Event multiset) \<Rightarrow> EventId set \<Rightarrow> 'q sim \<Rightarrow> bool" where
  "sim_ok qinv evs H s \<longleftrightarrow>
     qinv (m_currentTs s) (m_events s) \<and> uids_distinct (evs (m_events s))
   \<and> (\<forall>e\<in>#evs (m_events s). pending_ok s e)
   \<and> m_unscheduledEvents s = of_nat (size (evs (m_events s)))
   \<and> 4 \<le> unat (sim_uid s) \<and> unat (m_currentUid s) < unat (sim_uid s) \<and> unat (m_currentTs s) < 2 ^ 63
   \<and> m_eventsWithContext s = [] \<and> m_eventsWithContextEmpty s
   \<and> (\<forall>k\<in>H. id_ok (evs (m_events s)) s k)"

lemma sint_small:
  assumes "unat (w :: u64) < 2 ^ 63"
  shows "sint w = int (unat w)"
proof -
  define n where "n = unat w"
  have "uint w = int n" by (simp add: n_def)
  moreover have "n < 2 ^ 63" using assms by (simp only: n_def)
  then have "signed_take_bit 63 (int n) = int n"
    by (intro signed_take_bit_int_eq_self) simp_all
  ultimately show ?thesis unfolding sint_uint n_def[symmetric] by simp
qed

lemma unat_word_of_int: "0 \<le> k \<Longrightarrow> k < 2 ^ 64 \<Longrightarrow> unat (word_of_int k :: u64) = nat k"
  by (simp add: unsigned_of_int take_bit_int_eq_self)

lemma now_plus_ok:
  assumes "now_plus d s = Inr ts" "0 \<le> d" "unat (m_currentTs s) < 2 ^ 63"
  shows "m_currentTs s \<le> ts" "unat ts < 2 ^ 63"
proof -
  define c where "c = unat (m_currentTs s)"
  have "sint (m_currentTs s) = int c" using sint_small[OF assms(3)] by (simp only: c_def)
  then have t: "ts = word_of_int (d + int c)" "d + int c < 2 ^ 63"
    using assms(1) by (auto simp: now_plus_def Let_def split: if_splits)
  have u: "unat ts = nat (d + int c)"
    unfolding t(1) using t(2) assms(2) by (intro unat_word_of_int) simp_all
  show "m_currentTs s \<le> ts" unfolding word_le_nat_alt u c_def[symmetric] using assms(2) by simp
  show "unat ts < 2 ^ 63" unfolding u using t(2) assms(2) by simp
qed

lemma unat_Suc_uid: "unat (u :: u32) + 1 < 2 ^ 32 \<Longrightarrow> unat (u + 1) = unat u + 1"
  by (simp add: unat_word_ariths)

lemma clock_upd [simp]:
  "clock (s\<lparr>m_events := q\<rparr>) = clock s" "clock (s\<lparr>sim_uid := u\<rparr>) = clock s"
  "clock (s\<lparr>m_unscheduledEvents := v\<rparr>) = clock s" "clock (s\<lparr>cancelled := c\<rparr>) = clock s"
  "clock (s\<lparr>m_destroyEvents := d\<rparr>) = clock s" "clock (s\<lparr>m_stop := b\<rparr>) = clock s"
  by (simp_all add: clock_def)

lemma IsCancelled_upd [simp]:
  "IsCancelled i (s\<lparr>m_events := q\<rparr>) = IsCancelled i s" "IsCancelled i (s\<lparr>sim_uid := u\<rparr>) = IsCancelled i s"
  "IsCancelled i (s\<lparr>m_unscheduledEvents := v\<rparr>) = IsCancelled i s"
  "IsCancelled i (s\<lparr>m_destroyEvents := d\<rparr>) = IsCancelled i s" "IsCancelled i (s\<lparr>m_stop := b\<rparr>) = IsCancelled i s"
  by (simp_all add: IsCancelled_def split: option.splits)

lemma CancelImpl_fields [simp]:
  "m_events (CancelImpl i s) = m_events s" "sim_uid (CancelImpl i s) = sim_uid s"
  "m_unscheduledEvents (CancelImpl i s) = m_unscheduledEvents s"
  "m_currentUid (CancelImpl i s) = m_currentUid s" "m_currentTs (CancelImpl i s) = m_currentTs s"
  "m_eventsWithContext (CancelImpl i s) = m_eventsWithContext s"
  "m_eventsWithContextEmpty (CancelImpl i s) = m_eventsWithContextEmpty s"
  "clock (CancelImpl i s) = clock s" "m_stop (CancelImpl i s) = m_stop s"
  by (simp_all add: CancelImpl_def clock_def split: option.splits)

lemma IsCancelled_CancelImpl:
  "IsCancelled j (CancelImpl i s) \<longleftrightarrow> IsCancelled j s \<or> (i \<noteq> None \<and> i = j)"
  by (auto simp: IsCancelled_def CancelImpl_def split: option.splits)

text \<open>An id that is not expired belongs to a pending event.\<close>

lemma not_expired_pending:
  "id_ok M s k \<Longrightarrow> \<not> IsExpired k s \<Longrightarrow> i_uid k \<noteq> UID_DESTROY \<Longrightarrow> eventOf k \<in># M"
  by (auto simp: id_ok_def IsExpired_def id_rank_def clock_def)

text \<open>Distinct unique ids below a bound: no more events than the bound.\<close>

lemma uids_distinct_size:
  assumes "uids_distinct M" "\<And>e. e \<in># M \<Longrightarrow> unat (euid e) < u"
  shows "size M \<le> u"
proof -
  have "size M = card ((\<lambda>e. unat (euid e)) ` set_mset M)"
    using assms(1) by (induction M) (auto simp: card_insert_if word_unat_eq_iff)
  also have "\<dots> \<le> card {..<u}" using assms(2) by (intro card_mono) auto
  finally show ?thesis by simp
qed

context timed_queue_remove
begin

lemma insertEvent_ok:
  assumes ok: "sim_ok inv evs H s" and ts: "m_currentTs s \<le> ts" "unat ts < 2 ^ 63"
    and uid: "unat (sim_uid s) + 1 < 2 ^ 32"
  shows "\<exists>s' k. insertEvent S (Some n) ts c s = Inr (s', k) \<and> sim_ok inv evs (insert k H) s'
    \<and> clock s' = clock s \<and> evs (m_events s') = add_mset (eventOf k) (evs (m_events s))"
proof -
  let ?q = "m_events s"
  define e where "e = \<lparr>impl = Some n, key = \<lparr>m_ts = ts, m_uid = sim_uid s, m_context = c\<rparr>\<rparr>"
  have q: "inv (m_currentTs s) ?q" "uids_distinct (evs ?q)" "\<forall>x\<in>#evs ?q. pending_ok s x"
    "m_unscheduledEvents s = of_nat (size (evs ?q))" "4 \<le> unat (sim_uid s)"
    "unat (m_currentUid s) < unat (sim_uid s)" "unat (m_currentTs s) < 2 ^ 63"
    "m_eventsWithContext s = []" "m_eventsWithContextEmpty s" "\<forall>k\<in>H. id_ok (evs ?q) s k"
    using ok by (auto simp: sim_ok_def)
  have fresh: "euid e \<noteq> euid x" if "x \<in># evs ?q" for x
    using q(3) that by (auto simp: pending_ok_def e_def)
  have "size (evs ?q) \<le> unat (sim_uid s)"
    using q(2,3) by (intro uids_distinct_size) (auto simp: pending_ok_def)
  then have "Suc (size (evs ?q)) < 2 ^ 32" using uid by simp
  moreover have "m_currentTs s \<le> m_ts (key e)" "unat (m_ts (key e)) < 2 ^ 63"
    using ts by (simp_all add: e_def)
  ultimately obtain q' where
    q': "Insert S e ?q = Inr q'" "inv (m_currentTs s) q'" "evs q' = add_mset e (evs ?q)"
    using insert[OF q(1), of e] fresh by blast
  let ?s = "s\<lparr>sim_uid := sim_uid s + 1, m_unscheduledEvents := m_unscheduledEvents s + 1, m_events := q'\<rparr>"
  let ?k = "\<lparr>m_eventImpl = Some n, i_ts = ts, i_context = c, i_uid = sim_uid s\<rparr>"
  have ins: "insertEvent S (Some n) ts c s = Inr (?s, ?k)"
    using q'(1) by (simp add: insertEvent_def e_def Let_def)
  have u1: "unat (sim_uid s + 1) = unat (sim_uid s) + 1" using uid by (rule unat_Suc_uid)
  have later: "clock s < erank e"
    using ts(1) q(6) by (auto simp: clock_def rank_def e_def word_less_nat_alt)
  have "pending_ok ?s x" if "x \<in># evs q'" for x
    using that q(3,5) later ts(2) u1 by (auto simp: q' pending_ok_def e_def)
  moreover have "id_ok (evs q') ?s k" if "k \<in> insert ?k H" for k
    using that q(10) by (auto simp: id_ok_def q' eventOf_def e_def)
  ultimately have "sim_ok inv evs (insert ?k H) ?s"
    using q q'(2) fresh u1 unfolding sim_ok_def by (simp add: q'(3))
  then show ?thesis using ins q'(3) by (auto simp: eventOf_def e_def intro!: exI)
qed

lemma insertEvent_keeps:
  assumes "sim_ok inv evs H s" "m_currentTs s \<le> ts" "unat ts < 2 ^ 63" "unat (sim_uid s) + 1 < 2 ^ 32"
    and "insertEvent S (Some n) ts c s = Inr (s', k)"
  shows "sim_ok inv evs (insert k H) s' \<and> clock s' = clock s"
  using insertEvent_ok[OF assms(1-4), of n c] assms(5) by auto

lemma sim_ok_cancel: "sim_ok inv evs H s \<Longrightarrow> sim_ok inv evs H (CancelImpl i s)"
  by (auto simp: sim_ok_def pending_ok_def id_ok_def IsCancelled_CancelImpl)

lemma sim_ok_subset: "sim_ok inv evs H s \<Longrightarrow> H' \<subseteq> H \<Longrightarrow> sim_ok inv evs H' s"
  by (auto simp: sim_ok_def)

lemma removeEvent_ok:
  assumes ok: "sim_ok inv evs H s" and k: "k \<in> H" and r: "RemoveEvent S k s = Inr s'"
  shows "sim_ok inv evs H s' \<and> clock s' = clock s"
proof (cases "i_uid k = UID_DESTROY \<or> IsExpired k s")
  case True
  then show ?thesis
    using ok r by (auto simp: RemoveEvent_def sim_ok_def pending_ok_def id_ok_def split: if_splits)
next
  case False
  let ?q = "m_events s"
  have q: "inv (m_currentTs s) ?q" "uids_distinct (evs ?q)" "id_ok (evs ?q) s k" using ok k by (auto simp: sim_ok_def)
  then have "eventOf k \<in># evs ?q" using False not_expired_pending by blast
  from remove[OF q(1,2) this] obtain q' where
    q': "Remove S (eventOf k) ?q = Inr q'" "inv (m_currentTs s) q'" "evs ?q = add_mset (eventOf k) (evs q')" by blast
  have m: "m_eventImpl k \<noteq> None" using False by (auto simp: IsExpired_def)
  let ?s = "CancelImpl (m_eventImpl k) (s\<lparr>m_events := q'\<rparr>)"
  have s': "s' = ?s\<lparr>m_unscheduledEvents := m_unscheduledEvents s - 1\<rparr>"
    using r False q'(1) by (simp add: RemoveEvent_def)
  have eq: "eventOf k = eventOf j \<Longrightarrow> m_eventImpl j = m_eventImpl k" for j
    by (simp add: eventOf_def)
  have "id_ok (evs q') s' j" if "j \<in> H" for j
  proof -
    have "id_ok (evs ?q) s j" using ok that by (auto simp: sim_ok_def)
    then show ?thesis
      using m eq[of j] by (auto simp: id_ok_def s' q'(3) IsCancelled_CancelImpl)
  qed
  moreover have "\<forall>e\<in>#evs q'. pending_ok s' e"
    using ok by (auto simp: sim_ok_def q'(3) s' pending_ok_def)
  ultimately show ?thesis
    using ok q'(2) unfolding sim_ok_def q'(3) by (simp add: s')
qed

lemma api_ok: "api S a b \<Longrightarrow> sim_ok inv evs (fst a) (snd a) \<Longrightarrow>
   sim_ok inv evs (fst b) (snd b) \<and> clock (snd b) = clock (snd a) \<and> fst a \<subseteq> fst b"
proof (induction rule: api.induct)
  case (schedule d n s s' k H)
  then obtain ts where ts: "now_plus d s = Inr ts" "0 \<le> d"
    and i: "insertEvent S (Some n) ts (m_currentContext s) s = Inr (s', k)"
    by (auto simp: Schedule_def bindr_Inr_iff split: if_splits)
  have ok: "sim_ok inv evs H s" "unat (m_currentTs s) < 2 ^ 63" using schedule(3) by (simp_all add: sim_ok_def)
  show ?case using insertEvent_keeps[OF ok(1) now_plus_ok[OF ts ok(2)] schedule(2) i] by auto
next
  case (schedule_context c d n s s' H)
  then obtain ts k where ts: "now_plus d s = Inr ts" and i: "insertEvent S (Some n) ts c s = Inr (s', k)"
    by (auto simp: ScheduleWithContext_def bindr_Inr_iff)
  have ok: "sim_ok inv evs H s" "unat (m_currentTs s) < 2 ^ 63"
    using schedule_context(4) by (simp_all add: sim_ok_def)
  show ?case
    using insertEvent_keeps[OF ok(1) now_plus_ok[OF ts schedule_context(2) ok(2)] schedule_context(3) i]
      sim_ok_subset by auto
next
  case (schedule_destroy i s s' k H)
  then have "unat (sim_uid s + 1) = unat (sim_uid s) + 1" by (intro unat_Suc_uid)
  then show ?case
    using schedule_destroy
    by (auto simp: ScheduleDestroy_def Let_def sim_ok_def pending_ok_def id_ok_def intro!: less_SucI)
next
  case (cancel k H s)
  then show ?case using sim_ok_cancel by (auto simp: Cancel_def)
next
  case (remove k H s s')
  then show ?case using removeEvent_ok by auto
next
  case (stop H s)
  then show ?case by (auto simp: Stop_def sim_ok_def pending_ok_def id_ok_def)
qed

lemma api_steps_ok: "(api S)\<^sup>*\<^sup>* a b \<Longrightarrow> sim_ok inv evs (fst a) (snd a) \<Longrightarrow>
   sim_ok inv evs (fst b) (snd b) \<and> clock (snd b) = clock (snd a) \<and> fst a \<subseteq> fst b"
  by (induction rule: rtranclp_induct) (use api_ok in fastforce)+

lemma nextEvent_ok:
  assumes ok: "sim_ok inv evs H s" and ne: "evs (m_events s) \<noteq> {#}"
  shows "\<exists>e n s'. nextEvent S s = Inr (e, s') \<and> impl e = Some n \<and> sim_ok inv evs H s'
    \<and> clock s' = erank e \<and> clock s < erank e \<and> evs (m_events s) = add_mset e (evs (m_events s'))
    \<and> (\<forall>x\<in>#evs (m_events s'). erank e \<le> erank x) \<and> m_stop s' = m_stop s
    \<and> cancelled s' = cancelled s \<and> m_eventCount s' = m_eventCount s + 1"
proof -
  let ?q = "m_events s"
  have q: "inv (m_currentTs s) ?q" "uids_distinct (evs ?q)" "\<forall>x\<in>#evs ?q. pending_ok s x"
    "m_unscheduledEvents s = of_nat (size (evs ?q))" using ok by (auto simp: sim_ok_def)
  obtain e q' where r: "RemoveNext S ?q = Inr (e, q')" "inv (m_ts (key e)) q'" "evs ?q = add_mset e (evs q')"
    and least: "\<forall>x\<in>#evs q'. erank e \<le> erank x"
    using q(1) ne by (rule removeNextE)
  have e: "pending_ok s e" using q(3) r(3) by simp
  then obtain n where n: "impl e = Some n" by (auto simp: pending_ok_def)
  have lt: "clock s < erank e" using e by (simp add: pending_ok_def)
  then have ts: "m_currentTs s \<le> m_ts (key e)" by (auto simp: clock_def rank_def)
  define s' where "s' = s\<lparr>m_events := q', m_unscheduledEvents := m_unscheduledEvents s - 1,
      m_eventCount := m_eventCount s + 1, m_currentTs := m_ts (key e),
      m_currentContext := m_context (key e), m_currentUid := m_uid (key e)\<rparr>"
  have nx: "nextEvent S s = Inr (e, s')" using r(1) ts by (simp add: nextEvent_def s'_def)
  have clk: "clock s' = erank e" by (simp add: clock_def s'_def rank_def)
  have later: "erank e < erank x" if "x \<in># evs q'" for x
  proof -
    have "euid e \<noteq> euid x" using q(2) that r(3) by simp
    then have "erank e \<noteq> erank x" using rank_eqD by blast
    then show ?thesis using least that by fastforce
  qed
  have "pending_ok s' x" if "x \<in># evs q'" for x
    using q(3) r(3) later[OF that] that clk by (simp add: pending_ok_def s'_def)
  moreover have "id_ok (evs q') s' k" if "k \<in> H" for k
  proof -
    have "id_ok (evs ?q) s k" using ok that by (simp add: sim_ok_def)
    moreover have "eventOf k = e \<Longrightarrow> id_rank k \<le> clock s'"
      unfolding clk by (auto simp: eventOf_def id_rank_def rank_def)
    moreover have "IsCancelled i s' = IsCancelled i s" for i
      by (simp add: s'_def IsCancelled_def split: option.splits)
    ultimately show ?thesis using lt clk by (auto simp: id_ok_def r(3))
  qed
  ultimately have "sim_ok inv evs H s'"
    using ok r(2) q(2) e unfolding sim_ok_def by (auto simp: s'_def r(3) pending_ok_def)
  then show ?thesis using nx n clk lt r(3) least by (auto simp: s'_def)
qed

lemma no_foreign: "sim_ok inv evs H s \<Longrightarrow> ProcessEventsWithContext S s = Inr s"
  by (simp add: ProcessEventsWithContext_def sim_ok_def)

text \<open>
  One event: whatever well-behaved code the event runs, the clock assertion of the source holds,
  the invariant is kept and the clock has moved on.
\<close>

lemma ProcessOneEvent_ok:
  assumes ok: "sim_ok inv evs H s" "ids w \<subseteq> H" and ne: "evs (m_events s) \<noteq> {#}"
    and h: "handler_ok S ids notify"
  shows "(\<exists>w' s' H'. ProcessOneEvent S notify (w, s) = Inr (w', s') \<and> sim_ok inv evs H' s'
            \<and> ids w' \<subseteq> H' \<and> H \<subseteq> H' \<and> clock s < clock s')
       \<or> (\<exists>n s1 x. notify n w s1 = Inl x \<and> ProcessOneEvent S notify (w, s) = Inl x)"
proof -
  obtain e n s1 where e: "nextEvent S s = Inr (e, s1)" "impl e = Some n" "sim_ok inv evs H s1"
    "clock s1 = erank e" "clock s < erank e"
    using nextEvent_ok[OF ok(1) ne] by blast
  consider "cancelled s1 n" | x where "\<not> cancelled s1 n" "notify n w s1 = Inl x"
    | w2 s2 where "\<not> cancelled s1 n" "notify n w s1 = Inr (w2, s2)"
    by (metis old.prod.exhaust old.sum.exhaust)
  then show ?thesis
  proof cases
    case 1
    then have "ProcessOneEvent S notify (w, s) = Inr (w, s1)"
      using e no_foreign[OF e(3)] by (simp add: ProcessOneEvent_def Invoke_def)
    then show ?thesis using e ok(2) by auto
  next
    case 2
    then have "ProcessOneEvent S notify (w, s) = Inl x"
      using e by (simp add: ProcessOneEvent_def Invoke_def)
    then show ?thesis using 2 by blast
  next
    case 3
    obtain H2 where st: "(api S)\<^sup>*\<^sup>* (H, s1) (H2, s2)" and i: "ids w2 \<subseteq> H2"
      using h ok(2) 3(2) unfolding handler_ok_def by blast
    have k: "sim_ok inv evs H2 s2" "clock s2 = clock s1" "H \<subseteq> H2"
      using api_steps_ok[OF st] e(3) by auto
    then have "ProcessOneEvent S notify (w, s) = Inr (w2, s2)"
      using e 3 no_foreign[OF k(1)] by (simp add: ProcessOneEvent_def Invoke_def)
    then show ?thesis using k e i by auto
  qed
qed

lemma runLoop_ok:
  assumes "sim_ok inv evs H s" "ids w \<subseteq> H" "handler_ok S ids notify"
  shows "(\<exists>w' s' H'. runLoop S notify n (w, s) = Inr (w', s') \<and> sim_ok inv evs H' s' \<and> ids w' \<subseteq> H'
            \<and> H \<subseteq> H' \<and> clock s \<le> clock s' \<and> (evs (m_events s') = {#} \<or> m_stop s'))
       \<or> runLoop S notify n (w, s) = Inl Diverge
       \<or> (\<exists>i v t x. notify i v t = Inl x \<and> runLoop S notify n (w, s) = Inl x)"
  using assms(1,2)
proof (induction n arbitrary: w s H)
  case (Suc n)
  have emp: "IsEmpty S (m_events s) \<longleftrightarrow> evs (m_events s) = {#}"
    using Suc.prems(1) by (intro isEmpty[of "m_currentTs s"]) (simp add: sim_ok_def)
  show ?case
  proof (cases "evs (m_events s) \<noteq> {#} \<and> \<not> m_stop s")
    case False
    then have "runLoop S notify (Suc n) (w, s) = Inr (w, s)"
      using emp Suc.prems(1) by (auto simp: sim_ok_def)
    then show ?thesis using False Suc.prems by auto
  next
    case True
    then have step: "runLoop S notify (Suc n) (w, s) =
        bindr (ProcessOneEvent S notify (w, s)) (runLoop S notify n)"
      using emp by simp
    from ProcessOneEvent_ok[OF Suc.prems conjunct1[OF True] assms(3)] show ?thesis
    proof
      assume "\<exists>w' s' H'. ProcessOneEvent S notify (w, s) = Inr (w', s') \<and> sim_ok inv evs H' s'
            \<and> ids w' \<subseteq> H' \<and> H \<subseteq> H' \<and> clock s < clock s'"
      then obtain w1 s1 H1 where p: "ProcessOneEvent S notify (w, s) = Inr (w1, s1)"
        "sim_ok inv evs H1 s1" "ids w1 \<subseteq> H1" "H \<subseteq> H1" "clock s < clock s1" by blast
      have mono: "clock s1 \<le> c \<Longrightarrow> clock s \<le> c" "H1 \<subseteq> K \<Longrightarrow> H \<subseteq> K" for c K
        using p(4,5) by (blast intro: order_trans less_imp_le)+
      have "runLoop S notify (Suc n) (w, s) = runLoop S notify n (w1, s1)" using step p(1) by simp
      then show ?thesis using Suc.IH[OF p(2,3)] mono by metis
    next
      assume "\<exists>n s1 x. notify n w s1 = Inl x \<and> ProcessOneEvent S notify (w, s) = Inl x"
      then show ?thesis using step by auto
    qed
  qed
qed simp

text \<open>
  Event code that leaves the simulator alone: the loop ends once per pending event has run, in key
  order, and the world is what the events that are not cancelled make of it one after the other.
\<close>

lemma runLoop_quiet:
  assumes "sim_ok inv evs H s" "\<not> m_stop s" "size (evs (m_events s)) < n"
  shows "\<exists>es s'. mset es = evs (m_events s) \<and> sorted (map erank es)
    \<and> runLoop S (\<lambda>i w s. Inr (f i w, s)) n (w, s) = Inr (fold f (live (cancelled s) es) w, s')
    \<and> sim_ok inv evs H s' \<and> evs (m_events s') = {#}
    \<and> m_eventCount s' = m_eventCount s + of_nat (length es)"
  using assms
proof (induction n arbitrary: w s)
  case (Suc n)
  let ?f = "\<lambda>i w s. Inr (f i w, s)"
  have emp: "IsEmpty S (m_events s) \<longleftrightarrow> evs (m_events s) = {#}"
    using Suc.prems(1) by (intro isEmpty[of "m_currentTs s"]) (simp add: sim_ok_def)
  show ?case
  proof (cases "evs (m_events s) = {#}")
    case True
    then have "runLoop S ?f (Suc n) (w, s) = Inr (w, s)"
      using emp Suc.prems(1) by (simp add: sim_ok_def)
    then show ?thesis using True Suc.prems(1) by (intro exI[of _ "[]"]) (auto simp: live_def)
  next
    case False
    from nextEvent_ok[OF Suc.prems(1) this] obtain e i s1 where
      e: "nextEvent S s = Inr (e, s1)" "impl e = Some i" "sim_ok inv evs H s1"
        "evs (m_events s) = add_mset e (evs (m_events s1))" "\<forall>x\<in>#evs (m_events s1). erank e \<le> erank x"
        "m_stop s1 = m_stop s" "cancelled s1 = cancelled s" "m_eventCount s1 = m_eventCount s + 1"
      by blast
    define w1 where "w1 = (if cancelled s i then w else f i w)"
    have "ProcessOneEvent S ?f (w, s) = Inr (w1, s1)"
      using e no_foreign[OF e(3)] by (simp add: ProcessOneEvent_def Invoke_def w1_def)
    then have step: "runLoop S ?f (Suc n) (w, s) = runLoop S ?f n (w1, s1)"
      using False emp Suc.prems(2) by simp
    from Suc.IH[OF e(3), of w1] e Suc.prems obtain es s' where
      "mset es = evs (m_events s1)" "sorted (map erank es)"
      "runLoop S ?f n (w1, s1) = Inr (fold f (live (cancelled s) es) w1, s')"
      "sim_ok inv evs H s'" "evs (m_events s') = {#}"
      "m_eventCount s' = m_eventCount s1 + of_nat (length es)"
      by auto
    moreover have "fold f (live (cancelled s) (e # es)) w = fold f (live (cancelled s) es) w1"
      using e(2) by (simp add: live_def w1_def)
    moreover from calculation(1) have "sorted (map erank es) \<Longrightarrow> sorted (map erank (e # es))"
      using e(5) by (auto simp flip: set_mset_mset)
    ultimately show ?thesis
      using e step by (intro exI[of _ "e # es"] exI[of _ s']) (auto simp: algebra_simps)
  qed
qed simp

lemma expired_exact:
  assumes "sim_ok inv evs H s" "k \<in> H" "i_uid k \<noteq> UID_DESTROY"
  shows "IsExpired k s \<longleftrightarrow> eventOf k \<notin># evs (m_events s) \<or> IsCancelled (m_eventImpl k) s"
proof -
  have k: "id_ok (evs (m_events s)) s k" and p: "\<forall>e\<in>#evs (m_events s). pending_ok s e"
    using assms(1,2) by (auto simp: sim_ok_def)
  have "clock s < id_rank k" if "eventOf k \<in># evs (m_events s)"
    using p that by (auto simp: pending_ok_def eventOf_def rank_def id_rank_def)
  then show ?thesis
    using k assms(3) not_expired_pending[OF k]
    by (auto simp: IsExpired_def id_ok_def clock_def id_rank_def)
qed

lemma sim_start: "sim_ok inv evs {} (DefaultSimulatorImpl start)"
  using start by (simp add: sim_ok_def DefaultSimulatorImpl_def UID_VALID_def UID_INVALID_def)

lemma Run_ok:
  assumes "sim_ok inv evs H s" "ids w \<subseteq> H" "handler_ok S ids notify"
  shows "(\<exists>w' s' H'. Run S notify n (w, s) = Inr (w', s') \<and> sim_ok inv evs H' s' \<and> ids w' \<subseteq> H'
            \<and> H \<subseteq> H' \<and> clock s \<le> clock s' \<and> (evs (m_events s') = {#} \<or> m_stop s'))
       \<or> Run S notify n (w, s) = Inl Diverge
       \<or> (\<exists>i v t x. notify i v t = Inl x \<and> Run S notify n (w, s) = Inl x)"
proof -
  have "sim_ok inv evs H (s\<lparr>m_stop := False\<rparr>)"
    using assms(1) by (simp add: sim_ok_def pending_ok_def id_ok_def)
  from runLoop_ok[OF this assms(2,3), of n] show ?thesis
    using no_foreign[OF assms(1)] by (simp add: Run_def)
qed

end

interpretation mh: scheduler_switch MapScheduler map_inv map_evs "[]"
    HeapScheduler heap_inv heap_evs HeapScheduler_init
  by unfold_locales

interpretation mc: timed_switch MapScheduler "\<lambda>_. map_inv" map_evs "[]"
    CalendarScheduler cal_inv cal_evs "calendar_start reverse" for reverse
  by unfold_locales

subsection \<open>Properties of the default configuration\<close>

text \<open>
  The default scheduler is the map scheduler.  An example for the properties below: one event is
  scheduled, and its code schedules another one.
\<close>

abbreviation sim_inv :: "EventId set \<Rightarrow> map_queue sim \<Rightarrow> bool" where
  "sim_inv \<equiv> sim_ok (\<lambda>_. map_inv) map_evs"

definition exampleSim :: "map_queue sim \<times> EventId" where
  "exampleSim = (case Schedule MapScheduler 10 (Some 1) (DefaultSimulatorImpl []) of Inr r \<Rightarrow> r)"

definition exampleHandler :: "(nat list, map_queue) handler" where
  "exampleHandler n w s =
     (if n = 1 \<and> sim_uid s < 1000
      then bindr (Schedule MapScheduler 5 (Some 2) s) (\<lambda>(s, _). Inr (w @ [n], s))
      else Inr (w @ [n], s))"

lemma exampleSim_schedule: "Schedule MapScheduler 10 (Some 1) (DefaultSimulatorImpl []) = Inr exampleSim"
  by (simp add: exampleSim_def Schedule_def now_plus_def insertEvent_def DefaultSimulatorImpl_def
      MapScheduler_ops Let_def)

lemma exampleSim_ok: "sim_inv {snd exampleSim} (fst exampleSim)"
proof -
  have "api MapScheduler ({}, DefaultSimulatorImpl []) (insert (snd exampleSim) {}, fst exampleSim)"
  proof (rule api.schedule)
    show "Schedule MapScheduler 10 (Some 1) (DefaultSimulatorImpl []) = Inr (fst exampleSim, snd exampleSim)"
      by (simp only: exampleSim_schedule prod.collapse)
    show "unat (sim_uid (DefaultSimulatorImpl [] :: map_queue sim)) + 1 < 2 ^ 32"
      by (simp add: DefaultSimulatorImpl_def UID_VALID_def)
  qed
  from ms.timed.api_ok[OF this] show ?thesis using ms.timed.sim_start by simp
qed

lemma exampleHandler_ok: "handler_ok MapScheduler (\<lambda>_. {}) exampleHandler"
  unfolding handler_ok_def
proof (intro allI impI)
  fix n w s w' s' and H :: "EventId set"
  assume r: "exampleHandler n w s = Inr (w', s')"
  have "\<exists>H'. (api MapScheduler)\<^sup>*\<^sup>* (H, s) (H', s')"
  proof (cases "n = 1 \<and> sim_uid s < 1000")
    case True
    then have "unat (sim_uid s) + 1 < 2 ^ 32" by (simp add: word_less_nat_alt)
    moreover from True obtain k where "Schedule MapScheduler 5 (Some 2) s = Inr (s', k)"
      using r by (auto simp: exampleHandler_def bindr_Inr_iff)
    ultimately have "api MapScheduler (H, s) (insert k H, s')" by (intro api.schedule)
    then show ?thesis by blast
  next
    case False
    then have "s' = s" using r by (auto simp: exampleHandler_def split: if_splits)
    then show ?thesis by blast
  qed
  then show "\<exists>H'. (api MapScheduler)\<^sup>*\<^sup>* (H, s) (H', s') \<and> {} \<subseteq> H'" by blast
qed

text \<open>
  C17.  The simulator never contradicts itself: started in a consistent state, with event code that
  only uses the simulator's interface, \<^verbatim>\<open>Run\<close> ends in a consistent state that is empty or
  stopped and not earlier than before, or it is still running after \<open>n\<close> events, or the event
  code itself stopped the program.  Neither the assertion that time does not run backwards nor the
  final one that no event was lost can fail, and no scheduler operation does.
\<close>

theorem Run_consistent:
  assumes "sim_inv H s" "ids w \<subseteq> H" "handler_ok MapScheduler ids notify"
  shows "(\<exists>w' s' H'. Run MapScheduler notify n (w, s) = Inr (w', s') \<and> sim_inv H' s' \<and> ids w' \<subseteq> H'
            \<and> H \<subseteq> H' \<and> clock s \<le> clock s' \<and> (map_evs (m_events s') = {#} \<or> m_stop s'))
       \<or> Run MapScheduler notify n (w, s) = Inl Diverge
       \<or> (\<exists>i v t x. notify i v t = Inl x \<and> Run MapScheduler notify n (w, s) = Inl x)"
  using assms by (rule ms.timed.Run_ok)

lemma exampleRun:
  "(case Run MapScheduler exampleHandler 3 ([], fst exampleSim) of
      Inl _ \<Rightarrow> False
    | Inr (w, s) \<Rightarrow> w = [1, 2] \<and> m_currentTs s = 15 \<and> m_events s = [])"
  by code_simp

theorem Run_consistent_witness:
  "\<exists>w s H. Run MapScheduler exampleHandler 3 ([], fst exampleSim) = Inr (w, s) \<and> sim_inv H s \<and> w = [1, 2]"
  using Run_consistent[OF exampleSim_ok _ exampleHandler_ok, where w = "[]" and n = 3] exampleRun
  by (auto split: sum.splits)

text \<open>
  C18.  Events run in order: processing the next event of a non-empty queue never trips the clock
  assertion, keeps the state consistent, and moves the pair of current time and current unique id
  strictly forward, whatever the event's code schedules, cancels or removes.
\<close>

theorem ProcessOneEvent_advances:
  assumes "sim_inv H s" "ids w \<subseteq> H" "map_evs (m_events s) \<noteq> {#}" "handler_ok MapScheduler ids notify"
  shows "(\<exists>w' s' H'. ProcessOneEvent MapScheduler notify (w, s) = Inr (w', s') \<and> sim_inv H' s'
            \<and> ids w' \<subseteq> H' \<and> H \<subseteq> H' \<and> clock s < clock s')
       \<or> (\<exists>n s1 x. notify n w s1 = Inl x \<and> ProcessOneEvent MapScheduler notify (w, s) = Inl x)"
  using assms by (rule ms.timed.ProcessOneEvent_ok)

lemma exampleStep:
  "(case ProcessOneEvent MapScheduler exampleHandler ([], fst exampleSim) of
      Inl _ \<Rightarrow> False
    | Inr (w, s) \<Rightarrow> w = [1] \<and> m_currentTs s = 10)"
  by code_simp

theorem ProcessOneEvent_advances_witness:
  "\<exists>w s H. ProcessOneEvent MapScheduler exampleHandler ([], fst exampleSim) = Inr (w, s)
     \<and> sim_inv H s \<and> clock (fst exampleSim) < clock s"
proof -
  have "map_evs (m_events (fst exampleSim)) \<noteq> {#}"
    by (simp add: exampleSim_def Schedule_def now_plus_def insertEvent_def DefaultSimulatorImpl_def
        MapScheduler_ops Let_def)
  from ProcessOneEvent_advances[OF exampleSim_ok _ this exampleHandler_ok, where w = "[]"] exampleStep
  show ?thesis by (auto split: sum.splits)
qed

text \<open>
  C20.  An event id tells the truth: for every id the simulator has handed out for a scheduled event,
  \<^verbatim>\<open>IsExpired\<close> holds exactly when the event is no longer in the queue or was cancelled,
  although it looks only at the clock and the cancel flag.
\<close>

theorem IsExpired_exact:
  assumes "sim_inv H s" "k \<in> H" "i_uid k \<noteq> UID_DESTROY"
  shows "IsExpired k s \<longleftrightarrow> eventOf k \<notin># map_evs (m_events s) \<or> IsCancelled (m_eventImpl k) s"
  using assms by (rule ms.timed.expired_exact)

theorem IsExpired_exact_witness:
  "\<not> IsExpired (snd exampleSim) (fst exampleSim)
   \<and> eventOf (snd exampleSim) \<in># map_evs (m_events (fst exampleSim))"
proof -
  have "\<not> IsExpired (snd exampleSim) (fst exampleSim)" "i_uid (snd exampleSim) \<noteq> UID_DESTROY"
    by code_simp+
  then show ?thesis using IsExpired_exact[OF exampleSim_ok, of "snd exampleSim"] by simp
qed

text \<open>
  C29.  The state stays consistent under every call of the interface: scheduling (relative, with a
  context, or for the end of the simulation), cancelling, removing and stopping keep the links
  between queue, clock, event counter, unique ids and the ids handed out, and do not move the clock;
  the fresh simulator is consistent.
\<close>

theorem api_keeps_invariant:
  "sim_inv {} (DefaultSimulatorImpl [])
   \<and> (api MapScheduler (H, s) (H', s') \<and> sim_inv H s \<longrightarrow> sim_inv H' s' \<and> clock s' = clock s \<and> H \<subseteq> H')"
  using ms.timed.sim_start ms.timed.api_ok[of "(H, s)" "(H', s')"] by auto

theorem api_keeps_invariant_witness:
  "sim_inv {snd exampleSim} (Cancel (snd exampleSim) (fst exampleSim))"
  using api_keeps_invariant[of "{snd exampleSim}" "fst exampleSim" "{snd exampleSim}"
      "Cancel (snd exampleSim) (fst exampleSim)"] exampleSim_ok
  by (auto intro: api.cancel)

text \<open>
  C27.  \<^verbatim>\<open>Run\<close> finishes all work when events schedule nothing new: after one iteration per
  pending event the queue is empty, exactly the events that were pending have run, in ascending
  order of time stamp and unique id, those cancelled before skipped, and the event counter has
  grown by their number.
\<close>

theorem Run_executes_all:
  assumes "sim_inv H s" "size (map_evs (m_events s)) < n"
  shows "\<exists>es s'. mset es = map_evs (m_events s) \<and> sorted (map erank es)
    \<and> Run MapScheduler (\<lambda>i w s. Inr (f i w, s)) n (w, s) = Inr (fold f (live (cancelled s) es) w, s')
    \<and> map_evs (m_events s') = {#} \<and> m_eventCount s' = m_eventCount s + of_nat (length es)"
proof -
  have "sim_inv H (s\<lparr>m_stop := False\<rparr>)"
    using assms(1) by (simp add: sim_ok_def pending_ok_def id_ok_def)
  from ms.timed.runLoop_quiet[OF this, of n f w] assms(2) show ?thesis
    using ms.timed.no_foreign[OF assms(1)] by (auto simp: Run_def)
qed

theorem Run_executes_all_witness:
  "\<exists>s'. Run MapScheduler (\<lambda>i w s. Inr (w @ [i], s)) 2 ([], fst exampleSim) = Inr ([1], s')"
proof -
  have e: "map_evs (m_events (fst exampleSim)) = {#eventOf (snd exampleSim)#}"
    and i: "impl (eventOf (snd exampleSim)) = Some 1" and c: "cancelled (fst exampleSim) = (\<lambda>_. False)"
    by (simp_all add: exampleSim_def Schedule_def now_plus_def insertEvent_def DefaultSimulatorImpl_def
        MapScheduler_ops Let_def eventOf_def entry_def)
  from Run_executes_all[OF exampleSim_ok, of 2 "\<lambda>i w. w @ [i]" "[]"] show ?thesis
    by (auto simp: e i c live_def)
qed

text \<open>
  Changing the scheduler in the middle of a simulation is invisible: moving from the map to
  the heap scheduler never fails, needs one iteration per pending event, and leaves a consistent
  state with the same pending events, clock, counters and ids.
\<close>

lemma SetScheduler_keeps_invariant:
  assumes "sim_inv H s" "size (map_evs (m_events s)) < n"
  shows "\<exists>s'. SetScheduler MapScheduler HeapScheduler HeapScheduler_init n s = Inr s'
    \<and> sim_ok (\<lambda>_. heap_inv) heap_evs H s' \<and> heap_evs (m_events s') = map_evs (m_events s) \<and> clock s' = clock s"
proof -
  have s: "map_inv (m_events s)" "ranks_distinct (map_evs (m_events s))"
    using assms(1) uids_ranks_distinct by (auto simp: sim_ok_def)
  obtain h where h: "moveEvents MapScheduler HeapScheduler n (m_events s) HeapScheduler_init = Some (Inr h)"
    "heap_inv h" "heap_evs h = map_evs (m_events s)"
    using mh.moveEvents_ok[OF s(1) hs.start(1), of n] s(2) assms(2) hs.start(2) by auto
  then show ?thesis
    using assms(1) by (auto simp: SetScheduler_def sim_ok_def pending_ok_def id_ok_def clock_def IsCancelled_def)
qed

subsection \<open>The simulator on the calendar scheduler\<close>

text \<open>
  The calendar scheduler keeps its promises only along the clock; the simulator never asks for more:
  its events lie after the current time, and times are signed 64-bit numbers.  Switching to the
  calendar in the middle of a simulation keeps the state consistent, and \<^verbatim>\<open>Run\<close> goes on from
  there as with any other scheduler.
\<close>

lemma SetScheduler_calendar:
  assumes "sim_inv H s" "size (map_evs (m_events s)) < n"
  shows "\<exists>s'. SetScheduler MapScheduler CalendarScheduler (calendar_start reverse) n s = Inr s'
    \<and> sim_ok cal_inv cal_evs H s' \<and> cal_evs (m_events s') = map_evs (m_events s) \<and> clock s' = clock s"
proof -
  let ?M = "map_evs (m_events s)"
  have s: "map_inv (m_events s)" "uids_distinct ?M" "\<forall>e\<in>#?M. pending_ok s e"
    using assms(1) by (auto simp: sim_ok_def)
  have "size ?M \<le> unat (sim_uid s)"
    using s(2,3) by (intro uids_distinct_size) (auto simp: pending_ok_def)
  also have "\<dots> < 2 ^ 32" using unsigned_less[of "sim_uid s", where ?'a = nat] by simp
  finally have n: "size ?M < 2 ^ 32" .
  have "\<forall>e\<in>#?M. unat (m_ts (key e)) < 2 ^ 63" using s(3) by (auto simp: pending_ok_def)
  then obtain h where h: "moveEvents MapScheduler CalendarScheduler n (m_events s) (calendar_start reverse) = Some (Inr h)"
    "cal_inv 0 h" "cal_evs h = ?M"
    using mc.moveEvents_timed[OF s(1) cs.start(1)[of reverse]] s(2) n assms(2) cs.start(2)[of reverse] by auto
  moreover from h(2) have "cal_inv (m_currentTs s) h" by (simp add: cal_inv_def)
  ultimately show ?thesis
    using assms(1) by (auto simp: SetScheduler_def sim_ok_def pending_ok_def id_ok_def clock_def IsCancelled_def)
qed

lemma Run_consistent_calendar:
  assumes "sim_ok cal_inv cal_evs H s" "ids w \<subseteq> H" "handler_ok CalendarScheduler ids notify"
  shows "(\<exists>w' s' H'. Run CalendarScheduler notify n (w, s) = Inr (w', s') \<and> sim_ok cal_inv cal_evs H' s'
            \<and> ids w' \<subseteq> H' \<and> H \<subseteq> H' \<and> clock s \<le> clock s' \<and> (cal_evs (m_events s') = {#} \<or> m_stop s'))
       \<or> Run CalendarScheduler notify n (w, s) = Inl Diverge
       \<or> (\<exists>i v t x. notify i v t = Inl x \<and> Run CalendarScheduler notify n (w, s) = Inl x)"
  using assms by (rule cs.Run_ok)

end
