(* ===== verification/Drop_Tail_Queue.thy ===== *)
theory Drop_Tail_Queue
  imports Prelude
begin

text \<open>
  The packet queue of the network library: \<^verbatim>\<open>QueueBase\<close> with its statistics
  (network/utils/queue.cc), the template \<^verbatim>\<open>Queue\<close> (queue.h) and \<^verbatim>\<open>DropTailQueue\<close>
  (drop-tail-queue.h).  As in the template, the item type is arbitrary; \<open>sz\<close> is its member
  function \<^verbatim>\<open>GetSize\<close>.  All counters are 32 bits wide.

  \<open>packet_fifo\<close> is the contract of a bounded FIFO queue; \<open>dt\<close> interprets it for
  \<^verbatim>\<open>DropTailQueue\<close>.  The invariant says that the byte and packet counters are exact.
\<close>

subsection \<open>Sizes\<close>

datatype QueueSizeUnit = PACKETS | BYTES

record QueueSize =
  qs_unit :: QueueSizeUnit
  qs_value :: u32

definition QueueSize_greater :: "QueueSize \<Rightarrow> QueueSize \<Rightarrow> bool res" where
  "QueueSize_greater a b =
     (if qs_unit a \<noteq> qs_unit b then Inl Abort else Inr (qs_value a > qs_value b))"

definition QueueSize_less :: "QueueSize \<Rightarrow> QueueSize \<Rightarrow> bool res" where
  "QueueSize_less a b =
     (if qs_unit a \<noteq> qs_unit b then Inl Abort else Inr (qs_value a < qs_value b))"

definition QueueSize_plus :: "('a \<Rightarrow> u32) \<Rightarrow> QueueSize \<Rightarrow> 'a \<Rightarrow> QueueSize" where
  "QueueSize_plus sz a item =
     (case qs_unit a of
        PACKETS \<Rightarrow> a\<lparr>qs_value := qs_value a + 1\<rparr>
      | BYTES \<Rightarrow> a\<lparr>qs_value := qs_value a + sz item\<rparr>)"

subsection \<open>QueueBase and Queue\<close>

record 'a queue =
  m_packets :: "'a list"
  m_nBytes :: u32
  m_nTotalReceivedBytes :: u32
  m_nPackets :: u32
  m_nTotalReceivedPackets :: u32
  m_nTotalDroppedBytes :: u32
  m_nTotalDroppedBytesBeforeEnqueue :: u32
  m_nTotalDroppedBytesAfterDequeue :: u32
  m_nTotalDroppedPackets :: u32
  m_nTotalDroppedPacketsBeforeEnqueue :: u32
  m_nTotalDroppedPacketsAfterDequeue :: u32
  m_maxSize :: QueueSize

definition QueueBase :: "'a queue" where
  "QueueBase = \<lparr>m_packets = [], m_nBytes = 0, m_nTotalReceivedBytes = 0, m_nPackets = 0,
     m_nTotalReceivedPackets = 0, m_nTotalDroppedBytes = 0, m_nTotalDroppedBytesBeforeEnqueue = 0,
     m_nTotalDroppedBytesAfterDequeue = 0, m_nTotalDroppedPackets = 0,
     m_nTotalDroppedPacketsBeforeEnqueue = 0, m_nTotalDroppedPacketsAfterDequeue = 0,
     m_maxSize = \<lparr>qs_unit = PACKETS, qs_value = 0xffffffff\<rparr>\<rparr>"

definition queue_IsEmpty :: "'a queue \<Rightarrow> bool" where
  "queue_IsEmpty q \<longleftrightarrow> m_nPackets q = 0"

definition GetCurrentSize :: "'a queue \<Rightarrow> QueueSize" where
  "GetCurrentSize q =
     (case qs_unit (m_maxSize q) of
        PACKETS \<Rightarrow> \<lparr>qs_unit = PACKETS, qs_value = m_nPackets q\<rparr>
      | BYTES \<Rightarrow> \<lparr>qs_unit = BYTES, qs_value = m_nBytes q\<rparr>)"

definition ResetStatistics :: "'a queue \<Rightarrow> 'a queue" where
  "ResetStatistics q = q\<lparr>m_nTotalReceivedBytes := 0, m_nTotalReceivedPackets := 0,
     m_nTotalDroppedBytes := 0, m_nTotalDroppedBytesBeforeEnqueue := 0,
     m_nTotalDroppedBytesAfterDequeue := 0, m_nTotalDroppedPackets := 0,
     m_nTotalDroppedPacketsBeforeEnqueue := 0, m_nTotalDroppedPacketsAfterDequeue := 0\<rparr>"

definition SetMaxSize :: "QueueSize \<Rightarrow> 'a queue \<Rightarrow> 'a queue res" where
  "SetMaxSize sz q =
     (if qs_value sz = 0 then Inr q
      else
        let q = q\<lparr>m_maxSize := sz\<rparr> in
        bindr (QueueSize_less sz (GetCurrentSize q)) (\<lambda>less.
        if less then Inl Abort else Inr q))"

definition WouldOverflow :: "u32 \<Rightarrow> u32 \<Rightarrow> 'a queue \<Rightarrow> bool" where
  "WouldOverflow nPackets nBytes q =
     (case qs_unit (m_maxSize q) of
        PACKETS \<Rightarrow> m_nPackets q + nPackets > qs_value (m_maxSize q)
      | BYTES \<Rightarrow> m_nBytes q + nBytes > qs_value (m_maxSize q))"

definition DropBeforeEnqueue :: "('a \<Rightarrow> u32) \<Rightarrow> 'a \<Rightarrow> 'a queue \<Rightarrow> 'a queue" where
  "DropBeforeEnqueue sz item q = q\<lparr>
     m_nTotalDroppedPackets := m_nTotalDroppedPackets q + 1,
     m_nTotalDroppedPacketsBeforeEnqueue := m_nTotalDroppedPacketsBeforeEnqueue q + 1,
     m_nTotalDroppedBytes := m_nTotalDroppedBytes q + sz item,
     m_nTotalDroppedBytesBeforeEnqueue := m_nTotalDroppedBytesBeforeEnqueue q + sz item\<rparr>"

definition DropAfterDequeue :: "('a \<Rightarrow> u32) \<Rightarrow> 'a \<Rightarrow> 'a queue \<Rightarrow> 'a queue" where
  "DropAfterDequeue sz item q = q\<lparr>
     m_nTotalDroppedPackets := m_nTotalDroppedPackets q + 1,
     m_nTotalDroppedPacketsAfterDequeue := m_nTotalDroppedPacketsAfterDequeue q + 1,
     m_nTotalDroppedBytes := m_nTotalDroppedBytes q + sz item,
     m_nTotalDroppedBytesAfterDequeue := m_nTotalDroppedBytesAfterDequeue q + sz item\<rparr>"

definition DropAfterEnqueue :: "('a \<Rightarrow> u32) \<Rightarrow> 'a \<Rightarrow> 'a queue \<Rightarrow> 'a queue" where
  "DropAfterEnqueue sz item q = q\<lparr>
     m_nTotalDroppedPackets := m_nTotalDroppedPackets q + 1,
     m_nTotalDroppedBytes := m_nTotalDroppedBytes q + sz item\<rparr>"

text \<open>\<^verbatim>\<open>DoEnqueue\<close> at the position \<^verbatim>\<open>end()\<close>, the only one the callers use.\<close>

definition Queue_DoEnqueue :: "('a \<Rightarrow> u32) \<Rightarrow> 'a \<Rightarrow> 'a queue \<Rightarrow> ('a queue \<times> bool) res" where
  "Queue_DoEnqueue sz item q =
     bindr (QueueSize_greater (QueueSize_plus sz (GetCurrentSize q) item) (m_maxSize q)) (\<lambda>full.
     if full then Inr (DropBeforeEnqueue sz item q, False)
     else Inr (q\<lparr>m_packets := m_packets q @ [item],
                 m_nBytes := m_nBytes q + sz item,
                 m_nTotalReceivedBytes := m_nTotalReceivedBytes q + sz item,
                 m_nPackets := m_nPackets q + 1,
                 m_nTotalReceivedPackets := m_nTotalReceivedPackets q + 1\<rparr>, True))"

text \<open>
  The body shared by the operations that take an item out, which they find by \<open>pick\<close> (the item
  at an iterator and the list without it).
\<close>

definition takeOut :: "('a \<Rightarrow> u32) \<Rightarrow> ('a list \<Rightarrow> 'a \<times> 'a list) \<Rightarrow> 'a queue \<Rightarrow> ('a queue \<times> 'a option) res" where
  "takeOut sz pick q =
     (if m_nPackets q = 0 then Inr (q, None)
      else if m_packets q = [] then Inl NullDeref
      else (case pick (m_packets q) of (item, rest) \<Rightarrow>
        if \<not> m_nBytes q \<ge> sz item then Inl Assert
        else Inr (q\<lparr>m_packets := rest, m_nBytes := m_nBytes q - sz item,
                    m_nPackets := m_nPackets q - 1\<rparr>, Some item)))"

definition front_of :: "'a list \<Rightarrow> 'a \<times> 'a list" where
  "front_of xs = (hd xs, tl xs)"

definition back_of :: "'a list \<Rightarrow> 'a \<times> 'a list" where
  "back_of xs = (last xs, butlast xs)"

subsection \<open>DropTailQueue\<close>

definition DropTail_Enqueue :: "('a \<Rightarrow> u32) \<Rightarrow> 'a \<Rightarrow> 'a queue \<Rightarrow> ('a queue \<times> bool) res" where
  "DropTail_Enqueue sz item q = Queue_DoEnqueue sz item q"

definition DropTail_Dequeue :: "('a \<Rightarrow> u32) \<Rightarrow> 'a queue \<Rightarrow> ('a queue \<times> 'a option) res" where
  "DropTail_Dequeue sz q = takeOut sz front_of q"

definition DropTail_Remove :: "('a \<Rightarrow> u32) \<Rightarrow> 'a queue \<Rightarrow> ('a queue \<times> 'a option) res" where
  "DropTail_Remove sz q =
     bindr (takeOut sz front_of q) (\<lambda>(q, r).
     Inr (case r of None \<Rightarrow> (q, None) | Some item \<Rightarrow> (DropAfterDequeue sz item q, Some item)))"

definition DropTail_PushOut :: "('a \<Rightarrow> u32) \<Rightarrow> 'a queue \<Rightarrow> ('a queue \<times> 'a option) res" where
  "DropTail_PushOut sz q =
     bindr (takeOut sz back_of q) (\<lambda>(q, r).
     Inr (case r of None \<Rightarrow> (q, None) | Some item \<Rightarrow> (DropAfterEnqueue sz item q, Some item)))"

definition DropTail_Peek :: "'a queue \<Rightarrow> 'a option res" where
  "DropTail_Peek q =
     (if m_nPackets q = 0 then Inr None
      else if m_packets q = [] then Inl NullDeref else Inr (Some (hd (m_packets q))))"

definition DropTail_GetTailPacket :: "'a queue \<Rightarrow> 'a option res" where
  "DropTail_GetTailPacket q =
     (if m_nPackets q = 0 then Inr None
      else if m_packets q = [] then Inl NullDeref else Inr (Some (last (m_packets q))))"

fun Queue_Flush :: "('a \<Rightarrow> u32) \<Rightarrow> nat \<Rightarrow> 'a queue \<Rightarrow> 'a queue res" where
  "Queue_Flush sz 0 q = Inl Diverge"
| "Queue_Flush sz (Suc n) q =
     (if queue_IsEmpty q then Inr q
      else bindr (DropTail_Remove sz q) (\<lambda>(q, _). Queue_Flush sz n q))"

subsection \<open>The contract of a bounded FIFO queue\<close>

definition total_size :: "('a \<Rightarrow> u32) \<Rightarrow> 'a list \<Rightarrow> nat" where
  "total_size sz xs = sum_list (map (\<lambda>x. unat (sz x)) xs)"

locale packet_fifo =
  fixes sz :: "'a \<Rightarrow> u32"
    and enq :: "'a \<Rightarrow> 'q \<Rightarrow> ('q \<times> bool) res" and deq :: "'q \<Rightarrow> ('q \<times> 'a option) res"
    and ok :: "'q \<Rightarrow> bool" and items :: "'q \<Rightarrow> 'a list" and room :: "'q \<Rightarrow> 'a \<Rightarrow> bool"
  assumes enq: "ok q \<Longrightarrow> total_size sz (items q) + unat (sz x) < 2 ^ 32 \<Longrightarrow> length (items q) + 1 < 2 ^ 32 \<Longrightarrow>
      \<exists>q'. enq x q = Inr (q', room q x) \<and> ok q' \<and> items q' = (if room q x then items q @ [x] else items q)"
    and deq_empty: "ok q \<Longrightarrow> items q = [] \<Longrightarrow> deq q = Inr (q, None)"
    and deq: "ok q \<Longrightarrow> items q = x # xs \<Longrightarrow> \<exists>q'. deq q = Inr (q', Some x) \<and> ok q' \<and> items q' = xs"
begin

lemma deq_never_fails: "ok q \<Longrightarrow> \<exists>q' r. deq q = Inr (q', r) \<and> ok q'"
  using deq deq_empty by (cases "items q") blast+

lemma deq_result: "ok q \<Longrightarrow> deq q = Inr (q', r) \<Longrightarrow>
    ok q' \<and> items q = (case r of None \<Rightarrow> [] | Some x \<Rightarrow> x # items q')"
  using deq[of q] deq_empty[of q] by (cases "items q") fastforce+

end

definition queue_ok :: "('a \<Rightarrow> u32) \<Rightarrow> 'a queue \<Rightarrow> bool" where
  "queue_ok sz q \<longleftrightarrow> unat (m_nBytes q) = total_size sz (m_packets q)
     \<and> unat (m_nPackets q) = length (m_packets q)"

definition queue_room :: "('a \<Rightarrow> u32) \<Rightarrow> 'a queue \<Rightarrow> 'a \<Rightarrow> bool" where
  "queue_room sz q x \<longleftrightarrow>
     (case qs_unit (m_maxSize q) of
        PACKETS \<Rightarrow> length (m_packets q) + 1 \<le> unat (qs_value (m_maxSize q))
      | BYTES \<Rightarrow> total_size sz (m_packets q) + unat (sz x) \<le> unat (qs_value (m_maxSize q)))"

lemma total_size_simps [simp]:
  "total_size sz [] = 0" "total_size sz (x # xs) = unat (sz x) + total_size sz xs"
  "total_size sz (xs @ ys) = total_size sz xs + total_size sz ys"
  by (simp_all add: total_size_def)

lemma unat_plus_u32 [word_arith]:
  "unat (a :: u32) + unat b < 2 ^ 32 \<Longrightarrow> unat (a + b) = unat a + unat b"
  by (simp add: unat_word_ariths)

lemma DropTail_Enqueue_ok:
  assumes ok: "queue_ok sz q" and fit: "total_size sz (m_packets q) + unat (sz x) < 2 ^ 32"
    and n: "length (m_packets q) + 1 < 2 ^ 32"
  shows "\<exists>q'. DropTail_Enqueue sz x q = Inr (q', queue_room sz q x) \<and> queue_ok sz q'
    \<and> m_packets q' = (if queue_room sz q x then m_packets q @ [x] else m_packets q)
    \<and> m_maxSize q' = m_maxSize q"
proof -
  have b: "unat (m_nBytes q + sz x) = total_size sz (m_packets q) + unat (sz x)"
    using ok fit by (subst unat_plus_u32) (auto simp: queue_ok_def)
  have p: "unat (m_nPackets q + 1) = length (m_packets q) + 1"
    using ok n by (subst unat_plus_u32) (auto simp: queue_ok_def)
  have "QueueSize_greater (QueueSize_plus sz (GetCurrentSize q) x) (m_maxSize q) = Inr (\<not> queue_room sz q x)"
    using b p by (cases "qs_unit (m_maxSize q)")
      (simp_all add: QueueSize_greater_def QueueSize_plus_def GetCurrentSize_def queue_room_def
        word_less_nat_alt not_le)
  then show ?thesis
    using ok b p by (auto simp: DropTail_Enqueue_def Queue_DoEnqueue_def DropBeforeEnqueue_def queue_ok_def)
qed

lemma takeOut_empty: "queue_ok sz q \<Longrightarrow> m_packets q = [] \<Longrightarrow> takeOut sz pick q = Inr (q, None)"
  by (simp add: takeOut_def queue_ok_def unat_eq_0)

lemma takeOut_ok:
  assumes ok: "queue_ok sz q" and ne: "m_packets q \<noteq> []" and pick: "pick (m_packets q) = (x, rest)"
    and perm: "total_size sz (m_packets q) = unat (sz x) + total_size sz rest"
      "length (m_packets q) = Suc (length rest)"
  shows "takeOut sz pick q = Inr (q\<lparr>m_packets := rest, m_nBytes := m_nBytes q - sz x,
      m_nPackets := m_nPackets q - 1\<rparr>, Some x)"
    and "queue_ok sz (q\<lparr>m_packets := rest, m_nBytes := m_nBytes q - sz x, m_nPackets := m_nPackets q - 1\<rparr>)"
proof -
  have u: "unat (m_nBytes q) = unat (sz x) + total_size sz rest" "unat (m_nPackets q) = Suc (length rest)"
    using ok perm by (simp_all add: queue_ok_def)
  have b: "sz x \<le> m_nBytes q" unfolding word_le_nat_alt u(1) by simp
  have p: "1 \<le> m_nPackets q" unfolding word_le_nat_alt u(2) by simp
  have "m_nPackets q \<noteq> 0" using u(2) by auto
  then show "takeOut sz pick q = Inr (q\<lparr>m_packets := rest, m_nBytes := m_nBytes q - sz x,
      m_nPackets := m_nPackets q - 1\<rparr>, Some x)"
    using ne pick b by (simp add: takeOut_def)
  show "queue_ok sz (q\<lparr>m_packets := rest, m_nBytes := m_nBytes q - sz x, m_nPackets := m_nPackets q - 1\<rparr>)"
    using u unat_minus_le[OF b] unat_minus_le[OF p] by (simp add: queue_ok_def)
qed

interpretation dt: packet_fifo sz "DropTail_Enqueue sz" "DropTail_Dequeue sz" "queue_ok sz"
    m_packets "queue_room sz" for sz :: "'a \<Rightarrow> u32"
proof unfold_locales
  fix q :: "'a queue" and x
  assume "queue_ok sz q" "total_size sz (m_packets q) + unat (sz x) < 2 ^ 32"
    "length (m_packets q) + 1 < 2 ^ 32"
  from DropTail_Enqueue_ok[OF this]
  show "\<exists>q'. DropTail_Enqueue sz x q = Inr (q', queue_room sz q x) \<and> queue_ok sz q'
      \<and> m_packets q' = (if queue_room sz q x then m_packets q @ [x] else m_packets q)"
    by (elim exE conjE) (intro exI conjI)
next
  fix q :: "'a queue"
  assume "queue_ok sz q" "m_packets q = []"
  then show "DropTail_Dequeue sz q = Inr (q, None)" by (simp add: DropTail_Dequeue_def takeOut_empty)
next
  fix q :: "'a queue" and x xs
  assume "queue_ok sz q" "m_packets q = x # xs"
  then show "\<exists>q'. DropTail_Dequeue sz q = Inr (q', Some x) \<and> queue_ok sz q' \<and> m_packets q' = xs"
    using takeOut_ok[of sz q front_of x xs] by (auto simp: DropTail_Dequeue_def front_of_def)
qed

lemma DropTail_Dequeue_max:
  "DropTail_Dequeue sz q = Inr (q', r) \<Longrightarrow> m_maxSize q' = m_maxSize q"
  by (auto simp: DropTail_Dequeue_def takeOut_def split: if_splits prod.splits)

subsection \<open>Properties\<close>

lemma DropTail_Remove_ok:
  assumes "queue_ok sz q" "m_packets q = x # xs"
  shows "\<exists>q'. DropTail_Remove sz q = Inr (q', Some x) \<and> queue_ok sz q' \<and> m_packets q' = xs
    \<and> m_nTotalDroppedPackets q' = m_nTotalDroppedPackets q + 1"
  using takeOut_ok[of sz q front_of x xs] assms
  by (auto simp: DropTail_Remove_def front_of_def DropAfterDequeue_def queue_ok_def)

lemma queue_IsEmpty_iff: "queue_ok sz q \<Longrightarrow> queue_IsEmpty q \<longleftrightarrow> m_packets q = []"
  by (auto simp: queue_ok_def queue_IsEmpty_def unat_eq_0[symmetric])

text \<open>
  \<^verbatim>\<open>Flush\<close> ends: one iteration per packet and one more empties the queue, every counter
  of queued bytes and packets is zero afterwards, and each packet has been counted as dropped.
\<close>

lemma Flush_empties:
  assumes "queue_ok sz q" "length (m_packets q) < n"
  shows "\<exists>q'. Queue_Flush sz n q = Inr q' \<and> m_packets q' = [] \<and> m_nBytes q' = 0 \<and> m_nPackets q' = 0
    \<and> m_nTotalDroppedPackets q' = m_nTotalDroppedPackets q + of_nat (length (m_packets q))"
  using assms
proof (induction n arbitrary: q)
  case (Suc n)
  show ?case
  proof (cases "m_packets q")
    case Nil
    then show ?thesis
      using queue_IsEmpty_iff[OF Suc.prems(1)] Suc.prems(1) by (auto simp: queue_ok_def unat_eq_0)
  next
    case (Cons x xs)
    obtain q1 where q1: "DropTail_Remove sz q = Inr (q1, Some x)" "queue_ok sz q1" "m_packets q1 = xs"
      "m_nTotalDroppedPackets q1 = m_nTotalDroppedPackets q + 1"
      using DropTail_Remove_ok[OF Suc.prems(1) Cons] by blast
    then show ?thesis
      using Suc.IH[of q1] Suc.prems(2) queue_IsEmpty_iff[OF Suc.prems(1)] Cons
      by (auto simp: algebra_simps)
  qed
qed simp

subsection \<open>Programs\<close>

text \<open>
  A client of the queue is a sequence of operations; each gives an answer.  The specification
  \<open>listOps\<close> runs it on a list with a limit.
\<close>

datatype 'a queue_op = Enqueue 'a | Dequeue | RemoveFirst | PushOut | Peek
datatype 'a answer = Accepted bool | Taken "'a option" | Dropped "'a option" | Seen "'a option"

definition queueOp :: "('a \<Rightarrow> u32) \<Rightarrow> 'a queue_op \<Rightarrow> 'a queue \<Rightarrow> ('a queue \<times> 'a answer) res" where
  "queueOp sz op q =
     (case op of
        Enqueue x \<Rightarrow> bindr (DropTail_Enqueue sz x q) (\<lambda>(q, b). Inr (q, Accepted b))
      | Dequeue \<Rightarrow> bindr (DropTail_Dequeue sz q) (\<lambda>(q, r). Inr (q, Taken r))
      | RemoveFirst \<Rightarrow> bindr (DropTail_Remove sz q) (\<lambda>(q, r). Inr (q, Dropped r))
      | PushOut \<Rightarrow> bindr (DropTail_PushOut sz q) (\<lambda>(q, r). Inr (q, Dropped r))
      | Peek \<Rightarrow> bindr (DropTail_Peek q) (\<lambda>r. Inr (q, Seen r)))"

fun queueOps :: "('a \<Rightarrow> u32) \<Rightarrow> 'a queue_op list \<Rightarrow> 'a queue \<Rightarrow> ('a queue \<times> 'a answer list) res" where
  "queueOps sz [] q = Inr (q, [])"
| "queueOps sz (op # ops) q =
     bindr (queueOp sz op q) (\<lambda>(q, a). bindr (queueOps sz ops q) (\<lambda>(q, os). Inr (q, a # os)))"

text \<open>The specification: a list that refuses an item which would take it over its limit.\<close>

definition inLimit :: "('a \<Rightarrow> u32) \<Rightarrow> QueueSize \<Rightarrow> 'a list \<Rightarrow> bool" where
  "inLimit sz mx xs \<longleftrightarrow> (case qs_unit mx of PACKETS \<Rightarrow> length xs | BYTES \<Rightarrow> total_size sz xs) \<le> unat (qs_value mx)"

definition hd_opt :: "'a list \<Rightarrow> 'a option" where
  "hd_opt xs = (if xs = [] then None else Some (hd xs))"

definition last_opt :: "'a list \<Rightarrow> 'a option" where
  "last_opt xs = (if xs = [] then None else Some (last xs))"

definition listOp :: "('a \<Rightarrow> u32) \<Rightarrow> QueueSize \<Rightarrow> 'a queue_op \<Rightarrow> 'a list \<Rightarrow> 'a list \<times> 'a answer" where
  "listOp sz mx op xs =
     (case op of
        Enqueue x \<Rightarrow> (if inLimit sz mx (xs @ [x]) then (xs @ [x], Accepted True) else (xs, Accepted False))
      | Dequeue \<Rightarrow> (tl xs, Taken (hd_opt xs))
      | RemoveFirst \<Rightarrow> (tl xs, Dropped (hd_opt xs))
      | PushOut \<Rightarrow> (butlast xs, Dropped (last_opt xs))
      | Peek \<Rightarrow> (xs, Seen (hd_opt xs)))"

fun listOps :: "('a \<Rightarrow> u32) \<Rightarrow> QueueSize \<Rightarrow> 'a queue_op list \<Rightarrow> 'a list \<Rightarrow> 'a list \<times> 'a answer list" where
  "listOps sz mx [] xs = (xs, [])"
| "listOps sz mx (op # ops) xs =
     (case listOp sz mx op xs of (xs, a) \<Rightarrow> case listOps sz mx ops xs of (xs, os) \<Rightarrow> (xs, a # os))"

text \<open>
  Items of at most \<open>M\<close> bytes, none empty, cannot make a 32-bit counter wrap: neither the counters
  of a queue within its limit nor those sums that are only compared with the limit.
\<close>

definition no_wrap :: "nat \<Rightarrow> QueueSize \<Rightarrow> bool" where
  "no_wrap M mx \<longleftrightarrow> (case qs_unit mx of PACKETS \<Rightarrow> (unat (qs_value mx) + 1) * M | BYTES \<Rightarrow> unat (qs_value mx) + M) < 2 ^ 32"

definition item_ok :: "('a \<Rightarrow> u32) \<Rightarrow> nat \<Rightarrow> 'a \<Rightarrow> bool" where
  "item_ok sz M x \<longleftrightarrow> 0 < unat (sz x) \<and> unat (sz x) \<le> M"

definition drops :: "'a answer \<Rightarrow> bool" where
  "drops a \<longleftrightarrow> (case a of Accepted b \<Rightarrow> \<not> b | Dropped r \<Rightarrow> r \<noteq> None | _ \<Rightarrow> False)"

lemma total_size_bounds:
  assumes "\<forall>x\<in>set xs. item_ok sz M x"
  shows "length xs \<le> total_size sz xs" "total_size sz xs \<le> length xs * M"
  using assms by (induction xs) (auto simp: item_ok_def)

lemma inLimit_no_wrap:
  assumes "inLimit sz mx xs" "no_wrap M mx" "\<forall>x\<in>set xs. item_ok sz M x" "item_ok sz M x"
  shows "total_size sz xs + unat (sz x) < 2 ^ 32" "length xs + 1 < 2 ^ 32"
proof -
  have x: "0 < unat (sz x)" "unat (sz x) \<le> M" using assms(4) by (simp_all add: item_ok_def)
  note b = total_size_bounds[OF assms(3)]
  have "length xs + 1 \<le> total_size sz xs + unat (sz x) \<and> total_size sz xs + unat (sz x) < 2 ^ 32"
  proof (cases "qs_unit mx")
    case PACKETS
    have "total_size sz xs + unat (sz x) \<le> (length xs + 1) * M" using b(2) x(2) by simp
    also have "\<dots> \<le> (unat (qs_value mx) + 1) * M" using assms(1) PACKETS by (intro mult_right_mono) (auto simp: inLimit_def)
    finally show ?thesis using assms(2) PACKETS b(1) x(1) by (auto simp: no_wrap_def)
  next
    case BYTES
    then show ?thesis using assms(1,2) b(1) x by (auto simp: no_wrap_def inLimit_def)
  qed
  then show "total_size sz xs + unat (sz x) < 2 ^ 32" "length xs + 1 < 2 ^ 32" by simp_all
qed

lemma queue_room_inLimit: "queue_room sz q x = inLimit sz (m_maxSize q) (m_packets q @ [x])"
  by (simp add: queue_room_def inLimit_def split: QueueSizeUnit.split)

lemma inLimit_prefix:
  "inLimit sz mx xs \<Longrightarrow> xs \<noteq> [] \<Longrightarrow> inLimit sz mx (tl xs)"
  "inLimit sz mx xs \<Longrightarrow> xs \<noteq> [] \<Longrightarrow> inLimit sz mx (butlast xs)"
proof -
  assume w: "inLimit sz mx xs" and ne: "xs \<noteq> []"
  have "total_size sz (tl xs) \<le> total_size sz xs" using ne by (cases xs) simp_all
  then show "inLimit sz mx (tl xs)" using w by (simp add: inLimit_def split: QueueSizeUnit.splits)
  have "total_size sz (butlast xs) \<le> total_size sz (butlast xs @ [last xs])" by simp
  then have "total_size sz (butlast xs) \<le> total_size sz xs" using ne by simp
  then show "inLimit sz mx (butlast xs)" using w by (simp add: inLimit_def split: QueueSizeUnit.splits)
qed

text \<open>One operation on the queue is that operation on the list.\<close>

definition queue_is :: "('a \<Rightarrow> u32) \<Rightarrow> nat \<Rightarrow> 'a queue \<Rightarrow> bool" where
  "queue_is sz M q \<longleftrightarrow> queue_ok sz q \<and> inLimit sz (m_maxSize q) (m_packets q) \<and> no_wrap M (m_maxSize q)
     \<and> (\<forall>x\<in>set (m_packets q). item_ok sz M x)"

definition implements :: "('a \<Rightarrow> u32) \<Rightarrow> nat \<Rightarrow> 'a queue \<Rightarrow> 'a queue \<Rightarrow> 'a answer \<Rightarrow> 'a list \<Rightarrow> bool" where
  "implements sz M q q' a xs \<longleftrightarrow> queue_is sz M q' \<and> m_packets q' = xs \<and> m_maxSize q' = m_maxSize q
     \<and> m_nTotalDroppedPackets q' = m_nTotalDroppedPackets q + (if drops a then 1 else 0)
     \<and> m_nTotalReceivedPackets q' = m_nTotalReceivedPackets q + (if a = Accepted True then 1 else 0)"

lemma takeOut_rest:
  assumes "queue_is sz M q" "m_packets q \<noteq> []"
  shows "\<exists>q'. takeOut sz front_of q = Inr (q', Some (hd (m_packets q))) \<and> implements sz M q q' (Taken (Some (hd (m_packets q)))) (tl (m_packets q))"
    and "\<exists>q'. takeOut sz back_of q = Inr (q', Some (last (m_packets q))) \<and> implements sz M q q' (Taken (Some (last (m_packets q)))) (butlast (m_packets q))"
proof -
  let ?xs = "m_packets q"
  have ok: "queue_ok sz q" using assms(1) by (simp add: queue_is_def)
  have f: "total_size sz ?xs = unat (sz (hd ?xs)) + total_size sz (tl ?xs)" using assms(2) by (cases ?xs) simp_all
  have "total_size sz (butlast ?xs @ [last ?xs]) = unat (sz (last ?xs)) + total_size sz (butlast ?xs)" by simp
  then have b: "total_size sz ?xs = unat (sz (last ?xs)) + total_size sz (butlast ?xs)" using assms(2) by simp
  have s: "set (tl ?xs) \<subseteq> set ?xs" "set (butlast ?xs) \<subseteq> set ?xs" using assms(2) by (auto simp: list.set_sel(2) dest: in_set_butlastD)
  note tf = takeOut_ok[OF ok assms(2) _ f, of front_of] and tb = takeOut_ok[OF ok assms(2) _ b, of back_of]
  show "\<exists>q'. takeOut sz front_of q = Inr (q', Some (hd ?xs)) \<and> implements sz M q q' (Taken (Some (hd ?xs))) (tl ?xs)"
    using tf assms s(1) inLimit_prefix(1)
    by (auto simp: front_of_def implements_def queue_is_def drops_def)
  show "\<exists>q'. takeOut sz back_of q = Inr (q', Some (last ?xs)) \<and> implements sz M q q' (Taken (Some (last ?xs))) (butlast ?xs)"
    using tb assms s(2) inLimit_prefix(2)
    by (auto simp: back_of_def implements_def queue_is_def drops_def)
qed

definition op_ok :: "('a \<Rightarrow> u32) \<Rightarrow> nat \<Rightarrow> 'a queue_op \<Rightarrow> bool" where
  "op_ok sz M op \<longleftrightarrow> (case op of Enqueue x \<Rightarrow> item_ok sz M x | _ \<Rightarrow> True)"

lemma Enqueue_implements:
  assumes "queue_is sz M q" "item_ok sz M x"
  shows "\<exists>q'. queueOp sz (Enqueue x) q = Inr (q', snd (listOp sz (m_maxSize q) (Enqueue x) (m_packets q)))
     \<and> implements sz M q q' (snd (listOp sz (m_maxSize q) (Enqueue x) (m_packets q))) (fst (listOp sz (m_maxSize q) (Enqueue x) (m_packets q)))"
proof -
  have q: "queue_ok sz q" "inLimit sz (m_maxSize q) (m_packets q)" "no_wrap M (m_maxSize q)" "\<forall>x\<in>set (m_packets q). item_ok sz M x"
    using assms(1) by (simp_all add: queue_is_def)
  note fit = inLimit_no_wrap[OF q(2-4) assms(2)]
  let ?r = "inLimit sz (m_maxSize q) (m_packets q @ [x])"
  from DropTail_Enqueue_ok[OF q(1) fit] obtain q' where
    q': "DropTail_Enqueue sz x q = Inr (q', ?r)" "queue_ok sz q'" "m_maxSize q' = m_maxSize q"
      "m_packets q' = (if ?r then m_packets q @ [x] else m_packets q)" by (auto simp: queue_room_inLimit)
  have "m_nTotalDroppedPackets q' = m_nTotalDroppedPackets q + (if ?r then 0 else 1)"
    "m_nTotalReceivedPackets q' = m_nTotalReceivedPackets q + (if ?r then 1 else 0)"
    using q'(1) by (auto simp: DropTail_Enqueue_def Queue_DoEnqueue_def DropBeforeEnqueue_def bindr_Inr_iff split: if_splits)
  then show ?thesis using q' q assms(2)
    by (auto simp: queueOp_def listOp_def implements_def queue_is_def drops_def)
qed

lemma queueOp_implements:
  assumes "queue_is sz M q" "op_ok sz M op"
  shows "\<exists>q'. queueOp sz op q = Inr (q', snd (listOp sz (m_maxSize q) op (m_packets q)))
     \<and> implements sz M q q' (snd (listOp sz (m_maxSize q) op (m_packets q))) (fst (listOp sz (m_maxSize q) op (m_packets q)))"
proof (cases "m_packets q = []")
  case True
  have ok: "queue_ok sz q" using assms(1) by (simp add: queue_is_def)
  have np: "m_nPackets q = 0" using ok True by (simp add: queue_ok_def unat_eq_0)
  show ?thesis
  proof (cases op)
    case (Enqueue x)
    then show ?thesis using Enqueue_implements[OF assms(1)] assms(2) by (simp add: op_ok_def)
  qed (use takeOut_empty[OF ok True] True np assms(1) in \<open>simp_all add: queueOp_def listOp_def DropTail_Dequeue_def
      DropTail_Remove_def DropTail_PushOut_def DropTail_Peek_def hd_opt_def last_opt_def implements_def drops_def\<close>)
next
  case False
  obtain f where f: "takeOut sz front_of q = Inr (f, Some (hd (m_packets q)))"
      "implements sz M q f (Taken (Some (hd (m_packets q)))) (tl (m_packets q))"
    using takeOut_rest(1)[OF assms(1) False] by blast
  obtain b where b: "takeOut sz back_of q = Inr (b, Some (last (m_packets q)))"
      "implements sz M q b (Taken (Some (last (m_packets q)))) (butlast (m_packets q))"
    using takeOut_rest(2)[OF assms(1) False] by blast
  have np: "m_nPackets q \<noteq> 0" using assms(1) False by (auto simp: queue_is_def queue_ok_def)
  show ?thesis
  proof (cases op)
    case (Enqueue x)
    then show ?thesis using Enqueue_implements[OF assms(1)] assms(2) by (simp add: op_ok_def)
  next
    case Dequeue
    then show ?thesis using f False by (simp add: queueOp_def listOp_def DropTail_Dequeue_def hd_opt_def)
  next
    case RemoveFirst
    then show ?thesis using f False
      by (auto simp: queueOp_def listOp_def DropTail_Remove_def DropAfterDequeue_def hd_opt_def implements_def drops_def
          queue_is_def queue_ok_def)
  next
    case PushOut
    then show ?thesis using b False
      by (auto simp: queueOp_def listOp_def DropTail_PushOut_def DropAfterEnqueue_def last_opt_def implements_def drops_def
          queue_is_def queue_ok_def)
  next
    case Peek
    then show ?thesis using False np assms(1)
      by (simp add: queueOp_def listOp_def DropTail_Peek_def hd_opt_def implements_def drops_def)
  qed
qed

lemma queueOps_implements:
  assumes "queue_is sz M q" "\<forall>op\<in>set ops. op_ok sz M op"
  shows "\<exists>q'. queueOps sz ops q = Inr (q', snd (listOps sz (m_maxSize q) ops (m_packets q)))
     \<and> queue_is sz M q' \<and> m_packets q' = fst (listOps sz (m_maxSize q) ops (m_packets q)) \<and> m_maxSize q' = m_maxSize q
     \<and> m_nTotalDroppedPackets q' = m_nTotalDroppedPackets q
         + of_nat (length (filter drops (snd (listOps sz (m_maxSize q) ops (m_packets q)))))
     \<and> m_nTotalReceivedPackets q' = m_nTotalReceivedPackets q
         + of_nat (length (filter (\<lambda>a. a = Accepted True) (snd (listOps sz (m_maxSize q) ops (m_packets q)))))"
  using assms
proof (induction ops arbitrary: q)
  case Nil
  then show ?case by simp
next
  case (Cons op ops)
  let ?step = "listOp sz (m_maxSize q) op (m_packets q)"
  obtain q1 where q1: "queueOp sz op q = Inr (q1, snd ?step)" "implements sz M q q1 (snd ?step) (fst ?step)"
    using queueOp_implements[of sz M q op] Cons.prems by auto
  have "queue_is sz M q1" using q1(2) by (simp add: implements_def)
  from Cons.IH[OF this] Cons.prems(2) obtain q' where
    "queueOps sz ops q1 = Inr (q', snd (listOps sz (m_maxSize q1) ops (m_packets q1)))" "queue_is sz M q'"
    "m_packets q' = fst (listOps sz (m_maxSize q1) ops (m_packets q1))" "m_maxSize q' = m_maxSize q1"
    "m_nTotalDroppedPackets q' = m_nTotalDroppedPackets q1
         + of_nat (length (filter drops (snd (listOps sz (m_maxSize q1) ops (m_packets q1)))))"
    "m_nTotalReceivedPackets q' = m_nTotalReceivedPackets q1
         + of_nat (length (filter (\<lambda>a. a = Accepted True) (snd (listOps sz (m_maxSize q1) ops (m_packets q1)))))"
    by auto
  then show ?case using q1 by (auto simp: implements_def split_beta algebra_simps)
qed

text \<open>
  C34.  A drop-tail queue is a bounded list: any sequence of \<^verbatim>\<open>Enqueue\<close>, \<^verbatim>\<open>Dequeue\<close>,
  \<^verbatim>\<open>Remove\<close>, \<^verbatim>\<open>PushOut\<close> and \<^verbatim>\<open>Peek\<close> on an empty queue returns and gives the answers of the list
  that appends an item, or refuses it when it would take the list over the configured limit (of packets or of bytes),
  takes items out at the front, or at the back for \<^verbatim>\<open>PushOut\<close>.  The limit stays as it was
  configured and is never exceeded, the byte and packet counters are exact, and the statistics count the items
  that were accepted and those that were refused or thrown out.  Items are not empty and at most \<open>M\<close> bytes long, with a
  limit for which the 32-bit sums do not wrap (\<open>no_wrap\<close>); a sum that wrapped would be compared with the limit as a small number.
\<close>

theorem DropTail_fifo:
  assumes "queue_ok sz q" "m_packets q = []" "no_wrap M (m_maxSize q)"
    and "\<forall>x. Enqueue x \<in> set ops \<longrightarrow> 0 < unat (sz x) \<and> unat (sz x) \<le> M"
  shows "\<exists>q' answers. queueOps sz ops q = Inr (q', answers)
     \<and> listOps sz (m_maxSize q) ops [] = (m_packets q', answers)
     \<and> queue_ok sz q' \<and> m_maxSize q' = m_maxSize q \<and> inLimit sz (m_maxSize q) (m_packets q')
     \<and> m_nTotalDroppedPackets q' = m_nTotalDroppedPackets q + of_nat (length (filter drops answers))
     \<and> m_nTotalReceivedPackets q' = m_nTotalReceivedPackets q + of_nat (length (filter (\<lambda>a. a = Accepted True) answers))"
proof -
  have "queue_is sz M q" using assms(1-3) by (simp add: queue_is_def inLimit_def split: QueueSizeUnit.split)
  moreover have "\<forall>op\<in>set ops. op_ok sz M op" using assms(4) by (auto simp: op_ok_def item_ok_def split: queue_op.split)
  ultimately obtain q' where q': "queueOps sz ops q = Inr (q', snd (listOps sz (m_maxSize q) ops []))"
      "queue_is sz M q'" "m_packets q' = fst (listOps sz (m_maxSize q) ops [])" "m_maxSize q' = m_maxSize q"
      "m_nTotalDroppedPackets q' = m_nTotalDroppedPackets q
         + of_nat (length (filter drops (snd (listOps sz (m_maxSize q) ops []))))"
      "m_nTotalReceivedPackets q' = m_nTotalReceivedPackets q
         + of_nat (length (filter (\<lambda>a. a = Accepted True) (snd (listOps sz (m_maxSize q) ops []))))"
    using queueOps_implements[of sz M q ops] unfolding assms(2) by blast
  then show ?thesis unfolding queue_is_def
    by (intro exI[of _ q'] exI[of _ "snd (listOps sz (m_maxSize q) ops [])"]) simp
qed

text \<open>A queue of two packets: the third is refused, the first comes out first.\<close>

theorem DropTail_fifo_witness:
  "\<exists>q'. queueOps (\<lambda>x. x) [Enqueue 100, Enqueue 200, Enqueue 300, Dequeue, PushOut, Dequeue]
        ((QueueBase :: u32 queue)\<lparr>m_maxSize := \<lparr>qs_unit = PACKETS, qs_value = 2\<rparr>\<rparr>)
      = Inr (q', [Accepted True, Accepted True, Accepted False, Taken (Some 100), Dropped (Some 200), Taken None])
    \<and> m_nTotalDroppedPackets q' = 2 \<and> m_nTotalReceivedPackets q' = 2 \<and> m_nBytes q' = 0"
proof -
  let ?q = "(QueueBase :: u32 queue)\<lparr>m_maxSize := \<lparr>qs_unit = PACKETS, qs_value = 2\<rparr>\<rparr>"
  let ?ops = "[Enqueue 100, Enqueue 200, Enqueue 300, Dequeue, PushOut, Dequeue] :: u32 queue_op list"
  have q: "queue_ok (\<lambda>x. x) ?q" "m_packets ?q = []" "no_wrap 1500 (m_maxSize ?q)"
    by (simp_all add: queue_ok_def QueueBase_def no_wrap_def)
  have ops: "\<forall>x. Enqueue x \<in> set ?ops \<longrightarrow> 0 < unat x \<and> unat x \<le> 1500" by auto
  obtain q' where q': "queueOps (\<lambda>x. x) ?ops ?q = Inr (q', snd (listOps (\<lambda>x. x) (m_maxSize ?q) ?ops []))"
    "m_packets q' = fst (listOps (\<lambda>x. x) (m_maxSize ?q) ?ops [])" "queue_ok (\<lambda>x. x) q'"
    "m_nTotalDroppedPackets q' = m_nTotalDroppedPackets ?q + of_nat (length (filter drops (snd (listOps (\<lambda>x. x) (m_maxSize ?q) ?ops []))))"
    "m_nTotalReceivedPackets q' = m_nTotalReceivedPackets ?q
       + of_nat (length (filter (\<lambda>a. a = Accepted True) (snd (listOps (\<lambda>x. x) (m_maxSize ?q) ?ops []))))"
    using DropTail_fifo[OF q ops] by auto
  have run: "listOps (\<lambda>x. x) (m_maxSize ?q) ?ops []
      = ([], [Accepted True, Accepted True, Accepted False, Taken (Some 100), Dropped (Some 200), Taken None])"
    by (simp add: listOp_def inLimit_def hd_opt_def last_opt_def)
  show ?thesis
    using q' unfolding run by (intro exI[of _ q']) (simp add: QueueBase_def drops_def queue_ok_def unat_eq_0)
qed

end
