(* ===== verification/Egress_Queue.thy ===== *)
theory Egress_Queue
  imports Drop_Tail_Queue Cpp_Double
begin

text \<open>
  The egress queue of a switch port (\<^verbatim>\<open>BEgressQueue\<close>, network/utils/broadcom-egress-queue.cc):
  128 drop-tail queues of which the first eight are served, queue 0 with strict priority and
  without regard to pauses, the others round robin, skipping paused ones.  The members
  \<^verbatim>\<open>m_qlast\<close> and \<^verbatim>\<open>numTxBytes\<close> are not initialised by the constructor: their first values are
  its arguments.  Queue indices, which stay below eight, are natural numbers.

  The lemmas: the byte counters are exact; an enqueue below the limit never reaches the abort
  calls; the packet that leaves is the head of the queue the discipline prescribes; a queue that is
  not paused waits for at most seven other packets once queue 0 is empty.
\<close>

subsection \<open>State and operations\<close>

definition fCnt :: nat where "fCnt = 128"
definition beq_qCnt :: nat where "beq_qCnt = 8"

record 'a beq =
  m_maxBytes :: double
  m_bytesInQueue :: "u32 arr"
  m_bytesInQueueTotal :: u32
  m_rxBytes :: u64
  m_rrlast :: nat
  m_qlast :: nat
  m_queues :: "'a queue list"
  numTxBytes :: u64

definition BEgressQueue :: "nat \<Rightarrow> u64 \<Rightarrow> 'a beq" where
  "BEgressQueue qlast0 tx0 = \<lparr>m_maxBytes = 1000 * 1024 * 1024, m_bytesInQueue = (\<lambda>_. 0),
     m_bytesInQueueTotal = 0, m_rxBytes = 0, m_rrlast = 0, m_qlast = qlast0,
     m_queues = replicate fCnt (QueueBase\<lparr>m_maxSize := \<lparr>qs_unit = BYTES, qs_value = 1048576000\<rparr>\<rparr>),
     numTxBytes = tx0\<rparr>"

definition BEgressQueue_DoEnqueue :: "('a \<Rightarrow> u32) \<Rightarrow> 'a \<Rightarrow> nat \<Rightarrow> 'a beq \<Rightarrow> ('a beq \<times> bool) res" where
  "BEgressQueue_DoEnqueue sz p qIndex b =
     (if qIndex \<ge> length (m_queues b) \<or> qIndex \<ge> fCnt then Inl OutOfBounds
      else if of_nat (unat (m_bytesInQueueTotal b + sz p)) < m_maxBytes b then
        bindr (DropTail_Enqueue sz p (m_queues b ! qIndex)) (\<lambda>(q, ok).
        if \<not> ok then Inl Abort
        else Inr (b\<lparr>m_queues := (m_queues b)[qIndex := q],
                    m_bytesInQueueTotal := m_bytesInQueueTotal b + sz p,
                    m_bytesInQueue := (m_bytesInQueue b)(qIndex := m_bytesInQueue b qIndex + sz p),
                    m_rxBytes := m_rxBytes b + ucast (sz p)\<rparr>, True))
      else Inl Abort)"

definition BEgressQueue_Enqueue :: "('a \<Rightarrow> u32) \<Rightarrow> 'a \<Rightarrow> nat \<Rightarrow> 'a beq \<Rightarrow> ('a beq \<times> bool) res" where
  "BEgressQueue_Enqueue sz p qIndex b = BEgressQueue_DoEnqueue sz p qIndex b"

text \<open>The round-robin scan: the first candidate after \<^verbatim>\<open>m_rrlast\<close>.\<close>

definition rrScan :: "(nat \<Rightarrow> bool) \<Rightarrow> 'a beq \<Rightarrow> nat option" where
  "rrScan paused b =
     map_option (\<lambda>k. (k + m_rrlast b) mod beq_qCnt)
       (find (\<lambda>k. \<not> paused ((k + m_rrlast b) mod beq_qCnt)
                  \<and> m_nPackets (m_queues b ! ((k + m_rrlast b) mod beq_qCnt)) > 0)
             [1..<beq_qCnt + 1])"

definition DoDequeueRR :: "('a \<Rightarrow> u32) \<Rightarrow> (nat \<Rightarrow> bool) \<Rightarrow> 'a beq \<Rightarrow> ('a beq \<times> 'a option) res" where
  "DoDequeueRR sz paused b =
     (if m_bytesInQueueTotal b = 0 then Inr (b, None)
      else
        case (if m_nPackets (m_queues b ! 0) > 0 then Some 0 else rrScan paused b) of
          None \<Rightarrow> Inr (b, None)
        | Some qIndex \<Rightarrow>
            bindr (DropTail_Dequeue sz (m_queues b ! qIndex)) (\<lambda>(q, r).
            case r of
              None \<Rightarrow> Inl NullDeref
            | Some p \<Rightarrow>
                Inr (b\<lparr>m_queues := (m_queues b)[qIndex := q],
                       m_bytesInQueueTotal := m_bytesInQueueTotal b - sz p,
                       m_bytesInQueue := (m_bytesInQueue b)(qIndex := m_bytesInQueue b qIndex - sz p),
                       m_rrlast := (if qIndex \<noteq> 0 then qIndex else m_rrlast b),
                       m_qlast := qIndex,
                       numTxBytes := numTxBytes b + ucast (sz p)\<rparr>, Some p)))"

definition DequeueRR :: "('a \<Rightarrow> u32) \<Rightarrow> (nat \<Rightarrow> bool) \<Rightarrow> 'a beq \<Rightarrow> ('a beq \<times> 'a option) res" where
  "DequeueRR sz paused b = DoDequeueRR sz paused b"

definition beq_GetNBytes :: "nat \<Rightarrow> 'a beq \<Rightarrow> u32 res" where
  "beq_GetNBytes qIndex b = (if qIndex < fCnt then Inr (m_bytesInQueue b qIndex) else Inl OutOfBounds)"

definition GetNBytesTotal :: "'a beq \<Rightarrow> u32" where
  "GetNBytesTotal b = m_bytesInQueueTotal b"

definition GetNBytesRxTotal :: "'a beq \<Rightarrow> u32" where
  "GetNBytesRxTotal b = ucast (m_rxBytes b)"

definition GetLastQueue :: "'a beq \<Rightarrow> nat" where
  "GetLastQueue b = m_qlast b"

definition getTxBytes :: "'a beq \<Rightarrow> 'a beq \<times> u64" where
  "getTxBytes b = (b\<lparr>numTxBytes := 0\<rparr>, numTxBytes b)"

text \<open>The three members kept for the interface of \<^verbatim>\<open>Queue\<close>, which work on queue 0.\<close>

definition BEgressQueue_DoEnqueue0 :: "('a \<Rightarrow> u32) \<Rightarrow> 'a \<Rightarrow> 'a beq \<Rightarrow> ('a beq \<times> bool) res" where
  "BEgressQueue_DoEnqueue0 sz p b =
     (if of_nat (unat (m_bytesInQueueTotal b + sz p)) < m_maxBytes b then
        bindr (DropTail_Enqueue sz p (m_queues b ! 0)) (\<lambda>(q, ok).
        Inr (b\<lparr>m_queues := (m_queues b)[0 := q],
               m_bytesInQueueTotal := m_bytesInQueueTotal b + sz p,
               m_bytesInQueue := (m_bytesInQueue b)(0 := m_bytesInQueue b 0 + sz p),
               m_rxBytes := m_rxBytes b + ucast (sz p)\<rparr>, True))
      else Inr (b, False))"

definition BEgressQueue_DoDequeue :: "'a beq \<Rightarrow> ('a beq \<times> 'a option) res" where
  "BEgressQueue_DoDequeue b = Inl Assert"

definition BEgressQueue_DoPeek :: "'a beq \<Rightarrow> 'a option res" where
  "BEgressQueue_DoPeek b =
     (if m_bytesInQueueTotal b = 0 then Inr None else DropTail_Peek (m_queues b ! 0))"

subsection \<open>Invariant\<close>

definition contents :: "'a beq \<Rightarrow> nat \<Rightarrow> 'a list" where
  "contents b i = m_packets (m_queues b ! i)"

definition beq_ok :: "('a \<Rightarrow> u32) \<Rightarrow> 'a beq \<Rightarrow> bool" where
  "beq_ok sz b \<longleftrightarrow> length (m_queues b) = fCnt \<and> m_rrlast b < beq_qCnt \<and> m_maxBytes b = 1048576000
     \<and> unat (m_bytesInQueueTotal b) < 1048576000
     \<and> unat (m_bytesInQueueTotal b) = (\<Sum>i<fCnt. total_size sz (contents b i))
     \<and> (\<forall>i<fCnt. queue_ok sz (m_queues b ! i)
          \<and> m_maxSize (m_queues b ! i) = \<lparr>qs_unit = BYTES, qs_value = 1048576000\<rparr>
          \<and> m_bytesInQueue b i = m_nBytes (m_queues b ! i)
          \<and> (\<forall>x\<in>set (contents b i). 0 < sz x))"

lemma beq_start: "beq_ok sz (BEgressQueue l t)"
  by (simp add: beq_ok_def BEgressQueue_def contents_def QueueBase_def queue_ok_def fCnt_def beq_qCnt_def)

lemma total_size_cell:
  "i < fCnt \<Longrightarrow> total_size sz (contents b i) \<le> (\<Sum>i<fCnt. total_size sz (contents b i))"
  by (rule member_le_sum) auto

lemma sum_change:
  fixes f g :: "nat \<Rightarrow> nat"
  assumes "i < n" "\<And>j. j \<noteq> i \<Longrightarrow> g j = f j"
  shows "(\<Sum>j<n. g j) + f i = (\<Sum>j<n. f j) + g i"
proof -
  have "(\<Sum>j\<in>{..<n} - {i}. g j) = (\<Sum>j\<in>{..<n} - {i}. f j)" by (rule sum.cong) (auto simp: assms(2))
  then show ?thesis
    using sum.remove[of "{..<n}" i g] sum.remove[of "{..<n}" i f] assms(1) by simp
qed

lemma length_le_total: "(\<And>x. x \<in> set xs \<Longrightarrow> 0 < sz x) \<Longrightarrow> length xs \<le> total_size sz xs"
proof (induction xs)
  case (Cons x xs)
  have "0 < unat (sz x)" using Cons.prems[of x] by (simp add: word_less_nat_alt)
  then show ?case using Cons by fastforce
qed simp

lemma beq_okD:
  assumes "beq_ok sz b" "i < fCnt"
  shows "queue_ok sz (m_queues b ! i)" "total_size sz (contents b i) \<le> unat (m_bytesInQueueTotal b)"
    "length (contents b i) < 1048576000" "m_nPackets (m_queues b ! i) = 0 \<longleftrightarrow> contents b i = []"
    "i < length (m_queues b)" "\<forall>x\<in>set (contents b i). 0 < sz x"
    "m_bytesInQueue b i = m_nBytes (m_queues b ! i)"
    "m_maxSize (m_queues b ! i) = \<lparr>qs_unit = BYTES, qs_value = 1048576000\<rparr>"
proof -
  show q: "queue_ok sz (m_queues b ! i)" and "i < length (m_queues b)" and s: "\<forall>x\<in>set (contents b i). 0 < sz x"
    and "m_bytesInQueue b i = m_nBytes (m_queues b ! i)"
    and "m_maxSize (m_queues b ! i) = \<lparr>qs_unit = BYTES, qs_value = 1048576000\<rparr>"
    using assms by (auto simp: beq_ok_def)
  show t: "total_size sz (contents b i) \<le> unat (m_bytesInQueueTotal b)"
    using assms total_size_cell[OF assms(2), of sz b] by (simp add: beq_ok_def)
  have "length (contents b i) \<le> total_size sz (contents b i)" using s by (intro length_le_total) blast
  then show "length (contents b i) < 1048576000" using t assms(1) by (simp add: beq_ok_def)
  show "m_nPackets (m_queues b ! i) = 0 \<longleftrightarrow> contents b i = []"
    using q by (auto simp: queue_ok_def contents_def unat_eq_0[symmetric])
qed

text \<open>Replacing one queue, with the counters following it, keeps the invariant.\<close>

lemma beq_ok_replace:
  assumes ok: "beq_ok sz b" and i: "i < fCnt" and q: "queue_ok sz q"
    and mx: "m_maxSize q = \<lparr>qs_unit = BYTES, qs_value = 1048576000\<rparr>"
    and pos: "\<forall>x\<in>set (m_packets q). 0 < sz x"
    and t: "unat t + total_size sz (contents b i) = unat (m_bytesInQueueTotal b) + total_size sz (m_packets q)"
      "unat t < 1048576000"
    and r: "m_rrlast b' < beq_qCnt" and qs: "m_queues b' = (m_queues b)[i := q]"
    and bt: "m_bytesInQueueTotal b' = t" "m_bytesInQueue b' = (m_bytesInQueue b)(i := m_nBytes q)"
      "m_maxBytes b' = m_maxBytes b"
  shows "beq_ok sz b'"
proof -
  have len: "i < length (m_queues b)" "length (m_queues b) = fCnt" using ok i by (auto simp: beq_ok_def)
  have c: "contents b' j = (if j = i then m_packets q else contents b j)" for j
    using len by (simp add: contents_def qs)
  have "(\<Sum>j<fCnt. total_size sz (contents b' j)) + total_size sz (contents b i) =
      (\<Sum>j<fCnt. total_size sz (contents b j)) + total_size sz (contents b' i)"
    using i by (intro sum_change) (auto simp: c)
  then have "unat t = (\<Sum>j<fCnt. total_size sz (contents b' j))"
    using t(1) ok by (simp add: beq_ok_def c)
  moreover have "queue_ok sz (m_queues b' ! j)
      \<and> m_maxSize (m_queues b' ! j) = \<lparr>qs_unit = BYTES, qs_value = 1048576000\<rparr>
      \<and> m_bytesInQueue b' j = m_nBytes (m_queues b' ! j)
      \<and> (\<forall>x\<in>set (contents b' j). 0 < sz x)" if "j < fCnt" for j
    using ok that q mx pos len by (auto simp: beq_ok_def qs bt c)
  ultimately show ?thesis
    using ok t(2) r by (auto simp: beq_ok_def qs bt)
qed

subsection \<open>Enqueue\<close>

lemma DoEnqueue_ok:
  assumes ok: "beq_ok sz b" and i: "i < fCnt" and x: "0 < sz x" "unat (sz x) < 2 ^ 31"
  shows "if unat (m_bytesInQueueTotal b) + unat (sz x) < 1048576000
    then \<exists>b'. BEgressQueue_DoEnqueue sz x i b = Inr (b', True) \<and> beq_ok sz b'
           \<and> (\<forall>j. contents b' j = (if j = i then contents b i @ [x] else contents b j))
           \<and> unat (m_bytesInQueueTotal b') = unat (m_bytesInQueueTotal b) + unat (sz x)
    else BEgressQueue_DoEnqueue sz x i b = Inl Abort"
proof -
  note D = beq_okD[OF ok i]
  have tot: "unat (m_bytesInQueueTotal b) < 1048576000" "m_maxBytes b = 1048576000"
    "length (m_queues b) = fCnt" "m_rrlast b < beq_qCnt" using ok by (auto simp: beq_ok_def)
  have u: "unat (m_bytesInQueueTotal b + sz x) = unat (m_bytesInQueueTotal b) + unat (sz x)"
    using tot x(2) by (intro unat_plus_u32) simp
  have lt: "of_nat n < m_maxBytes b \<longleftrightarrow> n < 1048576000" for n :: nat
    unfolding tot(2) using of_nat_less_iff[of n 1048576000, where ?'a = rat] by simp
  show ?thesis
  proof (cases "unat (m_bytesInQueueTotal b) + unat (sz x) < 1048576000")
    case False
    have "\<not> of_nat (unat (m_bytesInQueueTotal b + sz x)) < m_maxBytes b" unfolding lt u using False .
    then show ?thesis using False tot i by (simp add: BEgressQueue_DoEnqueue_def del: of_nat_unat)
  next
    case True
    have c: "of_nat (unat (m_bytesInQueueTotal b + sz x)) < m_maxBytes b" unfolding lt u using True .
    have small: "total_size sz (contents b i) + unat (sz x) < 1048576000" using D(2) True by simp
    have room: "queue_room sz (m_queues b ! i) x"
      using D(8) small by (simp add: queue_room_def contents_def)
    obtain q where q: "DropTail_Enqueue sz x (m_queues b ! i) = Inr (q, True)" "queue_ok sz q"
      "m_packets q = contents b i @ [x]" "m_maxSize q = m_maxSize (m_queues b ! i)"
      using DropTail_Enqueue_ok[OF D(1), of x] small D(3) room by (auto simp: contents_def)
    have nb: "m_nBytes q = m_bytesInQueue b i + sz x"
      using q(1) by (auto simp: D(7) DropTail_Enqueue_def Queue_DoEnqueue_def bindr_Inr_iff split: if_splits)
    define b' where "b' = b\<lparr>m_queues := (m_queues b)[i := q],
        m_bytesInQueueTotal := m_bytesInQueueTotal b + sz x,
        m_bytesInQueue := (m_bytesInQueue b)(i := m_bytesInQueue b i + sz x),
        m_rxBytes := m_rxBytes b + ucast (sz x)\<rparr>"
    have run: "BEgressQueue_DoEnqueue sz x i b = Inr (b', True)"
      using c q(1) tot(3) i by (simp add: BEgressQueue_DoEnqueue_def b'_def del: of_nat_unat)
    have "beq_ok sz b'"
    proof (rule beq_ok_replace[OF ok i q(2)])
      show "m_maxSize q = \<lparr>qs_unit = BYTES, qs_value = 1048576000\<rparr>" using q(4) D(8) by simp
      show "\<forall>x\<in>set (m_packets q). 0 < sz x" using q(3) D(6) x(1) by auto
      show "unat (m_bytesInQueueTotal b + sz x) + total_size sz (contents b i) =
          unat (m_bytesInQueueTotal b) + total_size sz (m_packets q)" unfolding u q(3) by simp
      show "unat (m_bytesInQueueTotal b + sz x) < 1048576000" unfolding u using True .
    qed (use tot in \<open>simp_all add: b'_def nb\<close>)
    moreover have "contents b' j = (if j = i then contents b i @ [x] else contents b j)" for j
      using tot(3) i q(3) by (simp add: b'_def contents_def)
    moreover have "unat (m_bytesInQueueTotal b') = unat (m_bytesInQueueTotal b) + unat (sz x)"
      using u by (simp add: b'_def)
    ultimately show ?thesis using True run by auto
  qed
qed

subsection \<open>Dequeue\<close>

text \<open>The queue that is served: queue 0, or the next candidate of the round robin.\<close>

definition eligible :: "(nat \<Rightarrow> bool) \<Rightarrow> 'a beq \<Rightarrow> nat \<Rightarrow> bool" where
  "eligible paused b j \<longleftrightarrow> \<not> paused j \<and> contents b j \<noteq> []"

definition served :: "(nat \<Rightarrow> bool) \<Rightarrow> 'a beq \<Rightarrow> nat option" where
  "served paused b = (if contents b 0 \<noteq> [] then Some 0 else rrScan paused b)"

lemma rrScan_eligible:
  assumes "beq_ok sz b"
  shows "rrScan paused b = map_option (\<lambda>k. (k + m_rrlast b) mod 8)
    (find (\<lambda>k. eligible paused b ((k + m_rrlast b) mod 8)) [1..<9])"
proof -
  have "m_nPackets (m_queues b ! (k mod 8)) > 0 \<longleftrightarrow> contents b (k mod 8) \<noteq> []" for k
  proof -
    have "k mod 8 < fCnt" by (rule order_less_trans[of _ 8]) (simp_all add: fCnt_def)
    then show ?thesis using beq_okD(4)[OF assms, of "k mod 8"] by (auto simp: word_gt_0)
  qed
  then show ?thesis unfolding rrScan_def eligible_def beq_qCnt_def by simp
qed

lemma DoDequeueRR_serves:
  assumes ok: "beq_ok sz b" and sv: "served paused b = Some i" and i8: "i < 8" and ne: "contents b i = x # xs"
  shows "\<exists>b'. DoDequeueRR sz paused b = Inr (b', Some x) \<and> beq_ok sz b' \<and> m_qlast b' = i
    \<and> m_rrlast b' = (if i \<noteq> 0 then i else m_rrlast b)
    \<and> (\<forall>j. contents b' j = (if j = i then xs else contents b j))"
proof -
  have i: "i < fCnt" using i8 by (simp add: fCnt_def)
  note D = beq_okD[OF ok i]
  have z: "0 < fCnt" by (simp add: fCnt_def)
  have pick: "(if m_nPackets (m_queues b ! 0) > 0 then Some 0 else rrScan paused b) = Some i"
    using sv beq_okD(4)[OF ok z] by (auto simp: served_def word_gt_0 split: if_splits)
  obtain q where q: "DropTail_Dequeue sz (m_queues b ! i) = Inr (q, Some x)" "queue_ok sz q" "m_packets q = xs"
    using dt.deq[OF D(1)] ne by (auto simp: contents_def)
  have sx: "0 < sz x" using D(6) ne by simp
  have ge: "unat (sz x) + total_size sz xs \<le> unat (m_bytesInQueueTotal b)" using D(2) ne by simp
  then have le: "sz x \<le> m_bytesInQueueTotal b" by (simp add: word_le_nat_alt)
  have "m_bytesInQueueTotal b \<noteq> 0" using sx le by auto
  have nb: "m_nBytes q = m_bytesInQueue b i - sz x"
    using q(1) by (auto simp: D(7) DropTail_Dequeue_def takeOut_def split: if_splits prod.splits)
  define b' where "b' = b\<lparr>m_queues := (m_queues b)[i := q],
      m_bytesInQueueTotal := m_bytesInQueueTotal b - sz x,
      m_bytesInQueue := (m_bytesInQueue b)(i := m_bytesInQueue b i - sz x),
      m_rrlast := (if i \<noteq> 0 then i else m_rrlast b), m_qlast := i,
      numTxBytes := numTxBytes b + ucast (sz x)\<rparr>"
  have run: "DoDequeueRR sz paused b = Inr (b', Some x)"
    unfolding DoDequeueRR_def pick using q(1) \<open>m_bytesInQueueTotal b \<noteq> 0\<close> by (simp add: b'_def)
  have "beq_ok sz b'"
  proof (rule beq_ok_replace[OF ok i q(2)])
    show "m_maxSize q = \<lparr>qs_unit = BYTES, qs_value = 1048576000\<rparr>"
      using DropTail_Dequeue_max[OF q(1)] D(8) by simp
    show "\<forall>x\<in>set (m_packets q). 0 < sz x" using q(3) D(6) ne by auto
    show "unat (m_bytesInQueueTotal b - sz x) + total_size sz (contents b i) =
        unat (m_bytesInQueueTotal b) + total_size sz (m_packets q)"
      using ge by (simp add: unat_minus_le[OF le] ne q(3))
    show "unat (m_bytesInQueueTotal b - sz x) < 1048576000"
      using ok unat_minus_le[OF le] unfolding beq_ok_def by linarith
  qed (use ok i8 in \<open>simp_all add: b'_def nb beq_ok_def beq_qCnt_def\<close>)
  moreover have "contents b' j = (if j = i then xs else contents b j)" for j
    using D(5) q(3) by (simp add: b'_def contents_def)
  ultimately show ?thesis using run by (auto simp: b'_def)
qed

lemma find_uptD:
  assumes "find P [a..<b] = Some k"
  shows "a \<le> k" "k < b" "P k" "\<And>l. a \<le> l \<Longrightarrow> l < k \<Longrightarrow> \<not> P l"
proof -
  obtain i where i: "i < b - a" "P (a + i)" "k = a + i" and less: "\<forall>j<i. \<not> P ([a..<b] ! j)"
    using assms by (auto simp: find_Some_iff)
  show "a \<le> k" "k < b" "P k" using i by auto
  fix l assume l: "a \<le> l" "l < k"
  then have "[a..<b] ! (l - a) = l" using i by simp
  then show "\<not> P l" using less[rule_format, of "l - a"] l i(3) by simp
qed

lemma rrScanE:
  assumes "beq_ok sz b" "rrScan paused b = Some i"
  obtains k where "1 \<le> k" "k < 9" "i = (k + m_rrlast b) mod 8" "eligible paused b i"
    "\<forall>l. 1 \<le> l \<and> l < k \<longrightarrow> \<not> eligible paused b ((l + m_rrlast b) mod 8)"
proof -
  obtain k where f: "find (\<lambda>k. eligible paused b ((k + m_rrlast b) mod 8)) [1..<9] = Some k"
    and i: "i = (k + m_rrlast b) mod 8"
    using assms(2) unfolding rrScan_eligible[OF assms(1)] by auto
  show ?thesis using find_uptD[OF f] i that[of k] by simp
qed

lemma served_cases:
  assumes "beq_ok sz b" "served paused b = Some i"
  shows "i < 8" "contents b i \<noteq> []" "i = 0 \<or> (\<not> paused i \<and> contents b 0 = [])"
proof -
  have "i < 8 \<and> contents b i \<noteq> [] \<and> (i = 0 \<or> (\<not> paused i \<and> contents b 0 = []))"
  proof (cases "contents b 0 = []")
    case True
    then have "rrScan paused b = Some i" using assms(2) by (simp add: served_def)
    with assms(1) show ?thesis by (rule rrScanE) (use True in \<open>auto simp: eligible_def\<close>)
  qed (use assms(2) in \<open>auto simp: served_def\<close>)
  then show "i < 8" "contents b i \<noteq> []" "i = 0 \<or> (\<not> paused i \<and> contents b 0 = [])" by auto
qed

lemma served_None:
  assumes "beq_ok sz b" "served paused b = None"
  shows "DoDequeueRR sz paused b = Inr (b, None)" "contents b 0 = []"
    "j < 8 \<Longrightarrow> paused j \<or> contents b j = []"
proof -
  have z: "0 < fCnt" by (simp add: fCnt_def)
  show e: "contents b 0 = []" using assms(2) by (auto simp: served_def split: if_splits)
  then show "DoDequeueRR sz paused b = Inr (b, None)"
    using assms(2) beq_okD(4)[OF assms(1) z] by (simp add: DoDequeueRR_def served_def)
  have "find (\<lambda>k. eligible paused b ((k + m_rrlast b) mod 8)) [1..<9] = None"
    using assms(2) e rrScan_eligible[OF assms(1), of paused] by (simp add: served_def)
  then have n: "\<not> eligible paused b ((k + m_rrlast b) mod 8)" if "1 \<le> k" "k < 9" for k
    using that unfolding find_None_iff by auto
  assume j: "j < 8"
  have r: "m_rrlast b < 8" using assms(1) by (simp add: beq_ok_def beq_qCnt_def)
  define k where "k = (if m_rrlast b < j then j - m_rrlast b else j + 8 - m_rrlast b)"
  have "(k + m_rrlast b) mod 8 = j" "1 \<le> k" "k < 9" using j r by (auto simp: k_def)
  then show "paused j \<or> contents b j = []" using n[of k] by (auto simp: eligible_def)
qed

text \<open>How far queue \<open>j\<close> is behind the queue served last.\<close>

definition rrDist :: "nat \<Rightarrow> nat \<Rightarrow> nat" where
  "rrDist j r = (if r < j then j - r else j + 8 - r)"

lemma rrDist_step:
  assumes "r < 8" "j < 8" "1 \<le> k" "k < rrDist j r"
  shows "rrDist j ((k + r) mod 8) < rrDist j r"
proof -
  have d: "rrDist j r + r = (if r < j then j else j + 8)" using assms by (simp add: rrDist_def)
  have b: "k + r < (if r < j then j else j + 8)" using assms(4) d by simp
  show ?thesis
  proof (cases "k + r < 8")
    case True
    then have "rrDist j ((k + r) mod 8) + (k + r) \<le> (if r < j then j else j + 8)"
      using b assms by (simp add: rrDist_def split: if_splits)
    then show ?thesis using d assms(3) by linarith
  next
    case False
    then have m: "(k + r) mod 8 = k + r - 8" using b assms by (simp add: le_mod_geq split: if_splits)
    have "rrDist j (k + r - 8) + (k + r) = j + 8" using b False assms by (simp add: rrDist_def split: if_splits)
    moreover have "\<not> r < j" using b False assms by (auto split: if_splits)
    ultimately show ?thesis using d m assms(3) by simp
  qed
qed

lemma served_progress:
  assumes ok: "beq_ok sz b" and sv: "served paused b = Some i" and e: "contents b 0 = []"
    and j: "j < 8" "eligible paused b j" "i \<noteq> j"
  shows "rrDist j i < rrDist j (m_rrlast b)"
proof -
  have r: "m_rrlast b < 8" using ok by (simp add: beq_ok_def beq_qCnt_def)
  have "rrScan paused b = Some i" using sv e by (simp add: served_def)
  with ok obtain k where k: "1 \<le> k" "k < 9" "i = (k + m_rrlast b) mod 8" "eligible paused b i"
    and least: "\<forall>l. 1 \<le> l \<and> l < k \<longrightarrow> \<not> eligible paused b ((l + m_rrlast b) mod 8)"
    by (rule rrScanE)
  define d where "d = rrDist j (m_rrlast b)"
  have d: "(d + m_rrlast b) mod 8 = j" "1 \<le> d" using j r by (auto simp: d_def rrDist_def)
  have "\<not> d < k" using least d j(2) by auto
  moreover have "k \<noteq> d" using k(3) d(1) j(3) by auto
  ultimately have "k < rrDist j (m_rrlast b)" by (simp add: d_def)
  then show ?thesis using rrDist_step[OF r j(1) k(1)] k(3) by simp
qed

subsection \<open>Rules for the callers\<close>

lemma DequeueRR_InrE:
  assumes "beq_ok sz b" "DequeueRR sz paused b = Inr (b', r)"
  obtains (none) "r = None" "b' = b" "contents b 0 = []" "\<forall>j<8. paused j \<or> contents b j = []"
  | (some) x i where "r = Some x" "i < 8" "contents b i = x # contents b' i" "GetLastQueue b' = i"
      "beq_ok sz b'" "i = 0 \<or> (\<not> paused i \<and> contents b 0 = [])" "\<forall>j. j \<noteq> i \<longrightarrow> contents b' j = contents b j"
proof (cases "served paused b")
  case None
  then show ?thesis
    using none served_None[OF assms(1) None] assms(2) by (simp add: DequeueRR_def)
next
  case (Some i)
  note c = served_cases[OF assms(1) Some]
  then obtain x xs where x: "contents b i = x # xs" by (cases "contents b i") auto
  show ?thesis
    using DoDequeueRR_serves[OF assms(1) Some c(1) x] assms(2) x c
    by (intro some[of x i]) (auto simp: DequeueRR_def GetLastQueue_def)
qed

lemma Enqueue_InrE:
  assumes "beq_ok sz b" "i < fCnt" "0 < sz x" "unat (sz x) < 2 ^ 31" "BEgressQueue_Enqueue sz x i b = Inr (b', v)"
  shows "beq_ok sz b'" "contents b' j = (if j = i then contents b i @ [x] else contents b j)"
  using DoEnqueue_ok[OF assms(1-4)] assms(5) by (auto simp: BEgressQueue_Enqueue_def split: if_splits)

lemma Enqueue_index: "BEgressQueue_Enqueue sz x i b = Inr r \<Longrightarrow> i < fCnt"
  by (auto simp: BEgressQueue_Enqueue_def BEgressQueue_DoEnqueue_def split: if_splits)

subsection \<open>Properties\<close>

text \<open>The queues served by \<open>n\<close> consecutive dequeues.\<close>

fun servedSeq :: "('a \<Rightarrow> u32) \<Rightarrow> (nat \<Rightarrow> bool) \<Rightarrow> nat \<Rightarrow> 'a beq \<Rightarrow> nat list res" where
  "servedSeq sz paused 0 b = Inr []"
| "servedSeq sz paused (Suc n) b =
     bindr (DequeueRR sz paused b) (\<lambda>(b', r).
     case r of
       None \<Rightarrow> Inr []
     | Some _ \<Rightarrow> bindr (servedSeq sz paused n b') (\<lambda>is. Inr (GetLastQueue b' # is)))"

lemma waits:
  assumes "beq_ok sz b" "contents b 0 = []" "j < 8" "eligible paused b j" "rrDist j (m_rrlast b) \<le> n"
  shows "\<exists>is. servedSeq sz paused n b = Inr is \<and> j \<in> set is"
  using assms
proof (induction n arbitrary: b)
  case 0
  then show ?case by (auto simp: rrDist_def beq_ok_def beq_qCnt_def split: if_splits)
next
  case (Suc n)
  obtain i where i: "served paused b = Some i"
    using served_None(3)[OF Suc.prems(1), of paused j] Suc.prems by (auto simp: eligible_def)
  note c = served_cases[OF Suc.prems(1) i]
  then obtain x xs where x: "contents b i = x # xs" by (cases "contents b i") auto
  have i8: "i < 8" "i \<noteq> 0" using c Suc.prems(2) by (blast, metis)
  obtain b' where b': "DoDequeueRR sz paused b = Inr (b', Some x)" "beq_ok sz b'" "m_qlast b' = i"
    "m_rrlast b' = i" "\<And>j. contents b' j = (if j = i then xs else contents b j)"
    using DoDequeueRR_serves[OF Suc.prems(1) i i8(1) x] i8(2) by auto
  have total: "\<exists>is. servedSeq sz paused n b' = Inr is" if "beq_ok sz b'" for b' :: "'a beq"
    using that
  proof (induction n arbitrary: b')
    case (Suc n)
    show ?case
    proof (cases "served paused b'")
      case None
      then show ?thesis using served_None(1)[OF Suc.prems] by (simp add: DequeueRR_def)
    next
      case (Some k)
      obtain y ys where "contents b' k = y # ys" "k < 8"
        using served_cases[OF Suc.prems Some] by (cases "contents b' k") auto
      then obtain b'' where "DoDequeueRR sz paused b' = Inr (b'', Some y)" "beq_ok sz b''"
        using DoDequeueRR_serves[OF Suc.prems Some] by blast
      then show ?thesis using Suc.IH[of b''] by (auto simp: DequeueRR_def)
    qed
  qed simp
  show ?case
  proof (cases "i = j")
    case True
    then show ?thesis using b' total[OF b'(2)] by (auto simp: DequeueRR_def GetLastQueue_def)
  next
    case False
    have "rrDist j i < rrDist j (m_rrlast b)"
      using served_progress[OF Suc.prems(1) i Suc.prems(2-4) False] .
    then have "\<exists>is. servedSeq sz paused n b' = Inr is \<and> j \<in> set is"
      using Suc.prems b' False i8 by (intro Suc.IH) (auto simp: eligible_def)
    then show ?thesis using b' by (auto simp: DequeueRR_def)
  qed
qed

text \<open>
  An example port: items are pairs of a name and a size; queues 1 and 3 hold packets.
\<close>

definition exampleSize :: "nat \<times> u32 \<Rightarrow> u32" where
  "exampleSize p = snd p"

definition examplePort :: "(nat \<times> u32) beq res" where
  "examplePort =
     bindr (BEgressQueue_Enqueue exampleSize (1, 1000) 1 (BEgressQueue 0 0)) (\<lambda>(b, _).
     bindr (BEgressQueue_Enqueue exampleSize (2, 1000) 3 b) (\<lambda>(b, _). Inr b))"

lemma examplePort_ok:
  "\<exists>b. examplePort = Inr b \<and> beq_ok exampleSize b \<and> contents b 0 = [] \<and> contents b 1 = [(1, 1000)]
     \<and> contents b 3 = [(2, 1000)] \<and> unat (m_bytesInQueueTotal b) = 2000"
proof -
  have z: "contents (BEgressQueue 0 0 :: (nat \<times> u32) beq) j = []" if "j < 128" for j
    using that by (simp add: contents_def BEgressQueue_def QueueBase_def fCnt_def)
  have t: "m_bytesInQueueTotal (BEgressQueue 0 0 :: (nat \<times> u32) beq) = 0" by (simp add: BEgressQueue_def)
  obtain b1 where b1: "BEgressQueue_DoEnqueue exampleSize (1, 1000) 1 (BEgressQueue 0 0) = Inr (b1, True)"
    "beq_ok exampleSize b1" "\<forall>j. contents b1 j = (if j = 1 then contents (BEgressQueue 0 0) 1 @ [(1, 1000)] else contents (BEgressQueue 0 0) j)"
    "unat (m_bytesInQueueTotal b1) = 1000"
    using DoEnqueue_ok[OF beq_start, of 1 exampleSize "(1, 1000)" 0 0] t
    by (auto simp: fCnt_def exampleSize_def)
  obtain b2 where b2: "BEgressQueue_DoEnqueue exampleSize (2, 1000) 3 b1 = Inr (b2, True)"
    "beq_ok exampleSize b2" "\<forall>j. contents b2 j = (if j = 3 then contents b1 3 @ [(2, 1000)] else contents b1 j)"
    "unat (m_bytesInQueueTotal b2) = 2000"
    using DoEnqueue_ok[OF b1(2), of 3 "(2, 1000)"] b1(4) by (auto simp: fCnt_def exampleSize_def)
  have "examplePort = Inr b2" using b1(1) b2(1) by (simp add: examplePort_def BEgressQueue_Enqueue_def)
  then show ?thesis using b1 b2 z by auto
qed

text \<open>
  The egress queue never drops below its limit: enqueueing a packet of up to two gigabytes into
  one of the 128 queues appends it to that queue and keeps all byte counters exact as long as the
  port then holds less than 1048576000 bytes, and aborts the simulation otherwise; the abort after
  a refusal of the inner drop-tail queue is unreachable.
\<close>

lemma egress_enqueue:
  assumes "beq_ok sz b" "i < fCnt" "0 < sz x" "unat (sz x) < 2 ^ 31"
  shows "if unat (m_bytesInQueueTotal b) + unat (sz x) < 1048576000
    then \<exists>b'. BEgressQueue_Enqueue sz x i b = Inr (b', True) \<and> beq_ok sz b'
           \<and> (\<forall>j. contents b' j = (if j = i then contents b i @ [x] else contents b j))
    else BEgressQueue_Enqueue sz x i b = Inl Abort"
  using DoEnqueue_ok[OF assms] by (auto simp: BEgressQueue_Enqueue_def split: if_splits)

text \<open>
  C32.  What leaves the port: a dequeue never fails; it takes the head of queue 0 whenever that
  queue is not empty, even if it is paused; otherwise the head of a queue that is not paused; and it
  returns nothing only when queue 0 and all queues below eight that are not paused are empty.  The
  other queues keep their packets, and the counters stay exact.
\<close>

theorem egress_dequeue:
  assumes "beq_ok sz b"
  shows "\<exists>b' r. DequeueRR sz paused b = Inr (b', r) \<and> beq_ok sz b' \<and>
    (case r of
       None \<Rightarrow> b' = b \<and> contents b 0 = [] \<and> (\<forall>j<8. paused j \<or> contents b j = [])
     | Some x \<Rightarrow> (\<exists>i<8. contents b i = x # contents b' i \<and> GetLastQueue b' = i
          \<and> (i = 0 \<or> (\<not> paused i \<and> contents b 0 = [])) \<and> (\<forall>j. j \<noteq> i \<longrightarrow> contents b' j = contents b j)))"
proof (cases "served paused b")
  case None
  then show ?thesis using served_None[OF assms None] assms by (auto simp: DequeueRR_def)
next
  case (Some i)
  note c = served_cases[OF assms Some]
  then obtain x xs where "contents b i = x # xs" by (cases "contents b i") auto
  from DoDequeueRR_serves[OF assms Some c(1) this] this c show ?thesis
    by (auto simp: DequeueRR_def GetLastQueue_def)
qed

theorem egress_dequeue_witness:
  "\<exists>b b' r. examplePort = Inr b \<and> DequeueRR exampleSize (\<lambda>j. j = 1) b = Inr (b', r) \<and> beq_ok exampleSize b'"
  using examplePort_ok egress_dequeue[of exampleSize _ "\<lambda>j. j = 1"] by blast

text \<open>
  C33.  Round robin is fair: once queue 0 is empty, a queue that holds a packet and is not paused is
  served within the next eight dequeues, however many packets the other queues hold.
\<close>

theorem egress_bounded_wait:
  assumes "beq_ok sz b" "contents b 0 = []" "j < 8" "\<not> paused j" "contents b j \<noteq> []"
  shows "\<exists>is. servedSeq sz paused 8 b = Inr is \<and> j \<in> set is"
proof (rule waits[OF assms(1-3)])
  show "eligible paused b j" using assms(4,5) by (simp add: eligible_def)
  have "0 < j" using assms(2,5) by (cases j) auto
  then show "rrDist j (m_rrlast b) \<le> 8" using assms(1,3) by (auto simp: rrDist_def)
qed

theorem egress_bounded_wait_witness:
  "\<exists>b is. examplePort = Inr b \<and> servedSeq exampleSize (\<lambda>_. False) 8 b = Inr is \<and> 3 \<in> set is"
proof -
  obtain b where b: "examplePort = Inr b" "beq_ok exampleSize b" "contents b 0 = []" "contents b 3 = [(2, 1000)]"
    using examplePort_ok by blast
  from egress_bounded_wait[OF b(2,3), of 3 "\<lambda>_. False"] b show ?thesis by auto
qed

end
