(* ===== verification/Int_Header.thy ===== *)
theory Int_Header
  imports Prelude
begin

text \<open>
  In-band telemetry: \<^verbatim>\<open>IntHop\<close> and \<^verbatim>\<open>IntHeader\<close> (network/utils/int-header.h, int-header.cc).  A hop
  is the 64-bit union of the source; its bit fields are laid out as the compiler does on a
  little-endian machine: line rate in bits 0 to 2, time in 3 to 26, bytes in 27 to 46, queue length in
  47 to 63.  The unions of \<^verbatim>\<open>IntHeader\<close> are the five hops and the hop counter: the time stamp is the
  first hop read as a number, the power its lowest 16 or 8 bits.  The static members \<^verbatim>\<open>multi\<close>,
  \<^verbatim>\<open>mode\<close> and \<^verbatim>\<open>pint_bytes\<close> are parameters.

  The lemmas: what the getters return for what \<^verbatim>\<open>Set\<close> stored, up to the quantisation; the deltas of
  two reports are right across a wrap-around of the fields; a header keeps the last five hops.
\<close>

subsection \<open>Bit fields\<close>

definition getField :: "nat \<Rightarrow> nat \<Rightarrow> u64 \<Rightarrow> u64" where
  "getField off width w = take_bit width (drop_bit off w)"

definition putField :: "nat \<Rightarrow> nat \<Rightarrow> u64 \<Rightarrow> u64 \<Rightarrow> u64" where
  "putField off width v w = (w AND NOT (push_bit off (mask width))) OR push_bit off (take_bit width v)"

lemma bit_getField: "bit (getField off width w) n \<longleftrightarrow> n < width \<and> bit w (off + n)"
  by (auto simp: getField_def bit_take_bit_iff bit_drop_bit_eq)

lemma bit_putField:
  "n < 64 \<Longrightarrow> bit (putField off width v w) n \<longleftrightarrow>
     (if off \<le> n \<and> n < off + width then bit v (n - off) else bit w n)"
  by (auto simp: putField_def bit_or_iff bit_and_iff bit_not_iff bit_push_bit_iff bit_mask_iff
      bit_take_bit_iff possible_bit_def)

lemma get_put_same:
  assumes "off + width \<le> 64"
  shows "getField off width (putField off width v w) = take_bit width v"
  by (rule bit_word_eqI) (use assms in \<open>auto simp: bit_getField bit_putField bit_take_bit_iff\<close>)

lemma get_put_other:
  assumes "off + width \<le> off' \<or> off' + width' \<le> off" "off + width \<le> 64"
  shows "getField off width (putField off' width' v w) = getField off width w"
  by (rule bit_word_eqI) (use assms in \<open>auto simp: bit_getField bit_putField\<close>)

lemma getField_bound: "width < 64 \<Longrightarrow> unat (getField off width w) < 2 ^ width"
  by (simp add: getField_def unsigned_take_bit_eq)

subsection \<open>IntHop\<close>

definition timeWidth :: nat where "timeWidth = 24"
definition bytesWidth :: nat where "bytesWidth = 20"
definition qlenWidth :: nat where "qlenWidth = 17"
definition byteUnit :: u32 where "byteUnit = 128"
definition qlenUnit :: u32 where "qlenUnit = 80"

lemmas int_consts = timeWidth_def bytesWidth_def qlenWidth_def byteUnit_def qlenUnit_def

definition lineRateValues :: "u64 list" where
  "lineRateValues = [25000000000, 50000000000, 100000000000, 200000000000, 400000000000, 0, 0, 40000000000]"

definition f_lineRate :: "u64 \<Rightarrow> u64" where "f_lineRate h = getField 0 3 h"
definition f_time :: "u64 \<Rightarrow> u64" where "f_time h = getField 3 timeWidth h"
definition f_bytes :: "u64 \<Rightarrow> u64" where "f_bytes h = getField 27 bytesWidth h"
definition f_qlen :: "u64 \<Rightarrow> u64" where "f_qlen h = getField 47 qlenWidth h"

lemmas int_fields = f_lineRate_def f_time_def f_bytes_def f_qlen_def

definition GetLineRate :: "u64 \<Rightarrow> u64" where
  "GetLineRate h = lineRateValues ! unat (f_lineRate h)"

definition GetBytes :: "u32 \<Rightarrow> u64 \<Rightarrow> u64" where
  "GetBytes multi h = f_bytes h * ucast byteUnit * ucast multi"

definition GetQlen :: "u32 \<Rightarrow> u64 \<Rightarrow> u32" where
  "GetQlen multi h = ucast (f_qlen h) * qlenUnit * multi"

definition GetTime :: "u64 \<Rightarrow> u64" where
  "GetTime h = f_time h"

text \<open>The code of a line rate; an unknown rate leaves the field as it is.\<close>

definition rateCode :: "u64 \<Rightarrow> u64 option" where
  "rateCode rate =
     (if rate = 25000000000 then Some 0 else if rate = 50000000000 then Some 1
      else if rate = 100000000000 then Some 2 else if rate = 200000000000 then Some 3
      else if rate = 400000000000 then Some 4 else if rate = 0 then Some 5
      else if rate = 100 then Some 6 else if rate = 40000000000 then Some 7
      else None)"

definition IntHop_Set :: "u32 \<Rightarrow> u64 \<Rightarrow> u64 \<Rightarrow> u32 \<Rightarrow> u64 \<Rightarrow> u64 \<Rightarrow> u64 res" where
  "IntHop_Set multi time bytes qlen rate h =
     (if byteUnit * multi = 0 \<or> qlenUnit * multi = 0 then Inl NotFinite
      else
        let h = putField 3 timeWidth time h;
            h = putField 27 bytesWidth (bytes div ucast (byteUnit * multi)) h;
            h = putField 47 qlenWidth (ucast (qlen div (qlenUnit * multi))) h
        in Inr (case rateCode rate of Some c \<Rightarrow> putField 0 3 c h | None \<Rightarrow> h))"

text \<open>
  The differences.  A bit field narrower than \<^verbatim>\<open>int\<close> is promoted to \<^verbatim>\<open>int\<close>, so the subtraction is
  done in \<^verbatim>\<open>int\<close> and the products with the two 32-bit units are 32 bits wide.
\<close>

definition GetBytesDelta :: "u32 \<Rightarrow> u64 \<Rightarrow> u64 \<Rightarrow> u64" where
  "GetBytesDelta multi a b =
     ucast ((if f_bytes a \<ge> f_bytes b
             then (ucast (f_bytes a) - ucast (f_bytes b) :: u32)
             else ucast (f_bytes a) + push_bit bytesWidth 1 - ucast (f_bytes b)) * byteUnit * multi)"

definition GetTimeDelta :: "u64 \<Rightarrow> u64 \<Rightarrow> u64" where
  "GetTimeDelta a b =
     (if f_time a \<ge> f_time b then f_time a - f_time b
      else f_time a + push_bit timeWidth 1 - f_time b)"

subsection \<open>IntHeader\<close>

datatype Mode = NORMAL | TS | PINT | NONE

definition maxHop :: nat where "maxHop = 5"

record IntHeader =
  hop :: "u64 list"
  nhop :: u16

definition IntHeader_init :: IntHeader where
  "IntHeader_init = \<lparr>hop = replicate maxHop 0, nhop = 0\<rparr>"

definition IntHeader_GetStaticSize :: "Mode \<Rightarrow> nat" where
  "IntHeader_GetStaticSize mode =
     (case mode of NORMAL \<Rightarrow> 8 * maxHop + 2 | TS \<Rightarrow> 8 | PINT \<Rightarrow> 2 | NONE \<Rightarrow> 0)"

definition PushHop ::
    "Mode \<Rightarrow> u32 \<Rightarrow> u64 \<Rightarrow> u64 \<Rightarrow> u32 \<Rightarrow> u64 \<Rightarrow> IntHeader \<Rightarrow> IntHeader res" where
  "PushHop mode multi time bytes qlen rate ih =
     (if mode = NORMAL then
        (let idx = unat (nhop ih) mod maxHop in
         bindr (IntHop_Set multi time bytes qlen rate (hop ih ! idx)) (\<lambda>h.
         Inr (ih\<lparr>hop := (hop ih)[idx := h], nhop := nhop ih + 1\<rparr>)))
      else Inr ih)"

definition GetTs :: "Mode \<Rightarrow> IntHeader \<Rightarrow> u64" where
  "GetTs mode ih = (if mode = TS then hop ih ! 0 else 0)"

definition GetPower :: "Mode \<Rightarrow> int \<Rightarrow> IntHeader \<Rightarrow> u16" where
  "GetPower mode pint_bytes ih =
     (if mode = PINT then
        (if pint_bytes = 1 then ucast (getField 0 8 (hop ih ! 0)) else ucast (getField 0 16 (hop ih ! 0)))
      else 0)"

definition SetPower :: "Mode \<Rightarrow> int \<Rightarrow> u16 \<Rightarrow> IntHeader \<Rightarrow> IntHeader" where
  "SetPower mode pint_bytes pw ih =
     (if mode = PINT then
        ih\<lparr>hop := (hop ih)[0 := putField 0 (if pint_bytes = 1 then 8 else 16) (ucast pw) (hop ih ! 0)]\<rparr>
      else ih)"


subsection \<open>What a report stores\<close>

lemma rateCode_small: "rateCode r = Some c \<Longrightarrow> take_bit 3 c = c"
  by (auto simp: rateCode_def split: if_splits)

lemma IntHop_Set_fields:
  assumes "IntHop_Set multi t b q r h = Inr h'"
  shows "f_time h' = take_bit 24 t" "f_bytes h' = take_bit 20 (b div ucast (byteUnit * multi))"
    "f_qlen h' = take_bit 17 (ucast (q div (qlenUnit * multi)))"
    "f_lineRate h' = (case rateCode r of Some c \<Rightarrow> c | None \<Rightarrow> f_lineRate h)"
  using assms
  by (auto simp: IntHop_Set_def Let_def int_fields int_consts get_put_same get_put_other rateCode_small
      split: if_splits option.splits)

definition multi_ok :: "u32 \<Rightarrow> bool" where
  "multi_ok multi \<longleftrightarrow> 0 < multi \<and> multi \<le> 32"

lemma multi_units:
  assumes "multi_ok multi"
  shows "unat (byteUnit * multi) = 128 * unat multi" "unat (qlenUnit * multi) = 80 * unat multi"
    "byteUnit * multi \<noteq> 0" "qlenUnit * multi \<noteq> 0" "0 < unat multi" "unat multi \<le> 32"
proof -
  show m: "0 < unat multi" "unat multi \<le> 32"
    using assms by (auto simp: multi_ok_def word_less_nat_alt word_le_nat_alt)
  show b: "unat (byteUnit * multi) = 128 * unat multi" and q: "unat (qlenUnit * multi) = 80 * unat multi"
    using m(2) by (simp_all add: int_consts unat_word_ariths)
  show "byteUnit * multi \<noteq> 0" "qlenUnit * multi \<noteq> 0"
    using b q m(1) by (metis mult_is_0 not_gr_zero unat_0 zero_neq_numeral)+
qed

lemma IntHop_Set_total: "multi_ok multi \<Longrightarrow> \<exists>h'. IntHop_Set multi t b q r h = Inr h'"
  using multi_units(3,4)[of multi] by (simp add: IntHop_Set_def Let_def)

lemma unat_lt2p_len: "unat (w :: 'a :: len word) < 2 ^ LENGTH('a)"
  by (rule unsigned_less)

lemma unat_take_bit_u64: "unat (take_bit n (w :: u64)) = unat w mod 2 ^ n"
  by (subst unsigned_take_bit_eq) (rule take_bit_eq_mod)

lemma IntHop_Set_unat:
  assumes "IntHop_Set multi t b q r h = Inr h'" "multi_ok multi"
  shows "unat (f_time h') = unat t mod 2 ^ 24"
    "unat (f_bytes h') = unat b div (128 * unat multi) mod 2 ^ 20"
    "unat (f_qlen h') = unat q div (80 * unat multi) mod 2 ^ 17"
proof -
  note F = IntHop_Set_fields[OF assms(1)] and U = multi_units[OF assms(2)]
  have x: "unat (ucast (x :: u32) :: u64) = unat x" for x by simp
  show "unat (f_time h') = unat t mod 2 ^ 24" by (simp only: F unat_take_bit_u64)
  show "unat (f_bytes h') = unat b div (128 * unat multi) mod 2 ^ 20"
    by (simp only: F unat_take_bit_u64 unat_div_distrib x U)
  show "unat (f_qlen h') = unat q div (80 * unat multi) mod 2 ^ 17"
    by (simp only: F unat_take_bit_u64 x unat_div_distrib U)
qed

lemma wrap_delta:
  fixes x y n :: nat
  assumes "x \<le> y" "y - x < n"
  shows "(if x mod n \<le> y mod n then y mod n - x mod n else y mod n + n - x mod n) = y - x"
proof -
  define d where "d = y - x"
  have y: "y = x + d" "d < n" "0 < n" using assms by (auto simp: d_def)
  have r: "x mod n < n" using y by simp
  have m: "y mod n = (if x mod n + d < n then x mod n + d else x mod n + d - n)"
  proof -
    have "y mod n = (x mod n + d) mod n" unfolding y(1) by (simp add: mod_add_left_eq)
    also have "\<dots> = (if x mod n + d < n then x mod n + d else x mod n + d - n)"
    proof (cases "x mod n + d < n")
      case False
      have "x mod n + d - n < n" using r y(2) by linarith
      then show ?thesis using False by (simp add: le_mod_geq)
    qed simp
    finally show ?thesis .
  qed
  show ?thesis unfolding m using r y(1,2) by (cases "x mod n + d < n") auto
qed

lemma f_time_bound: "unat (f_time h) < 2 ^ 24"
  and f_bytes_bound: "unat (f_bytes h) < 2 ^ 20"
  unfolding int_fields int_consts by (rule getField_bound, simp)+

lemma unat_TimeDelta:
  "unat (GetTimeDelta a b) = (if unat (f_time b) \<le> unat (f_time a) then unat (f_time a) - unat (f_time b)
     else unat (f_time a) + 2 ^ 24 - unat (f_time b))"
proof -
  have p: "unat (f_time a + 0x1000000) = unat (f_time a) + 2 ^ 24"
    using f_time_bound[of a] by (simp add: unat_word_ariths)
  then have "f_time b \<le> f_time a + 0x1000000" using f_time_bound[of b] by (simp add: word_le_nat_alt)
  then show ?thesis
    using p by (auto simp: GetTimeDelta_def int_consts push_bit_eq_mult word_le_nat_alt unat_sub)
qed

lemma unat_BytesDelta:
  assumes "multi_ok multi"
  shows "unat (GetBytesDelta multi a b) = (if unat (f_bytes b) \<le> unat (f_bytes a)
     then unat (f_bytes a) - unat (f_bytes b) else unat (f_bytes a) + 2 ^ 20 - unat (f_bytes b)) * (128 * unat multi)"
proof -
  note U = multi_units[OF assms]
  define x y where "x = (ucast (f_bytes a) :: u32)" and "y = (ucast (f_bytes b) :: u32)"
  have xy: "unat x = unat (f_bytes a)" "unat y = unat (f_bytes b)"
    using f_bytes_bound[of a] f_bytes_bound[of b] by (simp_all add: x_def y_def unsigned_ucast_eq take_bit_nat_eq_self)
  have bnd: "unat x < 2 ^ 20" "unat y < 2 ^ 20" using f_bytes_bound xy by simp_all
  define d where "d = (if f_bytes a \<ge> f_bytes b then x - y else x + push_bit bytesWidth 1 - y)"
  have p: "unat (x + 0x100000) = unat x + 2 ^ 20" using bnd by (simp add: unat_word_ariths)
  then have le: "y \<le> x + 0x100000" using bnd by (simp add: word_le_nat_alt)
  have d: "unat d = (if unat y \<le> unat x then unat x - unat y else unat x + 2 ^ 20 - unat y)"
    using p le xy by (auto simp: d_def int_consts push_bit_eq_mult word_le_nat_alt unat_sub)
  have dm: "unat d < 2 ^ 20" using d bnd by auto
  have "unat d * (128 * unat multi) \<le> 1048575 * (128 * 32)"
    using dm U by (intro mult_mono) auto
  then have "unat (d * (byteUnit * multi)) = unat d * (128 * unat multi)"
    using U(1) by (simp add: unat_word_ariths(2))
  moreover have "GetBytesDelta multi a b = ucast (d * (byteUnit * multi))"
    by (simp add: GetBytesDelta_def d_def x_def y_def mult.assoc)
  ultimately show ?thesis by (simp add: d xy)
qed


subsection \<open>Properties\<close>

lemma IntHop_deltas:
  assumes "multi_ok multi"
    and "IntHop_Set multi t1 b1 q1 r1 h1 = Inr old" "IntHop_Set multi t2 b2 q2 r2 h2 = Inr new"
    and "t1 \<le> t2" "unat t2 - unat t1 < 2 ^ 24"
    and "b1 \<le> b2" "unat b2 - unat b1 < (2 ^ 20 - 1) * (128 * unat multi)"
  shows "unat (GetTimeDelta new old) = unat t2 - unat t1"
    and "\<bar>int (unat (GetBytesDelta multi new old)) - (int (unat b2) - int (unat b1))\<bar> < 128 * int (unat multi)"
proof -
  note S1 = IntHop_Set_unat[OF assms(2,1)] and S2 = IntHop_Set_unat[OF assms(3,1)]
  show "unat (GetTimeDelta new old) = unat t2 - unat t1"
    unfolding unat_TimeDelta S1 S2 using assms(4,5) by (intro wrap_delta) (simp_all add: word_le_nat_alt)
  define u x y where "u = 128 * unat multi" and "x = unat b1 div u" and "y = unat b2 div u"
  have u: "0 < u" using multi_units(5)[OF assms(1)] by (simp add: u_def)
  have xy: "x \<le> y" using assms(6) by (simp add: x_def y_def div_le_mono word_le_nat_alt)
  have e: "unat b1 = x * u + unat b1 mod u" "unat b2 = y * u + unat b2 mod u" by (simp_all add: x_def y_def)
  have m: "unat b1 mod u < u" "unat b2 mod u < u" using u by simp_all
  have le: "unat b1 \<le> unat b2" using assms(6) by (simp add: word_le_nat_alt)
  have "(y - x) * u < 2 ^ 20 * u"
  proof -
    have "(y - x) * u = y * u - x * u" by (rule diff_mult_distrib)
    also have "\<dots> < (unat b2 - unat b1) + u" using e m xy le mult_le_mono1[OF xy, of u] by linarith
    also have "\<dots> \<le> (2 ^ 20 - 1) * u + u" using assms(7) by (simp add: u_def)
    finally show ?thesis by simp
  qed
  then have yx: "y - x < 2 ^ 20" by simp
  have "unat (GetBytesDelta multi new old) = (y - x) * u"
    unfolding unat_BytesDelta[OF assms(1)] S1 S2 u_def[symmetric] x_def[symmetric] y_def[symmetric]
    by (subst wrap_delta[OF xy yx]) simp
  then have d: "int (unat (GetBytesDelta multi new old)) = int (y * u) - int (x * u)"
    using mult_le_mono1[OF xy, of u] by (simp only: diff_mult_distrib of_nat_diff)
  have iu: "128 * int (unat multi) = int u" by (simp only: u_def of_nat_mult of_nat_numeral)
  have "int (unat b1) = int (x * u) + int (unat b1 mod u)" "int (unat b2) = int (y * u) + int (unat b2 mod u)"
    using e by (metis of_nat_add)+
  moreover have "int (unat b1 mod u) < int u" "int (unat b2 mod u) < int u"
    using m by (simp_all only: of_nat_less_iff)
  moreover have "0 \<le> int (unat b1 mod u)" "0 \<le> int (unat b2 mod u)" by (rule of_nat_0_le_iff)+
  ultimately show "\<bar>int (unat (GetBytesDelta multi new old)) - (int (unat b2) - int (unat b1))\<bar> < 128 * int (unat multi)"
    unfolding iu d abs_less_iff by linarith
qed

text \<open>
  C35.  Telemetry deltas survive wrap-around: for two reports of one port, taken less than \<open>2 ^ 24\<close>
  nanoseconds and \<open>2 ^ 20\<close> byte units apart, the time difference is exact and the byte difference is
  off by less than one unit of \<open>128 * multi\<close> bytes, even when the 24-bit clock or the 20-bit counter
  wrapped in between.  The bound 32 on \<open>multi\<close> keeps the 32-bit product in range.
\<close>

theorem int_deltas:
  assumes "multi_ok multi"
    and "IntHop_Set multi t1 b1 q1 r1 h1 = Inr old" "IntHop_Set multi t2 b2 q2 r2 h2 = Inr new"
    and "t1 \<le> t2" "unat t2 - unat t1 < 2 ^ 24"
    and "b1 \<le> b2" "unat b2 - unat b1 < (2 ^ 20 - 1) * (128 * unat multi)"
  shows "unat (GetTimeDelta new old) = unat t2 - unat t1
    \<and> \<bar>int (unat (GetBytesDelta multi new old)) - (int (unat b2) - int (unat b1))\<bar> < 128 * int (unat multi)"
  using IntHop_deltas[OF assms] by blast

theorem int_deltas_witness:
  "\<exists>old new. IntHop_Set 1 16777210 134217720 0 25000000000 0 = Inr old
     \<and> IntHop_Set 1 16777230 134218720 0 25000000000 0 = Inr new
     \<and> unat (GetTimeDelta new old) = 20
     \<and> \<bar>int (unat (GetBytesDelta 1 new old)) - 1000\<bar> < 128"
proof -
  have ok: "multi_ok 1" by (simp add: multi_ok_def)
  obtain old new where h: "IntHop_Set 1 16777210 134217720 0 25000000000 0 = Inr old"
    "IntHop_Set 1 16777230 134218720 0 25000000000 0 = Inr new"
    using IntHop_Set_total[OF ok] by meson
  show ?thesis using h int_deltas[OF ok h] by simp
qed

lemma IntHop_readable:
  assumes "multi_ok multi" "IntHop_Set multi t b q r h = Inr h'"
    and "unat q < 2 ^ 17 * (80 * unat multi)" "unat b < 2 ^ 20 * (128 * unat multi)"
    and "r \<in> set lineRateValues \<union> {100}"
  shows "unat (GetQlen multi h') = unat q - unat q mod (80 * unat multi)"
    and "unat (GetBytes multi h') = unat b - unat b mod (128 * unat multi)"
    and "unat (GetTime h') = unat t mod 2 ^ 24"
    and "GetLineRate h' = (if r = 100 then 0 else r)"
proof -
  note S = IntHop_Set_unat[OF assms(2,1)] and U = multi_units[OF assms(1)]
  show "unat (GetTime h') = unat t mod 2 ^ 24" by (simp only: GetTime_def S)
  have "unat q div (80 * unat multi) < 2 ^ 17" "unat b div (128 * unat multi) < 2 ^ 20"
    using assms(3,4) U(5) by (simp_all add: div_less_iff_less_mult)
  then have f: "unat (f_qlen h') = unat q div (80 * unat multi)" "unat (f_bytes h') = unat b div (128 * unat multi)"
    unfolding S by (simp_all only: mod_less)
  have q: "unat q div (80 * unat multi) * (80 * unat multi) \<le> unat q" by (rule div_times_less_eq_dividend)
  have "unat (GetQlen multi h') = unat (f_qlen h') * (80 * unat multi)"
  proof -
    have "unat (ucast (f_qlen h') :: u32) = unat (f_qlen h')"
      using f(1) \<open>unat q div _ < 2 ^ 17\<close> by (simp add: unsigned_ucast_eq take_bit_nat_eq_self)
    moreover have "GetQlen multi h' = ucast (f_qlen h') * (qlenUnit * multi)" by (simp add: GetQlen_def mult.assoc)
    moreover have "unat q div (80 * unat multi) * (80 * unat multi) < 2 ^ LENGTH(32)"
      by (rule le_less_trans[OF q]) (rule unat_lt2p_len)
    ultimately show ?thesis
      using unat_mult_lem[THEN iffD1, of "ucast (f_qlen h')" "qlenUnit * multi"] f(1) U(2) by (simp only:)
  qed
  then show "unat (GetQlen multi h') = unat q - unat q mod (80 * unat multi)"
    by (simp only: f minus_mod_eq_div_mult)
  have b: "unat b div (128 * unat multi) * (128 * unat multi) \<le> unat b" by (rule div_times_less_eq_dividend)
  have "unat (GetBytes multi h') = unat (f_bytes h') * (128 * unat multi)"
  proof -
    have "GetBytes multi h' = f_bytes h' * (ucast byteUnit * ucast multi)" by (simp add: GetBytes_def mult.assoc)
    moreover have "unat (ucast byteUnit * ucast multi :: u64) = 128 * unat multi"
      using U(6) by (simp add: int_consts unat_word_ariths(2))
    moreover have "unat b div (128 * unat multi) * (128 * unat multi) < 2 ^ LENGTH(64)"
      by (rule le_less_trans[OF b]) (rule unat_lt2p_len)
    ultimately show ?thesis
      using unat_mult_lem[THEN iffD1, of "f_bytes h'" "ucast byteUnit * ucast multi"] f(2) by (simp only:)
  qed
  then show "unat (GetBytes multi h') = unat b - unat b mod (128 * unat multi)"
    by (simp only: f minus_mod_eq_div_mult)
  show "GetLineRate h' = (if r = 100 then 0 else r)"
    using assms(5) IntHop_Set_fields(4)[OF assms(2)]
    by (auto simp: lineRateValues_def rateCode_def GetLineRate_def)
qed

text \<open>
  C36.  A report is readable: what the getters return is the reported queue length and byte count
  rounded down to their units (as long as the fields are wide enough), the reported time modulo
  \<open>2 ^ 24\<close>, and the line rate, for every rate the table knows; 100 bits per second is the exception,
  its code stands for rate 0.
\<close>

theorem int_report_readable:
  assumes "multi_ok multi" "IntHop_Set multi t b q r h = Inr h'"
    and "unat q < 2 ^ 17 * (80 * unat multi)" "unat b < 2 ^ 20 * (128 * unat multi)"
    and "r \<in> set lineRateValues \<union> {100}"
  shows "unat (GetQlen multi h') = unat q - unat q mod (80 * unat multi)
    \<and> unat (GetBytes multi h') = unat b - unat b mod (128 * unat multi)
    \<and> unat (GetTime h') = unat t mod 2 ^ 24
    \<and> GetLineRate h' = (if r = 100 then 0 else r)"
  using IntHop_readable[OF assms] by blast

theorem int_report_readable_witness:
  "\<exists>h. IntHop_Set 4 5 70000 9000 100000000000 0 = Inr h \<and> unat (GetQlen 4 h) = 8960
     \<and> unat (GetBytes 4 h) = 69632 \<and> GetLineRate h = 100000000000"
proof -
  have ok: "multi_ok 4" by (simp add: multi_ok_def)
  obtain h where h: "IntHop_Set 4 5 70000 9000 100000000000 0 = Inr h" using IntHop_Set_total[OF ok] by meson
  show ?thesis using h int_report_readable[OF ok h] by (simp add: lineRateValues_def)
qed

text \<open>The reports of the switches on a path, in order.\<close>

fun pushAll :: "Mode \<Rightarrow> u32 \<Rightarrow> (u64 \<times> u64 \<times> u32 \<times> u64) list \<Rightarrow> IntHeader \<Rightarrow> IntHeader res" where
  "pushAll mode multi [] ih = Inr ih"
| "pushAll mode multi ((t, b, q, r) # rs) ih =
     bindr (PushHop mode multi t b q r ih) (pushAll mode multi rs)"

lemma pushAll_append: "pushAll mode multi (xs @ ys) ih = bindr (pushAll mode multi xs ih) (pushAll mode multi ys)"
  by (induction xs arbitrary: ih) (auto simp: bindr_def split: sum.splits)

lemma mod_window_neq:
  assumes "k < n" "n < k + 5"
  shows "k mod 5 \<noteq> n mod (5::nat)"
proof -
  have "\<not> 5 dvd n - k" using assms by (auto dest: dvd_imp_le)
  then show ?thesis using assms(1) by (metis less_imp_le mod_eq_dvd_iff_nat)
qed

lemma pushAll_ring:
  assumes "multi_ok multi" "length rs < 2 ^ 16"
  shows "\<exists>ih. pushAll NORMAL multi rs IntHeader_init = Inr ih \<and> length (hop ih) = 5 \<and> unat (nhop ih) = length rs
     \<and> (\<forall>k<length rs. length rs \<le> k + 5 \<longrightarrow> (case rs ! k of (t, b, q, r) \<Rightarrow>
          (\<exists>h. IntHop_Set multi t b q r h = Inr (hop ih ! (k mod 5)))))"
  using assms(2)
proof (induction rs rule: rev_induct)
  case Nil
  show ?case by (simp add: IntHeader_init_def maxHop_def)
next
  case (snoc x rs)
  obtain t b q r where x: "x = (t, b, q, r)" by (cases x) auto
  obtain ih where ih: "pushAll NORMAL multi rs IntHeader_init = Inr ih" "length (hop ih) = 5"
    "unat (nhop ih) = length rs"
    and last: "\<forall>k<length rs. length rs \<le> k + 5 \<longrightarrow> (case rs ! k of (t, b, q, r) \<Rightarrow>
          (\<exists>h. IntHop_Set multi t b q r h = Inr (hop ih ! (k mod 5))))"
    using snoc by auto
  let ?i = "length rs mod 5"
  obtain h where h: "IntHop_Set multi t b q r (hop ih ! ?i) = Inr h" using IntHop_Set_total[OF assms(1)] by meson
  define ih' where "ih' = ih\<lparr>hop := (hop ih)[?i := h], nhop := nhop ih + 1\<rparr>"
  have n: "unat (nhop ih + 1) = Suc (length rs)" using ih(3) snoc.prems by (simp add: unat_word_ariths)
  have p: "pushAll NORMAL multi (rs @ [x]) IntHeader_init = Inr ih'"
    by (simp add: pushAll_append ih x PushHop_def Let_def h maxHop_def ih'_def)
  have "case (rs @ [x]) ! k of (t, b, q, r) \<Rightarrow> (\<exists>h. IntHop_Set multi t b q r h = Inr (hop ih' ! (k mod 5)))"
    if k: "k < length (rs @ [x])" "length (rs @ [x]) \<le> k + 5" for k
  proof (cases "k = length rs")
    case True
    then show ?thesis using h ih(2) by (auto simp: x ih'_def)
  next
    case False
    then have "k < length rs" "length rs < k + 5" using k by auto
    then have "k mod 5 \<noteq> ?i" by (rule mod_window_neq)
    then show ?thesis using last k False by (auto simp: nth_append ih'_def)
  qed
  then show ?case using p n ih(2) by (auto simp: ih'_def)
qed

text \<open>
  C37.  The header keeps the last five hops: after up to 65535 switches have pushed their reports, the
  hop counter is the length of the path and slot \<open>k mod 5\<close> holds the report of switch \<open>k\<close>, for each
  of the last five switches.
\<close>

theorem int_keeps_last_hops:
  assumes "multi_ok multi" "length rs < 2 ^ 16"
  shows "\<exists>ih. pushAll NORMAL multi rs IntHeader_init = Inr ih \<and> unat (nhop ih) = length rs
     \<and> (\<forall>k<length rs. length rs \<le> k + 5 \<longrightarrow> (case rs ! k of (t, b, q, r) \<Rightarrow>
          unat (GetTime (hop ih ! (k mod 5))) = unat t mod 2 ^ 24
        \<and> unat (f_bytes (hop ih ! (k mod 5))) = unat b div (128 * unat multi) mod 2 ^ 20
        \<and> unat (f_qlen (hop ih ! (k mod 5))) = unat q div (80 * unat multi) mod 2 ^ 17))"
proof -
  obtain ih where ih: "pushAll NORMAL multi rs IntHeader_init = Inr ih" "unat (nhop ih) = length rs"
    and last: "\<forall>k<length rs. length rs \<le> k + 5 \<longrightarrow> (case rs ! k of (t, b, q, r) \<Rightarrow>
          (\<exists>h. IntHop_Set multi t b q r h = Inr (hop ih ! (k mod 5))))"
    using pushAll_ring[OF assms] by blast
  have "case rs ! k of (t, b, q, r) \<Rightarrow>
          unat (GetTime (hop ih ! (k mod 5))) = unat t mod 2 ^ 24
        \<and> unat (f_bytes (hop ih ! (k mod 5))) = unat b div (128 * unat multi) mod 2 ^ 20
        \<and> unat (f_qlen (hop ih ! (k mod 5))) = unat q div (80 * unat multi) mod 2 ^ 17"
    if k: "k < length rs" "length rs \<le> k + 5" for k
  proof -
    obtain t b q r where r: "rs ! k = (t, b, q, r)" by (cases "rs ! k") auto
    then obtain h where "IntHop_Set multi t b q r h = Inr (hop ih ! (k mod 5))" using last k by fastforce
    from IntHop_Set_unat[OF this assms(1)] show ?thesis by (simp add: r GetTime_def)
  qed
  then show ?thesis using ih by blast
qed

theorem int_keeps_last_hops_witness:
  "\<exists>ih. pushAll NORMAL 1 [(1, 0, 0, 0), (2, 0, 0, 0), (3, 0, 0, 0), (4, 0, 0, 0), (5, 0, 0, 0), (6, 128, 800, 0)]
       IntHeader_init = Inr ih \<and> nhop ih = 6 \<and> unat (GetTime (hop ih ! 0)) = 6 \<and> unat (GetTime (hop ih ! 1)) = 2"
proof -
  have ok: "multi_ok 1" by (simp add: multi_ok_def)
  let ?rs = "[(1, 0, 0, 0), (2, 0, 0, 0), (3, 0, 0, 0), (4, 0, 0, 0), (5, 0, 0, 0), (6, 128, 800, 0)] :: (u64 \<times> u64 \<times> u32 \<times> u64) list"
  obtain ih where ih: "pushAll NORMAL 1 ?rs IntHeader_init = Inr ih" "unat (nhop ih) = 6"
    and l: "\<forall>k<6. 6 \<le> k + 5 \<longrightarrow> (case ?rs ! k of (t, b, q, r) \<Rightarrow> unat (GetTime (hop ih ! (k mod 5))) = unat t mod 2 ^ 24)"
    using int_keeps_last_hops[OF ok, of ?rs] by (auto simp: case_prod_beta)
  have "nhop ih = 6" using ih(2) by (simp add: word_unat_eq_iff)
  then show ?thesis using ih(1) l[rule_format, of 5] l[rule_format, of 1] by auto
qed

end
