(* ===== verification/Pint.thy ===== *)
theory Pint
  imports Cpp_Double
begin

text \<open>
  The compressed telemetry of HPCC-PINT: \<^verbatim>\<open>Pint\<close> (point-to-point/model/pint.cc) and the logarithm
  approximation of the switch (\<^verbatim>\<open>logres_shift\<close> and \<^verbatim>\<open>log2apprx\<close> of switch-node.cc).  The functions
  of the C mathematics library are the parameter \<open>libm\<close>; \<^verbatim>\<open>ceil\<close>, \<^verbatim>\<open>floor\<close> and \<^verbatim>\<open>round\<close> are exact.
  The results of \<^verbatim>\<open>rand()\<close> are arguments.
\<close>

record libm =
  lm_log :: "double \<Rightarrow> double"
  lm_log2 :: "double \<Rightarrow> double"
  lm_pow :: "double \<Rightarrow> double \<Rightarrow> double"

definition flog :: "(double \<Rightarrow> double) \<Rightarrow> double \<Rightarrow> double res" where
  "flog lg x = (if x \<le> 0 then Inl NotFinite else Inr (lg x))"

definition truncz :: "double \<Rightarrow> int" where
  "truncz x = (if 0 \<le> x then \<lfloor>x\<rfloor> else \<lceil>x\<rceil>)"

definition trunc_int :: "double \<Rightarrow> int res" where
  "trunc_int x = (if - (2 ^ 31) \<le> truncz x \<and> truncz x < 2 ^ 31 then Inr (truncz x) else Inl FloatCast)"

definition trunc_u16 :: "double \<Rightarrow> u16 res" where
  "trunc_u16 x = (if 0 \<le> truncz x \<and> truncz x < 2 ^ 16 then Inr (word_of_int (truncz x)) else Inl FloatCast)"

definition trunc_u32 :: "double \<Rightarrow> u32 res" where
  "trunc_u32 x = (if 0 \<le> truncz x \<and> truncz x < 2 ^ 32 then Inr (word_of_int (truncz x)) else Inl FloatCast)"

definition roundz :: "double \<Rightarrow> double" where
  "roundz x = (if 0 \<le> x then of_int \<lfloor>x + 1 / 2\<rfloor> else of_int \<lceil>x - 1 / 2\<rceil>)"

subsection \<open>Pint\<close>

definition max_concurrent :: u32 where "max_concurrent = 512"

record pint =
  log_base :: double
  log_factor :: double

definition set_log_base :: "libm \<Rightarrow> double \<Rightarrow> pint res" where
  "set_log_base lm base =
     bindr (flog (lm_log lm) base) (\<lambda>l.
     bindr (fdiv 1 l) (\<lambda>f. Inr \<lparr>log_base = base, log_factor = f\<rparr>))"

definition get_n_bits :: "libm \<Rightarrow> pint \<Rightarrow> int res" where
  "get_n_bits lm g =
     bindr (flog (lm_log lm) (u32_to_double (max_concurrent * max_concurrent))) (\<lambda>l.
     bindr (flog (lm_log2 lm) (fmul l (log_factor g))) (\<lambda>b.
     trunc_int (of_int \<lceil>b\<rceil>)))"

definition get_n_bytes :: "libm \<Rightarrow> pint \<Rightarrow> int res" where
  "get_n_bytes lm g =
     bindr (get_n_bits lm g) (\<lambda>n.
     Inr (if n = 0 then 0 else (if n \<ge> 1 then (n - 1) div 8 else - ((1 - n) div 8)) + 1))"

definition encode_u :: "libm \<Rightarrow> pint \<Rightarrow> int \<Rightarrow> double \<Rightarrow> u16 res" where
  "encode_u lm g rand u =
     bindr (trunc_u32 (of_int \<lceil>fmul u (u32_to_double max_concurrent)\<rceil>)) (\<lambda>n.
     let u_toInt = (if n = 0 then 1 else n) in
     bindr (flog (lm_log lm) (u32_to_double u_toInt)) (\<lambda>l.
     let pw = fmul l (log_factor g) in
     bindr (trunc_u16 (of_int \<lceil>pw\<rceil>)) (\<lambda>p_upper.
     bindr (trunc_u16 (of_int \<lfloor>pw\<rfloor>)) (\<lambda>p_lower.
     let upper = lm_pow lm (log_base g) (of_nat (unat p_upper));
         lower = lm_pow lm (log_base g) (of_nat (unat p_lower));
         upper = (if p_upper = p_lower then fmul upper (log_base g) else upper)
     in bindr (fdiv (fsub (u32_to_double u_toInt) lower) (fsub upper lower)) (\<lambda>q.
     Inr (if of_int (rand mod 65536) < fmul q 65536 then p_upper else p_lower))))))"

definition decode_u :: "libm \<Rightarrow> pint \<Rightarrow> u16 \<Rightarrow> double res" where
  "decode_u lm g p = fdiv (lm_pow lm (log_base g) (of_nat (unat p))) (u32_to_double max_concurrent)"

subsection \<open>Approximate logarithms in the switch\<close>

definition logres_data :: "int list" where
  "logres_data = [0, 0, 1, 2, 2, 3, 3, 3, 3] @ replicate 8 4 @ replicate 16 5"

definition logres_shift :: "nat \<Rightarrow> int \<Rightarrow> int res" where
  "logres_shift b l = (if b < length logres_data then Inr (l - logres_data ! b) else Inl OutOfBounds)"

definition log2apprx :: "libm \<Rightarrow> int \<Rightarrow> int \<Rightarrow> nat \<Rightarrow> int \<Rightarrow> int \<Rightarrow> int res" where
  "log2apprx lm rand x b m l =
     bindr (flog (lm_log2 lm) (of_int x)) (\<lambda>lx.
     bindr (trunc_int lx) (\<lambda>t.
     let msb = t + 1;
         y = (if msb > m then
                (let k = nat (msb - m); z = push_bit k (drop_bit k x)
                 in if x AND mask k > rand AND mask k then z + 2 ^ k else z)
              else x)
     in bindr (flog (lm_log2 lm) (of_int y)) (\<lambda>ly.
     bindr (logres_shift b l) (\<lambda>sft.
     trunc_int (fmul ly (2 ^ nat sft))))))"

text \<open>The table has 33 entries, and the width the switch uses gives a factor of \<open>2 ^ 15\<close>.\<close>

lemma logres_shift_20: "logres_shift 20 20 = Inr 15"
  by (simp add: logres_shift_def logres_data_def nth_append)

text \<open>Truncating to the \<open>m\<close> most significant bits, rounding up at random, moves a number by at most one unit of the last kept bit.\<close>

lemma randomised_round:
  fixes x r :: int
  assumes "0 \<le> x"
  shows "let z = push_bit k (drop_bit k x); y = (if x AND mask k > r AND mask k then z + 2 ^ k else z)
         in x - 2 ^ k < y \<and> y \<le> x + 2 ^ k"
proof -
  have d: "push_bit k (drop_bit k x) = x - x mod 2 ^ k"
    by (simp add: push_bit_eq_mult drop_bit_eq_div minus_mod_eq_div_mult)
  have w: "0 \<le> x mod 2 ^ k" "x mod 2 ^ k < 2 ^ k" by simp_all
  have "x - 2 ^ k < x - x mod 2 ^ k \<and> x - x mod 2 ^ k \<le> x + 2 ^ k"
    "x - 2 ^ k < x - x mod 2 ^ k + 2 ^ k \<and> x - x mod 2 ^ k + 2 ^ k \<le> x + 2 ^ k"
    using w by linarith+
  then show ?thesis by (simp only: d Let_def split: if_splits) blast
qed

end
