(* ===== verification/Switch_Node.thy ===== *)
theory Switch_Node
  imports Switch_Mmu_Ledger Egress_Queue Int_Header Pint
begin

text \<open>
  The switch: \<^verbatim>\<open>SwitchNode\<close> (point-to-point/model/switch-node.cc) and its ports, \<^verbatim>\<open>QbbNetDevice\<close> in
  switch mode (qbb-net-device.cc).  One record holds the node, its buffer and its ports, because
  the handlers call each other across them: a packet that is admitted may make the switch send a
  pause frame by another port, and a packet that leaves may make it send a resume frame.

  \<open>DequeueAndTransmit\<close> calls \<open>SwitchNotifyDequeue\<close>, which may call \<open>SendPfc\<close> on another port and
  hence \<open>DequeueAndTransmit\<close> again; the recursion has a depth argument.  What reaches the outside is
  recorded in the state: \<open>wire\<close> lists the packets handed to the channels, \<open>pfcLog\<close> the calls of the
  trace \<^verbatim>\<open>m_tracePfc\<close> in \<open>SendPfc\<close>.  What comes from the outside is in \<open>swenv\<close>: the time, the
  static members of the telemetry header, and random numbers per port.

  A packet is a record of the header fields the switch reads; the payload is not represented.  The
  header fields parsed by \<^verbatim>\<open>CustomHeader\<close> and by the protocol headers are the same fields.
\<close>

subsection \<open>Packets\<close>

record telemetry =
  t_bandwidth :: u64
  t_tsEnq :: u64
  t_tsDeq :: u64
  t_qlenEnq :: u32
  t_qlenDeq :: u32
  t_txBytes :: u64

record FeedbackTag =
  max_hops :: u8
  n_hops :: u8
  sent_timestamp :: u64
  Feedback :: "telemetry list"

record spkt =
  p_size :: u32
  p_src :: u32
  p_dst :: u32
  p_proto :: u8
  p_sport :: u16
  p_dport :: u16
  p_pg :: u16
  p_prio :: "u8 option"
  p_unsched :: "u8 option"
  p_in :: "u32 option"
  p_ecn :: u8
  p_int :: IntHeader
  p_fb :: "FeedbackTag option"
  p_pfc :: "u32 \<times> u32 \<times> u8"

definition setTelemetry :: "u32 \<Rightarrow> u64 \<Rightarrow> u64 \<Rightarrow> u64 \<Rightarrow> FeedbackTag \<Rightarrow> FeedbackTag res" where
  "setTelemetry qlen now bw tx f =
     (let h = unat (n_hops f) in
      if h < length (Feedback f) then
        Inr (f\<lparr>Feedback := (Feedback f)[h := (Feedback f ! h)\<lparr>t_qlenDeq := qlen, t_tsDeq := now,
                 t_bandwidth := bw, t_txBytes := tx\<rparr>],
               n_hops := n_hops f + 1\<rparr>)
      else Inl OutOfBounds)"

subsection \<open>Ports and the node\<close>

record port =
  m_queue :: "spkt beq"
  m_busy :: bool
  m_currentPkt :: "spkt option"
  m_linkUp :: bool
  m_paused :: "nat \<Rightarrow> bool"
  m_qbbEnabled :: bool
  m_pausetime :: u32
  m_bps :: u64
  m_addr :: u32
  dev_numTxBytes :: u64
  totalBytesSent :: u64
  totalBytesRcvd :: u64

record swnode =
  m_ecmpSeed :: u32
  m_rtTable :: "u32 \<rightharpoonup> int list"
  m_bytes :: "nat \<Rightarrow> nat \<Rightarrow> nat \<Rightarrow> u32"
  m_txBytes :: "u64 arr"
  m_lastPktSize :: "u32 arr"
  m_lastPktTs :: "u64 arr"
  m_u :: "double arr"
  m_ecnEnabled :: bool
  m_ccMode :: u32
  m_maxRtt :: u64
  m_ackHighPrio :: u32
  PowerEnabled :: bool
  m_mmu :: mmu
  m_devices :: "port list"
  wire :: "(nat \<times> spkt) list"
  pfcLog :: "(nat \<times> nat \<times> bool) list"

record swenv =
  e_now :: u64
  e_mode :: Mode
  e_multi :: u32
  e_pint_bytes :: int
  e_libm :: libm
  e_pint :: pint
  e_uniform :: "nat \<Rightarrow> double"
  e_rand :: "nat \<Rightarrow> nat \<Rightarrow> int"

text \<open>The constructor; ports are attached later, attributes have their defaults.\<close>

definition SwitchNode :: "u32 \<Rightarrow> mmu \<Rightarrow> swnode" where
  "SwitchNode nid m = \<lparr>m_ecmpSeed = nid, m_rtTable = Map.empty, m_bytes = (\<lambda>_ _ _. 0), m_txBytes = (\<lambda>_. 0),
     m_lastPktSize = (\<lambda>_. 0), m_lastPktTs = (\<lambda>_. 0), m_u = (\<lambda>_. 0), m_ecnEnabled = False, m_ccMode = 0,
     m_maxRtt = 9000, m_ackHighPrio = 0, PowerEnabled = False, m_mmu = m, m_devices = [], wire = [],
     pfcLog = []\<rparr>"

definition QbbNetDevice :: "u64 \<Rightarrow> u32 \<Rightarrow> spkt beq \<Rightarrow> port" where
  "QbbNetDevice bps addr q = \<lparr>m_queue = q, m_busy = False, m_currentPkt = None, m_linkUp = True,
     m_paused = (\<lambda>_. False), m_qbbEnabled = True, m_pausetime = 5, m_bps = bps, m_addr = addr,
     dev_numTxBytes = 0, totalBytesSent = 0, totalBytesRcvd = 0\<rparr>"

definition updDev :: "nat \<Rightarrow> (port \<Rightarrow> port) \<Rightarrow> swnode \<Rightarrow> swnode" where
  "updDev d f s = s\<lparr>m_devices := (m_devices s)[d := f (m_devices s ! d)]\<rparr>"

subsection \<open>Routing\<close>

definition SetEcmpSeed :: "u32 \<Rightarrow> swnode \<Rightarrow> swnode" where
  "SetEcmpSeed seed s = s\<lparr>m_ecmpSeed := seed\<rparr>"

definition AddTableEntry :: "u32 \<Rightarrow> u32 \<Rightarrow> swnode \<Rightarrow> swnode" where
  "AddTableEntry dip intf s =
     (let hops = (case m_rtTable s dip of Some xs \<Rightarrow> xs | None \<Rightarrow> [])
      in s\<lparr>m_rtTable := (m_rtTable s)(dip \<mapsto> hops @ [sint intf])\<rparr>)"

definition ClearTable :: "swnode \<Rightarrow> swnode" where
  "ClearTable s = s\<lparr>m_rtTable := Map.empty\<rparr>"

text \<open>
  The hash, with the key as a list of bytes: four bytes at a time, read as a little-endian word,
  then the rest from its last byte to its first.
\<close>

definition hashMix :: "u32 \<Rightarrow> u32" where
  "hashMix k = (let k = k * 0xcc9e2d51; k = push_bit 15 k OR drop_bit 17 k in k * 0x1b873593)"

definition hashStep :: "u32 \<Rightarrow> u32 \<Rightarrow> u32" where
  "hashStep k h =
     (let h = h XOR hashMix k;
          h = push_bit 13 h OR drop_bit 19 h
      in h + (push_bit 2 h + 0xe6546b64))"

definition le32 :: "u8 \<Rightarrow> u8 \<Rightarrow> u8 \<Rightarrow> u8 \<Rightarrow> u32" where
  "le32 a b c d = ucast a OR push_bit 8 (ucast b) OR push_bit 16 (ucast c) OR push_bit 24 (ucast d)"

fun hashBody :: "u8 list \<Rightarrow> u32 \<Rightarrow> u32 \<times> u8 list" where
  "hashBody (a # b # c # d # rest) h = hashBody rest (hashStep (le32 a b c d) h)"
| "hashBody key h = (h, key)"

definition hashFinal :: "u32 \<Rightarrow> u32" where
  "hashFinal h =
     (let h = h XOR drop_bit 16 h; h = h * 0x85ebca6b; h = h XOR drop_bit 13 h; h = h * 0xc2b2ae35
      in h XOR drop_bit 16 h)"

definition EcmpHash :: "u8 list \<Rightarrow> u32 \<Rightarrow> u32" where
  "EcmpHash key seed =
     (case hashBody key seed of (h, tail) \<Rightarrow>
        let h = (if tail = [] then h
                 else h XOR hashMix (foldr (\<lambda>x k. push_bit 8 k OR ucast x) tail 0))
        in hashFinal (h XOR of_nat (length key)))"

definition bytes32 :: "u32 \<Rightarrow> u8 list" where
  "bytes32 w = [ucast w, ucast (drop_bit 8 w), ucast (drop_bit 16 w), ucast (drop_bit 24 w)]"

text \<open>The third word of the key is uninitialised memory for the protocols the code does not know.\<close>

definition portWord :: "u32 \<Rightarrow> spkt \<Rightarrow> u32" where
  "portWord junk p =
     (if p_proto p = 0x6 \<or> p_proto p = 0x11 \<or> p_proto p = 0xFC \<or> p_proto p = 0xFD
      then ucast (p_sport p) OR push_bit 16 (ucast (p_dport p)) else junk)"

definition GetOutDev :: "u32 \<Rightarrow> spkt \<Rightarrow> swnode \<Rightarrow> int res" where
  "GetOutDev junk p s =
     (case m_rtTable s (p_dst p) of
        None \<Rightarrow> Inr (-1)
      | Some nexthops \<Rightarrow>
          if nexthops = [] then Inl NotFinite
          else
            let buf = bytes32 (p_src p) @ bytes32 (p_dst p) @ bytes32 (portWord junk p);
                idx = unat (EcmpHash buf (m_ecmpSeed s)) mod length nexthops
            in Inr (nexthops ! idx))"

subsection \<open>Telemetry on departure\<close>

definition u64_to_int :: "u64 \<Rightarrow> int" where
  "u64_to_int w = sint (ucast w :: u32)"

definition pow2 :: "libm \<Rightarrow> double \<Rightarrow> double \<Rightarrow> double res" where
  "pow2 lm e fct = bindr (fdiv e fct) (\<lambda>x. Inr (lm_pow lm 2 x))"

text \<open>The utilisation estimate of HPCC-PINT, computed with approximate logarithms.\<close>

definition pintU :: "swenv \<Rightarrow> nat \<Rightarrow> swnode \<Rightarrow> double res" where
  "pintU e d s =
     (let lm = e_libm e; dev = m_devices s ! d;
          dt = (let x = e_now e - m_lastPktTs s d in if x > m_maxRtt s then m_maxRtt s else x);
          B = m_bps dev div 8;
          qlen = (ucast (GetNBytesTotal (m_queue dev)) :: u64);
          apprx = (\<lambda>k x. log2apprx lm (e_rand e d k) x 20 16 20) in
      bindr (logres_shift 20 20) (\<lambda>sft.
      let fct = 2 ^ nat sft in
      bindr (flog (lm_log2 lm) (u64_to_double (m_maxRtt s))) (\<lambda>lT. let log_T = fmul lT fct in
      bindr (flog (lm_log2 lm) (u64_to_double B)) (\<lambda>lB. let log_B = fmul lB fct in
      bindr (flog (lm_log2 lm) 1000000000) (\<lambda>l9. let log_1e9 = fmul l9 fct in
      bindr (if drop_bit 8 qlen > 0 then
               bindr (apprx 0 (u64_to_int dt)) (\<lambda>log_dt.
               bindr (apprx 1 (u64_to_int (drop_bit 8 qlen))) (\<lambda>log_qlen.
               bindr (pow2 lm (fsub (fsub (fadd (of_int (log_dt + log_qlen)) log_1e9) log_B) (fmul 2 log_T)) fct) (\<lambda>x.
               Inr (fmul x 256))))
             else Inr 0) (\<lambda>qterm.
      bindr (if m_lastPktSize s d > 0 then
               bindr (apprx 2 (sint (m_lastPktSize s d))) (\<lambda>log_byte.
               pow2 lm (fsub (fsub (fadd (of_int log_byte) log_1e9) log_B) log_T) fct)
             else Inr 0) (\<lambda>byteTerm.
      bindr (if m_maxRtt s > dt \<and> m_u s d > 0 then
               bindr (apprx 3 (u64_to_int (m_maxRtt s - dt))) (\<lambda>log_T_dt.
               bindr (trunc_int (roundz (fmul (m_u s d) 8192))) (\<lambda>ui.
               bindr (apprx 4 ui) (\<lambda>log_u.
               bindr (pow2 lm (fsub (of_int (log_T_dt + log_u)) log_T) fct) (\<lambda>x.
               fdiv x 8192))))
             else Inr 0) (\<lambda>uTerm.
      Inr (fadd (fadd qterm byteTerm) uTerm)))))))))"

definition stampTelemetry :: "swenv \<Rightarrow> nat \<Rightarrow> spkt \<Rightarrow> swnode \<Rightarrow> (swnode \<times> spkt) res" where
  "stampTelemetry e d p s =
     (let dev = m_devices s ! d in
      if p_proto p = 0x11 then
        (if m_ccMode s = 3 then
           bindr (PushHop (e_mode e) (e_multi e) (e_now e)
                    (if \<not> PowerEnabled s then m_txBytes s d else ucast (GetNBytesRxTotal (m_queue dev)))
                    (GetNBytesTotal (m_queue dev)) (m_bps dev) (p_int p))
             (\<lambda>ih. Inr (s, p\<lparr>p_int := ih\<rparr>))
         else if m_ccMode s = 10 then
           bindr (pintU e d s) (\<lambda>newU.
           bindr (encode_u (e_libm e) (e_pint e) (e_rand e d 5) newU) (\<lambda>pw.
           let p = (if pw > GetPower (e_mode e) (e_pint_bytes e) (p_int p)
                    then p\<lparr>p_int := SetPower (e_mode e) (e_pint_bytes e) pw (p_int p)\<rparr> else p)
           in Inr (s\<lparr>m_u := (m_u s)(d := newU)\<rparr>, p)))
         else Inr (s, p))
      else
        (case p_fb p of
           None \<Rightarrow> Inr (s, p)
         | Some f \<Rightarrow>
             bindr (setTelemetry (GetNBytesTotal (m_queue dev)) (e_now e) (m_bps dev) (m_txBytes s d) f)
               (\<lambda>f. Inr (s, p\<lparr>p_fb := Some f\<rparr>))))"

subsection \<open>Sending\<close>

type_synonym dq = "nat \<Rightarrow> swnode \<Rightarrow> swnode res"

definition TransmitStart :: "nat \<Rightarrow> spkt \<Rightarrow> swnode \<Rightarrow> swnode res" where
  "TransmitStart d p s =
     (if m_busy (m_devices s ! d) then Inl Assert
      else Inr ((updDev d (\<lambda>dev. dev\<lparr>m_busy := True, m_currentPkt := Some p\<rparr>) s)\<lparr>wire := wire s @ [(d, p)]\<rparr>))"

definition SwitchSend :: "dq \<Rightarrow> nat \<Rightarrow> nat \<Rightarrow> spkt \<Rightarrow> swnode \<Rightarrow> swnode res" where
  "SwitchSend dq d qIndex p s =
     bindr (BEgressQueue_Enqueue p_size p qIndex (m_queue (m_devices s ! d))) (\<lambda>(q, _).
     dq d (updDev d (\<lambda>dev. dev\<lparr>m_queue := q\<rparr>) s))"

definition pfcFrame :: "nat \<Rightarrow> bool \<Rightarrow> u32 \<Rightarrow> port \<Rightarrow> spkt" where
  "pfcFrame qIndex resume qlen dev = \<lparr>p_size = 43, p_src = m_addr dev, p_dst = 0xffffffff, p_proto = 0xFE,
     p_sport = 0, p_dport = 0, p_pg = 0, p_prio = None, p_unsched = None, p_in = None, p_ecn = 0,
     p_int = IntHeader_init, p_fb = None,
     p_pfc = (if resume then 0 else m_pausetime dev, qlen, of_nat qIndex)\<rparr>"

definition SendPfc :: "dq \<Rightarrow> nat \<Rightarrow> nat \<Rightarrow> bool \<Rightarrow> swnode \<Rightarrow> swnode res" where
  "SendPfc dq d qIndex resume s =
     bindr (beq_GetNBytes qIndex (m_queue (m_devices s ! d))) (\<lambda>qlen.
     let s' = s\<lparr>pfcLog := pfcLog s @ [(d, qIndex, resume)]\<rparr>
     in SwitchSend dq d 0 (pfcFrame qIndex resume qlen (m_devices s ! d)) s')"

definition CheckAndSendPfc :: "dq \<Rightarrow> nat \<Rightarrow> nat \<Rightarrow> swnode \<Rightarrow> swnode res" where
  "CheckAndSendPfc dq inDev qIndex s =
     (if inDev \<ge> length (m_devices s) then Inl OutOfBounds else
      bindr (CheckShouldPause inDev qIndex (m_mmu s)) (\<lambda>pause.
      if pause then
        bindr (SendPfc dq inDev qIndex False s) (\<lambda>s.
        bindr (SetPause inDev qIndex (m_mmu s)) (\<lambda>m. Inr (s\<lparr>m_mmu := m\<rparr>)))
      else Inr s))"

definition CheckAndSendResume :: "dq \<Rightarrow> nat \<Rightarrow> nat \<Rightarrow> swnode \<Rightarrow> swnode res" where
  "CheckAndSendResume dq inDev qIndex s =
     (if inDev \<ge> length (m_devices s) then Inl OutOfBounds else
      bindr (CheckShouldResume inDev qIndex (m_mmu s)) (\<lambda>(m, resume).
      let s = s\<lparr>m_mmu := m\<rparr> in
      if resume then
        bindr (SendPfc dq inDev qIndex True s) (\<lambda>s.
        bindr (SetResume inDev qIndex (m_mmu s)) (\<lambda>m. Inr (s\<lparr>m_mmu := m\<rparr>)))
      else Inr s))"

definition pktType :: "spkt \<Rightarrow> nat" where
  "pktType p = (if p_prio p \<noteq> None then LOSSY else LOSSLESS)"

definition addBytes :: "nat \<Rightarrow> nat \<Rightarrow> nat \<Rightarrow> u32 \<Rightarrow> swnode \<Rightarrow> swnode" where
  "addBytes i j k n s =
     s\<lparr>m_bytes := (m_bytes s)(i := (m_bytes s i)(j := (m_bytes s i j)(k := m_bytes s i j k + n)))\<rparr>"

text \<open>
  What happens when a packet leaves port \<open>d\<close>: the buffer is told, the packet is marked, the port it
  came from may be resumed, telemetry is written.
\<close>

definition SwitchNotifyDequeue :: "dq \<Rightarrow> swenv \<Rightarrow> nat \<Rightarrow> nat \<Rightarrow> spkt \<Rightarrow> swnode \<Rightarrow> (swnode \<times> spkt) res" where
  "SwitchNotifyDequeue dq e d qIndex p s =
     (if d \<ge> pCnt then Inl OutOfBounds else
     bindr
      (if qIndex \<noteq> 0 then
         (case p_in p of
            None \<Rightarrow> Inl Uninit
          | Some t \<Rightarrow>
            let inDev = unat t in
            bindr (RemoveFromIngressAdmission inDev qIndex (p_size p) (pktType p) (m_mmu s)) (\<lambda>m.
            bindr (RemoveFromEgressAdmission d qIndex (p_size p) (pktType p) m) (\<lambda>m.
            let s = addBytes inDev d qIndex (- p_size p) (s\<lparr>m_mmu := m\<rparr>) in
            bindr (if m_ecnEnabled s then ShouldSendCN (e_uniform e d) d qIndex (m_mmu s) else Inr False) (\<lambda>cn.
            bindr (CheckAndSendResume dq inDev qIndex s) (\<lambda>s.
            Inr (s, if cn then p\<lparr>p_ecn := 3\<rparr> else p))))))
       else Inr (s, p))
      (\<lambda>(s, p).
      bindr (stampTelemetry e d p s) (\<lambda>(s, p).
      Inr (s\<lparr>m_txBytes := (m_txBytes s)(d := m_txBytes s d + ucast (p_size p)),
             m_lastPktSize := (m_lastPktSize s)(d := p_size p),
             m_lastPktTs := (m_lastPktTs s)(d := e_now e)\<rparr>, p))))"

fun DequeueAndTransmit :: "nat \<Rightarrow> swenv \<Rightarrow> nat \<Rightarrow> swnode \<Rightarrow> swnode res" where
  "DequeueAndTransmit 0 e d s = Inl Diverge"
| "DequeueAndTransmit (Suc n) e d s =
     (if d \<ge> length (m_devices s) then Inl OutOfBounds
      else if \<not> m_linkUp (m_devices s ! d) then Inr s
      else if m_busy (m_devices s ! d) then Inr s
      else
        bindr (DequeueRR p_size (m_paused (m_devices s ! d)) (m_queue (m_devices s ! d))) (\<lambda>(q, r).
        let s = updDev d (\<lambda>dev. dev\<lparr>m_queue := q\<rparr>) s in
        case r of
          None \<Rightarrow> Inr s
        | Some p \<Rightarrow>
            bindr (SwitchNotifyDequeue (DequeueAndTransmit n e) e d (GetLastQueue q) p s) (\<lambda>(s, p).
            bindr (TransmitStart d (p\<lparr>p_in := None\<rparr>) s) (\<lambda>s.
            Inr (updDev d (\<lambda>dev. dev\<lparr>dev_numTxBytes := dev_numTxBytes dev + ucast (p_size p),
                   totalBytesSent := totalBytesSent dev + ucast (p_size p)\<rparr>) s)))))"

subsection \<open>Handlers\<close>

text \<open>The depth that is always enough (\<open>depth_enough\<close>).\<close>

definition dq2 :: "swenv \<Rightarrow> dq" where
  "dq2 e = DequeueAndTransmit 2 e"

definition pickQueue :: "u32 \<Rightarrow> spkt \<Rightarrow> nat" where
  "pickQueue ackHighPrio p =
     (if p_proto p = 0xFF \<or> p_proto p = 0xFE \<or> (ackHighPrio \<noteq> 0 \<and> (p_proto p = 0xFD \<or> p_proto p = 0xFC)) then 0
      else case p_prio p of
        Some q \<Rightarrow> unat q
      | None \<Rightarrow> if p_proto p = 0x06 then 1 else unat (p_pg p))"

definition SendToDev :: "swenv \<Rightarrow> u32 \<Rightarrow> spkt \<Rightarrow> swnode \<Rightarrow> swnode res" where
  "SendToDev e junk p s =
     bindr (GetOutDev junk p s) (\<lambda>out.
     if out \<ge> 0 then
       let idx = nat out in
       if idx \<ge> length (m_devices s) then Inl OutOfBounds
       else if \<not> m_linkUp (m_devices s ! idx) then Inl Assert
       else
         let unsched = (case p_unsched p of Some v \<Rightarrow> ucast v | None \<Rightarrow> 0);
             qIndex = pickQueue (m_ackHighPrio s) p
         in case p_in p of
              None \<Rightarrow> Inl Uninit
            | Some t \<Rightarrow>
              let inDev = unat t in
              bindr (if qIndex \<noteq> 0 then
                       bindr (admitPacket inDev idx qIndex (p_size p) (pktType p) unsched (m_mmu s)) (\<lambda>(m, ok).
                       let s = s\<lparr>m_mmu := m\<rparr> in
                       if \<not> ok then Inr (s, False)
                       else bindr (CheckAndSendPfc (dq2 e) inDev qIndex s) (\<lambda>s. Inr (s, True)))
                     else Inr (s, True)) (\<lambda>(s, go).
              if \<not> go then Inr s
              else if \<not> (ok_pq inDev qIndex \<and> idx < pCnt) then Inl OutOfBounds
              else
                bindr (SwitchSend (dq2 e) idx qIndex p (addBytes inDev idx qIndex (p_size p) s)) (\<lambda>s.
                Inr (updDev idx (\<lambda>dev. dev\<lparr>totalBytesRcvd := totalBytesRcvd dev + ucast (p_size p)\<rparr>) s)))
     else Inr s)"

definition SwitchReceiveFromDevice :: "swenv \<Rightarrow> u32 \<Rightarrow> spkt \<Rightarrow> swnode \<Rightarrow> swnode res" where
  "SwitchReceiveFromDevice e junk p s = SendToDev e junk p s"

definition Resume :: "swenv \<Rightarrow> nat \<Rightarrow> nat \<Rightarrow> swnode \<Rightarrow> swnode res" where
  "Resume e d qIndex s =
     (if qIndex \<ge> qCnt then Inl OutOfBounds
      else if \<not> m_paused (m_devices s ! d) qIndex then Inl Assert
      else dq2 e d (updDev d (\<lambda>dev. dev\<lparr>m_paused := (m_paused dev)(qIndex := False)\<rparr>) s))"

text \<open>A packet arrives at port \<open>d\<close>; \<open>corrupt\<close> is the verdict of the error model.\<close>

definition Receive :: "swenv \<Rightarrow> u32 \<Rightarrow> bool \<Rightarrow> nat \<Rightarrow> spkt \<Rightarrow> swnode \<Rightarrow> swnode res" where
  "Receive e junk corrupt d p s =
     (let dev = m_devices s ! d in
      if d \<ge> length (m_devices s) then Inl OutOfBounds
      else if \<not> m_linkUp dev then Inr s
      else if corrupt then Inr s
      else if p_proto p = 0xFE then
        (if \<not> m_qbbEnabled dev then Inr s
         else case p_pfc p of (time, qlen, qi) \<Rightarrow>
           if time > 0 then
             (if unat qi \<ge> qCnt then Inl OutOfBounds
              else Inr (updDev d (\<lambda>dev. dev\<lparr>m_paused := (m_paused dev)(unat qi := True)\<rparr>) s))
           else Resume e d (unat qi) s)
      else SwitchReceiveFromDevice e junk (p\<lparr>p_in := Some (of_nat d)\<rparr>) s)"

definition TransmitComplete :: "swenv \<Rightarrow> nat \<Rightarrow> swnode \<Rightarrow> swnode res" where
  "TransmitComplete e d s =
     (if d \<ge> length (m_devices s) then Inl OutOfBounds
      else if \<not> m_busy (m_devices s ! d) then Inl Assert
      else if m_currentPkt (m_devices s ! d) = None then Inl Assert
      else dq2 e d (updDev d (\<lambda>dev. dev\<lparr>m_busy := False, m_currentPkt := None\<rparr>) s))"

text \<open>The loop of \<^verbatim>\<open>TakeDown\<close> that throws the queued packets away.\<close>

fun drainQueue :: "nat \<Rightarrow> spkt beq \<Rightarrow> spkt beq res" where
  "drainQueue 0 q = Inl Diverge"
| "drainQueue (Suc n) q =
     bindr (DequeueRR p_size (\<lambda>_. False) q) (\<lambda>(q, r). case r of None \<Rightarrow> Inr q | Some _ \<Rightarrow> drainQueue n q)"

definition TakeDown :: "nat \<Rightarrow> nat \<Rightarrow> swnode \<Rightarrow> swnode res" where
  "TakeDown n d s =
     (if d \<ge> length (m_devices s) then Inl OutOfBounds
      else bindr (drainQueue n (m_queue (m_devices s ! d))) (\<lambda>q.
        Inr (updDev d (\<lambda>dev. dev\<lparr>m_paused := (\<lambda>k. k \<ge> qCnt \<and> m_paused dev k), m_queue := q, m_linkUp := False\<rparr>) s)))"

end
