(* ===== verification/Switch_Invariant.thy ===== *)
theory Switch_Invariant
  imports Switch_Node
begin

text \<open>
  The invariant of the switch.  \<open>ledger\<close> is the multiset of the packets that really are in the
  queues of the ports (priorities 1 to 7); the invariant \<open>sw_ok\<close> says that the counters of the buffer
  agree with it, that \<^verbatim>\<open>m_bytes\<close> does, that a queue using headroom has been paused, that pause and
  resume frames alternate, and that no port is idle while it has something to send.

  The calls nest: the routine that transmits may have to send a resume frame, which transmits again.
  \<open>urgent_sender\<close> is the contract of the inner call; the lemmas about the outer routines are proved in
  it once, and it is interpreted on the routine itself.  The handlers keep the invariant, so it
  holds in every state a switch reaches.
\<close>

subsection \<open>The pause state and the headroom in the buffer\<close>

lemma chargeIngress_paused [simp]: "paused (chargeIngress p q ps m) = paused m"
  by (simp add: chargeIngress_def Let_def)

lemma creditIngress_paused [simp]: "paused (creditIngress p q ps m) = paused m"
  by (simp add: creditIngress_def Let_def)

lemma UpdateIngress_paused:
  assumes "UpdateIngressAdmission p q s t u m = Inr m'"
  shows "paused m' = paused m"
proof (cases "t = LOSSLESS")
  case False
  then show ?thesis using assms by (auto simp: UpdateIngressAdmission_def Let_def split: if_splits)
next
  case True
  define n where "n = chargeIngress p q (ucast s) m"
  from True obtain k thr where
      thr: "losslessThreshold p q u (n\<lparr>sharedPoolUsed := sharedPoolUsed n + ucast s\<rparr>) = Inr (k, thr)"
      and m': "m' = useHeadroom p q (ucast s) thr k"
    using assms by (auto simp: UpdateIngressAdmission_def n_def[symmetric] Let_def bindr_Inr_iff split: if_splits)
  note kf = same_counters_fields[OF losslessThreshold_same[OF thr]]
  show ?thesis by (simp add: m' useHeadroom_effect kf n_def)
qed

lemma UpdateEgress_paused: "UpdateEgressAdmission p q s t m = Inr m' \<Longrightarrow> paused m' = paused m"
  by (auto simp: UpdateEgressAdmission_def Let_def split: if_splits)

lemma admit_pfc:
  assumes "admitPacket p p' q s t u m = Inr (m', v)"
  shows "paused m' = paused m" "(i, j) \<noteq> (p, q) \<Longrightarrow> xoffUsed m' i j = xoffUsed m i j"
    "v \<Longrightarrow> ok_pq p q \<and> ok_pq p' q" "\<not> v \<Longrightarrow> same_counters m m'"
proof -
  obtain m1 a where ci: "CheckIngressAdmission p q s t u m = Inr (m1, a)"
    using assms by (auto simp: admitPacket_def bindr_Inr_iff)
  note f1 = same_counters_fields[OF CheckIngress_same[OF ci]]
  have "paused m' = paused m \<and> ((i, j) \<noteq> (p, q) \<longrightarrow> xoffUsed m' i j = xoffUsed m i j) \<and>
    (v \<longrightarrow> ok_pq p q \<and> ok_pq p' q) \<and> (\<not> v \<longrightarrow> same_counters m m')"
  proof (cases a)
    case False
    then show ?thesis using assms ci f1 CheckIngress_same[OF ci] by (auto simp: admitPacket_def)
  next
    case True
    then obtain m2 b where ce: "CheckEgressAdmission p' q s t u m1 = Inr (m2, b)"
      using assms ci by (auto simp: admitPacket_def bindr_Inr_iff)
    note f2 = same_counters_fields[OF CheckEgress_same[OF ce]]
    note same = same_counters_trans[OF CheckIngress_same[OF ci] CheckEgress_same[OF ce]]
    show ?thesis
    proof (cases b)
      case False
      then show ?thesis using assms ci ce True f1 f2 same by (auto simp: admitPacket_def)
    next
      case b: True
      then obtain m3 where u: "UpdateIngressAdmission p q s t u m2 = Inr m3"
        "UpdateEgressAdmission p' q s t m3 = Inr m'" and v: "v"
        using assms ci ce True by (auto simp: admitPacket_def bindr_Inr_iff)
      have x: "\<exists>h. xoffUsed m3 = upd2 (xoffUsed m2) p q (xoffUsed m2 p q + h)" "ok_pq p q"
        using UpdateIngress_effect[OF u(1)] by blast+
      have y: "xoffUsed m' = xoffUsed m3" "ok_pq p' q" using UpdateEgress_effect[OF u(2)] by blast+
      show ?thesis
        using x y v f1 f2 UpdateIngress_paused[OF u(1)] UpdateEgress_paused[OF u(2)] by auto
    qed
  qed
  then show "paused m' = paused m" "(i, j) \<noteq> (p, q) \<Longrightarrow> xoffUsed m' i j = xoffUsed m i j"
    "v \<Longrightarrow> ok_pq p q \<and> ok_pq p' q" "\<not> v \<Longrightarrow> same_counters m m'" by blast+
qed

lemma releaseHeadroom_pfc:
  "paused (releaseHeadroom p q ps m) = paused m"
  "xoffUsed m i j = 0 \<Longrightarrow> xoffUsed (releaseHeadroom p q ps m) i j = 0"
  by (auto simp: releaseHeadroom_def Let_def)

lemma RemoveIngress_pfc:
  assumes "RemoveFromIngressAdmission p q s t m = Inr m'"
  shows "paused m' = paused m" "xoffUsed m i j = 0 \<Longrightarrow> xoffUsed m' i j = 0" "ok_pq p q"
proof -
  show ok: "ok_pq p q" using assms by (simp add: RemoveFromIngressAdmission_def split: if_splits)
  define n where "n = creditIngress p q (ucast s)
    (m\<lparr>txBytesIngress := upd2 (txBytesIngress m) p q (txBytesIngress m p q + ucast s)\<rparr>)"
  have n: "paused n = paused m" "xoffUsed n = xoffUsed m" by (simp_all add: n_def creditIngress_fields)
  have "m' = n \<or> (\<exists>l. m' = releaseHeadroom p q (ucast s) (n\<lparr>ingressLpf_bytes := l\<rparr>))"
    using assms ok unfolding RemoveFromIngressAdmission_def Let_def n_def[symmetric]
    by (cases "t = LOSSLESS") (auto simp: bindr_Inr_iff)
  then show "paused m' = paused m" "xoffUsed m i j = 0 \<Longrightarrow> xoffUsed m' i j = 0"
    using n by (auto simp: releaseHeadroom_pfc)
qed

lemma RemoveEgress_pfc:
  assumes "RemoveFromEgressAdmission p q s t m = Inr m'"
  shows "paused m' = paused m" "xoffUsed m' = xoffUsed m" "ok_pq p q"
proof -
  show "xoffUsed m' = xoffUsed m" "ok_pq p q" using RemoveEgress_effect[OF assms] by blast+
  have "\<not> (\<not> ok_pq p q \<or> 2 \<le> t)" using RemoveEgress_effect[OF assms] by simp
  then show "paused m' = paused m"
    using assms unfolding RemoveFromEgressAdmission_def Let_def
    by (cases "t = LOSSY") (auto simp: bindr_Inr_iff)
qed

lemma CheckShouldResume_true:
  "CheckShouldResume p q m = Inr (m', True) \<Longrightarrow> paused m p q \<noteq> 0 \<and> xoffUsed m p q = 0"
  by (auto simp: CheckShouldResume_def GetHdrmBytes_def split: if_splits)

subsection \<open>The packets in the queues\<close>

definition bp :: "nat \<Rightarrow> nat \<Rightarrow> spkt \<Rightarrow> bpkt" where
  "bp d q p = \<lparr>b_in = (case p_in p of Some t \<Rightarrow> unat t | None \<Rightarrow> 0), b_out = d, b_q = q,
     b_size = p_size p, b_type = pktType p\<rparr>"

definition portLedger :: "nat \<Rightarrow> spkt beq \<Rightarrow> bpkt multiset" where
  "portLedger d b = (\<Sum>q\<in>{1..<8}. mset (map (bp d q) (contents b q)))"

definition ledger :: "swnode \<Rightarrow> bpkt multiset" where
  "ledger s = (\<Sum>d<length (m_devices s). portLedger d (m_queue (m_devices s ! d)))"

lemma msum_change:
  fixes f g :: "'i \<Rightarrow> 'a :: cancel_comm_monoid_add"
  assumes "finite A" "i \<in> A" "\<And>j. j \<in> A \<Longrightarrow> j \<noteq> i \<Longrightarrow> g j = f j"
  shows "sum g A + f i = sum f A + g i"
proof -
  have "sum g (A - {i}) = sum f (A - {i})" by (rule sum.cong) (auto simp: assms(3))
  then show ?thesis using sum.remove[OF assms(1,2), of g] sum.remove[OF assms(1,2), of f] by (simp add: ac_simps)
qed

lemma portLedger_cong:
  "(\<And>q. 1 \<le> q \<Longrightarrow> q < 8 \<Longrightarrow> contents b' q = contents b q) \<Longrightarrow> portLedger d b' = portLedger d b"
  by (simp add: portLedger_def)

lemma portLedger_cons:
  assumes "1 \<le> q" "q < 8" "contents b q = p # contents b' q" "\<And>j. j \<noteq> q \<Longrightarrow> contents b' j = contents b j"
  shows "portLedger d b = add_mset (bp d q p) (portLedger d b')"
proof -
  have "portLedger d b + mset (map (bp d q) (contents b' q)) = portLedger d b' + mset (map (bp d q) (contents b q))"
    unfolding portLedger_def by (rule msum_change) (use assms in auto)
  then show ?thesis by (simp add: assms(3))
qed

lemma portLedger_snoc:
  assumes "1 \<le> q" "q < 8" "contents b' q = contents b q @ [p]" "\<And>j. j \<noteq> q \<Longrightarrow> contents b' j = contents b j"
  shows "portLedger d b' = add_mset (bp d q p) (portLedger d b)"
proof -
  have "portLedger d b' + mset (map (bp d q) (contents b q)) = portLedger d b + mset (map (bp d q) (contents b' q))"
    unfolding portLedger_def by (rule msum_change) (use assms in auto)
  then show ?thesis by (simp add: assms(3))
qed

lemma updDev_simps [simp]:
  "length (m_devices (updDev d f s)) = length (m_devices s)"
  "m_mmu (updDev d f s) = m_mmu s" "m_bytes (updDev d f s) = m_bytes s" "pfcLog (updDev d f s) = pfcLog s"
  "wire (updDev d f s) = wire s" "m_rtTable (updDev d f s) = m_rtTable s"
  "m_ecnEnabled (updDev d f s) = m_ecnEnabled s"
  "d < length (m_devices s) \<Longrightarrow> m_devices (updDev d f s) ! i = (if i = d then f (m_devices s ! d) else m_devices s ! i)"
  by (simp_all add: updDev_def)

lemma ledger_updDev:
  assumes "d < length (m_devices s)"
  shows "ledger (updDev d f s) + portLedger d (m_queue (m_devices s ! d)) =
         ledger s + portLedger d (m_queue (f (m_devices s ! d)))"
proof -
  let ?g = "\<lambda>i. portLedger i (m_queue (m_devices (updDev d f s) ! i))"
  let ?h = "\<lambda>i. portLedger i (m_queue (m_devices s ! i))"
  have "sum ?g {..<length (m_devices s)} + ?h d = sum ?h {..<length (m_devices s)} + ?g d"
    by (rule msum_change) (use assms in auto)
  then show ?thesis using assms by (simp add: ledger_def)
qed

lemma ledger_same_queue:
  "d < length (m_devices s) \<Longrightarrow> m_queue (f (m_devices s ! d)) = m_queue (m_devices s ! d) \<Longrightarrow>
   ledger (updDev d f s) = ledger s"
  using ledger_updDev[of d s f] by simp

lemma ledger_cong: "m_devices s' = m_devices s \<Longrightarrow> ledger s' = ledger s"
  by (simp add: ledger_def)

subsection \<open>Ports\<close>

definition queue_wf :: "spkt beq \<Rightarrow> bool" where
  "queue_wf b \<longleftrightarrow> beq_ok p_size b \<and> (\<forall>q\<in>{1..<8}. \<forall>p\<in>set (contents b q). p_in p \<noteq> None)"

definition ports_ok :: "swnode \<Rightarrow> bool" where
  "ports_ok s \<longleftrightarrow> length (m_devices s) \<le> pCnt \<and> (\<forall>d<length (m_devices s). queue_wf (m_queue (m_devices s ! d)))"

text \<open>A port that could send has nothing it may send.\<close>

definition quiet :: "port \<Rightarrow> bool" where
  "quiet dev \<longleftrightarrow> (m_linkUp dev \<and> \<not> m_busy dev \<longrightarrow>
     contents (m_queue dev) 0 = [] \<and> (\<forall>j<8. m_paused dev j \<or> contents (m_queue dev) j = []))"

definition working :: "nat set \<Rightarrow> swnode \<Rightarrow> bool" where
  "working D s \<longleftrightarrow> (\<forall>d<length (m_devices s). d \<notin> D \<longrightarrow> quiet (m_devices s ! d))"

lemma working_mono: "working D s \<Longrightarrow> D \<subseteq> D' \<Longrightarrow> working D' s"
  by (auto simp: working_def)

lemma working_upd:
  assumes "working (insert d D) s" "d < length (m_devices s)" "quiet (f (m_devices s ! d)) \<or> d \<in> D'" "D \<subseteq> D'"
  shows "working D' (updDev d f s)"
  using assms by (auto simp: working_def)

lemma ports_ok_upd:
  assumes "ports_ok s" "d < length (m_devices s)" "queue_wf (m_queue (f (m_devices s ! d)))"
  shows "ports_ok (updDev d f s)"
  using assms by (auto simp: ports_ok_def)

text \<open>What a step leaves alone: the buffer, the byte counters, the log of pause frames, the ledger.\<close>

definition same_core :: "swnode \<Rightarrow> swnode \<Rightarrow> bool" where
  "same_core s s' \<longleftrightarrow> m_mmu s' = m_mmu s \<and> m_bytes s' = m_bytes s \<and> pfcLog s' = pfcLog s
     \<and> ledger s' = ledger s \<and> length (m_devices s') = length (m_devices s)"

lemma same_core_refl [simp]: "same_core s s"
  and same_core_trans: "same_core a b \<Longrightarrow> same_core b c \<Longrightarrow> same_core a c"
  by (simp_all add: same_core_def)

lemma stampTelemetry_frame:
  assumes "stampTelemetry e d p s = Inr (s', p')"
  shows "m_devices s' = m_devices s" "m_mmu s' = m_mmu s" "m_bytes s' = m_bytes s" "pfcLog s' = pfcLog s"
    "p_size p' = p_size p" "wire s' = wire s"
  using assms unfolding stampTelemetry_def Let_def
  by (auto split: if_splits option.splits elim!: bindr_InrE)

lemma TransmitStart_Inr:
  assumes "TransmitStart d p s = Inr s'"
  shows "\<not> m_busy (m_devices s ! d)"
    "s' = (updDev d (\<lambda>dev. dev\<lparr>m_busy := True, m_currentPkt := Some p\<rparr>) s)\<lparr>wire := wire s @ [(d, p)]\<rparr>"
  using assms by (auto simp: TransmitStart_def split: if_splits)

lemma finish_transmit:
  assumes "TransmitStart d p s = Inr s1" "ports_ok s" "d < length (m_devices s)"
    and "s' = updDev d (\<lambda>dev. dev\<lparr>dev_numTxBytes := dev_numTxBytes dev + x, totalBytesSent := totalBytesSent dev + y\<rparr>) s1"
  shows "same_core s s'" "ports_ok s'" "working (insert d D) s \<Longrightarrow> working D s'"
    "i \<noteq> d \<Longrightarrow> m_devices s' ! i = m_devices s ! i"
proof -
  note t = TransmitStart_Inr[OF assms(1)]
  define f :: "port \<Rightarrow> port" where "f = (\<lambda>dev. dev\<lparr>m_busy := True, m_currentPkt := Some p,
    dev_numTxBytes := dev_numTxBytes dev + x, totalBytesSent := totalBytesSent dev + y\<rparr>)"
  have s': "s' = (updDev d f s)\<lparr>wire := wire s @ [(d, p)]\<rparr>"
    using assms(3,4) t(2) by (simp add: updDev_def f_def)
  have q: "m_queue (f dev) = m_queue dev" "m_busy (f dev)" for dev by (simp_all add: f_def)
  have l: "ledger s' = ledger s"
    using ledger_same_queue[OF assms(3), of f] q ledger_cong[of s' "updDev d f s"] by (simp add: s')
  then show "same_core s s'" by (simp add: same_core_def s')
  have "ports_ok (updDev d f s)" using assms(2,3) q by (intro ports_ok_upd) (auto simp: ports_ok_def)
  then show "ports_ok s'" by (simp add: ports_ok_def s')
  show "working D s'" if "working (insert d D) s"
  proof -
    have "working D (updDev d f s)" by (rule working_upd[OF that assms(3)]) (auto simp: quiet_def q)
    then show ?thesis by (simp add: working_def s')
  qed
  show "i \<noteq> d \<Longrightarrow> m_devices s' ! i = m_devices s ! i" using assms(3) by (simp add: s')
qed

lemma notify_q0:
  assumes "SwitchNotifyDequeue dq e d 0 p s = Inr (s', p')"
  shows "m_devices s' = m_devices s" "same_core s s'" "p_size p' = p_size p"
proof -
  obtain s1 where st: "stampTelemetry e d p s = Inr (s1, p')"
    and s': "s' = s1\<lparr>m_txBytes := (m_txBytes s1)(d := m_txBytes s1 d + ucast (p_size p')),
             m_lastPktSize := (m_lastPktSize s1)(d := p_size p'),
             m_lastPktTs := (m_lastPktTs s1)(d := e_now e)\<rparr>"
    using assms by (auto simp: SwitchNotifyDequeue_def split: if_splits elim!: bindr_InrE)
  note f = stampTelemetry_frame[OF st]
  show "m_devices s' = m_devices s" "p_size p' = p_size p" using f by (simp_all add: s')
  then show "same_core s s'" using f ledger_cong[of s' s] by (simp add: same_core_def s')
qed

lemma DequeueAndTransmitE:
  assumes "DequeueAndTransmit (Suc n) e d s = Inr s'"
  obtains (stopped) "d < length (m_devices s)" "quiet (m_devices s ! d)" "s' = s"
  | (empty) b where "d < length (m_devices s)"
      "DequeueRR p_size (m_paused (m_devices s ! d)) (m_queue (m_devices s ! d)) = Inr (b, None)"
      "s' = updDev d (\<lambda>dev. dev\<lparr>m_queue := b\<rparr>) s"
  | (sent) b x s2 p2 s3 where "d < length (m_devices s)"
      "DequeueRR p_size (m_paused (m_devices s ! d)) (m_queue (m_devices s ! d)) = Inr (b, Some x)"
      "SwitchNotifyDequeue (DequeueAndTransmit n e) e d (GetLastQueue b) x
         (updDev d (\<lambda>dev. dev\<lparr>m_queue := b\<rparr>) s) = Inr (s2, p2)"
      "TransmitStart d (p2\<lparr>p_in := None\<rparr>) s2 = Inr s3"
      "s' = updDev d (\<lambda>dev. dev\<lparr>dev_numTxBytes := dev_numTxBytes dev + ucast (p_size p2),
           totalBytesSent := totalBytesSent dev + ucast (p_size p2)\<rparr>) s3"
proof -
  let ?dev = "m_devices s ! d"
  have d: "d < length (m_devices s)" using assms by (auto split: if_splits)
  show ?thesis
  proof (cases "m_linkUp ?dev \<and> \<not> m_busy ?dev")
    case False
    then have "s' = s" using assms d by (auto split: if_splits)
    moreover have "quiet ?dev" using False by (auto simp: quiet_def)
    ultimately show ?thesis using stopped d by simp
  next
    case True
    then obtain b r where dq: "DequeueRR p_size (m_paused ?dev) (m_queue ?dev) = Inr (b, r)"
      using assms d by (auto elim!: bindr_InrE)
    show ?thesis
    proof (cases r)
      case None
      then show ?thesis using empty d dq assms True by simp
    next
      case (Some x)
      then show ?thesis using sent[of b x] d dq assms True by (auto elim!: bindr_InrE)
    qed
  qed
qed

text \<open>
  A port with a packet in queue 0 sends that packet, if it can send at all; nothing else of the
  switch changes.  This is why the nested call behind a pause or resume frame is harmless.
\<close>

lemma Dequeue_urgent:
  assumes run: "DequeueAndTransmit (Suc n) e d s = Inr s'" and ok: "ports_ok s"
    and d: "d < length (m_devices s)" and ne: "contents (m_queue (m_devices s ! d)) 0 \<noteq> []"
  shows "same_core s s'" "ports_ok s'" "working (insert d D) s \<Longrightarrow> working D s'"
    "i \<noteq> d \<Longrightarrow> m_devices s' ! i = m_devices s ! i"
proof -
  let ?dev = "m_devices s ! d"
  have q: "queue_wf (m_queue ?dev)" and beq: "beq_ok p_size (m_queue ?dev)"
    using ok d by (simp_all add: ports_ok_def queue_wf_def)
  from run have "same_core s s' \<and> ports_ok s' \<and> (working (insert d D) s \<longrightarrow> working D s')
     \<and> (i \<noteq> d \<longrightarrow> m_devices s' ! i = m_devices s ! i)"
  proof (cases rule: DequeueAndTransmitE)
    case stopped
    then show ?thesis using ok by (auto simp: working_def)
  next
    case (empty b)
    from beq empty(2) show ?thesis by (rule DequeueRR_InrE) (use ne in auto)
  next
    case (sent b x s2 p2 s3)
    from beq sent(2) have c: "GetLastQueue b = 0" "beq_ok p_size b" "\<forall>j. j \<noteq> 0 \<longrightarrow> contents b j = contents (m_queue ?dev) j"
      by (rule DequeueRR_InrE, use ne in auto)+
    define s1 where "s1 = updDev d (\<lambda>dev. dev\<lparr>m_queue := b\<rparr>) s"
    note N = notify_q0[OF sent(3)[unfolded c(1), folded s1_def]]
    have wf: "queue_wf b" using q c(2,3) by (auto simp: queue_wf_def)
    have ok1: "ports_ok s1" unfolding s1_def by (rule ports_ok_upd[OF ok d]) (simp add: wf)
    have ok2: "ports_ok s2" "d < length (m_devices s2)" using ok1 N(1) d by (simp_all add: ports_ok_def s1_def)
    have "portLedger d b = portLedger d (m_queue ?dev)" by (rule portLedger_cong) (use c(3) in simp)
    then have "ledger s1 = ledger s" using ledger_updDev[OF d, of "\<lambda>dev. dev\<lparr>m_queue := b\<rparr>"] by (simp add: s1_def)
    then have c1: "same_core s s1" by (simp add: same_core_def s1_def)
    have w1: "working (insert d D) s2" if "working (insert d D) s"
    proof -
      have "working (insert d D) s1" unfolding s1_def by (rule working_upd[OF _ d]) (use that in auto)
      then show ?thesis by (simp add: working_def N(1))
    qed
    note F = finish_transmit[OF sent(4) ok2 sent(5)]
    have "same_core s s'" using c1 N(2) F(1) by (blast intro: same_core_trans)
    moreover have "m_devices s' ! i = m_devices s ! i" if "i \<noteq> d"
      using F(4)[OF that] N(1) d that by (simp add: s1_def)
    ultimately show ?thesis using F(2,3) w1 by blast
  qed
  then show "same_core s s'" "ports_ok s'" "working (insert d D) s \<Longrightarrow> working D s'"
    "i \<noteq> d \<Longrightarrow> m_devices s' ! i = m_devices s ! i" by blast+
qed

subsection \<open>The invariant\<close>

text \<open>
  \<open>pfc_ok\<close>: a queue that uses headroom has been paused.  \<open>log_ok\<close>: pause and resume frames of a queue
  alternate, and the last one agrees with the pause state.  \<open>bytes_ok\<close>: the counters \<^verbatim>\<open>m_bytes\<close> are
  exact modulo \<open>2 ^ 32\<close>, except for priority 0.  In the middle of a handler the buffer may know of
  packets that are in no queue (\<open>X\<close>), \<^verbatim>\<open>m_bytes\<close> likewise (\<open>Y\<close>), and some queues may not have
  been paused yet (\<open>E\<close>).
\<close>

definition pfc_ok :: "(nat \<times> nat) set \<Rightarrow> mmu \<Rightarrow> bool" where
  "pfc_ok E m \<longleftrightarrow> (\<forall>p q. ok_pq p q \<longrightarrow> (p, q) \<notin> E \<longrightarrow> paused m p q = 0 \<longrightarrow> xoffUsed m p q = 0)"

fun alternating :: "bool \<Rightarrow> bool list \<Rightarrow> bool" where
  "alternating v [] = True"
| "alternating v (x # xs) = (x = v \<and> alternating (\<not> v) xs)"

definition pfcSeq :: "nat \<Rightarrow> nat \<Rightarrow> (nat \<times> nat \<times> bool) list \<Rightarrow> bool list" where
  "pfcSeq d q lg = [r. (d', q', r) \<leftarrow> lg, d' = d \<and> q' = q]"

definition log_ok :: "(nat \<times> nat \<times> bool) list \<Rightarrow> mmu \<Rightarrow> bool" where
  "log_ok lg m \<longleftrightarrow> (\<forall>p q. ok_pq p q \<longrightarrow> alternating False (pfcSeq p q lg)
     \<and> (paused m p q \<noteq> 0 \<longleftrightarrow> odd (length (pfcSeq p q lg))))"

definition bytes_ok :: "bpkt multiset \<Rightarrow> swnode \<Rightarrow> bool" where
  "bytes_ok L s \<longleftrightarrow> (\<forall>i j q. q \<noteq> 0 \<longrightarrow>
     m_bytes s i j q = of_nat (bytes (\<lambda>b. b_in b = i \<and> b_out b = j \<and> b_q b = q) L))"

definition sw_inv :: "mmu \<Rightarrow> bpkt multiset \<Rightarrow> bpkt multiset \<Rightarrow> (nat \<times> nat) set \<Rightarrow> swnode \<Rightarrow> bool" where
  "sw_inv m0 X Y E s \<longleftrightarrow> ports_ok s \<and> mmu_inv m0 (ledger s + X, m_mmu s) \<and> bytes_ok (ledger s + Y) s
     \<and> pfc_ok E (m_mmu s) \<and> log_ok (pfcLog s) (m_mmu s)"

lemma sw_inv_core: "sw_inv m0 X Y E s \<Longrightarrow> same_core s s' \<Longrightarrow> ports_ok s' \<Longrightarrow> sw_inv m0 X Y E s'"
  by (simp add: sw_inv_def same_core_def bytes_ok_def)

lemma sw_inv_same_mmu:
  "sw_inv m0 X Y E s \<Longrightarrow> same_counters (m_mmu s) m \<Longrightarrow> sw_inv m0 X Y E (s\<lparr>m_mmu := m\<rparr>)"
  using mmu_inv_same[of m0 "ledger s + X" "m_mmu s" m]
  by (simp add: sw_inv_def ports_ok_def ledger_def bytes_ok_def pfc_ok_def log_ok_def same_counters_fields)

lemma alternating_snoc:
  "alternating v (xs @ [x]) \<longleftrightarrow> alternating v xs \<and> x = (if even (length xs) then v else \<not> v)"
  by (induction xs arbitrary: v) auto

lemma pfcSeq_snoc: "pfcSeq p q (lg @ [(d, k, r)]) = (if d = p \<and> k = q then pfcSeq p q lg @ [r] else pfcSeq p q lg)"
  by (simp add: pfcSeq_def)

lemma log_ok_snoc:
  assumes "log_ok lg m" "ok_pq d k" "paused m d k = 0 \<longleftrightarrow> \<not> r" "v = 0 \<longleftrightarrow> r"
  shows "log_ok (lg @ [(d, k, r)]) (m\<lparr>paused := upd2 (paused m) d k v\<rparr>)"
  using assms unfolding log_ok_def pfcSeq_snoc by (auto simp: alternating_snoc)

subsection \<open>Pause and resume frames\<close>

text \<open>
  The contract of the transmission routine behind \<^verbatim>\<open>SwitchSend\<close>, as \<^verbatim>\<open>SendPfc\<close> relies on it: called
  on a port with a packet in queue 0, it changes that port only, leaves buffer, counters and queued
  data packets alone, and leaves the port sending.
\<close>

locale urgent_sender =
  fixes dq :: "nat \<Rightarrow> swnode \<Rightarrow> swnode res"
  assumes urgent: "dq d s = Inr s' \<Longrightarrow> ports_ok s \<Longrightarrow> d < length (m_devices s) \<Longrightarrow>
      contents (m_queue (m_devices s ! d)) 0 \<noteq> [] \<Longrightarrow>
      same_core s s' \<and> ports_ok s' \<and> (working (insert d D) s \<longrightarrow> working D s')"
begin

lemma SendPfc_effect:
  assumes "SendPfc dq d q r s = Inr s'" "ports_ok s" "d < length (m_devices s)"
  shows "same_core (s\<lparr>pfcLog := pfcLog s @ [(d, q, r)]\<rparr>) s'" "ports_ok s'" "working D s \<Longrightarrow> working D s'"
proof -
  let ?dev = "m_devices s ! d"
  define s1 where "s1 = s\<lparr>pfcLog := pfcLog s @ [(d, q, r)]\<rparr>"
  obtain qlen b v where b: "BEgressQueue_Enqueue p_size (pfcFrame q r qlen ?dev) 0 (m_queue ?dev) = Inr (b, v)"
    and run: "dq d (updDev d (\<lambda>dev. dev\<lparr>m_queue := b\<rparr>) s1) = Inr s'"
    using assms(1) by (auto simp: SendPfc_def SwitchSend_def s1_def Let_def elim!: bindr_InrE)
  define s2 where "s2 = updDev d (\<lambda>dev. dev\<lparr>m_queue := b\<rparr>) s1"
  have wf: "queue_wf (m_queue ?dev)" using assms(2,3) by (simp add: ports_ok_def)
  have z: "0 < fCnt" "0 < p_size (pfcFrame q r qlen ?dev)" "unat (p_size (pfcFrame q r qlen ?dev)) < 2 ^ 31"
    by (simp_all add: fCnt_def pfcFrame_def)
  have "beq_ok p_size (m_queue ?dev)" using wf by (simp add: queue_wf_def)
  note B = Enqueue_InrE[OF this z b]
  have l1: "d < length (m_devices s1)" "m_devices s1 = m_devices s" using assms(3) by (simp_all add: s1_def)
  have ok1: "ports_ok s1" using assms(2) by (simp add: ports_ok_def s1_def)
  have "queue_wf b" using wf B by (auto simp: queue_wf_def)
  then have ok2: "ports_ok s2" unfolding s2_def by (intro ports_ok_upd[OF ok1 l1(1)]) simp
  have "portLedger d b = portLedger d (m_queue ?dev)" by (rule portLedger_cong) (simp add: B)
  then have "ledger s2 = ledger s1"
    using ledger_updDev[OF l1(1), of "\<lambda>dev. dev\<lparr>m_queue := b\<rparr>"] by (simp add: s2_def l1(2))
  then have c: "same_core s1 s2" by (simp add: same_core_def s2_def)
  have l2: "d < length (m_devices s2)" "contents (m_queue (m_devices s2 ! d)) 0 \<noteq> []"
    using l1 B(2)[of 0] by (simp_all add: s2_def)
  note U = urgent[OF run[folded s2_def] ok2 l2]
  show "same_core (s\<lparr>pfcLog := pfcLog s @ [(d, q, r)]\<rparr>) s'" "ports_ok s'"
    using U c same_core_trans s1_def by blast+
  assume "working D s"
  then have "working (insert d D) s1" by (auto simp: working_def s1_def)
  then have "working (insert d D) s2" unfolding s2_def by (rule working_upd[OF _ l1(1)]) auto
  then show "working D s'" using U by blast
qed

lemma CheckAndSendPfc_inv:
  assumes "CheckAndSendPfc dq i q s = Inr s'" "sw_inv m0 X Y {(i, q)} s" "working D s"
  shows "sw_inv m0 X Y {} s'" "working D s'" "ledger s' = ledger s" "length (m_devices s') = length (m_devices s)"
proof -
  have i: "i < length (m_devices s)" and ok: "ok_pq i q"
    using assms(1) by (auto simp: CheckAndSendPfc_def CheckShouldPause_def split: if_splits)
  have ports: "ports_ok s" using assms(2) by (simp add: sw_inv_def)
  have "sw_inv m0 X Y {} s' \<and> working D s' \<and> ledger s' = ledger s \<and> length (m_devices s') = length (m_devices s)"
  proof (cases "paused (m_mmu s) i q = 0 \<and> xoffUsed (m_mmu s) i q > 0")
    case False
    then have "s' = s" using assms(1) i ok by (auto simp: CheckAndSendPfc_def CheckShouldPause_def GetHdrmBytes_def split: if_splits)
    moreover have "pfc_ok {} (m_mmu s)"
      using assms(2) False by (auto simp: sw_inv_def pfc_ok_def word_gt_0)
    ultimately show ?thesis using assms(2,3) by (simp add: sw_inv_def)
  next
    case True
    then obtain s1 m where send: "SendPfc dq i q False s = Inr s1" and sp: "SetPause i q (m_mmu s1) = Inr m"
      and s': "s' = s1\<lparr>m_mmu := m\<rparr>"
      using assms(1) i ok by (auto simp: CheckAndSendPfc_def CheckShouldPause_def GetHdrmBytes_def elim!: bindr_InrE)
    note S = SendPfc_effect[OF send ports i]
    have c: "m_mmu s1 = m_mmu s" "m_bytes s1 = m_bytes s" "pfcLog s1 = pfcLog s @ [(i, q, False)]"
      "ledger s1 = ledger s" "length (m_devices s1) = length (m_devices s)"
      using S(1) by (auto simp: same_core_def ledger_def)
    have m: "m = (m_mmu s)\<lparr>paused := upd2 (paused (m_mmu s)) i q 1\<rparr>" using sp ok c by (simp add: SetPause_def)
    have l: "ledger s' = ledger s" using c(4) by (simp add: s' ledger_def)
    have "log_ok (pfcLog s') (m_mmu s')"
      using log_ok_snoc[OF _ ok, of "pfcLog s" "m_mmu s" False 1] assms(2) True by (simp add: s' m c sw_inv_def)
    moreover have "pfc_ok {} (m_mmu s')" using assms(2) by (auto simp: s' m sw_inv_def pfc_ok_def)
    moreover have "ports_ok s'" using S(2) by (simp add: s' ports_ok_def)
    moreover have "bytes_ok (ledger s' + Y) s'" using assms(2) l c by (simp add: s' sw_inv_def bytes_ok_def)
    moreover have "mmu_inv m0 (ledger s' + X, m_mmu s')" using assms(2) l by (simp add: s' m sw_inv_def mmu_inv_paused)
    moreover have "working D s'" using S(3)[OF assms(3)] by (simp add: s' working_def)
    ultimately show ?thesis using l c by (simp add: sw_inv_def s')
  qed
  then show "sw_inv m0 X Y {} s'" "working D s'" "ledger s' = ledger s"
    "length (m_devices s') = length (m_devices s)" by blast+
qed

lemma CheckAndSendResume_inv:
  assumes "CheckAndSendResume dq i q s = Inr s'" "sw_inv m0 X Y {} s" "working D s"
  shows "sw_inv m0 X Y {} s'" "working D s'" "ledger s' = ledger s" "length (m_devices s') = length (m_devices s)"
proof -
  have i: "i < length (m_devices s)" using assms(1) by (auto simp: CheckAndSendResume_def split: if_splits)
  obtain m r where cr: "CheckShouldResume i q (m_mmu s) = Inr (m, r)"
    using assms(1) i by (auto simp: CheckAndSendResume_def elim!: bindr_InrE)
  have ok: "ok_pq i q" using cr by (auto simp: CheckShouldResume_def split: if_splits)
  define s0 where "s0 = s\<lparr>m_mmu := m\<rparr>"
  have inv0: "sw_inv m0 X Y {} s0"
    unfolding s0_def by (rule sw_inv_same_mmu[OF assms(2) CheckShouldResume_same[OF cr]])
  have i0: "i < length (m_devices s0)" "ledger s0 = ledger s" "working D s0"
    using i assms(3) by (simp_all add: s0_def ledger_def working_def)
  have "sw_inv m0 X Y {} s' \<and> working D s' \<and> ledger s' = ledger s \<and> length (m_devices s') = length (m_devices s)"
  proof (cases r)
    case False
    then have "s' = s0" using assms(1) i cr by (simp add: CheckAndSendResume_def s0_def)
    then show ?thesis using inv0 i0 by (simp add: s0_def)
  next
    case True
    then obtain s1 m' where send: "SendPfc dq i q True s0 = Inr s1" and sp: "SetResume i q (m_mmu s1) = Inr m'"
      and s': "s' = s1\<lparr>m_mmu := m'\<rparr>"
      using assms(1) i cr by (auto simp: CheckAndSendResume_def s0_def Let_def elim!: bindr_InrE)
    have p: "paused m i q \<noteq> 0" "xoffUsed m i q = 0"
      using CheckShouldResume_true[of i q "m_mmu s" m] cr True
        same_counters_fields[OF CheckShouldResume_same[OF cr]] by auto
    have ports: "ports_ok s0" using inv0 by (simp add: sw_inv_def)
    note S = SendPfc_effect[OF send ports i0(1)]
    have c: "m_mmu s1 = m" "m_bytes s1 = m_bytes s0" "pfcLog s1 = pfcLog s0 @ [(i, q, True)]"
      "ledger s1 = ledger s0" "length (m_devices s1) = length (m_devices s)"
      using S(1) by (auto simp: same_core_def ledger_def s0_def)
    have m': "m' = m\<lparr>paused := upd2 (paused m) i q 0\<rparr>" using sp ok c by (simp add: SetResume_def)
    have l: "ledger s' = ledger s0" using c(4) by (simp add: s' ledger_def)
    have "log_ok (pfcLog s') (m_mmu s')"
      using log_ok_snoc[OF _ ok, of "pfcLog s0" m True 0] inv0 p by (simp add: s' m' c sw_inv_def s0_def)
    moreover have "pfc_ok {} (m_mmu s')" using inv0 p by (auto simp: s' m' sw_inv_def pfc_ok_def s0_def)
    moreover have "ports_ok s'" using S(2) by (simp add: s' ports_ok_def)
    moreover have "bytes_ok (ledger s' + Y) s'" using inv0 l c by (simp add: s' sw_inv_def bytes_ok_def)
    moreover have "mmu_inv m0 (ledger s' + X, m_mmu s')"
      using inv0 l by (simp add: s' m' sw_inv_def mmu_inv_paused s0_def)
    moreover have "working D s'" using S(3)[OF i0(3)] by (simp add: s' working_def)
    ultimately show ?thesis using l c i0(2) by (simp add: sw_inv_def s')
  qed
  then show "sw_inv m0 X Y {} s'" "working D s'" "ledger s' = ledger s"
    "length (m_devices s') = length (m_devices s)" by blast+
qed

lemma SwitchNotifyDequeue_inv:
  assumes run: "SwitchNotifyDequeue dq e d q p s = Inr (s', p')" and lim: "limiting m0" and q: "q \<noteq> 0"
    and inv: "sw_inv m0 (add_mset (bp d q p) X) (add_mset (bp d q p) Y) {} s" and w: "working D s"
  shows "sw_inv m0 X Y {} s'" "working D s'" "length (m_devices s') = length (m_devices s)"
proof -
  obtain t m1 m2 cn s2 p2 s3 where t: "p_in p = Some t"
    and r1: "RemoveFromIngressAdmission (unat t) q (p_size p) (pktType p) (m_mmu s) = Inr m1"
    and r2: "RemoveFromEgressAdmission d q (p_size p) (pktType p) m1 = Inr m2"
    and res: "CheckAndSendResume dq (unat t) q (addBytes (unat t) d q (- p_size p) (s\<lparr>m_mmu := m2\<rparr>)) = Inr s2"
    and st: "stampTelemetry e d p2 s2 = Inr (s3, p')"
    and s': "s' = s3\<lparr>m_txBytes := (m_txBytes s3)(d := m_txBytes s3 d + ucast (p_size p')),
             m_lastPktSize := (m_lastPktSize s3)(d := p_size p'),
             m_lastPktTs := (m_lastPktTs s3)(d := e_now e)\<rparr>"
    using run q
    by (auto simp: SwitchNotifyDequeue_def Let_def split: if_splits option.splits elim!: bindr_InrE)
  let ?b = "bp d q p"
  have b: "b_in ?b = unat t" "b_out ?b = d" "b_q ?b = q" "b_size ?b = p_size p" "b_type ?b = pktType p"
    by (simp_all add: bp_def t)
  define s1 where "s1 = addBytes (unat t) d q (- p_size p) (s\<lparr>m_mmu := m2\<rparr>)"
  have f1: "m_mmu s1 = m2" "m_devices s1 = m_devices s" "pfcLog s1 = pfcLog s" "ledger s1 = ledger s"
    by (simp_all add: s1_def addBytes_def ledger_def)
  have "mmu_step (add_mset ?b (ledger s + X), m_mmu s) (ledger s + X, m2)"
    by (rule mmu_step.leave[of ?b _ m1]) (simp_all add: b r1 r2)
  then have mm: "mmu_inv m0 (ledger s + X, m2)"
    by (rule mmu_step_inv[OF _ lim]) (use inv in \<open>simp add: sw_inv_def\<close>)
  have pz: "paused m2 = paused (m_mmu s)" "xoffUsed (m_mmu s) i j = 0 \<Longrightarrow> xoffUsed m2 i j = 0" for i j
    using RemoveIngress_pfc[OF r1] RemoveEgress_pfc[OF r2] by auto
  have "bytes_ok (ledger s1 + Y) s1"
    using inv unfolding sw_inv_def bytes_ok_def f1 by (auto simp: s1_def addBytes_def b)
  then have inv1: "sw_inv m0 X Y {} s1"
    using inv mm pz by (auto simp: sw_inv_def f1 ports_ok_def pfc_ok_def log_ok_def)
  have w1: "working D s1" using w by (simp add: working_def f1)
  note R = CheckAndSendResume_inv[OF res[folded s1_def] inv1 w1]
  note F = stampTelemetry_frame[OF st]
  have d: "m_devices s' = m_devices s2" "m_mmu s' = m_mmu s2" "m_bytes s' = m_bytes s2" "pfcLog s' = pfcLog s2"
    using F by (simp_all add: s')
  then have core: "same_core s2 s'" using ledger_cong[OF d(1)] by (simp add: same_core_def)
  show "sw_inv m0 X Y {} s'"
    using sw_inv_core[OF R(1) core] R(1) d(1) by (simp add: sw_inv_def ports_ok_def)
  show "working D s'" using R(2) by (simp add: working_def d(1))
  show "length (m_devices s') = length (m_devices s)" using R(4) d(1) f1 by simp
qed

end

text \<open>The routine of the switch keeps the contract, at every depth but 0.\<close>

interpretation ds: urgent_sender "DequeueAndTransmit (Suc n) e" for n e
  by unfold_locales (use Dequeue_urgent in blast)

lemma Dequeue_inv:
  assumes run: "DequeueAndTransmit (Suc (Suc n)) e d s = Inr s'" and lim: "limiting m0"
    and inv: "sw_inv m0 X Y {} s" and w: "working (insert d D) s"
  shows "sw_inv m0 X Y {} s' \<and> working D s' \<and> length (m_devices s') = length (m_devices s)"
proof -
  let ?dev = "m_devices s ! d"
  have ok: "ports_ok s" using inv by (simp add: sw_inv_def)
  have d: "d < length (m_devices s)" using run by (rule DequeueAndTransmitE)
  have wf: "queue_wf (m_queue ?dev)" and beq: "beq_ok p_size (m_queue ?dev)"
    using ok d by (simp_all add: ports_ok_def queue_wf_def)
  from run show ?thesis
  proof (cases rule: DequeueAndTransmitE)
    case stopped
    then show ?thesis using inv w by (auto simp: working_def)
  next
    case (empty b)
    from beq empty(2) have e: "b = m_queue ?dev" "contents (m_queue ?dev) 0 = []"
      "\<forall>j<8. m_paused ?dev j \<or> contents (m_queue ?dev) j = []"
      by (rule DequeueRR_InrE, auto)+
    have "s' = s" using empty(3) e(1) by (simp add: updDev_def)
    moreover have "quiet ?dev" using e by (simp add: quiet_def)
    ultimately show ?thesis using inv w by (auto simp: working_def)
  next
    case (sent b x s2 p2 s3)
    from beq sent(2) obtain i where some: "i < 8" "contents (m_queue ?dev) i = x # contents b i" "GetLastQueue b = i"
      "beq_ok p_size b" "\<forall>j. j \<noteq> i \<longrightarrow> contents b j = contents (m_queue ?dev) j"
      by (rule DequeueRR_InrE) auto
    show ?thesis
    proof (cases "i = 0")
      case True
      then have "contents (m_queue ?dev) 0 \<noteq> []" using some by simp
      note U = Dequeue_urgent[OF run ok d this]
      show ?thesis using sw_inv_core[OF inv U(1,2)] U(3)[OF w] U(1) by (simp add: same_core_def)
    next
      case False
      define s1 where "s1 = updDev d (\<lambda>dev. dev\<lparr>m_queue := b\<rparr>) s"
      have sub: "set (contents b q) \<subseteq> set (contents (m_queue ?dev) q)" for q
        using some(2,5) by (cases "q = i") auto
      have "queue_wf b" unfolding queue_wf_def
        using wf some(4) sub unfolding queue_wf_def by (meson subsetD)
      then have ok1: "ports_ok s1" unfolding s1_def by (intro ports_ok_upd[OF ok d]) simp
      have "portLedger d (m_queue ?dev) = add_mset (bp d i x) (portLedger d b)"
        by (rule portLedger_cons) (use some False in auto)
      then have l: "ledger s = add_mset (bp d i x) (ledger s1)"
        using ledger_updDev[OF d, of "\<lambda>dev. dev\<lparr>m_queue := b\<rparr>"] by (simp add: s1_def)
      have inv1: "sw_inv m0 (add_mset (bp d i x) X) (add_mset (bp d i x) Y) {} s1"
        using inv ok1 l by (simp add: sw_inv_def s1_def bytes_ok_def)
      have w1: "working (insert d D) s1" unfolding s1_def by (rule working_upd[OF _ d]) (use w in auto)
      note N = ds.SwitchNotifyDequeue_inv[OF sent(3)[unfolded some(3), folded s1_def] lim False inv1 w1]
      have ok2: "ports_ok s2" "d < length (m_devices s2)" using N d by (simp_all add: sw_inv_def s1_def)
      note F = finish_transmit[OF sent(4) ok2 sent(5)]
      show ?thesis using sw_inv_core[OF N(1) F(1,2)] F(3)[OF N(2)] F(1) N(3) by (simp add: same_core_def s1_def)
    qed
  qed
qed

subsection \<open>The handlers keep the invariant\<close>

definition sw_ok :: "mmu \<Rightarrow> swnode \<Rightarrow> bool" where
  "sw_ok m0 s \<longleftrightarrow> sw_inv m0 {#} {#} {} s \<and> working {} s"

lemma dq2_ok:
  assumes "dq2 e d s = Inr s'" "limiting m0" "sw_inv m0 X Y {} s" "working (insert d D) s"
  shows "sw_inv m0 X Y {} s'" "working D s'" "length (m_devices s') = length (m_devices s)"
  using Dequeue_inv[OF assms(1)[unfolded dq2_def numeral_2_eq_2] assms(2-4)] by blast+

text \<open>Counters of a port other than its queue do not matter.\<close>

lemma sw_ok_counters:
  assumes "sw_ok m0 s" "d < length (m_devices s)" "\<And>dev. m_queue (f dev) = m_queue dev"
    "\<And>dev. quiet (f dev) = quiet dev"
  shows "sw_ok m0 (updDev d f s)"
proof -
  have p: "ports_ok (updDev d f s)"
    using assms by (intro ports_ok_upd) (auto simp: sw_ok_def sw_inv_def ports_ok_def)
  have "same_core s (updDev d f s)" using ledger_same_queue[OF assms(2)] assms(3) by (simp add: same_core_def)
  then show ?thesis
    using sw_inv_core[OF _ _ p] assms by (auto simp: sw_ok_def working_def)
qed

lemma SwitchSend_ok:
  assumes run: "SwitchSend (dq2 e) d q p s = Inr s'" and lim: "limiting m0"
    and inv: "sw_inv m0 (if q = 0 then {#} else {#bp d q p#}) (if q = 0 then {#} else {#bp d q p#}) {} s"
    and w: "working {} s" and d: "d < length (m_devices s)" and q: "q < 8"
    and p: "0 < p_size p" "unat (p_size p) < 2 ^ 31" "p_in p \<noteq> None"
  shows "sw_ok m0 s'" "length (m_devices s') = length (m_devices s)"
proof -
  let ?dev = "m_devices s ! d"
  have ok: "ports_ok s" using inv by (simp add: sw_inv_def)
  have wf: "queue_wf (m_queue ?dev)" "beq_ok p_size (m_queue ?dev)"
    using ok d by (simp_all add: ports_ok_def queue_wf_def)
  obtain b v where b: "BEgressQueue_Enqueue p_size p q (m_queue ?dev) = Inr (b, v)"
    and dq: "dq2 e d (updDev d (\<lambda>dev. dev\<lparr>m_queue := b\<rparr>) s) = Inr s'"
    using run by (auto simp: SwitchSend_def elim!: bindr_InrE)
  define s1 where "s1 = updDev d (\<lambda>dev. dev\<lparr>m_queue := b\<rparr>) s"
  have "q < fCnt" using q by (simp add: fCnt_def)
  note B = Enqueue_InrE[OF wf(2) this p(1,2) b]
  have "queue_wf b" using wf(1) B p(3) by (auto simp: queue_wf_def)
  then have ok1: "ports_ok s1" unfolding s1_def by (intro ports_ok_upd[OF ok d]) simp
  have "portLedger d b = portLedger d (m_queue ?dev) + (if q = 0 then {#} else {#bp d q p#})"
  proof (cases "q = 0")
    case True
    then have "portLedger d b = portLedger d (m_queue ?dev)" by (intro portLedger_cong) (simp add: B)
    then show ?thesis using True by simp
  next
    case False
    then have "portLedger d b = add_mset (bp d q p) (portLedger d (m_queue ?dev))"
      using q by (intro portLedger_snoc) (simp_all add: B)
    then show ?thesis using False by simp
  qed
  then have l: "ledger s1 = ledger s + (if q = 0 then {#} else {#bp d q p#})"
    using ledger_updDev[OF d, of "\<lambda>dev. dev\<lparr>m_queue := b\<rparr>"] by (simp add: s1_def add.assoc)
  have "m_mmu s1 = m_mmu s" "m_bytes s1 = m_bytes s" "pfcLog s1 = pfcLog s" by (simp_all add: s1_def)
  then have inv1: "sw_inv m0 {#} {#} {} s1"
    using inv ok1 by (simp only: sw_inv_def l bytes_ok_def add_0_right simp_thms) blast
  have w1: "working (insert d {}) s1" unfolding s1_def by (rule working_upd[OF _ d]) (use w in \<open>auto simp: working_def\<close>)
  show "sw_ok m0 s'" "length (m_devices s') = length (m_devices s)"
    using dq2_ok[OF dq[folded s1_def] lim inv1 w1] by (simp_all add: sw_ok_def s1_def)
qed

interpretation d2: urgent_sender "dq2 e" for e
  unfolding dq2_def numeral_2_eq_2 by (rule ds.urgent_sender_axioms)

lemma sw_inv_addBytes:
  assumes "sw_inv m0 X {#} E s" "q \<noteq> 0 \<Longrightarrow> b_in b = i \<and> b_out b = j \<and> b_q b = q \<and> b_size b = n"
  shows "sw_inv m0 X (if q = 0 then {#} else {#b#}) E (addBytes i j q n s)"
  using assms unfolding sw_inv_def
  by (auto simp: addBytes_def ports_ok_def ledger_def bytes_ok_def)

lemma addBytes_simps [simp]:
  "m_devices (addBytes i j q n s) = m_devices s" "working D (addBytes i j q n s) = working D s"
  by (simp_all add: addBytes_def working_def)

lemma SendToDev_ok:
  assumes run: "SendToDev e junk p s = Inr s'" and lim: "limiting m0" and ok: "sw_ok m0 s"
    and p: "0 < p_size p" "unat (p_size p) < 2 ^ 31"
  shows "sw_ok m0 s'" "length (m_devices s') = length (m_devices s)"
proof -
  obtain out where out: "GetOutDev junk p s = Inr out" using run by (auto simp: SendToDev_def elim!: bindr_InrE)
  define idx q where "idx = nat out" and "q = pickQueue (m_ackHighPrio s) p"
  have inv: "sw_inv m0 {#} {#} {} s" and w: "working {} s" using ok by (simp_all add: sw_ok_def)
  have "sw_ok m0 s' \<and> length (m_devices s') = length (m_devices s)"
  proof (cases "out \<ge> 0")
    case False
    then show ?thesis using run out ok by (simp add: SendToDev_def)
  next
    case True
    then have idx: "idx < length (m_devices s)"
      using run out by (auto simp: SendToDev_def Let_def idx_def split: if_splits)
    obtain t where t: "p_in p = Some t"
      using run out True by (auto simp: SendToDev_def Let_def split: if_splits option.splits)
    have send: "sw_ok m0 s' \<and> length (m_devices s') = length (m_devices s1)"
      if fin: "(if \<not> (ok_pq (unat t) q \<and> idx < pCnt) then Inl OutOfBounds
          else bindr (SwitchSend (dq2 e) idx q p (addBytes (unat t) idx q (p_size p) s1)) (\<lambda>s.
            Inr (updDev idx (\<lambda>dev. dev\<lparr>totalBytesRcvd := totalBytesRcvd dev + ucast (p_size p)\<rparr>) s))) = Inr s'"
        and i1: "sw_inv m0 (if q = 0 then {#} else {#bp idx q p#}) {#} {} s1" "working {} s1"
          "idx < length (m_devices s1)" for s1
    proof -
      define s2 where "s2 = addBytes (unat t) idx q (p_size p) s1"
      obtain s3 where s3: "SwitchSend (dq2 e) idx q p s2 = Inr s3"
        and s': "s' = updDev idx (\<lambda>dev. dev\<lparr>totalBytesRcvd := totalBytesRcvd dev + ucast (p_size p)\<rparr>) s3"
        and q8: "q < 8"
        using fin by (auto simp: s2_def ok_pq_def qCnt_def split: if_splits elim!: bindr_InrE)
      have i2: "sw_inv m0 (if q = 0 then {#} else {#bp idx q p#}) (if q = 0 then {#} else {#bp idx q p#}) {} s2"
        unfolding s2_def by (rule sw_inv_addBytes[OF i1(1)]) (simp add: bp_def t)
      have d2: "working {} s2" "idx < length (m_devices s2)" using i1 by (simp_all add: s2_def)
      have "p_in p \<noteq> None" by (simp add: t)
      note S = SwitchSend_ok[OF s3 lim i2 d2 q8 p this]
      show ?thesis unfolding s'
        using sw_ok_counters[OF S(1), of idx] S(2) d2(2) by (simp add: quiet_def s2_def)
    qed
    show ?thesis
    proof (cases "q = 0")
      case q0: True
      show ?thesis
        by (rule send[of s]) (use run out True idx t q0 inv w in
          \<open>auto simp: SendToDev_def Let_def idx_def q_def split: if_splits\<close>)
    next
      case q0: False
      obtain m v where ad: "admitPacket (unat t) idx q (p_size p) (pktType p)
          (case p_unsched p of Some v \<Rightarrow> ucast v | None \<Rightarrow> 0) (m_mmu s) = Inr (m, v)"
        using run out True t q0
        by (auto simp: SendToDev_def Let_def idx_def q_def split: if_splits elim!: bindr_InrE)
      note A = admit_pfc[OF ad]
      show ?thesis
      proof (cases v)
        case False
        then have "s' = s\<lparr>m_mmu := m\<rparr>"
          using run out True idx t q0 ad by (auto simp: SendToDev_def Let_def idx_def q_def split: if_splits)
        then show ?thesis
          using sw_inv_same_mmu[OF inv A(4)[OF False]] w by (simp add: sw_ok_def working_def)
      next
        case v: True
        define s0 where "s0 = s\<lparr>m_mmu := m\<rparr>"
        have b: "bp idx q p = \<lparr>b_in = unat t, b_out = idx, b_q = q, b_size = p_size p, b_type = pktType p\<rparr>"
          by (simp add: bp_def t)
        have "mmu_inv m0 (ledger s, m_mmu s)" using inv by (simp add: sw_inv_def)
        then have "mmu_inv m0 (add_mset (bp idx q p) (ledger s), m)"
          using mmu_step_inv[OF admitPacket_step[OF ad, of "ledger s"] lim] v by (simp add: b)
        then have i0: "sw_inv m0 {#bp idx q p#} {#} {(unat t, q)} s0"
          using inv A(1,2) by (auto simp: s0_def sw_inv_def ports_ok_def ledger_def bytes_ok_def pfc_ok_def log_ok_def)
        have w0: "working {} s0" "length (m_devices s0) = length (m_devices s)"
          using w by (simp_all add: s0_def working_def)
        obtain s1 where s1: "CheckAndSendPfc (dq2 e) (unat t) q s0 = Inr s1"
          and fin: "(if \<not> (ok_pq (unat t) q \<and> idx < pCnt) then Inl OutOfBounds
          else bindr (SwitchSend (dq2 e) idx q p (addBytes (unat t) idx q (p_size p) s1)) (\<lambda>s.
            Inr (updDev idx (\<lambda>dev. dev\<lparr>totalBytesRcvd := totalBytesRcvd dev + ucast (p_size p)\<rparr>) s))) = Inr s'"
          using run out True idx t q0 ad v
          by (auto simp: SendToDev_def Let_def idx_def q_def s0_def split: if_splits elim!: bindr_InrE)
        note C = d2.CheckAndSendPfc_inv[OF s1 i0 w0(1)]
        show ?thesis using send[OF fin] C w0(2) q0 idx by simp
      qed
    qed
  qed
  then show "sw_ok m0 s'" "length (m_devices s') = length (m_devices s)" by blast+
qed

lemma Resume_ok:
  assumes run: "Resume e d q s = Inr s'" and lim: "limiting m0" and ok: "sw_ok m0 s" and d: "d < length (m_devices s)"
  shows "sw_ok m0 s'" "length (m_devices s') = length (m_devices s)"
proof -
  define s1 where "s1 = updDev d (\<lambda>dev. dev\<lparr>m_paused := (m_paused dev)(q := False)\<rparr>) s"
  have dq: "dq2 e d s1 = Inr s'" using run by (auto simp: Resume_def s1_def split: if_splits)
  have core: "same_core s s1" "ports_ok s1"
    using ok ledger_same_queue[OF d] ports_ok_upd[OF _ d]
    by (auto simp: same_core_def s1_def sw_ok_def sw_inv_def ports_ok_def d)
  have "sw_inv m0 {#} {#} {} s" "working {d} s" using ok by (auto simp: sw_ok_def working_def)
  note D = dq2_ok[OF dq lim sw_inv_core[OF this(1) core], of "{}"]
  have "working {d} s1" unfolding s1_def by (rule working_upd[OF _ d]) (use \<open>working {d} s\<close> in auto)
  then show "sw_ok m0 s'" "length (m_devices s') = length (m_devices s)"
    using D by (simp_all add: sw_ok_def s1_def)
qed

definition pkt_ok :: "spkt \<Rightarrow> bool" where
  "pkt_ok p \<longleftrightarrow> 0 < p_size p \<and> unat (p_size p) < 2 ^ 31"

lemma Receive_ok:
  assumes run: "Receive e junk corrupt d p s = Inr s'" and lim: "limiting m0" and ok: "sw_ok m0 s" and p: "pkt_ok p"
  shows "sw_ok m0 s'" "length (m_devices s') = length (m_devices s)"
proof -
  have d: "d < length (m_devices s)" using run by (auto simp: Receive_def Let_def split: if_splits)
  obtain time qlen qi where pfc: "p_pfc p = (time, qlen, qi)" by (cases "p_pfc p") auto
  have "s' = s \<or> s' = updDev d (\<lambda>dev. dev\<lparr>m_paused := (m_paused dev)(unat qi := True)\<rparr>) s
      \<or> Resume e d (unat qi) s = Inr s' \<or> SendToDev e junk (p\<lparr>p_in := Some (of_nat d)\<rparr>) s = Inr s'"
    using run d unfolding Receive_def Let_def SwitchReceiveFromDevice_def pfc prod.case
    by (simp split: if_split_asm)
  then consider "s' = s"
    | qi where "s' = updDev d (\<lambda>dev. dev\<lparr>m_paused := (m_paused dev)(qi := True)\<rparr>) s"
    | qi where "Resume e d qi s = Inr s'"
    | "SendToDev e junk (p\<lparr>p_in := Some (of_nat d)\<rparr>) s = Inr s'"
    by blast
  then have "sw_ok m0 s' \<and> length (m_devices s') = length (m_devices s)"
  proof cases
    case (2 qi)
    have "quiet dev \<Longrightarrow> quiet (dev\<lparr>m_paused := (m_paused dev)(qi := True)\<rparr>)" for dev :: port
      by (auto simp: quiet_def)
    moreover have "ports_ok s'" unfolding 2 using ok d by (intro ports_ok_upd) (auto simp: sw_ok_def sw_inv_def ports_ok_def)
    moreover have "same_core s s'" unfolding 2 using ledger_same_queue[OF d] by (simp add: same_core_def)
    ultimately show ?thesis using ok d sw_inv_core[of m0 "{#}" "{#}" "{}" s s']
      by (auto simp: sw_ok_def 2 working_def)
  next
    case (3 qi)
    then show ?thesis using Resume_ok[OF 3 lim ok d] by blast
  next
    case 4
    then show ?thesis using SendToDev_ok[OF 4 lim ok] p by (simp add: pkt_ok_def)
  qed (use ok in simp)
  then show "sw_ok m0 s'" "length (m_devices s') = length (m_devices s)" by blast+
qed

lemma TransmitComplete_ok:
  assumes run: "TransmitComplete e d s = Inr s'" and lim: "limiting m0" and ok: "sw_ok m0 s"
  shows "sw_ok m0 s'" "length (m_devices s') = length (m_devices s)"
proof -
  have d: "d < length (m_devices s)" using run by (auto simp: TransmitComplete_def split: if_splits)
  define s1 where "s1 = updDev d (\<lambda>dev. dev\<lparr>m_busy := False, m_currentPkt := None\<rparr>) s"
  have dq: "dq2 e d s1 = Inr s'" using run by (auto simp: TransmitComplete_def s1_def split: if_splits)
  have core: "same_core s s1" "ports_ok s1"
    using ok ledger_same_queue[OF d] ports_ok_upd[OF _ d]
    by (auto simp: same_core_def s1_def sw_ok_def sw_inv_def ports_ok_def d)
  have "sw_inv m0 {#} {#} {} s" "working {d} s" using ok by (auto simp: sw_ok_def working_def)
  note D = dq2_ok[OF dq lim sw_inv_core[OF this(1) core], of "{}"]
  have "working {d} s1" unfolding s1_def by (rule working_upd[OF _ d]) (use \<open>working {d} s\<close> in auto)
  then show "sw_ok m0 s'" "length (m_devices s') = length (m_devices s)"
    using D by (simp_all add: sw_ok_def s1_def)
qed

subsection \<open>Runs of a switch\<close>

text \<open>
  A switch starts with an idle buffer and empty queues.  It reacts to packets that arrive, to the end
  of transmissions and to the timer of the buffer; its routing table may change at any time.
\<close>

inductive sw_step :: "swnode \<Rightarrow> swnode \<Rightarrow> bool" where
  receive: "Receive e junk corrupt d p s = Inr s' \<Longrightarrow> pkt_ok p \<Longrightarrow> sw_step s s'"
| complete: "TransmitComplete e d s = Inr s' \<Longrightarrow> sw_step s s'"
| rates: "updateDequeueRates (m_mmu s) = Inr m \<Longrightarrow> sw_step s (s\<lparr>m_mmu := m\<rparr>)"
| route: "sw_step s (AddTableEntry dip intf s)"
| clear: "sw_step s (ClearTable s)"
| seed: "sw_step s (SetEcmpSeed k s)"

definition sw_start :: "swnode \<Rightarrow> bool" where
  "sw_start s \<longleftrightarrow> limiting (m_mmu s) \<and> idle (m_mmu s) \<and> (\<forall>p q. ok_pq p q \<longrightarrow> paused (m_mmu s) p q = 0)
     \<and> pfcLog s = [] \<and> m_bytes s = (\<lambda>_ _ _. 0) \<and> length (m_devices s) \<le> pCnt
     \<and> (\<forall>d<length (m_devices s). \<exists>bps addr l t. m_devices s ! d = QbbNetDevice bps addr (BEgressQueue l t))"

inductive sw_reach :: "swnode \<Rightarrow> swnode \<Rightarrow> bool" for s0 :: swnode where
  start: "sw_reach s0 s0"
| step: "sw_reach s0 s \<Longrightarrow> sw_step s s' \<Longrightarrow> sw_reach s0 s'"

lemma contents_fresh: "q < 128 \<Longrightarrow> contents (BEgressQueue l t) q = []"
  by (simp add: contents_def BEgressQueue_def QueueBase_def fCnt_def)

lemma sw_start_ok:
  assumes "sw_start s"
  shows "sw_ok (m_mmu s) s"
proof -
  have dev: "\<exists>bps addr l t. m_devices s ! d = QbbNetDevice bps addr (BEgressQueue l t)" if "d < length (m_devices s)" for d
    using assms that by (auto simp: sw_start_def)
  have "portLedger d (m_queue (m_devices s ! d)) = {#}" "queue_wf (m_queue (m_devices s ! d))" "quiet (m_devices s ! d)"
    if "d < length (m_devices s)" for d
    using dev[OF that] beq_start
    by (auto simp: QbbNetDevice_def portLedger_def contents_fresh queue_wf_def quiet_def)
  then have "ledger s = {#}" "ports_ok s" "working {} s"
    using assms by (simp_all add: ledger_def ports_ok_def working_def sw_start_def)
  moreover have "mmu_inv (m_mmu s) ({#}, m_mmu s)"
    using assms agrees_idle[of "m_mmu s"] by (simp add: mmu_inv_def sw_start_def)
  ultimately show ?thesis
    using assms by (auto simp: sw_ok_def sw_inv_def sw_start_def bytes_ok_def pfc_ok_def log_ok_def pfcSeq_def idle_def)
qed

lemma sw_ok_cong:
  "sw_ok m0 s \<Longrightarrow> m_devices s' = m_devices s \<Longrightarrow> m_mmu s' = m_mmu s \<Longrightarrow> m_bytes s' = m_bytes s \<Longrightarrow>
   pfcLog s' = pfcLog s \<Longrightarrow> sw_ok m0 s'"
  by (simp add: sw_ok_def sw_inv_def working_def ports_ok_def ledger_def bytes_ok_def)

lemma sw_step_ok:
  assumes "sw_step s s'" "limiting m0" "sw_ok m0 s"
  shows "sw_ok m0 s'"
  using assms
proof cases
  case (rates m)
  have "sw_inv m0 {#} {#} {} s" "working {} s" using assms(3) by (simp_all add: sw_ok_def)
  then show ?thesis
    using sw_inv_same_mmu same_counters_updateDequeueRates rates by (auto simp: sw_ok_def working_def)
qed (use assms Receive_ok TransmitComplete_ok in
    \<open>auto intro: sw_ok_cong[OF assms(3)] simp: AddTableEntry_def ClearTable_def SetEcmpSeed_def Let_def\<close>)

lemma sw_reach_ok: "sw_reach s0 s \<Longrightarrow> sw_start s0 \<Longrightarrow> sw_ok (m_mmu s0) s"
proof (induction rule: sw_reach.induct)
  case start
  then show ?case by (rule sw_start_ok)
next
  case (step s s')
  then show ?case using sw_step_ok by (auto simp: sw_start_def)
qed

end
