(* ===== verification/Switch_Forwarding.thy ===== *)
theory Switch_Forwarding
  imports Switch_Invariant
begin

text \<open>
  What the switch as a whole guarantees.  The recursion between \<^verbatim>\<open>DequeueAndTransmit\<close>,
  \<^verbatim>\<open>SwitchNotifyDequeue\<close> and \<^verbatim>\<open>SendPfc\<close> is shown to be two deep; routing tables
  built by \<^verbatim>\<open>AddTableEntry\<close> and the seeded hash are analysed; draining a port is shown to
  end.  The properties then speak of every state a switch can reach (Switch\_Invariant): exact
  accounting, pause discipline, work conservation, and what \<^verbatim>\<open>TakeDown\<close> leaves behind.
\<close>

subsection \<open>The recursion is at most two deep\<close>

lemma notify_q0_any: "SwitchNotifyDequeue dq e d 0 p s = SwitchNotifyDequeue dq' e d 0 p s"
  by (simp add: SwitchNotifyDequeue_def)

lemma Dequeue_urgent_any:
  assumes ok: "ports_ok s" and ne: "d < length (m_devices s) \<Longrightarrow> contents (m_queue (m_devices s ! d)) 0 \<noteq> []"
  shows "DequeueAndTransmit (Suc n) e d s = DequeueAndTransmit (Suc k) e d s"
proof (cases "d < length (m_devices s)")
  case d: True
  let ?dev = "m_devices s ! d"
  have beq: "beq_ok p_size (m_queue ?dev)" using ok d by (simp add: ports_ok_def queue_wf_def)
  show ?thesis
  proof (cases "DequeueRR p_size (m_paused ?dev) (m_queue ?dev)")
    case (Inr r)
    obtain b x where r: "r = (b, x)" by (cases r) auto
    from beq Inr[unfolded r] have "GetLastQueue b = 0"
      by (rule DequeueRR_InrE) (use ne[OF d] in auto)
    then show ?thesis
      using notify_q0_any[of "DequeueAndTransmit n e" e d _ _ "DequeueAndTransmit k e"]
      by (cases x) (simp_all add: Inr r Let_def)
  qed simp
qed simp

text \<open>A pause frame goes to queue 0 of its port; taking a packet out keeps the queues in order.\<close>

lemma ports_ok_enqueue0:
  assumes "ports_ok s" "d < length (m_devices s)" "m_devices s1 = m_devices s"
    and "BEgressQueue_Enqueue p_size (pfcFrame q r qlen (m_devices s ! d)) 0 (m_queue (m_devices s ! d)) = Inr (b, v)"
  shows "ports_ok (updDev d (\<lambda>dev. dev\<lparr>m_queue := b\<rparr>) s1)" "contents b 0 \<noteq> []"
proof -
  let ?p = "pfcFrame q r qlen (m_devices s ! d)"
  have z: "0 < fCnt" "0 < p_size ?p" "unat (p_size ?p) < 2 ^ 31" by (simp_all add: fCnt_def pfcFrame_def)
  have wf: "queue_wf (m_queue (m_devices s ! d))" using assms by (simp add: ports_ok_def)
  then have "beq_ok p_size (m_queue (m_devices s ! d))" by (simp add: queue_wf_def)
  note E = Enqueue_InrE[OF this z assms(4)]
  have l1: "d < length (m_devices s1)" "ports_ok s1" using assms by (simp_all add: ports_ok_def)
  have "queue_wf b" using wf E by (auto simp: queue_wf_def)
  then show "ports_ok (updDev d (\<lambda>dev. dev\<lparr>m_queue := b\<rparr>) s1)" by (intro ports_ok_upd[OF l1(2,1)]) simp
  show "contents b 0 \<noteq> []" using E(2)[of 0] by simp
qed

lemma ports_ok_dequeue:
  assumes "ports_ok s" "d < length (m_devices s)"
    and "DequeueRR p_size (m_paused (m_devices s ! d)) (m_queue (m_devices s ! d)) = Inr (b, r)"
  shows "ports_ok (updDev d (\<lambda>dev. dev\<lparr>m_queue := b\<rparr>) s)"
proof -
  let ?dev = "m_devices s ! d"
  have wf: "queue_wf (m_queue ?dev)" "beq_ok p_size (m_queue ?dev)"
    using assms by (simp_all add: ports_ok_def queue_wf_def)
  from wf(2) assms(3) have "queue_wf b"
  proof (cases rule: DequeueRR_InrE)
    case none
    then show ?thesis using wf(1) by simp
  next
    case (some x i)
    have "set (contents b q) \<subseteq> set (contents (m_queue ?dev) q)" for q
      using some(3,7) by (cases "q = i") auto
    then show ?thesis using wf(1) some(5) unfolding queue_wf_def by (meson subsetD)
  qed
  then show ?thesis by (intro ports_ok_upd[OF assms(1,2)]) simp
qed

lemma SendPfc_any:
  assumes "ports_ok s" "d < length (m_devices s)"
  shows "SendPfc (DequeueAndTransmit (Suc n) e) d q r s = SendPfc (DequeueAndTransmit (Suc k) e) d q r s"
proof (cases "beq_GetNBytes q (m_queue (m_devices s ! d))")
  case (Inr qlen)
  define s1 where "s1 = s\<lparr>pfcLog := pfcLog s @ [(d, q, r)]\<rparr>"
  show ?thesis
  proof (cases "BEgressQueue_Enqueue p_size (pfcFrame q r qlen (m_devices s ! d)) 0 (m_queue (m_devices s ! d))")
    case B: (Inr bv)
    obtain b v where bv: "bv = (b, v)" by (cases bv) auto
    note Q = ports_ok_enqueue0[OF assms _ B[unfolded bv], of s1]
    have "DequeueAndTransmit (Suc n) e d (updDev d (\<lambda>dev. dev\<lparr>m_queue := b\<rparr>) s1) =
        DequeueAndTransmit (Suc k) e d (updDev d (\<lambda>dev. dev\<lparr>m_queue := b\<rparr>) s1)"
      by (rule Dequeue_urgent_any[OF Q(1)]) (use Q(2) assms in \<open>simp_all add: s1_def\<close>)
    then show ?thesis
      using B[unfolded bv] by (simp add: SendPfc_def SwitchSend_def Inr Let_def s1_def del: DequeueAndTransmit.simps)
  qed (simp add: SendPfc_def SwitchSend_def Inr)
qed (simp add: SendPfc_def)

lemma CheckAndSendResume_any:
  assumes "ports_ok s"
  shows "CheckAndSendResume (DequeueAndTransmit (Suc n) e) i q s = CheckAndSendResume (DequeueAndTransmit (Suc k) e) i q s"
proof -
  have "SendPfc (DequeueAndTransmit (Suc n) e) i q True (s\<lparr>m_mmu := m\<rparr>) =
      SendPfc (DequeueAndTransmit (Suc k) e) i q True (s\<lparr>m_mmu := m\<rparr>)" if "i < length (m_devices s)" for m
    by (rule SendPfc_any) (use assms that in \<open>simp_all add: ports_ok_def\<close>)
  then show ?thesis
    by (auto simp: CheckAndSendResume_def Let_def bindr_def simp del: DequeueAndTransmit.simps split: sum.split prod.split)
qed

lemma Notify_any:
  assumes "ports_ok s"
  shows "SwitchNotifyDequeue (DequeueAndTransmit (Suc n) e) e d q p s =
         SwitchNotifyDequeue (DequeueAndTransmit (Suc k) e) e d q p s"
proof -
  have "CheckAndSendResume (DequeueAndTransmit (Suc n) e) i q (addBytes i d q x (s\<lparr>m_mmu := m\<rparr>)) =
      CheckAndSendResume (DequeueAndTransmit (Suc k) e) i q (addBytes i d q x (s\<lparr>m_mmu := m\<rparr>))" for i x m
    by (rule CheckAndSendResume_any) (use assms in \<open>simp add: ports_ok_def\<close>)
  then show ?thesis
    by (cases "p_in p") (simp_all add: SwitchNotifyDequeue_def Let_def del: DequeueAndTransmit.simps)
qed

lemma depth_any:
  assumes "ports_ok s"
  shows "DequeueAndTransmit (Suc (Suc n)) e d s = DequeueAndTransmit (Suc (Suc k)) e d s"
proof (cases "d < length (m_devices s)")
  case d: True
  let ?dev = "m_devices s ! d"
  show ?thesis
  proof (cases "DequeueRR p_size (m_paused ?dev) (m_queue ?dev)")
    case (Inr br)
    obtain b r where br: "br = (b, r)" by (cases br) auto
    note N = Notify_any[OF ports_ok_dequeue[OF assms d Inr[unfolded br]], of n e d _ _ k]
    show ?thesis
      unfolding DequeueAndTransmit.simps(2)[of "Suc n"] DequeueAndTransmit.simps(2)[of "Suc k"]
      by (cases r) (simp_all add: Inr br Let_def N del: DequeueAndTransmit.simps)
  qed simp
qed simp

text \<open>
  That all depths from two on agree would also hold if none of them were enough, so this is shown
  on its own: no operation of the switch reports \<open>Diverge\<close> unless the depth runs out, and it does not.
\<close>

lemma ends_doubles [ends_rules]: "ends (fdiv x y)" "ends (trunc_u64 x)" "ends (trunc_int x)" "ends (trunc_u32 x)" "ends (trunc_u16 x)"
    "ends (flog lg x)"
  by (simp_all add: fdiv_def trunc_u64_def trunc_int_def trunc_u32_def trunc_u16_def flog_def ends_def)

lemma ends_telemetry [ends_rules]: "ends (stampTelemetry e d p s)"
  unfolding stampTelemetry_def PushHop_def IntHop_Set_def pintU_def logres_shift_def log2apprx_def pow2_def
    encode_u_def setTelemetry_def
  by (intro ends_rules)

lemma ends_thresholds [ends_rules]:
  "ends (Threshold i q io t u m)" "ends (ReverieThreshold i q t u m)"
  unfolding Threshold_def ReverieThreshold_def DynamicThreshold_def ActiveBufferManagement_def FlowAwareBuffer_def
    updateDequeueRates_def rateCell_def dequeueRate_def satLevelOf_def abmThreshold_def reverieValue_def keep_def
  by (intro ends_rules)+

lemma ends_mmu [ends_rules]:
  "ends (RemoveFromIngressAdmission i q ps t m)" "ends (RemoveFromEgressAdmission i q ps t m)"
  "ends (ShouldSendCN u i q m)" "ends (CheckShouldResume i q m)" "ends (SetResume i q m)"
  unfolding RemoveFromIngressAdmission_def RemoveFromEgressAdmission_def ShouldSendCN_def CheckShouldResume_def
    SetResume_def lpfValue_def
  by (intro ends_rules)+

lemma ends_queue [ends_rules]:
  "ends (DequeueRR sz pz b)" "ends (BEgressQueue_Enqueue sz p q b)" "ends (beq_GetNBytes q b)"
  unfolding DequeueRR_def DoDequeueRR_def BEgressQueue_Enqueue_def BEgressQueue_DoEnqueue_def beq_GetNBytes_def
    DropTail_Dequeue_def DropTail_Enqueue_def Queue_DoEnqueue_def QueueSize_greater_def takeOut_def
  by (intro ends_rules)+

lemma ends_TransmitStart [ends_rules]: "ends (TransmitStart d p s)"
  unfolding TransmitStart_def by (intro ends_rules)

lemma ends_urgent:
  assumes ok: "ports_ok s" and ne: "d < length (m_devices s) \<Longrightarrow> contents (m_queue (m_devices s ! d)) 0 \<noteq> []"
  shows "ends (DequeueAndTransmit (Suc n) e d s)"
proof (cases "d < length (m_devices s)")
  case d: True
  let ?dev = "m_devices s ! d"
  have beq: "beq_ok p_size (m_queue ?dev)" using ok d by (simp add: ports_ok_def queue_wf_def)
  have last: "GetLastQueue b = 0" if "DequeueRR p_size (m_paused ?dev) (m_queue ?dev) = Inr (b, x)" for b x
    using beq that by (rule DequeueRR_InrE) (use ne[OF d] in auto)
  have q0: "ends (SwitchNotifyDequeue dq e d 0 p s')" for dq p s'
    unfolding SwitchNotifyDequeue_def by (simp add: ends_rules)
  show ?thesis
  proof (cases "DequeueRR p_size (m_paused ?dev) (m_queue ?dev)")
    case (Inl x)
    then show ?thesis using ends_queue(1)[of p_size "m_paused ?dev" "m_queue ?dev"] by (auto intro: ends_rules)
  next
    case (Inr br)
    obtain b r where br: "br = (b, r)" by (cases br) auto
    show ?thesis
      unfolding DequeueAndTransmit.simps Inr br bindr_simps prod.case Let_def last[OF Inr[unfolded br]]
      by (intro ends_rules q0)
  qed
qed (simp add: ends_rules)

lemma ends_SendPfc:
  assumes "ports_ok s" "d < length (m_devices s)"
  shows "ends (SendPfc (DequeueAndTransmit (Suc n) e) d q r s)"
proof (cases "beq_GetNBytes q (m_queue (m_devices s ! d))")
  case (Inl x)
  then show ?thesis using ends_queue(3)[of q "m_queue (m_devices s ! d)"] by (simp add: SendPfc_def)
next
  case (Inr qlen)
  let ?p = "pfcFrame q r qlen (m_devices s ! d)"
  define s1 where "s1 = s\<lparr>pfcLog := pfcLog s @ [(d, q, r)]\<rparr>"
  have dev: "m_devices s1 = m_devices s" by (simp add: s1_def)
  show ?thesis
  proof (cases "BEgressQueue_Enqueue p_size ?p 0 (m_queue (m_devices s ! d))")
    case (Inl x)
    then show ?thesis using Inr ends_queue(2)[of p_size ?p 0 "m_queue (m_devices s ! d)"]
      by (simp add: SendPfc_def SwitchSend_def)
  next
    case B: (Inr bv)
    obtain b v where bv: "bv = (b, v)" by (cases bv) auto
    note Q = ports_ok_enqueue0[OF assms dev B[unfolded bv]]
    have "ends (DequeueAndTransmit (Suc n) e d (updDev d (\<lambda>dev. dev\<lparr>m_queue := b\<rparr>) s1))"
      by (rule ends_urgent[OF Q(1)]) (use Q(2) assms in \<open>simp_all add: dev\<close>)
    then show ?thesis
      using B[unfolded bv] by (simp add: SendPfc_def SwitchSend_def Inr Let_def s1_def del: DequeueAndTransmit.simps)
  qed
qed

lemma ends_Resume:
  assumes "ports_ok s"
  shows "ends (CheckAndSendResume (DequeueAndTransmit (Suc n) e) i q s)"
  unfolding CheckAndSendResume_def
  by (intro ends_rules ends_SendPfc) (use assms in \<open>simp_all add: ports_ok_def\<close>)

lemma ends_Notify:
  assumes "ports_ok s"
  shows "ends (SwitchNotifyDequeue (DequeueAndTransmit (Suc n) e) e d q p s)"
  unfolding SwitchNotifyDequeue_def
  by (intro ends_rules ends_Resume) (use assms in \<open>simp_all add: ports_ok_def\<close>)

lemma depth_ends:
  assumes "ports_ok s"
  shows "ends (DequeueAndTransmit (Suc (Suc n)) e d s)"
proof (cases "d < length (m_devices s)")
  case d: True
  let ?dev = "m_devices s ! d"
  show ?thesis
  proof (cases "DequeueRR p_size (m_paused ?dev) (m_queue ?dev)")
    case (Inl x)
    then show ?thesis using ends_queue(1)[of p_size "m_paused ?dev" "m_queue ?dev"]
      by (auto intro: ends_rules simp del: DequeueAndTransmit.simps simp: DequeueAndTransmit.simps(2)[of "Suc n"])
  next
    case (Inr br)
    obtain b r where br: "br = (b, r)" by (cases br) auto
    note N = ends_Notify[OF ports_ok_dequeue[OF assms d Inr[unfolded br]]]
    show ?thesis
      unfolding DequeueAndTransmit.simps(2)[of "Suc n"] Inr br bindr_simps prod.case Let_def
      by (intro ends_rules N)
  qed
qed (simp add: ends_rules)

subsection \<open>Routing\<close>

text \<open>A table in which every entry has a next hop, all of them ports of the switch.\<close>

definition routes_ok :: "swnode \<Rightarrow> bool" where
  "routes_ok s \<longleftrightarrow> (\<forall>dip hops. m_rtTable s dip = Some hops \<longrightarrow> hops \<noteq> [])"

lemma routes_add: "routes_ok s \<Longrightarrow> routes_ok (AddTableEntry dip intf s)"
  by (auto simp: routes_ok_def AddTableEntry_def Let_def)

lemma routes_fresh: "routes_ok (SwitchNode nid m)"
  by (simp add: routes_ok_def SwitchNode_def)

fun addRoutes :: "(u32 \<times> u32) list \<Rightarrow> swnode \<Rightarrow> swnode" where
  "addRoutes [] s = s"
| "addRoutes ((dip, intf) # rs) s = addRoutes rs (AddTableEntry dip intf s)"

lemma addRoutes_table:
  "m_rtTable (addRoutes rs s) dip =
     (case m_rtTable s dip of
        Some hops \<Rightarrow> Some (hops @ [sint i. (d, i) \<leftarrow> rs, d = dip])
      | None \<Rightarrow> (let hops = [sint i. (d, i) \<leftarrow> rs, d = dip] in if hops = [] then None else Some hops))"
proof (induction rs arbitrary: s)
  case (Cons r rs)
  obtain d i where r: "r = (d, i)" by (cases r)
  show ?case by (auto simp: r Cons.IH AddTableEntry_def Let_def split: option.split)
qed (auto split: option.split)

text \<open>The steps of the hash, each with its inverse.\<close>

lemma odd_mult_inj:
  assumes "(c :: u32) * c' = 1" "x * c = y * c"
  shows "x = y"
  using arg_cong[OF assms(2), of "\<lambda>w. w * c'"] by (simp add: mult.assoc assms(1))

lemma bit_u32_high: "32 \<le> j \<Longrightarrow> \<not> bit (w :: u32) j"
  using bit_imp_le_length[of w j] by auto

lemma xorshift_inj:
  fixes x y :: u32
  assumes "x XOR drop_bit n x = y XOR drop_bit n y" "0 < n"
  shows "x = y"
proof -
  have b: "(bit x j \<noteq> bit x (n + j)) \<longleftrightarrow> (bit y j \<noteq> bit y (n + j))" for j
    using arg_cong[OF assms(1), of "\<lambda>w. bit w j"] by (simp only: bit_xor_iff bit_drop_bit_eq o_def)
  have "\<forall>k. 32 - k = m \<longrightarrow> bit x k = bit y k" for m
  proof (induction m rule: less_induct)
    case (less m)
    show ?case
    proof (intro allI impI)
      fix k assume k: "32 - k = m"
      show "bit x k = bit y k"
      proof (cases "32 \<le> k")
        case True
        then show ?thesis by (simp add: bit_u32_high)
      next
        case False
        then have "32 - (n + k) < m" using k assms(2) by linarith
        then have "bit x (n + k) = bit y (n + k)" using less by blast
        then show ?thesis using b[of k] by blast
      qed
    qed
  qed
  then show ?thesis by (intro bit_word_eqI) blast
qed

lemma xor_right_inj:
  fixes x y k :: u32
  assumes "x XOR k = y XOR k"
  shows "x = y"
proof -
  have "(x XOR k) XOR k = (y XOR k) XOR k" using assms by simp
  then show ?thesis by (simp add: xor.assoc)
qed

lemma rotate_inj:
  fixes x y :: u32
  assumes "push_bit 13 x OR drop_bit 19 x = push_bit 13 y OR drop_bit 19 y"
  shows "x = y"
proof (rule bit_word_eqI)
  fix k assume k: "k < LENGTH(32)"
  have r: "bit (push_bit 13 w OR drop_bit 19 w) (if k < 19 then k + 13 else k - 19) = bit w k" for w :: u32
    using k by (auto simp: bit_or_iff bit_push_bit_iff bit_drop_bit_eq dest: bit_imp_le_length)
  show "bit x k = bit y k" using r[of x] r[of y] assms by simp
qed

lemma hashStep_inj:
  assumes "hashStep k x = hashStep k y"
  shows "x = y"
proof -
  define f where "f h = push_bit 13 (h XOR hashMix k) OR drop_bit 19 (h XOR hashMix k)" for h :: u32
  have "hashStep k h = f h * 5 + 0xe6546b64" for h
  proof -
    have "hashStep k h = f h + (push_bit 2 (f h) + 0xe6546b64)" by (simp only: hashStep_def Let_def f_def)
    moreover have "push_bit 2 (f h) = f h * 4" by (simp add: push_bit_eq_mult)
    ultimately show ?thesis by (simp add: algebra_simps)
  qed
  then have "f x * 5 = f y * 5" using assms by simp
  then have "f x = f y" by (rule odd_mult_inj[of 5 "0xcccccccd", rotated]) simp
  then have "x XOR hashMix k = y XOR hashMix k" unfolding f_def by (rule rotate_inj)
  then show ?thesis by (rule xor_right_inj)
qed

lemma hashFinal_inj:
  assumes "hashFinal x = hashFinal y"
  shows "x = y"
proof -
  define f where "f h = (h XOR drop_bit 16 h) * 0x85ebca6b" for h :: u32
  define g where "g h = (f h XOR drop_bit 13 (f h)) * 0xc2b2ae35" for h :: u32
  have "g x XOR drop_bit 16 (g x) = g y XOR drop_bit 16 (g y)"
    using assms by (simp only: hashFinal_def Let_def f_def g_def)
  then have "g x = g y" by (rule xorshift_inj) simp
  then have "f x XOR drop_bit 13 (f x) = f y XOR drop_bit 13 (f y)"
    unfolding g_def by (rule odd_mult_inj[of "0xc2b2ae35" "0x7ed1b41d", rotated]) simp
  then have "f x = f y" by (rule xorshift_inj) simp
  then have "x XOR drop_bit 16 x = y XOR drop_bit 16 y"
    unfolding f_def by (rule odd_mult_inj[of "0x85ebca6b" "0xa5cb9243", rotated]) simp
  then show ?thesis by (rule xorshift_inj) simp
qed

lemma hashBody_rest: "snd (hashBody key h) = snd (hashBody key h')"
  by (induction key h arbitrary: h' rule: hashBody.induct) auto

lemma hashBody_inj: "fst (hashBody key x) = fst (hashBody key y) \<Longrightarrow> x = y"
proof (induction key x arbitrary: y rule: hashBody.induct)
  case (1 a b c d rest h)
  then show ?case using hashStep_inj by auto
qed auto

subsection \<open>An example switch\<close>

text \<open>
  Three ports of 25 Gbit/s, one route to port 2.  The peer of port 2 pauses priority 3, then a
  packet of that priority arrives at port 0 and has to wait.
\<close>

definition exampleEnv :: swenv where
  "exampleEnv = \<lparr>e_now = 1000, e_mode = NONE, e_multi = 1, e_pint_bytes = 2,
     e_libm = \<lparr>lm_log = (\<lambda>_. 0), lm_log2 = (\<lambda>_. 0), lm_pow = (\<lambda>_ _. 1)\<rparr>,
     e_pint = \<lparr>log_base = 2, log_factor = 1\<rparr>, e_uniform = (\<lambda>_. 0), e_rand = (\<lambda>_ _. 0)\<rparr>"

definition exampleNode :: "mmu \<Rightarrow> swnode" where
  "exampleNode m = (AddTableEntry 7 2 (SwitchNode 0 m))
     \<lparr>m_devices := replicate 3 (QbbNetDevice 25000000000 0 (BEgressQueue 0 0))\<rparr>"

definition exampleData :: spkt where
  "exampleData = \<lparr>p_size = 1000, p_src = 5, p_dst = 7, p_proto = 0x11, p_sport = 1, p_dport = 2, p_pg = 3,
     p_prio = None, p_unsched = None, p_in = None, p_ecn = 0, p_int = IntHeader_init, p_fb = None, p_pfc = (0, 0, 0)\<rparr>"

definition examplePause :: spkt where
  "examplePause = exampleData\<lparr>p_size := 43, p_proto := 0xFE, p_pfc := (5, 0, 3)\<rparr>"

definition examplePaused :: "mmu \<Rightarrow> swnode" where
  "examplePaused m = updDev 2 (\<lambda>dev. dev\<lparr>m_paused := (m_paused dev)(3 := True)\<rparr>) (exampleNode m)"

lemma exampleNode_fields:
  "m_mmu (examplePaused m) = m" "length (m_devices (examplePaused m)) = 3" "m_ackHighPrio (examplePaused m) = 0"
  "m_rtTable (examplePaused m) = [7 \<mapsto> [2]]" "m_ecmpSeed (examplePaused m) = 0"
  "m_devices (examplePaused m) ! 2 = (QbbNetDevice 25000000000 0 (BEgressQueue 0 0))\<lparr>m_paused := (\<lambda>_. False)(3 := True)\<rparr>"
  "m_devices (examplePaused m) ! 0 = QbbNetDevice 25000000000 0 (BEgressQueue 0 0)"
  by (simp_all add: examplePaused_def updDev_def exampleNode_def AddTableEntry_def SwitchNode_def Let_def QbbNetDevice_def)

lemma examplePaused_step: "sw_step (exampleNode m) (examplePaused m)"
proof (rule sw_step.receive[of exampleEnv 0 False 2 examplePause])
  show "Receive exampleEnv 0 False 2 examplePause (exampleNode m) = Inr (examplePaused m)"
    by (simp add: Receive_def examplePause_def exampleData_def examplePaused_def exampleNode_def AddTableEntry_def
        SwitchNode_def Let_def QbbNetDevice_def qCnt_def)
qed (simp add: pkt_ok_def examplePause_def)

text \<open>Two buffers: the one of the previous examples, and one with so little room that the first packet needs headroom.\<close>

definition tightSwitch :: mmu where
  "tightSwitch = SetIngressPool 500 exampleSwitch"

lemma tightSwitch_start: "limiting tightSwitch" "idle tightSwitch"
  by (simp_all add: tightSwitch_def exampleSwitch_def limiting_def idle_def mmu_eval)

lemma exampleNode_start: "sw_start (exampleNode exampleSwitch)" "sw_start (exampleNode tightSwitch)"
proof -
  have f: "m_mmu (exampleNode m) = m" "pfcLog (exampleNode m) = []" "m_bytes (exampleNode m) = (\<lambda>_ _ _. 0)"
    "m_devices (exampleNode m) = replicate 3 (QbbNetDevice 25000000000 0 (BEgressQueue 0 0))" for m
    by (simp_all add: exampleNode_def AddTableEntry_def SwitchNode_def Let_def)
  have p: "paused exampleSwitch p q = 0" "paused tightSwitch p q = 0" for p q
    by (simp_all add: tightSwitch_def exampleSwitch_def headroomCell_def SetIngressPool_def SwitchMmu_def)
  show "sw_start (exampleNode exampleSwitch)" using exampleSwitch_start p f by (auto simp: sw_start_def pCnt_def)
  show "sw_start (exampleNode tightSwitch)" using tightSwitch_start p f by (auto simp: sw_start_def pCnt_def)
qed

lemma examplePaused_ok:
  assumes "sw_start (exampleNode m)"
  shows "ports_ok (examplePaused m)"
  using sw_reach_ok[OF sw_reach.step[OF sw_reach.start examplePaused_step] assms]
  by (simp add: sw_ok_def sw_inv_def)

lemma exampleSwitch_room:
  "\<exists>m. admitPacket 0 2 3 1000 LOSSLESS 0 exampleSwitch = Inr (m, True) \<and> xoffUsed m 0 3 = 0"
  by (simp add: exampleSwitch_def mmu_eval)

lemma tightSwitch_room:
  "\<exists>m. admitPacket 0 2 3 1000 LOSSLESS 0 tightSwitch = Inr (m, True) \<and> xoffUsed m 0 3 = 1000"
  by (simp add: tightSwitch_def exampleSwitch_def mmu_eval)

text \<open>A port with an empty queue 0 and room in its queues can send a pause or resume frame.\<close>

lemma SendPfc_succeeds:
  assumes ok: "ports_ok s" and d: "d < length (m_devices s)" and q: "q < fCnt"
    and room: "unat (m_bytesInQueueTotal (m_queue (m_devices s ! d))) + 43 < 1048576000"
    and c0: "contents (m_queue (m_devices s ! d)) 0 = []"
  shows "\<exists>s'. SendPfc (dq2 e) d q r s = Inr s' \<and> (\<forall>i. i \<noteq> d \<longrightarrow> m_devices s' ! i = m_devices s ! i)"
proof -
  let ?dev = "m_devices s ! d"
  define qlen p where "qlen = m_bytesInQueue (m_queue ?dev) q" and "p = pfcFrame q r qlen ?dev"
  define s1 where "s1 = s\<lparr>pfcLog := pfcLog s @ [(d, q, r)]\<rparr>"
  have wf: "queue_wf (m_queue ?dev)" "beq_ok p_size (m_queue ?dev)" using ok d by (simp_all add: ports_ok_def queue_wf_def)
  have z: "0 < fCnt" "0 < p_size p" "unat (p_size p) < 2 ^ 31" "unat (p_size p) = 43" "p_proto p = 0xFE" "p_fb p = None"
    by (simp_all add: fCnt_def p_def pfcFrame_def)
  obtain b where b: "BEgressQueue_Enqueue p_size p 0 (m_queue ?dev) = Inr (b, True)"
    using DoEnqueue_ok[OF wf(2) z(1-3)] room z(4) by (auto simp: BEgressQueue_Enqueue_def)
  note B = Enqueue_InrE[OF wf(2) z(1-3) b]
  define s2 where "s2 = updDev d (\<lambda>dev. dev\<lparr>m_queue := b\<rparr>) s1"
  have l: "d < length (m_devices s1)" "ports_ok s1" using d ok by (simp_all add: s1_def ports_ok_def)
  have "queue_wf b" using wf(1) B by (auto simp: queue_wf_def)
  then have ok2: "ports_ok s2" unfolding s2_def by (intro ports_ok_upd[OF l(2,1)]) simp
  have d2: "m_devices s2 ! d = ?dev\<lparr>m_queue := b\<rparr>" "d < length (m_devices s2)" "d < pCnt"
    using d ok by (simp_all add: s2_def s1_def ports_ok_def)
  have cb: "contents b 0 = [p]" using B(2)[of 0] c0 by simp
  have "served (m_paused ?dev) b = Some 0" by (simp add: served_def cb)
  from DoDequeueRR_serves[OF B(1) this _ cb] obtain b' where
    b': "DequeueRR p_size (m_paused ?dev) b = Inr (b', Some p)" "GetLastQueue b' = 0"
    by (auto simp: DequeueRR_def GetLastQueue_def)
  have "\<exists>s'. dq2 e d s2 = Inr s'"
  proof (cases "m_linkUp ?dev \<and> \<not> m_busy ?dev")
    case True
    define s3 where "s3 = updDev d (\<lambda>dev. dev\<lparr>m_queue := b'\<rparr>) s2"
    have busy: "\<not> m_busy (m_devices s3 ! d)" using True d2 by (simp add: s3_def)
    have "\<exists>s4 p'. SwitchNotifyDequeue (DequeueAndTransmit (Suc 0) e) e d 0 p s3 = Inr (s4, p') \<and> m_devices s4 = m_devices s3"
      using z(5,6) d2(3) by (simp add: SwitchNotifyDequeue_def stampTelemetry_def Let_def)
    then obtain s4 p' where n: "SwitchNotifyDequeue (DequeueAndTransmit (Suc 0) e) e d 0 p s3 = Inr (s4, p')"
      and dv: "m_devices s4 = m_devices s3" by blast
    show ?thesis unfolding dq2_def numeral_2_eq_2 DequeueAndTransmit.simps(2)[of "Suc 0"]
      using True d2 b' n busy dv
      by (simp add: s3_def[symmetric] TransmitStart_def del: DequeueAndTransmit.simps)
  qed (use d2 in \<open>auto simp: dq2_def numeral_2_eq_2\<close>)
  then obtain s' where s': "dq2 e d s2 = Inr s'" by blast
  have ne: "contents (m_queue (m_devices s2 ! d)) 0 \<noteq> []" by (simp add: d2(1) cb)
  have "m_devices s' ! i = m_devices s ! i" if "i \<noteq> d" for i
    using Dequeue_urgent(4)[OF s'[unfolded dq2_def numeral_2_eq_2] ok2 d2(2) ne that] that d
    by (simp add: s2_def s1_def)
  moreover have "SendPfc (dq2 e) d q r s = Inr s'"
    using b s' q by (simp add: SendPfc_def SwitchSend_def beq_GetNBytes_def Let_def qlen_def p_def s2_def s1_def)
  ultimately show ?thesis by blast
qed

lemma exampleWaits:
  assumes start: "sw_start (exampleNode m0)"
    and ad: "admitPacket 0 2 3 1000 LOSSLESS 0 m0 = Inr (m, True)"
  shows "\<exists>s. sw_reach (exampleNode m0) s \<and> contents (m_queue (m_devices s ! 2)) 3 = [exampleData\<lparr>p_in := Some 0\<rparr>]
     \<and> length (m_devices s) = 3 \<and> xoffUsed (m_mmu s) = xoffUsed m"
proof -
  let ?p = "exampleData\<lparr>p_in := Some 0\<rparr>"
  let ?b = "BEgressQueue 0 0 :: spkt beq"
  have p: "p_size ?p = 1000" "p_proto ?p = 0x11" "pickQueue 0 ?p = 3" "pktType ?p = LOSSLESS" "p_unsched ?p = None"
    "p_in ?p = Some 0" "p_dst ?p = 7"
    by (simp_all add: exampleData_def pickQueue_def pktType_def)
  obtain b where b: "BEgressQueue_Enqueue p_size ?p 3 ?b = Inr (b, True)" "beq_ok p_size b"
    "\<forall>j. contents b j = (if j = 3 then contents ?b 3 @ [?p] else contents ?b j)"
    using DoEnqueue_ok[OF beq_start, of 3 p_size ?p 0 0]
    by (auto simp: fCnt_def p BEgressQueue_Enqueue_def BEgressQueue_def)
  have fresh: "contents ?b 0 = []" "m_bytesInQueueTotal ?b = 0" by (simp_all add: contents_fresh) (simp add: BEgressQueue_def)
  define dev where "dev = (QbbNetDevice 25000000000 0 ?b)\<lparr>m_paused := (\<lambda>_. False)(3 := True)\<rparr>"
  have cb: "contents b j = (if j = 3 then [?p] else [])" if "j < 8" for j
    using b(3) that by (simp add: contents_fresh)
  have dq: "DequeueRR p_size (m_paused dev) b = Inr (b, None)"
  proof -
    have "served (m_paused dev) b = None"
    proof (rule ccontr)
      assume "served (m_paused dev) b \<noteq> None"
      then obtain i where "served (m_paused dev) b = Some i" by blast
      from served_cases[OF b(2) this] show False using cb by (auto simp: dev_def split: if_splits)
    qed
    from served_None[OF b(2) this] show ?thesis by (simp add: DequeueRR_def)
  qed
  define s0 where "s0 = (examplePaused m0)\<lparr>m_mmu := m\<rparr>"
  have dev2: "m_devices (examplePaused m0) ! 2 = dev" by (simp add: exampleNode_fields dev_def)
  have up: "m_linkUp dev" "\<not> m_busy dev" "m_queue dev = ?b" by (simp_all add: dev_def QbbNetDevice_def)
  have ok0: "ports_ok s0" using examplePaused_ok[OF start] by (simp add: s0_def ports_ok_def)
  have "\<exists>s1. CheckAndSendPfc (dq2 exampleEnv) 0 3 s0 = Inr s1 \<and> m_devices s1 ! 2 = dev
      \<and> length (m_devices s1) = 3 \<and> xoffUsed (m_mmu s1) = xoffUsed m"
  proof (cases "paused m 0 3 = 0 \<and> xoffUsed m 0 3 > 0")
    case False
    then show ?thesis using dev2
      by (auto simp: CheckAndSendPfc_def s0_def exampleNode_fields(1-5) CheckShouldPause_def ok_pq_def mmu_consts GetHdrmBytes_def)
  next
    case True
    have "0 < length (m_devices s0)" "3 < fCnt" "m_devices s0 ! 0 = QbbNetDevice 25000000000 0 ?b"
      by (simp_all add: s0_def exampleNode_fields fCnt_def)
    then obtain s' where s': "SendPfc (dq2 exampleEnv) 0 3 False s0 = Inr s'" "m_devices s' ! 2 = m_devices s0 ! 2"
      using SendPfc_succeeds[OF ok0, of 0 3 exampleEnv False] fresh
      by (auto simp: QbbNetDevice_def)
    note S = d2.SendPfc_effect[OF s'(1) ok0 \<open>0 < length (m_devices s0)\<close>]
    have "m_mmu s' = m" "length (m_devices s') = 3"
      using S(1) by (simp_all add: same_core_def s0_def exampleNode_fields)
    then show ?thesis using True s' dev2
      by (simp add: CheckAndSendPfc_def s0_def exampleNode_fields(1-5) CheckShouldPause_def SetPause_def ok_pq_def mmu_consts GetHdrmBytes_def)
  qed
  then obtain s1 where s1: "CheckAndSendPfc (dq2 exampleEnv) 0 3 s0 = Inr s1" "m_devices s1 ! 2 = dev"
    "length (m_devices s1) = 3" "xoffUsed (m_mmu s1) = xoffUsed m" by blast
  define s2 where "s2 = updDev 2 (\<lambda>dev. dev\<lparr>m_queue := b\<rparr>) (addBytes 0 2 3 1000 s1)"
  define s3 where "s3 = updDev 2 (\<lambda>dev. dev\<lparr>totalBytesRcvd := totalBytesRcvd dev + 1000\<rparr>) s2"
  have d2: "length (m_devices s2) = 3" "m_devices s2 ! 2 = dev\<lparr>m_queue := b\<rparr>"
    using s1 by (simp_all add: s2_def)
  have dqs: "dq2 exampleEnv 2 s2 = Inr s2"
  proof -
    have "updDev 2 (\<lambda>dev. dev\<lparr>m_queue := b\<rparr>) s2 = s2" using s1 by (simp add: s2_def updDev_def addBytes_def)
    then show ?thesis using d2 up dq by (simp add: dq2_def numeral_2_eq_2)
  qed
  have ss: "SwitchSend (dq2 exampleEnv) 2 3 ?p (addBytes 0 2 3 1000 s1) = Inr s2"
    using b(1) dqs s1(2) up(3) by (simp add: SwitchSend_def s2_def)
  have out: "GetOutDev 0 ?p (examplePaused m0) = Inr 2" by (simp add: GetOutDev_def exampleNode_fields p Let_def)
  have "SendToDev exampleEnv 0 ?p (examplePaused m0) = Inr s3"
    unfolding SendToDev_def out
    by (simp add: exampleNode_fields(1-5) p dev2 up ad s0_def[symmetric] s1(1) ok_pq_def pCnt_def qCnt_def ss s3_def)
  then have "Receive exampleEnv 0 False 0 exampleData (examplePaused m0) = Inr s3"
    by (simp add: Receive_def exampleNode_fields SwitchReceiveFromDevice_def Let_def)
      (simp add: exampleData_def QbbNetDevice_def)
  then have "sw_reach (exampleNode m0) s3"
    using sw_reach.step[OF sw_reach.step[OF sw_reach.start examplePaused_step]] sw_step.receive
    by (simp add: pkt_ok_def exampleData_def)
  moreover have "length (m_devices s3) = 3" "m_queue (m_devices s3 ! 2) = b" "m_mmu s3 = m_mmu s1"
    using d2 by (simp_all add: s3_def) (simp add: s2_def addBytes_def)
  ultimately show ?thesis using cb s1(4) by auto
qed

lemma exampleWaits_ledger: "\<exists>s. sw_reach (exampleNode exampleSwitch) s \<and> bp 2 3 (exampleData\<lparr>p_in := Some 0\<rparr>) \<in># ledger s"
proof -
  let ?p = "exampleData\<lparr>p_in := Some 0\<rparr>"
  obtain s where s: "sw_reach (exampleNode exampleSwitch) s" "contents (m_queue (m_devices s ! 2)) 3 = [?p]" "length (m_devices s) = 3"
    using exampleSwitch_room exampleWaits[OF exampleNode_start(1)] by blast
  have "bp 2 3 ?p \<in># portLedger 2 (m_queue (m_devices s ! 2))"
    using s(2) by (auto simp: portLedger_def set_mset_sum intro!: bexI[of _ 3])
  then have "bp 2 3 ?p \<in># ledger s" using s(3) by (auto simp: ledger_def set_mset_sum intro!: bexI[of _ 2])
  then show ?thesis using s(1) by blast
qed

subsection \<open>Draining a port\<close>

lemma DequeueRR_total:
  assumes "beq_ok sz b"
  shows "\<exists>b' r. DequeueRR sz pz b = Inr (b', r)"
proof (cases "served pz b")
  case None
  then show ?thesis using served_None(1)[OF assms None] by (simp add: DequeueRR_def)
next
  case (Some i)
  note c = served_cases[OF assms Some]
  then obtain x xs where "contents b i = x # xs" by (cases "contents b i") auto
  from DoDequeueRR_serves[OF assms Some c(1) this] show ?thesis by (auto simp: DequeueRR_def)
qed

definition queued :: "'a beq \<Rightarrow> nat" where
  "queued b = (\<Sum>q<8. length (contents b q))"

lemma queued_less:
  assumes "i < 8" "contents b i = x # contents b' i" "\<And>j. j \<noteq> i \<Longrightarrow> contents b' j = contents b j"
  shows "queued b = Suc (queued b')"
proof -
  have "queued b + length (contents b' i) = queued b' + length (contents b i)"
    unfolding queued_def by (rule msum_change) (use assms in auto)
  then show ?thesis by (simp add: assms(2))
qed

lemma drainQueue_empties:
  assumes "beq_ok p_size b" "queued b < n"
  shows "\<exists>b'. drainQueue n b = Inr b' \<and> beq_ok p_size b' \<and> (\<forall>q<8. contents b' q = [])"
  using assms
proof (induction n arbitrary: b)
  case (Suc n)
  obtain b1 r where D: "DequeueRR p_size (\<lambda>_. False) b = Inr (b1, r)" using DequeueRR_total[OF Suc.prems(1)] by blast
  from Suc.prems(1) D show ?case
  proof (cases rule: DequeueRR_InrE)
    case none
    then show ?thesis using D Suc.prems(1) by auto
  next
    case (some x i)
    have "queued b = Suc (queued b1)" by (rule queued_less[of i _ x]) (use some in auto)
    then show ?thesis using Suc.IH[of b1] Suc.prems(2) D some by auto
  qed
qed simp

lemma portLedger_empty: "(\<And>q. q < 8 \<Longrightarrow> contents b q = []) \<Longrightarrow> portLedger d b = {#}"
  by (simp add: portLedger_def)

lemma bytes_union: "bytes P (A + B) = bytes P A + bytes P B"
  by (simp add: bytes_def)

subsection \<open>Properties\<close>

text \<open>
  C1.  The switch accounts for exactly the packets it holds: in every state a switch reaches from its
  start, whatever packets, pause frames, transmissions and route changes it has seen, the counters
  of the shared buffer are the aggregates of the packets that are in the port queues with priorities
  1 to 7, these never add up to more than the buffer size, and \<^verbatim>\<open>m_bytes\<close> counts them per input,
  output and priority, modulo \<open>2 ^ 32\<close>.
\<close>

theorem switch_accounting:
  assumes "sw_start s0" "sw_reach s0 s"
  shows "agrees (ledger s) (m_mmu s) \<and> bytes (\<lambda>_. True) (ledger s) \<le> unat (bufferPool (m_mmu s0))
    \<and> (\<forall>i j q. q \<noteq> 0 \<longrightarrow>
         m_bytes s i j q = of_nat (bytes (\<lambda>b. b_in b = i \<and> b_out b = j \<and> b_q b = q) (ledger s)))"
  using sw_reach_ok[OF assms(2,1)] by (simp add: sw_ok_def sw_inv_def mmu_inv_def bytes_ok_def)

theorem switch_accounting_witness:
  "\<exists>s. agrees (ledger s) (m_mmu s) \<and> bp 2 3 (exampleData\<lparr>p_in := Some 0\<rparr>) \<in># ledger s"
  using exampleWaits_ledger switch_accounting[OF exampleNode_start(1)] by blast

text \<open>
  C2.  Headroom is only used under pause: whenever bytes of a queue are in the headroom, the switch
  has told the sender to pause that queue, and the last frame it sent for the queue was the pause.
\<close>

theorem headroom_is_paused:
  assumes "sw_start s0" "sw_reach s0 s" "ok_pq p q" "xoffUsed (m_mmu s) p q > 0"
  shows "paused (m_mmu s) p q \<noteq> 0 \<and> pfcSeq p q (pfcLog s) \<noteq> [] \<and> last (pfcSeq p q (pfcLog s)) = False"
proof -
  have inv: "pfc_ok {} (m_mmu s)" "log_ok (pfcLog s) (m_mmu s)"
    using sw_reach_ok[OF assms(2,1)] by (simp_all add: sw_ok_def sw_inv_def)
  then have p: "paused (m_mmu s) p q \<noteq> 0" using assms(3,4) by (auto simp: pfc_ok_def word_gt_0)
  then have l: "odd (length (pfcSeq p q (pfcLog s)))" "alternating False (pfcSeq p q (pfcLog s))"
    using inv(2) assms(3) by (auto simp: log_ok_def)
  then have ne: "pfcSeq p q (pfcLog s) \<noteq> []" by auto
  then have "alternating False (butlast (pfcSeq p q (pfcLog s)) @ [last (pfcSeq p q (pfcLog s))])" using l(2) by simp
  then have "last (pfcSeq p q (pfcLog s)) = False" using l(1) ne by (simp only: alternating_snoc) (simp split: if_splits)
  then show ?thesis using p ne by blast
qed

theorem headroom_is_paused_witness:
  "\<exists>s :: swnode. xoffUsed (m_mmu s) 0 3 = 1000 \<and> paused (m_mmu s) 0 3 \<noteq> 0"
proof -
  obtain m where m: "admitPacket 0 2 3 1000 LOSSLESS 0 tightSwitch = Inr (m, True)" "xoffUsed m 0 3 = 1000"
    using tightSwitch_room by blast
  obtain s where s: "sw_reach (exampleNode tightSwitch) s" "xoffUsed (m_mmu s) = xoffUsed m"
    using exampleWaits[OF exampleNode_start(2) m(1)] by blast
  have "paused (m_mmu s) 0 3 \<noteq> 0"
    using headroom_is_paused[OF exampleNode_start(2) s(1), of 0 3] s(2) m(2) by (simp add: ok_pq_def mmu_consts)
  moreover have "xoffUsed (m_mmu s) 0 3 = 1000" by (simp add: s(2) m(2))
  ultimately show ?thesis by blast
qed

text \<open>
  C3.  Pause and resume frames of a queue alternate, beginning with a pause; the switch never sends
  two pauses or two resumes of a queue in a row.
\<close>

theorem pfc_alternates:
  assumes "sw_start s0" "sw_reach s0 s" "ok_pq p q"
  shows "alternating False (pfcSeq p q (pfcLog s)) \<and> (paused (m_mmu s) p q \<noteq> 0 \<longleftrightarrow> odd (length (pfcSeq p q (pfcLog s))))"
  using sw_reach_ok[OF assms(2,1)] assms(3) by (simp add: sw_ok_def sw_inv_def log_ok_def)

theorem pfc_alternates_witness:
  "\<exists>s. bp 2 3 (exampleData\<lparr>p_in := Some 0\<rparr>) \<in># ledger s \<and> alternating False (pfcSeq 0 3 (pfcLog s))"
proof -
  have "ok_pq 0 3" by (simp add: ok_pq_def mmu_consts)
  then show ?thesis using exampleWaits_ledger pfc_alternates[OF exampleNode_start(1)] by blast
qed

text \<open>
  C4.  No port idles while it could send: in every reachable state, a port whose link is up and that
  is not transmitting has an empty queue 0, and each of its other queues is empty or paused.
\<close>

theorem work_conserving:
  assumes "sw_start s0" "sw_reach s0 s" "d < length (m_devices s)"
    and "m_linkUp (m_devices s ! d)" "\<not> m_busy (m_devices s ! d)"
  shows "contents (m_queue (m_devices s ! d)) 0 = []
    \<and> (\<forall>q<8. m_paused (m_devices s ! d) q \<or> contents (m_queue (m_devices s ! d)) q = [])"
  using sw_reach_ok[OF assms(2,1)] assms(3-5) by (auto simp: sw_ok_def working_def quiet_def)

theorem work_conserving_witness:
  "contents (m_queue (m_devices (examplePaused exampleSwitch) ! 2)) 0 = []"
  using work_conserving[OF exampleNode_start(1) sw_reach.step[OF sw_reach.start examplePaused_step], of 2]
  by (simp add: exampleNode_fields QbbNetDevice_def)

text \<open>
  C21.  The mutual recursion between sending and pausing is two deep: on a switch whose queues are in
  order, a call of \<^verbatim>\<open>DequeueAndTransmit\<close> for any port returns (it never runs out of depth),
  and every depth from two on gives the result of depth two.
\<close>

theorem depth_enough:
  assumes "ports_ok s" "2 \<le> n"
  shows "DequeueAndTransmit n e d s = dq2 e d s \<and> dq2 e d s \<noteq> Inl Diverge"
proof -
  obtain k where "n = Suc (Suc k)" using assms(2) by (metis Suc_le_D numeral_2_eq_2 Suc_le_mono)
  then show ?thesis
    using depth_any[OF assms(1)] depth_ends[OF assms(1)] unfolding dq2_def numeral_2_eq_2 ends_def by blast
qed

theorem depth_enough_witness:
  "DequeueAndTransmit 9 exampleEnv 2 (examplePaused exampleSwitch) = dq2 exampleEnv 2 (examplePaused exampleSwitch)
   \<and> dq2 exampleEnv 2 (examplePaused exampleSwitch) \<noteq> Inl Diverge"
  by (rule depth_enough[OF examplePaused_ok[OF exampleNode_start(1)]]) simp

text \<open>
  C22.  Taking a link down empties the port and leaks its buffer space: the drain loop ends, after
  which the link is down, nothing is paused and the port's eight queues are empty, but the buffer
  manager is not told; it goes on counting the discarded packets, so \<^verbatim>\<open>totalUsed\<close> exceeds
  what the switch still holds by exactly their bytes.
\<close>

theorem TakeDown_leaks:
  assumes "sw_start s0" "sw_reach s0 s" "d < length (m_devices s)" "queued (m_queue (m_devices s ! d)) < n"
  shows "\<exists>s'. TakeDown n d s = Inr s' \<and> m_mmu s' = m_mmu s \<and> \<not> m_linkUp (m_devices s' ! d)
    \<and> (\<forall>q<8. contents (m_queue (m_devices s' ! d)) q = [] \<and> \<not> m_paused (m_devices s' ! d) q)
    \<and> unat (totalUsed (m_mmu s')) =
        bytes (\<lambda>_. True) (ledger s') + bytes (\<lambda>_. True) (portLedger d (m_queue (m_devices s ! d)))"
proof -
  have inv: "ports_ok s" "agrees (ledger s) (m_mmu s)"
    using sw_reach_ok[OF assms(2,1)] by (simp_all add: sw_ok_def sw_inv_def mmu_inv_def)
  then have "beq_ok p_size (m_queue (m_devices s ! d))" using assms(3) by (simp add: ports_ok_def queue_wf_def)
  from drainQueue_empties[OF this assms(4)] obtain b where
    b: "drainQueue n (m_queue (m_devices s ! d)) = Inr b" "\<forall>q<8. contents b q = []" by blast
  define s' where "s' = updDev d (\<lambda>dev. dev\<lparr>m_paused := (\<lambda>k. k \<ge> qCnt \<and> m_paused dev k), m_queue := b, m_linkUp := False\<rparr>) s"
  have t: "TakeDown n d s = Inr s'" using b(1) assms(3) by (simp add: TakeDown_def s'_def)
  have "ledger s' + portLedger d (m_queue (m_devices s ! d)) = ledger s"
    using ledger_updDev[OF assms(3)] b(2) by (simp add: s'_def portLedger_empty)
  then have l: "bytes (\<lambda>_. True) (ledger s) =
      bytes (\<lambda>_. True) (ledger s') + bytes (\<lambda>_. True) (portLedger d (m_queue (m_devices s ! d)))"
    by (metis bytes_union)
  have f: "m_mmu s' = m_mmu s" "\<not> m_linkUp (m_devices s' ! d)" "m_queue (m_devices s' ! d) = b"
    "\<forall>q<8. \<not> m_paused (m_devices s' ! d) q"
    using assms(3) by (simp_all add: s'_def qCnt_def)
  have "unat (totalUsed (m_mmu s)) = bytes (\<lambda>_. True) (ledger s)" using inv(2) by (simp add: agrees_def)
  then show ?thesis using t f b(2) l by auto
qed

theorem TakeDown_leaks_witness:
  "\<exists>s s' n. TakeDown n 2 s = Inr s' \<and> bytes (\<lambda>_. True) (ledger s') < unat (totalUsed (m_mmu s'))"
proof -
  let ?p = "exampleData\<lparr>p_in := Some 0\<rparr>"
  obtain s where s: "sw_reach (exampleNode exampleSwitch) s" "contents (m_queue (m_devices s ! 2)) 3 = [?p]" "length (m_devices s) = 3"
    using exampleSwitch_room exampleWaits[OF exampleNode_start(1)] by blast
  have "bp 2 3 ?p \<in># portLedger 2 (m_queue (m_devices s ! 2))"
    using s(2) by (auto simp: portLedger_def set_mset_sum intro!: bexI[of _ 3])
  then have "0 < bytes (\<lambda>_. True) (portLedger 2 (m_queue (m_devices s ! 2)))"
    by (auto simp: bytes_def bp_def exampleData_def dest!: multi_member_split)
  moreover obtain s' where "TakeDown (Suc (queued (m_queue (m_devices s ! 2)))) 2 s = Inr s'"
    "unat (totalUsed (m_mmu s')) = bytes (\<lambda>_. True) (ledger s') + bytes (\<lambda>_. True) (portLedger 2 (m_queue (m_devices s ! 2)))"
    using TakeDown_leaks[OF exampleNode_start(1) s(1), of 2 "Suc (queued (m_queue (m_devices s ! 2)))"] s(3) by auto
  ultimately have "bytes (\<lambda>_. True) (ledger s') < unat (totalUsed (m_mmu s'))" by linarith
  then show ?thesis using \<open>TakeDown _ 2 s = Inr s'\<close> by blast
qed

text \<open>
  C23.  Equal-cost routing always finds a next hop: a table filled by \<^verbatim>\<open>AddTableEntry\<close> answers each
  lookup with one of the interfaces that were added for the destination, or with -1 when there are
  none; the remainder is never taken by zero.
\<close>

theorem route_total:
  "\<exists>out. GetOutDev junk p (addRoutes rs (SwitchNode nid m)) = Inr out
     \<and> (if p_dst p \<in> fst ` set rs then out \<in> {sint i |i. (p_dst p, i) \<in> set rs} else out = -1)"
proof -
  let ?hops = "[sint i. (d, i) \<leftarrow> rs, d = p_dst p]"
  have t: "m_rtTable (addRoutes rs (SwitchNode nid m)) (p_dst p) = (if ?hops = [] then None else Some ?hops)"
    by (simp add: addRoutes_table SwitchNode_def Let_def)
  have e: "?hops = [] \<longleftrightarrow> p_dst p \<notin> fst ` set rs" by (force simp: concat_eq_Nil_conv)
  have m: "x \<in> {sint i |i. (p_dst p, i) \<in> set rs}" if "x \<in> set ?hops" for x using that by auto
  show ?thesis
  proof (cases "?hops = []")
    case True
    then show ?thesis using t e by (auto simp: GetOutDev_def)
  next
    case False
    then have "?hops ! (k mod length ?hops) \<in> set ?hops" for k by (intro nth_mem) simp
    from m[OF this] show ?thesis using False t e by (simp add: GetOutDev_def Let_def)
  qed
qed

text \<open>
  C24.  Different seeds decorrelate switches: for every key, the hash is injective in the seed, so two
  switches with different seeds never agree on the hash of a flow.
\<close>

theorem EcmpHash_seed_inj:
  assumes "EcmpHash key x = EcmpHash key y"
  shows "x = y"
proof -
  obtain hx hy tail where h: "hashBody key x = (hx, tail)" "hashBody key y = (hy, tail)"
    using hashBody_rest[of key x y] by (metis prod.collapse)
  define t l where "t = (if tail = [] then 0 else hashMix (foldr (\<lambda>x k. push_bit 8 k OR ucast x) tail 0))"
    and "l = (of_nat (length key) :: u32)"
  have "EcmpHash key x = hashFinal (hx XOR t XOR l)" "EcmpHash key y = hashFinal (hy XOR t XOR l)"
    by (simp_all add: EcmpHash_def h t_def l_def Let_def xor.assoc)
  then have "hx XOR t XOR l = hy XOR t XOR l" using assms hashFinal_inj by simp
  then have "hx XOR (t XOR l) = hy XOR (t XOR l)" by (simp only: xor.assoc)
  then have "hx = hy" by (rule xor_right_inj)
  then show ?thesis using hashBody_inj[of key x y] h by simp
qed

theorem EcmpHash_seed_inj_witness: "EcmpHash [1, 2, 3, 4, 5] 0 \<noteq> EcmpHash [1, 2, 3, 4, 5] 1"
  using EcmpHash_seed_inj[of "[1, 2, 3, 4, 5]" 0 1] by auto

end
