(* ===== verification/Murmur_Hash.thy ===== *)
theory Murmur_Hash
  imports Switch_Node
begin

text \<open>
  The hash of the simulator core: \<^verbatim>\<open>Murmur3\<close> (core/model/hash-murmur3.cc, 32-bit variant) and
  \<^verbatim>\<open>Hash32\<close> (core/model/hash.h), by which an RDMA host spreads its queue pairs over its
  interfaces.  The switch has its own copy of the algorithm, \<open>EcmpHash\<close>; the two are shown equal.
\<close>

definition rotl32 :: "u32 \<Rightarrow> nat \<Rightarrow> u32" where
  "rotl32 x r = push_bit r x OR drop_bit (32 - r) x"

definition fmix :: "u32 \<Rightarrow> u32" where
  "fmix h =
     (let h = h XOR drop_bit 16 h; h = h * 0x85ebca6b; h = h XOR drop_bit 13 h; h = h * 0xc2b2ae35;
          h = h XOR drop_bit 16 h
      in h)"

fun murmurBlocks :: "u8 list \<Rightarrow> u32 \<Rightarrow> u32 \<times> u8 list" where
  "murmurBlocks (a # b # c # d # rest) h1 =
     (let k1 = le32 a b c d; k1 = k1 * 0xcc9e2d51; k1 = rotl32 k1 15; k1 = k1 * 0x1b873593;
          h1 = h1 XOR k1; h1 = rotl32 h1 13; h1 = h1 * 5 + 0xe6546b64
      in murmurBlocks rest h1)"
| "murmurBlocks tail h1 = (h1, tail)"

text \<open>The switch over the length of the tail falls through from case 3 to case 1.\<close>

definition MurmurHash3_x86_32_incr :: "u8 list \<Rightarrow> u32 \<Rightarrow> u32" where
  "MurmurHash3_x86_32_incr key seed =
     (case murmurBlocks key seed of (h1, tail) \<Rightarrow>
        if length tail = 0 then h1
        else
          let k1 = 0;
              k1 = (if length tail = 3 then k1 XOR push_bit 16 (ucast (tail ! 2)) else k1);
              k1 = (if length tail \<ge> 2 then k1 XOR push_bit 8 (ucast (tail ! 1)) else k1);
              k1 = k1 XOR ucast (tail ! 0);
              k1 = k1 * 0xcc9e2d51; k1 = rotl32 k1 15; k1 = k1 * 0x1b873593
          in h1 XOR k1)"

definition MurmurHash3_x86_32_fin :: "nat \<Rightarrow> u32 \<Rightarrow> u32" where
  "MurmurHash3_x86_32_fin len seed = fmix (seed XOR of_nat len)"

definition MurmurHash3_x86_32 :: "u8 list \<Rightarrow> u32 \<Rightarrow> u32" where
  "MurmurHash3_x86_32 key seed = MurmurHash3_x86_32_fin (length key) (MurmurHash3_x86_32_incr key seed)"

text \<open>The hasher object keeps the state of an incremental hash; \<^verbatim>\<open>GetStaticHash\<close> clears it first.\<close>

record Murmur3 =
  m_hash32 :: u32
  m_size32 :: u64

definition SEED :: u32 where "SEED = 0x8BADF00D"

definition Murmur3_clear :: Murmur3 where
  "Murmur3_clear = \<lparr>m_hash32 = SEED, m_size32 = 0\<rparr>"

definition GetHash32 :: "u8 list \<Rightarrow> Murmur3 \<Rightarrow> Murmur3 \<times> u32" where
  "GetHash32 buffer h =
     (let h = h\<lparr>m_hash32 := MurmurHash3_x86_32_incr buffer (m_hash32 h),
                m_size32 := m_size32 h + of_nat (length buffer)\<rparr>
      in (h, MurmurHash3_x86_32_fin (unat (m_size32 h)) (m_hash32 h)))"

definition Hash32 :: "u8 list \<Rightarrow> u32" where
  "Hash32 buffer = snd (GetHash32 buffer Murmur3_clear)"

lemma murmurBlocks_hashBody: "murmurBlocks key h = hashBody key h"
proof (induction key h rule: hashBody.induct)
  case (1 a b c d rest h)
  have r: "rotl32 x 15 = push_bit 15 x OR drop_bit 17 x" "rotl32 x 13 = push_bit 13 x OR drop_bit 19 x" for x
    by (simp_all add: rotl32_def)
  have "x * 5 + 0xe6546b64 = x + (push_bit 2 x + 0xe6546b64)" for x :: u32
    by (simp add: push_bit_eq_mult algebra_simps)
  note step = this
  have "murmurBlocks (a # b # c # d # rest) h = murmurBlocks rest (hashStep (le32 a b c d) h)"
    by (simp only: murmurBlocks.simps Let_def r step hashStep_def hashMix_def)
  then show ?case by (simp only: hashBody.simps 1)
qed auto

lemma hashBody_tail: "length (snd (hashBody key h)) < 4"
  by (induction key h rule: hashBody.induct) auto

lemma tail_word:
  fixes a b c :: u8
  shows "push_bit 8 (ucast b) OR ucast a = (push_bit 8 (ucast b) XOR ucast a :: u32)"
    "push_bit 8 (push_bit 8 (ucast c) OR ucast b) OR ucast a = (push_bit 16 (ucast c) XOR push_bit 8 (ucast b) XOR ucast a :: u32)"
    "(push_bit 16 (ucast c) XOR push_bit 8 (ucast b)) OR ucast a = ((push_bit 16 (ucast c) XOR push_bit 8 (ucast b)) XOR ucast a :: u32)"
  by (rule bit_word_eqI; auto simp: bit_or_iff bit_xor_iff bit_push_bit_iff bit_ucast_iff dest: bit_imp_le_length)+

lemma EcmpHash_murmur3: "EcmpHash key seed = MurmurHash3_x86_32 key seed"
proof -
  obtain h tail where b: "hashBody key seed = (h, tail)" by fastforce
  have l: "length tail < 4" using hashBody_tail[of key seed] b by simp
  have f: "hashFinal x = fmix x" for x by (simp add: hashFinal_def fmix_def Let_def)
  consider "tail = []" | x where "tail = [x]" | x y where "tail = [x, y]" | x y z where "tail = [x, y, z]"
    using l by (auto simp: numeral_eq_Suc less_Suc_eq length_Suc_conv)
  then show ?thesis
    by cases (simp_all add: EcmpHash_def MurmurHash3_x86_32_def MurmurHash3_x86_32_incr_def MurmurHash3_x86_32_fin_def
        murmurBlocks_hashBody b f Let_def tail_word hashMix_def rotl32_def)
qed

lemma ucast_nat: "(ucast (of_nat n :: u64) :: u32) = of_nat n"
  by (simp add: unsigned_of_nat word_of_nat_eq_iff)

text \<open>
  C25.  The switch hashes as the core does: for every key and seed, the hand-written hash of the
  switch computes the 32-bit Murmur3 hash; in particular \<^verbatim>\<open>Hash32\<close> of the core is the hash of
  the switch with the core's seed.
\<close>

theorem EcmpHash_is_murmur3:
  "EcmpHash key seed = MurmurHash3_x86_32 key seed
   \<and> Hash32 key = EcmpHash key SEED"
  using EcmpHash_murmur3[of key]
  by (simp add: Hash32_def GetHash32_def Murmur3_clear_def MurmurHash3_x86_32_def MurmurHash3_x86_32_fin_def ucast_nat Let_def)

end
