(* ===== verification/Data_Rate.thy ===== *)
theory Data_Rate
  imports Cpp_Double
begin

text \<open>
  Data rates (network/utils/data-rate.cc): a 64-bit number of bits per second, scaled in double
  arithmetic and truncated.  Points and spans of time (\<^verbatim>\<open>ns3::Time\<close>, a signed 64-bit
  number of nanoseconds) are integers; simulated times stay far below the 292 years after which
  the code's representation would overflow.
\<close>

type_synonym DataRate = u64
type_synonym time = int

definition DataRate_mult :: "DataRate \<Rightarrow> double \<Rightarrow> DataRate res" where
  "DataRate_mult d c = trunc_u64 (fmul (u64_to_double d) c)"

definition DataRate_div :: "DataRate \<Rightarrow> double \<Rightarrow> DataRate res" where
  "DataRate_div d c = bindr (fdiv (u64_to_double d) c) trunc_u64"

definition DataRate_plus :: "DataRate \<Rightarrow> DataRate \<Rightarrow> DataRate" where
  "DataRate_plus d r = d + r"

text \<open>
  The number of bits is computed in 32 bits.  \<^verbatim>\<open>Seconds(bits)\<close> is exact in nanoseconds, and its quotient by the
  \<^verbatim>\<open>uint64_t\<close> \<^verbatim>\<open>m_bps\<close> is the integer quotient: of the overloads of \<^verbatim>\<open>operator/\<close> in nstime.h the one
  for integral divisors is chosen, not the rounding one for \<^verbatim>\<open>int64x64_t\<close>.
\<close>

definition CalculateBytesTxTime :: "DataRate \<Rightarrow> u32 \<Rightarrow> time res" where
  "CalculateBytesTxTime bps bytes =
     (if bps = 0 then Inl NotFinite
      else Inr (int (unat (bytes * 8)) * 1000000000 div int (unat bps)))"

lemma CalculateBytesTxTime_nonneg: "CalculateBytesTxTime bps n = Inr t \<Longrightarrow> 0 \<le> t"
  by (auto simp: CalculateBytesTxTime_def div_int_pos_iff split: if_splits)

end
