(* ===== verification/Rdma_Queue_Pair.thy ===== *)
theory Rdma_Queue_Pair
  imports Int_Header Data_Rate
begin

text \<open>
  Queue pairs (point-to-point/model/rdma-queue-pair.cc): the state of one RDMA flow at its sender
  (\<open>RdmaQueuePair\<close>) with the variables of the congestion-control algorithms, and at its receiver
  (\<open>RdmaRxQueuePair\<close>).  An \<^verbatim>\<open>EventId\<close> of a timer is the time it is set to, if it is set.
  The members \<^verbatim>\<open>power\<close>, \<^verbatim>\<open>wp\<close> and \<^verbatim>\<open>hp.hopState[].qRate\<close> are never used
  and are left out; \<^verbatim>\<open>m_milestone_rx\<close>, an \<^verbatim>\<open>int32_t\<close>, is only compared with and added to
  unsigned numbers and is kept as its bits.  Members the constructor leaves unset come from a record \<open>qpJunk\<close>.
\<close>

subsection \<open>State\<close>

record mlx_state =
  m_targetRate :: DataRate
  m_eventUpdateAlpha :: "time option"
  mlx_alpha :: double
  m_alpha_cnp_arrived :: bool
  m_first_cnp :: bool
  m_eventDecreaseRate :: "time option"
  m_decrease_cnp_arrived :: bool
  m_rpTimeStage :: u32
  m_rpTimer :: "time option"

record hop_state =
  hs_u :: double
  hs_Rc :: DataRate
  hs_incStage :: u32

record hp_state =
  hp_lastUpdateSeq :: u32
  hp_curRate :: DataRate
  hp_hop :: "u64 list"
  keep :: "u32 list"
  hp_incStage :: u32
  m_lastGap :: double
  hp_u :: double
  hopState :: "hop_state list"

record tmly_state =
  tmly_lastUpdateSeq :: u32
  tmly_curRate :: DataRate
  tmly_incStage :: u32
  lastRtt :: u64
  rttDiff :: double

record dctcp_state =
  dctcp_lastUpdateSeq :: u32
  m_caState :: u32
  m_highSeq :: u32
  dctcp_alpha :: double
  m_ecnCnt :: u32
  m_batchSizeOfAlpha :: u32

record hpccPint_state =
  pint_lastUpdateSeq :: u32
  pint_curRate :: DataRate
  pint_incStage :: u32

record RdmaQueuePair =
  startTime :: time
  stopTime :: time
  sip :: u32
  dip :: u32
  sport :: u16
  dport :: u16
  m_size :: u64
  snd_nxt :: u64
  snd_una :: u64
  m_pg :: u16
  m_ipid :: u16
  m_win :: u32
  m_baseRtt :: u64
  m_max_rate :: DataRate
  m_var_win :: bool
  m_nextAvail :: time
  lastPktSize :: u32
  rates :: "u32 \<rightharpoonup> double"
  prevRtt :: double
  prevCompletion :: double
  powerEnabled :: bool
  incastFlow :: u32
  m_rate :: DataRate
  mlx :: mlx_state
  hp :: hp_state
  tmly :: tmly_state
  dctcp :: dctcp_state
  hpccPint :: hpccPint_state

record qpJunk =
  j_lastPktSize :: u32
  j_prevRtt :: double
  j_prevCompletion :: double
  j_powerEnabled :: bool
  j_incastFlow :: u32
  j_hop :: "u64 list"

definition MaximumSimulationTime :: time where
  "MaximumSimulationTime = 0x7fffffffffffffff"

definition RdmaQueuePair :: "qpJunk \<Rightarrow> time \<Rightarrow> u16 \<Rightarrow> u32 \<Rightarrow> u32 \<Rightarrow> u16 \<Rightarrow> u16 \<Rightarrow> RdmaQueuePair" where
  "RdmaQueuePair j now pg sip' dip' sport' dport' =
     \<lparr>startTime = now, stopTime = MaximumSimulationTime, sip = sip', dip = dip', sport = sport', dport = dport',
      m_size = 0, snd_nxt = 0, snd_una = 0, m_pg = pg, m_ipid = 0, m_win = 0, m_baseRtt = 0, m_max_rate = 0,
      m_var_win = False, m_nextAvail = 0, lastPktSize = j_lastPktSize j, rates = Map.empty,
      prevRtt = j_prevRtt j, prevCompletion = j_prevCompletion j, powerEnabled = j_powerEnabled j,
      incastFlow = j_incastFlow j, m_rate = 0,
      mlx = \<lparr>m_targetRate = 0, m_eventUpdateAlpha = None, mlx_alpha = 1, m_alpha_cnp_arrived = False,
             m_first_cnp = True, m_eventDecreaseRate = None, m_decrease_cnp_arrived = False,
             m_rpTimeStage = 0, m_rpTimer = None\<rparr>,
      hp = \<lparr>hp_lastUpdateSeq = 0, hp_curRate = 0, hp_hop = j_hop j, keep = replicate maxHop 0,
            hp_incStage = 0, m_lastGap = 0, hp_u = 1,
            hopState = replicate maxHop \<lparr>hs_u = 1, hs_Rc = 0, hs_incStage = 0\<rparr>\<rparr>,
      tmly = \<lparr>tmly_lastUpdateSeq = 0, tmly_curRate = 0, tmly_incStage = 0, lastRtt = 0, rttDiff = 0\<rparr>,
      dctcp = \<lparr>dctcp_lastUpdateSeq = 0, m_caState = 0, m_highSeq = 0, dctcp_alpha = 1, m_ecnCnt = 0,
               m_batchSizeOfAlpha = 0\<rparr>,
      hpccPint = \<lparr>pint_lastUpdateSeq = 0, pint_curRate = 0, pint_incStage = 0\<rparr>\<rparr>"

subsection \<open>Operations\<close>

definition SetSize :: "u64 \<Rightarrow> RdmaQueuePair \<Rightarrow> RdmaQueuePair" where
  "SetSize sz qp = qp\<lparr>m_size := sz\<rparr>"

definition SetWin :: "u32 \<Rightarrow> RdmaQueuePair \<Rightarrow> RdmaQueuePair" where
  "SetWin win qp = qp\<lparr>m_win := win\<rparr>"

definition SetBaseRtt :: "u64 \<Rightarrow> RdmaQueuePair \<Rightarrow> RdmaQueuePair" where
  "SetBaseRtt baseRtt qp = qp\<lparr>m_baseRtt := baseRtt\<rparr>"

definition SetVarWin :: "bool \<Rightarrow> RdmaQueuePair \<Rightarrow> RdmaQueuePair" where
  "SetVarWin v qp = qp\<lparr>m_var_win := v\<rparr>"

definition GetBytesLeft :: "RdmaQueuePair \<Rightarrow> u64" where
  "GetBytesLeft qp = (if m_size qp \<ge> snd_nxt qp then m_size qp - snd_nxt qp else 0)"

definition Acknowledge :: "u64 \<Rightarrow> RdmaQueuePair \<Rightarrow> RdmaQueuePair" where
  "Acknowledge ack qp = (if ack > snd_una qp then qp\<lparr>snd_una := ack\<rparr> else qp)"

definition GetOnTheFly :: "RdmaQueuePair \<Rightarrow> u64" where
  "GetOnTheFly qp = snd_nxt qp - snd_una qp"

definition nano :: double where
  "nano = rnd (1 / 1000000000)"

definition GetWin :: "RdmaQueuePair \<Rightarrow> u64 res" where
  "GetWin qp =
     (if powerEnabled qp \<and> m_var_win qp then
        bindr (fdiv (fmul (u64_to_double (m_rate qp * m_baseRtt qp)) nano) 8) trunc_u64
      else if powerEnabled qp \<and> \<not> m_var_win qp then Inr (ucast (m_win qp))
      else if m_win qp = 0 then Inr 0
      else if m_var_win qp then
        (if m_max_rate qp = 0 then Inl NotFinite
         else let w = ucast (m_win qp) * m_rate qp div m_max_rate qp in Inr (if w = 0 then 1 else w))
      else Inr (ucast (m_win qp)))"

definition IsWinBound :: "RdmaQueuePair \<Rightarrow> bool res" where
  "IsWinBound qp = bindr (GetWin qp) (\<lambda>w. Inr (w \<noteq> 0 \<and> GetOnTheFly qp \<ge> w))"

definition HpGetCurWin :: "RdmaQueuePair \<Rightarrow> u64 res" where
  "HpGetCurWin qp =
     (if m_win qp = 0 then Inr 0
      else if m_var_win qp then
        (if m_max_rate qp = 0 then Inl NotFinite
         else let w = ucast (m_win qp) * hp_curRate (hp qp) div m_max_rate qp in Inr (if w = 0 then 1 else w))
      else Inr (ucast (m_win qp)))"

definition qp_IsFinished :: "time \<Rightarrow> RdmaQueuePair \<Rightarrow> bool" where
  "qp_IsFinished now qp = (if now > stopTime qp then True else snd_una qp \<ge> m_size qp)"

subsection \<open>The receiving side\<close>

record ECNAccount =
  ea_qIndex :: u16
  ea_ecnbits :: u8
  ea_qfb :: u16
  ea_total :: u16

record RdmaRxQueuePair =
  m_ecn_source :: ECNAccount
  rx_sip :: u32
  rx_dip :: u32
  rx_sport :: u16
  rx_dport :: u16
  rx_ipid :: u16
  ReceiverNextExpectedSeq :: u32
  m_nackTimer :: time
  m_milestone_rx :: u32
  m_lastNACK :: u32

definition RdmaRxQueuePair :: RdmaRxQueuePair where
  "RdmaRxQueuePair = \<lparr>m_ecn_source = \<lparr>ea_qIndex = 0, ea_ecnbits = 0, ea_qfb = 0, ea_total = 0\<rparr>,
     rx_sip = 0, rx_dip = 0, rx_sport = 0, rx_dport = 0, rx_ipid = 0, ReceiverNextExpectedSeq = 0,
     m_nackTimer = 0, m_milestone_rx = 0, m_lastNACK = 0\<rparr>"

text \<open>The 12 bytes both kinds of queue pair hash, in memory order.\<close>

definition flowBytes :: "u32 \<Rightarrow> u32 \<Rightarrow> u16 \<Rightarrow> u16 \<Rightarrow> u8 list" where
  "flowBytes s d sp dp =
     [ucast s, ucast (drop_bit 8 s), ucast (drop_bit 16 s), ucast (drop_bit 24 s),
      ucast d, ucast (drop_bit 8 d), ucast (drop_bit 16 d), ucast (drop_bit 24 d),
      ucast sp, ucast (drop_bit 8 sp), ucast dp, ucast (drop_bit 8 dp)]"

end
