(* ===== verification/Rdma_Rate.thy ===== *)
theory Rdma_Rate
  imports Rdma_Queue_Pair Pint
begin

text \<open>
  The rate control of the RDMA network card (point-to-point/model/rdma-hw.cc, 636-1294): DCQCN as
  Mellanox implements it, HPCC, PowerTCP, TIMELY, DCTCP and HPCC-PINT.  Each function works on the
  queue pair and on the wake-up time of the card it is assigned to (\<open>m_nextSend\<close> of its
  \<^verbatim>\<open>QbbNetDevice\<close>), because \<^verbatim>\<open>ChangeRate\<close> moves the latter.  The attributes of
  \<^verbatim>\<open>RdmaHw\<close> are the record \<open>hwcfg\<close>; time, telemetry parameters and random numbers are the
  record \<open>hwenv\<close>.  A division without a finite result ends the model where the code would go on
  with an infinity.
\<close>

subsection \<open>Attributes and environment\<close>

record hwcfg =
  m_minRate :: DataRate
  m_mtu :: u32
  m_cc_mode :: u32
  m_nack_interval :: double
  m_chunk :: u32
  m_ack_interval :: u32
  m_backto0 :: bool
  hw_var_win :: bool
  m_fast_react :: bool
  m_rateBound :: bool
  m_g :: double
  m_rateOnFirstCNP :: double
  m_EcnClampTgtRate :: bool
  m_rpgTimeReset :: double
  m_rateDecreaseInterval :: double
  m_rpgThreshold :: u32
  m_alpha_resume_interval :: double
  m_rai :: DataRate
  m_rhai :: DataRate
  m_targetUtil :: double
  m_utilHigh :: double
  m_miThresh :: u32
  m_multipleRate :: bool
  m_sampleFeedback :: bool
  PowerTCPEnabled :: bool
  PowerTCPdelay :: bool
  m_tmly_alpha :: double
  m_tmly_beta :: double
  m_tmly_TLow :: u64
  m_tmly_THigh :: u64
  m_tmly_minRtt :: u64
  m_dctcp_rai :: DataRate
  pint_smpl_thresh :: u32

definition RdmaHw :: hwcfg where
  "RdmaHw = \<lparr>m_minRate = 100000000, m_mtu = 1000, m_cc_mode = 0, m_nack_interval = 500, m_chunk = 0,
     m_ack_interval = 0, m_backto0 = False, hw_var_win = False, m_fast_react = True, m_rateBound = True,
     m_g = 1 / 16, m_rateOnFirstCNP = 1, m_EcnClampTgtRate = False, m_rpgTimeReset = 1500,
     m_rateDecreaseInterval = 4, m_rpgThreshold = 5, m_alpha_resume_interval = 55,
     m_rai = 5000000, m_rhai = 50000000, m_targetUtil = rnd (95 / 100), m_utilHigh = rnd (98 / 100),
     m_miThresh = 5, m_multipleRate = True, m_sampleFeedback = False, PowerTCPEnabled = False,
     PowerTCPdelay = False, m_tmly_alpha = rnd (875 / 1000), m_tmly_beta = rnd (8 / 10),
     m_tmly_TLow = 50000, m_tmly_THigh = 500000, m_tmly_minRtt = 20000, m_dctcp_rai = 1000000000,
     pint_smpl_thresh = 65536\<rparr>"

record hwenv =
  h_now :: time
  h_mode :: Mode
  h_multi :: u32
  h_pint_bytes :: int
  h_libm :: libm
  h_pint :: pint
  h_rand :: int
  h_uninit :: u32

text \<open>\<^verbatim>\<open>MicroSeconds\<close> of a double truncates it.\<close>

definition MicroSeconds :: "double \<Rightarrow> time res" where
  "MicroSeconds d = bindr (trunc_u64 d) (\<lambda>n. Inr (int (unat n) * 1000))"

definition nowDouble :: "hwenv \<Rightarrow> double" where
  "nowDouble e = rnd (of_int (h_now e))"

subsection \<open>Pacing\<close>

type_synonym qpdev = "RdmaQueuePair \<times> time option"

definition UpdateNextAvail :: "hwenv \<Rightarrow> time \<Rightarrow> time option \<Rightarrow> time option" where
  "UpdateNextAvail e t nextSend =
     (case nextSend of
        None \<Rightarrow> None
      | Some ts \<Rightarrow> if t < ts then Some (h_now e + (if t < h_now e then 0 else t - h_now e)) else Some ts)"

definition ChangeRate :: "hwenv \<Rightarrow> DataRate \<Rightarrow> qpdev \<Rightarrow> qpdev res" where
  "ChangeRate e new_rate = (\<lambda>(qp, ns).
     bindr (CalculateBytesTxTime (m_rate qp) (lastPktSize qp)) (\<lambda>sendingTime.
     bindr (CalculateBytesTxTime new_rate (lastPktSize qp)) (\<lambda>new_sendingTime.
     let na = m_nextAvail qp + new_sendingTime - sendingTime
     in Inr (qp\<lparr>m_nextAvail := na, m_rate := new_rate\<rparr>, UpdateNextAvail e na ns))))"

definition clampRate :: "DataRate \<Rightarrow> DataRate \<Rightarrow> DataRate \<Rightarrow> DataRate" where
  "clampRate lo hi r = (let r = (if r < lo then lo else r) in if r > hi then hi else r)"

subsection \<open>DCQCN\<close>

definition ScheduleUpdateAlphaMlx :: "hwcfg \<Rightarrow> hwenv \<Rightarrow> RdmaQueuePair \<Rightarrow> RdmaQueuePair res" where
  "ScheduleUpdateAlphaMlx c e q =
     bindr (MicroSeconds (m_alpha_resume_interval c)) (\<lambda>d.
     Inr (q\<lparr>mlx := (mlx q)\<lparr>m_eventUpdateAlpha := Some (h_now e + d)\<rparr>\<rparr>))"

definition UpdateAlphaMlx :: "hwcfg \<Rightarrow> hwenv \<Rightarrow> RdmaQueuePair \<Rightarrow> RdmaQueuePair res" where
  "UpdateAlphaMlx c e q =
     (let a = mlx_alpha (mlx q);
          a = (if m_alpha_cnp_arrived (mlx q) then fadd (fmul (fsub 1 (m_g c)) a) (m_g c)
               else fmul (fsub 1 (m_g c)) a)
      in ScheduleUpdateAlphaMlx c e (q\<lparr>mlx := (mlx q)\<lparr>mlx_alpha := a, m_alpha_cnp_arrived := False\<rparr>\<rparr>))"

definition ScheduleDecreaseRateMlx :: "hwcfg \<Rightarrow> hwenv \<Rightarrow> time \<Rightarrow> RdmaQueuePair \<Rightarrow> RdmaQueuePair res" where
  "ScheduleDecreaseRateMlx c e delta q =
     bindr (MicroSeconds (m_rateDecreaseInterval c)) (\<lambda>d.
     Inr (q\<lparr>mlx := (mlx q)\<lparr>m_eventDecreaseRate := Some (h_now e + (d + delta))\<rparr>\<rparr>))"

definition cnp_received_mlx :: "hwcfg \<Rightarrow> hwenv \<Rightarrow> RdmaQueuePair \<Rightarrow> RdmaQueuePair res" where
  "cnp_received_mlx c e q =
     (let q = q\<lparr>mlx := (mlx q)\<lparr>m_alpha_cnp_arrived := True, m_decrease_cnp_arrived := True\<rparr>\<rparr> in
      if m_first_cnp (mlx q) then
        bindr (ScheduleUpdateAlphaMlx c e (q\<lparr>mlx := (mlx q)\<lparr>mlx_alpha := 1, m_alpha_cnp_arrived := False\<rparr>\<rparr>)) (\<lambda>q.
        bindr (ScheduleDecreaseRateMlx c e 1 q) (\<lambda>q.
        bindr (DataRate_mult (m_rate q) (m_rateOnFirstCNP c)) (\<lambda>r.
        Inr (q\<lparr>m_rate := r, mlx := (mlx q)\<lparr>m_targetRate := r, m_first_cnp := False\<rparr>\<rparr>))))
      else Inr q)"

definition setRpTimer :: "hwcfg \<Rightarrow> hwenv \<Rightarrow> RdmaQueuePair \<Rightarrow> RdmaQueuePair res" where
  "setRpTimer c e q =
     bindr (MicroSeconds (m_rpgTimeReset c)) (\<lambda>d. Inr (q\<lparr>mlx := (mlx q)\<lparr>m_rpTimer := Some (h_now e + d)\<rparr>\<rparr>))"

definition CheckRateDecreaseMlx :: "hwcfg \<Rightarrow> hwenv \<Rightarrow> RdmaQueuePair \<Rightarrow> RdmaQueuePair res" where
  "CheckRateDecreaseMlx c e q =
     bindr (ScheduleDecreaseRateMlx c e 0 q) (\<lambda>q.
     if m_decrease_cnp_arrived (mlx q) then
       let clamp = (m_EcnClampTgtRate c \<or> m_rpTimeStage (mlx q) \<noteq> 0);
           q = (if clamp then q\<lparr>mlx := (mlx q)\<lparr>m_targetRate := m_rate q\<rparr>\<rparr> else q) in
       bindr (fdiv (mlx_alpha (mlx q)) 2) (\<lambda>a.
       bindr (DataRate_mult (m_rate q) (fsub 1 a)) (\<lambda>r.
       setRpTimer c e (q\<lparr>m_rate := max (m_minRate c) r,
         mlx := (mlx q)\<lparr>m_rpTimeStage := 0, m_decrease_cnp_arrived := False\<rparr>\<rparr>)))
     else Inr q)"

definition FastRecoveryMlx :: "RdmaQueuePair \<Rightarrow> RdmaQueuePair res" where
  "FastRecoveryMlx q =
     bindr (DataRate_div (m_rate q) 2) (\<lambda>a.
     bindr (DataRate_div (m_targetRate (mlx q)) 2) (\<lambda>b.
     Inr (q\<lparr>m_rate := DataRate_plus a b\<rparr>)))"

definition increaseMlx :: "DataRate \<Rightarrow> DataRate \<Rightarrow> RdmaQueuePair \<Rightarrow> RdmaQueuePair res" where
  "increaseMlx step bps q =
     (let t = DataRate_plus (m_targetRate (mlx q)) step;
          t = (if t > bps then bps else t);
          q = q\<lparr>mlx := (mlx q)\<lparr>m_targetRate := t\<rparr>\<rparr> in
      bindr (DataRate_div (m_rate q) 2) (\<lambda>a.
      bindr (DataRate_div (m_targetRate (mlx q)) 2) (\<lambda>b.
      Inr (q\<lparr>m_rate := DataRate_plus a b\<rparr>))))"

definition ActiveIncreaseMlx :: "hwcfg \<Rightarrow> DataRate \<Rightarrow> RdmaQueuePair \<Rightarrow> RdmaQueuePair res" where
  "ActiveIncreaseMlx c bps q = increaseMlx (m_rai c) bps q"

definition HyperIncreaseMlx :: "hwcfg \<Rightarrow> DataRate \<Rightarrow> RdmaQueuePair \<Rightarrow> RdmaQueuePair res" where
  "HyperIncreaseMlx c bps q = increaseMlx (m_rhai c) bps q"

definition RateIncEventMlx :: "hwcfg \<Rightarrow> DataRate \<Rightarrow> RdmaQueuePair \<Rightarrow> RdmaQueuePair res" where
  "RateIncEventMlx c bps q =
     (if m_rpTimeStage (mlx q) < m_rpgThreshold c then FastRecoveryMlx q
      else if m_rpTimeStage (mlx q) = m_rpgThreshold c then ActiveIncreaseMlx c bps q
      else HyperIncreaseMlx c bps q)"

definition RateIncEventTimerMlx :: "hwcfg \<Rightarrow> hwenv \<Rightarrow> DataRate \<Rightarrow> RdmaQueuePair \<Rightarrow> RdmaQueuePair res" where
  "RateIncEventTimerMlx c e bps q =
     bindr (setRpTimer c e q) (\<lambda>q.
     bindr (RateIncEventMlx c bps q) (\<lambda>q.
     Inr (q\<lparr>mlx := (mlx q)\<lparr>m_rpTimeStage := m_rpTimeStage (mlx q) + 1\<rparr>\<rparr>)))"

subsection \<open>HPCC\<close>

text \<open>One hop of the feedback: its utilisation, and the state with the report stored.\<close>

record hpAcc =
  a_hp :: hp_state
  a_U :: double
  a_dt :: u64
  a_updated :: "nat \<Rightarrow> bool"

definition hopTxRate :: "u32 \<Rightarrow> u64 \<Rightarrow> u64 \<Rightarrow> double res" where
  "hopTxRate multi new old =
     fdiv (u64_to_double (GetBytesDelta multi new old * 8)) (fmul (u64_to_double (GetTimeDelta new old)) nano)"

definition hopUtil :: "u32 \<Rightarrow> RdmaQueuePair \<Rightarrow> u64 \<Rightarrow> u64 \<Rightarrow> double res" where
  "hopUtil multi qp new old =
     (let line = u64_to_double (GetLineRate new) in
      bindr (hopTxRate multi new old) (\<lambda>txRate.
      bindr (fdiv txRate line) (\<lambda>a.
      bindr (fdiv (fmul (u32_to_double (min (GetQlen multi new) (GetQlen multi old))) (u64_to_double (m_max_rate qp))) line) (\<lambda>b.
      bindr (fdiv b (u32_to_double (m_win qp))) (\<lambda>b.
      Inr (fadd a b))))))"

text \<open>The exponential average over the base round-trip time.\<close>

definition ewma :: "u64 \<Rightarrow> double \<Rightarrow> double \<Rightarrow> u64 \<Rightarrow> double res" where
  "ewma baseRtt old new dt =
     fdiv (fadd (fmul old (u64_to_double (baseRtt - dt))) (fmul new (u64_to_double dt))) (u64_to_double baseRtt)"

definition hpHop :: "hwcfg \<Rightarrow> hwenv \<Rightarrow> bool \<Rightarrow> IntHeader \<Rightarrow> RdmaQueuePair \<Rightarrow> nat \<Rightarrow> hpAcc \<Rightarrow> hpAcc res" where
  "hpHop c e fast ih qp i a =
     (let new = hop ih ! i; old = hp_hop (a_hp a) ! i in
      if m_sampleFeedback c \<and> GetQlen (h_multi e) new = 0 \<and> fast then Inr a
      else
        let tau = GetTimeDelta new old; a = a\<lparr>a_updated := (a_updated a)(i := True)\<rparr> in
        bindr (hopUtil (h_multi e) qp new old) (\<lambda>u.
        bindr (if \<not> m_multipleRate c then
                 Inr (if u > a_U a then a\<lparr>a_U := u, a_dt := tau\<rparr> else a)
               else
                 let tau = (if tau > m_baseRtt qp then m_baseRtt qp else tau); hs = hopState (a_hp a) ! i in
                 bindr (ewma (m_baseRtt qp) (hs_u hs) u tau) (\<lambda>v.
                 Inr (a\<lparr>a_hp := (a_hp a)\<lparr>hopState := (hopState (a_hp a))[i := hs\<lparr>hs_u := v\<rparr>]\<rparr>\<rparr>)))
          (\<lambda>a. Inr (a\<lparr>a_hp := (a_hp a)\<lparr>hp_hop := (hp_hop (a_hp a))[i := new]\<rparr>\<rparr>))))"

text \<open>The multiplicative or additive step of one rate; the new rate is clamped.\<close>

definition hpStep :: "hwcfg \<Rightarrow> DataRate \<Rightarrow> double \<Rightarrow> DataRate \<Rightarrow> u32 \<Rightarrow> (DataRate \<times> u32) res" where
  "hpStep c maxRate max_c rate stage =
     (if max_c \<ge> 1 \<or> stage \<ge> m_miThresh c then
        bindr (DataRate_div rate max_c) (\<lambda>r.
        Inr (clampRate (m_minRate c) maxRate (DataRate_plus r (m_rai c)), 0))
      else Inr (clampRate (m_minRate c) maxRate (DataRate_plus rate (m_rai c)), stage + 1))"

definition capToRtt :: "u64 \<Rightarrow> u64 \<Rightarrow> u64 res" where
  "capToRtt rtt dt = (if u64_to_double dt > u64_to_double rtt then trunc_u64 (u64_to_double rtt) else Inr dt)"

text \<open>Per-hop rates: the new rate of the flow is the smallest rate of a hop.\<close>

definition hpHopRate ::
    "hwcfg \<Rightarrow> RdmaQueuePair \<Rightarrow> (nat \<Rightarrow> bool) \<Rightarrow> nat \<Rightarrow> DataRate \<times> (nat \<Rightarrow> DataRate \<times> u32) \<Rightarrow>
     (DataRate \<times> (nat \<Rightarrow> DataRate \<times> u32)) res" where
  "hpHopRate c qp updated i = (\<lambda>(new_rate, per_hop).
     let hs = hopState (hp qp) ! i in
     if updated i then
       bindr (fdiv (hs_u hs) (m_targetUtil c)) (\<lambda>cc.
       bindr (hpStep c (m_max_rate qp) cc (hs_Rc hs) (hs_incStage hs)) (\<lambda>(r, st).
       Inr (if r < new_rate then r else new_rate, per_hop(i := (r, st)))))
     else Inr (if hs_Rc hs < new_rate then hs_Rc hs else new_rate, per_hop))"

definition storeHops :: "nat \<Rightarrow> IntHeader \<Rightarrow> u64 list \<Rightarrow> u64 list" where
  "storeHops n ih hs = take n (hop ih) @ drop n hs"

definition storePerHop :: "nat \<Rightarrow> (nat \<Rightarrow> bool) \<Rightarrow> (nat \<Rightarrow> DataRate \<times> u32) \<Rightarrow> hop_state list \<Rightarrow> hop_state list" where
  "storePerHop n updated per_hop hs =
     map (\<lambda>i. if i < n \<and> updated i then (hs ! i)\<lparr>hs_Rc := fst (per_hop i), hs_incStage := snd (per_hop i)\<rparr> else hs ! i)
       [0..<length hs]"

definition bumpSeq :: "bool \<Rightarrow> u32 \<Rightarrow> u32 \<Rightarrow> u32" where
  "bumpSeq fast next_seq l = (if \<not> fast \<and> next_seq > l then next_seq else l)"

text \<open>
  With per-hop rates the code writes the uninitialised \<^verbatim>\<open>new_incStage\<close> to
  \<^verbatim>\<open>hp.m_incStage\<close>; the value is \<open>h_uninit\<close>.
\<close>

definition hpNewRate ::
    "hwcfg \<Rightarrow> hwenv \<Rightarrow> nat \<Rightarrow> hpAcc \<Rightarrow> bool \<Rightarrow> RdmaQueuePair \<Rightarrow>
     (RdmaQueuePair \<times> DataRate \<times> u32 \<times> (nat \<Rightarrow> DataRate \<times> u32)) res" where
  "hpNewRate c e n a any qp =
     (if \<not> m_multipleRate c then
        (if any then
           bindr (capToRtt (m_baseRtt qp) (a_dt a)) (\<lambda>dt.
           bindr (ewma (m_baseRtt qp) (hp_u (hp qp)) (a_U a) dt) (\<lambda>u.
           let qp = qp\<lparr>hp := (hp qp)\<lparr>hp_u := u\<rparr>\<rparr> in
           bindr (fdiv u (m_targetUtil c)) (\<lambda>max_c.
           bindr (hpStep c (m_max_rate qp) max_c (hp_curRate (hp qp)) (hp_incStage (hp qp))) (\<lambda>(r, st).
           Inr (qp, r, st, (\<lambda>_. (0, 0)))))))
         else Inr (qp, 0, 0, (\<lambda>_. (0, 0))))
      else
        bindr (loopr (hpHopRate c qp (a_updated a)) [0..<n] (m_max_rate qp, \<lambda>_. (0, 0))) (\<lambda>(r, ph).
        Inr (qp, r, h_uninit e, ph)))"

definition hpCommit ::
    "hwcfg \<Rightarrow> hwenv \<Rightarrow> bool \<Rightarrow> nat \<Rightarrow> hpAcc \<Rightarrow> bool \<Rightarrow> DataRate \<Rightarrow> u32 \<Rightarrow> (nat \<Rightarrow> DataRate \<times> u32) \<Rightarrow> qpdev \<Rightarrow> qpdev res" where
  "hpCommit c e fast n a any new_rate new_incStage per_hop s =
     bindr (if any then ChangeRate e new_rate s else Inr s) (\<lambda>(qp, ns).
     let qp = (if \<not> fast \<and> any then qp\<lparr>hp := (hp qp)\<lparr>hp_curRate := new_rate, hp_incStage := new_incStage\<rparr>\<rparr> else qp);
         qp = (if \<not> fast \<and> m_multipleRate c
               then qp\<lparr>hp := (hp qp)\<lparr>hopState := storePerHop n (a_updated a) per_hop (hopState (hp qp))\<rparr>\<rparr> else qp)
     in Inr (qp, ns))"

definition hpReact :: "hwcfg \<Rightarrow> hwenv \<Rightarrow> IntHeader \<Rightarrow> bool \<Rightarrow> qpdev \<Rightarrow> qpdev res" where
  "hpReact c e ih fast = (\<lambda>(qp, ns).
     let n = unat (nhop ih) in
     bindr (loopr (hpHop c e fast ih qp) [0..<n] \<lparr>a_hp = hp qp, a_U = 0, a_dt = 0, a_updated = (\<lambda>_. False)\<rparr>) (\<lambda>a.
     let any = list_ex (a_updated a) [0..<n] in
     bindr (hpNewRate c e n a any (qp\<lparr>hp := a_hp a\<rparr>)) (\<lambda>(qp, new_rate, new_incStage, per_hop).
     hpCommit c e fast n a any new_rate new_incStage per_hop (qp, ns))))"

definition UpdateRateHp :: "hwcfg \<Rightarrow> hwenv \<Rightarrow> IntHeader \<Rightarrow> bool \<Rightarrow> qpdev \<Rightarrow> qpdev res" where
  "UpdateRateHp c e ih fast = (\<lambda>(qp, ns).
     let next_seq = ucast (snd_nxt qp); n = unat (nhop ih) in
     if hp_lastUpdateSeq (hp qp) = 0 then
       (if n > maxHop then Inl Assert
        else Inr (qp\<lparr>hp := (hp qp)\<lparr>hp_lastUpdateSeq := next_seq, hp_hop := storeHops n ih (hp_hop (hp qp))\<rparr>\<rparr>, ns))
     else
       bindr (if n \<le> maxHop then hpReact c e ih fast (qp, ns) else Inr (qp, ns)) (\<lambda>(qp, ns).
       Inr (qp\<lparr>hp := (hp qp)\<lparr>hp_lastUpdateSeq := bumpSeq fast next_seq (hp_lastUpdateSeq (hp qp))\<rparr>\<rparr>, ns)))"

definition FastReactHp :: "hwcfg \<Rightarrow> hwenv \<Rightarrow> IntHeader \<Rightarrow> qpdev \<Rightarrow> qpdev res" where
  "FastReactHp c e ih s = (if m_fast_react c then UpdateRateHp c e ih True s else Inr s)"

subsection \<open>PowerTCP\<close>

definition powerUtil :: "hwenv \<Rightarrow> RdmaQueuePair \<Rightarrow> u64 \<Rightarrow> u64 \<Rightarrow> double res" where
  "powerUtil e qp new old =
     (let rtt = u64_to_double (m_baseRtt qp); line = u64_to_double (GetLineRate new) in
      bindr (fdiv (fmul (u64_to_double (GetBytesDelta (h_multi e) new old)) 8)
                  (fmul (u64_to_double (GetTimeDelta new old)) nano)) (\<lambda>rxRate.
      let pw = fmul rxRate (fadd (fmul (u32_to_double (GetQlen (h_multi e) new)) 8) (fmul line (fmul rtt nano)))
      in fdiv pw (fmul line (fmul (u64_to_double (GetLineRate new * m_baseRtt qp)) nano))))"

definition delayUtil :: "RdmaQueuePair \<Rightarrow> double \<Rightarrow> double \<Rightarrow> double res" where
  "delayUtil qp rtt completion =
     bindr (fdiv (fsub rtt (prevRtt qp)) (fsub completion (prevCompletion qp))) (\<lambda>g.
     let A = fadd g 1; A = (if A < 1 / 2 then 1 / 2 else A)
     in fdiv (fmul A rtt) (fmul (rnd (105 / 100)) (u64_to_double (m_baseRtt qp))))"

definition powerHop ::
    "hwcfg \<Rightarrow> hwenv \<Rightarrow> bool \<Rightarrow> IntHeader \<Rightarrow> RdmaQueuePair \<Rightarrow> double \<Rightarrow> double \<Rightarrow> nat \<Rightarrow> hpAcc \<Rightarrow> hpAcc res" where
  "powerHop c e fast ih qp rtt completion i a =
     (let new = hop ih ! i; old = hp_hop (a_hp a) ! i in
      if m_sampleFeedback c \<and> GetQlen (h_multi e) new = 0 \<and> fast then Inr a
      else
        let a = a\<lparr>a_updated := (a_updated a)(i := True)\<rparr> in
        bindr (if \<not> PowerTCPdelay c then powerUtil e qp new old else delayUtil qp rtt completion) (\<lambda>u.
        bindr (if u > a_U a then
                 bindr (if PowerTCPdelay c then trunc_u64 (fsub completion (prevCompletion qp))
                        else Inr (GetTimeDelta new old)) (\<lambda>dt. Inr (a\<lparr>a_U := u, a_dt := dt\<rparr>))
               else Inr a)
          (\<lambda>a. Inr (a\<lparr>a_hp := (a_hp a)\<lparr>hp_hop := (hp_hop (a_hp a))[i := new]\<rparr>\<rparr>))))"

text \<open>\<open>w * (cur / max_c + 150 Mbit/s) + (1 - w) * cur\<close>, each product truncated.\<close>

definition powerRate :: "double \<Rightarrow> double \<Rightarrow> double \<Rightarrow> DataRate \<Rightarrow> DataRate res" where
  "powerRate w v max_c cur =
     bindr (DataRate_div cur max_c) (\<lambda>r.
     bindr (DataRate_mult (DataRate_plus r 150000000) w) (\<lambda>a.
     bindr (DataRate_mult cur v) (\<lambda>b. Inr (DataRate_plus a b))))"

definition takeSample :: "hwcfg \<Rightarrow> hwenv \<Rightarrow> u32 \<Rightarrow> RdmaQueuePair \<Rightarrow> (RdmaQueuePair \<times> double) res" where
  "takeSample c e seq qp =
     (case rates qp seq of
        None \<Rightarrow> Inr (qp, u64_to_double (m_baseRtt qp))
      | Some t \<Rightarrow>
          let rtt = fsub (nowDouble e) t; qp = qp\<lparr>rates := (rates qp)(seq := None)\<rparr> in
          if PowerTCPdelay c then
            bindr (trunc_u64 rtt) (\<lambda>w. Inr (qp\<lparr>m_baseRtt := min w (m_baseRtt qp)\<rparr>, rtt))
          else Inr (qp, rtt))"

definition powerNewRate :: "hwcfg \<Rightarrow> hpAcc \<Rightarrow> RdmaQueuePair \<Rightarrow> (RdmaQueuePair \<times> DataRate) res" where
  "powerNewRate c a qp =
     bindr (capToRtt (m_baseRtt qp) (a_dt a)) (\<lambda>dt.
     let U = (if a_U a < 0 then hp_u (hp qp) else a_U a); rttD = u64_to_double (m_baseRtt qp) in
     bindr (fdiv (fadd (fmul (hp_u (hp qp)) (fsub rttD (u64_to_double dt))) (fmul U (u64_to_double dt))) rttD) (\<lambda>u.
     let qp = qp\<lparr>hp := (hp qp)\<lparr>hp_u := u\<rparr>\<rparr> in
     bindr (if \<not> PowerTCPdelay c then
              bindr (fdiv u (m_targetUtil c)) (\<lambda>max_c.
              powerRate (rnd (9 / 10)) (rnd (1 / 10)) max_c (hp_curRate (hp qp)))
            else powerRate (rnd (7 / 10)) (rnd (3 / 10)) u (hp_curRate (hp qp))) (\<lambda>r.
     Inr (qp, clampRate (m_minRate c) (m_max_rate qp) r))))"

definition powerReact :: "hwcfg \<Rightarrow> hwenv \<Rightarrow> IntHeader \<Rightarrow> bool \<Rightarrow> double \<Rightarrow> qpdev \<Rightarrow> qpdev res" where
  "powerReact c e ih fast rtt = (\<lambda>(qp, ns).
     let n = unat (nhop ih); completion = nowDouble e in
     bindr (loopr (powerHop c e fast ih qp rtt completion) [0..<n]
              \<lparr>a_hp = hp qp, a_U = 0, a_dt = 0, a_updated = (\<lambda>_. False)\<rparr>) (\<lambda>a.
     let any = list_ex (a_updated a) [0..<n]; qp = qp\<lparr>hp := a_hp a\<rparr> in
     bindr (if any then powerNewRate c a qp else Inr (qp, 0)) (\<lambda>(qp, new_rate).
     let qp = qp\<lparr>prevRtt := rtt, prevCompletion := completion\<rparr> in
     bindr (if any then ChangeRate e new_rate (qp, ns) else Inr (qp, ns)) (\<lambda>(qp, ns).
     Inr (if \<not> fast \<and> any
          then qp\<lparr>hp := (hp qp)\<lparr>hp_curRate := new_rate, hp_incStage := h_uninit e\<rparr>\<rparr> else qp, ns)))))"

definition UpdateRatePower :: "hwcfg \<Rightarrow> hwenv \<Rightarrow> u32 \<Rightarrow> IntHeader \<Rightarrow> bool \<Rightarrow> qpdev \<Rightarrow> qpdev res" where
  "UpdateRatePower c e seq ih fast = (\<lambda>(qp, ns).
     let next_seq = ucast (snd_nxt qp); n = unat (nhop ih) in
     bindr (takeSample c e seq qp) (\<lambda>(qp, rtt).
     if hp_lastUpdateSeq (hp qp) = 0 \<and> \<not> PowerTCPdelay c then
       (if n > maxHop then Inl Assert
        else Inr (qp\<lparr>prevRtt := rtt, prevCompletion := nowDouble e,
               hp := (hp qp)\<lparr>hp_lastUpdateSeq := next_seq, hp_hop := storeHops n ih (hp_hop (hp qp))\<rparr>\<rparr>, ns))
     else
       bindr (if n \<le> maxHop then powerReact c e ih fast rtt (qp, ns) else Inr (qp, ns)) (\<lambda>(qp, ns).
       Inr (qp\<lparr>hp := (hp qp)\<lparr>hp_lastUpdateSeq := bumpSeq fast next_seq (hp_lastUpdateSeq (hp qp))\<rparr>\<rparr>, ns))))"

definition FastReactPower :: "hwcfg \<Rightarrow> hwenv \<Rightarrow> u32 \<Rightarrow> IntHeader \<Rightarrow> qpdev \<Rightarrow> qpdev res" where
  "FastReactPower c e seq ih s = (if m_fast_react c then UpdateRatePower c e seq ih True s else Inr s)"

definition HandleAckHp :: "hwcfg \<Rightarrow> hwenv \<Rightarrow> u32 \<Rightarrow> IntHeader \<Rightarrow> qpdev \<Rightarrow> qpdev res" where
  "HandleAckHp c e ack_seq ih s =
     (if ack_seq > hp_lastUpdateSeq (hp (fst s)) then
        (if PowerTCPEnabled c then UpdateRatePower c e ack_seq ih False s else UpdateRateHp c e ih False s)
      else if PowerTCPEnabled c then FastReactPower c e ack_seq ih s else FastReactHp c e ih s)"

subsection \<open>TIMELY\<close>

text \<open>Increase (\<open>None\<close>), or decrease by a factor.\<close>

definition timelyDecision :: "hwcfg \<Rightarrow> u64 \<Rightarrow> double \<Rightarrow> double option res" where
  "timelyDecision c rtt gradient =
     (if rtt < m_tmly_TLow c then Inr None
      else if rtt > m_tmly_THigh c then
        bindr (fdiv (u64_to_double (m_tmly_THigh c)) (u64_to_double rtt)) (\<lambda>x.
        Inr (Some (fsub 1 (fmul (m_tmly_beta c) (fsub 1 x)))))
      else if gradient \<le> 0 then Inr None
      else let k = fsub 1 (fmul (m_tmly_beta c) gradient) in Inr (Some (if k < 0 then 0 else k)))"

definition timelyApply :: "hwcfg \<Rightarrow> bool \<Rightarrow> double \<Rightarrow> double option \<Rightarrow> RdmaQueuePair \<Rightarrow> RdmaQueuePair res" where
  "timelyApply c us rtt_diff dec qp =
     (case dec of
        None \<Rightarrow>
          let r = DataRate_plus (tmly_curRate (tmly qp)) (if tmly_incStage (tmly qp) < 5 then m_rai c else m_rhai c);
              r = (if r > m_max_rate qp then m_max_rate qp else r);
              qp = qp\<lparr>m_rate := r\<rparr>
          in Inr (if \<not> us then qp\<lparr>tmly := (tmly qp)\<lparr>tmly_curRate := r, tmly_incStage := tmly_incStage (tmly qp) + 1,
                    rttDiff := rtt_diff\<rparr>\<rparr> else qp)
      | Some k \<Rightarrow>
          bindr (DataRate_mult (tmly_curRate (tmly qp)) k) (\<lambda>r.
          let r = max (m_minRate c) r; qp = qp\<lparr>m_rate := r\<rparr>
          in Inr (if \<not> us then qp\<lparr>tmly := (tmly qp)\<lparr>tmly_curRate := r, tmly_incStage := 0,
                    rttDiff := rtt_diff\<rparr>\<rparr> else qp)))"

definition timelyReact :: "hwcfg \<Rightarrow> u64 \<Rightarrow> bool \<Rightarrow> RdmaQueuePair \<Rightarrow> RdmaQueuePair res" where
  "timelyReact c rtt us qp =
     (let new_diff = sint rtt - sint (lastRtt (tmly qp));
          rtt_diff = fadd (fmul (fsub 1 (m_tmly_alpha c)) (rttDiff (tmly qp)))
                          (fmul (m_tmly_alpha c) (rnd (of_int new_diff))) in
      bindr (fdiv rtt_diff (u64_to_double (m_tmly_minRtt c))) (\<lambda>gradient.
      bindr (timelyDecision c rtt gradient) (\<lambda>dec.
      timelyApply c us rtt_diff dec qp)))"

definition UpdateRateTimely :: "hwcfg \<Rightarrow> hwenv \<Rightarrow> IntHeader \<Rightarrow> bool \<Rightarrow> RdmaQueuePair \<Rightarrow> RdmaQueuePair res" where
  "UpdateRateTimely c e ih us qp =
     (let next_seq = ucast (snd_nxt qp); rtt = word_of_int (h_now e) - hop ih ! 0 in
      bindr (if tmly_lastUpdateSeq (tmly qp) \<noteq> 0 then timelyReact c rtt us qp else Inr qp) (\<lambda>qp.
      Inr (if \<not> us \<and> next_seq > tmly_lastUpdateSeq (tmly qp)
           then qp\<lparr>tmly := (tmly qp)\<lparr>tmly_lastUpdateSeq := next_seq, lastRtt := rtt\<rparr>\<rparr> else qp)))"

definition FastReactTimely :: "RdmaQueuePair \<Rightarrow> RdmaQueuePair" where
  "FastReactTimely qp = qp"

definition HandleAckTimely :: "hwcfg \<Rightarrow> hwenv \<Rightarrow> u32 \<Rightarrow> IntHeader \<Rightarrow> RdmaQueuePair \<Rightarrow> RdmaQueuePair res" where
  "HandleAckTimely c e ack_seq ih qp =
     (if ack_seq > tmly_lastUpdateSeq (tmly qp) then UpdateRateTimely c e ih False qp
      else Inr (FastReactTimely qp))"

subsection \<open>DCTCP\<close>

definition batchSize :: "u64 \<Rightarrow> u32 \<Rightarrow> u32 res" where
  "batchSize n mtu = (if mtu = 0 then Inl NotFinite else Inr (ucast (n div ucast mtu + 1)))"

definition dctcpAlpha :: "hwcfg \<Rightarrow> u32 \<Rightarrow> RdmaQueuePair \<Rightarrow> dctcp_state \<Rightarrow> dctcp_state res" where
  "dctcpAlpha c ack_seq qp d =
     (if dctcp_lastUpdateSeq d = 0 then
        bindr (batchSize (snd_nxt qp) (m_mtu c)) (\<lambda>b.
        Inr (d\<lparr>dctcp_lastUpdateSeq := ucast (snd_nxt qp), m_batchSizeOfAlpha := b\<rparr>))
      else
        bindr (fdiv (u32_to_double (m_ecnCnt d)) (u32_to_double (m_batchSizeOfAlpha d))) (\<lambda>f.
        let frac = min 1 f; a = fadd (fmul (fsub 1 (m_g c)) (dctcp_alpha d)) (fmul (m_g c) frac) in
        bindr (batchSize (snd_nxt qp - ucast ack_seq) (m_mtu c)) (\<lambda>b.
        Inr (d\<lparr>dctcp_alpha := a, dctcp_lastUpdateSeq := ucast (snd_nxt qp), m_ecnCnt := 0, m_batchSizeOfAlpha := b\<rparr>))))"

definition HandleAckDctcp :: "hwcfg \<Rightarrow> u32 \<Rightarrow> bool \<Rightarrow> RdmaQueuePair \<Rightarrow> RdmaQueuePair res" where
  "HandleAckDctcp c ack_seq cnp qp =
     (let d = (dctcp qp)\<lparr>m_ecnCnt := m_ecnCnt (dctcp qp) + (if cnp then 1 else 0)\<rparr>;
          new_batch = (ack_seq > dctcp_lastUpdateSeq d) in
      bindr (if new_batch then dctcpAlpha c ack_seq qp d else Inr d) (\<lambda>d.
      let d = (if m_caState d = 1 \<and> ack_seq > m_highSeq d then d\<lparr>m_caState := 0\<rparr> else d) in
      bindr (if cnp \<and> m_caState d = 0 then
               bindr (fdiv (dctcp_alpha d) 2) (\<lambda>a.
               bindr (DataRate_mult (m_rate qp) (fsub 1 a)) (\<lambda>r.
               Inr (max (m_minRate c) r, d\<lparr>m_caState := 1, m_highSeq := ucast (snd_nxt qp)\<rparr>)))
             else Inr (m_rate qp, d)) (\<lambda>(r, d).
      Inr (qp\<lparr>m_rate := (if m_caState d = 0 \<and> new_batch then min (m_max_rate qp) (DataRate_plus r (m_dctcp_rai c)) else r),
             dctcp := d\<rparr>))))"

subsection \<open>HPCC-PINT\<close>

definition SetPintSmplThresh :: "double \<Rightarrow> hwcfg \<Rightarrow> hwcfg res" where
  "SetPintSmplThresh p c = bindr (trunc_u32 (fmul 65536 p)) (\<lambda>t. Inr (c\<lparr>pint_smpl_thresh := t\<rparr>))"

definition UpdateRateHpPint :: "hwcfg \<Rightarrow> hwenv \<Rightarrow> IntHeader \<Rightarrow> bool \<Rightarrow> qpdev \<Rightarrow> qpdev res" where
  "UpdateRateHpPint c e ih fast = (\<lambda>(qp, ns).
     let next_seq = ucast (snd_nxt qp) in
     if pint_lastUpdateSeq (hpccPint qp) = 0 then
       Inr (qp\<lparr>hpccPint := (hpccPint qp)\<lparr>pint_lastUpdateSeq := next_seq\<rparr>\<rparr>, ns)
     else
       bindr (decode_u (h_libm e) (h_pint e) (GetPower (h_mode e) (h_pint_bytes e) ih)) (\<lambda>U.
       bindr (fdiv U (m_targetUtil c)) (\<lambda>max_c.
       bindr (hpStep c (m_max_rate qp) max_c (pint_curRate (hpccPint qp)) (pint_incStage (hpccPint qp))) (\<lambda>(new_rate, st).
       bindr (ChangeRate e new_rate (qp, ns)) (\<lambda>(qp, ns).
       let qp = (if \<not> fast then qp\<lparr>hpccPint := (hpccPint qp)\<lparr>pint_curRate := new_rate, pint_incStage := st\<rparr>\<rparr> else qp)
       in Inr (qp\<lparr>hpccPint := (hpccPint qp)\<lparr>pint_lastUpdateSeq := bumpSeq fast next_seq (pint_lastUpdateSeq (hpccPint qp))\<rparr>\<rparr>, ns))))))"

definition HandleAckHpPint :: "hwcfg \<Rightarrow> hwenv \<Rightarrow> u32 \<Rightarrow> IntHeader \<Rightarrow> qpdev \<Rightarrow> qpdev res" where
  "HandleAckHpPint c e ack_seq ih s =
     (if h_rand e mod 65536 \<ge> int (unat (pint_smpl_thresh c)) then Inr s
      else if ack_seq > pint_lastUpdateSeq (hpccPint (fst s)) then UpdateRateHpPint c e ih False s
      else UpdateRateHpPint c e ih True s)"

text \<open>What \<^verbatim>\<open>ReceiveAck\<close> does about the rate, by congestion-control mode.\<close>

definition onQp :: "(RdmaQueuePair \<Rightarrow> RdmaQueuePair res) \<Rightarrow> qpdev \<Rightarrow> qpdev res" where
  "onQp f = (\<lambda>(qp, ns). bindr (f qp) (\<lambda>qp. Inr (qp, ns)))"

definition rateControl :: "hwcfg \<Rightarrow> hwenv \<Rightarrow> u32 \<Rightarrow> bool \<Rightarrow> IntHeader \<Rightarrow> qpdev \<Rightarrow> qpdev res" where
  "rateControl c e seq cnp ih s =
     bindr (if cnp \<and> m_cc_mode c = 1 then onQp (cnp_received_mlx c e) s else Inr s) (\<lambda>s.
     if m_cc_mode c = 3 then HandleAckHp c e seq ih s
     else if m_cc_mode c = 7 then onQp (HandleAckTimely c e seq ih) s
     else if m_cc_mode c = 8 then onQp (HandleAckDctcp c seq cnp) s
     else if m_cc_mode c = 10 then HandleAckHpPint c e seq ih s
     else Inr s)"

text \<open>The rates of a new queue pair, all at the line rate of its card.\<close>

definition initCc :: "hwcfg \<Rightarrow> DataRate \<Rightarrow> RdmaQueuePair \<Rightarrow> RdmaQueuePair" where
  "initCc c bps qp =
     (let qp = qp\<lparr>m_rate := bps\<rparr> in
      if m_cc_mode c = 1 then qp\<lparr>mlx := (mlx qp)\<lparr>m_targetRate := bps\<rparr>\<rparr>
      else if m_cc_mode c = 3 then
        qp\<lparr>hp := (hp qp)\<lparr>hp_curRate := bps,
             hopState := (if m_multipleRate c then map (\<lambda>h. h\<lparr>hs_Rc := bps\<rparr>) (hopState (hp qp)) else hopState (hp qp))\<rparr>\<rparr>
      else if m_cc_mode c = 7 then qp\<lparr>tmly := (tmly qp)\<lparr>tmly_curRate := bps\<rparr>\<rparr>
      else if m_cc_mode c = 10 then qp\<lparr>hpccPint := (hpccPint qp)\<lparr>pint_curRate := bps\<rparr>\<rparr>
      else qp)"

subsection \<open>A new queue pair\<close>

text \<open>
  What \<^verbatim>\<open>AddQueuePair\<close> does to the queue pair it creates: \<open>makeQp\<close> up to the entry in the group of
  its card, \<open>initQp\<close> afterwards, when the data rate of the card is read.  A window that is asked for
  is replaced by the bandwidth-delay product of the card.
\<close>

text \<open>Bandwidth-delay product in bytes, as a double.\<close>

definition bdpOf :: "DataRate \<Rightarrow> u64 \<Rightarrow> double res" where
  "bdpOf bps baseRtt = fdiv (fmul (u64_to_double (bps * baseRtt)) nano) 8"

definition makeQp ::
    "hwcfg \<Rightarrow> hwenv \<Rightarrow> qpJunk \<Rightarrow> u64 \<Rightarrow> u16 \<Rightarrow> u32 \<Rightarrow> u32 \<Rightarrow> u16 \<Rightarrow> u16 \<Rightarrow> u32 \<Rightarrow> u64 \<Rightarrow> time \<Rightarrow> RdmaQueuePair" where
  "makeQp c e j sz pg s d sp dp win baseRtt stop =
     (SetVarWin (hw_var_win c) (SetBaseRtt baseRtt (SetWin win (SetSize sz (RdmaQueuePair j (h_now e) pg s d sp dp)))))
       \<lparr>stopTime := stop, incastFlow := (if stop = MaximumSimulationTime - 1000 then 1 else 0)\<rparr>"

definition initWin :: "u32 \<Rightarrow> DataRate \<Rightarrow> u64 \<Rightarrow> RdmaQueuePair \<Rightarrow> RdmaQueuePair res" where
  "initWin win bps baseRtt qp =
     (if win \<noteq> 0 then bindr (bdpOf bps baseRtt) (\<lambda>b. bindr (trunc_u32 b) (\<lambda>w. Inr (SetWin w qp))) else Inr qp)"

definition initQp :: "hwcfg \<Rightarrow> DataRate \<Rightarrow> u32 \<Rightarrow> u64 \<Rightarrow> RdmaQueuePair \<Rightarrow> RdmaQueuePair res" where
  "initQp c bps win baseRtt qp =
     bindr (initWin win bps baseRtt (qp\<lparr>powerEnabled := PowerTCPEnabled c\<rparr>)) (\<lambda>qp.
     Inr ((initCc c bps qp)\<lparr>m_max_rate := bps\<rparr>))"

end
