(* ===== verification/Rdma_Rate_Bounds.thy ===== *)
theory Rdma_Rate_Bounds
  imports Rdma_Rate
begin

text \<open>
  Every congestion-control algorithm keeps the sending rate between the configured minimum and the
  line rate, whatever feedback arrives.  The bounds are those of exact doubles: rates of up to
  \<open>2 ^ 52\<close> bits per second, for which \<^verbatim>\<open>DataRate\<close> arithmetic does not round.
\<close>

subsection \<open>Scaling a rate\<close>

definition small_rate :: "DataRate \<Rightarrow> bool" where
  "small_rate r \<longleftrightarrow> unat r \<le> 2 ^ 52"

lemma small_rate_exact: "small_rate r \<Longrightarrow> u64_to_double r = of_nat (unat r)"
  by (rule u64_to_double_exact) (simp add: small_rate_def)

lemma small_rate_le: "small_rate s \<Longrightarrow> r \<le> s \<Longrightarrow> small_rate r"
  by (simp add: small_rate_def word_le_nat_alt)

lemma trunc_u64_le_nat:
  assumes "trunc_u64 x = Inr w" "x \<le> of_nat n" 
  shows "unat w \<le> n"
proof (cases "0 \<le> x")
  case True
  then show ?thesis using trunc_u64_unat[OF assms(1) True] assms(2) by (simp add: floor_le_iff nat_le_iff)
next
  case False
  then have "w = 0" using assms(1) by (auto simp: trunc_u64_def split: if_splits)
  then show ?thesis by simp
qed

lemma DataRate_mult_le:
  assumes "small_rate d" "k \<le> 1" "DataRate_mult d k = Inr r"
  shows "r \<le> d"
proof -
  have "fmul (u64_to_double d) k \<le> u64_to_double d"
    by (rule fmul_le_left[OF _ u64_to_double_nonneg assms(2)]) (simp add: u64_to_double_def)
  then have "unat r \<le> unat d"
    using assms small_rate_exact[of d] trunc_u64_le_nat by (simp add: DataRate_mult_def)
  then show ?thesis by (simp add: word_le_nat_alt)
qed

lemma DataRate_mult_1:
  assumes "small_rate d"
  shows "DataRate_mult d 1 = Inr d"
proof -
  have "rnd (of_nat (unat d)) = of_nat (unat d)" using assms by (intro rnd_of_nat) (simp add: small_rate_def)
  moreover have "trunc_u64 (of_nat (unat d)) = Inr (of_nat (unat d))" by (rule trunc_u64_of_nat) (rule unat_u64_bound)
  moreover have w: "(of_nat (unat d) :: u64) = d" by simp
  ultimately show ?thesis by (simp only: DataRate_mult_def small_rate_exact[OF assms] fmul_def mult_1_right w)
qed

lemma DataRate_half:
  assumes "small_rate d"
  shows "\<exists>r. DataRate_div d 2 = Inr r \<and> unat r = unat d div 2"
proof -
  let ?n = "unat d"
  have p: "(2 :: rat) powi (-1) = inverse 2" by (simp add: power_int_minus)
  have "rnd (of_int (int ?n) * 2 powi (-1)) = of_int (int ?n) * 2 powi (-1)"
  proof (rule rnd_exact)
    have "\<bar>int ?n\<bar> \<le> int (2 ^ 52)" using assms unfolding small_rate_def by (simp only: abs_of_nat of_nat_le_iff)
    then show "\<bar>int ?n\<bar> \<le> 2 ^ 53" by simp
  qed
  then have r: "rnd (of_nat ?n / 2) = of_nat ?n / (2 :: rat)" by (simp only: of_int_of_nat_eq p divide_inverse mult_1_left)
  have "0 \<le> of_nat ?n / (2 :: rat)" "of_nat ?n / (2 :: rat) < 2 ^ 64"
  proof -
    show "0 \<le> of_nat ?n / (2 :: rat)" by (rule divide_nonneg_pos) (rule of_nat_0_le_iff, simp)
    have "(of_nat ?n :: rat) \<le> of_nat (2 ^ 52)" using assms unfolding small_rate_def by (simp only: of_nat_le_iff)
    then show "of_nat ?n / (2 :: rat) < 2 ^ 64" by simp
  qed
  then obtain w where w: "trunc_u64 (of_nat ?n / 2) = Inr w" "unat w = nat \<lfloor>of_nat ?n / (2 :: rat)\<rfloor>"
    using trunc_u64_ok trunc_u64_unat by blast
  have "\<lfloor>of_nat ?n / (2 :: rat)\<rfloor> = int (?n div 2)"
    using floor_divide_of_nat_eq[of ?n 2, where 'a = rat] by (simp only: of_nat_numeral)
  then have "unat w = ?n div 2" using w(2) by (simp only: nat_int)
  moreover have "DataRate_div d 2 = Inr w"
    using w(1) by (simp only: DataRate_div_def fdiv_def small_rate_exact[OF assms] r) simp
  ultimately show ?thesis by blast
qed

subsection \<open>The invariant\<close>

definition rate_cfg_ok :: "hwcfg \<Rightarrow> bool" where
  "rate_cfg_ok c \<longleftrightarrow> even (unat (m_minRate c)) \<and> small_rate (m_rai c) \<and> small_rate (m_rhai c) \<and> small_rate (m_dctcp_rai c)
   \<and> 0 \<le> m_g c \<and> m_g c \<le> 1 \<and> m_rateOnFirstCNP c = 1 \<and> 0 \<le> m_tmly_beta c"

definition rate_in :: "hwcfg \<Rightarrow> RdmaQueuePair \<Rightarrow> DataRate \<Rightarrow> bool" where
  "rate_in c qp r \<longleftrightarrow> m_minRate c \<le> r \<and> r \<le> m_max_rate qp"

definition rates_ok :: "hwcfg \<Rightarrow> DataRate \<Rightarrow> RdmaQueuePair \<Rightarrow> bool" where
  "rates_ok c hi qp \<longleftrightarrow> hi = m_max_rate qp \<and> small_rate (m_max_rate qp) \<and> rate_in c qp (m_rate qp)
   \<and> (m_cc_mode c = 1 \<longrightarrow> rate_in c qp (m_targetRate (mlx qp)) \<and> 0 \<le> mlx_alpha (mlx qp))
   \<and> (m_cc_mode c = 3 \<longrightarrow> length (hopState (hp qp)) = maxHop
        \<and> (m_multipleRate c \<longrightarrow> (\<forall>r\<in>set (map hs_Rc (hopState (hp qp))). rate_in c qp r)))
   \<and> (m_cc_mode c = 7 \<longrightarrow> rate_in c qp (tmly_curRate (tmly qp)))
   \<and> (m_cc_mode c = 8 \<longrightarrow> 0 \<le> dctcp_alpha (dctcp qp))"

lemma within_small: "small_rate (m_max_rate qp) \<Longrightarrow> rate_in c qp r \<Longrightarrow> small_rate r"
  by (auto simp: rate_in_def intro: small_rate_le)

lemma clampRate_within: "rate_in c qp r0 \<Longrightarrow> rate_in c qp (clampRate (m_minRate c) (m_max_rate qp) r)"
  by (auto simp: clampRate_def rate_in_def Let_def not_less intro: order_trans)

lemma within_cong: "m_max_rate qp' = m_max_rate qp \<Longrightarrow> rate_in c qp' = rate_in c qp"
  by (simp add: rate_in_def fun_eq_iff)

lemma rates_ok_cong:
  assumes "m_max_rate q' = m_max_rate q" "m_rate q' = m_rate q" "m_targetRate (mlx q') = m_targetRate (mlx q)"
    "mlx_alpha (mlx q') = mlx_alpha (mlx q)" "hopState (hp q') = hopState (hp q)"
    "tmly_curRate (tmly q') = tmly_curRate (tmly q)" "dctcp_alpha (dctcp q') = dctcp_alpha (dctcp q)"
  shows "rates_ok c hi q' = rates_ok c hi q"
  by (simp only: rates_ok_def rate_in_def assms)

lemma within_max_min: "rate_in c qp r0 \<Longrightarrow> r \<le> m_max_rate qp \<Longrightarrow> rate_in c qp (max (m_minRate c) r)"
  by (auto simp: rate_in_def)

lemma half_sum_within:
  assumes "small_rate (m_max_rate qp)" "even (unat (m_minRate c))" "rate_in c qp x" "rate_in c qp y"
    and "DataRate_div x 2 = Inr a" "DataRate_div y 2 = Inr b"
  shows "rate_in c qp (DataRate_plus a b)"
proof -
  have s: "small_rate x" "small_rate y" using assms within_small by blast+
  have a: "unat a = unat x div 2" "unat b = unat y div 2"
    using DataRate_half[OF s(1)] DataRate_half[OF s(2)] assms(5,6) by auto
  have le: "unat (m_minRate c) \<le> unat x" "unat x \<le> unat (m_max_rate qp)"
    "unat (m_minRate c) \<le> unat y" "unat y \<le> unat (m_max_rate qp)"
    using assms(3,4) by (auto simp: rate_in_def word_le_nat_alt)
  have "unat a + unat b < 2 ^ 64" using a s by (simp add: small_rate_def)
  then have u: "unat (DataRate_plus a b) = unat x div 2 + unat y div 2"
    using a by (simp add: DataRate_plus_def unat_word_ariths(1))
  obtain m where m: "unat (m_minRate c) = 2 * m" using assms(2) by (rule evenE)
  have "m \<le> unat x div 2" "m \<le> unat y div 2" using le m by linarith+
  then show ?thesis using u le m by (simp add: rate_in_def word_le_nat_alt)
qed

lemma plus_within:
  assumes "small_rate (m_max_rate qp)" "small_rate st" "rate_in c qp x"
  shows "m_minRate c \<le> DataRate_plus x st"
proof -
  have "unat x + unat st < 2 ^ 64"
    using within_small[OF assms(1,3)] assms(2) by (simp add: small_rate_def)
  then have "x \<le> x + st" by (simp add: word_le_nat_alt unat_word_ariths(1))
  then show ?thesis using assms(3) by (auto simp: DataRate_plus_def rate_in_def)
qed

lemma decrease_within:
  assumes "small_rate (m_max_rate qp)" "rate_in c qp x" "k \<le> 1" "DataRate_mult x k = Inr r"
  shows "rate_in c qp (max (m_minRate c) r)"
proof -
  have "r \<le> x" using within_small[OF assms(1,2)] assms(3,4) by (rule DataRate_mult_le)
  then show ?thesis using assms(2) by (intro within_max_min[OF assms(2)]) (auto simp: rate_in_def)
qed

lemma fsub_le_1: "0 \<le> a \<Longrightarrow> fsub 1 a \<le> 1"
  unfolding fsub_def using rnd_mono[of "1 - a" 1] by simp

lemma alpha_nonneg:
  assumes "0 \<le> m_g c" "m_g c \<le> 1" "0 \<le> a"
  shows "0 \<le> fmul (fsub 1 (m_g c)) a"
  using assms by (intro fmul_nonneg) (simp_all add: fsub_def rnd_nonneg)

lemma half_nonneg: "0 \<le> a \<Longrightarrow> fdiv a 2 = Inr h \<Longrightarrow> 0 \<le> h"
  by (auto simp: fdiv_def intro: rnd_nonneg)

subsection \<open>DCQCN\<close>

lemmas mlx_defs = ScheduleUpdateAlphaMlx_def ScheduleDecreaseRateMlx_def setRpTimer_def

lemma UpdateAlphaMlx_ok:
  assumes "rate_cfg_ok c" "rates_ok c hi q" "UpdateAlphaMlx c e q = Inr q'"
  shows "rates_ok c hi q'"
proof -
  obtain d where q': "q' = q\<lparr>mlx := (mlx q)\<lparr>mlx_alpha := mlx_alpha (mlx q'), m_alpha_cnp_arrived := False, m_eventUpdateAlpha := d\<rparr>\<rparr>"
    using assms(3) by (simp add: UpdateAlphaMlx_def mlx_defs Let_def bindr_Inr_iff) auto
  have "0 \<le> mlx_alpha (mlx q')" if "m_cc_mode c = 1"
    using assms that alpha_nonneg[of c "mlx_alpha (mlx q)"]
    by (auto simp: UpdateAlphaMlx_def mlx_defs Let_def bindr_Inr_iff rate_cfg_ok_def rates_ok_def fadd_def intro!: rnd_nonneg)
  then show ?thesis using assms(2) by (subst q') (simp add: rates_ok_def rate_in_def)
qed

lemma cnp_received_mlx_ok:
  assumes "rate_cfg_ok c" "rates_ok c hi q" "cnp_received_mlx c e q = Inr q'"
  shows "rates_ok c hi q'"
proof -
  have r: "DataRate_mult (m_rate q) 1 = Inr r \<Longrightarrow> r = m_rate q" for r
    using assms(2) DataRate_mult_1[of "m_rate q"] within_small[of q c "m_rate q"] by (simp add: rates_ok_def)
  have f: "m_rateOnFirstCNP c = 1" using assms(1) by (simp add: rate_cfg_ok_def)
  show ?thesis
  proof (cases "m_first_cnp (mlx q)")
    case True
    then obtain d1 d2 where "q' = q\<lparr>mlx := (mlx q)\<lparr>m_decrease_cnp_arrived := True, mlx_alpha := 1, m_alpha_cnp_arrived := False,
        m_eventUpdateAlpha := d1, m_eventDecreaseRate := d2, m_targetRate := m_rate q, m_first_cnp := False\<rparr>\<rparr>"
      using assms(3) f by (auto simp: cnp_received_mlx_def mlx_defs Let_def bindr_Inr_iff dest!: r)
    then show ?thesis using assms(2) by (simp add: rates_ok_def rate_in_def)
  next
    case False
    then show ?thesis using assms(2,3) by (auto simp: cnp_received_mlx_def rates_ok_def rate_in_def)
  qed
qed

lemma mlx_timers:
  shows "ScheduleDecreaseRateMlx c e d q = Inr q' \<Longrightarrow> rates_ok c hi q' = rates_ok c hi q"
    and "setRpTimer c e q = Inr q' \<Longrightarrow> rates_ok c hi q' = rates_ok c hi q \<and> m_max_rate q' = m_max_rate q"
proof -
  assume "ScheduleDecreaseRateMlx c e d q = Inr q'"
  then obtain t where "q' = q\<lparr>mlx := (mlx q)\<lparr>m_eventDecreaseRate := Some t\<rparr>\<rparr>"
    by (auto simp: ScheduleDecreaseRateMlx_def bindr_Inr_iff)
  then show "rates_ok c hi q' = rates_ok c hi q" by (intro rates_ok_cong) simp_all
next
  assume "setRpTimer c e q = Inr q'"
  then obtain t where q': "q' = q\<lparr>mlx := (mlx q)\<lparr>m_rpTimer := Some t\<rparr>\<rparr>" by (auto simp: setRpTimer_def bindr_Inr_iff)
  then have "rates_ok c hi q' = rates_ok c hi q" by (intro rates_ok_cong) simp_all
  then show "rates_ok c hi q' = rates_ok c hi q \<and> m_max_rate q' = m_max_rate q" by (simp add: q')
qed

lemma CheckRateDecreaseMlx_ok:
  assumes "m_cc_mode c = 1" "rates_ok c hi q" "CheckRateDecreaseMlx c e q = Inr q'"
  shows "rates_ok c hi q'"
proof -
  obtain q1 where q1: "ScheduleDecreaseRateMlx c e 0 q = Inr q1"
    and rest: "(if m_decrease_cnp_arrived (mlx q1) then
       let clamp = (m_EcnClampTgtRate c \<or> m_rpTimeStage (mlx q1) \<noteq> 0);
           q = (if clamp then q1\<lparr>mlx := (mlx q1)\<lparr>m_targetRate := m_rate q1\<rparr>\<rparr> else q1) in
       bindr (fdiv (mlx_alpha (mlx q)) 2) (\<lambda>a.
       bindr (DataRate_mult (m_rate q) (fsub 1 a)) (\<lambda>r.
       setRpTimer c e (q\<lparr>m_rate := max (m_minRate c) r,
         mlx := (mlx q)\<lparr>m_rpTimeStage := 0, m_decrease_cnp_arrived := False\<rparr>\<rparr>)))
     else Inr q1) = Inr q'"
    using assms(3) unfolding CheckRateDecreaseMlx_def by (rule bindr_InrE)
  have ok1: "rates_ok c hi q1" using mlx_timers(1)[OF q1] assms(2) by simp
  show ?thesis
  proof (cases "m_decrease_cnp_arrived (mlx q1)")
    case False
    then show ?thesis using rest ok1 by simp
  next
    case True
    define q2 where "q2 = (if m_EcnClampTgtRate c \<or> m_rpTimeStage (mlx q1) \<noteq> 0
      then q1\<lparr>mlx := (mlx q1)\<lparr>m_targetRate := m_rate q1\<rparr>\<rparr> else q1)"
    have ok2: "rates_ok c hi q2" using ok1 by (simp add: q2_def rates_ok_def rate_in_def)
    obtain h r where h: "fdiv (mlx_alpha (mlx q2)) 2 = Inr h" "DataRate_mult (m_rate q2) (fsub 1 h) = Inr r"
      and q': "setRpTimer c e (q2\<lparr>m_rate := max (m_minRate c) r,
         mlx := (mlx q2)\<lparr>m_rpTimeStage := 0, m_decrease_cnp_arrived := False\<rparr>\<rparr>) = Inr q'"
      using rest True unfolding q2_def[symmetric] Let_def by (auto simp only: if_True bindr_Inr_iff)
    have o: "small_rate (m_max_rate q2)" "rate_in c q2 (m_rate q2)" "0 \<le> mlx_alpha (mlx q2)"
      using ok2 assms(1) by (simp_all add: rates_ok_def)
    have "rate_in c q2 (max (m_minRate c) r)"
      by (rule decrease_within[OF o(1,2) fsub_le_1[OF half_nonneg[OF o(3) h(1)]] h(2)])
    then have "rates_ok c hi (q2\<lparr>m_rate := max (m_minRate c) r,
        mlx := (mlx q2)\<lparr>m_rpTimeStage := 0, m_decrease_cnp_arrived := False\<rparr>\<rparr>)"
      using ok2 by (simp add: rates_ok_def rate_in_def)
    then show ?thesis using mlx_timers(2)[OF q'] by simp
  qed
qed

lemma increaseMlx_ok:
  assumes "rate_cfg_ok c" "m_cc_mode c = 1" "small_rate st" "rates_ok c hi q" "increaseMlx st (m_max_rate q) q = Inr q'"
  shows "rates_ok c hi q'"
proof -
  define t where "t = (if DataRate_plus (m_targetRate (mlx q)) st > m_max_rate q then m_max_rate q
    else DataRate_plus (m_targetRate (mlx q)) st)"
  have o: "small_rate (m_max_rate q)" "rate_in c q (m_rate q)" "rate_in c q (m_targetRate (mlx q))"
    "even (unat (m_minRate c))"
    using assms(1,2,4) by (simp_all add: rates_ok_def rate_cfg_ok_def)
  have t: "rate_in c q t"
    using plus_within[OF o(1) assms(3) o(3)] o(2) by (auto simp: t_def rate_in_def not_less)
  obtain a b where ab: "DataRate_div (m_rate q) 2 = Inr a" "DataRate_div t 2 = Inr b"
    and q': "q' = q\<lparr>mlx := (mlx q)\<lparr>m_targetRate := t\<rparr>, m_rate := DataRate_plus a b\<rparr>"
    using assms(5) unfolding increaseMlx_def t_def[symmetric] Let_def by (auto simp: bindr_Inr_iff)
  have "rate_in c q (DataRate_plus a b)" by (rule half_sum_within[OF o(1,4,2) t ab])
  then show ?thesis using assms(4) t by (simp add: q' rates_ok_def rate_in_def)
qed

lemma FastRecoveryMlx_ok:
  assumes "rate_cfg_ok c" "m_cc_mode c = 1" "rates_ok c hi q" "FastRecoveryMlx q = Inr q'"
  shows "rates_ok c hi q'"
proof -
  have o: "small_rate (m_max_rate q)" "even (unat (m_minRate c))" "rate_in c q (m_rate q)" "rate_in c q (m_targetRate (mlx q))"
    using assms(1-3) by (simp_all add: rates_ok_def rate_cfg_ok_def)
  obtain a b where ab: "DataRate_div (m_rate q) 2 = Inr a" "DataRate_div (m_targetRate (mlx q)) 2 = Inr b"
    and q': "q' = q\<lparr>m_rate := DataRate_plus a b\<rparr>"
    using assms(4) by (auto simp: FastRecoveryMlx_def bindr_Inr_iff)
  have "rate_in c q (DataRate_plus a b)" by (rule half_sum_within[OF o ab])
  then show ?thesis using assms(3) by (simp add: q' rates_ok_def rate_in_def)
qed

lemma RateIncEventTimerMlx_ok:
  assumes "rate_cfg_ok c" "m_cc_mode c = 1" "rates_ok c hi q" "RateIncEventTimerMlx c e (m_max_rate q) q = Inr q'"
  shows "rates_ok c hi q'"
proof -
  obtain q1 q2 where q1: "setRpTimer c e q = Inr q1" and q2: "RateIncEventMlx c (m_max_rate q) q1 = Inr q2"
    and q': "q' = q2\<lparr>mlx := (mlx q2)\<lparr>m_rpTimeStage := m_rpTimeStage (mlx q2) + 1\<rparr>\<rparr>"
    using assms(4) by (auto simp: RateIncEventTimerMlx_def bindr_Inr_iff)
  note t = mlx_timers(2)[OF q1]
  have ok1: "rates_ok c hi q1" and bps: "m_max_rate q = m_max_rate q1" using t assms(3) by simp_all
  have s: "small_rate (m_rai c)" "small_rate (m_rhai c)" using assms(1) by (simp_all add: rate_cfg_ok_def)
  have "rates_ok c hi q2"
    using q2 FastRecoveryMlx_ok[OF assms(1,2) ok1, of q2] increaseMlx_ok[OF assms(1,2) s(1) ok1, of q2]
      increaseMlx_ok[OF assms(1,2) s(2) ok1, of q2]
    by (auto simp: RateIncEventMlx_def ActiveIncreaseMlx_def HyperIncreaseMlx_def bps split: if_splits)
  then show ?thesis by (simp add: q' rates_ok_def rate_in_def)
qed

subsection \<open>HPCC and PowerTCP\<close>

lemma ChangeRate_Inr:
  assumes "ChangeRate e r (qp, ns) = Inr (qp', ns')"
  shows "m_rate qp' = r" "m_max_rate qp' = m_max_rate qp" "hp qp' = hp qp" "mlx qp' = mlx qp" "tmly qp' = tmly qp"
    "dctcp qp' = dctcp qp" "hpccPint qp' = hpccPint qp"
proof -
  obtain a where "qp' = qp\<lparr>m_nextAvail := a, m_rate := r\<rparr>"
    using assms unfolding ChangeRate_def prod.case Let_def by (elim bindr_InrE) blast
  then show "m_rate qp' = r" "m_max_rate qp' = m_max_rate qp" "hp qp' = hp qp" "mlx qp' = mlx qp" "tmly qp' = tmly qp"
    "dctcp qp' = dctcp qp" "hpccPint qp' = hpccPint qp" by simp_all
qed

text \<open>A rate change that may not happen.\<close>

lemma maybe_ChangeRate:
  assumes "(if b then ChangeRate e r (qp, ns) else Inr (qp, ns)) = Inr (qp', ns')"
  shows "m_rate qp' = (if b then r else m_rate qp)" "m_max_rate qp' = m_max_rate qp" "hp qp' = hp qp" "mlx qp' = mlx qp"
    "tmly qp' = tmly qp" "dctcp qp' = dctcp qp"
proof -
  have "m_rate qp' = (if b then r else m_rate qp) \<and> m_max_rate qp' = m_max_rate qp \<and> hp qp' = hp qp \<and> mlx qp' = mlx qp
    \<and> tmly qp' = tmly qp \<and> dctcp qp' = dctcp qp"
  proof (cases b)
    case True
    then show ?thesis using assms ChangeRate_Inr[of e r qp ns qp' ns'] by simp
  next
    case False
    then have "qp' = qp" using assms by simp
    then show ?thesis using False by simp
  qed
  then show "m_rate qp' = (if b then r else m_rate qp)" "m_max_rate qp' = m_max_rate qp" "hp qp' = hp qp" "mlx qp' = mlx qp"
    "tmly qp' = tmly qp" "dctcp qp' = dctcp qp" by blast+
qed

lemma hpStep_within: "hpStep c (m_max_rate qp) k r st = Inr (r', st') \<Longrightarrow> rate_in c qp r0 \<Longrightarrow> rate_in c qp r'"
  by (auto simp: hpStep_def bindr_Inr_iff clampRate_within split: if_splits)

lemma map_Rc_update:
  assumes "hs_Rc h = hs_Rc (xs ! i)"
  shows "map hs_Rc (xs[i := h]) = map hs_Rc xs"
proof (cases "i < length xs")
  case True
  have "map hs_Rc (xs[i := h]) = (map hs_Rc xs)[i := map hs_Rc xs ! i]" using True assms by (simp add: map_update)
  then show ?thesis by simp
qed (simp add: list_update_beyond)

lemma hpHop_Rc:
  assumes "hpHop c e fast ih qp i a = Inr a'"
  shows "map hs_Rc (hopState (a_hp a')) = map hs_Rc (hopState (a_hp a))"
proof (cases "m_sampleFeedback c \<and> GetQlen (h_multi e) (hop ih ! i) = 0 \<and> fast")
  case True
  then show ?thesis using assms by (simp add: hpHop_def)
next
  case False
  define f where "f b = b\<lparr>a_hp := (a_hp b)\<lparr>hp_hop := (hp_hop (a_hp b))[i := hop ih ! i]\<rparr>\<rparr>" for b :: hpAcc
  define a1 where "a1 = a\<lparr>a_updated := (a_updated a)(i := True)\<rparr>"
  have [simp]: "hopState (a_hp (f b)) = hopState (a_hp b)" "a_hp a1 = a_hp a" for b by (simp_all add: f_def a1_def)
  show ?thesis
    using assms False unfolding hpHop_def Let_def f_def[symmetric] a1_def[symmetric]
    by (auto simp: bindr_Inr_iff map_Rc_update split: if_split_asm)
qed

lemma powerHop_Rc:
  assumes "powerHop c e fast ih qp rtt cp i a = Inr a'"
  shows "hopState (a_hp a') = hopState (a_hp a)"
  using assms by (auto simp: powerHop_def Let_def bindr_Inr_iff split: if_splits)

lemma hpHopRate_within:
  assumes "hpHopRate c qp upd i (r, ph) = Inr (r', ph')" "rate_in c qp r" "i < length (hopState (hp qp))"
    and "\<forall>r\<in>set (map hs_Rc (hopState (hp qp))). rate_in c qp r"
    and "\<forall>j. upd j \<and> done j \<longrightarrow> rate_in c qp (fst (ph j))"
  shows "rate_in c qp r' \<and> (\<forall>j. upd j \<and> (done j \<or> j = i) \<longrightarrow> rate_in c qp (fst (ph' j)))"
proof -
  have rc: "rate_in c qp (hs_Rc (hopState (hp qp) ! i))" using assms(3,4) by auto
  show ?thesis
  proof (cases "upd i")
    case False
    then show ?thesis using assms(1,2,5) rc by (auto simp: hpHopRate_def Let_def)
  next
    case True
    then obtain k x st where x: "hpStep c (m_max_rate qp) k (hs_Rc (hopState (hp qp) ! i)) (hs_incStage (hopState (hp qp) ! i)) = Inr (x, st)"
      and r: "r' = (if x < r then x else r)" "ph' = ph(i := (x, st))"
      using assms(1) by (auto simp: hpHopRate_def Let_def bindr_Inr_iff)
    have "rate_in c qp x" by (rule hpStep_within[OF x assms(2)])
    then show ?thesis using assms(2,5) r by auto
  qed
qed

lemma hopRates_within:
  assumes "loopr (hpHopRate c qp upd) [0..<n] (r0, ph0) = Inr (r, ph)" "n \<le> length (hopState (hp qp))"
    and "rate_in c qp r0" "\<forall>r\<in>set (map hs_Rc (hopState (hp qp))). rate_in c qp r"
  shows "rate_in c qp r \<and> (\<forall>j. upd j \<and> j < n \<longrightarrow> rate_in c qp (fst (ph j)))"
  using assms(1,2)
proof (induction n arbitrary: r ph)
  case 0
  then show ?case using assms(3) by simp
next
  case (Suc n)
  obtain r1 ph1 where l: "loopr (hpHopRate c qp upd) [0..<n] (r0, ph0) = Inr (r1, ph1)"
    and h: "hpHopRate c qp upd n (r1, ph1) = Inr (r, ph)"
    using Suc.prems(1) by (auto simp: loopr_append bindr_Inr_iff)
  have ih: "rate_in c qp r1" "\<forall>j. upd j \<and> j < n \<longrightarrow> rate_in c qp (fst (ph1 j))" using Suc.IH[OF l] Suc.prems(2) by auto
  show ?case
    using hpHopRate_within[OF h ih(1) _ assms(4), of "\<lambda>j. j < n"] ih(2) Suc.prems(2) by (simp add: less_Suc_eq)
qed

lemma storePerHop_within:
  assumes "\<forall>r\<in>set (map hs_Rc hs). P r" "\<forall>j. upd j \<and> j < n \<longrightarrow> P (fst (ph j))"
  shows "length (storePerHop n upd ph hs) = length hs \<and> (\<forall>r\<in>set (map hs_Rc (storePerHop n upd ph hs)). P r)"
  using assms by (auto simp: storePerHop_def)

definition hp_ok :: "hwcfg \<Rightarrow> RdmaQueuePair \<Rightarrow> bool" where
  "hp_ok c qp \<longleftrightarrow> length (hopState (hp qp)) = maxHop
     \<and> (m_multipleRate c \<longrightarrow> (\<forall>r\<in>set (map hs_Rc (hopState (hp qp))). rate_in c qp r))"

lemma rates_ok_hp:
  "m_cc_mode c = 3 \<Longrightarrow> rates_ok c hi qp \<longleftrightarrow> hi = m_max_rate qp \<and> small_rate (m_max_rate qp) \<and> rate_in c qp (m_rate qp) \<and> hp_ok c qp"
  by (auto simp: rates_ok_def hp_ok_def)

lemma hp_ok_cong:
  assumes "hp_ok c qp" "m_max_rate qp' = m_max_rate qp" "map hs_Rc (hopState (hp qp')) = map hs_Rc (hopState (hp qp))"
  shows "hp_ok c qp'"
proof -
  have "length (hopState (hp qp')) = length (hopState (hp qp))" using assms(3) by (metis length_map)
  then show ?thesis using assms(1) unfolding hp_ok_def assms(3) within_cong[OF assms(2)] by simp
qed

lemma hpNewRate_ok:
  assumes "hpNewRate c e n a any qp = Inr (qp', r, st, ph)" "rate_in c qp r0" "hp_ok c qp" "n \<le> maxHop"
  shows "m_max_rate qp' = m_max_rate qp \<and> m_rate qp' = m_rate qp \<and> hp_ok c qp' \<and> (any \<longrightarrow> rate_in c qp r)
    \<and> (m_multipleRate c \<longrightarrow> (\<forall>j. a_updated a j \<and> j < n \<longrightarrow> rate_in c qp (fst (ph j))))"
proof (cases "m_multipleRate c")
  case True
  then have l: "loopr (hpHopRate c qp (a_updated a)) [0..<n] (m_max_rate qp, \<lambda>_. (0, 0)) = Inr (r, ph)" and q: "qp' = qp"
    using assms(1) by (auto simp: hpNewRate_def bindr_Inr_iff)
  have "rate_in c qp (m_max_rate qp)" using assms(2) by (auto simp: rate_in_def)
  from hopRates_within[OF l _ this] assms(3,4) True q show ?thesis by (simp add: hp_ok_def)
next
  case False
  show ?thesis
  proof (cases any)
    case True
    then obtain u k where k: "hpStep c (m_max_rate qp) k (hp_curRate (hp qp)) (hp_incStage (hp qp)) = Inr (r, st)"
      and q: "qp' = qp\<lparr>hp := (hp qp)\<lparr>hp_u := u\<rparr>\<rparr>"
      using assms(1) False by (auto simp: hpNewRate_def bindr_Inr_iff Let_def)
    have "hp_ok c qp'" by (rule hp_ok_cong[OF assms(3)]) (simp_all add: q)
    then show ?thesis using hpStep_within[OF k assms(2)] False q by simp
  qed (use False assms(1,3) in \<open>simp add: hpNewRate_def\<close>)
qed

lemma hpCommit_ok:
  assumes "hpCommit c e fast n a any r st ph (qp, ns) = Inr (qp', ns')" "rate_in c qp (m_rate qp)" "hp_ok c qp"
    and "any \<longrightarrow> rate_in c qp r" "m_multipleRate c \<longrightarrow> (\<forall>j. a_updated a j \<and> j < n \<longrightarrow> rate_in c qp (fst (ph j)))"
  shows "m_max_rate qp' = m_max_rate qp \<and> rate_in c qp (m_rate qp') \<and> hp_ok c qp'"
proof -
  obtain x where x: "(if any then ChangeRate e r (qp, ns) else Inr (qp, ns)) = Inr x"
    and rest: "(case x of (qp, ns) \<Rightarrow>
     let qp = (if \<not> fast \<and> any then qp\<lparr>hp := (hp qp)\<lparr>hp_curRate := r, hp_incStage := st\<rparr>\<rparr> else qp);
         qp = (if \<not> fast \<and> m_multipleRate c
               then qp\<lparr>hp := (hp qp)\<lparr>hopState := storePerHop n (a_updated a) ph (hopState (hp qp))\<rparr>\<rparr> else qp)
     in Inr (qp, ns)) = (Inr (qp', ns') :: qpdev res)"
    using assms(1) unfolding hpCommit_def by (rule bindr_InrE)
  obtain q1 n1 where q1: "x = (q1, n1)" by (cases x)
  note C = maybe_ChangeRate[OF x[unfolded q1]]
  have f: "m_max_rate q1 = m_max_rate qp" "hp q1 = hp qp" "rate_in c qp (m_rate q1)"
    using C assms(2,4) by (simp_all split: if_splits)
  define q2 where "q2 = (if \<not> fast \<and> any then q1\<lparr>hp := (hp q1)\<lparr>hp_curRate := r, hp_incStage := st\<rparr>\<rparr> else q1)"
  define q3 where "q3 = (if \<not> fast \<and> m_multipleRate c
      then q2\<lparr>hp := (hp q2)\<lparr>hopState := storePerHop n (a_updated a) ph (hopState (hp q2))\<rparr>\<rparr> else q2)"
  have f2: "hopState (hp q2) = hopState (hp qp)" "m_rate q2 = m_rate q1" "m_max_rate q2 = m_max_rate qp"
    by (simp_all add: q2_def f split: if_split)
  have f3: "hopState (hp q3) = (if \<not> fast \<and> m_multipleRate c then storePerHop n (a_updated a) ph (hopState (hp qp)) else hopState (hp qp))"
    "m_rate q3 = m_rate q1" "m_max_rate q3 = m_max_rate qp"
    by (simp_all add: q3_def f2 split: if_split)
  have "q3 = qp'"
    using rest unfolding q1 prod.case Let_def q2_def[symmetric] q3_def[symmetric] by (simp only: sum.inject prod.inject)
  note q' = f3[unfolded this]
  have len: "length (hopState (hp qp)) = maxHop" using assms(3) by (simp add: hp_ok_def)
  have "hp_ok c qp'"
  proof (cases "\<not> fast \<and> m_multipleRate c")
    case True
    then have "\<forall>r\<in>set (map hs_Rc (hopState (hp qp))). rate_in c qp r" using assms(3) unfolding hp_ok_def by blast
    moreover have "\<forall>j. a_updated a j \<and> j < n \<longrightarrow> rate_in c qp (fst (ph j))" using assms(5) True by blast
    ultimately have "length (storePerHop n (a_updated a) ph (hopState (hp qp))) = length (hopState (hp qp))
      \<and> (\<forall>r\<in>set (map hs_Rc (storePerHop n (a_updated a) ph (hopState (hp qp)))). rate_in c qp r)"
      by (rule storePerHop_within)
    moreover have "hopState (hp qp') = storePerHop n (a_updated a) ph (hopState (hp qp))" using q'(1) unfolding if_P[OF True] .
    ultimately show ?thesis unfolding hp_ok_def within_cong[OF q'(3)] by (simp only: len) blast
  next
    case False
    have "hopState (hp qp') = hopState (hp qp)" using q'(1) unfolding if_not_P[OF False] .
    then show ?thesis by (intro hp_ok_cong[OF assms(3) q'(3)]) (simp only:)
  qed
  then show ?thesis using q' f by simp
qed

lemma hpReact_ok:
  assumes n: "unat (nhop ih) \<le> maxHop" and o: "rate_in c qp (m_rate qp)" "hp_ok c qp"
    and u: "hpReact c e ih fast (qp, ns) = Inr (qp', ns')"
  shows "m_max_rate qp' = m_max_rate qp \<and> rate_in c qp (m_rate qp') \<and> hp_ok c qp'"
proof -
  let ?n = "unat (nhop ih)"
  obtain a where a: "loopr (hpHop c e fast ih qp) [0..<?n]
      \<lparr>a_hp = hp qp, a_U = 0, a_dt = 0, a_updated = (\<lambda>_. False)\<rparr> = Inr a"
    and s1: "bindr (hpNewRate c e ?n a (list_ex (a_updated a) [0..<?n]) (qp\<lparr>hp := a_hp a\<rparr>))
       (\<lambda>(qp, r, st, ph). hpCommit c e fast ?n a (list_ex (a_updated a) [0..<?n]) r st ph (qp, ns)) = Inr (qp', ns')"
    using u unfolding hpReact_def Let_def prod.case by (rule bindr_InrE)
  obtain q1 r st ph where q1: "hpNewRate c e ?n a (list_ex (a_updated a) [0..<?n]) (qp\<lparr>hp := a_hp a\<rparr>) = Inr (q1, r, st, ph)"
    and q2: "hpCommit c e fast ?n a (list_ex (a_updated a) [0..<?n]) r st ph (q1, ns) = Inr (qp', ns')"
    using s1 by (auto simp: bindr_Inr_iff)
  have rc: "map hs_Rc (hopState (a_hp a)) = map hs_Rc (hopState (hp qp))"
    using loopr_invariant[OF a, of "\<lambda>a. map hs_Rc (hopState (a_hp a)) = map hs_Rc (hopState (hp qp))"] hpHop_Rc by simp
  have h0: "hp_ok c (qp\<lparr>hp := a_hp a\<rparr>)" by (rule hp_ok_cong[OF o(2)]) (simp_all add: rc)
  have in0: "rate_in c (qp\<lparr>hp := a_hp a\<rparr>) = rate_in c qp" by (rule within_cong) simp
  note N = hpNewRate_ok[OF q1 _ h0 n, unfolded in0, OF o(1)]
  have in1: "rate_in c q1 = rate_in c qp" by (rule within_cong) (use N in simp)
  have "m_max_rate qp' = m_max_rate q1 \<and> rate_in c q1 (m_rate qp') \<and> hp_ok c qp'"
    by (rule hpCommit_ok[OF q2]) (use N o(1) in1 in simp_all)
  then show ?thesis using N in1 by simp
qed

lemma rates_ok_hpI:
  assumes "m_cc_mode c = 3" "rates_ok c hi qp" "m_max_rate qp' = m_max_rate qp" "rate_in c qp (m_rate qp')" "hp_ok c qp'"
  shows "rates_ok c hi qp'"
  using assms within_cong[OF assms(3)] by (simp add: rates_ok_hp)

lemma UpdateRateHp_ok:
  assumes mode: "m_cc_mode c = 3" and ok: "rates_ok c hi qp" and u: "UpdateRateHp c e ih fast (qp, ns) = Inr (qp', ns')"
  shows "rates_ok c hi qp'"
proof (cases "hp_lastUpdateSeq (hp qp) = 0 \<or> unat (nhop ih) > maxHop")
  case True
  then have "\<exists>h. qp' = qp\<lparr>hp := h\<rparr> \<and> hopState h = hopState (hp qp)"
    using u by (auto simp: UpdateRateHp_def Let_def split: if_splits)
  then show ?thesis using ok rates_ok_cong[of qp' qp c hi] by auto
next
  case False
  have o: "rate_in c qp (m_rate qp)" "hp_ok c qp" using ok rates_ok_hp[OF mode] by blast+
  obtain q1 n1 l where q1: "hpReact c e ih fast (qp, ns) = Inr (q1, n1)"
    and q': "qp' = q1\<lparr>hp := (hp q1)\<lparr>hp_lastUpdateSeq := l\<rparr>\<rparr>"
    using u False by (auto simp: UpdateRateHp_def Let_def bindr_Inr_iff)
  have "unat (nhop ih) \<le> maxHop" using False by simp
  note H = hpReact_ok[OF this o q1]
  then have "rates_ok c hi q1" using rates_ok_hpI[OF mode ok] by blast
  then show ?thesis using rates_ok_cong[of qp' q1 c hi] q' by simp
qed

lemma takeSample_ok:
  assumes "takeSample c e seq qp = Inr (qp', rtt)"
  shows "rates_ok c hi qp' = rates_ok c hi qp"
proof (cases "rates qp seq")
  case None
  then show ?thesis using assms by (simp add: takeSample_def)
next
  case (Some t)
  define q1 where "q1 = qp\<lparr>rates := (rates qp)(seq := None)\<rparr>"
  have q: "qp' = q1 \<or> (\<exists>b. qp' = q1\<lparr>m_baseRtt := b\<rparr>)"
  proof (cases "PowerTCPdelay c")
    case True
    have "bindr (trunc_u64 (fsub (nowDouble e) t)) (\<lambda>w. Inr (q1\<lparr>m_baseRtt := min w (m_baseRtt q1)\<rparr>, fsub (nowDouble e) t)) = Inr (qp', rtt)"
      using assms Some True unfolding takeSample_def Let_def q1_def by simp
    then show ?thesis by (rule bindr_InrE) blast
  next
    case False
    then show ?thesis using assms Some unfolding takeSample_def Let_def q1_def by simp
  qed
  have "rates_ok c hi q1 = rates_ok c hi qp" by (rule rates_ok_cong) (simp_all add: q1_def)
  moreover have "rates_ok c hi (q1\<lparr>m_baseRtt := b\<rparr>) = rates_ok c hi q1" for b by (rule rates_ok_cong) simp_all
  ultimately show ?thesis using q by auto
qed

lemma powerNewRate_ok:
  assumes "powerNewRate c a qp = Inr (qp', r)" "rate_in c qp r0"
  shows "rate_in c qp r" "m_max_rate qp' = m_max_rate qp" "m_rate qp' = m_rate qp" "hopState (hp qp') = hopState (hp qp)"
    "mlx qp' = mlx qp" "tmly qp' = tmly qp" "dctcp qp' = dctcp qp"
proof -
  obtain u x where "Inr (qp\<lparr>hp := (hp qp)\<lparr>hp_u := u\<rparr>\<rparr>, clampRate (m_minRate c) (m_max_rate (qp\<lparr>hp := (hp qp)\<lparr>hp_u := u\<rparr>\<rparr>)) x) = (Inr (qp', r) :: (RdmaQueuePair \<times> DataRate) res)"
    using assms(1) unfolding powerNewRate_def Let_def by (elim bindr_InrE) (rule that)
  then have q: "qp' = qp\<lparr>hp := (hp qp)\<lparr>hp_u := u\<rparr>\<rparr>" and r: "r = clampRate (m_minRate c) (m_max_rate qp) x"
    by simp_all
  show "rate_in c qp r" unfolding r by (rule clampRate_within[OF assms(2)])
  show "m_max_rate qp' = m_max_rate qp" "m_rate qp' = m_rate qp" "hopState (hp qp') = hopState (hp qp)"
    "mlx qp' = mlx qp" "tmly qp' = tmly qp" "dctcp qp' = dctcp qp" by (simp_all add: q)
qed

lemma powerReact_ok:
  assumes mode: "m_cc_mode c = 3" and ok: "rates_ok c hi qp" and u: "powerReact c e ih fast rtt (qp, ns) = Inr (qp', ns')"
  shows "rates_ok c hi qp'"
proof -
  let ?n = "unat (nhop ih)"
  have o: "rate_in c qp (m_rate qp)" using ok by (simp add: rates_ok_def)
  define y where "y = nowDouble e"
  obtain a where a: "loopr (powerHop c e fast ih qp rtt y) [0..<?n]
      \<lparr>a_hp = hp qp, a_U = 0, a_dt = 0, a_updated = (\<lambda>_. False)\<rparr> = Inr a"
    and s1: "bindr (if list_ex (a_updated a) [0..<?n] then powerNewRate c a (qp\<lparr>hp := a_hp a\<rparr>) else Inr (qp\<lparr>hp := a_hp a\<rparr>, 0))
      (\<lambda>(q, r). bindr (if list_ex (a_updated a) [0..<?n] then ChangeRate e r (q\<lparr>prevRtt := rtt, prevCompletion := y\<rparr>, ns)
          else Inr (q\<lparr>prevRtt := rtt, prevCompletion := y\<rparr>, ns))
        (\<lambda>(q, ns). Inr (if \<not> fast \<and> list_ex (a_updated a) [0..<?n]
          then q\<lparr>hp := (hp q)\<lparr>hp_curRate := r, hp_incStage := h_uninit e\<rparr>\<rparr> else q, ns))) = Inr (qp', ns')"
    using u unfolding powerReact_def Let_def prod.case y_def by (rule bindr_InrE)
  have hs: "hopState (a_hp a) = hopState (hp qp)"
    using loopr_invariant[OF a, of "\<lambda>a. hopState (a_hp a) = hopState (hp qp)"] powerHop_Rc by simp
  define any q0 where "any = list_ex (a_updated a) [0..<?n]" and "q0 = qp\<lparr>hp := a_hp a\<rparr>"
  have f0: "m_max_rate q0 = m_max_rate qp" "m_rate q0 = m_rate qp" "hopState (hp q0) = hopState (hp qp)"
    "mlx q0 = mlx qp" "tmly q0 = tmly qp" "dctcp q0 = dctcp qp"
    by (simp_all add: q0_def hs)
  obtain x1 where x1: "(if any then powerNewRate c a q0 else Inr (q0, 0)) = Inr x1"
    and s2: "(case x1 of (q, r) \<Rightarrow> bindr (if any then ChangeRate e r (q\<lparr>prevRtt := rtt, prevCompletion := y\<rparr>, ns)
          else Inr (q\<lparr>prevRtt := rtt, prevCompletion := y\<rparr>, ns))
        (\<lambda>(q, ns). Inr (if \<not> fast \<and> any then q\<lparr>hp := (hp q)\<lparr>hp_curRate := r, hp_incStage := h_uninit e\<rparr>\<rparr> else q, ns))) = Inr (qp', ns')"
    using s1 unfolding any_def[symmetric] q0_def[symmetric] by (rule bindr_InrE)
  obtain q1 r where q1: "x1 = (q1, r)" by (cases x1)
  obtain x2 where x2: "(if any then ChangeRate e r (q1\<lparr>prevRtt := rtt, prevCompletion := y\<rparr>, ns)
          else Inr (q1\<lparr>prevRtt := rtt, prevCompletion := y\<rparr>, ns)) = Inr x2"
    and s3: "(case x2 of (q, ns) \<Rightarrow> Inr (if \<not> fast \<and> any then q\<lparr>hp := (hp q)\<lparr>hp_curRate := r, hp_incStage := h_uninit e\<rparr>\<rparr> else q, ns)) = (Inr (qp', ns') :: qpdev res)"
    using s2 unfolding q1 prod.case by (rule bindr_InrE)
  obtain q2 n2 where q2: "x2 = (q2, n2)" by (cases x2)
  note C = maybe_ChangeRate[OF x2[unfolded q2]]
  have q': "qp' = (if \<not> fast \<and> any then q2\<lparr>hp := (hp q2)\<lparr>hp_curRate := r, hp_incStage := h_uninit e\<rparr>\<rparr> else q2)"
    using s3 unfolding q2 prod.case by (simp only: sum.inject prod.inject)
  have in0: "rate_in c q0 (m_rate qp)" using o within_cong[OF f0(1)] by simp
  have f1: "(any \<longrightarrow> rate_in c q0 r) \<and> m_max_rate q1 = m_max_rate q0 \<and> m_rate q1 = m_rate q0
    \<and> hopState (hp q1) = hopState (hp q0) \<and> mlx q1 = mlx q0 \<and> tmly q1 = tmly q0 \<and> dctcp q1 = dctcp q0"
  proof (cases any)
    case True
    then have "powerNewRate c a q0 = Inr (q1, r)" using x1 unfolding q1 by simp
    note P = powerNewRate_ok[OF this in0]
    show ?thesis using P by (intro conjI impI)
  next
    case False
    then have "q1 = q0" using x1 unfolding q1 by simp
    then show ?thesis using False by blast
  qed
  have "rates_ok c hi (qp\<lparr>m_rate := (if any then r else m_rate qp)\<rparr>)"
    using ok f1 f0(1) unfolding rates_ok_def rate_in_def by simp
  moreover have "rates_ok c hi qp' = rates_ok c hi (qp\<lparr>m_rate := (if any then r else m_rate qp)\<rparr>)"
    by (rule rates_ok_cong) (simp_all add: q' C f1 f0)
  ultimately show ?thesis by simp
qed

lemma UpdateRatePower_ok:
  assumes mode: "m_cc_mode c = 3" and ok: "rates_ok c hi qp"
    and u: "UpdateRatePower c e seq ih fast (qp, ns) = Inr (qp', ns')"
  shows "rates_ok c hi qp'"
proof -
  obtain x where x: "takeSample c e seq qp = Inr x"
    and s1: "(case x of (qp1, rtt) \<Rightarrow>
     if hp_lastUpdateSeq (hp qp1) = 0 \<and> \<not> PowerTCPdelay c then
       (if unat (nhop ih) > maxHop then Inl Assert
        else Inr (qp1\<lparr>prevRtt := rtt, prevCompletion := nowDouble e,
               hp := (hp qp1)\<lparr>hp_lastUpdateSeq := ucast (snd_nxt qp), hp_hop := storeHops (unat (nhop ih)) ih (hp_hop (hp qp1))\<rparr>\<rparr>, ns))
     else
       bindr (if unat (nhop ih) \<le> maxHop then powerReact c e ih fast rtt (qp1, ns) else Inr (qp1, ns)) (\<lambda>(qp1, ns).
       Inr (qp1\<lparr>hp := (hp qp1)\<lparr>hp_lastUpdateSeq := bumpSeq fast (ucast (snd_nxt qp)) (hp_lastUpdateSeq (hp qp1))\<rparr>\<rparr>, ns))) = Inr (qp', ns')"
    using u unfolding UpdateRatePower_def Let_def prod.case by (rule bindr_InrE)
  obtain q1 rtt where q1: "x = (q1, rtt)" by (cases x)
  have ok1: "rates_ok c hi q1" using takeSample_ok[OF x[unfolded q1]] ok by simp
  note s2 = s1[unfolded q1 prod.case]
  show ?thesis
  proof (cases "hp_lastUpdateSeq (hp q1) = 0 \<and> \<not> PowerTCPdelay c")
    case True
    have "qp' = q1\<lparr>prevRtt := rtt, prevCompletion := nowDouble e,
        hp := (hp q1)\<lparr>hp_lastUpdateSeq := ucast (snd_nxt qp), hp_hop := storeHops (unat (nhop ih)) ih (hp_hop (hp q1))\<rparr>\<rparr>"
      using s2 unfolding if_P[OF True] by (simp split: if_splits)
    then have "rates_ok c hi qp' = rates_ok c hi q1" by (intro rates_ok_cong) simp_all
    then show ?thesis using ok1 by simp
  next
    case False
    obtain y where y: "(if unat (nhop ih) \<le> maxHop then powerReact c e ih fast rtt (q1, ns) else Inr (q1, ns)) = Inr y"
      and s3: "(case y of (q, ns) \<Rightarrow> Inr (q\<lparr>hp := (hp q)\<lparr>hp_lastUpdateSeq := bumpSeq fast (ucast (snd_nxt qp)) (hp_lastUpdateSeq (hp q))\<rparr>\<rparr>, ns)) = (Inr (qp', ns') :: qpdev res)"
      using s2 unfolding if_not_P[OF False] by (rule bindr_InrE)
    obtain q2 n2 where q2: "y = (q2, n2)" by (cases y)
    have "rates_ok c hi q2" using y ok1 powerReact_ok[OF mode ok1] unfolding q2 by (cases "unat (nhop ih) \<le> maxHop") simp_all
    moreover have "qp' = q2\<lparr>hp := (hp q2)\<lparr>hp_lastUpdateSeq := bumpSeq fast (ucast (snd_nxt qp)) (hp_lastUpdateSeq (hp q2))\<rparr>\<rparr>"
      using s3 unfolding q2 by simp
    then have "rates_ok c hi qp' = rates_ok c hi q2" by (intro rates_ok_cong) simp_all
    ultimately show ?thesis by simp
  qed
qed

lemma HandleAckHp_ok:
  assumes "m_cc_mode c = 3" "rates_ok c hi qp" "HandleAckHp c e seq ih (qp, ns) = Inr (qp', ns')"
  shows "rates_ok c hi qp'"
proof -
  consider fast where "UpdateRatePower c e seq ih fast (qp, ns) = Inr (qp', ns')"
    | fast where "UpdateRateHp c e ih fast (qp, ns) = Inr (qp', ns')" | "qp' = qp"
    using assms(3) unfolding HandleAckHp_def FastReactPower_def FastReactHp_def fst_conv by (simp split: if_splits)
  then show ?thesis
    by cases (use UpdateRatePower_ok[OF assms(1,2)] UpdateRateHp_ok[OF assms(1,2)] assms(2) in blast)+
qed

subsection \<open>TIMELY, DCTCP, HPCC-PINT\<close>

lemma HandleAckDctcp_ok:
  assumes "rate_cfg_ok c" "m_cc_mode c = 8" "rates_ok c hi qp" "HandleAckDctcp c seq cnp qp = Inr qp'"
  shows "rates_ok c hi qp'"
proof -
  have o: "small_rate (m_max_rate qp)" "rate_in c qp (m_rate qp)" "0 \<le> dctcp_alpha (dctcp qp)"
    using assms(2,3) by (simp_all add: rates_ok_def)
  have g: "0 \<le> m_g c" "m_g c \<le> 1" "small_rate (m_dctcp_rai c)" using assms(1) by (simp_all add: rate_cfg_ok_def)
  define d0 where "d0 = (dctcp qp)\<lparr>m_ecnCnt := m_ecnCnt (dctcp qp) + (if cnp then 1 else 0)\<rparr>"
  define nb where "nb = (seq > dctcp_lastUpdateSeq d0)"
  obtain d1 where d1: "(if nb then dctcpAlpha c seq qp d0 else Inr d0) = Inr d1"
    and s1: "bindr (let d = (if m_caState d1 = 1 \<and> seq > m_highSeq d1 then d1\<lparr>m_caState := 0\<rparr> else d1) in
      if cnp \<and> m_caState d = 0 then
               bindr (fdiv (dctcp_alpha d) 2) (\<lambda>a.
               bindr (DataRate_mult (m_rate qp) (fsub 1 a)) (\<lambda>r.
               Inr (max (m_minRate c) r, d\<lparr>m_caState := 1, m_highSeq := ucast (snd_nxt qp)\<rparr>)))
             else Inr (m_rate qp, d)) (\<lambda>(r, d).
      Inr (qp\<lparr>m_rate := (if m_caState d = 0 \<and> nb then min (m_max_rate qp) (DataRate_plus r (m_dctcp_rai c)) else r),
             dctcp := d\<rparr>)) = Inr qp'"
    using assms(4) unfolding HandleAckDctcp_def Let_def d0_def[symmetric] nb_def[symmetric] by (rule bindr_InrE)
  have a1: "0 \<le> dctcp_alpha d1"
  proof (cases nb)
    case True
    have "0 \<le> dctcp_alpha d0" using o(3) by (simp add: d0_def)
    moreover have "0 \<le> min 1 f" if "fdiv (u32_to_double x) (u32_to_double y) = Inr f" for x y f
    proof -
      have "0 \<le> rnd (u32_to_double x / u32_to_double y)"
        unfolding u32_to_double_def by (intro rnd_nonneg divide_nonneg_nonneg of_nat_0_le_iff)
      then show ?thesis using fdiv_Inr[OF that] by simp
    qed
    ultimately show ?thesis using d1 True alpha_nonneg[OF g(1,2), of "dctcp_alpha d0"] g(1)
      by (auto simp: dctcpAlpha_def bindr_Inr_iff Let_def fadd_def intro!: rnd_nonneg add_nonneg_nonneg fmul_nonneg split: if_splits)
  next
    case False
    then have "d1 = d0" using d1 by simp
    then show ?thesis using o(3) by (simp add: d0_def)
  qed
  define d2 where "d2 = (if m_caState d1 = 1 \<and> seq > m_highSeq d1 then d1\<lparr>m_caState := 0\<rparr> else d1)"
  have a2: "0 \<le> dctcp_alpha d2" using a1 by (simp add: d2_def)
  obtain x where x: "(if cnp \<and> m_caState d2 = 0 then
               bindr (fdiv (dctcp_alpha d2) 2) (\<lambda>a.
               bindr (DataRate_mult (m_rate qp) (fsub 1 a)) (\<lambda>r.
               Inr (max (m_minRate c) r, d2\<lparr>m_caState := 1, m_highSeq := ucast (snd_nxt qp)\<rparr>)))
             else Inr (m_rate qp, d2)) = Inr x"
    and s2: "(case x of (r, d) \<Rightarrow> Inr (qp\<lparr>m_rate := (if m_caState d = 0 \<and> nb then min (m_max_rate qp) (DataRate_plus r (m_dctcp_rai c)) else r),
             dctcp := d\<rparr>)) = (Inr qp' :: RdmaQueuePair res)"
    using s1 unfolding Let_def d2_def[symmetric] by (rule bindr_InrE)
  obtain r d where rd: "x = (r, d)" by (cases x)
  have "rate_in c qp r \<and> 0 \<le> dctcp_alpha d"
  proof (cases "cnp \<and> m_caState d2 = 0")
    case True
    obtain h r' where h: "fdiv (dctcp_alpha d2) 2 = Inr h" "DataRate_mult (m_rate qp) (fsub 1 h) = Inr r'"
      and "r = max (m_minRate c) r'" "dctcp_alpha d = dctcp_alpha d2"
      using x unfolding rd if_P[OF True] by (elim bindr_InrE) auto
    then show ?thesis using decrease_within[OF o(1,2) fsub_le_1[OF half_nonneg[OF a2 h(1)]] h(2)] a2 by simp
  next
    case False
    then show ?thesis using x o(2) a2 unfolding rd if_not_P[OF False] by simp
  qed
  note rd_ok = this
  define r2 where "r2 = (if m_caState d = 0 \<and> nb then min (m_max_rate qp) (DataRate_plus r (m_dctcp_rai c)) else r)"
  have "rate_in c qp r2"
    using rd_ok plus_within[OF o(1) g(3), of c r] o(2) unfolding r2_def by (auto simp: rate_in_def)
  moreover have "qp' = qp\<lparr>m_rate := r2, dctcp := d\<rparr>" using s2 unfolding rd prod.case r2_def[symmetric] by simp
  ultimately show ?thesis using assms(3) rd_ok by (simp add: rates_ok_def rate_in_def)
qed

lemma quotient_le_1:
  assumes "a \<le> b" "fdiv (u64_to_double a) (u64_to_double b) = Inr x"
  shows "x \<le> 1"
proof -
  have "u64_to_double a / u64_to_double b \<le> 1"
    using u64_to_double_mono[OF assms(1)] u64_to_double_nonneg[of b]
    by (cases "u64_to_double b = 0") (simp_all add: divide_le_eq_1 less_le)
  then have "rnd (u64_to_double a / u64_to_double b) \<le> rnd 1" by (rule rnd_mono)
  then show ?thesis using fdiv_Inr[OF assms(2)] by simp
qed

text \<open>The step of TIMELY never raises the rate above its base when it decreases it.\<close>

lemma timely_factor_le_1:
  assumes "0 \<le> b"
  shows "a \<le> t \<Longrightarrow> fdiv (u64_to_double a) (u64_to_double t) = Inr x \<Longrightarrow> fsub 1 (fmul b (fsub 1 x)) \<le> 1"
    "0 < g \<Longrightarrow> (let k = fsub 1 (fmul b g) in if k < 0 then 0 else k) \<le> 1"
proof -
  assume "a \<le> t" "fdiv (u64_to_double a) (u64_to_double t) = Inr x"
  then have "x \<le> 1" by (rule quotient_le_1)
  then have "0 \<le> fsub 1 x" by (simp add: fsub_def rnd_nonneg)
  then show "fsub 1 (fmul b (fsub 1 x)) \<le> 1" using assms by (intro fsub_le_1 fmul_nonneg)
next
  assume "0 < g"
  then have "fsub 1 (fmul b g) \<le> 1" using assms by (intro fsub_le_1 fmul_nonneg) simp_all
  then show "(let k = fsub 1 (fmul b g) in if k < 0 then 0 else k) \<le> 1" by (simp add: Let_def)
qed

lemma HandleAckHpPint_ok:
  assumes "m_cc_mode c = 10" "rates_ok c hi qp" "HandleAckHpPint c e seq ih (qp, ns) = Inr (qp', ns')"
  shows "rates_ok c hi qp'"
proof -
  have upd: "rates_ok c hi q'" if u: "UpdateRateHpPint c e ih fast (qp, ns) = Inr (q', n')" for fast q' n'
  proof (cases "pint_lastUpdateSeq (hpccPint qp) = 0")
    case True
    have "q' = qp\<lparr>hpccPint := (hpccPint qp)\<lparr>pint_lastUpdateSeq := ucast (snd_nxt qp)\<rparr>\<rparr>"
      using u True unfolding UpdateRateHpPint_def by simp
    then have "rates_ok c hi q' = rates_ok c hi qp" by (intro rates_ok_cong) simp_all
    then show ?thesis using assms(2) by simp
  next
    case False
    obtain k x1 x2 where k: "hpStep c (m_max_rate qp) k (pint_curRate (hpccPint qp)) (pint_incStage (hpccPint qp)) = Inr x1"
      and x2: "ChangeRate e (fst x1) (qp, ns) = Inr x2"
      and s: "(case x2 of (qp1, ns1) \<Rightarrow> let qp2 = (if \<not> fast then qp1\<lparr>hpccPint := (hpccPint qp1)\<lparr>pint_curRate := fst x1, pint_incStage := snd x1\<rparr>\<rparr> else qp1)
         in Inr (qp2\<lparr>hpccPint := (hpccPint qp2)\<lparr>pint_lastUpdateSeq := bumpSeq fast (ucast (snd_nxt qp)) (pint_lastUpdateSeq (hpccPint qp2))\<rparr>\<rparr>, ns1))
         = (Inr (q', n') :: qpdev res)"
      using u unfolding UpdateRateHpPint_def Let_def prod.case if_not_P[OF False]
      by (elim bindr_InrE) (force elim!: bindr_InrE)
    obtain r st q1 n1 where x: "x1 = (r, st)" "x2 = (q1, n1)" by (cases x1, cases x2)
    note C = ChangeRate_Inr[OF x2[unfolded x fst_conv]]
    have "rate_in c qp (m_rate qp)" using assms(2) by (simp add: rates_ok_def)
    then have r: "rate_in c qp r" by (rule hpStep_within[OF k[unfolded x]])
    have "m_rate q' = m_rate q1" "m_max_rate q' = m_max_rate q1" "mlx q' = mlx q1" "hp q' = hp q1" "tmly q' = tmly q1" "dctcp q' = dctcp q1"
      using s unfolding x prod.case Let_def by (auto split: if_splits)
    then have "rates_ok c hi q' = rates_ok c hi (qp\<lparr>m_rate := r\<rparr>)" using C by (intro rates_ok_cong) simp_all
    moreover have "rates_ok c hi (qp\<lparr>m_rate := r\<rparr>)" using assms(2) r unfolding rates_ok_def rate_in_def by simp
    ultimately show ?thesis by simp
  qed
  show ?thesis
    using assms(2,3) upd unfolding HandleAckHpPint_def by (auto split: if_splits)
qed

lemma timelyDecision_le_1:
  assumes "0 \<le> m_tmly_beta c" "timelyDecision c rtt g = Inr (Some k)"
  shows "k \<le> 1"
proof -
  consider (high) x where "m_tmly_THigh c < rtt" "fdiv (u64_to_double (m_tmly_THigh c)) (u64_to_double rtt) = Inr x"
      "k = fsub 1 (fmul (m_tmly_beta c) (fsub 1 x))"
    | (rising) "0 < g" "k = (let k = fsub 1 (fmul (m_tmly_beta c) g) in if k < 0 then 0 else k)"
    using assms(2) unfolding timelyDecision_def by (auto simp: bindr_Inr_iff Let_def split: if_splits)
  then show ?thesis
  proof cases
    case high
    then show ?thesis using timely_factor_le_1(1)[OF assms(1) _ high(2)] by simp
  next
    case rising
    then show ?thesis using timely_factor_le_1(2)[OF assms(1)] by simp
  qed
qed

lemma timelyApply_ok:
  assumes "rate_cfg_ok c" "m_cc_mode c = 7" "rates_ok c hi qp" "\<And>k. dec = Some k \<Longrightarrow> k \<le> 1" "timelyApply c us d dec qp = Inr qp'"
  shows "rates_ok c hi qp'"
proof -
  have o: "small_rate (m_max_rate qp)" "rate_in c qp (m_rate qp)" "rate_in c qp (tmly_curRate (tmly qp))"
    using assms(2,3) by (simp_all add: rates_ok_def)
  have g: "small_rate (m_rai c)" "small_rate (m_rhai c)" using assms(1) by (simp_all add: rate_cfg_ok_def)
  have "\<exists>r t. rate_in c qp r \<and> qp' = (if us then qp\<lparr>m_rate := r\<rparr> else qp\<lparr>m_rate := r, tmly := t\<rparr>) \<and> tmly_curRate t = r"
  proof (cases dec)
    case None
    define r where "r = DataRate_plus (tmly_curRate (tmly qp)) (if tmly_incStage (tmly qp) < 5 then m_rai c else m_rhai c)"
    have "m_minRate c \<le> r" unfolding r_def by (rule plus_within[OF o(1) _ o(3)]) (use g in simp)
    then have "rate_in c qp (if r > m_max_rate qp then m_max_rate qp else r)" using o(2) by (auto simp: rate_in_def not_less)
    then show ?thesis using assms(5) unfolding timelyApply_def None option.case Let_def r_def[symmetric]
      by (intro exI[of _ "if r > m_max_rate qp then m_max_rate qp else r"] exI[of _ "(tmly qp)\<lparr>tmly_curRate := (if r > m_max_rate qp then m_max_rate qp else r),
          tmly_incStage := tmly_incStage (tmly qp) + 1, rttDiff := d\<rparr>"]) (cases us; simp)
  next
    case (Some k)
    obtain r where r: "DataRate_mult (tmly_curRate (tmly qp)) k = Inr r"
      and q: "Inr (let r = max (m_minRate c) r; qp = qp\<lparr>m_rate := r\<rparr>
          in (if \<not> us then qp\<lparr>tmly := (tmly qp)\<lparr>tmly_curRate := r, tmly_incStage := 0, rttDiff := d\<rparr>\<rparr> else qp)) = (Inr qp' :: RdmaQueuePair res)"
      using assms(5) unfolding timelyApply_def Some option.case Let_def by (rule bindr_InrE)
    have "rate_in c qp (max (m_minRate c) r)" by (rule decrease_within[OF o(1,3) assms(4)[OF Some] r])
    then show ?thesis using q unfolding Let_def
      by (intro exI[of _ "max (m_minRate c) r"] exI[of _ "(tmly qp)\<lparr>tmly_curRate := max (m_minRate c) r, tmly_incStage := 0, rttDiff := d\<rparr>"])
        (cases us; simp)
  qed
  then obtain r t where r: "rate_in c qp r" "tmly_curRate t = r"
    and q: "qp' = (if us then qp\<lparr>m_rate := r\<rparr> else qp\<lparr>m_rate := r, tmly := t\<rparr>)" by blast
  show ?thesis
  proof (cases us)
    case True
    then show ?thesis using assms(3) r q unfolding rates_ok_def rate_in_def by simp
  next
    case False
    then show ?thesis using assms(3) r q unfolding rates_ok_def rate_in_def by simp
  qed
qed

lemma HandleAckTimely_ok:
  assumes "rate_cfg_ok c" "m_cc_mode c = 7" "rates_ok c hi qp" "HandleAckTimely c e seq ih qp = Inr qp'"
  shows "rates_ok c hi qp'"
proof (cases "seq > tmly_lastUpdateSeq (tmly qp)")
  case True
  define rtt where "rtt = word_of_int (h_now e) - hop ih ! 0"
  have "UpdateRateTimely c e ih False qp = Inr qp'" using assms(4) True by (simp add: HandleAckTimely_def)
  then obtain q1 where q1: "(if tmly_lastUpdateSeq (tmly qp) \<noteq> 0 then timelyReact c rtt False qp else Inr qp) = Inr q1"
    and q': "Inr (if \<not> False \<and> ucast (snd_nxt qp) > tmly_lastUpdateSeq (tmly q1)
           then q1\<lparr>tmly := (tmly q1)\<lparr>tmly_lastUpdateSeq := ucast (snd_nxt qp), lastRtt := rtt\<rparr>\<rparr> else q1) = (Inr qp' :: RdmaQueuePair res)"
    unfolding UpdateRateTimely_def Let_def rtt_def[symmetric] by (rule bindr_InrE)
  have ok1: "rates_ok c hi q1"
  proof (cases "tmly_lastUpdateSeq (tmly qp) \<noteq> 0")
    case True
    obtain d g dec where dec: "timelyDecision c rtt g = Inr dec" and a: "timelyApply c False d dec qp = Inr q1"
      using q1 unfolding if_P[OF True] timelyReact_def Let_def by (elim bindr_InrE)
    have "0 \<le> m_tmly_beta c" using assms(1) by (simp add: rate_cfg_ok_def)
    then show ?thesis using dec by (intro timelyApply_ok[OF assms(1-3) _ a]) (auto intro: timelyDecision_le_1)
  next
    case False
    then show ?thesis using q1 assms(3) by simp
  qed
  have "rates_ok c hi qp' = rates_ok c hi q1"
  proof (cases "tmly_lastUpdateSeq (tmly q1) < ucast (snd_nxt qp)")
    case True
    then show ?thesis using q' by (intro rates_ok_cong) auto
  qed (use q' in simp)
  then show ?thesis using ok1 by simp
next
  case False
  then show ?thesis using assms(3,4) by (simp add: HandleAckTimely_def FastReactTimely_def)
qed

subsection \<open>All steps of a flow\<close>

lemma onQp_Inr: "onQp f (qp, ns) = Inr (qp', ns') \<Longrightarrow> f qp = Inr qp'"
  by (auto simp: onQp_def bindr_Inr_iff)

lemma rateControl_ok:
  assumes "rate_cfg_ok c" "rates_ok c hi qp" "rateControl c e seq cnp ih (qp, ns) = Inr (qp', ns')"
  shows "rates_ok c hi qp'"
proof -
  obtain x where x: "(if cnp \<and> m_cc_mode c = 1 then onQp (cnp_received_mlx c e) (qp, ns) else Inr (qp, ns)) = Inr x"
    and s: "(if m_cc_mode c = 3 then HandleAckHp c e seq ih x
     else if m_cc_mode c = 7 then onQp (HandleAckTimely c e seq ih) x
     else if m_cc_mode c = 8 then onQp (HandleAckDctcp c seq cnp) x
     else if m_cc_mode c = 10 then HandleAckHpPint c e seq ih x
     else Inr x) = Inr (qp', ns')"
    using assms(3) unfolding rateControl_def by (rule bindr_InrE)
  obtain q1 n1 where q1: "x = (q1, n1)" by (cases x)
  have ok1: "rates_ok c hi q1"
  proof (cases "cnp \<and> m_cc_mode c = 1")
    case True
    then have "cnp_received_mlx c e qp = Inr q1" using x onQp_Inr unfolding q1 by simp
    then show ?thesis by (rule cnp_received_mlx_ok[OF assms(1,2)])
  next
    case False
    have "q1 = qp" using x unfolding q1 if_not_P[OF False] by simp
    then show ?thesis using assms(2) by simp
  qed
  consider "m_cc_mode c = 3" | "m_cc_mode c = 7" | "m_cc_mode c = 8" | "m_cc_mode c = 10"
    | "m_cc_mode c \<notin> {3, 7, 8, 10}" by blast
  then show ?thesis
  proof cases
    case 1
    then show ?thesis using HandleAckHp_ok[OF 1 ok1] s unfolding q1 by simp
  next
    case 2
    then show ?thesis using HandleAckTimely_ok[OF assms(1) 2 ok1] onQp_Inr s unfolding q1 by fastforce
  next
    case 3
    then show ?thesis using HandleAckDctcp_ok[OF assms(1) 3 ok1] onQp_Inr s unfolding q1 by fastforce
  next
    case 4
    then show ?thesis using HandleAckHpPint_ok[OF 4 ok1] s unfolding q1 by simp
  next
    case 5
    then show ?thesis using ok1 s unfolding q1 by simp
  qed
qed

text \<open>
  What may happen to a queue pair: an acknowledgement with any telemetry, a timer of DCQCN, or
  sending and acknowledging data, which leaves the rates alone.
\<close>

inductive cc_step :: "hwcfg \<Rightarrow> RdmaQueuePair \<Rightarrow> RdmaQueuePair \<Rightarrow> bool" for c where
  ack: "rateControl c e seq cnp ih (qp, ns) = Inr (qp', ns') \<Longrightarrow> cc_step c qp qp'"
| alpha: "m_cc_mode c = 1 \<Longrightarrow> UpdateAlphaMlx c e qp = Inr qp' \<Longrightarrow> cc_step c qp qp'"
| decrease: "m_cc_mode c = 1 \<Longrightarrow> CheckRateDecreaseMlx c e qp = Inr qp' \<Longrightarrow> cc_step c qp qp'"
| increase: "m_cc_mode c = 1 \<Longrightarrow> RateIncEventTimerMlx c e (m_max_rate qp) qp = Inr qp' \<Longrightarrow> cc_step c qp qp'"
| transport: "cc_step c qp (qp\<lparr>snd_nxt := a, snd_una := b, m_ipid := i, m_nextAvail := t, lastPktSize := l, rates := r\<rparr>)"

inductive cc_reach :: "hwcfg \<Rightarrow> RdmaQueuePair \<Rightarrow> RdmaQueuePair \<Rightarrow> bool" for c qp where
  start: "cc_reach c qp qp"
| step: "cc_reach c qp q \<Longrightarrow> cc_step c q q' \<Longrightarrow> cc_reach c qp q'"

lemma cc_step_ok:
  assumes "cc_step c q q'" "rate_cfg_ok c" "rates_ok c hi q"
  shows "rates_ok c hi q'"
  using assms(1)
proof cases
  case (ack e seq cnp ih ns ns')
  show ?thesis by (rule rateControl_ok[OF assms(2,3) ack])
next
  case (alpha e)
  show ?thesis by (rule UpdateAlphaMlx_ok[OF assms(2,3) alpha(2)])
next
  case (decrease e)
  show ?thesis by (rule CheckRateDecreaseMlx_ok[OF decrease(1) assms(3) decrease(2)])
next
  case (increase e)
  show ?thesis by (rule RateIncEventTimerMlx_ok[OF assms(2) increase(1) assms(3) increase(2)])
next
  case (transport a b i t l r)
  then have "rates_ok c hi q' = rates_ok c hi q" by (intro rates_ok_cong) simp_all
  then show ?thesis using assms(3) by simp
qed

lemma cc_reach_ok:
  assumes "cc_reach c qp q" "rate_cfg_ok c" "rates_ok c hi qp"
  shows "rates_ok c hi q"
  using assms(1)
proof induction
  case (step q q')
  then show ?case using cc_step_ok[OF _ assms(2)] by blast
qed (use assms(3) in simp)

text \<open>
  A new queue pair, as \<^verbatim>\<open>AddQueuePair\<close> makes it from the arguments of a flow and the data rate of
  the card it is assigned to.
\<close>

definition newQp ::
    "hwcfg \<Rightarrow> hwenv \<Rightarrow> qpJunk \<Rightarrow> DataRate \<Rightarrow> u64 \<Rightarrow> u16 \<Rightarrow> u32 \<Rightarrow> u32 \<Rightarrow> u16 \<Rightarrow> u16 \<Rightarrow> u32 \<Rightarrow> u64 \<Rightarrow> time \<Rightarrow> RdmaQueuePair res" where
  "newQp c e j bps sz pg s d sp dp win baseRtt stop =
     initQp c bps win baseRtt (makeQp c e j sz pg s d sp dp win baseRtt stop)"

lemmas set_fields = SetVarWin_def SetBaseRtt_def SetWin_def SetSize_def

lemma initWin_Inr: "initWin win bps baseRtt qp = Inr qp' \<Longrightarrow> \<exists>w. qp' = qp\<lparr>m_win := w\<rparr>"
  by (cases "win = 0") (auto simp: initWin_def SetWin_def elim!: bindr_InrE intro: exI[of _ "m_win qp"])

lemma newQp_ok:
  assumes "small_rate bps" "m_minRate c \<le> bps" "newQp c e j bps sz pg s d sp dp win baseRtt stop = Inr q"
  shows "rates_ok c bps q"
proof -
  obtain w where "q = (initCc c bps ((makeQp c e j sz pg s d sp dp win baseRtt stop)\<lparr>powerEnabled := PowerTCPEnabled c, m_win := w\<rparr>))
      \<lparr>m_max_rate := bps\<rparr>"
    using assms(3) by (auto simp: newQp_def initQp_def elim!: bindr_InrE dest!: initWin_Inr)
  then show ?thesis
    using assms(1,2) by (simp add: initCc_def makeQp_def set_fields RdmaQueuePair_def rates_ok_def rate_in_def Let_def)
qed

definition exampleCfg :: hwcfg where
  "exampleCfg = RdmaHw\<lparr>m_cc_mode := 8, m_ack_interval := 1, m_chunk := 4000\<rparr>"

definition exampleJunk :: qpJunk where
  "exampleJunk = \<lparr>j_lastPktSize = 0, j_prevRtt = 0, j_prevCompletion = 0, j_powerEnabled = False, j_incastFlow = 0,
     j_hop = [0, 0, 0, 0, 0]\<rparr>"

lemma exampleCfg_ok: "rate_cfg_ok exampleCfg"
  by (simp add: rate_cfg_ok_def exampleCfg_def RdmaHw_def small_rate_def rnd_nonneg)

definition exampleHwenv :: "time \<Rightarrow> hwenv" where
  "exampleHwenv t = \<lparr>h_now = t, h_mode = NONE, h_multi = 1, h_pint_bytes = 2, 
     h_libm = \<lparr>lm_log = (\<lambda>_. 0), lm_log2 = (\<lambda>_. 0), lm_pow = (\<lambda>_ _. 0)\<rparr>, h_pint = \<lparr>log_base = 1, log_factor = 1\<rparr>,
     h_rand = 0, h_uninit = 0\<rparr>"

text \<open>
  An example of HPCC with one rate per flow: a window of 25000 bytes and a base round-trip time of 8
  microseconds on a card of 25 Gbit/s.
\<close>

definition hpccCfg :: hwcfg where
  "hpccCfg = RdmaHw\<lparr>m_cc_mode := 3, m_multipleRate := False, m_targetUtil := 1\<rparr>"

definition hpccReport :: "u64 \<Rightarrow> IntHeader" where
  "hpccReport t = \<lparr>hop = [push_bit 3 t + push_bit 47 625, 0, 0, 0, 0], nhop = 1\<rparr>"

lemma hpccCfg_ok: "rate_cfg_ok hpccCfg"
  by (simp add: rate_cfg_ok_def hpccCfg_def RdmaHw_def small_rate_def rnd_nonneg)

lemma nano_eval: "nano = 4835703278458517 / 2 ^ 82"
  unfolding nano_def using rnd_near[of "-30" "1 / 1000000000" 4835703278458517] by (simp add: power_int_minus)

lemma bdp_eval: "bdpOf 25000000000 8000 = Inr 25000"
proof -
  have "rnd (200000000000000 * nano) = 200000"
    using rnd_near[of 17 "200000000000000 * nano" "200000 * 2 ^ 35"] by (simp add: nano_eval power_int_minus)
  then show ?thesis by (simp add: bdpOf_def fmul_def fdiv_def double_eval)
qed

lemma hop_old:
  "GetTimeDelta (hop (hpccReport 8000) ! 0) (hop (hpccReport 0) ! 0) = 8000"
  "GetBytesDelta 1 (hop (hpccReport 8000) ! 0) (hop (hpccReport 0) ! 0) = 0"
  "GetQlen 1 (hop (hpccReport 8000) ! 0) = 50000" "GetQlen 1 (hop (hpccReport 0) ! 0) = 50000"
  "GetLineRate (hop (hpccReport 8000) ! 0) = 25000000000"
  by (simp_all add: hpccReport_def GetTimeDelta_def GetBytesDelta_def GetQlen_def GetLineRate_def int_fields int_consts
     getField_def lineRateValues_def)

text \<open>The first report is stored; the second one, 8 microseconds later, shows twice the window in the queue.\<close>

lemma hpcc_first:
  assumes "hp_lastUpdateSeq (hp q) = 0" "snd_nxt q = 1000"
  shows "rateControl hpccCfg e 1000 False (hpccReport 0) (q, None)
    = Inr (q\<lparr>hp := (hp q)\<lparr>hp_lastUpdateSeq := 1000, hp_hop := storeHops 1 (hpccReport 0) (hp_hop (hp q))\<rparr>\<rparr>, None)"
  using assms by (simp add: rateControl_def HandleAckHp_def UpdateRateHp_def hpccCfg_def RdmaHw_def Let_def
      hpccReport_def maxHop_def)

lemma hpcc_util:
  assumes "m_max_rate q = 25000000000" "m_win q = 25000"
  shows "hopUtil 1 q (hop (hpccReport 8000) ! 0) (hop (hpccReport 0) ! 0) = Inr 2"
proof -
  have "2 powi (- 17) \<le> 8000 * nano" by (simp add: nano_eval power_int_minus)
  from rnd_mono[OF this] have "rnd (8000 * nano) \<noteq> 0" unfolding rnd_powi using powi_2_pos[of "- 17"] by linarith
  then have "hopTxRate 1 (hop (hpccReport 8000) ! 0) (hop (hpccReport 0) ! 0) = Inr 0"
    by (simp add: hopTxRate_def hop_old fmul_def fdiv_def double_eval)
  then show ?thesis
    using assms by (simp add: hopUtil_def hop_old fmul_def fdiv_def fadd_def u32_to_double_def double_eval Let_def)
qed

lemma hpcc_second:
  assumes "hp_lastUpdateSeq (hp q) = 1000" "snd_nxt q = 2000" "m_max_rate q = 25000000000" "m_win q = 25000"
    "m_baseRtt q = 8000" "m_rate q = 25000000000" "hp_curRate (hp q) = 25000000000" "hp_u (hp q) = 1"
    "hp_incStage (hp q) = 0"
    and old: "hp_hop (hp q) ! 0 = hop (hpccReport 0) ! 0"
  shows "\<exists>q' ns. rateControl hpccCfg (exampleHwenv 8000) 2000 False (hpccReport 8000) (q, None) = Inr (q', ns)
     \<and> m_rate q' = 12505000000"
proof -
  let ?e = "exampleHwenv 8000" and ?ih = "hpccReport 8000"
  let ?a = "\<lparr>a_hp = hp q, a_U = 0, a_dt = 0, a_updated = (\<lambda>_. False)\<rparr>"
  have c: "m_cc_mode hpccCfg = 3" "\<not> m_multipleRate hpccCfg" "m_targetUtil hpccCfg = 1" "\<not> m_sampleFeedback hpccCfg"
     "\<not> PowerTCPEnabled hpccCfg" "m_minRate hpccCfg = 100000000" "m_rai hpccCfg = 5000000"
    by (simp_all add: hpccCfg_def RdmaHw_def)
  obtain a where a: "hpHop hpccCfg ?e False ?ih q 0 ?a = Inr a" "a_U a = 2" "a_dt a = 8000" "a_updated a 0"
     "hp_curRate (a_hp a) = 25000000000" "hp_u (a_hp a) = 1" "hp_incStage (a_hp a) = 0"
     "hp_lastUpdateSeq (a_hp a) = 1000"
    using hpcc_util[OF assms(3,4)] hop_old(1) assms
    by (simp add: hpHop_def c old exampleHwenv_def Let_def)
  have n: "unat (nhop ?ih) = 1" by (simp add: hpccReport_def)
  have ewma: "ewma 8000 1 2 8000 = Inr 2" by (simp add: ewma_def fdiv_def fmul_def fadd_def double_eval)
  have step: "hpStep hpccCfg 25000000000 2 25000000000 0 = Inr (12505000000, 0)"
    by (simp add: hpStep_def c DataRate_div_def DataRate_plus_def clampRate_def fdiv_def double_eval)
  have cap: "capToRtt 8000 8000 = Inr 8000" by (simp add: capToRtt_def)
  show ?thesis
    by (simp add: rateControl_def HandleAckHp_def UpdateRateHp_def hpReact_def hpNewRate_def hpCommit_def ChangeRate_def
      c n a assms maxHop_def ewma step cap fdiv_def double_eval CalculateBytesTxTime_def UpdateNextAvail_def Let_def)
qed

lemma hpcc_start:
  "\<exists>q. newQp hpccCfg (exampleHwenv 0) exampleJunk 25000000000 1000000 3 1 2 10000 100 1 8000 MaximumSimulationTime = Inr q
    \<and> m_win q = 25000 \<and> m_baseRtt q = 8000 \<and> m_max_rate q = 25000000000 \<and> m_rate q = 25000000000 \<and> hp_curRate (hp q) = 25000000000
    \<and> hp_u (hp q) = 1 \<and> hp_incStage (hp q) = 0 \<and> hp_lastUpdateSeq (hp q) = 0"
  by (simp add: newQp_def initQp_def initWin_def bdp_eval trunc_u32_def truncz_def initCc_def makeQp_def set_fields RdmaQueuePair_def
      hpccCfg_def RdmaHw_def Let_def)




end
