(* ===== verification/Rdma_Egress.thy ===== *)
theory Rdma_Egress
  imports Rdma_Rate_Bounds Switch_Node
begin

text \<open>
  The egress queue of an RDMA host (\<^verbatim>\<open>RdmaEgressQueue\<close>, qbb-net-device.cc 89-215): a queue of
  acknowledgements that goes first, and the queue pairs of the card, served in round robin,
  alternating with the queue of TCP/IP packets.  Queue pairs are shared objects: the group holds
  references, and \<open>look\<close> is what they point to.
\<close>

subsection \<open>Packets of a host\<close>

record hpkt = spkt +
  p_seq :: u32
  p_flags :: u16
  p_ipid :: u16
  p_cnp :: "u8 \<times> u16 \<times> u8 \<times> u16 \<times> u16"

definition ack_q_idx :: nat where "ack_q_idx = 3"
definition tcpip_q_idx :: nat where "tcpip_q_idx = 1"

subsection \<open>The queue\<close>

record RdmaEgressQueue =
  rq_qlast :: int
  rq_rrlast :: u32
  m_ackQ :: "hpkt queue"
  m_qpGrp :: "nat list"
  hostDequeueIndex :: u64

text \<open>The constructor leaves \<^verbatim>\<open>hostDequeueIndex\<close> unset.\<close>

definition RdmaEgressQueue :: "u64 \<Rightarrow> RdmaEgressQueue" where
  "RdmaEgressQueue junk = \<lparr>rq_qlast = 0, rq_rrlast = 0,
     m_ackQ = QueueBase\<lparr>m_maxSize := \<lparr>qs_unit = BYTES, qs_value = 0xffffffff\<rparr>\<rparr>,
     m_qpGrp = [], hostDequeueIndex = junk\<rparr>"

definition canSend :: "(nat \<Rightarrow> bool) \<Rightarrow> RdmaQueuePair \<Rightarrow> bool res" where
  "canSend pz qp =
     (if unat (m_pg qp) \<ge> qCnt then Inl OutOfBounds
      else if pz (unat (m_pg qp)) then Inr False
      else if GetBytesLeft qp = 0 then Inr False
      else bindr (IsWinBound qp) (\<lambda>b. Inr (\<not> b)))"

definition scanIdx :: "nat \<Rightarrow> u32 \<Rightarrow> nat \<Rightarrow> nat" where
  "scanIdx fcount rrlast qIndex = unat (of_nat qIndex + rrlast) mod fcount"

fun scanQps ::
    "time \<Rightarrow> (nat \<Rightarrow> bool) \<Rightarrow> (nat \<Rightarrow> RdmaQueuePair) \<Rightarrow> nat list \<Rightarrow> nat option \<Rightarrow> (int \<times> nat option) res" where
  "scanQps now pz qp [] fin = Inr (-1024, fin)"
| "scanQps now pz qp (idx # rest) fin =
     bindr (canSend pz (qp idx)) (\<lambda>ok.
     if ok then
       (if m_nextAvail (qp idx) > now then scanQps now pz qp rest fin else Inr (int idx, fin))
     else if qp_IsFinished now (qp idx) then
       scanQps now pz qp rest (Some (case fin of None \<Rightarrow> idx | Some m \<Rightarrow> min idx m))
     else scanQps now pz qp rest fin)"

text \<open>The loop that removes the finished queue pairs, moving the others to the front.\<close>

fun compact ::
    "time \<Rightarrow> (nat \<Rightarrow> RdmaQueuePair) \<Rightarrow> nat list \<Rightarrow> nat \<Rightarrow> int \<Rightarrow> nat list \<Rightarrow> nat list \<times> int" where
  "compact now look [] nxt res qps = (take nxt qps, res)"
| "compact now look (i # is) nxt res qps =
     (if \<not> qp_IsFinished now (look (qps ! i))
      then compact now look is (Suc nxt) (if int i = res then int nxt else res) (qps[nxt := qps ! i])
      else compact now look is nxt res qps)"

definition pickQp ::
    "time \<Rightarrow> (nat \<Rightarrow> bool) \<Rightarrow> (nat \<Rightarrow> RdmaQueuePair) \<Rightarrow> u32 \<Rightarrow> nat list \<Rightarrow> (nat list \<times> int) res" where
  "pickQp now pz look rrlast grp =
     (let n = length grp in
      bindr (scanQps now pz (\<lambda>i. look (grp ! i)) (map (scanIdx n rrlast) [1..<Suc n]) None) (\<lambda>(res, fin).
      Inr (case fin of None \<Rightarrow> (grp, res) | Some m \<Rightarrow> compact now look [Suc m..<n] m res grp)))"

definition nextRound ::
    "time \<Rightarrow> (nat \<Rightarrow> bool) \<Rightarrow> (nat \<Rightarrow> RdmaQueuePair) \<Rightarrow> u32 \<Rightarrow> RdmaEgressQueue \<Rightarrow> (RdmaEgressQueue \<times> int) res" where
  "nextRound now pz look tcpBytes q =
     (let q = q\<lparr>hostDequeueIndex := hostDequeueIndex q + 1\<rparr> in
      if hostDequeueIndex q mod 2 \<noteq> 0 then
        bindr (pickQp now pz look (rq_rrlast q) (m_qpGrp q)) (\<lambda>(grp, res). Inr (q\<lparr>m_qpGrp := grp\<rparr>, res))
      else Inr (q, if tcpBytes \<noteq> 0 then -2 else -1024))"

definition GetNextQindex ::
    "time \<Rightarrow> (nat \<Rightarrow> bool) \<Rightarrow> (nat \<Rightarrow> RdmaQueuePair) \<Rightarrow> u32 \<Rightarrow> RdmaEgressQueue \<Rightarrow> (RdmaEgressQueue \<times> int) res" where
  "GetNextQindex now pz look tcpBytes q =
     (if \<not> pz ack_q_idx \<and> m_nPackets (m_ackQ q) > 0 then Inr (q, -1)
      else
        bindr (nextRound now pz look tcpBytes q) (\<lambda>(q, res).
        if res \<noteq> -1024 then Inr (q, res) else nextRound now pz look tcpBytes q))"

definition EnqueueHighPrioQ :: "hpkt \<Rightarrow> RdmaEgressQueue \<Rightarrow> RdmaEgressQueue res" where
  "EnqueueHighPrioQ p q = bindr (DropTail_Enqueue p_size p (m_ackQ q)) (\<lambda>(a, _). Inr (q\<lparr>m_ackQ := a\<rparr>))"

fun CleanHighPrio :: "nat \<Rightarrow> RdmaEgressQueue \<Rightarrow> RdmaEgressQueue res" where
  "CleanHighPrio 0 q = Inl Diverge"
| "CleanHighPrio (Suc n) q =
     (if m_nPackets (m_ackQ q) > 0 then
        bindr (DropTail_Dequeue p_size (m_ackQ q)) (\<lambda>(a, r).
        case r of None \<Rightarrow> Inl NullDeref | Some _ \<Rightarrow> CleanHighPrio n (q\<lparr>m_ackQ := a\<rparr>))
      else Inr q)"

definition rq_GetNBytes :: "(nat \<Rightarrow> RdmaQueuePair) \<Rightarrow> nat \<Rightarrow> RdmaEgressQueue \<Rightarrow> u32 res" where
  "rq_GetNBytes look qIndex q =
     (if qIndex < length (m_qpGrp q) then Inr (ucast (GetBytesLeft (look (m_qpGrp q ! qIndex)))) else Inl Assert)"

definition rq_RecoverQueue ::
    "nat \<Rightarrow> RdmaEgressQueue \<Rightarrow> (nat \<Rightarrow> RdmaQueuePair) \<Rightarrow> (nat \<Rightarrow> RdmaQueuePair) res" where
  "rq_RecoverQueue i q look =
     (if i < length (m_qpGrp q)
      then let r = m_qpGrp q ! i in Inr (look(r := (look r)\<lparr>snd_nxt := snd_una (look r)\<rparr>))
      else Inl Assert)"

subsection \<open>The scan\<close>

definition ready :: "time \<Rightarrow> (nat \<Rightarrow> bool) \<Rightarrow> RdmaQueuePair \<Rightarrow> bool" where
  "ready now pz qp \<longleftrightarrow> canSend pz qp = Inr True \<and> m_nextAvail qp \<le> now"

lemma scanQps_spec:
  assumes "\<forall>i\<in>set L. \<exists>b. canSend pz (qp i) = Inr b"
  shows "\<exists>res fin'. scanQps now pz qp L fin = Inr (res, fin')
    \<and> (fin' = fin \<or> (\<exists>m. fin' = Some m \<and> (m \<in> set L \<or> fin = Some m)))
    \<and> (\<forall>m. fin' = Some m \<longrightarrow> fin = Some m \<or> (m \<in> set L \<and> qp_IsFinished now (qp m) \<and> canSend pz (qp m) = Inr False))
    \<and> ((\<exists>i\<in>set L. res = int i \<and> ready now pz (qp i)) \<or> (res = -1024 \<and> (\<forall>i\<in>set L. \<not> ready now pz (qp i))))"
  using assms
proof (induction L arbitrary: fin)
  case (Cons i L)
  then obtain b where b: "canSend pz (qp i) = Inr b" by auto
  show ?case
  proof (cases b)
    case True
    show ?thesis
    proof (cases "m_nextAvail (qp i) > now")
      case wait: True
      then have "\<not> ready now pz (qp i)" by (simp add: ready_def)
      then show ?thesis using Cons.IH[of fin] Cons.prems b True wait by auto
    next
      case False
      then show ?thesis using b True by (auto simp: ready_def)
    qed
  next
    case False
    define f where "f = (if qp_IsFinished now (qp i) then Some (case fin of None \<Rightarrow> i | Some m \<Rightarrow> min i m) else fin)"
    have f: "f = fin \<or> f = Some i \<and> qp_IsFinished now (qp i)" by (auto simp: f_def min_def split: option.split)
    have "scanQps now pz qp (i # L) fin = scanQps now pz qp L f" using b False by (simp add: f_def)
    moreover have "\<not> ready now pz (qp i)" using b False by (simp add: ready_def)
    ultimately show ?thesis using Cons.IH[of f] Cons.prems f b False by auto
  qed
qed simp

lemma compact_spec:
  assumes "nxt \<le> s" "s \<le> length qps" "compact now look [s..<length qps] nxt res qps = (g, r)"
  defines "U \<equiv> \<lambda>x. \<not> qp_IsFinished now (look x)"
  shows "g = take nxt qps @ filter U (drop s qps)
    \<and> (if \<exists>i. s \<le> i \<and> i < length qps \<and> res = int i \<and> U (qps ! i)
       then (\<exists>j<length g. r = int j \<and> g ! j = qps ! nat res) else r = res)"
  using assms(1-3)
proof (induction "length qps - s" arbitrary: s nxt res qps)
  case 0
  then have s: "s = length qps" by simp
  then show ?case using 0 by auto
next
  case (Suc k)
  have s: "s < length qps" using Suc.hyps(2) by simp
  then have up: "[s..<length qps] = s # [Suc s..<length qps]" by (simp add: upt_conv_Cons)
  have dr: "drop s qps = qps ! s # drop (Suc s) qps" using s by (simp add: Cons_nth_drop_Suc)
  show ?case
  proof (cases "U (qps ! s)")
    case True
    define qps' where "qps' = qps[nxt := qps ! s]"
    define res' where "res' = (if int s = res then int nxt else res)"
    have l: "length qps' = length qps" by (simp add: qps'_def)
    have c: "compact now look [Suc s..<length qps'] (Suc nxt) res' qps' = (g, r)"
      using Suc.prems(3) True by (simp add: up l qps'_def res'_def U_def)
    have d: "drop (Suc s) qps' = drop (Suc s) qps" using Suc.prems(1) by (simp add: qps'_def)
    have t: "take (Suc nxt) qps' = take nxt qps @ [qps ! s]"
      using Suc.prems(1) s by (simp add: qps'_def take_Suc_conv_app_nth)
    have k: "k = length qps' - Suc s" "Suc nxt \<le> Suc s" "Suc s \<le> length qps'" using Suc.hyps(2) Suc.prems(1) s l by auto
    note IH = Suc.hyps(1)[OF k c]
    have g: "g = take nxt qps @ qps ! s # filter U (drop (Suc s) qps)"
      using IH by (simp add: d t)
    show ?thesis
    proof (cases "res = int s")
      case eq: True
      have "r = int nxt" using IH eq Suc.prems(1) by (auto simp: res'_def split: if_splits)
      moreover have "g ! nxt = qps ! s" "nxt < length g" using g Suc.prems(1) s by (simp_all add: nth_append)
      ultimately show ?thesis using g eq s True by (auto simp: dr)
    next
      case ne: False
      have n: "qps' ! i = qps ! i" if "Suc s \<le> i" for i using that Suc.prems(1) by (simp add: qps'_def)
      have e: "(Suc s \<le> i \<and> i < length qps' \<and> res' = int i \<and> U (qps' ! i)) = (s \<le> i \<and> i < length qps \<and> res = int i \<and> U (qps ! i))" for i
        using ne n[of i] l by (cases "i = s") (auto simp: res'_def)
      have "if \<exists>i. s \<le> i \<and> i < length qps \<and> res = int i \<and> U (qps ! i)
        then \<exists>j<length g. r = int j \<and> g ! j = qps' ! nat res' else r = res'"
        using IH unfolding e by (rule conjunct2)
      moreover have "res' = res" using ne by (simp add: res'_def)
      moreover have "qps' ! nat res = qps ! nat res" if "\<exists>i. s \<le> i \<and> i < length qps \<and> res = int i \<and> U (qps ! i)"
      proof -
        from that obtain i where "s \<le> i" "res = int i" by blast
        then show ?thesis using n[of i] ne by (cases "i = s") auto
      qed
      ultimately have "if \<exists>i. s \<le> i \<and> i < length qps \<and> res = int i \<and> U (qps ! i)
        then \<exists>j<length g. r = int j \<and> g ! j = qps ! nat res else r = res"
        by (cases "\<exists>i. s \<le> i \<and> i < length qps \<and> res = int i \<and> U (qps ! i)") (simp_all only: if_True if_False)
      moreover have "g = take nxt qps @ filter U (drop s qps)" using g True by (simp add: dr)
      ultimately show ?thesis by blast
    qed
  next
    case False
    have c: "compact now look [Suc s..<length qps] nxt res qps = (g, r)"
      using Suc.prems(3) False by (simp add: up U_def)
    have e: "(Suc s \<le> i \<and> i < length qps \<and> res = int i \<and> U (qps ! i)) = (s \<le> i \<and> i < length qps \<and> res = int i \<and> U (qps ! i))" for i
      using False by (cases "i = s") auto
    have k: "k = length qps - Suc s" "nxt \<le> Suc s" "Suc s \<le> length qps" using Suc.hyps(2) Suc.prems(1) s by auto
    have f: "filter U (drop s qps) = filter U (drop (Suc s) qps)" using False by (simp add: dr)
    from Suc.hyps(1)[OF k c] show ?thesis unfolding e f .
  qed
qed

lemma scanIdx_all:
  assumes "unat rr + n < 2 ^ 32"
  shows "set (map (scanIdx n rr) [1..<Suc n]) = {..<n}"
proof (cases "n = 0")
  case False
  have i: "scanIdx n rr k = (k + unat rr) mod n" if "k \<le> n" for k
  proof -
    have "unat (of_nat k + rr) = k + unat rr" using that assms by (simp add: unat_word_ariths unat_of_nat)
    then show ?thesis by (simp add: scanIdx_def)
  qed
  have "\<exists>k\<in>{1..n}. (k + unat rr) mod n = j" if "j < n" for j
  proof -
    define k where "k = (j + n * unat rr - unat rr) mod n"
    have "(k + unat rr) mod n = (j + n * unat rr - unat rr + unat rr) mod n" by (simp add: k_def mod_add_left_eq)
    moreover have "unat rr \<le> n * unat rr" using False by simp
    ultimately have m: "(k + unat rr) mod n = j" using that by simp
    show ?thesis
    proof (cases "k = 0")
      case True
      then show ?thesis using m False by (intro bexI[of _ n]) auto
    next
      case ne: False
      have "k < n" using False by (simp add: k_def)
      then show ?thesis using m ne by (intro bexI[of _ k]) auto
    qed
  qed
  then have "{..<n} \<subseteq> (\<lambda>k. (k + unat rr) mod n) ` {1..n}" by fastforce
  moreover have "(\<lambda>k. (k + unat rr) mod n) ` {1..n} \<subseteq> {..<n}" using False by auto
  moreover have "set (map (scanIdx n rr) [1..<Suc n]) = (\<lambda>k. (k + unat rr) mod n) ` {1..n}"
  proof -
    have "set [1..<Suc n] = {1..n}" by auto
    then have "set (map (scanIdx n rr) [1..<Suc n]) = scanIdx n rr ` {1..n}" by (simp only: set_map)
    also have "\<dots> = (\<lambda>k. (k + unat rr) mod n) ` {1..n}" using i by (intro image_cong) auto
    finally show ?thesis .
  qed
  ultimately show ?thesis by blast
qed simp

definition grp_ok :: "time \<Rightarrow> (nat \<Rightarrow> RdmaQueuePair) \<Rightarrow> RdmaEgressQueue \<Rightarrow> bool" where
  "grp_ok now look q \<longleftrightarrow> unat (rq_rrlast q) + length (m_qpGrp q) < 2 ^ 31
   \<and> (\<forall>r\<in>set (m_qpGrp q). unat (m_pg (look r)) < qCnt \<and> (\<exists>w. GetWin (look r) = Inr w)
        \<and> (GetBytesLeft (look r) \<noteq> 0 \<longrightarrow> \<not> qp_IsFinished now (look r)))"

lemma canSend_total: "unat (m_pg qp) < qCnt \<Longrightarrow> GetWin qp = Inr w \<Longrightarrow> \<exists>b. canSend pz qp = Inr b"
  by (cases "pz (unat (m_pg qp))"; cases "GetBytesLeft qp = 0") (auto simp: canSend_def IsWinBound_def)

lemma canSend_bytes: "canSend pz qp = Inr True \<Longrightarrow> GetBytesLeft qp \<noteq> 0"
  by (auto simp: canSend_def split: if_splits)

lemma pickQp_spec:
  assumes "grp_ok now look q"
  defines "U \<equiv> \<lambda>r. \<not> qp_IsFinished now (look r)"
  shows "\<exists>g res. pickQp now pz look (rq_rrlast q) (m_qpGrp q) = Inr (g, res)
    \<and> filter U g = filter U (m_qpGrp q) \<and> set g \<subseteq> set (m_qpGrp q) \<and> length g \<le> length (m_qpGrp q)
    \<and> ((\<exists>i<length g. res = int i \<and> ready now pz (look (g ! i)))
       \<or> (res = -1024 \<and> (\<forall>r\<in>set (m_qpGrp q). \<not> ready now pz (look r))))"
proof -
  let ?grp = "m_qpGrp q" and ?n = "length (m_qpGrp q)"
  let ?L = "map (scanIdx ?n (rq_rrlast q)) [1..<Suc ?n]"
  have L: "set ?L = {..<?n}" using assms(1) by (intro scanIdx_all) (simp add: grp_ok_def)
  have tot: "\<forall>i\<in>set ?L. \<exists>b. canSend pz (look (?grp ! i)) = Inr b"
  proof
    fix i assume "i \<in> set ?L"
    then have "?grp ! i \<in> set ?grp" unfolding L by simp
    then obtain w where "unat (m_pg (look (?grp ! i))) < qCnt" "GetWin (look (?grp ! i)) = Inr w"
      using assms(1) by (auto simp: grp_ok_def)
    then show "\<exists>b. canSend pz (look (?grp ! i)) = Inr b" by (rule canSend_total)
  qed
  obtain res fin where sc: "scanQps now pz (\<lambda>i. look (?grp ! i)) ?L None = Inr (res, fin)"
    and fin: "\<forall>m. fin = Some m \<longrightarrow> m \<in> set ?L \<and> qp_IsFinished now (look (?grp ! m)) \<and> canSend pz (look (?grp ! m)) = Inr False"
    and r: "(\<exists>i\<in>set ?L. res = int i \<and> ready now pz (look (?grp ! i))) \<or> (res = -1024 \<and> (\<forall>i\<in>set ?L. \<not> ready now pz (look (?grp ! i))))"
    using scanQps_spec[OF tot, of now None] by auto
  have r': "(\<exists>i<?n. res = int i \<and> ready now pz (look (?grp ! i)) \<and> U (?grp ! i)) \<or> (res = -1024 \<and> (\<forall>r\<in>set ?grp. \<not> ready now pz (look r)))"
    using r assms(1) canSend_bytes unfolding L by (fastforce simp: grp_ok_def ready_def U_def in_set_conv_nth)
  show ?thesis
  proof (cases fin)
    case None
    then have "pickQp now pz look (rq_rrlast q) ?grp = Inr (?grp, res)" using sc by (simp add: pickQp_def)
    then show ?thesis using r' by auto
  next
    case (Some m)
    then have m: "m < ?n" "\<not> U (?grp ! m)" "\<not> ready now pz (look (?grp ! m))" using fin L by (auto simp: U_def ready_def)
    obtain g res' where c: "compact now look [Suc m..<?n] m res ?grp = (g, res')" by fastforce
    have "m \<le> Suc m" "Suc m \<le> ?n" using m by simp_all
    note C = compact_spec[OF this c, folded U_def]
    have g: "g = take m ?grp @ filter U (drop (Suc m) ?grp)" using C by blast
    have grp: "?grp = take m ?grp @ ?grp ! m # drop (Suc m) ?grp" using m(1) by (simp add: id_take_nth_drop)
    have fl: "filter U g = filter U ?grp" using arg_cong[OF grp, of "filter U"] m(2) by (simp add: g)
    have st: "set g \<subseteq> set ?grp" unfolding g by (auto dest: in_set_takeD in_set_dropD)
    have ln: "length g \<le> ?n" using m(1) length_filter_le[of U "drop (Suc m) ?grp"] by (simp add: g)
    have "(\<exists>i<length g. res' = int i \<and> ready now pz (look (g ! i))) \<or> (res' = -1024 \<and> (\<forall>r\<in>set ?grp. \<not> ready now pz (look r)))"
    proof (cases "res = -1024")
      case True
      then show ?thesis using C r' by auto
    next
      case False
      then obtain i where i: "i < ?n" "res = int i" "ready now pz (look (?grp ! i))" "U (?grp ! i)" using r' by blast
      show ?thesis
      proof (cases "Suc m \<le> i")
        case True
        then have "\<exists>i. Suc m \<le> i \<and> i < ?n \<and> res = int i \<and> U (?grp ! i)" using i by blast
        then obtain j where "j < length g" "res' = int j" "g ! j = ?grp ! i" using C i(2) by (auto simp: U_def)
        then show ?thesis using i(3) by auto
      next
        case False
        have "i < m" using False i(3) m(3) by (metis not_less_eq_eq nat_less_le)
        moreover have "res' = res" using C False i by auto
        ultimately show ?thesis using i m(1) by (auto simp: g nth_append)
      qed
    qed
    then show ?thesis using sc Some c fl st ln by (auto simp: pickQp_def)
  qed
qed

subsection \<open>The choice\<close>

lemma round_parity: "((h :: u64) + 1) mod 2 \<noteq> 0 \<longleftrightarrow> (h + 1 + 1) mod 2 = 0"
  by (simp add: mod_2_eq_odd)

definition pick_ok ::
    "time \<Rightarrow> (nat \<Rightarrow> bool) \<Rightarrow> (nat \<Rightarrow> RdmaQueuePair) \<Rightarrow> u32 \<Rightarrow> nat list \<Rightarrow> nat list \<Rightarrow> int \<Rightarrow> bool" where
  "pick_ok now pz look tcpBytes grp g res \<longleftrightarrow>
     filter (\<lambda>r. \<not> qp_IsFinished now (look r)) g = filter (\<lambda>r. \<not> qp_IsFinished now (look r)) grp
   \<and> set g \<subseteq> set grp
   \<and> ((\<exists>i<length g. res = int i \<and> ready now pz (look (g ! i)))
      \<or> res = -2 \<and> tcpBytes \<noteq> 0
      \<or> res = -1024 \<and> tcpBytes = 0 \<and> (\<forall>r\<in>set grp. \<not> ready now pz (look r)))"

lemma nextRound_qp:
  assumes "grp_ok now look q" "(hostDequeueIndex q + 1) mod 2 \<noteq> 0"
  obtains g res where "nextRound now pz look tcp q = Inr (q\<lparr>hostDequeueIndex := hostDequeueIndex q + 1, m_qpGrp := g\<rparr>, res)"
    and "filter (\<lambda>r. \<not> qp_IsFinished now (look r)) g = filter (\<lambda>r. \<not> qp_IsFinished now (look r)) (m_qpGrp q)"
    and "set g \<subseteq> set (m_qpGrp q)"
    and "(\<exists>i<length g. res = int i \<and> ready now pz (look (g ! i))) \<or> res = -1024 \<and> (\<forall>r\<in>set (m_qpGrp q). \<not> ready now pz (look r))"
  using pickQp_spec[OF assms(1), of pz] assms(2) that by (auto simp: nextRound_def Let_def)

lemma nextRound_tcp:
  assumes "(hostDequeueIndex q + 1) mod 2 = 0"
  shows "nextRound now pz look tcp q = Inr (q\<lparr>hostDequeueIndex := hostDequeueIndex q + 1\<rparr>, if tcp \<noteq> 0 then -2 else -1024)"
  using assms by (simp add: nextRound_def Let_def)

definition noAck :: "(nat \<Rightarrow> bool) \<Rightarrow> RdmaEgressQueue \<Rightarrow> bool" where
  "noAck pz q \<longleftrightarrow> \<not> (\<not> pz ack_q_idx \<and> m_nPackets (m_ackQ q) > 0)"

lemma GetNextQindex_rounds:
  "noAck pz q \<Longrightarrow> GetNextQindex now pz look tcpBytes q = bindr (nextRound now pz look tcpBytes q) (\<lambda>(q, res).
     if res \<noteq> -1024 then Inr (q, res) else nextRound now pz look tcpBytes q)"
  unfolding GetNextQindex_def noAck_def by (rule if_not_P)

lemma GetNextQindex_qp_first:
  assumes "grp_ok now look q" "noAck pz q" "(hostDequeueIndex q + 1) mod 2 \<noteq> 0"
  obtains q' res where "GetNextQindex now pz look tcpBytes q = Inr (q', res)" "m_ackQ q' = m_ackQ q"
    "rq_rrlast q' = rq_rrlast q" "pick_ok now pz look tcpBytes (m_qpGrp q) (m_qpGrp q') res"
proof -
  from nextRound_qp[OF assms(1,3), of pz tcpBytes] obtain g res
    where n: "nextRound now pz look tcpBytes q = Inr (q\<lparr>hostDequeueIndex := hostDequeueIndex q + 1, m_qpGrp := g\<rparr>, res)"
      and r: "filter (\<lambda>r. \<not> qp_IsFinished now (look r)) g = filter (\<lambda>r. \<not> qp_IsFinished now (look r)) (m_qpGrp q)"
        "set g \<subseteq> set (m_qpGrp q)"
        "(\<exists>i<length g. res = int i \<and> ready now pz (look (g ! i))) \<or> res = -1024 \<and> (\<forall>r\<in>set (m_qpGrp q). \<not> ready now pz (look r))" .
  define q1 where "q1 = q\<lparr>hostDequeueIndex := hostDequeueIndex q + 1, m_qpGrp := g\<rparr>"
  have p: "(hostDequeueIndex q1 + 1) mod 2 = 0" using assms(3) round_parity[of "hostDequeueIndex q"] by (simp add: q1_def)
  show ?thesis
  proof (cases "res = -1024")
    case True
    show ?thesis
    proof (rule that)
      show "GetNextQindex now pz look tcpBytes q =
          Inr (q1\<lparr>hostDequeueIndex := hostDequeueIndex q1 + 1\<rparr>, if tcpBytes \<noteq> 0 then -2 else -1024)"
        using n nextRound_tcp[OF p, of now pz look tcpBytes] assms(2) True by (simp add: GetNextQindex_rounds q1_def)
    qed (use r True in \<open>auto simp: pick_ok_def q1_def\<close>)
  next
    case False
    show ?thesis
    proof (rule that)
      show "GetNextQindex now pz look tcpBytes q = Inr (q1, res)"
        using n assms(2) False by (simp add: GetNextQindex_rounds q1_def)
    qed (use r False in \<open>auto simp: pick_ok_def q1_def\<close>)
  qed
qed

lemma GetNextQindex_tcp_first:
  assumes "grp_ok now look q" "noAck pz q" "(hostDequeueIndex q + 1) mod 2 = 0"
  obtains q' res where "GetNextQindex now pz look tcpBytes q = Inr (q', res)" "m_ackQ q' = m_ackQ q"
    "rq_rrlast q' = rq_rrlast q" "pick_ok now pz look tcpBytes (m_qpGrp q) (m_qpGrp q') res"
proof -
  define q1 where "q1 = q\<lparr>hostDequeueIndex := hostDequeueIndex q + 1\<rparr>"
  have n: "nextRound now pz look tcpBytes q = Inr (q1, if tcpBytes \<noteq> 0 then -2 else -1024)"
    using assms(3) by (simp add: nextRound_tcp q1_def)
  show ?thesis
  proof (cases "tcpBytes = 0")
    case False
    show ?thesis
    proof (rule that)
      show "GetNextQindex now pz look tcpBytes q = Inr (q1, -2)" using n assms(2) False by (simp add: GetNextQindex_rounds)
    qed (use False in \<open>auto simp: pick_ok_def q1_def\<close>)
  next
    case True
    have "grp_ok now look q1" using assms(1) by (simp add: grp_ok_def q1_def)
    moreover have "(hostDequeueIndex q1 + 1) mod 2 \<noteq> 0" using assms(3) round_parity[of "hostDequeueIndex q"] by (simp add: q1_def)
    ultimately obtain g res
      where m: "nextRound now pz look tcpBytes q1 = Inr (q1\<lparr>hostDequeueIndex := hostDequeueIndex q1 + 1, m_qpGrp := g\<rparr>, res)"
      and r: "filter (\<lambda>r. \<not> qp_IsFinished now (look r)) g = filter (\<lambda>r. \<not> qp_IsFinished now (look r)) (m_qpGrp q1)"
        "set g \<subseteq> set (m_qpGrp q1)"
        "(\<exists>i<length g. res = int i \<and> ready now pz (look (g ! i))) \<or> res = -1024 \<and> (\<forall>r\<in>set (m_qpGrp q1). \<not> ready now pz (look r))"
      by (rule nextRound_qp)
    show ?thesis
    proof (rule that)
      show "GetNextQindex now pz look tcpBytes q = Inr (q1\<lparr>hostDequeueIndex := hostDequeueIndex q1 + 1, m_qpGrp := g\<rparr>, res)"
        using n m True unfolding GetNextQindex_rounds[OF assms(2)] by simp
    qed (use r True in \<open>auto simp: pick_ok_def q1_def\<close>)
  qed
qed

text \<open>
  C12. The choice of the next packet of a host.  If the queue pairs of the card have valid
  priorities and windows and none has run past its stop time with bytes left, the call returns; it
  only drops finished queue pairs, keeping the others in order; an acknowledgement that is not
  paused goes first; an index it returns is that of a queue pair that may send now, in the group
  as it is after the call; -2 means that TCP/IP bytes wait, and -1024 that no queue pair may send
  and no TCP/IP bytes wait.
\<close>
theorem GetNextQindex_ok:
  assumes "grp_ok now look q"
  shows "\<exists>q' res. GetNextQindex now pz look tcpBytes q = Inr (q', res)
    \<and> m_ackQ q' = m_ackQ q \<and> rq_rrlast q' = rq_rrlast q
    \<and> (if \<not> pz ack_q_idx \<and> m_nPackets (m_ackQ q) > 0 then res = -1 \<and> q' = q
       else pick_ok now pz look tcpBytes (m_qpGrp q) (m_qpGrp q') res)"
proof (cases "noAck pz q")
  case False
  then show ?thesis by (simp add: GetNextQindex_def noAck_def)
next
  case True
  then have "\<exists>q' res. GetNextQindex now pz look tcpBytes q = Inr (q', res) \<and> m_ackQ q' = m_ackQ q
      \<and> rq_rrlast q' = rq_rrlast q \<and> pick_ok now pz look tcpBytes (m_qpGrp q) (m_qpGrp q') res"
    using GetNextQindex_qp_first[OF assms True] GetNextQindex_tcp_first[OF assms True] by metis
  then show ?thesis using True by (auto simp: noAck_def)
qed

definition exampleQp :: "u64 \<Rightarrow> u32 \<Rightarrow> RdmaQueuePair" where
  "exampleQp n win = (initCc exampleCfg 25000000000 (RdmaQueuePair exampleJunk 0 3 1 2 10000 100))
     \<lparr>m_max_rate := 25000000000, m_size := n, m_win := win\<rparr>"

lemma exampleQp_fields [simp]:
  "m_size (exampleQp n w) = n" "m_win (exampleQp n w) = w" "snd_nxt (exampleQp n w) = 0" "snd_una (exampleQp n w) = 0"
  "m_pg (exampleQp n w) = 3" "powerEnabled (exampleQp n w) = False" "m_var_win (exampleQp n w) = False"
  "stopTime (exampleQp n w) = MaximumSimulationTime" "m_nextAvail (exampleQp n w) = 0"
  by (simp_all add: exampleQp_def initCc_def RdmaQueuePair_def exampleCfg_def RdmaHw_def exampleJunk_def Let_def)

theorem GetNextQindex_ok_witness:
  "\<exists>q' res. GetNextQindex 0 (\<lambda>_. False) (\<lambda>_. exampleQp 1000 0) 0 ((RdmaEgressQueue 0)\<lparr>m_qpGrp := [7]\<rparr>) = Inr (q', res) \<and> 0 \<le> res"
proof -
  let ?q = "(RdmaEgressQueue 0)\<lparr>m_qpGrp := [7]\<rparr>" and ?l = "\<lambda>_ :: nat. exampleQp 1000 0"
  have w: "GetWin (exampleQp 1000 0) = Inr 0" by (simp add: GetWin_def)
  have ok: "grp_ok 0 ?l ?q"
    by (simp add: grp_ok_def RdmaEgressQueue_def w qCnt_def qp_IsFinished_def MaximumSimulationTime_def)
  have r: "ready 0 (\<lambda>_. False) (exampleQp 1000 0)"
    by (simp add: ready_def canSend_def w IsWinBound_def qCnt_def GetBytesLeft_def)
  have a: "m_nPackets (m_ackQ ?q) = 0" by (simp add: RdmaEgressQueue_def QueueBase_def)
  obtain q' res where g: "GetNextQindex 0 (\<lambda>_. False) ?l 0 ?q = Inr (q', res)"
    and "pick_ok 0 (\<lambda>_. False) ?l 0 [7] (m_qpGrp q') res"
    using GetNextQindex_ok[OF ok, of "\<lambda>_. False" 0] a by auto
  then have "0 \<le> res" using r by (auto simp: pick_ok_def)
  then show ?thesis using g by blast
qed

end
