(* ===== verification/Rdma_Host.thy ===== *)
theory Rdma_Host
  imports Rdma_Egress Murmur_Hash
begin

text \<open>
  An RDMA host: \<^verbatim>\<open>RdmaHw\<close> (point-to-point/model/rdma-hw.cc, 184-634) and its network cards,
  \<^verbatim>\<open>QbbNetDevice\<close> in host mode (qbb-net-device.cc).  Queue pairs are shared between the map of
  the host, the group of a card and the event handlers, so they live in a store (\<open>h_qps\<close>) and are
  referred to by number.  What leaves the host is recorded: \<open>h_wire\<close> lists the packets handed to
  the channels, \<open>h_done\<close> the queue pairs the completion callback was called for, \<open>h_up\<close> the TCP
  packets passed to the protocol stack.
\<close>

subsection \<open>State\<close>

record nic =
  m_rdmaEQ :: RdmaEgressQueue
  d_queue :: "hpkt beq"
  d_busy :: bool
  d_currentPkt :: "hpkt option"
  d_linkUp :: bool
  d_paused :: "nat \<Rightarrow> bool"
  d_qbbEnabled :: bool
  d_bps :: DataRate
  m_tInterframeGap :: time
  m_nextSend :: "time option"
  d_numTxBytes :: u64
  d_totalBytesSent :: u64

record host =
  h_cfg :: hwcfg
  h_qps :: "nat \<Rightarrow> RdmaQueuePair"
  h_fresh :: nat
  m_qpMap :: "u64 \<rightharpoonup> nat"
  m_rxQpMap :: "u64 \<rightharpoonup> RdmaRxQueuePair"
  h_rtTable :: "u32 \<rightharpoonup> u32 list"
  m_nic :: "nic option list"
  h_wire :: "(nat \<times> hpkt) list"
  h_done :: "nat list"
  h_up :: "(nat \<times> hpkt) list"

definition getNic :: "nat \<Rightarrow> host \<Rightarrow> nic res" where
  "getNic i h =
     (if i < length (m_nic h) then (case m_nic h ! i of None \<Rightarrow> Inl NullDeref | Some d \<Rightarrow> Inr d)
      else Inl OutOfBounds)"

definition putNic :: "nat \<Rightarrow> nic \<Rightarrow> host \<Rightarrow> host" where
  "putNic i d h = h\<lparr>m_nic := (m_nic h)[i := Some d]\<rparr>"

definition putQp :: "nat \<Rightarrow> RdmaQueuePair \<Rightarrow> host \<Rightarrow> host" where
  "putQp r qp h = h\<lparr>h_qps := (h_qps h)(r := qp)\<rparr>"

text \<open>The driver makes one entry per device and shares an empty group with each card.\<close>

definition RdmaDriver_Init :: "nic option list \<Rightarrow> host \<Rightarrow> host" where
  "RdmaDriver_Init devs h =
     h\<lparr>m_nic := m_nic h @ map (map_option (\<lambda>d. d\<lparr>m_rdmaEQ := (m_rdmaEQ d)\<lparr>m_qpGrp := []\<rparr>\<rparr>)) devs\<rparr>"

subsection \<open>Routing and lookup\<close>

definition routeOf :: "u32 \<Rightarrow> u32 \<Rightarrow> host \<Rightarrow> nat res" where
  "routeOf dst hash h =
     (case h_rtTable h dst of
        None \<Rightarrow> Inl Assert
      | Some v \<Rightarrow> if v = [] then Inl Assert else Inr (unat (v ! (unat hash mod length v))))"

definition qp_GetHash :: "RdmaQueuePair \<Rightarrow> u32" where
  "qp_GetHash qp = Hash32 (flowBytes (sip qp) (dip qp) (sport qp) (dport qp))"

definition rx_GetHash :: "RdmaRxQueuePair \<Rightarrow> u32" where
  "rx_GetHash q = Hash32 (flowBytes (rx_sip q) (rx_dip q) (rx_sport q) (rx_dport q))"

definition GetNicIdxOfQp :: "RdmaQueuePair \<Rightarrow> host \<Rightarrow> nat res" where
  "GetNicIdxOfQp qp h = routeOf (dip qp) (qp_GetHash qp) h"

definition GetNicIdxOfRxQp :: "RdmaRxQueuePair \<Rightarrow> host \<Rightarrow> nat res" where
  "GetNicIdxOfRxQp q h = routeOf (rx_dip q) (rx_GetHash q) h"

definition GetQpKey :: "u32 \<Rightarrow> u16 \<Rightarrow> u16 \<Rightarrow> u64" where
  "GetQpKey d sp pg = push_bit 32 (ucast d) OR push_bit 16 (ucast sp) OR ucast pg"

definition GetQp :: "u32 \<Rightarrow> u16 \<Rightarrow> u16 \<Rightarrow> host \<Rightarrow> nat option" where
  "GetQp d sp pg h = m_qpMap h (GetQpKey d sp pg)"

definition DeleteQueuePair :: "nat \<Rightarrow> host \<Rightarrow> host" where
  "DeleteQueuePair r h =
     (let qp = h_qps h r in h\<lparr>m_qpMap := (m_qpMap h)(GetQpKey (dip qp) (sport qp) (m_pg qp) := None)\<rparr>)"

definition rxKey :: "u32 \<Rightarrow> u16 \<Rightarrow> u16 \<Rightarrow> u64" where
  "rxKey d pg dp = push_bit 32 (ucast d) OR push_bit 16 (ucast pg) OR ucast dp"

definition GetRxQp :: "u32 \<Rightarrow> u32 \<Rightarrow> u16 \<Rightarrow> u16 \<Rightarrow> u16 \<Rightarrow> bool \<Rightarrow> host \<Rightarrow> host \<times> RdmaRxQueuePair option" where
  "GetRxQp s d sp dp pg create h =
     (case m_rxQpMap h (rxKey d pg dp) of
        Some q \<Rightarrow> (h, Some q)
      | None \<Rightarrow>
          if create then
            let q = RdmaRxQueuePair\<lparr>rx_sip := s, rx_dip := d, rx_sport := sp, rx_dport := dp,
                      m_ecn_source := (m_ecn_source RdmaRxQueuePair)\<lparr>ea_qIndex := pg\<rparr>\<rparr>
            in (h\<lparr>m_rxQpMap := (m_rxQpMap h)(rxKey d pg dp \<mapsto> q)\<rparr>, Some q)
          else (h, None))"

definition DeleteRxQp :: "u32 \<Rightarrow> u16 \<Rightarrow> u16 \<Rightarrow> host \<Rightarrow> host" where
  "DeleteRxQp d pg dp h = h\<lparr>m_rxQpMap := (m_rxQpMap h)(rxKey d pg dp := None)\<rparr>"

definition hw_AddTableEntry :: "u32 \<Rightarrow> u32 \<Rightarrow> host \<Rightarrow> host" where
  "hw_AddTableEntry dst intf_idx h =
     h\<lparr>h_rtTable := (h_rtTable h)(dst \<mapsto> (case h_rtTable h dst of None \<Rightarrow> [] | Some v \<Rightarrow> v) @ [intf_idx])\<rparr>"

definition hw_ClearTable :: "host \<Rightarrow> host" where
  "hw_ClearTable h = h\<lparr>h_rtTable := Map.empty\<rparr>"

subsection \<open>Header sizes\<close>

definition intSize :: "Mode \<Rightarrow> u32" where
  "intSize m = of_nat (IntHeader_GetStaticSize m)"

definition GetUdpHeaderSize :: "Mode \<Rightarrow> u32" where
  "GetUdpHeaderSize m = 8 + 2 + 4 + intSize m"

definition udpHeaders :: "Mode \<Rightarrow> u32" where
  "udpHeaders m = 14 + 20 + GetUdpHeaderSize m"

definition qbbHeader_GetSerializedSize :: "Mode \<Rightarrow> u32" where
  "qbbHeader_GetSerializedSize m = 2 + 2 + 2 + 2 + 4 + intSize m"

subsection \<open>Sending\<close>

text \<open>The header of a data packet carries the time in the time-stamp mode of the telemetry.\<close>

definition SeqTs_ih :: "hwenv \<Rightarrow> IntHeader" where
  "SeqTs_ih e = (if h_mode e = TS then IntHeader_init\<lparr>hop := (hop IntHeader_init)[0 := of_int (h_now e)]\<rparr> else IntHeader_init)"

definition nxtPayload :: "hwcfg \<Rightarrow> RdmaQueuePair \<Rightarrow> u32" where
  "nxtPayload c qp = (let n = ucast (GetBytesLeft qp) in if m_mtu c < n then m_mtu c else n)"

definition dataPkt :: "hwenv \<Rightarrow> bool \<Rightarrow> u32 \<Rightarrow> RdmaQueuePair \<Rightarrow> hpkt" where
  "dataPkt e unsched payload qp =
     \<lparr>p_size = payload + udpHeaders (h_mode e), p_src = sip qp, p_dst = dip qp, p_proto = 0x11,
      p_sport = sport qp, p_dport = dport qp, p_pg = m_pg qp, p_prio = None,
      p_unsched = Some (if unsched then 1 else 0), p_in = None, p_ecn = 0, p_int = SeqTs_ih e, p_fb = None,
      p_pfc = (0, 0, 0), p_seq = ucast (snd_nxt qp), p_flags = 0, p_ipid = m_ipid qp, p_cnp = (0, 0, 0, 0, 0)\<rparr>"

text \<open>What \<^verbatim>\<open>GetNxtPacket\<close> does to the queue pair.\<close>

definition advance :: "hwcfg \<Rightarrow> RdmaQueuePair \<Rightarrow> RdmaQueuePair" where
  "advance c qp = qp\<lparr>snd_nxt := snd_nxt qp + ucast (nxtPayload c qp), m_ipid := m_ipid qp + 1\<rparr>"

definition GetNxtPacket :: "hwenv \<Rightarrow> nat \<Rightarrow> host \<Rightarrow> (host \<times> hpkt) res" where
  "GetNxtPacket e r h =
     (let qp = h_qps h r; payload = nxtPayload (h_cfg h) qp; sentBytes = ucast (m_size qp - GetBytesLeft qp) in
      bindr (GetNicIdxOfQp qp h) (\<lambda>i.
      bindr (getNic i h) (\<lambda>d.
      bindr (bdpOf (d_bps d) (m_baseRtt qp)) (\<lambda>bdp.
      Inr (putQp r (advance (h_cfg h) qp) h, dataPkt e (u32_to_double sentBytes \<le> bdp) payload qp)))))"

definition hw_UpdateNextAvail :: "hwcfg \<Rightarrow> hwenv \<Rightarrow> time \<Rightarrow> u32 \<Rightarrow> RdmaQueuePair \<Rightarrow> RdmaQueuePair res" where
  "hw_UpdateNextAvail c e gap n qp =
     bindr (CalculateBytesTxTime (if m_rateBound c then m_rate qp else m_max_rate qp) n) (\<lambda>t.
     Inr (qp\<lparr>m_nextAvail := h_now e + (gap + t)\<rparr>))"

definition PktSent :: "hwcfg \<Rightarrow> hwenv \<Rightarrow> time \<Rightarrow> u32 \<Rightarrow> RdmaQueuePair \<Rightarrow> RdmaQueuePair res" where
  "PktSent c e gap n qp =
     hw_UpdateNextAvail c e gap n
       (qp\<lparr>lastPktSize := n, rates := (rates qp)(ucast (snd_nxt qp) \<mapsto> nowDouble e)\<rparr>)"

definition nic_TransmitStart :: "nat \<Rightarrow> hpkt \<Rightarrow> nic \<Rightarrow> host \<Rightarrow> host res" where
  "nic_TransmitStart i p d h =
     (if d_busy d then Inl Assert
      else Inr ((putNic i (d\<lparr>d_busy := True, d_currentPkt := Some p\<rparr>) h)\<lparr>h_wire := h_wire h @ [(i, p)]\<rparr>))"

definition countSent :: "nat \<Rightarrow> bool \<Rightarrow> u32 \<Rightarrow> host \<Rightarrow> host res" where
  "countSent i tx n h =
     bindr (getNic i h) (\<lambda>d.
     Inr (putNic i (d\<lparr>d_numTxBytes := (if tx then d_numTxBytes d + ucast n else d_numTxBytes d),
                     d_totalBytesSent := d_totalBytesSent d + ucast n\<rparr>) h))"

definition sendAck :: "nat \<Rightarrow> nic \<Rightarrow> host \<Rightarrow> host res" where
  "sendAck i d h =
     bindr (DropTail_Dequeue p_size (m_ackQ (m_rdmaEQ d))) (\<lambda>(a, r).
     case r of None \<Rightarrow> Inl NullDeref
     | Some p \<Rightarrow>
         bindr (nic_TransmitStart i p (d\<lparr>m_rdmaEQ := (m_rdmaEQ d)\<lparr>m_ackQ := a, rq_qlast := -1\<rparr>\<rparr>) h)
           (countSent i True (p_size p)))"

definition sendTcp :: "nat \<Rightarrow> nic \<Rightarrow> host \<Rightarrow> host res" where
  "sendTcp i d h =
     bindr (DequeueRR p_size (d_paused d) (d_queue d)) (\<lambda>(q, r).
     case r of None \<Rightarrow> Inr (putNic i (d\<lparr>d_queue := q\<rparr>) h)
     | Some p \<Rightarrow> bindr (nic_TransmitStart i p (d\<lparr>d_queue := q\<rparr>) h) (countSent i False (p_size p)))"

definition sendQp :: "hwenv \<Rightarrow> nat \<Rightarrow> nat \<Rightarrow> nic \<Rightarrow> host \<Rightarrow> host res" where
  "sendQp e i qIndex d h =
     (if qIndex \<ge> length (m_qpGrp (m_rdmaEQ d)) then Inl OutOfBounds
      else
        let r = m_qpGrp (m_rdmaEQ d) ! qIndex in
        bindr (GetNxtPacket e r h) (\<lambda>(h, p).
        bindr (nic_TransmitStart i p (d\<lparr>m_rdmaEQ := (m_rdmaEQ d)\<lparr>rq_rrlast := of_nat qIndex, rq_qlast := int qIndex\<rparr>\<rparr>) h) (\<lambda>h.
        bindr (PktSent (h_cfg h) e (m_tInterframeGap d) (p_size p) (h_qps h r)) (\<lambda>qp.
        countSent i False (p_size p) (putQp r qp h)))))"

text \<open>The earliest time a queue pair with bytes left may send.\<close>

fun minAvail :: "(nat \<Rightarrow> RdmaQueuePair) \<Rightarrow> nat list \<Rightarrow> time \<Rightarrow> time" where
  "minAvail look [] t = t"
| "minAvail look (r # rs) t =
     minAvail look rs (if GetBytesLeft (look r) = 0 then t else min (m_nextAvail (look r)) t)"

definition waitForQps :: "hwenv \<Rightarrow> nat \<Rightarrow> nic \<Rightarrow> host \<Rightarrow> host" where
  "waitForQps e i d h =
     (let t = minAvail (h_qps h) (m_qpGrp (m_rdmaEQ d)) MaximumSimulationTime in
      if m_nextSend d = None \<and> t < MaximumSimulationTime \<and> t > h_now e
      then putNic i (d\<lparr>m_nextSend := Some t\<rparr>) h else putNic i d h)"

definition nic_DequeueAndTransmit :: "hwenv \<Rightarrow> nat \<Rightarrow> host \<Rightarrow> host res" where
  "nic_DequeueAndTransmit e i h =
     bindr (getNic i h) (\<lambda>d.
     if \<not> d_linkUp d then Inr h
     else if d_busy d then Inr h
     else
       bindr (beq_GetNBytes tcpip_q_idx (d_queue d)) (\<lambda>tcp.
       bindr (GetNextQindex (h_now e) (d_paused d) (h_qps h) tcp (m_rdmaEQ d)) (\<lambda>(eq, qIndex).
       let d = d\<lparr>m_rdmaEQ := eq\<rparr> in
       if qIndex = -1024 then Inr (waitForQps e i d h)
       else if qIndex = -1 then sendAck i d h
       else if qIndex = -2 then sendTcp i d h
       else sendQp e i (nat qIndex) d h)))"

definition NewQp :: "hwenv \<Rightarrow> nat \<Rightarrow> nat \<Rightarrow> host \<Rightarrow> host res" where
  "NewQp e i r h = nic_DequeueAndTransmit e i (putQp r ((h_qps h r)\<lparr>m_nextAvail := h_now e\<rparr>) h)"

subsection \<open>Queue pairs\<close>

definition addToGroup :: "nat \<Rightarrow> nat \<Rightarrow> host \<Rightarrow> host res" where
  "addToGroup i r h =
     bindr (getNic i h) (\<lambda>d.
     Inr (putNic i (d\<lparr>m_rdmaEQ := (m_rdmaEQ d)\<lparr>m_qpGrp := m_qpGrp (m_rdmaEQ d) @ [r]\<rparr>\<rparr>) h))"

definition startQp :: "hwenv \<Rightarrow> nat \<Rightarrow> nat \<Rightarrow> u32 \<Rightarrow> u64 \<Rightarrow> host \<Rightarrow> host res" where
  "startQp e i r win baseRtt h =
     bindr (getNic i h) (\<lambda>dev.
     bindr (initQp (h_cfg h) (d_bps dev) win baseRtt (h_qps h r)) (\<lambda>qp. NewQp e i r (putQp r qp h)))"

definition AddQueuePair ::
    "hwenv \<Rightarrow> qpJunk \<Rightarrow> u64 \<Rightarrow> u16 \<Rightarrow> u32 \<Rightarrow> u32 \<Rightarrow> u16 \<Rightarrow> u16 \<Rightarrow> u32 \<Rightarrow> u64 \<Rightarrow> time \<Rightarrow> host \<Rightarrow> host res" where
  "AddQueuePair e j sz pg s d sp dp win baseRtt stop h =
     (let qp = makeQp (h_cfg h) e j sz pg s d sp dp win baseRtt stop; r = h_fresh h in
      bindr (GetNicIdxOfQp qp h) (\<lambda>i.
      bindr (addToGroup i r (putQp r qp h)) (\<lambda>h.
      startQp e i r win baseRtt (h\<lparr>h_fresh := Suc r, m_qpMap := (m_qpMap h)(GetQpKey d sp pg \<mapsto> r)\<rparr>))))"

definition clearGroups :: "host \<Rightarrow> host" where
  "clearGroups h = h\<lparr>m_nic := map (map_option (\<lambda>d. d\<lparr>m_rdmaEQ := (m_rdmaEQ d)\<lparr>m_qpGrp := []\<rparr>\<rparr>)) (m_nic h)\<rparr>"

definition reassign :: "hwenv \<Rightarrow> nat \<Rightarrow> host \<Rightarrow> host res" where
  "reassign e r h =
     bindr (GetNicIdxOfQp (h_qps h r) h) (\<lambda>i. bindr (addToGroup i r h) (nic_DequeueAndTransmit e i))"

text \<open>\<open>order\<close> is the order in which the unordered map \<^verbatim>\<open>m_qpMap\<close> is walked.\<close>

definition RedistributeQp :: "hwenv \<Rightarrow> nat list \<Rightarrow> host \<Rightarrow> host res" where
  "RedistributeQp e order h = loopr (reassign e) order (clearGroups h)"

definition QpComplete :: "nat \<Rightarrow> host \<Rightarrow> host" where
  "QpComplete r h =
     (let qp = h_qps h r;
          qp = (if m_cc_mode (h_cfg h) = 1
                then qp\<lparr>mlx := (mlx qp)\<lparr>m_eventUpdateAlpha := None, m_eventDecreaseRate := None, m_rpTimer := None\<rparr>\<rparr>
                else qp);
          h = putQp r qp h
      in DeleteQueuePair r (h\<lparr>h_done := h_done h @ [r]\<rparr>))"

definition RecoverQueue :: "RdmaQueuePair \<Rightarrow> RdmaQueuePair" where
  "RecoverQueue qp = qp\<lparr>snd_nxt := snd_una qp\<rparr>"

subsection \<open>Receiving data\<close>

text \<open>
  \<^verbatim>\<open>ReceiverCheckSeq\<close>: 1 asks for an acknowledgement, 2 for a negative one; the other codes send
  nothing.
\<close>

definition ReceiverCheckSeq :: "hwcfg \<Rightarrow> time \<Rightarrow> u32 \<Rightarrow> u32 \<Rightarrow> RdmaRxQueuePair \<Rightarrow> (RdmaRxQueuePair \<times> nat) res" where
  "ReceiverCheckSeq c now seq n q =
     (let expected = ReceiverNextExpectedSeq q in
      if seq = expected then
        let q = q\<lparr>ReceiverNextExpectedSeq := expected + n\<rparr> in
        if ReceiverNextExpectedSeq q \<ge> m_milestone_rx q
        then Inr (q\<lparr>m_milestone_rx := m_milestone_rx q + m_ack_interval c\<rparr>, 1)
        else if m_chunk c = 0 then Inl NotFinite
        else if ReceiverNextExpectedSeq q mod m_chunk c = 0 then Inr (q, 1)
        else Inr (q, 5)
      else if seq > expected then
        (if now \<ge> m_nackTimer q \<or> m_lastNACK q \<noteq> expected then
           bindr (MicroSeconds (m_nack_interval c)) (\<lambda>d.
           let q = q\<lparr>m_nackTimer := now + d, m_lastNACK := expected\<rparr> in
           if m_backto0 c then
             (if m_chunk c = 0 then Inl NotFinite
              else Inr (q\<lparr>ReceiverNextExpectedSeq := ReceiverNextExpectedSeq q div m_chunk c * m_chunk c\<rparr>, 2))
           else Inr (q, 2))
         else Inr (q, 4))
      else Inr (q, 3))"

definition ackPkt :: "hwenv \<Rightarrow> bool \<Rightarrow> hpkt \<Rightarrow> RdmaRxQueuePair \<Rightarrow> hpkt" where
  "ackPkt e nack p q =
     (let hs = qbbHeader_GetSerializedSize (h_mode e);
          pad = of_nat (60 - 14 - 20 - unat hs) in
      \<lparr>p_size = pad + hs + 20 + 14, p_src = p_dst p, p_dst = p_src p, p_proto = (if nack then 0xFD else 0xFC),
       p_sport = p_dport p, p_dport = p_sport p, p_pg = p_pg p, p_prio = None, p_unsched = None, p_in = None,
       p_ecn = 0, p_int = p_int p, p_fb = None, p_pfc = (0, 0, 0), p_seq = ReceiverNextExpectedSeq q,
       p_flags = (if p_ecn p \<noteq> 0 then 1 else 0), p_ipid = rx_ipid q, p_cnp = (0, 0, 0, 0, 0)\<rparr>)"

definition RdmaEnqueueHighPrioQ :: "nat \<Rightarrow> hpkt \<Rightarrow> host \<Rightarrow> host res" where
  "RdmaEnqueueHighPrioQ i p h =
     bindr (getNic i h) (\<lambda>d. bindr (EnqueueHighPrioQ p (m_rdmaEQ d)) (\<lambda>eq. Inr (putNic i (d\<lparr>m_rdmaEQ := eq\<rparr>) h)))"

text \<open>The account of marked packets, and the milestone, which is set on every packet.\<close>

definition noteEcn :: "hwcfg \<Rightarrow> u8 \<Rightarrow> RdmaRxQueuePair \<Rightarrow> RdmaRxQueuePair" where
  "noteEcn c ecn q =
     (let a = m_ecn_source q;
          a = (if ecn \<noteq> 0 then a\<lparr>ea_ecnbits := ea_ecnbits a OR ecn, ea_qfb := ea_qfb a + 1\<rparr> else a)
      in q\<lparr>m_ecn_source := a\<lparr>ea_total := ea_total a + 1\<rparr>, m_milestone_rx := m_ack_interval c\<rparr>)"

definition ReceiveUdp :: "hwenv \<Rightarrow> hpkt \<Rightarrow> host \<Rightarrow> host res" where
  "ReceiveUdp e p h =
     (let payload = p_size p - udpHeaders (h_mode e); key = rxKey (p_src p) (p_pg p) (p_sport p) in
      case GetRxQp (p_dst p) (p_src p) (p_dport p) (p_sport p) (p_pg p) True h of
        (h, None) \<Rightarrow> Inl NullDeref
      | (h, Some q) \<Rightarrow>
          bindr (ReceiverCheckSeq (h_cfg h) (h_now e) (p_seq p) payload (noteEcn (h_cfg h) (p_ecn p) q)) (\<lambda>(q, x).
          if x = 1 \<or> x = 2 then
            let a = ackPkt e (x = 2) p q; q = q\<lparr>rx_ipid := rx_ipid q + 1\<rparr>;
                h = h\<lparr>m_rxQpMap := (m_rxQpMap h)(key \<mapsto> q)\<rparr> in
            bindr (GetNicIdxOfRxQp q h) (\<lambda>i.
            bindr (RdmaEnqueueHighPrioQ i a h) (nic_DequeueAndTransmit e i))
          else Inr (h\<lparr>m_rxQpMap := (m_rxQpMap h)(key \<mapsto> q)\<rparr>)))"

subsection \<open>Receiving acknowledgements\<close>

definition ReceiveCnp :: "hpkt \<Rightarrow> host \<Rightarrow> host res" where
  "ReceiveCnp p h =
     (let (qIndex, fid, ecn, qfb, total) = p_cnp p in
      if qIndex = 1 then Inr h
      else
        case GetQp (p_src p) fid (ucast qIndex) h of
          None \<Rightarrow> Inl NullDeref
        | Some r \<Rightarrow>
            let qp = h_qps h r in
            bindr (GetNicIdxOfQp qp h) (\<lambda>i.
            bindr (getNic i h) (\<lambda>d.
            if m_rate qp = 0 then Inr (putQp r (initCc (h_cfg h) (d_bps d) qp) h) else Inr h)))"

definition ackSeq :: "hwcfg \<Rightarrow> u32 \<Rightarrow> u32 res" where
  "ackSeq c seq =
     (if \<not> m_backto0 c then Inr seq
      else if m_chunk c = 0 then Inl NotFinite else Inr (seq div m_chunk c * m_chunk c))"

definition takeAck :: "hwenv \<Rightarrow> nat \<Rightarrow> u32 \<Rightarrow> host \<Rightarrow> host res" where
  "takeAck e r seq h =
     (if m_ack_interval (h_cfg h) = 0 then Inr h
      else
        bindr (ackSeq (h_cfg h) seq) (\<lambda>s.
        let qp = Acknowledge (ucast s) (h_qps h r); h = putQp r qp h in
        Inr (if qp_IsFinished (h_now e) qp then QpComplete r h else h)))"

definition ReceiveAck :: "hwenv \<Rightarrow> hpkt \<Rightarrow> host \<Rightarrow> host res" where
  "ReceiveAck e p h =
     (case GetQp (p_src p) (p_dport p) (p_pg p) h of
        None \<Rightarrow> Inr h
      | Some r \<Rightarrow>
          bindr (GetNicIdxOfQp (h_qps h r) h) (\<lambda>i.
          bindr (takeAck e r (p_seq p) h) (\<lambda>h.
          let h = (if p_proto p = 0xFD then putQp r (RecoverQueue (h_qps h r)) h else h) in
          bindr (getNic i h) (\<lambda>d.
          bindr (rateControl (h_cfg h) e (p_seq p) (p_flags p AND 1 = 1) (p_int p) (h_qps h r, m_nextSend d)) (\<lambda>(qp, ns).
          nic_DequeueAndTransmit e i (putNic i (d\<lparr>m_nextSend := ns\<rparr>) (putQp r qp h)))))))"

definition hw_Receive :: "hwenv \<Rightarrow> hpkt \<Rightarrow> host \<Rightarrow> host res" where
  "hw_Receive e p h =
     (if p_proto p = 0x11 then ReceiveUdp e p h
      else if p_proto p = 0xFF then ReceiveCnp p h
      else if p_proto p = 0xFD then ReceiveAck e p h
      else if p_proto p = 0xFC then ReceiveAck e p h
      else Inr h)"

subsection \<open>The card\<close>

definition nic_TransmitComplete :: "hwenv \<Rightarrow> nat \<Rightarrow> host \<Rightarrow> host res" where
  "nic_TransmitComplete e i h =
     bindr (getNic i h) (\<lambda>d.
     if \<not> d_busy d then Inl Assert
     else if d_currentPkt d = None then Inl Assert
     else nic_DequeueAndTransmit e i (putNic i (d\<lparr>d_busy := False, d_currentPkt := None\<rparr>) h))"

definition nic_Resume :: "hwenv \<Rightarrow> nat \<Rightarrow> nat \<Rightarrow> host \<Rightarrow> host res" where
  "nic_Resume e i q h =
     bindr (getNic i h) (\<lambda>d.
     if q \<ge> qCnt then Inl OutOfBounds
     else if \<not> d_paused d q then Inl Assert
     else nic_DequeueAndTransmit e i (putNic i (d\<lparr>d_paused := (d_paused d)(q := False)\<rparr>) h))"

text \<open>\<open>corrupt\<close> is the verdict of the error model of the device.\<close>

definition nic_Receive :: "hwenv \<Rightarrow> bool \<Rightarrow> nat \<Rightarrow> hpkt \<Rightarrow> host \<Rightarrow> host res" where
  "nic_Receive e corrupt i p h =
     bindr (getNic i h) (\<lambda>d.
     if \<not> d_linkUp d then Inr h
     else if corrupt then Inr h
     else if p_proto p = 0xFE then
       (if \<not> d_qbbEnabled d then Inr h
        else
          let (t, _, q) = p_pfc p in
          if t > 0 then
            (if unat q \<ge> qCnt then Inl OutOfBounds
             else Inr (putNic i (d\<lparr>d_paused := (d_paused d)(unat q := True)\<rparr>) h))
          else nic_Resume e i (unat q) h)
     else if p_proto p = 0x06 then Inr (h\<lparr>h_up := h_up h @ [(i, p\<lparr>p_size := p_size p - 14\<rparr>)]\<rparr>)
     else hw_Receive e p h)"

text \<open>A packet of the protocol stack; the link-layer header is added here.\<close>

definition nic_Send :: "hwenv \<Rightarrow> nat \<Rightarrow> hpkt \<Rightarrow> host \<Rightarrow> (host \<times> bool) res" where
  "nic_Send e i p h =
     bindr (getNic i h) (\<lambda>d.
     if \<not> d_linkUp d then Inr (h, False)
     else
       bindr (BEgressQueue_Enqueue p_size (p\<lparr>p_size := p_size p + 14\<rparr>) tcpip_q_idx (d_queue d)) (\<lambda>(q, _).
       bindr (nic_DequeueAndTransmit e i (putNic i (d\<lparr>d_queue := q\<rparr>) h)) (\<lambda>h. Inr (h, True))))"

definition nic_TakeDown :: "nat \<Rightarrow> nat \<Rightarrow> host \<Rightarrow> host res" where
  "nic_TakeDown fuel i h =
     bindr (getNic i h) (\<lambda>d.
     bindr (CleanHighPrio fuel (m_rdmaEQ d)) (\<lambda>eq.
     Inr (putNic i (d\<lparr>m_rdmaEQ := eq, d_linkUp := False\<rparr>) h)))"

text \<open>The timers: the wake-up of a card and the timers of DCQCN.\<close>

definition wakeUp :: "hwenv \<Rightarrow> nat \<Rightarrow> host \<Rightarrow> host res" where
  "wakeUp e i h =
     bindr (getNic i h) (\<lambda>d. nic_DequeueAndTransmit e i (putNic i (d\<lparr>m_nextSend := None\<rparr>) h))"

datatype mlxTimer = AlphaTimer | DecreaseTimer | IncreaseTimer

definition fireMlx :: "hwenv \<Rightarrow> mlxTimer \<Rightarrow> nat \<Rightarrow> host \<Rightarrow> host res" where
  "fireMlx e t r h =
     (let qp = h_qps h r in
      bindr (case t of
               AlphaTimer \<Rightarrow> UpdateAlphaMlx (h_cfg h) e qp
             | DecreaseTimer \<Rightarrow> CheckRateDecreaseMlx (h_cfg h) e qp
             | IncreaseTimer \<Rightarrow>
                 if m_rpTimeStage (mlx qp) < m_rpgThreshold (h_cfg h) then RateIncEventTimerMlx (h_cfg h) e 0 qp
                 else bindr (GetNicIdxOfQp qp h) (\<lambda>i. bindr (getNic i h) (\<lambda>d. RateIncEventTimerMlx (h_cfg h) e (d_bps d) qp)))
        (\<lambda>qp. Inr (putQp r qp h)))"

end
