(* ===== verification/Rdma_Frame.thy ===== *)
theory Rdma_Frame
  imports Rdma_Rate_Bounds
begin

text \<open>
  Rate control and transport do not interfere: no rate-control function and no timer changes the
  size of a flow, how far it has been sent and acknowledged, its identity or its deadline.  The
  proofs use a small calculus: \<open>okr P m\<close> says that every value the computation \<open>m\<close> returns
  satisfies \<open>P\<close>; its rules follow the structure of the program.
\<close>

subsection \<open>Partial correctness of results\<close>

definition okr :: "('a \<Rightarrow> bool) \<Rightarrow> 'a res \<Rightarrow> bool" where
  "okr P m \<longleftrightarrow> (\<forall>x. m = Inr x \<longrightarrow> P x)"

lemma okrD: "okr P m \<Longrightarrow> m = Inr x \<Longrightarrow> P x"
  by (simp add: okr_def)

lemma okr_Inl [simp, intro]: "okr P (Inl e)"
  by (simp add: okr_def)

lemma okr_Inr: "okr P (Inr x) = P x"
  by (simp add: okr_def)

lemma okr_bind:
  assumes "okr Q m" "\<And>x. Q x \<Longrightarrow> okr P (f x)"
  shows "okr P (bindr m f)"
  using assms by (auto simp: okr_def bindr_Inr_iff)

lemma okr_any: "(\<And>x. okr P (f x)) \<Longrightarrow> okr P (bindr m f)"
  by (auto simp: okr_def bindr_Inr_iff)

lemma okr_if: "(b \<Longrightarrow> okr P x) \<Longrightarrow> (\<not> b \<Longrightarrow> okr P y) \<Longrightarrow> okr P (if b then x else y)"
  by simp

lemma okr_prod: "(\<And>a b. x = (a, b) \<Longrightarrow> okr P (f a b)) \<Longrightarrow> okr P (case x of (a, b) \<Rightarrow> f a b)"
  by (cases x) simp

lemma okr_option: "(x = None \<Longrightarrow> okr P a) \<Longrightarrow> (\<And>y. x = Some y \<Longrightarrow> okr P (f y)) \<Longrightarrow> okr P (case x of None \<Rightarrow> a | Some y \<Rightarrow> f y)"
  by (cases x) simp_all

lemma okr_mono: "okr Q m \<Longrightarrow> (\<And>x. Q x \<Longrightarrow> P x) \<Longrightarrow> okr P m"
  by (simp add: okr_def)

lemmas okr_steps = okr_any okr_if okr_prod okr_option

subsection \<open>What rate control leaves alone\<close>

definition tp :: "RdmaQueuePair \<Rightarrow> u64 \<times> u64 \<times> u64 \<times> time \<times> u32 \<times> u32 \<times> u16 \<times> u16 \<times> u16" where
  "tp q = (m_size q, snd_nxt q, snd_una q, stopTime q, sip q, dip q, sport q, dport q, m_pg q)"

lemma tp_upd [simp]:
  "tp (q\<lparr>m_rate := r\<rparr>) = tp q" "tp (q\<lparr>m_nextAvail := t\<rparr>) = tp q" "tp (q\<lparr>mlx := a\<rparr>) = tp q" "tp (q\<lparr>hp := b\<rparr>) = tp q"
  "tp (q\<lparr>tmly := d\<rparr>) = tp q" "tp (q\<lparr>dctcp := f\<rparr>) = tp q" "tp (q\<lparr>hpccPint := g\<rparr>) = tp q" "tp (q\<lparr>rates := h\<rparr>) = tp q"
  "tp (q\<lparr>prevRtt := x\<rparr>) = tp q" "tp (q\<lparr>prevCompletion := x\<rparr>) = tp q" "tp (q\<lparr>m_baseRtt := v\<rparr>) = tp q"
  "tp (q\<lparr>lastPktSize := l\<rparr>) = tp q"
  by (simp_all add: tp_def)

abbreviation keep_tp :: "(RdmaQueuePair \<Rightarrow> RdmaQueuePair res) \<Rightarrow> bool" where
  "keep_tp f \<equiv> \<forall>q. okr (\<lambda>q'. tp q' = tp q) (f q)"

abbreviation keep_tpd :: "(qpdev \<Rightarrow> qpdev res) \<Rightarrow> bool" where
  "keep_tpd f \<equiv> \<forall>q ns. okr (\<lambda>s. tp (fst s) = tp q) (f (q, ns))"

lemma tp_ScheduleUpdateAlphaMlx: "keep_tp (ScheduleUpdateAlphaMlx c e)"
  unfolding ScheduleUpdateAlphaMlx_def by (intro allI okr_any) (simp add: okr_Inr)

lemma tp_ScheduleDecreaseRateMlx: "keep_tp (ScheduleDecreaseRateMlx c e d)"
  unfolding ScheduleDecreaseRateMlx_def by (intro allI okr_any) (simp add: okr_Inr)

lemma tp_setRpTimer: "keep_tp (setRpTimer c e)"
  unfolding setRpTimer_def by (intro allI okr_any) (simp add: okr_Inr)

lemma tp_then:
  assumes "keep_tp f" "\<And>q'. tp q' = tp q \<Longrightarrow> okr (\<lambda>q''. tp q'' = tp q) (g q')" "tp q0 = tp q"
  shows "okr (\<lambda>q''. tp q'' = tp q) (bindr (f q0) g)"
  using assms(1) assms(3) by (intro okr_bind[where Q = "\<lambda>q'. tp q' = tp q"]) (auto intro: assms(2) okr_mono)

lemma tp_last:
  assumes "keep_tp f" "tp q0 = tp q"
  shows "okr (\<lambda>q'. tp q' = tp q) (f q0)"
  using spec[OF assms(1), of q0] by (simp only: assms(2))

lemma tp_UpdateAlphaMlx: "keep_tp (UpdateAlphaMlx c e)"
  unfolding UpdateAlphaMlx_def Let_def by (intro allI tp_last[OF tp_ScheduleUpdateAlphaMlx]) simp

lemma tp_cnp_received_mlx: "keep_tp (cnp_received_mlx c e)"
  unfolding cnp_received_mlx_def Let_def
  by (intro allI okr_if tp_then[OF tp_ScheduleUpdateAlphaMlx] tp_then[OF tp_ScheduleDecreaseRateMlx] okr_any)
    (simp_all add: okr_Inr)

lemma tp_CheckRateDecreaseMlx: "keep_tp (CheckRateDecreaseMlx c e)"
  unfolding CheckRateDecreaseMlx_def Let_def
  by (intro allI tp_then[OF tp_ScheduleDecreaseRateMlx] okr_if okr_any tp_last[OF tp_setRpTimer]) (simp_all add: okr_Inr)

lemma tp_RateIncEventMlx: "keep_tp (RateIncEventMlx c bps)"
  unfolding RateIncEventMlx_def FastRecoveryMlx_def ActiveIncreaseMlx_def HyperIncreaseMlx_def increaseMlx_def Let_def
  by (intro allI okr_if okr_any) (simp_all add: okr_Inr)

lemma tp_RateIncEventTimerMlx: "keep_tp (RateIncEventTimerMlx c e bps)"
  unfolding RateIncEventTimerMlx_def
  by (intro allI tp_then[OF tp_setRpTimer] tp_then[OF tp_RateIncEventMlx]) (simp_all add: okr_Inr)

lemma tp_ChangeRate: "keep_tpd (ChangeRate e r)"
  unfolding ChangeRate_def prod.case Let_def by (intro allI okr_any) (simp add: okr_Inr)

lemma tpd_then:
  assumes "keep_tpd f" "\<And>q' ns'. tp q' = tp q \<Longrightarrow> okr (\<lambda>s. tp (fst s) = tp q) (g (q', ns'))" "tp q0 = tp q"
  shows "okr (\<lambda>s. tp (fst s) = tp q) (bindr (f (q0, ns)) g)"
proof (rule okr_bind[where Q = "\<lambda>s. tp (fst s) = tp q"])
  have "okr (\<lambda>s. tp (fst s) = tp q0) (f (q0, ns))" using assms(1) by blast
  then show "okr (\<lambda>s. tp (fst s) = tp q) (f (q0, ns))" by (simp only: assms(3))
next
  fix s :: qpdev assume "tp (fst s) = tp q"
  then show "okr (\<lambda>s. tp (fst s) = tp q) (g s)" using assms(2)[of "fst s" "snd s"] by simp
qed

lemma tpd_last:
  assumes "keep_tpd f" "tp q0 = tp q"
  shows "okr (\<lambda>s. tp (fst s) = tp q) (f (q0, ns))"
  using spec[OF spec[OF assms(1), of q0], of ns] by (simp only: assms(2))

text \<open>A step that may be skipped.\<close>

lemma tpd_when: "keep_tpd f \<Longrightarrow> keep_tpd (\<lambda>s. if b then f s else Inr s)"
  by (simp add: okr_Inr)

lemma tp_when: "keep_tp f \<Longrightarrow> keep_tp (\<lambda>q. if b then f q else Inr q)"
  by (simp add: okr_Inr)

lemma tp_hpNewRate: "okr (\<lambda>x. tp (fst x) = tp q) (hpNewRate c e n a any q)"
  unfolding hpNewRate_def Let_def by (intro okr_steps) (simp_all add: okr_Inr)

lemma tp_hpCommit: "keep_tpd (hpCommit c e fast n a any r st ph)"
  unfolding hpCommit_def Let_def by (intro allI tpd_then[OF tpd_when[OF tp_ChangeRate]]) (simp_all add: okr_Inr)

lemma tp_hpReact: "keep_tpd (hpReact c e ih fast)"
proof (intro allI)
  fix q ns
  show "okr (\<lambda>s. tp (fst s) = tp q) (hpReact c e ih fast (q, ns))"
    unfolding hpReact_def prod.case Let_def
  proof (rule okr_any)
    fix a :: hpAcc
    let ?any = "list_ex (a_updated a) [0..<unat (nhop ih)]"
    have "okr (\<lambda>x. tp (fst x) = tp q) (hpNewRate c e (unat (nhop ih)) a ?any (q\<lparr>hp := a_hp a\<rparr>))"
      using tp_hpNewRate[where q = "q\<lparr>hp := a_hp a\<rparr>"] by simp
    then show "okr (\<lambda>s. tp (fst s) = tp q) (bindr (hpNewRate c e (unat (nhop ih)) a ?any (q\<lparr>hp := a_hp a\<rparr>))
        (\<lambda>(qp, new_rate, new_incStage, per_hop).
           hpCommit c e fast (unat (nhop ih)) a ?any new_rate new_incStage per_hop (qp, ns)))"
      by (rule okr_bind) (auto intro: tpd_last[OF tp_hpCommit])
  qed
qed

lemma tp_UpdateRateHp: "keep_tpd (UpdateRateHp c e ih fast)"
  unfolding UpdateRateHp_def prod.case Let_def
  by (intro allI okr_if tpd_then[OF tpd_when[OF tp_hpReact]]) (simp_all add: okr_Inr)

lemma tp_powerNewRate: "okr (\<lambda>x. tp (fst x) = tp q) (powerNewRate c a q)"
  unfolding powerNewRate_def Let_def by (intro okr_steps) (simp_all add: okr_Inr)

lemma tp_takeSample: "okr (\<lambda>x. tp (fst x) = tp q) (takeSample c e seq q)"
  unfolding takeSample_def Let_def by (intro okr_steps) (simp_all add: okr_Inr)

lemma tp_powerReact: "keep_tpd (powerReact c e ih fast rtt)"
proof (intro allI)
  fix q ns
  show "okr (\<lambda>s. tp (fst s) = tp q) (powerReact c e ih fast rtt (q, ns))"
    unfolding powerReact_def prod.case Let_def
  proof (rule okr_any)
    fix a :: hpAcc
    let ?any = "list_ex (a_updated a) [0..<unat (nhop ih)]" and ?q = "q\<lparr>hp := a_hp a\<rparr>"
    have "okr (\<lambda>x. tp (fst x) = tp q) (if ?any then powerNewRate c a ?q else Inr (?q, 0))"
      using tp_powerNewRate[where q = ?q] by (simp add: okr_Inr)
    then show "okr (\<lambda>s. tp (fst s) = tp q) (bindr (if ?any then powerNewRate c a ?q else Inr (?q, 0))
       (\<lambda>(qp, new_rate). bindr (if ?any then ChangeRate e new_rate (qp\<lparr>prevRtt := rtt, prevCompletion := nowDouble e\<rparr>, ns)
             else Inr (qp\<lparr>prevRtt := rtt, prevCompletion := nowDouble e\<rparr>, ns))
           (\<lambda>(qp, ns). Inr (if \<not> fast \<and> ?any then qp\<lparr>hp := (hp qp)\<lparr>hp_curRate := new_rate, hp_incStage := h_uninit e\<rparr>\<rparr> else qp, ns))))"
      by (rule okr_bind, intro okr_prod tpd_then[OF tpd_when[OF tp_ChangeRate]]) (simp_all add: okr_Inr)
  qed
qed

lemma tp_UpdateRatePower: "keep_tpd (UpdateRatePower c e seq ih fast)"
proof (intro allI)
  fix q ns
  show "okr (\<lambda>s. tp (fst s) = tp q) (UpdateRatePower c e seq ih fast (q, ns))"
    unfolding UpdateRatePower_def prod.case Let_def
    by (rule okr_bind[OF tp_takeSample], intro okr_prod okr_if tpd_then[OF tpd_when[OF tp_powerReact]])
      (simp_all add: okr_Inr)
qed

lemma tp_HandleAckHp: "keep_tpd (HandleAckHp c e seq ih)"
  unfolding HandleAckHp_def FastReactPower_def FastReactHp_def
  by (intro allI okr_if tpd_last[OF tp_UpdateRatePower] tpd_last[OF tp_UpdateRateHp]) (simp_all add: okr_Inr)

lemma tp_timelyReact: "keep_tp (timelyReact c rtt us)"
  unfolding timelyReact_def timelyApply_def Let_def by (intro allI okr_steps) (simp_all add: okr_Inr)

lemma tp_HandleAckTimely: "keep_tp (HandleAckTimely c e seq ih)"
  unfolding HandleAckTimely_def UpdateRateTimely_def FastReactTimely_def Let_def
  by (intro allI okr_if tp_then[OF tp_when[OF tp_timelyReact]]) (simp_all add: okr_Inr)

lemma tp_HandleAckDctcp: "keep_tp (HandleAckDctcp c seq cnp)"
  unfolding HandleAckDctcp_def Let_def by (intro allI okr_steps) (simp_all add: okr_Inr)

lemma tp_HandleAckHpPint: "keep_tpd (HandleAckHpPint c e seq ih)"
  unfolding HandleAckHpPint_def UpdateRateHpPint_def prod.case Let_def
  by (intro allI okr_if okr_any okr_prod tpd_then[OF tp_ChangeRate]) (simp_all add: okr_Inr)

lemma tp_onQp: "keep_tp f \<Longrightarrow> keep_tpd (onQp f)"
  unfolding onQp_def prod.case by (intro allI okr_bind) (auto simp: okr_Inr)

lemma tp_rateControl: "keep_tpd (rateControl c e seq cnp ih)"
  unfolding rateControl_def
  by (intro allI tpd_then[OF tpd_when[OF tp_onQp[OF tp_cnp_received_mlx]]] okr_if tpd_last[OF tp_HandleAckHp]
      tpd_last[OF tp_onQp[OF tp_HandleAckTimely]] tpd_last[OF tp_onQp[OF tp_HandleAckDctcp]] tpd_last[OF tp_HandleAckHpPint])
    (simp_all add: okr_Inr)

end
