(* ===== verification/Go_Back_N.thy ===== *)
theory Go_Back_N
  imports Rdma_Host Rdma_Frame
begin

text \<open>
  One flow between two hosts: the sender's queue pair, the receiver's queue pair, and a network
  that may lose, delay, reorder and duplicate packets in both directions: every packet ever sent
  may be delivered at any later time, any number of times or never.  The steps are the functions
  the handlers of both hosts are made of: \<open>advance\<close> (\<^verbatim>\<open>GetNxtPacket\<close>), \<open>ackSeq\<close>,
  \<open>Acknowledge\<close> and \<open>RecoverQueue\<close> (\<^verbatim>\<open>ReceiveAck\<close>), \<open>noteEcn\<close> and \<open>ReceiverCheckSeq\<close>
  (\<^verbatim>\<open>ReceiveUdp\<close>), and everything rate control and timers do.
\<close>

subsection \<open>The connection\<close>

record conn =
  c_qp :: RdmaQueuePair
  c_rx :: RdmaRxQueuePair
  c_data :: "(u32 \<times> u32) set"
  c_acks :: "(u32 \<times> bool) set"
  c_got :: "(u32 \<times> u32) list"

definition getAck :: "hwcfg \<Rightarrow> u32 \<Rightarrow> bool \<Rightarrow> RdmaQueuePair \<Rightarrow> RdmaQueuePair res" where
  "getAck c seq nack qp =
     bindr (if m_ack_interval c = 0 then Inr qp
            else bindr (ackSeq c seq) (\<lambda>s. Inr (Acknowledge (ucast s) qp)))
       (\<lambda>qp. Inr (if nack then RecoverQueue qp else qp))"

definition getData :: "hwcfg \<Rightarrow> time \<Rightarrow> u8 \<Rightarrow> u32 \<Rightarrow> u32 \<Rightarrow> conn \<Rightarrow> conn res" where
  "getData c now ecn seq n s =
     bindr (ReceiverCheckSeq c now seq n (noteEcn c ecn (c_rx s))) (\<lambda>(q, x).
     Inr (s\<lparr>c_rx := q,
            c_acks := (if x = 1 \<or> x = 2 then insert (ReceiverNextExpectedSeq q, x = 2) (c_acks s) else c_acks s),
            c_got := (if seq = ReceiverNextExpectedSeq (c_rx s) then c_got s @ [(seq, n)] else c_got s)\<rparr>))"

inductive conn_step :: "hwcfg \<Rightarrow> conn \<Rightarrow> conn \<Rightarrow> bool" for c where
  send: "conn_step c s (s\<lparr>c_qp := advance c (c_qp s),
      c_data := insert (ucast (snd_nxt (c_qp s)), nxtPayload c (c_qp s)) (c_data s)\<rparr>)"
| deliver: "(seq, n) \<in> c_data s \<Longrightarrow> getData c now ecn seq n s = Inr s' \<Longrightarrow> conn_step c s s'"
| ack: "(seq, nack) \<in> c_acks s \<Longrightarrow> getAck c seq nack (c_qp s) = Inr qp \<Longrightarrow> conn_step c s (s\<lparr>c_qp := qp\<rparr>)"
| control: "rateControl c e seq cnp ih (c_qp s, ns) = Inr (qp, ns') \<Longrightarrow> conn_step c s (s\<lparr>c_qp := qp\<rparr>)"
| paced: "PktSent c e gap n (c_qp s) = Inr qp \<Longrightarrow> conn_step c s (s\<lparr>c_qp := qp\<rparr>)"
| alpha: "UpdateAlphaMlx c e (c_qp s) = Inr qp \<Longrightarrow> conn_step c s (s\<lparr>c_qp := qp\<rparr>)"
| decrease: "CheckRateDecreaseMlx c e (c_qp s) = Inr qp \<Longrightarrow> conn_step c s (s\<lparr>c_qp := qp\<rparr>)"
| increase: "RateIncEventTimerMlx c e bps (c_qp s) = Inr qp \<Longrightarrow> conn_step c s (s\<lparr>c_qp := qp\<rparr>)"

inductive conn_reach :: "hwcfg \<Rightarrow> conn \<Rightarrow> conn \<Rightarrow> bool" for c s0 where
  start: "conn_reach c s0 s0"
| step: "conn_reach c s0 s \<Longrightarrow> conn_step c s s' \<Longrightarrow> conn_reach c s0 s'"

definition newConn :: "RdmaQueuePair \<Rightarrow> RdmaRxQueuePair \<Rightarrow> conn" where
  "newConn qp rx = \<lparr>c_qp = qp, c_rx = rx, c_data = {}, c_acks = {}, c_got = []\<rparr>"

definition fresh :: "RdmaQueuePair \<Rightarrow> RdmaRxQueuePair \<Rightarrow> bool" where
  "fresh qp rx \<longleftrightarrow> snd_nxt qp = 0 \<and> snd_una qp = 0 \<and> ReceiverNextExpectedSeq rx = 0"

subsection \<open>Steps that do not concern transport\<close>

lemma tp_PktSent: "keep_tp (PktSent c e gap n)"
  unfolding PktSent_def hw_UpdateNextAvail_def by (intro allI okr_any) (simp add: okr_Inr)

text \<open>Every step sends, delivers, acknowledges, or keeps the transport fields.\<close>

lemma conn_step_cases:
  assumes "conn_step c s s'"
  obtains (send) "s' = s\<lparr>c_qp := advance c (c_qp s), c_data := insert (ucast (snd_nxt (c_qp s)), nxtPayload c (c_qp s)) (c_data s)\<rparr>"
  | (deliver) seq n now ecn where "(seq, n) \<in> c_data s" "getData c now ecn seq n s = Inr s'"
  | (ack) seq nack qp where "(seq, nack) \<in> c_acks s" "getAck c seq nack (c_qp s) = Inr qp" "s' = s\<lparr>c_qp := qp\<rparr>"
  | (other) qp where "tp qp = tp (c_qp s)" "s' = s\<lparr>c_qp := qp\<rparr>"
  using assms
proof cases
  case (control e seq cnp ih ns qp ns')
  have "okr (\<lambda>s'. tp (fst s') = tp (c_qp s)) (rateControl c e seq cnp ih (c_qp s, ns))" using tp_rateControl by blast
  from okrD[OF this control(2)] show ?thesis using that(4) control(1) by simp
next
  case (paced e gap n qp)
  show ?thesis using that(4)[OF _ paced(1)] okrD[OF spec[OF tp_PktSent] paced(2)] by blast
next
  case (alpha e qp)
  show ?thesis using that(4)[OF _ alpha(1)] okrD[OF spec[OF tp_UpdateAlphaMlx] alpha(2)] by blast
next
  case (decrease e qp)
  show ?thesis using that(4)[OF _ decrease(1)] okrD[OF spec[OF tp_CheckRateDecreaseMlx] decrease(2)] by blast
next
  case (increase e bps qp)
  show ?thesis using that(4)[OF _ increase(1)] okrD[OF spec[OF tp_RateIncEventTimerMlx] increase(2)] by blast
qed (use that in blast)+

subsection \<open>The operations\<close>

lemma nxtPayload_le: "unat (nxtPayload c qp) \<le> unat (GetBytesLeft qp)"
proof -
  have "unat (ucast (GetBytesLeft qp) :: u32) \<le> unat (GetBytesLeft qp)" by (simp add: unsigned_ucast_eq take_bit_nat_less_eq_self)
  then show ?thesis by (auto simp: nxtPayload_def Let_def word_less_nat_alt)
qed

lemma advance_fields:
  assumes "snd_nxt qp \<le> m_size qp"
  shows "unat (snd_nxt (advance c qp)) = unat (snd_nxt qp) + unat (nxtPayload c qp)"
    "unat (snd_nxt qp) + unat (nxtPayload c qp) \<le> unat (m_size qp)"
    "m_size (advance c qp) = m_size qp" "snd_una (advance c qp) = snd_una qp"
proof -
  have l: "unat (GetBytesLeft qp) = unat (m_size qp) - unat (snd_nxt qp)"
    using assms by (simp add: GetBytesLeft_def unat_sub)
  then show le: "unat (snd_nxt qp) + unat (nxtPayload c qp) \<le> unat (m_size qp)"
    using nxtPayload_le[of c qp] assms by (simp add: word_le_nat_alt)
  have "unat (ucast (nxtPayload c qp) :: u64) = unat (nxtPayload c qp)" by simp
  moreover have "unat (m_size qp) < 2 ^ 64" using unsigned_less[of "m_size qp"] by simp
  ultimately show "unat (snd_nxt (advance c qp)) = unat (snd_nxt qp) + unat (nxtPayload c qp)"
    using le by (simp add: advance_def unat_word_ariths)
qed (simp_all add: advance_def)

lemma getAck_fields:
  assumes "getAck c seq nack qp = Inr qp'"
  shows "m_size qp' = m_size qp" "snd_nxt qp' = (if nack then snd_una qp' else snd_nxt qp)"
    "snd_una qp' = snd_una qp \<or> (\<exists>t. ackSeq c seq = Inr t \<and> snd_una qp' = max (snd_una qp) (ucast t))"
proof -
  obtain q where q: "(if m_ack_interval c = 0 then Inr qp
      else bindr (ackSeq c seq) (\<lambda>s. Inr (Acknowledge (ucast s) qp))) = Inr q"
    and r: "(Inr (if nack then RecoverQueue q else q) :: RdmaQueuePair res) = Inr qp'"
    using assms unfolding getAck_def by (rule bindr_InrE)
  have u: "m_size (Acknowledge t qp) = m_size qp" "snd_nxt (Acknowledge t qp) = snd_nxt qp"
    "snd_una (Acknowledge t qp) = max (snd_una qp) t" for t by (auto simp: Acknowledge_def max_def)
  have "m_size q = m_size qp \<and> snd_nxt q = snd_nxt qp
      \<and> (snd_una q = snd_una qp \<or> (\<exists>t. ackSeq c seq = Inr t \<and> snd_una q = max (snd_una qp) (ucast t)))"
  proof (cases "m_ack_interval c = 0")
    case False
    then obtain t where "ackSeq c seq = Inr t" "q = Acknowledge (ucast t) qp" using q by (auto simp: bindr_Inr_iff)
    then show ?thesis using u by blast
  qed (use q in simp)
  moreover have "m_size qp' = m_size q" "snd_una qp' = snd_una q" "snd_nxt qp' = (if nack then snd_una q else snd_nxt q)"
    using r by (auto simp: RecoverQueue_def)
  ultimately show "m_size qp' = m_size qp" "snd_nxt qp' = (if nack then snd_una qp' else snd_nxt qp)"
    "snd_una qp' = snd_una qp \<or> (\<exists>t. ackSeq c seq = Inr t \<and> snd_una qp' = max (snd_una qp) (ucast t))" by simp_all
qed

lemma noteEcn_fields [simp]:
  "ReceiverNextExpectedSeq (noteEcn c ecn q) = ReceiverNextExpectedSeq q" "m_nackTimer (noteEcn c ecn q) = m_nackTimer q"
  by (simp_all add: noteEcn_def Let_def)

lemma ReceiverCheckSeq_next:
  assumes "ReceiverCheckSeq c now seq n q = Inr (q', x)"
  defines "x0 \<equiv> ReceiverNextExpectedSeq q" and "x1 \<equiv> ReceiverNextExpectedSeq q'"
  shows "if seq = x0 then x1 = x0 + n
    else x1 = x0 \<or> m_backto0 c \<and> m_chunk c \<noteq> 0 \<and> x1 = x0 div m_chunk c * m_chunk c"
  using assms(1) unfolding x0_def x1_def ReceiverCheckSeq_def Let_def
  by (auto split: if_splits simp: bindr_Inr_iff)

definition fl :: "hwcfg \<Rightarrow> u32 \<Rightarrow> u32" where
  "fl c a = a div m_chunk c * m_chunk c"

lemma unat_fl: "unat (fl c a) = unat a div unat (m_chunk c) * unat (m_chunk c)"
proof -
  have "unat a < 2 ^ 32" using unsigned_less[of a] by simp
  moreover have "unat a div unat (m_chunk c) * unat (m_chunk c) \<le> unat a" by simp
  ultimately have "unat a div unat (m_chunk c) * unat (m_chunk c) < 2 ^ 32" by linarith
  then show ?thesis by (simp add: fl_def unat_word_ariths(2) unat_div)
qed

lemma fl_le: "unat (fl c a) \<le> unat a"
  by (simp add: unat_fl)

lemma ackSeq_Inr: "ackSeq c a = Inr t \<Longrightarrow> t = (if m_backto0 c then fl c a else a) \<and> (m_backto0 c \<longrightarrow> m_chunk c \<noteq> 0)"
  by (auto simp: ackSeq_def fl_def split: if_splits)

lemma dvd_le_fl: "unat (m_chunk c) dvd k \<Longrightarrow> k \<le> unat a \<Longrightarrow> k \<le> unat (fl c a)"
  unfolding unat_fl by (metis div_le_mono dvd_div_mult_self mult_le_mono1)

subsection \<open>The invariant\<close>

fun contig :: "nat \<Rightarrow> (u32 \<times> u32) list \<Rightarrow> nat \<Rightarrow> bool" where
  "contig a [] b = (a = b)"
| "contig a ((q, n) # xs) b = (unat q = a \<and> contig (a + unat n) xs b)"

lemma contig_snoc: "contig a (xs @ [(q, n)]) b \<longleftrightarrow> contig a xs (unat q) \<and> b = unat q + unat n"
  by (induction a xs b rule: contig.induct) auto

definition conn_inv :: "hwcfg \<Rightarrow> conn \<Rightarrow> bool" where
  "conn_inv c s \<longleftrightarrow>
     (let S = unat (m_size (c_qp s)); N = unat (ReceiverNextExpectedSeq (c_rx s)); u = unat (snd_una (c_qp s)) in
        S < 2 ^ 32 \<and> unat (snd_nxt (c_qp s)) \<le> S \<and> N \<le> S \<and> u \<le> N
      \<and> (\<forall>(q, n)\<in>c_data s. unat q + unat n \<le> S)
      \<and> (\<forall>(a, k)\<in>c_acks s. unat (if m_backto0 c then fl c a else a) \<le> N)
      \<and> (if m_backto0 c then unat (m_chunk c) dvd u else contig 0 (c_got s) N))"

lemma conn_inv_start: "fresh qp rx \<Longrightarrow> unat (m_size qp) < 2 ^ 32 \<Longrightarrow> conn_inv c (newConn qp rx)"
  by (simp add: conn_inv_def newConn_def fresh_def)

lemma conn_inv_other: "tp qp = tp (c_qp s) \<Longrightarrow> conn_inv c (s\<lparr>c_qp := qp\<rparr>) = conn_inv c s"
  by (simp add: conn_inv_def tp_def)

lemma conn_inv_send:
  assumes "conn_inv c s"
  shows "conn_inv c (s\<lparr>c_qp := advance c (c_qp s), c_data := insert (ucast (snd_nxt (c_qp s)), nxtPayload c (c_qp s)) (c_data s)\<rparr>)"
proof -
  have "snd_nxt (c_qp s) \<le> m_size (c_qp s)" using assms(1) by (simp add: conn_inv_def Let_def word_le_nat_alt)
  note a = advance_fields[OF this, of c]
  have "unat (snd_nxt (c_qp s)) < 2 ^ 32" using assms(1) by (simp add: conn_inv_def Let_def)
  then have "unat (ucast (snd_nxt (c_qp s)) :: u32) = unat (snd_nxt (c_qp s))"
    by (simp add: unsigned_ucast_eq take_bit_nat_eq_self_iff)
  then show ?thesis using assms(1) a by (simp add: conn_inv_def Let_def)
qed

lemma conn_inv_ack:
  assumes "conn_inv c s" "(seq, nack) \<in> c_acks s" "getAck c seq nack (c_qp s) = Inr qp"
  shows "conn_inv c (s\<lparr>c_qp := qp\<rparr>)"
proof -
  let ?N = "unat (ReceiverNextExpectedSeq (c_rx s))"
  note f = getAck_fields[OF assms(3)]
  have "unat (snd_una qp) \<le> ?N \<and> (m_backto0 c \<longrightarrow> unat (m_chunk c) dvd unat (snd_una qp))"
  proof (cases "snd_una qp = snd_una (c_qp s)")
    case True
    then show ?thesis using assms(1) by (simp add: conn_inv_def Let_def)
  next
    case False
    then obtain t where t: "ackSeq c seq = Inr t" and "snd_una qp = max (snd_una (c_qp s)) (ucast t)" using f(3) by blast
    then have u: "unat (snd_una qp) = unat t" using False by (auto simp: max_def split: if_splits)
    have "unat t \<le> ?N" using assms(1,2) ackSeq_Inr[OF t] by (fastforce simp: conn_inv_def Let_def)
    then show ?thesis using u ackSeq_Inr[OF t] by (simp add: unat_fl)
  qed
  moreover have "m_size qp = m_size (c_qp s)" "snd_nxt qp = (if nack then snd_una qp else snd_nxt (c_qp s))" by (rule f(1), rule f(2))
  ultimately show ?thesis using assms(1) by (auto simp: conn_inv_def Let_def)
qed

lemma getData_fields:
  assumes "getData c now ecn seq n s = Inr s'"
  defines "x0 \<equiv> ReceiverNextExpectedSeq (c_rx s)" and "x1 \<equiv> ReceiverNextExpectedSeq (c_rx s')"
  shows "c_qp s' = c_qp s" "c_data s' = c_data s" "c_acks s' \<subseteq> insert (x1, True) (insert (x1, False) (c_acks s))"
    "c_got s' = (if seq = x0 then c_got s @ [(seq, n)] else c_got s)"
    "if seq = x0 then x1 = x0 + n else x1 = x0 \<or> m_backto0 c \<and> m_chunk c \<noteq> 0 \<and> x1 = fl c x0"
proof -
  obtain z where z: "ReceiverCheckSeq c now seq n (noteEcn c ecn (c_rx s)) = Inr z"
    and r: "(case z of (q, x) \<Rightarrow> Inr (s\<lparr>c_rx := q,
            c_acks := (if x = 1 \<or> x = 2 then insert (ReceiverNextExpectedSeq q, x = 2) (c_acks s) else c_acks s),
            c_got := (if seq = ReceiverNextExpectedSeq (c_rx s) then c_got s @ [(seq, n)] else c_got s)\<rparr>)) = (Inr s' :: conn res)"
    using assms(1) unfolding getData_def by (rule bindr_InrE)
  obtain q x where zz: "z = (q, x)" by (cases z)
  have s': "s' = s\<lparr>c_rx := q,
            c_acks := (if x = 1 \<or> x = 2 then insert (ReceiverNextExpectedSeq q, x = 2) (c_acks s) else c_acks s),
            c_got := (if seq = ReceiverNextExpectedSeq (c_rx s) then c_got s @ [(seq, n)] else c_got s)\<rparr>"
    using r unfolding zz by simp
  show "c_qp s' = c_qp s" "c_data s' = c_data s" "c_acks s' \<subseteq> insert (x1, True) (insert (x1, False) (c_acks s))"
    "c_got s' = (if seq = x0 then c_got s @ [(seq, n)] else c_got s)" by (auto simp: s' x0_def x1_def)
  show "if seq = x0 then x1 = x0 + n else x1 = x0 \<or> m_backto0 c \<and> m_chunk c \<noteq> 0 \<and> x1 = fl c x0"
    using ReceiverCheckSeq_next[OF z[unfolded zz]] unfolding noteEcn_fields by (simp add: s' x0_def x1_def fl_def split: if_splits)
qed

lemma conn_inv_deliver:
  assumes "conn_inv c s" "(seq, n) \<in> c_data s" "getData c now ecn seq n s = Inr s'"
  shows "conn_inv c s'"
proof -
  note d = getData_fields[OF assms(3)]
  define x0 where "x0 = ReceiverNextExpectedSeq (c_rx s)"
  define x1 where "x1 = ReceiverNextExpectedSeq (c_rx s')"
  let ?S = "unat (m_size (c_qp s))" and ?u = "unat (snd_una (c_qp s))"
  have i: "?S < 2 ^ 32" "unat (snd_nxt (c_qp s)) \<le> ?S" "unat x0 \<le> ?S" "?u \<le> unat x0"
    "\<forall>(q, n)\<in>c_data s. unat q + unat n \<le> ?S" "\<forall>(a, k)\<in>c_acks s. unat (if m_backto0 c then fl c a else a) \<le> unat x0"
    "if m_backto0 c then unat (m_chunk c) dvd ?u else contig 0 (c_got s) (unat x0)"
    using assms(1) by (simp_all add: conn_inv_def Let_def x0_def)
  have n: "unat seq + unat n \<le> ?S" using i(5) assms(2) by blast
  have key: "unat x1 \<le> ?S \<and> ?u \<le> unat x1 \<and> (\<forall>(a, k)\<in>c_acks s. unat (if m_backto0 c then fl c a else a) \<le> unat x1)
      \<and> (\<not> m_backto0 c \<longrightarrow> contig 0 (c_got s') (unat x1))"
  proof (cases "seq = x0")
    case True
    then have x1: "unat x1 = unat x0 + unat n" using d(5) n i(1) by (simp add: x0_def x1_def unat_word_ariths)
    have "c_got s' = c_got s @ [(x0, n)]" using d(4) True by (simp add: x0_def)
    then show ?thesis using x1 i n True by (fastforce simp: contig_snoc)
  next
    case False
    then consider "x1 = x0" | "m_backto0 c" "x1 = fl c x0" using d(5) by (auto simp: x0_def x1_def)
    then show ?thesis
    proof cases
      case 1
      then show ?thesis using i d(4) False by (auto simp: x0_def)
    next
      case 2
      have "unat (fl c a) \<le> unat (fl c x0)" if "(a, k) \<in> c_acks s" for a k
        using i(6) that 2(1) by (intro dvd_le_fl) (auto simp: unat_fl)
      moreover have "?u \<le> unat (fl c x0)" using i(4,7) 2(1) by (intro dvd_le_fl) auto
      ultimately show ?thesis using 2 fl_le[of c x0] i(3) by auto
    qed
  qed
  have new: "unat (if m_backto0 c then fl c x1 else x1) \<le> unat x1" using fl_le by simp
  have "\<forall>(a, k)\<in>c_acks s'. unat (if m_backto0 c then fl c a else a) \<le> unat x1"
    using d(3) key new unfolding x1_def[symmetric] by fastforce
  then show ?thesis using key i d(1,2) by (auto simp: conn_inv_def Let_def x1_def[symmetric])
qed

lemma conn_inv_reach:
  assumes "conn_reach c s0 s" "conn_inv c s0"
  shows "conn_inv c s"
  using assms
proof induction
  case (step s s')
  from step.hyps(2) show ?case
  proof (cases rule: conn_step_cases)
    case send
    show ?thesis unfolding send by (rule conn_inv_send[OF step.IH[OF step.prems]])
  next
    case (deliver seq n now ecn)
    show ?thesis by (rule conn_inv_deliver[OF step.IH[OF step.prems] deliver])
  next
    case (ack seq nack qp)
    show ?thesis unfolding ack(3) by (rule conn_inv_ack[OF step.IH[OF step.prems] ack(1,2)])
  next
    case (other qp)
    show ?thesis unfolding other(2) conn_inv_other[OF other(1)] by (rule step.IH[OF step.prems])
  qed
qed

subsection \<open>Reliable delivery\<close>

text \<open>
  C5. Go-back-N delivers.  For a flow of fewer than 2^32 bytes, whatever the network loses, delays,
  reorders or duplicates and whatever rate control does: the sender never believes more than the
  receiver has got, the receiver never gets more than the flow has, without go-back-to-zero the
  packets it accepted are consecutive pieces of the flow from its first byte on (each byte once, in
  order), and when the sender finds everything acknowledged the receiver has the whole flow.
\<close>

theorem go_back_n:
  assumes "conn_reach c (newConn qp rx) s" "fresh qp rx" "unat (m_size qp) < 2 ^ 32"
  shows "unat (snd_una (c_qp s)) \<le> unat (ReceiverNextExpectedSeq (c_rx s))
    \<and> unat (ReceiverNextExpectedSeq (c_rx s)) \<le> unat (m_size (c_qp s))
    \<and> (\<not> m_backto0 c \<longrightarrow> contig 0 (c_got s) (unat (ReceiverNextExpectedSeq (c_rx s))))
    \<and> (snd_una (c_qp s) \<ge> m_size (c_qp s) \<longrightarrow> unat (ReceiverNextExpectedSeq (c_rx s)) = unat (m_size (c_qp s)))"
proof -
  have "conn_inv c s" by (rule conn_inv_reach[OF assms(1) conn_inv_start[OF assms(2,3)]])
  then show ?thesis by (auto simp: conn_inv_def Let_def word_le_nat_alt)
qed

lemma exampleCfg_fields [simp]:
  "m_mtu exampleCfg = 1000" "m_chunk exampleCfg = 4000" "m_ack_interval exampleCfg = 1" "m_backto0 exampleCfg = False"
  "m_nack_interval exampleCfg = 500"
  by (simp_all add: exampleCfg_def RdmaHw_def)

lemma RdmaRxQueuePair_fields [simp]:
  "ReceiverNextExpectedSeq RdmaRxQueuePair = 0" "m_nackTimer RdmaRxQueuePair = 0" "m_lastNACK RdmaRxQueuePair = 0"
  by (simp_all add: RdmaRxQueuePair_def)

text \<open>One packet sent, delivered and acknowledged.\<close>

theorem go_back_n_witness:
  "\<exists>s. conn_reach exampleCfg (newConn (exampleQp 1000 0) RdmaRxQueuePair) s
     \<and> snd_una (c_qp s) = 1000 \<and> unat (ReceiverNextExpectedSeq (c_rx s)) = 1000 \<and> c_got s = [(0, 1000)]"
proof -
  define s0 where "s0 = newConn (exampleQp 1000 0) RdmaRxQueuePair"
  define s1 where "s1 = s0\<lparr>c_qp := advance exampleCfg (c_qp s0),
     c_data := insert (ucast (snd_nxt (c_qp s0)), nxtPayload exampleCfg (c_qp s0)) (c_data s0)\<rparr>"
  have p: "nxtPayload exampleCfg (exampleQp 1000 0) = 1000" by (simp add: nxtPayload_def GetBytesLeft_def)
  have r1: "conn_reach exampleCfg s0 s1" unfolding s1_def by (intro conn_reach.step[OF conn_reach.start] conn_step.send)
  define rx where "rx = (noteEcn exampleCfg 0 RdmaRxQueuePair)\<lparr>ReceiverNextExpectedSeq := 1000, m_milestone_rx := 2\<rparr>"
  define s2 where "s2 = s1\<lparr>c_rx := rx, c_acks := {(1000, False)}, c_got := [(0, 1000)]\<rparr>"
  have "ReceiverCheckSeq exampleCfg 0 0 1000 (noteEcn exampleCfg 0 RdmaRxQueuePair) = Inr (rx, 1)"
    by (simp add: ReceiverCheckSeq_def rx_def noteEcn_def Let_def)
  then have "getData exampleCfg 0 0 0 1000 s1 = Inr s2"
    by (simp add: getData_def s1_def s2_def s0_def newConn_def rx_def)
  moreover have "(0, 1000) \<in> c_data s1" by (simp add: s1_def s0_def newConn_def p)
  ultimately have r2: "conn_reach exampleCfg s0 s2" by (intro conn_reach.step[OF r1] conn_step.deliver)
  define q where "q = (advance exampleCfg (exampleQp 1000 0))\<lparr>snd_una := 1000\<rparr>"
  have "getAck exampleCfg 1000 False (c_qp s2) = Inr q"
    by (simp add: getAck_def ackSeq_def Acknowledge_def q_def s2_def s1_def s0_def newConn_def advance_def)
  then have r3: "conn_reach exampleCfg s0 (s2\<lparr>c_qp := q\<rparr>)"
    by (intro conn_reach.step[OF r2] conn_step.ack[of 1000 False]) (simp_all add: s2_def)
  have f: "fresh (exampleQp 1000 0) RdmaRxQueuePair" "unat (m_size (exampleQp 1000 0)) < 2 ^ 32"
    by (simp_all add: fresh_def)
  have "snd_una q = 1000" "m_size q = 1000" by (simp_all add: q_def advance_def)
  then show ?thesis using go_back_n[OF r3[unfolded s0_def] f] r3 unfolding s0_def
    by (intro exI[of _ "s2\<lparr>c_qp := q\<rparr>"]) (simp add: s2_def)
qed

lemma conn_reach_size:
  assumes "conn_reach c s0 s"
  shows "m_size (c_qp s) = m_size (c_qp s0) \<and> (unat (snd_una (c_qp s0)) < 2 ^ 32 \<longrightarrow> unat (snd_una (c_qp s)) < 2 ^ 32)"
  using assms
proof induction
  case (step s s')
  from step.hyps(2) show ?case
  proof (cases rule: conn_step_cases)
    case send
    then show ?thesis using step.IH by (simp add: advance_def)
  next
    case (deliver seq n now ecn)
    then show ?thesis using step.IH getData_fields(1)[OF deliver(2)] by simp
  next
    case (ack seq nack qp)
    have "unat t < 2 ^ 32" for t :: u32 using unsigned_less[of t] by simp
    moreover have "m_size qp = m_size (c_qp s)" by (rule getAck_fields(1)[OF ack(2)])
    moreover have "snd_una qp = snd_una (c_qp s) \<or> (\<exists>t :: u32. snd_una qp = ucast t)"
      using getAck_fields(3)[OF ack(2)] by (auto simp: max_def split: if_splits)
    ultimately show ?thesis using step.IH ack(3) by auto
  next
    case (other qp)
    then show ?thesis using step.IH by (simp add: tp_def)
  qed
qed simp

text \<open>
  C26. Flows that cannot end.  Sequence numbers on the wire have 32 bits, the size of a flow 64; with
  go-back-to-zero acknowledgements are rounded down to a chunk.  So a flow of 2^32 bytes or more, or
  one whose size is no multiple of the chunk with go-back-to-zero, is never found acknowledged in
  full, even over a perfect network.
\<close>

theorem flow_never_ends:
  assumes "conn_reach c (newConn qp rx) s" "fresh qp rx"
    and "2 ^ 32 \<le> unat (m_size qp) \<or> m_backto0 c \<and> \<not> unat (m_chunk c) dvd unat (m_size qp)"
  shows "snd_una (c_qp s) < m_size (c_qp s)"
proof (cases "2 ^ 32 \<le> unat (m_size qp)")
  case True
  then show ?thesis using conn_reach_size[OF assms(1)] assms(2) by (simp add: newConn_def fresh_def word_less_nat_alt)
next
  case False
  then have "conn_inv c s" using conn_inv_reach[OF assms(1) conn_inv_start[OF assms(2)]] by simp
  moreover have "m_size (c_qp s) = m_size qp" using conn_reach_size[OF assms(1)] by (simp add: newConn_def)
  ultimately show ?thesis using assms(3) False by (auto simp: conn_inv_def Let_def word_less_nat_alt le_less)
qed

theorem flow_never_ends_witness:
  "\<exists>s. conn_reach exampleCfg (newConn (exampleQp 0x180000000 0) RdmaRxQueuePair) s
     \<and> c_data s = {(0, 1000)} \<and> snd_una (c_qp s) < m_size (c_qp s)"
proof -
  define s0 where "s0 = newConn (exampleQp 0x180000000 0) RdmaRxQueuePair"
  define s1 where "s1 = s0\<lparr>c_qp := advance exampleCfg (c_qp s0),
     c_data := insert (ucast (snd_nxt (c_qp s0)), nxtPayload exampleCfg (c_qp s0)) (c_data s0)\<rparr>"
  have r: "conn_reach exampleCfg s0 s1" unfolding s1_def by (intro conn_reach.step[OF conn_reach.start] conn_step.send)
  have "snd_una (c_qp s1) < m_size (c_qp s1)"
    by (rule flow_never_ends[OF r[unfolded s0_def]]) (simp_all add: fresh_def)
  then show ?thesis using r by (intro exI[of _ s1]) (simp add: s1_def s0_def newConn_def nxtPayload_def GetBytesLeft_def)
qed

subsection \<open>A stale negative acknowledgement\<close>

lemma behind_flying:
  assumes "snd_nxt qp < snd_una qp" "unat (snd_una qp) \<le> 2 ^ 63"
  shows "2 ^ 63 \<le> unat (GetOnTheFly qp)"
proof -
  let ?n = "unat (snd_nxt qp)" and ?u = "unat (snd_una qp)"
  have "unat (GetOnTheFly qp) = ?n + 2 ^ 64 - ?u"
    using assms(1) by (simp add: GetOnTheFly_def unat_sub_if_size word_size word_less_nat_alt)
  then show ?thesis using assms(2) by simp
qed

text \<open>
  C28. A stale negative acknowledgement can stop a flow for good.  A negative acknowledgement sets the
  next byte to send back to the lowest unacknowledged one; an acknowledgement that arrives later moves
  the latter past the former.  From then on the number of bytes in flight, an unsigned difference, is
  huge: with a window the flow may not send, and positive acknowledgements do not change that.
\<close>

theorem behind_is_stuck:
  assumes "snd_nxt qp < snd_una qp" "unat (snd_una qp) \<le> 2 ^ 63" "GetWin qp = Inr w" "w \<noteq> 0" "unat w \<le> 2 ^ 63"
  shows "canSend pz qp \<noteq> Inr True \<and> (\<forall>seq qp'. getAck c seq False qp = Inr qp' \<longrightarrow> snd_nxt qp' < snd_una qp')"
proof
  have "w \<le> GetOnTheFly qp" using behind_flying[OF assms(1,2)] assms(5) by (simp add: word_le_nat_alt)
  then show "canSend pz qp \<noteq> Inr True" using assms(3,4) by (simp add: canSend_def IsWinBound_def)
  show "\<forall>seq qp'. getAck c seq False qp = Inr qp' \<longrightarrow> snd_nxt qp' < snd_una qp'"
  proof (intro allI impI)
    fix seq qp' assume "getAck c seq False qp = Inr qp'"
    note f = getAck_fields[OF this]
    have "snd_nxt qp' = snd_nxt qp" "snd_una qp \<le> snd_una qp'" using f(2,3) by (auto simp: le_max_iff_disj)
    then show "snd_nxt qp' < snd_una qp'" using assms(1) by simp
  qed
qed

lemma nack_interval_eval: "MicroSeconds 500 = Inr 500000"
  by (simp add: MicroSeconds_def trunc_u64_def)

text \<open>Two packets that the network swaps: the receiver asks for the first, then gets it.\<close>

theorem behind_is_stuck_witness:
  "\<exists>s. conn_reach exampleCfg (newConn (exampleQp 3000 4000) RdmaRxQueuePair) s
     \<and> GetBytesLeft (c_qp s) = 3000 \<and> snd_una (c_qp s) = 1000 \<and> canSend (\<lambda>_. False) (c_qp s) \<noteq> Inr True"
proof -
  let ?c = exampleCfg
  define q0 where "q0 = exampleQp 3000 4000"
  define q1 where "q1 = advance ?c q0"
  define q2 where "q2 = advance ?c q1"
  have p0: "nxtPayload ?c q0 = 1000" by (simp add: q0_def nxtPayload_def GetBytesLeft_def)
  have f1: "snd_nxt q1 = 1000" "m_size q1 = 3000" "m_win q1 = 4000" "snd_una q1 = 0" "m_pg q1 = 3" "powerEnabled q1 = False" "m_var_win q1 = False"
    by (simp_all add: q1_def advance_def p0) (simp_all add: q0_def)
  have p1: "nxtPayload ?c q1 = 1000" by (simp add: nxtPayload_def GetBytesLeft_def f1)
  have f2: "snd_nxt q2 = 2000" "m_size q2 = 3000" "m_win q2 = 4000" "snd_una q2 = 0" "m_pg q2 = 3" "powerEnabled q2 = False" "m_var_win q2 = False"
    by (simp_all add: q2_def advance_def p1 f1)
  define s0 where "s0 = newConn q0 RdmaRxQueuePair"
  have r1: "conn_reach ?c s0 (s0\<lparr>c_qp := q1, c_data := {(0, 1000)}\<rparr>)"
    using conn_reach.step[OF conn_reach.start conn_step.send[of ?c s0]]
    by (simp add: s0_def newConn_def q1_def p0) (simp add: q0_def)
  let ?s1 = "s0\<lparr>c_qp := q1, c_data := {(0, 1000)}\<rparr>"
  have r2: "conn_reach ?c s0 (s0\<lparr>c_qp := q2, c_data := {(1000, 1000), (0, 1000)}\<rparr>)"
    using conn_reach.step[OF r1 conn_step.send[of ?c ?s1]] by (simp add: q2_def p1 f1)
  define s2 where "s2 = s0\<lparr>c_qp := q2, c_data := {(1000, 1000), (0, 1000)}\<rparr>"
  define x1 where "x1 = (noteEcn ?c 0 RdmaRxQueuePair)\<lparr>m_nackTimer := 500000, m_lastNACK := 0\<rparr>"
  define s3 where "s3 = s2\<lparr>c_rx := x1, c_acks := {(0, True)}\<rparr>"
  have "getData ?c 0 0 1000 1000 s2 = Inr s3"
    by (simp add: getData_def ReceiverCheckSeq_def s2_def s3_def s0_def newConn_def x1_def nack_interval_eval Let_def)
  then have r3: "conn_reach ?c s0 s3" by (intro conn_reach.step[OF r2[folded s2_def]] conn_step.deliver) (simp_all add: s2_def)
  define x2 where "x2 = (noteEcn ?c 0 x1)\<lparr>ReceiverNextExpectedSeq := 1000, m_milestone_rx := 2\<rparr>"
  define s4 where "s4 = s3\<lparr>c_rx := x2, c_acks := {(1000, False), (0, True)}, c_got := [(0, 1000)]\<rparr>"
  have x: "ReceiverNextExpectedSeq x1 = 0" by (simp add: x1_def)
  have m: "m_milestone_rx (noteEcn ?c 0 x1) = 1" by (simp add: noteEcn_def Let_def)
  have "getData ?c 0 0 0 1000 s3 = Inr s4"
    by (simp add: getData_def ReceiverCheckSeq_def s4_def s3_def s2_def s0_def newConn_def x x2_def m Let_def)
  then have r4: "conn_reach ?c s0 s4" by (intro conn_reach.step[OF r3] conn_step.deliver) (simp_all add: s3_def s2_def)
  define q3 where "q3 = q2\<lparr>snd_nxt := 0\<rparr>"
  have "getAck ?c 0 True (c_qp s4) = Inr q3"
    by (simp add: getAck_def ackSeq_def Acknowledge_def RecoverQueue_def s4_def s3_def s2_def q3_def f2)
  then have r5: "conn_reach ?c s0 (s4\<lparr>c_qp := q3\<rparr>)"
    by (intro conn_reach.step[OF r4] conn_step.ack[of 0 True]) (simp_all add: s4_def)
  have "getAck ?c 1000 False q3 = Inr (q3\<lparr>snd_una := 1000\<rparr>)"
    by (simp add: getAck_def ackSeq_def Acknowledge_def q3_def f2)
  then have r6: "conn_reach ?c s0 (s4\<lparr>c_qp := q3\<lparr>snd_una := 1000\<rparr>\<rparr>)"
    using conn_reach.step[OF r5 conn_step.ack[of 1000 False]] by (simp add: s4_def)
  have "canSend (\<lambda>_. False) (q3\<lparr>snd_una := 1000\<rparr>) \<noteq> Inr True"
    using behind_is_stuck[of "q3\<lparr>snd_una := 1000\<rparr>" 4000 "\<lambda>_. False"] by (simp add: q3_def f2 GetWin_def)
  then show ?thesis using r6 unfolding s0_def q0_def
    by (intro exI[of _ "s4\<lparr>c_qp := q3\<lparr>snd_una := 1000\<rparr>\<rparr>"]) (simp add: q3_def f2 GetBytesLeft_def)
qed

end
