(* ===== verification/Host_Refinement.thy ===== *)
theory Host_Refinement
  imports Go_Back_N
begin

text \<open>
  The host implements the sender of \<open>Go_Back_N\<close>: whatever event a host handles, what happens to
  a queue pair is a sequence of the steps of a connection (a packet taken from it, an
  acknowledgement, or a change that does not concern transport), every packet taken from it is put
  on a wire, and acknowledgements come from the packet received.  The invariant of the host, that
  the table of flows and the list of completed flows agree with the queue pairs, is proved along the
  same lines.
\<close>

subsection \<open>Events of a host\<close>

inductive host_step :: "hpkt option \<Rightarrow> host \<Rightarrow> host \<Rightarrow> bool" where
  receive: "nic_Receive e corrupt i p h = Inr h' \<Longrightarrow> host_step (Some p) h h'"
| sent: "nic_TransmitComplete e i h = Inr h' \<Longrightarrow> host_step None h h'"
| wake: "wakeUp e i h = Inr h' \<Longrightarrow> host_step None h h'"
| timer: "fireMlx e t r h = Inr h' \<Longrightarrow> host_step None h h'"
| open_flow: "AddQueuePair e j sz pg s d sp dp win baseRtt stop h = Inr h' \<Longrightarrow> host_step None h h'"
| stack: "nic_Send e i p h = Inr (h', b) \<Longrightarrow> host_step None h h'"
| down: "nic_TakeDown fuel i h = Inr h' \<Longrightarrow> host_step None h h'"
| reroute: "set order = ran (m_qpMap h) \<Longrightarrow> RedistributeQp e order h = Inr h' \<Longrightarrow> host_step None h h'"
| route: "host_step None h (hw_AddTableEntry dst intf h)"
| clear: "host_step None h (hw_ClearTable h)"
| forget: "host_step None h (DeleteRxQp d pg dp h)"

subsection \<open>What may happen to a queue pair\<close>

inductive qrun :: "hwcfg \<Rightarrow> hpkt option \<Rightarrow> RdmaQueuePair \<Rightarrow> hpkt list \<Rightarrow> RdmaQueuePair \<Rightarrow> bool" for c rx q where
  none: "qrun c rx q [] q"
| other: "qrun c rx q ps q' \<Longrightarrow> tp q'' = tp q' \<Longrightarrow> qrun c rx q ps q''"
| send: "qrun c rx q ps q' \<Longrightarrow> qrun c rx q (ps @ [dataPkt e u (nxtPayload c q') q']) (advance c q')"
| ack: "qrun c rx q ps q' \<Longrightarrow> rx = Some p \<Longrightarrow> p_proto p = 0xFC \<or> p_proto p = 0xFD \<Longrightarrow>
    getAck c (p_seq p) (p_proto p = 0xFD) q' = Inr q'' \<Longrightarrow> qrun c rx q ps q''"

lemma qrun_trans: "qrun c rx q' qs q'' \<Longrightarrow> qrun c rx q ps q' \<Longrightarrow> qrun c rx q (ps @ qs) q''"
proof (induction rule: qrun.induct)
  case (send ps' q' e u)
  then show ?case using qrun.send[of c rx q "ps @ ps'" q' e u] by simp
qed (auto intro: qrun.intros)

definition hext :: "hpkt option \<Rightarrow> host \<Rightarrow> host \<Rightarrow> bool" where
  "hext rx h h' \<longleftrightarrow>
     h_cfg h' = h_cfg h \<and> h_fresh h \<le> h_fresh h'
   \<and> (\<exists>w. h_wire h' = h_wire h @ w
        \<and> (\<forall>r<h_fresh h. \<exists>ps. qrun (h_cfg h) rx (h_qps h r) ps (h_qps h' r) \<and> set ps \<subseteq> snd ` set w))"

lemma hext_same:
  assumes "h_cfg h' = h_cfg h" "h_fresh h' = h_fresh h" "h_wire h' = h_wire h" "\<And>r. r < h_fresh h \<Longrightarrow> tp (h_qps h' r) = tp (h_qps h r)"
  shows "hext rx h h'"
  unfolding hext_def using assms qrun.other[OF qrun.none] by (auto intro!: exI[of _ "[]"])

lemma hext_refl: "hext rx h h"
  by (rule hext_same) simp_all

lemma hext_trans:
  assumes "hext rx h h1" "hext rx h1 h2"
  shows "hext rx h h2"
proof -
  obtain w1 where w1: "h_wire h1 = h_wire h @ w1"
    "\<forall>r<h_fresh h. \<exists>ps. qrun (h_cfg h) rx (h_qps h r) ps (h_qps h1 r) \<and> set ps \<subseteq> snd ` set w1"
    using assms(1) by (auto simp: hext_def)
  obtain w2 where w2: "h_wire h2 = h_wire h1 @ w2"
    "\<forall>r<h_fresh h1. \<exists>ps. qrun (h_cfg h1) rx (h_qps h1 r) ps (h_qps h2 r) \<and> set ps \<subseteq> snd ` set w2"
    using assms(2) by (auto simp: hext_def)
  have c: "h_cfg h1 = h_cfg h" "h_fresh h \<le> h_fresh h1" using assms(1) by (simp_all add: hext_def)
  have "\<exists>ps. qrun (h_cfg h) rx (h_qps h r) ps (h_qps h2 r) \<and> set ps \<subseteq> snd ` set (w1 @ w2)" if r: "r < h_fresh h" for r
  proof -
    obtain ps where p: "qrun (h_cfg h) rx (h_qps h r) ps (h_qps h1 r)" "set ps \<subseteq> snd ` set w1" using w1(2) r by blast
    obtain qs where q: "qrun (h_cfg h) rx (h_qps h1 r) qs (h_qps h2 r)" "set qs \<subseteq> snd ` set w2"
      using w2(2) r c by (metis order_less_le_trans)
    show ?thesis using qrun_trans[OF q(1) p(1)] p(2) q(2) by (intro exI[of _ "ps @ qs"]) auto
  qed
  then show ?thesis using assms w1 w2 by (auto simp: hext_def intro!: exI[of _ "w1 @ w2"])
qed

lemma hext_step:
  assumes "okr (hext rx h) m" "\<And>h'. hext rx h h' \<Longrightarrow> okr (hext rx h') (f h')"
  shows "okr (hext rx h) (bindr m f)"
  using assms(1) by (rule okr_bind) (rule okr_mono[OF assms(2) hext_trans])

text \<open>Changes outside the queue pairs.\<close>

lemma hext_putNic [simp]: "hext rx h (putNic i d h') = hext rx h h'" "hext rx (putNic i d h) h' = hext rx h h'"
  by (simp_all add: hext_def putNic_def)

lemma hext_putQp: "tp qp = tp (h_qps h r) \<Longrightarrow> hext rx h (putQp r qp h)"
  by (rule hext_same) (simp_all add: putQp_def)

subsection \<open>Sending\<close>

lemma hext_countSent: "okr (hext rx h) (countSent i tx n h)"
  unfolding countSent_def by (intro okr_any) (simp add: okr_Inr hext_refl)

lemma hext_TransmitStart:
  "okr (\<lambda>h'. h_cfg h' = h_cfg h \<and> h_fresh h' = h_fresh h \<and> h_qps h' = h_qps h \<and> h_wire h' = h_wire h @ [(i, p)])
     (nic_TransmitStart i p d h)"
  unfolding nic_TransmitStart_def by (intro okr_if) (simp_all add: okr_Inr putNic_def)

text \<open>A transmission that takes nothing from a queue pair.\<close>

lemma hext_start: "okr (hext rx h) (nic_TransmitStart i p d h)"
  using hext_TransmitStart
proof (rule okr_mono)
  fix h' :: host assume "h_cfg h' = h_cfg h \<and> h_fresh h' = h_fresh h \<and> h_qps h' = h_qps h \<and> h_wire h' = h_wire h @ [(i, p)]"
  then show "hext rx h h'" using qrun.none by (auto simp: hext_def intro!: exI[of _ "[]"])
qed

lemma hext_sendAck: "okr (hext rx h) (sendAck i d h)"
  unfolding sendAck_def
  by (intro okr_any okr_prod okr_option hext_step[OF hext_start] hext_countSent) simp

lemma hext_sendTcp: "okr (hext rx h) (sendTcp i d h)"
  unfolding sendTcp_def
  by (intro okr_any okr_prod okr_option hext_step[OF hext_start] hext_countSent) (simp add: okr_Inr hext_refl)

lemma GetNxtPacket_ok:
  "okr (\<lambda>(h', p). \<exists>u. h' = putQp r (advance (h_cfg h) (h_qps h r)) h \<and> p = dataPkt e u (nxtPayload (h_cfg h) (h_qps h r)) (h_qps h r))
     (GetNxtPacket e r h)"
  unfolding GetNxtPacket_def Let_def by (intro okr_any) (auto simp: okr_Inr)

lemma hext_sendQp: "okr (hext rx h) (sendQp e i k d h)"
  unfolding sendQp_def Let_def
proof (intro okr_if okr_Inl)
  define r where "r = m_qpGrp (m_rdmaEQ d) ! k"
  define d1 where "d1 = d\<lparr>m_rdmaEQ := (m_rdmaEQ d)\<lparr>rq_rrlast := of_nat k, rq_qlast := int k\<rparr>\<rparr>"
  let ?q = "h_qps h r" and ?c = "h_cfg h"
  show "okr (hext rx h) (bindr (GetNxtPacket e r h) (\<lambda>(h, p). bindr (nic_TransmitStart i p d1 h) (\<lambda>h.
      bindr (PktSent (h_cfg h) e (m_tInterframeGap d) (p_size p) (h_qps h r)) (\<lambda>qp. countSent i False (p_size p) (putQp r qp h)))))"
  proof (rule okr_bind[OF GetNxtPacket_ok], clarify)
    fix u
    let ?p = "dataPkt e u (nxtPayload ?c ?q) ?q" and ?h1 = "putQp r (advance ?c ?q) h"
    have start: "okr (\<lambda>h'. hext rx h h' \<and> h_cfg h' = ?c) (nic_TransmitStart i ?p d1 ?h1)"
      using hext_TransmitStart
    proof (rule okr_mono)
      fix h' :: host assume h': "h_cfg h' = h_cfg ?h1 \<and> h_fresh h' = h_fresh ?h1 \<and> h_qps h' = h_qps ?h1 \<and> h_wire h' = h_wire ?h1 @ [(i, ?p)]"
      have "\<exists>ps. qrun ?c rx (h_qps h r') ps (h_qps h' r') \<and> set ps \<subseteq> {?p}" for r'
      proof (cases "r' = r")
        case True
        then show ?thesis using qrun.send[OF qrun.none, of ?c rx ?q e u] h' by (auto simp: putQp_def)
      next
        case False
        then show ?thesis using qrun.none[of ?c rx] h' by (auto simp: putQp_def intro!: exI[of _ "[]"])
      qed
      then show "hext rx h h' \<and> h_cfg h' = ?c" using h' by (auto simp: hext_def putQp_def)
    qed
    show "okr (hext rx h) (bindr (nic_TransmitStart i ?p d1 ?h1) (\<lambda>h.
        bindr (PktSent (h_cfg h) e (m_tInterframeGap d) (p_size ?p) (h_qps h r)) (\<lambda>qp. countSent i False (p_size ?p) (putQp r qp h))))"
    proof (rule okr_bind[OF start])
      fix h' :: host assume h': "hext rx h h' \<and> h_cfg h' = ?c"
      show "okr (hext rx h) (bindr (PktSent (h_cfg h') e (m_tInterframeGap d) (p_size ?p) (h_qps h' r))
          (\<lambda>qp. countSent i False (p_size ?p) (putQp r qp h')))"
      proof (rule okr_bind[OF spec[OF tp_PktSent]])
        fix qp assume "tp qp = tp (h_qps h' r)"
        then have "hext rx h (putQp r qp h')" using h' hext_trans hext_putQp by blast
        then show "okr (hext rx h) (countSent i False (p_size ?p) (putQp r qp h'))"
          by (intro okr_mono[OF hext_countSent]) (rule hext_trans)
      qed
    qed
  qed
qed

lemma hext_dequeue: "okr (hext rx h) (nic_DequeueAndTransmit e i h)"
  unfolding nic_DequeueAndTransmit_def Let_def
  by (intro okr_any okr_if okr_prod hext_sendAck hext_sendTcp hext_sendQp) (simp_all add: okr_Inr hext_refl waitForQps_def Let_def)

text \<open>Dequeuing after a change that concerns no queue pair, or one only.\<close>

lemma hext_then: "hext rx h h' \<Longrightarrow> okr (hext rx h') m \<Longrightarrow> okr (hext rx h) m"
  by (erule okr_mono) (rule hext_trans)

subsection \<open>Queue pairs\<close>

lemma tp_set [simp]:
  "tp (q\<lparr>m_max_rate := r\<rparr>) = tp q" "tp (q\<lparr>powerEnabled := b\<rparr>) = tp q" "tp (SetWin w q) = tp q"
  by (simp_all add: tp_def SetWin_def)

lemma tp_initCc [simp]: "tp (initCc c bps q) = tp q"
  by (simp add: initCc_def Let_def)

lemma hext_addToGroup: "okr (hext rx h) (addToGroup i r h)"
  unfolding addToGroup_def by (intro okr_any) (simp add: okr_Inr hext_refl)

lemma hext_NewQp: "okr (hext rx h) (NewQp e i r h)"
  unfolding NewQp_def by (rule hext_then[OF hext_putQp hext_dequeue]) simp

lemma hext_fresh: "hext rx h (putQp (h_fresh h) qp h)"
  by (rule hext_same) (simp_all add: putQp_def)

lemma hext_more: "n \<ge> h_fresh h \<Longrightarrow> hext rx h (h\<lparr>h_fresh := n, m_qpMap := m\<rparr>)"
  unfolding hext_def using qrun.none by (auto intro!: exI[of _ "[]"])

text \<open>What is left of the old state when the group of the card has been extended.\<close>

lemma addToGroup_same: "okr (\<lambda>h'. h_fresh h' = h_fresh h \<and> h_qps h' = h_qps h) (addToGroup i r h)"
  unfolding addToGroup_def by (intro okr_any) (simp add: okr_Inr putNic_def)

lemma okr_conj: "okr P m \<Longrightarrow> okr Q m \<Longrightarrow> okr (\<lambda>x. P x \<and> Q x) m"
  by (simp add: okr_def)

lemma tp_initWin: "keep_tp (initWin win bps baseRtt)"
  unfolding initWin_def by (intro allI okr_if okr_any) (simp_all add: okr_Inr)

lemma tp_initQp: "keep_tp (initQp c bps win baseRtt)"
proof
  fix qp
  show "okr (\<lambda>qp'. tp qp' = tp qp) (initQp c bps win baseRtt qp)"
    unfolding initQp_def by (rule okr_bind[OF spec[OF tp_initWin]]) (simp add: okr_Inr)
qed

lemma hext_startQp: "okr (hext rx h) (startQp e i r win baseRtt h)"
  unfolding startQp_def
  by (rule okr_any, rule okr_bind[OF spec[OF tp_initQp]], rule hext_then[OF hext_putQp hext_NewQp]) simp

lemma hext_AddQueuePair: "okr (hext rx h) (AddQueuePair e j sz pg s d sp dp win baseRtt stop h)"
proof -
  have "okr (hext rx h) (bindr (addToGroup i (h_fresh h) (putQp (h_fresh h) q h)) (\<lambda>h'.
      startQp e i (h_fresh h) win baseRtt (h'\<lparr>h_fresh := Suc (h_fresh h), m_qpMap := (m_qpMap h')(GetQpKey d sp pg \<mapsto> h_fresh h)\<rparr>)))" for i q
  proof (rule okr_bind[where Q = "\<lambda>h'. hext rx h h' \<and> h_fresh h' = h_fresh h"])
    show "okr (\<lambda>h'. hext rx h h' \<and> h_fresh h' = h_fresh h) (addToGroup i (h_fresh h) (putQp (h_fresh h) q h))"
    proof (rule okr_conj)
      show "okr (hext rx h) (addToGroup i (h_fresh h) (putQp (h_fresh h) q h))"
        by (rule hext_then[OF hext_fresh hext_addToGroup])
      show "okr (\<lambda>h'. h_fresh h' = h_fresh h) (addToGroup i (h_fresh h) (putQp (h_fresh h) q h))"
        by (rule okr_mono[OF addToGroup_same]) (simp add: putQp_def)
    qed
  next
    fix h' assume h': "hext rx h h' \<and> h_fresh h' = h_fresh h"
    then show "okr (hext rx h) (startQp e i (h_fresh h) win baseRtt
        (h'\<lparr>h_fresh := Suc (h_fresh h), m_qpMap := (m_qpMap h')(GetQpKey d sp pg \<mapsto> h_fresh h)\<rparr>))"
      by (intro hext_then[OF hext_trans[OF conjunct1[OF h'] hext_more] hext_startQp]) simp
  qed
  then show ?thesis unfolding AddQueuePair_def Let_def by (rule okr_any)
qed

lemma hext_loopr: "(\<And>x h. okr (hext rx h) (f x h)) \<Longrightarrow> okr (hext rx h) (loopr f xs h)"
  by (induction xs arbitrary: h) (auto simp: okr_Inr hext_refl intro: hext_step)

lemma hext_RedistributeQp: "okr (hext rx h) (RedistributeQp e order h)"
proof -
  have "hext rx h (clearGroups h)" by (rule hext_same) (simp_all add: clearGroups_def)
  moreover have "okr (hext rx h) (reassign e r h)" for r h
    unfolding reassign_def by (intro okr_any hext_step[OF hext_addToGroup] hext_dequeue)
  ultimately show ?thesis unfolding RedistributeQp_def by (intro hext_then[OF _ hext_loopr])
qed

subsection \<open>Receiving\<close>

lemma hext_rx: "hext rx h (h'\<lparr>m_rxQpMap := m\<rparr>) = hext rx h h'" "hext rx (h\<lparr>m_rxQpMap := m\<rparr>) h' = hext rx h h'"
  by (simp_all add: hext_def)

lemma hext_GetRxQp: "GetRxQp a b c d f create h = (h', q) \<Longrightarrow> hext rx h h'"
  by (auto simp: GetRxQp_def Let_def hext_rx hext_refl split: option.splits if_splits)

lemma hext_Enqueue: "okr (hext rx h) (RdmaEnqueueHighPrioQ i p h)"
  unfolding RdmaEnqueueHighPrioQ_def by (intro okr_any) (simp add: okr_Inr hext_refl)

lemma hext_ReceiveUdp: "okr (hext rx h) (ReceiveUdp e p h)"
  unfolding ReceiveUdp_def Let_def
proof (intro okr_prod okr_option okr_Inl)
  fix h1 o1 q assume "GetRxQp (p_dst p) (p_src p) (p_dport p) (p_sport p) (p_pg p) True h = (h1, o1)"
  note h1 = hext_GetRxQp[OF this, of rx]
  have rest: "okr (hext rx h) (bindr (GetNicIdxOfRxQp q' h2) (\<lambda>i. bindr (RdmaEnqueueHighPrioQ i a h2) (nic_DequeueAndTransmit e i)))"
    if "hext rx h h2" for q' h2 a
    using that by (intro okr_any hext_then[OF _ hext_step[OF hext_Enqueue hext_dequeue]])
  show "okr (hext rx h) (bindr (ReceiverCheckSeq (h_cfg h1) (h_now e) (p_seq p) (p_size p - udpHeaders (h_mode e)) (noteEcn (h_cfg h1) (p_ecn p) q))
      (\<lambda>(q, x). if x = 1 \<or> x = 2
         then bindr (GetNicIdxOfRxQp (q\<lparr>rx_ipid := rx_ipid q + 1\<rparr>)
                 (h1\<lparr>m_rxQpMap := (m_rxQpMap h1)(rxKey (p_src p) (p_pg p) (p_sport p) \<mapsto> q\<lparr>rx_ipid := rx_ipid q + 1\<rparr>)\<rparr>))
               (\<lambda>i. bindr (RdmaEnqueueHighPrioQ i (ackPkt e (x = 2) p q)
                   (h1\<lparr>m_rxQpMap := (m_rxQpMap h1)(rxKey (p_src p) (p_pg p) (p_sport p) \<mapsto> q\<lparr>rx_ipid := rx_ipid q + 1\<rparr>)\<rparr>))
                 (nic_DequeueAndTransmit e i))
         else Inr (h1\<lparr>m_rxQpMap := (m_rxQpMap h1)(rxKey (p_src p) (p_pg p) (p_sport p) \<mapsto> q)\<rparr>)))"
    by (intro okr_any okr_prod okr_if rest) (simp_all add: okr_Inr hext_rx h1)
qed

lemma hext_ReceiveCnp: "okr (hext rx h) (ReceiveCnp p h)"
  unfolding ReceiveCnp_def Let_def
  by (intro okr_prod okr_option okr_any okr_if) (simp_all add: okr_Inr hext_refl hext_putQp)

text \<open>What the transport part of an acknowledgement does is \<open>getAck\<close>.\<close>

lemma QpComplete_same:
  "h_cfg (QpComplete r h) = h_cfg h" "h_fresh (QpComplete r h) = h_fresh h" "h_wire (QpComplete r h) = h_wire h"
  "tp (h_qps (QpComplete r h) r') = tp (h_qps h r')"
  by (simp_all add: QpComplete_def DeleteQueuePair_def putQp_def Let_def)

lemma takeAck_ok:
  "okr (\<lambda>h'. h_cfg h' = h_cfg h \<and> h_fresh h' = h_fresh h \<and> h_wire h' = h_wire h
      \<and> (\<forall>r'. r' \<noteq> r \<longrightarrow> tp (h_qps h' r') = tp (h_qps h r'))
      \<and> (\<exists>q. (if m_ack_interval (h_cfg h) = 0 then Inr (h_qps h r)
               else bindr (ackSeq (h_cfg h) seq) (\<lambda>s. Inr (Acknowledge (ucast s) (h_qps h r)))) = (Inr q :: RdmaQueuePair res)
            \<and> tp (h_qps h' r) = tp q))
     (takeAck e r seq h)"
proof (cases "m_ack_interval (h_cfg h) = 0")
  case True
  then show ?thesis by (simp add: takeAck_def okr_Inr)
next
  case False
  then show ?thesis unfolding takeAck_def
    by (cases "ackSeq (h_cfg h) seq") (auto simp: okr_Inr Let_def QpComplete_same putQp_def)
qed

lemma tp_RecoverQueue: "tp a = tp b \<Longrightarrow> tp (RecoverQueue a) = tp (RecoverQueue b)"
  by (simp add: tp_def RecoverQueue_def)

lemma hext_ack:
  assumes "p_proto p = 0xFC \<or> p_proto p = 0xFD"
  shows "okr (hext (Some p) h) (bindr (takeAck e r (p_seq p) h) (\<lambda>h1.
     Inr (if p_proto p = 0xFD then putQp r (RecoverQueue (h_qps h1 r)) h1 else h1)))"
proof (rule okr_bind[OF takeAck_ok])
  fix h1 :: host
  let ?n = "p_proto p = 0xFD"
  define h2 where "h2 = (if ?n then putQp r (RecoverQueue (h_qps h1 r)) h1 else h1)"
  assume a: "h_cfg h1 = h_cfg h \<and> h_fresh h1 = h_fresh h \<and> h_wire h1 = h_wire h
      \<and> (\<forall>r'. r' \<noteq> r \<longrightarrow> tp (h_qps h1 r') = tp (h_qps h r'))
      \<and> (\<exists>q. (if m_ack_interval (h_cfg h) = 0 then Inr (h_qps h r)
               else bindr (ackSeq (h_cfg h) (p_seq p)) (\<lambda>s. Inr (Acknowledge (ucast s) (h_qps h r)))) = (Inr q :: RdmaQueuePair res)
            \<and> tp (h_qps h1 r) = tp q)"
  then obtain q where q: "(if m_ack_interval (h_cfg h) = 0 then Inr (h_qps h r)
      else bindr (ackSeq (h_cfg h) (p_seq p)) (\<lambda>s. Inr (Acknowledge (ucast s) (h_qps h r)))) = (Inr q :: RdmaQueuePair res)"
    and t: "tp (h_qps h1 r) = tp q" by blast
  have "getAck (h_cfg h) (p_seq p) ?n (h_qps h r) = Inr (if ?n then RecoverQueue q else q)"
    unfolding getAck_def q by simp
  moreover have "tp (h_qps h2 r) = tp (if ?n then RecoverQueue q else q)"
    using t tp_RecoverQueue[OF t] by (simp add: h2_def putQp_def)
  ultimately have "qrun (h_cfg h) (Some p) (h_qps h r) [] (h_qps h2 r)"
    using assms by (intro qrun.other[OF qrun.ack[OF qrun.none refl]])
  moreover have "qrun (h_cfg h) (Some p) (h_qps h r') [] (h_qps h2 r')" if "r' \<noteq> r" for r'
    using a that by (intro qrun.other[OF qrun.none]) (simp add: h2_def putQp_def)
  ultimately have "qrun (h_cfg h) (Some p) (h_qps h r') [] (h_qps h2 r')" for r' by (cases "r' = r") auto
  moreover have "h_cfg h2 = h_cfg h" "h_fresh h2 = h_fresh h" "h_wire h2 = h_wire h" using a by (simp_all add: h2_def putQp_def)
  ultimately have "hext (Some p) h h2" by (auto simp: hext_def intro!: exI[of _ "[]"])
  then show "okr (hext (Some p) h) (Inr (if ?n then putQp r (RecoverQueue (h_qps h1 r)) h1 else h1))" by (simp add: okr_Inr h2_def)
qed

lemma hext_ReceiveAck:
  assumes "p_proto p = 0xFC \<or> p_proto p = 0xFD"
  shows "okr (hext (Some p) h) (ReceiveAck e p h)"
  unfolding ReceiveAck_def Let_def
proof (rule okr_option, simp add: okr_Inr hext_refl, rule okr_any)
  fix r i
  let ?rec = "\<lambda>h1. if p_proto p = 0xFD then putQp r (RecoverQueue (h_qps h1 r)) h1 else h1"
  define rest where "rest = (\<lambda>h1. bindr (getNic i h1) (\<lambda>d.
      bindr (rateControl (h_cfg h1) e (p_seq p) (p_flags p AND 1 = 1) (p_int p) (h_qps h1 r, m_nextSend d)) (\<lambda>(qp, ns).
      nic_DequeueAndTransmit e i (putNic i (d\<lparr>m_nextSend := ns\<rparr>) (putQp r qp h1)))))"
  have rest: "okr (hext (Some p) h1) (rest h1)" for h1
    unfolding rest_def
  proof (rule okr_any)
    fix d :: nic
    have "okr (\<lambda>s. tp (fst s) = tp (h_qps h1 r))
        (rateControl (h_cfg h1) e (p_seq p) (p_flags p AND 1 = 1) (p_int p) (h_qps h1 r, m_nextSend d))"
      using tp_rateControl by blast
    then show "okr (hext (Some p) h1)
       (bindr (rateControl (h_cfg h1) e (p_seq p) (p_flags p AND 1 = 1) (p_int p) (h_qps h1 r, m_nextSend d))
         (\<lambda>(qp, ns). nic_DequeueAndTransmit e i (putNic i (d\<lparr>m_nextSend := ns\<rparr>) (putQp r qp h1))))"
      by (rule okr_bind, intro okr_prod) (rule hext_then[OF _ hext_dequeue], simp add: hext_putQp)
  qed
  have "okr (hext (Some p) h) (bindr (bindr (takeAck e r (p_seq p) h) (\<lambda>h1. Inr (?rec h1))) rest)"
    by (rule hext_step[OF hext_ack[OF assms] rest])
  moreover have "bindr (bindr m (\<lambda>h1. Inr (?rec h1))) rest = bindr m (\<lambda>h1. rest (?rec h1))" for m
    by (cases m) simp_all
  ultimately show "okr (hext (Some p) h) (bindr (takeAck e r (p_seq p) h) (\<lambda>h1.
      bindr (getNic i (?rec h1)) (\<lambda>d.
      bindr (rateControl (h_cfg (?rec h1)) e (p_seq p) (p_flags p AND 1 = 1) (p_int p) (h_qps (?rec h1) r, m_nextSend d)) (\<lambda>(qp, ns).
      nic_DequeueAndTransmit e i (putNic i (d\<lparr>m_nextSend := ns\<rparr>) (putQp r qp (?rec h1)))))))"
    unfolding rest_def by simp
qed

lemma hext_Receive: "okr (hext (Some p) h) (nic_Receive e corrupt i p h)"
proof -
  have up: "hext rx h (h\<lparr>h_up := u\<rparr>)" for rx u by (rule hext_same) simp_all
  have "okr (hext (Some p) h) (hw_Receive e p h)"
    unfolding hw_Receive_def by (intro okr_if hext_ReceiveUdp hext_ReceiveCnp hext_ReceiveAck) (simp_all add: okr_Inr hext_refl)
  moreover have "okr (hext (Some p) h) (nic_Resume e i q h)" for q
    unfolding nic_Resume_def by (intro okr_any okr_if hext_then[OF _ hext_dequeue]) (simp_all add: hext_refl)
  ultimately show ?thesis
    unfolding nic_Receive_def Let_def by (intro okr_any okr_if okr_prod) (simp_all add: okr_Inr hext_refl up)
qed

lemma tp_fireMlx:
  "okr (\<lambda>q. tp q = tp (h_qps h r)) (case t of
      AlphaTimer \<Rightarrow> UpdateAlphaMlx (h_cfg h) e (h_qps h r)
    | DecreaseTimer \<Rightarrow> CheckRateDecreaseMlx (h_cfg h) e (h_qps h r)
    | IncreaseTimer \<Rightarrow>
        if m_rpTimeStage (mlx (h_qps h r)) < m_rpgThreshold (h_cfg h) then RateIncEventTimerMlx (h_cfg h) e 0 (h_qps h r)
        else bindr (GetNicIdxOfQp (h_qps h r) h) (\<lambda>i. bindr (getNic i h) (\<lambda>d. RateIncEventTimerMlx (h_cfg h) e (d_bps d) (h_qps h r))))"
  using tp_UpdateAlphaMlx tp_CheckRateDecreaseMlx tp_RateIncEventTimerMlx
  by (cases t) (auto intro!: okr_any simp del: tp_upd)

lemma hext_fireMlx: "okr (hext rx h) (fireMlx e t r h)"
  unfolding fireMlx_def Let_def by (rule okr_bind[OF tp_fireMlx]) (simp add: okr_Inr hext_putQp)

lemma hext_Send: "okr (\<lambda>x. hext rx h (fst x)) (nic_Send e i p h)"
proof -
  have "okr (\<lambda>x. hext rx h (fst x)) (bindr (nic_DequeueAndTransmit e i (putNic i d h)) (\<lambda>h. Inr (h, True)))" for d
  proof (rule okr_bind)
    show "okr (hext rx h) (nic_DequeueAndTransmit e i (putNic i d h))"
      by (rule hext_then[OF _ hext_dequeue]) (simp add: hext_refl)
  qed (simp add: okr_Inr)
  note dq = this
  have enq: "okr (\<lambda>x. hext rx h (fst x)) (bindr (BEgressQueue_Enqueue p_size p' tcpip_q_idx (d_queue d)) (\<lambda>(q, _).
      bindr (nic_DequeueAndTransmit e i (putNic i (d\<lparr>d_queue := q\<rparr>) h)) (\<lambda>h. Inr (h, True))))" for p' and d :: nic
    by (rule okr_any, rule okr_prod, rule dq)
  show ?thesis unfolding nic_Send_def by (rule okr_any, rule okr_if, simp add: okr_Inr hext_refl, rule enq)
qed

subsection \<open>The theorem\<close>

lemma hext_TransmitComplete: "okr (hext rx h) (nic_TransmitComplete e i h)"
  unfolding nic_TransmitComplete_def by (intro okr_any okr_if hext_then[OF _ hext_dequeue]) (simp_all add: hext_refl)

lemma hext_wakeUp: "okr (hext rx h) (wakeUp e i h)"
  unfolding wakeUp_def by (intro okr_any hext_then[OF _ hext_dequeue]) (simp_all add: hext_refl)

lemma hext_TakeDown: "okr (hext rx h) (nic_TakeDown fuel i h)"
  unfolding nic_TakeDown_def by (intro okr_any) (simp add: okr_Inr hext_refl)

lemma hext_host_step: "host_step rx h h' \<Longrightarrow> hext rx h h'"
proof (induction rule: host_step.induct)
  case (receive e corrupt i p h h')
  show ?case by (rule okrD[OF hext_Receive receive])
next
  case (sent e i h h')
  show ?case by (rule okrD[OF hext_TransmitComplete sent])
next
  case (wake e i h h')
  show ?case by (rule okrD[OF hext_wakeUp wake])
next
  case (timer e t r h h')
  show ?case by (rule okrD[OF hext_fireMlx timer])
next
  case (open_flow e j sz pg s d sp dp win baseRtt stop h h')
  show ?case by (rule okrD[OF hext_AddQueuePair open_flow])
next
  case (stack e i p h h' b)
  show ?case using okrD[OF hext_Send stack] by simp
next
  case (down fuel i h h')
  show ?case by (rule okrD[OF hext_TakeDown down])
next
  case (reroute order h e h')
  show ?case by (rule okrD[OF hext_RedistributeQp reroute(2)])
qed (auto intro!: hext_same simp: hw_AddTableEntry_def hw_ClearTable_def DeleteRxQp_def)

text \<open>
  C6. A host does to a flow only what a sender of go-back-N does.  Whatever event a host handles, the
  sizes, sequence numbers and identity of every queue pair that exists change only by taking packets
  from it (in order, starting at \<^verbatim>\<open>snd_nxt\<close>), by the transport part of an acknowledgement that has
  been received, or not at all, and every packet taken from it is handed to a channel.
\<close>

theorem host_refines_sender:
  assumes "host_step rx h h'" "r < h_fresh h"
  shows "\<exists>ps w. qrun (h_cfg h) rx (h_qps h r) ps (h_qps h' r) \<and> h_wire h' = h_wire h @ w \<and> set ps \<subseteq> snd ` set w"
  using hext_host_step[OF assms(1)] assms(2) by (auto simp: hext_def)

definition exampleNic :: nic where
  "exampleNic = \<lparr>m_rdmaEQ = (RdmaEgressQueue 0)\<lparr>m_qpGrp := [0]\<rparr>, d_queue = BEgressQueue 0 0, d_busy = False,
     d_currentPkt = None, d_linkUp = True, d_paused = (\<lambda>_. False), d_qbbEnabled = True, d_bps = 25000000000,
     m_tInterframeGap = 0, m_nextSend = None, d_numTxBytes = 0, d_totalBytesSent = 0\<rparr>"

definition exampleHost :: host where
  "exampleHost = \<lparr>h_cfg = exampleCfg, h_qps = (\<lambda>_. exampleQp 1000 0), h_fresh = 1, m_qpMap = [GetQpKey 2 10000 3 \<mapsto> 0],
     m_rxQpMap = Map.empty, h_rtTable = [2 \<mapsto> [0]], m_nic = [Some exampleNic], h_wire = [], h_done = [], h_up = []\<rparr>"

lemma exampleHost_pick:
  "GetNextQindex 0 (\<lambda>_. False) (\<lambda>_. exampleQp 1000 0) 0 ((RdmaEgressQueue 0)\<lparr>m_qpGrp := [0]\<rparr>)
   = Inr ((RdmaEgressQueue 0)\<lparr>m_qpGrp := [0], hostDequeueIndex := 1\<rparr>, 0)"
  by (simp add: GetNextQindex_def nextRound_def pickQp_def scanIdx_def canSend_def qCnt_def IsWinBound_def GetWin_def
      GetBytesLeft_def RdmaEgressQueue_def QueueBase_def Let_def)

definition exampleSent :: hpkt where
  "exampleSent = dataPkt (exampleHwenv 0) True 1000 (exampleQp 1000 0)"

lemma exampleHost_sends:
  "\<exists>h. wakeUp (exampleHwenv 0) 0 exampleHost = Inr h \<and> h_wire h = [(0, exampleSent)] \<and> snd_nxt (h_qps h 0) = 1000"
proof -
  let ?e = "exampleHwenv 0" and ?q = "exampleQp 1000 0"
  have f: "dip ?q = 2" "m_baseRtt ?q = 0" "m_rate ?q = 25000000000"
    by (simp_all add: exampleQp_def initCc_def RdmaQueuePair_def exampleCfg_def RdmaHw_def Let_def)
  have g: "GetNicIdxOfQp ?q h = Inr 0" if "h_rtTable h = [2 \<mapsto> [0]]" for h
    using that by (simp add: GetNicIdxOfQp_def routeOf_def f)
  have p: "nxtPayload exampleCfg ?q = 1000" by (simp add: nxtPayload_def GetBytesLeft_def)
  have b: "bdpOf 25000000000 0 = Inr 0" by (simp add: bdpOf_def fmul_def fdiv_def)
  have rb: "m_rateBound exampleCfg" by (simp add: exampleCfg_def RdmaHw_def)
  have ps: "p_size exampleSent = 1048"
    by (simp add: exampleSent_def dataPkt_def udpHeaders_def GetUdpHeaderSize_def intSize_def exampleHwenv_def IntHeader_GetStaticSize_def)
  have t: "CalculateBytesTxTime 25000000000 1048 = Inr 335" by (simp add: CalculateBytesTxTime_def)
  have n: "GetNxtPacket ?e 0 h = Inr (putQp 0 (advance exampleCfg ?q) h, exampleSent)"
    if "h_rtTable h = [2 \<mapsto> [0]]" "h_qps h 0 = ?q" "h_cfg h = exampleCfg" "getNic 0 h = Inr d" "d_bps d = 25000000000" for h d
    using that by (simp add: GetNxtPacket_def Let_def g f b p exampleSent_def GetBytesLeft_def u32_to_double_def)
  have gn: "getNic 0 exampleHost = Inr exampleNic" by (simp add: getNic_def exampleHost_def)
  have pn: "putNic 0 (exampleNic\<lparr>m_nextSend := None\<rparr>) exampleHost = exampleHost"
    by (simp add: putNic_def exampleHost_def exampleNic_def)
  have bq: "beq_GetNBytes tcpip_q_idx (d_queue exampleNic) = Inr 0"
    by (simp add: beq_GetNBytes_def exampleNic_def BEgressQueue_def tcpip_q_idx_def fCnt_def)
  define eq where "eq = (RdmaEgressQueue 0)\<lparr>m_qpGrp := [0], hostDequeueIndex := 1\<rparr>"
  have pick: "GetNextQindex (h_now ?e) (d_paused exampleNic) (h_qps exampleHost) 0 (m_rdmaEQ exampleNic) = Inr (eq, 0)"
    using exampleHost_pick by (simp add: exampleHwenv_def exampleNic_def exampleHost_def eq_def)
  have "wakeUp ?e 0 exampleHost = sendQp ?e 0 0 (exampleNic\<lparr>m_rdmaEQ := eq\<rparr>) exampleHost"
    by (simp add: wakeUp_def gn pn nic_DequeueAndTransmit_def bq pick Let_def) (simp add: exampleNic_def)
  moreover have "GetNxtPacket ?e 0 exampleHost = Inr (putQp 0 (advance exampleCfg ?q) exampleHost, exampleSent)"
    by (rule n[OF _ _ _ gn]) (simp_all add: exampleHost_def exampleNic_def)
  moreover have r: "m_rate (advance exampleCfg ?q) = 25000000000" "snd_nxt (advance exampleCfg ?q) = 1000"
    by (simp_all add: advance_def f p)
  ultimately show ?thesis
    by (simp add: sendQp_def nic_TransmitStart_def exampleNic_def eq_def putQp_def putNic_def exampleHost_def PktSent_def
        hw_UpdateNextAvail_def rb ps t r countSent_def getNic_def)
qed

theorem host_refines_sender_witness:
  "\<exists>h ps w. host_step None exampleHost h \<and> qrun exampleCfg None (exampleQp 1000 0) ps (h_qps h 0)
     \<and> h_wire h = w \<and> w = [(0, exampleSent)] \<and> set ps \<subseteq> snd ` set w \<and> snd_nxt (h_qps h 0) = 1000"
proof -
  obtain h where h: "wakeUp (exampleHwenv 0) 0 exampleHost = Inr h" "h_wire h = [(0, exampleSent)]" "snd_nxt (h_qps h 0) = 1000"
    using exampleHost_sends by blast
  have s: "host_step None exampleHost h" by (rule host_step.wake[OF h(1)])
  have f: "h_cfg exampleHost = exampleCfg" "h_qps exampleHost 0 = exampleQp 1000 0" "h_wire exampleHost = []" "0 < h_fresh exampleHost"
    by (simp_all add: exampleHost_def)
  obtain ps w where "qrun exampleCfg None (exampleQp 1000 0) ps (h_qps h 0)" "h_wire h = w" "set ps \<subseteq> snd ` set w"
    using host_refines_sender[OF s f(4)] unfolding f by auto
  then show ?thesis using s h(2,3) by (intro exI[of _ h] exI[of _ ps] exI[of _ w]) simp
qed

end
