(* ===== verification/Host_Invariant.thy ===== *)
theory Host_Invariant
  imports Host_Refinement
begin

text \<open>
  Well-formedness of a host.  The table of flows, the list of completed flows and the groups of the
  cards refer to queue pairs that exist; a flow is found under its own key only; a completed flow is
  no longer in the table and is reported once.
\<close>

subsection \<open>The invariant\<close>

definition kp :: "RdmaQueuePair \<Rightarrow> u64" where
  "kp q = GetQpKey (dip q) (sport q) (m_pg q)"

definition grp :: "nic \<Rightarrow> nat set" where
  "grp d = set (m_qpGrp (m_rdmaEQ d))"

definition grps :: "host \<Rightarrow> nat set" where
  "grps h = (\<Union>d\<in>{d. Some d \<in> set (m_nic h)}. grp d)"

definition host_ok :: "host \<Rightarrow> bool" where
  "host_ok h \<longleftrightarrow>
     (\<forall>k r. m_qpMap h k = Some r \<longrightarrow> r < h_fresh h \<and> k = kp (h_qps h r))
   \<and> distinct (h_done h) \<and> (\<forall>r\<in>set (h_done h). r < h_fresh h \<and> r \<notin> ran (m_qpMap h))
   \<and> (\<forall>r\<in>grps h. r < h_fresh h)"

text \<open>A step that leaves the bookkeeping alone.\<close>

definition calm :: "host \<Rightarrow> host \<Rightarrow> bool" where
  "calm h h' \<longleftrightarrow> m_qpMap h' = m_qpMap h \<and> h_fresh h' = h_fresh h \<and> h_done h' = h_done h
     \<and> (\<forall>r. kp (h_qps h' r) = kp (h_qps h r)) \<and> grps h' \<subseteq> grps h"

lemma calm_ok: "calm h h' \<Longrightarrow> host_ok h \<Longrightarrow> host_ok h'"
  by (auto simp: calm_def host_ok_def)

lemma calm_fresh: "calm h h' \<Longrightarrow> h_fresh h' = h_fresh h"
  by (simp add: calm_def)

lemma calm_refl: "calm h h" by (simp add: calm_def)

lemma calm_trans: "calm h h1 \<Longrightarrow> calm h1 h2 \<Longrightarrow> calm h h2"
  by (auto simp: calm_def)

lemma calm_then: "calm h h' \<Longrightarrow> okr (calm h') m \<Longrightarrow> okr (calm h) m"
  by (erule okr_mono) (rule calm_trans)

lemma calm_step: "okr (calm h) m \<Longrightarrow> (\<And>h'. calm h h' \<Longrightarrow> okr (calm h') (f h')) \<Longrightarrow> okr (calm h) (bindr m f)"
  by (erule okr_bind) (rule calm_then)

lemma tp_kp: "tp a = tp b \<Longrightarrow> kp a = kp b"
  by (simp add: tp_def kp_def)

lemma getNic_grps: "okr (\<lambda>d. grp d \<subseteq> grps h) (getNic i h)"
  unfolding getNic_def by (intro okr_if okr_option) (auto simp: okr_Inr grps_def in_set_conv_nth)

lemma grps_putNic: "grp d \<subseteq> grps h \<Longrightarrow> grps (putNic i d h) \<subseteq> grps h"
  by (auto simp: grps_def putNic_def dest: set_update_subset_insert[THEN subsetD])

lemma calm_putNic: "grp d \<subseteq> grps h \<Longrightarrow> calm h (putNic i d h)"
  using grps_putNic[of d h i] by (simp add: calm_def) (simp add: putNic_def)

lemma calm_putQp: "kp q = kp (h_qps h r) \<Longrightarrow> calm h (putQp r q h)"
  by (auto simp: calm_def putQp_def grps_def)

text \<open>A computation on a card and on the host.\<close>

lemma calm_nic: "(\<And>d. grp d \<subseteq> grps h \<Longrightarrow> okr (calm h) (f d)) \<Longrightarrow> okr (calm h) (bindr (getNic i h) f)"
  by (rule okr_bind[OF getNic_grps])

subsection \<open>Sending\<close>

lemma scanQps_idx: "okr (\<lambda>(res, fin). \<forall>m. fin = Some m \<longrightarrow> m \<in> set L \<or> fin0 = Some m) (scanQps now pz qp L fin0)"
proof (induction L arbitrary: fin0)
  case (Cons i L)
  let ?P = "\<lambda>(res :: int, fin). \<forall>m. fin = Some m \<longrightarrow> m \<in> set (i # L) \<or> fin0 = Some m"
  have step: "okr ?P (scanQps now pz qp L f)" if "f = fin0 \<or> f = Some i" for f
    by (rule okr_mono[OF Cons.IH[of f]]) (use that in auto)
  show ?case
    unfolding scanQps.simps by (rule okr_any, intro okr_if step) (auto simp: okr_Inr min_def split: option.splits)
qed (simp add: okr_Inr)

lemma pickQp_subset: "okr (\<lambda>(g, res). set g \<subseteq> set gr) (pickQp now pz look rr gr)"
  unfolding pickQp_def Let_def
proof (rule okr_bind[OF scanQps_idx], clarify)
  let ?n = "length gr"
  fix res fin
  assume a: "\<forall>m. fin = Some m \<longrightarrow> m \<in> set (map (scanIdx ?n rr) [1..<Suc ?n]) \<or> None = Some m"
  show "okr (\<lambda>(g, res). set g \<subseteq> set gr)
      (Inr (case fin of None \<Rightarrow> (gr, res) | Some m \<Rightarrow> compact now look [Suc m..<?n] m res gr))"
  proof (cases fin)
    case (Some m)
    have m: "m < ?n" using a Some by (cases "?n = 0") (auto simp: scanIdx_def)
    obtain g r where c: "compact now look [Suc m..<?n] m res gr = (g, r)" by fastforce
    have "g = take m gr @ filter (\<lambda>x. \<not> qp_IsFinished now (look x)) (drop (Suc m) gr)"
      using compact_spec[OF _ _ c] m by simp
    then show ?thesis using Some c by (auto simp: okr_Inr dest: in_set_takeD in_set_dropD)
  qed (simp add: okr_Inr)
qed

lemma nextRound_subset: "okr (\<lambda>(q', res). set (m_qpGrp q') \<subseteq> set (m_qpGrp q)) (nextRound now pz look tcp q)"
  unfolding nextRound_def Let_def
  by (intro okr_if okr_bind[OF pickQp_subset]) (auto simp: okr_Inr)

lemma GetNextQindex_subset: "okr (\<lambda>(q', res). set (m_qpGrp q') \<subseteq> set (m_qpGrp q)) (GetNextQindex now pz look tcp q)"
  unfolding GetNextQindex_def
proof (intro okr_if, simp add: okr_Inr, rule okr_bind[OF nextRound_subset], clarify)
  fix q1 :: RdmaEgressQueue and res assume s: "set (m_qpGrp q1) \<subseteq> set (m_qpGrp q)"
  show "okr (\<lambda>(q', res). set (m_qpGrp q') \<subseteq> set (m_qpGrp q)) (if res \<noteq> - 1024 then Inr (q1, res) else nextRound now pz look tcp q1)"
    using s by (intro okr_if okr_mono[OF nextRound_subset]) (auto simp: okr_Inr)
qed

lemma calm_countSent: "okr (calm h) (countSent i tx n h)"
  unfolding countSent_def by (rule calm_nic) (simp add: okr_Inr calm_putNic grp_def)

lemma calm_start: "grp d \<subseteq> grps h \<Longrightarrow> okr (calm h) (nic_TransmitStart i p d h)"
proof -
  assume "grp d \<subseteq> grps h"
  then have "calm h (putNic i (d\<lparr>d_busy := True, d_currentPkt := Some p\<rparr>) h)" by (intro calm_putNic) (simp add: grp_def)
  then show ?thesis unfolding nic_TransmitStart_def
    by (intro okr_if) (simp_all add: okr_Inr calm_def grps_def)
qed

lemma calm_sendAck: "grp d \<subseteq> grps h \<Longrightarrow> okr (calm h) (sendAck i d h)"
  unfolding sendAck_def
  by (intro okr_any okr_prod okr_option okr_Inl calm_step[OF calm_start] calm_countSent) (simp add: grp_def)

lemma calm_sendTcp: "grp d \<subseteq> grps h \<Longrightarrow> okr (calm h) (sendTcp i d h)"
  unfolding sendTcp_def
  by (intro okr_any okr_prod okr_option calm_step[OF calm_start] calm_countSent) (simp_all add: okr_Inr calm_putNic grp_def)

lemma kp_advance [simp]: "kp (advance c q) = kp q"
  by (simp add: kp_def advance_def)

lemma calm_sendQp: "grp d \<subseteq> grps h \<Longrightarrow> okr (calm h) (sendQp e i k d h)"
  unfolding sendQp_def Let_def
proof (intro okr_if okr_Inl)
  define r where "r = m_qpGrp (m_rdmaEQ d) ! k"
  define d1 where "d1 = d\<lparr>m_rdmaEQ := (m_rdmaEQ d)\<lparr>rq_rrlast := of_nat k, rq_qlast := int k\<rparr>\<rparr>"
  assume "grp d \<subseteq> grps h"
  then have d1: "grp d1 \<subseteq> grps (putQp r q h)" for q by (simp add: grp_def d1_def grps_def putQp_def)
  show "okr (calm h) (bindr (GetNxtPacket e r h) (\<lambda>(h, p). bindr (nic_TransmitStart i p d1 h) (\<lambda>h.
      bindr (PktSent (h_cfg h) e (m_tInterframeGap d) (p_size p) (h_qps h r)) (\<lambda>qp. countSent i False (p_size p) (putQp r qp h)))))"
  proof (rule okr_bind[OF GetNxtPacket_ok], clarify)
    fix u
    let ?p = "dataPkt e u (nxtPayload (h_cfg h) (h_qps h r)) (h_qps h r)" and ?h1 = "putQp r (advance (h_cfg h) (h_qps h r)) h"
    have "okr (calm h1) (bindr (PktSent (h_cfg h1) e (m_tInterframeGap d) (p_size ?p) (h_qps h1 r)) (\<lambda>qp. countSent i False (p_size ?p) (putQp r qp h1)))" for h1
      by (rule okr_bind[OF spec[OF tp_PktSent]], rule calm_then[OF calm_putQp[OF tp_kp] calm_countSent])
    then show "okr (calm h) (bindr (nic_TransmitStart i ?p d1 ?h1) (\<lambda>h.
        bindr (PktSent (h_cfg h) e (m_tInterframeGap d) (p_size ?p) (h_qps h r)) (\<lambda>qp. countSent i False (p_size ?p) (putQp r qp h))))"
      by (intro calm_then[OF calm_putQp calm_step[OF calm_start[OF d1]]]) simp
  qed
qed

lemma calm_dequeue: "okr (calm h) (nic_DequeueAndTransmit e i h)"
  unfolding nic_DequeueAndTransmit_def
proof (rule calm_nic, intro okr_if)
  fix d assume d: "grp d \<subseteq> grps h"
  show "okr (calm h) (bindr (beq_GetNBytes tcpip_q_idx (d_queue d)) (\<lambda>tcp.
       bindr (GetNextQindex (h_now e) (d_paused d) (h_qps h) tcp (m_rdmaEQ d)) (\<lambda>(eq, qIndex).
       let d = d\<lparr>m_rdmaEQ := eq\<rparr> in
       if qIndex = -1024 then Inr (waitForQps e i d h)
       else if qIndex = -1 then sendAck i d h
       else if qIndex = -2 then sendTcp i d h
       else sendQp e i (nat qIndex) d h)))"
  proof (rule okr_any, rule okr_bind[OF GetNextQindex_subset], clarify)
    fix eq :: RdmaEgressQueue and qIndex assume "set (m_qpGrp eq) \<subseteq> set (m_qpGrp (m_rdmaEQ d))"
    then have g: "grp (d\<lparr>m_rdmaEQ := eq\<rparr>) \<subseteq> grps h" using d by (auto simp: grp_def)
    then have "calm h (waitForQps e i (d\<lparr>m_rdmaEQ := eq\<rparr>) h)" by (auto simp: waitForQps_def Let_def grp_def intro!: calm_putNic)
    then show "okr (calm h) (let d = d\<lparr>m_rdmaEQ := eq\<rparr> in
       if qIndex = -1024 then Inr (waitForQps e i d h)
       else if qIndex = -1 then sendAck i d h
       else if qIndex = -2 then sendTcp i d h
       else sendQp e i (nat qIndex) d h)"
      using g by (simp add: Let_def okr_Inr calm_sendAck calm_sendTcp calm_sendQp)
  qed
qed (simp_all add: okr_Inr calm_refl)

subsection \<open>Receiving\<close>

lemma calm_rx: "calm h (h\<lparr>m_rxQpMap := m\<rparr>)"
  by (simp add: calm_def grps_def)

lemma calm_GetRxQp: "GetRxQp a b c d f create h = (h', q) \<Longrightarrow> calm h h'"
  by (auto simp: GetRxQp_def Let_def calm_rx calm_refl split: option.splits if_splits)

lemma calm_Enqueue: "okr (calm h) (RdmaEnqueueHighPrioQ i p h)"
  unfolding RdmaEnqueueHighPrioQ_def
proof (rule calm_nic)
  fix d assume "grp d \<subseteq> grps h"
  moreover have "okr (\<lambda>eq. m_qpGrp eq = m_qpGrp (m_rdmaEQ d)) (EnqueueHighPrioQ p (m_rdmaEQ d))"
    unfolding EnqueueHighPrioQ_def by (intro okr_any okr_prod) (simp add: okr_Inr)
  ultimately show "okr (calm h) (bindr (EnqueueHighPrioQ p (m_rdmaEQ d)) (\<lambda>eq. Inr (putNic i (d\<lparr>m_rdmaEQ := eq\<rparr>) h)))"
    by (elim okr_bind) (simp add: okr_Inr calm_putNic grp_def)
qed

lemma calm_ReceiveUdp: "okr (calm h) (ReceiveUdp e p h)"
  unfolding ReceiveUdp_def Let_def
proof (intro okr_prod okr_option okr_Inl)
  fix h1 o1 q assume "GetRxQp (p_dst p) (p_src p) (p_dport p) (p_sport p) (p_pg p) True h = (h1, o1)"
  note h1 = calm_GetRxQp[OF this]
  have m: "calm h (h1\<lparr>m_rxQpMap := x\<rparr>)" for x by (rule calm_trans[OF h1 calm_rx])
  have rest: "okr (calm h) (bindr (GetNicIdxOfRxQp q' h2) (\<lambda>i. bindr (RdmaEnqueueHighPrioQ i a h2) (nic_DequeueAndTransmit e i)))"
    if "calm h h2" for q' h2 a
    using that by (intro okr_any calm_then[OF _ calm_step[OF calm_Enqueue calm_dequeue]])
  show "okr (calm h) (bindr (ReceiverCheckSeq (h_cfg h1) (h_now e) (p_seq p) (p_size p - udpHeaders (h_mode e)) (noteEcn (h_cfg h1) (p_ecn p) q))
      (\<lambda>(q, x). if x = 1 \<or> x = 2
         then bindr (GetNicIdxOfRxQp (q\<lparr>rx_ipid := rx_ipid q + 1\<rparr>)
                 (h1\<lparr>m_rxQpMap := (m_rxQpMap h1)(rxKey (p_src p) (p_pg p) (p_sport p) \<mapsto> q\<lparr>rx_ipid := rx_ipid q + 1\<rparr>)\<rparr>))
               (\<lambda>i. bindr (RdmaEnqueueHighPrioQ i (ackPkt e (x = 2) p q)
                   (h1\<lparr>m_rxQpMap := (m_rxQpMap h1)(rxKey (p_src p) (p_pg p) (p_sport p) \<mapsto> q\<lparr>rx_ipid := rx_ipid q + 1\<rparr>)\<rparr>))
                 (nic_DequeueAndTransmit e i))
         else Inr (h1\<lparr>m_rxQpMap := (m_rxQpMap h1)(rxKey (p_src p) (p_pg p) (p_sport p) \<mapsto> q)\<rparr>)))"
    by (rule okr_any, rule okr_prod, rule okr_if, rule rest[OF m]) (simp add: okr_Inr m)
qed

lemma calm_ReceiveCnp: "okr (calm h) (ReceiveCnp p h)"
  unfolding ReceiveCnp_def Let_def
  by (intro okr_prod okr_option okr_any okr_if) (auto simp: okr_Inr calm_refl intro!: calm_putQp tp_kp)

lemma ok_QpComplete:
  assumes "host_ok h" "m_qpMap h k = Some r"
  shows "host_ok (QpComplete r h)"
proof -
  let ?h = "QpComplete r h"
  have k: "k = kp (h_qps h r)" "r < h_fresh h" "r \<notin> set (h_done h)" using assms by (auto simp: host_ok_def ran_def)
  have q: "kp (h_qps ?h r') = kp (h_qps h r')" for r' by (rule tp_kp[OF QpComplete_same(4)])
  have f: "h_fresh ?h = h_fresh h" "h_done ?h = h_done h @ [r]" "grps ?h = grps h" "m_qpMap ?h = (m_qpMap h)(kp (h_qps h r) := None)"
    by (simp_all add: QpComplete_def DeleteQueuePair_def putQp_def Let_def kp_def grps_def)
  have "r \<notin> ran (m_qpMap ?h)" using assms(1) by (auto simp: f ran_def host_ok_def)
  moreover have "ran (m_qpMap ?h) \<subseteq> ran (m_qpMap h)" by (auto simp: f ran_def)
  ultimately show ?thesis using assms(1) k unfolding host_ok_def q f by (auto split: if_splits)
qed

lemma kp_ack [simp]: "kp (Acknowledge s q) = kp q" "kp (RecoverQueue q) = kp q"
  by (simp_all add: kp_def Acknowledge_def RecoverQueue_def)

lemma ok_takeAck:
  assumes "host_ok h" "m_qpMap h k = Some r"
  shows "okr host_ok (takeAck e r seq h)"
proof -
  have p: "host_ok (putQp r (Acknowledge s (h_qps h r)) h)" for s by (rule calm_ok[OF calm_putQp assms(1)]) simp
  have "host_ok (QpComplete r (putQp r (Acknowledge s (h_qps h r)) h))" for s
    by (rule ok_QpComplete[OF p, where k = k]) (simp add: putQp_def assms(2))
  with p show ?thesis unfolding takeAck_def Let_def by (intro okr_if okr_any) (simp_all add: okr_Inr assms(1))
qed

lemma ok_calm: "host_ok h \<Longrightarrow> okr (calm h) m \<Longrightarrow> okr host_ok m"
  by (erule okr_mono) (rule calm_ok)

lemma ok_ReceiveAck:
  assumes "host_ok h"
  shows "okr host_ok (ReceiveAck e p h)"
  unfolding ReceiveAck_def Let_def
proof (rule okr_option, simp add: okr_Inr assms, rule okr_any)
  fix r i
  assume "GetQp (p_src p) (p_dport p) (p_pg p) h = Some r"
  then have m: "m_qpMap h (GetQpKey (p_src p) (p_dport p) (p_pg p)) = Some r" by (simp add: GetQp_def)
  let ?rec = "\<lambda>h1. if p_proto p = 0xFD then putQp r (RecoverQueue (h_qps h1 r)) h1 else h1"
  have rest: "okr (calm h1) (bindr (getNic i h1) (\<lambda>d.
      bindr (rateControl (h_cfg h1) e (p_seq p) (p_flags p AND 1 = 1) (p_int p) (h_qps h1 r, m_nextSend d)) (\<lambda>(qp, ns).
      nic_DequeueAndTransmit e i (putNic i (d\<lparr>m_nextSend := ns\<rparr>) (putQp r qp h1)))))" for h1
  proof (rule calm_nic)
    fix d :: nic assume d: "grp d \<subseteq> grps h1"
    have "okr (\<lambda>s. tp (fst s) = tp (h_qps h1 r))
        (rateControl (h_cfg h1) e (p_seq p) (p_flags p AND 1 = 1) (p_int p) (h_qps h1 r, m_nextSend d))"
      using tp_rateControl by blast
    then show "okr (calm h1)
       (bindr (rateControl (h_cfg h1) e (p_seq p) (p_flags p AND 1 = 1) (p_int p) (h_qps h1 r, m_nextSend d))
         (\<lambda>(qp, ns). nic_DequeueAndTransmit e i (putNic i (d\<lparr>m_nextSend := ns\<rparr>) (putQp r qp h1))))"
    proof (rule okr_bind, intro okr_prod)
      fix s :: qpdev and qp ns assume "tp (fst s) = tp (h_qps h1 r)" "s = (qp, ns)"
      then have "calm h1 (putQp r qp h1)" by (intro calm_putQp tp_kp) simp
      moreover have "calm (putQp r qp h1) (putNic i (d\<lparr>m_nextSend := ns\<rparr>) (putQp r qp h1))"
        using d by (intro calm_putNic) (simp add: grp_def grps_def putQp_def)
      ultimately show "okr (calm h1) (nic_DequeueAndTransmit e i (putNic i (d\<lparr>m_nextSend := ns\<rparr>) (putQp r qp h1)))"
        by (intro calm_then[OF calm_trans calm_dequeue])
    qed
  qed
  show "okr host_ok (bindr (takeAck e r (p_seq p) h) (\<lambda>h1.
      bindr (getNic i (?rec h1)) (\<lambda>d.
      bindr (rateControl (h_cfg (?rec h1)) e (p_seq p) (p_flags p AND 1 = 1) (p_int p) (h_qps (?rec h1) r, m_nextSend d)) (\<lambda>(qp, ns).
      nic_DequeueAndTransmit e i (putNic i (d\<lparr>m_nextSend := ns\<rparr>) (putQp r qp (?rec h1)))))))"
    by (rule okr_bind[OF ok_takeAck[OF assms m]], rule ok_calm[OF _ rest]) (auto intro: calm_ok[OF calm_putQp])
qed

lemma calm_up: "calm h (h\<lparr>h_up := u\<rparr>)"
  by (simp add: calm_def grps_def)

lemma calm_Resume: "okr (calm h) (nic_Resume e i q h)"
  unfolding nic_Resume_def
  by (rule calm_nic, intro okr_if okr_Inl calm_then[OF calm_putNic calm_dequeue]) (simp add: grp_def)

lemma ok_Receive: "host_ok h \<Longrightarrow> okr host_ok (nic_Receive e corrupt i p h)"
proof -
  assume h: "host_ok h"
  have c: "host_ok h'" if "calm h h'" for h' by (rule calm_ok[OF that h])
  have hw: "okr host_ok (hw_Receive e p h)"
    unfolding hw_Receive_def
    by (intro okr_if ok_calm[OF h calm_ReceiveUdp] ok_calm[OF h calm_ReceiveCnp] ok_ReceiveAck[OF h]) (simp add: okr_Inr h)
  show ?thesis
    unfolding nic_Receive_def Let_def
    by (rule okr_bind[OF getNic_grps], intro okr_if okr_prod ok_calm[OF h calm_Resume] hw)
      (auto simp: okr_Inr h grp_def intro!: c calm_up calm_putNic)
qed

subsection \<open>New flows and other routes\<close>

lemma ok_addToGroup: "host_ok h \<Longrightarrow> r < h_fresh h \<Longrightarrow> okr (\<lambda>h'. host_ok h' \<and> h_fresh h' = h_fresh h) (addToGroup i r h)"
  unfolding addToGroup_def
proof (rule okr_bind[OF getNic_grps])
  fix d assume h: "host_ok h" "r < h_fresh h" and d: "grp d \<subseteq> grps h"
  let ?d = "d\<lparr>m_rdmaEQ := (m_rdmaEQ d)\<lparr>m_qpGrp := m_qpGrp (m_rdmaEQ d) @ [r]\<rparr>\<rparr>"
  have "grps (putNic i ?d h) \<subseteq> insert r (grps h)"
    using d by (auto simp: grps_def putNic_def grp_def dest!: set_update_subset_insert[THEN subsetD])
  then have "host_ok (putNic i ?d h)" using h by (auto simp: host_ok_def putNic_def)
  then show "okr (\<lambda>h'. host_ok h' \<and> h_fresh h' = h_fresh h) (Inr (putNic i ?d h))" by (simp add: okr_Inr putNic_def)
qed

lemma calm_startQp: "okr (calm h) (startQp e i r win baseRtt h)"
  unfolding startQp_def
proof (rule okr_any)
  fix dev
  have dq: "okr (calm h') (NewQp e i r h')" for h'
    unfolding NewQp_def by (rule calm_then[OF calm_putQp calm_dequeue]) (simp add: kp_def)
  show "okr (calm h) (bindr (initQp (h_cfg h) (d_bps dev) win baseRtt (h_qps h r)) (\<lambda>qp. NewQp e i r (putQp r qp h)))"
    by (rule okr_bind[OF spec[OF tp_initQp]], rule calm_then[OF calm_putQp[OF tp_kp] dq]) simp
qed

lemma kp_makeQp: "kp (makeQp c e j sz pg s d sp dp win baseRtt stop) = GetQpKey d sp pg"
  by (simp add: kp_def makeQp_def SetVarWin_def SetBaseRtt_def SetWin_def SetSize_def RdmaQueuePair_def)

lemma ok_AddQueuePair:
  assumes "host_ok h"
  shows "okr host_ok (AddQueuePair e j sz pg s d sp dp win baseRtt stop h)"
  unfolding AddQueuePair_def Let_def
proof (rule okr_any)
  fix i
  define q where "q = makeQp (h_cfg h) e j sz pg s d sp dp win baseRtt stop"
  let ?r = "h_fresh h"
  let ?open = "\<lambda>h'. h'\<lparr>h_fresh := Suc ?r, m_qpMap := (m_qpMap h')(GetQpKey d sp pg \<mapsto> ?r)\<rparr>"
  have "okr (\<lambda>h'. host_ok (?open h')) (addToGroup i ?r (putQp ?r q h))"
    unfolding addToGroup_def
  proof (rule okr_bind[OF getNic_grps])
    fix dv assume "grp dv \<subseteq> grps (putQp ?r q h)"
    then have dv: "grp dv \<subseteq> grps h" by (simp add: grps_def putQp_def)
    let ?d = "dv\<lparr>m_rdmaEQ := (m_rdmaEQ dv)\<lparr>m_qpGrp := m_qpGrp (m_rdmaEQ dv) @ [?r]\<rparr>\<rparr>"
    let ?h = "?open (putNic i ?d (putQp ?r q h))"
    have g: "grps ?h \<subseteq> insert ?r (grps h)"
      using dv by (auto simp: grps_def putNic_def putQp_def grp_def dest!: set_update_subset_insert[THEN subsetD])
    have f: "m_qpMap ?h = (m_qpMap h)(GetQpKey d sp pg \<mapsto> ?r)" "h_fresh ?h = Suc ?r" "h_done ?h = h_done h"
      "h_qps ?h = (h_qps h)(?r := q)" by (simp_all add: putNic_def putQp_def)
    have "kp q = GetQpKey d sp pg" by (simp add: q_def kp_makeQp)
    moreover have "ran (m_qpMap ?h) \<subseteq> insert ?r (ran (m_qpMap h))" by (auto simp: f ran_def)
    ultimately have "host_ok ?h" using assms g unfolding host_ok_def f by (auto simp: less_Suc_eq)
    then show "okr (\<lambda>h'. host_ok (?open h')) (Inr (putNic i ?d (putQp ?r q h)))" by (simp add: okr_Inr)
  qed
  then show "okr host_ok (bindr (addToGroup i ?r (putQp ?r (makeQp (h_cfg h) e j sz pg s d sp dp win baseRtt stop) h))
      (\<lambda>h'. startQp e i ?r win baseRtt (?open h')))"
    unfolding q_def[symmetric] by (rule okr_bind) (rule ok_calm[OF _ calm_startQp])
qed

lemma ok_RedistributeQp:
  assumes "host_ok h" "set order = ran (m_qpMap h)"
  shows "okr host_ok (RedistributeQp e order h)"
proof -
  let ?P = "\<lambda>h'. host_ok h' \<and> h_fresh h' = h_fresh h"
  have "grps (clearGroups h) = {}"
    by (auto simp: clearGroups_def grps_def grp_def dest!: sym[of "Some _"])
  then have start: "?P (clearGroups h)"
    using assms(1) by (simp add: host_ok_def) (simp add: clearGroups_def)
  have step: "okr ?P (reassign e r h')" if "r \<in> set order" "?P h'" for r h'
  proof -
    have "r < h_fresh h'" using that assms by (auto simp: host_ok_def ran_def)
    note add = ok_addToGroup[OF _ this]
    have dq: "okr ?P (nic_DequeueAndTransmit e i h2)" if "host_ok h2 \<and> h_fresh h2 = h_fresh h'" for i h2
      by (rule okr_mono[OF calm_dequeue]) (use that \<open>?P h'\<close> calm_ok calm_fresh in metis)
    show ?thesis unfolding reassign_def
      by (rule okr_any, rule okr_bind[OF add]) (use that in simp, rule dq)
  qed
  have "?P h'" if "loopr (reassign e) order (clearGroups h) = Inr h'" for h'
    using that start by (rule loopr_invariant) (use okrD[OF step] in blast)
  then show ?thesis by (simp add: okr_def RedistributeQp_def)
qed

subsection \<open>The theorem\<close>

inductive host_reach :: "host \<Rightarrow> host \<Rightarrow> bool" for h0 where
  start: "host_reach h0 h0"
| step: "host_reach h0 h \<Longrightarrow> host_step rx h h' \<Longrightarrow> host_reach h0 h'"

lemma calm_TakeDown: "okr (calm h) (nic_TakeDown fuel i h)"
  unfolding nic_TakeDown_def
proof (rule calm_nic)
  fix d assume d: "grp d \<subseteq> grps h"
  have "okr (\<lambda>eq. m_qpGrp eq = m_qpGrp q) (CleanHighPrio fuel q)" for q
  proof (induction fuel q rule: CleanHighPrio.induct)
    case (2 n q)
    have "okr (\<lambda>eq. m_qpGrp eq = m_qpGrp q) (CleanHighPrio n (q\<lparr>m_ackQ := a\<rparr>))"
      if "m_nPackets (m_ackQ q) > 0" "DropTail_Dequeue p_size (m_ackQ q) = Inr (a, Some z)" for a z
      using 2[OF that(1)] by simp
    then show ?case
      by (cases "DropTail_Dequeue p_size (m_ackQ q)") (auto simp: okr_Inr split: option.splits)
  qed simp
  then show "okr (calm h) (bindr (CleanHighPrio fuel (m_rdmaEQ d)) (\<lambda>eq. Inr (putNic i (d\<lparr>m_rdmaEQ := eq, d_linkUp := False\<rparr>) h)))"
    by (rule okr_bind) (use d in \<open>simp add: okr_Inr calm_putNic grp_def\<close>)
qed

lemma calm_TransmitComplete: "okr (calm h) (nic_TransmitComplete e i h)"
  unfolding nic_TransmitComplete_def
  by (rule calm_nic, intro okr_if okr_Inl calm_then[OF calm_putNic calm_dequeue]) (simp add: grp_def)

lemma calm_wakeUp: "okr (calm h) (wakeUp e i h)"
  unfolding wakeUp_def by (rule calm_nic, rule calm_then[OF calm_putNic calm_dequeue]) (simp add: grp_def)

lemma calm_fireMlx: "okr (calm h) (fireMlx e t r h)"
  unfolding fireMlx_def Let_def by (rule okr_bind[OF tp_fireMlx]) (unfold okr_Inr, rule calm_putQp[OF tp_kp])

lemma calm_Send: "okr (\<lambda>x. calm h (fst x)) (nic_Send e i p h)"
  unfolding nic_Send_def
proof (rule okr_bind[OF getNic_grps])
  fix d :: nic assume d: "grp d \<subseteq> grps h"
  have dq: "okr (\<lambda>x. calm h (fst x)) (bindr (nic_DequeueAndTransmit e i (putNic i (d\<lparr>d_queue := q\<rparr>) h)) (\<lambda>h. Inr (h, True)))" for q
  proof (rule okr_bind[where Q = "calm h"])
    show "okr (calm h) (nic_DequeueAndTransmit e i (putNic i (d\<lparr>d_queue := q\<rparr>) h))"
      by (rule calm_then[OF calm_putNic calm_dequeue]) (use d in \<open>simp add: grp_def\<close>)
  qed (simp add: okr_Inr)
  show "okr (\<lambda>x. calm h (fst x)) (if \<not> d_linkUp d then Inr (h, False)
     else bindr (BEgressQueue_Enqueue p_size (p\<lparr>p_size := p_size p + 14\<rparr>) tcpip_q_idx (d_queue d)) (\<lambda>(q, _).
       bindr (nic_DequeueAndTransmit e i (putNic i (d\<lparr>d_queue := q\<rparr>) h)) (\<lambda>h. Inr (h, True))))"
    by (rule okr_if, simp add: okr_Inr calm_refl, rule okr_any, rule okr_prod, rule dq)
qed

lemma ok_host_step: "host_step rx h h' \<Longrightarrow> host_ok h \<Longrightarrow> host_ok h'"
proof (induction rule: host_step.induct)
  case (receive e corrupt i p h h')
  show ?case by (rule okrD[OF ok_Receive[OF receive(2)] receive(1)])
next
  case (sent e i h h')
  show ?case by (rule calm_ok[OF okrD[OF calm_TransmitComplete sent(1)] sent(2)])
next
  case (wake e i h h')
  show ?case by (rule calm_ok[OF okrD[OF calm_wakeUp wake(1)] wake(2)])
next
  case (timer e t r h h')
  show ?case by (rule calm_ok[OF okrD[OF calm_fireMlx timer(1)] timer(2)])
next
  case (open_flow e j sz pg s d sp dp win baseRtt stop h h')
  show ?case by (rule okrD[OF ok_AddQueuePair[OF open_flow(2)] open_flow(1)])
next
  case (stack e i p h h' b)
  show ?case using calm_ok[OF okrD[OF calm_Send stack(1)]] stack(2) by simp
next
  case (down fuel i h h')
  show ?case by (rule calm_ok[OF okrD[OF calm_TakeDown down(1)] down(2)])
next
  case (reroute order h e h')
  show ?case by (rule okrD[OF ok_RedistributeQp[OF reroute(3,1)] reroute(2)])
qed (erule calm_ok[rotated], simp add: calm_def grps_def hw_AddTableEntry_def hw_ClearTable_def DeleteRxQp_def)+

definition newHost :: "hwcfg \<Rightarrow> nic option list \<Rightarrow> host" where
  "newHost c devs = RdmaDriver_Init devs \<lparr>h_cfg = c, h_qps = (\<lambda>_. exampleQp 0 0), h_fresh = 0, m_qpMap = Map.empty,
     m_rxQpMap = Map.empty, h_rtTable = Map.empty, m_nic = [], h_wire = [], h_done = [], h_up = []\<rparr>"

lemma ok_newHost: "host_ok (newHost c devs)"
  by (auto simp: host_ok_def newHost_def RdmaDriver_Init_def grps_def grp_def dest!: sym[of "Some _"])

text \<open>
  C11. The state of a host is well formed after any sequence of events: the table of flows holds
  existing queue pairs, each under its own key; the groups of the cards hold existing queue pairs;
  the completion of a flow is reported at most once, and a completed flow is not in the table.
\<close>

theorem host_well_formed:
  assumes "host_reach (newHost c devs) h"
  shows "(\<forall>k r. m_qpMap h k = Some r \<longrightarrow> r < h_fresh h \<and> k = GetQpKey (dip (h_qps h r)) (sport (h_qps h r)) (m_pg (h_qps h r)))
    \<and> (\<forall>d\<in>{d. Some d \<in> set (m_nic h)}. set (m_qpGrp (m_rdmaEQ d)) \<subseteq> {..<h_fresh h})
    \<and> distinct (h_done h) \<and> set (h_done h) \<inter> ran (m_qpMap h) = {}"
proof -
  have "host_ok h"
    using assms by induction (auto intro: ok_newHost ok_host_step)
  then show ?thesis by (auto simp: host_ok_def kp_def grps_def grp_def)
qed

text \<open>A route is added and a flow of 1000 bytes is opened while the link is down.\<close>

theorem host_well_formed_witness:
  "\<exists>h. host_reach (newHost exampleCfg [Some (exampleNic\<lparr>d_linkUp := False\<rparr>)]) h
     \<and> m_qpMap h (GetQpKey 2 10000 3) = Some 0 \<and> 0 < h_fresh h"
proof -
  define d where "d = exampleNic\<lparr>d_linkUp := False\<rparr>"
  define h0 where "h0 = newHost exampleCfg [Some d]"
  define h1 where "h1 = hw_AddTableEntry 2 0 h0"
  let ?e = "exampleHwenv 0"
  define q where "q = makeQp exampleCfg ?e exampleJunk 1000 3 1 2 10000 100 0 0 MaximumSimulationTime"
  have q: "dip q = 2"
    by (simp add: q_def makeQp_def SetVarWin_def SetBaseRtt_def SetWin_def SetSize_def RdmaQueuePair_def)
  have f: "h_rtTable h1 = [2 \<mapsto> [0]]" "h_fresh h1 = 0" "h_cfg h1 = exampleCfg" "\<exists>d'. m_nic h1 = [Some d'] \<and> \<not> d_linkUp d'"
    by (simp_all add: h1_def h0_def newHost_def RdmaDriver_Init_def hw_AddTableEntry_def d_def)
  then obtain d' where d': "m_nic h1 = [Some d']" "\<not> d_linkUp d'" by blast
  have g: "GetNicIdxOfQp q h1 = Inr 0" by (simp add: GetNicIdxOfQp_def routeOf_def q f)
  have "\<exists>h. AddQueuePair ?e exampleJunk 1000 3 1 2 10000 100 0 0 MaximumSimulationTime h1 = Inr h
      \<and> m_qpMap h (GetQpKey 2 10000 3) = Some 0"
    by (simp add: AddQueuePair_def Let_def f q_def[symmetric] g addToGroup_def startQp_def initQp_def initWin_def NewQp_def
        nic_DequeueAndTransmit_def getNic_def putNic_def putQp_def d')
  then obtain h where h: "AddQueuePair ?e exampleJunk 1000 3 1 2 10000 100 0 0 MaximumSimulationTime h1 = Inr h"
    "m_qpMap h (GetQpKey 2 10000 3) = Some 0" by blast
  have "host_step None h0 h1" unfolding h1_def by (rule host_step.route)
  from host_reach.step[OF host_reach.step[OF host_reach.start this] host_step.open_flow[OF h(1)]]
  have r: "host_reach h0 h" .
  then show ?thesis using host_well_formed[OF r[unfolded h0_def]] h(2) unfolding h0_def d_def by blast
qed

end
