(* ===== verification/Packet_Buffer.thy ===== *)
theory Packet_Buffer
  imports Prelude
begin

text \<open>
  The byte buffer of a packet (network/model/buffer.h, buffer.cc).  A \<^verbatim>\<open>Buffer\<close> is a window on a
  reference-counted block of bytes, with a virtual area of zeroes (the payload, which is never
  stored) between two stored parts; several buffers may share one block, and new bytes are written
  in place when they lie outside of the part of the block that is in use (the dirty area).

  The heap of blocks is explicit: a block that has been freed is not in it.  The contents of fresh
  memory are arbitrary (\<open>bh_fill\<close>).  The free list is \<open>None\<close> until the first block is made; the
  state after the static destructors is not modelled.  \<^verbatim>\<open>CheckInternalState\<close> is the check the
  source has disabled; the assertions that call it always succeed in the source, and \<open>Buffer_Sharing\<close>
  shows that the disabled check would succeed as well.
\<close>

subsection \<open>Blocks\<close>

record bufData =
  bd_count :: u32
  bd_size :: u32
  bd_dirtyStart :: u32
  bd_dirtyEnd :: u32
  bd_bytes :: "u8 list"

record bheap =
  bh_data :: "nat \<rightharpoonup> bufData"
  bh_next :: nat
  bh_fill :: "nat \<Rightarrow> nat \<Rightarrow> u8"
  g_freeList :: "nat list option"
  g_bufMaxSize :: u32
  g_recommendedStart :: u32

record buf =
  bf_data :: nat
  bf_maxZeroAreaStart :: u32
  bf_zeroAreaStart :: u32
  bf_zeroAreaEnd :: u32
  bf_start :: u32
  bf_end :: u32

definition getD :: "nat \<Rightarrow> bheap \<Rightarrow> bufData res" where
  "getD d s = (case bh_data s d of None \<Rightarrow> Inl NullDeref | Some D \<Rightarrow> Inr D)"

definition putD :: "nat \<Rightarrow> bufData \<Rightarrow> bheap \<Rightarrow> bheap" where
  "putD d D s = s\<lparr>bh_data := (bh_data s)(d \<mapsto> D)\<rparr>"

text \<open>Reading and writing bytes of a block, \<^verbatim>\<open>memcpy\<close> and \<^verbatim>\<open>memset\<close>.\<close>

definition peekM :: "nat \<Rightarrow> nat \<Rightarrow> nat \<Rightarrow> bheap \<Rightarrow> u8 list res" where
  "peekM d i n s =
     bindr (getD d s) (\<lambda>D. if i + n \<le> length (bd_bytes D) then Inr (take n (drop i (bd_bytes D))) else Inl OutOfBounds)"

definition pokeM :: "nat \<Rightarrow> nat \<Rightarrow> u8 list \<Rightarrow> bheap \<Rightarrow> bheap res" where
  "pokeM d i bs s =
     bindr (getD d s) (\<lambda>D.
     if i + length bs \<le> length (bd_bytes D)
     then Inr (putD d (D\<lparr>bd_bytes := take i (bd_bytes D) @ bs @ drop (i + length bs) (bd_bytes D)\<rparr>) s)
     else Inl OutOfBounds)"

definition ALLOC_OVER_PROVISION :: u32 where "ALLOC_OVER_PROVISION = 100"

text \<open>The dirty area of a fresh block is set by the caller before it is read.\<close>

definition Buffer_Allocate :: "u32 \<Rightarrow> bheap \<Rightarrow> (nat \<times> bheap) res" where
  "Buffer_Allocate reqSize s =
     (let n = (if reqSize = 0 then 1 else reqSize) + ALLOC_OVER_PROVISION; d = bh_next s in
      Inr (d, putD d \<lparr>bd_count = 1, bd_size = n, bd_dirtyStart = 0, bd_dirtyEnd = 0,
                      bd_bytes = map (bh_fill s d) [0..<unat n]\<rparr> (s\<lparr>bh_next := Suc d\<rparr>)))"

definition Buffer_Deallocate :: "nat \<Rightarrow> bheap \<Rightarrow> bheap res" where
  "Buffer_Deallocate d s =
     bindr (getD d s) (\<lambda>D. if bd_count D \<noteq> 0 then Inl Assert else Inr (s\<lparr>bh_data := (bh_data s)(d := None)\<rparr>))"

definition Buffer_Recycle :: "nat \<Rightarrow> bheap \<Rightarrow> bheap res" where
  "Buffer_Recycle d s =
     bindr (getD d s) (\<lambda>D.
     if bd_count D \<noteq> 0 then Inl Assert
     else case g_freeList s of None \<Rightarrow> Inl Assert
     | Some fl \<Rightarrow>
         let s = s\<lparr>g_bufMaxSize := max (g_bufMaxSize s) (bd_size D)\<rparr> in
         if bd_size D < g_bufMaxSize s \<or> length fl > 1000 then Buffer_Deallocate d s
         else Inr (s\<lparr>g_freeList := Some (fl @ [d])\<rparr>))"

text \<open>The search in the free list, from its back.\<close>

fun takeFree :: "u32 \<Rightarrow> nat list \<Rightarrow> bheap \<Rightarrow> (nat option \<times> bheap) res" where
  "takeFree n [] s = Inr (None, s)"
| "takeFree n (d # ds) s =
     bindr (getD d s) (\<lambda>D.
     let s = s\<lparr>g_freeList := Some (rev ds)\<rparr> in
     if bd_size D \<ge> n then Inr (Some d, putD d (D\<lparr>bd_count := 1\<rparr>) s)
     else bindr (Buffer_Deallocate d s) (takeFree n ds))"

definition Buffer_Create :: "u32 \<Rightarrow> bheap \<Rightarrow> (nat \<times> bheap) res" where
  "Buffer_Create n s =
     (case g_freeList s of
        None \<Rightarrow> Buffer_Allocate n (s\<lparr>g_freeList := Some []\<rparr>)
      | Some fl \<Rightarrow>
          bindr (takeFree n (rev fl) s) (\<lambda>(r, s). case r of Some d \<Rightarrow> Inr (d, s) | None \<Rightarrow> Buffer_Allocate n s))"

definition unref :: "nat \<Rightarrow> bheap \<Rightarrow> bheap res" where
  "unref d s =
     bindr (getD d s) (\<lambda>D.
     let s = putD d (D\<lparr>bd_count := bd_count D - 1\<rparr>) s in
     if bd_count D - 1 = 0 then Buffer_Recycle d s else Inr s)"

definition setDirty :: "nat \<Rightarrow> u32 \<Rightarrow> u32 \<Rightarrow> bheap \<Rightarrow> bheap res" where
  "setDirty d st en s = bindr (getD d s) (\<lambda>D. Inr (putD d (D\<lparr>bd_dirtyStart := st, bd_dirtyEnd := en\<rparr>) s))"

subsection \<open>Buffers\<close>

definition Buffer_Initialize :: "u32 \<Rightarrow> bheap \<Rightarrow> (buf \<times> bheap) res" where
  "Buffer_Initialize zeroSize s =
     bindr (Buffer_Create 0 s) (\<lambda>(d, s).
     bindr (getD d s) (\<lambda>D.
     let st = min (bd_size D) (g_recommendedStart s);
         b = \<lparr>bf_data = d, bf_maxZeroAreaStart = st, bf_zeroAreaStart = st, bf_zeroAreaEnd = st + zeroSize,
              bf_start = st, bf_end = st + zeroSize\<rparr>
     in bindr (setDirty d (bf_start b) (bf_end b) s) (\<lambda>s. Inr (b, s))))"

definition CheckInternalState :: "buf \<Rightarrow> bheap \<Rightarrow> bool" where
  "CheckInternalState b s =
     (case bh_data s (bf_data b) of None \<Rightarrow> False
      | Some D \<Rightarrow>
          let offsetsOk = bf_start b \<le> bf_zeroAreaStart b \<and> bf_zeroAreaStart b \<le> bf_zeroAreaEnd b \<and> bf_zeroAreaEnd b \<le> bf_end b;
              dirtyOk = bf_start b \<ge> bd_dirtyStart D \<and> bf_end b \<le> bd_dirtyEnd D;
              internalSizeOk = bf_end b - (bf_zeroAreaEnd b - bf_zeroAreaStart b) \<le> bd_size D
                \<and> bf_start b \<le> bd_size D \<and> bf_zeroAreaStart b \<le> bd_size D
          in bd_count D > 0 \<and> offsetsOk \<and> dirtyOk \<and> internalSizeOk)"

definition Buffer_copy :: "buf \<Rightarrow> bheap \<Rightarrow> (buf \<times> bheap) res" where
  "Buffer_copy o1 s =
     bindr (getD (bf_data o1) s) (\<lambda>D.
     Inr (o1\<lparr>bf_maxZeroAreaStart := bf_zeroAreaStart o1\<rparr>, putD (bf_data o1) (D\<lparr>bd_count := bd_count D + 1\<rparr>) s))"

definition Buffer_destroy :: "buf \<Rightarrow> bheap \<Rightarrow> bheap res" where
  "Buffer_destroy b s = unref (bf_data b) (s\<lparr>g_recommendedStart := max (g_recommendedStart s) (bf_maxZeroAreaStart b)\<rparr>)"

definition Buffer_assign :: "buf \<Rightarrow> buf \<Rightarrow> bheap \<Rightarrow> (buf \<times> bheap) res" where
  "Buffer_assign b o1 s =
     bindr (if bf_data b \<noteq> bf_data o1 then
              bindr (unref (bf_data b) s) (\<lambda>s.
              bindr (getD (bf_data o1) s) (\<lambda>D. Inr (putD (bf_data o1) (D\<lparr>bd_count := bd_count D + 1\<rparr>) s)))
            else Inr s)
       (\<lambda>s. Inr (o1, s\<lparr>g_recommendedStart := max (g_recommendedStart s) (bf_maxZeroAreaStart b)\<rparr>))"

definition buf_GetSize :: "buf \<Rightarrow> u32" where
  "buf_GetSize b = bf_end b - bf_start b"

definition GetInternalSize :: "buf \<Rightarrow> u32" where
  "GetInternalSize b = bf_zeroAreaStart b - bf_start b + bf_end b - bf_zeroAreaEnd b"

definition GetInternalEnd :: "buf \<Rightarrow> u32" where
  "GetInternalEnd b = bf_end b - (bf_zeroAreaEnd b - bf_zeroAreaStart b)"

definition noteMax :: "buf \<Rightarrow> buf" where
  "noteMax b = b\<lparr>bf_maxZeroAreaStart := max (bf_maxZeroAreaStart b) (bf_zeroAreaStart b)\<rparr>"

text \<open>The stored bytes move to a block of their own, at the given offset.\<close>

definition moveTo :: "u32 \<Rightarrow> u32 \<Rightarrow> buf \<Rightarrow> bheap \<Rightarrow> (nat \<times> bheap) res" where
  "moveTo newSize off b s =
     bindr (Buffer_Create newSize s) (\<lambda>(d, s).
     bindr (peekM (bf_data b) (unat (bf_start b)) (unat (GetInternalSize b)) s) (\<lambda>bs.
     bindr (pokeM d (unat off) bs s) (\<lambda>s.
     bindr (unref (bf_data b) s) (\<lambda>s. Inr (d, s)))))"

definition shift :: "u32 \<Rightarrow> buf \<Rightarrow> buf" where
  "shift delta b =
     b\<lparr>bf_start := bf_start b + delta, bf_zeroAreaStart := bf_zeroAreaStart b + delta,
       bf_zeroAreaEnd := bf_zeroAreaEnd b + delta, bf_end := bf_end b + delta\<rparr>"

definition AddAtStart :: "u32 \<Rightarrow> buf \<Rightarrow> bheap \<Rightarrow> (buf \<times> bheap) res" where
  "AddAtStart n b s =
     bindr (getD (bf_data b) s) (\<lambda>D.
     let isDirty = bd_count D > 1 \<and> bf_start b > bd_dirtyStart D in
     if bf_start b \<ge> n \<and> \<not> isDirty then
       (if bd_count D = 1 \<or> bf_start b = bd_dirtyStart D then
          let b = b\<lparr>bf_start := bf_start b - n\<rparr> in
          Inr (noteMax b, putD (bf_data b) (D\<lparr>bd_dirtyStart := bf_start b\<rparr>) s)
        else Inl Assert)
     else
       bindr (moveTo (GetInternalSize b + n) n b s) (\<lambda>(d, s).
       let b = shift (n - bf_start b) b; b = b\<lparr>bf_data := d, bf_start := bf_start b - n\<rparr> in
       bindr (setDirty d (bf_start b) (bf_end b) s) (\<lambda>s. Inr (noteMax b, s))))"

definition AddAtEnd :: "u32 \<Rightarrow> buf \<Rightarrow> bheap \<Rightarrow> (buf \<times> bheap) res" where
  "AddAtEnd n b s =
     bindr (getD (bf_data b) s) (\<lambda>D.
     let isDirty = bd_count D > 1 \<and> bf_end b < bd_dirtyEnd D in
     if GetInternalEnd b + n \<le> bd_size D \<and> \<not> isDirty then
       (if bd_count D = 1 \<or> bf_end b = bd_dirtyEnd D then
          let b = b\<lparr>bf_end := bf_end b + n\<rparr> in
          Inr (noteMax b, putD (bf_data b) (D\<lparr>bd_dirtyEnd := bf_end b\<rparr>) s)
        else Inl Assert)
     else
       bindr (moveTo (GetInternalSize b + n) 0 b s) (\<lambda>(d, s).
       let b = shift (- bf_start b) b; b = b\<lparr>bf_data := d, bf_end := bf_end b + n\<rparr> in
       bindr (setDirty d (bf_start b) (bf_end b) s) (\<lambda>s. Inr (noteMax b, s))))"

definition RemoveAtStart :: "u32 \<Rightarrow> buf \<Rightarrow> buf res" where
  "RemoveAtStart n b =
     (let newStart = bf_start b + n in
      if newStart \<le> bf_zeroAreaStart b then Inr (noteMax (b\<lparr>bf_start := newStart\<rparr>))
      else if newStart \<le> bf_zeroAreaEnd b then
        let delta = newStart - bf_zeroAreaStart b in
        Inr (noteMax (b\<lparr>bf_start := bf_zeroAreaStart b, bf_zeroAreaEnd := bf_zeroAreaEnd b - delta, bf_end := bf_end b - delta\<rparr>))
      else if newStart \<le> bf_end b then
        if bf_end b \<ge> n then
          let zeroSize = bf_zeroAreaEnd b - bf_zeroAreaStart b; st = newStart - zeroSize in
          Inr (noteMax (b\<lparr>bf_start := st, bf_end := bf_end b - zeroSize, bf_zeroAreaStart := st, bf_zeroAreaEnd := st\<rparr>))
        else Inl Assert
      else
        let en = bf_end b - (bf_zeroAreaEnd b - bf_zeroAreaStart b) in
        Inr (noteMax (b\<lparr>bf_end := en, bf_start := en, bf_zeroAreaEnd := en, bf_zeroAreaStart := en\<rparr>)))"

definition RemoveAtEnd :: "u32 \<Rightarrow> buf \<Rightarrow> buf" where
  "RemoveAtEnd n b =
     (let newEnd = bf_end b - min n (bf_end b - bf_start b) in
      noteMax
       (if newEnd > bf_zeroAreaEnd b then b\<lparr>bf_end := newEnd\<rparr>
        else if newEnd > bf_zeroAreaStart b then b\<lparr>bf_end := newEnd, bf_zeroAreaEnd := newEnd\<rparr>
        else if newEnd > bf_start b then b\<lparr>bf_end := newEnd, bf_zeroAreaEnd := newEnd, bf_zeroAreaStart := newEnd\<rparr>
        else b\<lparr>bf_end := bf_start b, bf_zeroAreaEnd := bf_start b, bf_zeroAreaStart := bf_start b\<rparr>))"

definition buf_CreateFragment :: "u32 \<Rightarrow> u32 \<Rightarrow> buf \<Rightarrow> bheap \<Rightarrow> (buf \<times> bheap) res" where
  "buf_CreateFragment start len b s =
     bindr (Buffer_copy b s) (\<lambda>(tmp, s).
     bindr (RemoveAtStart start tmp) (\<lambda>tmp. Inr (RemoveAtEnd (buf_GetSize b - (start + len)) tmp, s)))"

subsection \<open>Iterators\<close>

record iter =
  it_zeroStart :: u32
  it_zeroEnd :: u32
  it_dataStart :: u32
  it_dataEnd :: u32
  it_current :: u32
  it_data :: nat

definition iter_Construct :: "buf \<Rightarrow> iter" where
  "iter_Construct b =
     \<lparr>it_zeroStart = bf_zeroAreaStart b, it_zeroEnd = bf_zeroAreaEnd b, it_dataStart = bf_start b,
      it_dataEnd = bf_end b, it_current = bf_start b, it_data = bf_data b\<rparr>"

definition Begin :: "buf \<Rightarrow> iter" where
  "Begin b = (iter_Construct b)\<lparr>it_current := bf_start b\<rparr>"

definition End :: "buf \<Rightarrow> iter" where
  "End b = (iter_Construct b)\<lparr>it_current := bf_end b\<rparr>"

definition Next :: "u32 \<Rightarrow> iter \<Rightarrow> iter res" where
  "Next delta i = (if it_current i + delta \<le> it_dataEnd i then Inr (i\<lparr>it_current := it_current i + delta\<rparr>) else Inl Assert)"

definition Prev :: "u32 \<Rightarrow> iter \<Rightarrow> iter res" where
  "Prev delta i = (if it_current i \<ge> delta then Inr (i\<lparr>it_current := it_current i - delta\<rparr>) else Inl Assert)"

definition CheckNoZero :: "u32 \<Rightarrow> u32 \<Rightarrow> iter \<Rightarrow> bool" where
  "CheckNoZero start en i =
     (\<not> (start < it_dataStart i \<or> en > it_dataEnd i
         \<or> (en > it_zeroStart i \<and> start < it_zeroEnd i \<and> it_zeroEnd i \<noteq> it_zeroStart i \<and> start \<noteq> en)))"

definition iter_Check :: "u32 \<Rightarrow> iter \<Rightarrow> bool" where
  "iter_Check x i = (x \<ge> it_dataStart i \<and> \<not> (x \<ge> it_zeroStart i \<and> x < it_zeroEnd i) \<and> x \<le> it_dataEnd i)"

text \<open>The place of a virtual offset behind the zero area.\<close>

definition behind :: "iter \<Rightarrow> u32" where
  "behind i = it_current i - (it_zeroEnd i - it_zeroStart i)"

definition WriteU8 :: "u8 \<Rightarrow> iter \<Rightarrow> bheap \<Rightarrow> (iter \<times> bheap) res" where
  "WriteU8 v i s =
     (if \<not> iter_Check (it_current i) i then Inl Assert
      else
        bindr (pokeM (it_data i) (unat (if it_current i < it_zeroStart i then it_current i else behind i)) [v] s) (\<lambda>s.
        Inr (i\<lparr>it_current := it_current i + 1\<rparr>, s)))"

definition WriteU8s :: "u8 \<Rightarrow> u32 \<Rightarrow> iter \<Rightarrow> bheap \<Rightarrow> (iter \<times> bheap) res" where
  "WriteU8s v len i s =
     (if \<not> CheckNoZero (it_current i) (it_current i + len) i then Inl Assert
      else
        bindr (pokeM (it_data i) (unat (if it_current i \<le> it_zeroStart i then it_current i else behind i)) (replicate (unat len) v) s) (\<lambda>s.
        Inr (i\<lparr>it_current := it_current i + len\<rparr>, s)))"

definition WriteRaw :: "u8 list \<Rightarrow> iter \<Rightarrow> bheap \<Rightarrow> (iter \<times> bheap) res" where
  "WriteRaw bs i s =
     (let size = of_nat (length bs) in
      if \<not> CheckNoZero (it_current i) size i then Inl Assert
      else
        bindr (pokeM (it_data i) (unat (if it_current i \<le> it_zeroStart i then it_current i else behind i)) bs s) (\<lambda>s.
        Inr (i\<lparr>it_current := it_current i + size\<rparr>, s)))"

text \<open>\<^verbatim>\<open>Write(Iterator start, Iterator end)\<close>: the bytes between two iterators of another buffer.\<close>

definition WriteIter :: "iter \<Rightarrow> iter \<Rightarrow> iter \<Rightarrow> bheap \<Rightarrow> (iter \<times> bheap) res" where
  "WriteIter st en i s =
     (if it_data st \<noteq> it_data en \<or> \<not> it_current st \<le> it_current en \<or> it_zeroStart st \<noteq> it_zeroStart en
         \<or> it_zeroEnd st \<noteq> it_zeroEnd en \<or> it_data i = it_data st then Inl Assert
      else
        let size = it_current en - it_current st in
        if \<not> CheckNoZero (it_current i) (it_current i + size) i then Inl Assert
        else
          bindr (if it_current st \<le> it_zeroStart st then
                   let toCopy = min size (it_zeroStart st - it_current st) in
                   bindr (peekM (it_data st) (unat (it_current st)) (unat toCopy) s) (\<lambda>bs.
                   bindr (pokeM (it_data i) (unat (it_current i)) bs s) (\<lambda>s.
                   Inr (st\<lparr>it_current := it_current st + toCopy\<rparr>, i\<lparr>it_current := it_current i + toCopy\<rparr>, size - toCopy, s)))
                 else Inr (st, i, size, s)) (\<lambda>(st, i, size, s).
          bindr (if it_current st \<le> it_zeroEnd st then
                   let toCopy = min size (it_zeroEnd st - it_current st) in
                   bindr (pokeM (it_data i) (unat (it_current i)) (replicate (unat toCopy) 0) s) (\<lambda>s.
                   Inr (st\<lparr>it_current := it_current st + toCopy\<rparr>, i\<lparr>it_current := it_current i + toCopy\<rparr>, size - toCopy, s))
                 else Inr (st, i, size, s)) (\<lambda>(st, i, size, s).
          let toCopy = min size (it_dataEnd st - it_current st) in
          bindr (peekM (it_data st) (unat (behind st)) (unat toCopy) s) (\<lambda>bs.
          bindr (pokeM (it_data i) (unat (it_current i)) bs s) (\<lambda>s.
          Inr (i\<lparr>it_current := it_current i + toCopy\<rparr>, s))))))"

definition PeekU8 :: "iter \<Rightarrow> bheap \<Rightarrow> u8 res" where
  "PeekU8 i s =
     (if \<not> (it_current i \<ge> it_dataStart i \<and> it_current i < it_dataEnd i) then Inl Assert
      else if it_current i < it_zeroStart i then
        bindr (peekM (it_data i) (unat (it_current i)) 1 s) (\<lambda>bs. Inr (hd bs))
      else if it_current i < it_zeroEnd i then Inr 0
      else bindr (peekM (it_data i) (unat (behind i)) 1 s) (\<lambda>bs. Inr (hd bs)))"

definition ReadU8 :: "iter \<Rightarrow> bheap \<Rightarrow> (iter \<times> u8) res" where
  "ReadU8 i s = bindr (PeekU8 i s) (\<lambda>v. Inr (i\<lparr>it_current := it_current i + 1\<rparr>, v))"

text \<open>\<^verbatim>\<open>Read(uint8_t*, uint32_t)\<close>\<close>

fun ReadBytes :: "nat \<Rightarrow> iter \<Rightarrow> bheap \<Rightarrow> (iter \<times> u8 list) res" where
  "ReadBytes 0 i s = Inr (i, [])"
| "ReadBytes (Suc n) i s = bindr (ReadU8 i s) (\<lambda>(i, v). bindr (ReadBytes n i s) (\<lambda>(i, vs). Inr (i, v # vs)))"

subsection \<open>Copying and joining buffers\<close>

definition CreateFullCopy :: "buf \<Rightarrow> bheap \<Rightarrow> (buf \<times> bheap) res" where
  "CreateFullCopy b s =
     (let zeroSize = bf_zeroAreaEnd b - bf_zeroAreaStart b in
      if zeroSize \<noteq> 0 then
        let dataStart = bf_zeroAreaStart b - bf_start b; dataEnd = bf_end b - bf_zeroAreaEnd b in
        bindr (Buffer_Initialize 0 s) (\<lambda>(tmp, s).
        bindr (AddAtStart zeroSize tmp s) (\<lambda>(tmp, s).
        bindr (WriteU8s 0 zeroSize (Begin tmp) s) (\<lambda>(_, s).
        bindr (AddAtStart dataStart tmp s) (\<lambda>(tmp, s).
        bindr (peekM (bf_data b) (unat (bf_start b)) (unat dataStart) s) (\<lambda>bs.
        bindr (WriteRaw bs (Begin tmp) s) (\<lambda>(_, s).
        bindr (AddAtEnd dataEnd tmp s) (\<lambda>(tmp, s).
        bindr (Prev dataEnd (End tmp)) (\<lambda>i.
        bindr (peekM (bf_data b) (unat (bf_zeroAreaStart b)) (unat dataEnd) s) (\<lambda>bs.
        bindr (WriteRaw bs i s) (\<lambda>(_, s). Inr (tmp, s)))))))))))
      else Buffer_copy b s)"

text \<open>\<^verbatim>\<open>*this = CreateFullCopy()\<close>; the temporary is destroyed at the end of the statement.\<close>

definition TransformIntoRealBuffer :: "buf \<Rightarrow> bheap \<Rightarrow> (buf \<times> bheap) res" where
  "TransformIntoRealBuffer b s =
     bindr (CreateFullCopy b s) (\<lambda>(tmp, s).
     bindr (Buffer_assign b tmp s) (\<lambda>(b, s).
     bindr (Buffer_destroy tmp s) (\<lambda>s. Inr (b, s))))"

definition AddAtEndBuffer :: "buf \<Rightarrow> buf \<Rightarrow> bheap \<Rightarrow> (buf \<times> bheap) res" where
  "AddAtEndBuffer o1 b s =
     bindr (getD (bf_data b) s) (\<lambda>D.
     if bd_count D = 1 \<and> (bf_end b = bf_zeroAreaEnd b \<or> bf_zeroAreaStart b = bf_zeroAreaEnd b)
        \<and> bf_end b = bd_dirtyEnd D \<and> bf_start o1 = bf_zeroAreaStart o1 \<and> bf_zeroAreaEnd o1 - bf_zeroAreaStart o1 > 0 then
       let b = (if bf_zeroAreaStart b = bf_zeroAreaEnd b then b\<lparr>bf_zeroAreaStart := bf_end b\<rparr> else b);
           zeroSize = bf_zeroAreaEnd o1 - bf_zeroAreaStart o1;
           b = b\<lparr>bf_zeroAreaEnd := bf_end b + zeroSize, bf_end := bf_end b + zeroSize\<rparr>;
           s = putD (bf_data b) (D\<lparr>bd_dirtyEnd := bf_zeroAreaEnd b\<rparr>) s;
           endData = bf_end o1 - bf_zeroAreaEnd o1
       in
       bindr (AddAtEnd endData b s) (\<lambda>(b, s).
       bindr (Prev endData (End b)) (\<lambda>dst.
       bindr (Prev endData (End o1)) (\<lambda>src.
       bindr (WriteIter src (End o1) dst s) (\<lambda>(_, s). Inr (b, s)))))
     else
       bindr (TransformIntoRealBuffer b s) (\<lambda>(b, s).
       bindr (AddAtEnd (buf_GetSize o1) b s) (\<lambda>(b, s).
       bindr (Prev (buf_GetSize o1) (End b)) (\<lambda>destStart.
       bindr (WriteIter (Begin o1) (End o1) destStart s) (\<lambda>(_, s). Inr (b, s))))))"

text \<open>\<^verbatim>\<open>CopyData(uint8_t*, uint32_t)\<close>: at most \<open>n\<close> bytes of the contents.\<close>

definition CopyData :: "u32 \<Rightarrow> buf \<Rightarrow> bheap \<Rightarrow> u8 list res" where
  "CopyData n b s =
     (if n > 0 then
        let tmpsize = min (bf_zeroAreaStart b - bf_start b) n in
        bindr (peekM (bf_data b) (unat (bf_start b)) (unat tmpsize) s) (\<lambda>bs1.
        let n = n - tmpsize in
        if n > 0 then
          let tmpsize = min (bf_zeroAreaEnd b - bf_zeroAreaStart b) n; bs2 = replicate (unat tmpsize) 0; n = n - tmpsize in
          if n > 0 then
            bindr (peekM (bf_data b) (unat (bf_zeroAreaStart b)) (unat (min (bf_end b - bf_zeroAreaEnd b) n)) s) (\<lambda>bs3.
            Inr (bs1 @ bs2 @ bs3))
          else Inr (bs1 @ bs2)
        else Inr bs1)
      else Inr [])"

end
