(* ===== verification/Buffer_Sharing.thy ===== *)
theory Buffer_Sharing
  imports Packet_Buffer
begin

text \<open>
  Buffers that share blocks do not interfere.  The contents of a buffer are a list of bytes
  (\<open>view\<close>): the stored bytes in front of the zero area, the zeroes, the stored bytes behind it.  Each
  operation has its meaning on that list, and leaves the lists of all other buffers alone, although
  their bytes may lie in the same block.
\<close>

subsection \<open>Windows on a list of bytes\<close>

definition window :: "nat \<Rightarrow> nat \<Rightarrow> nat \<Rightarrow> nat \<Rightarrow> u8 list \<Rightarrow> u8 list" where
  "window a z e p xs = drop a (take z xs) @ replicate (e - z) 0 @ drop z (take p xs)"

lemma length_window: "a \<le> z \<Longrightarrow> z \<le> p \<Longrightarrow> p \<le> length xs \<Longrightarrow> length (window a z e p xs) = (z - a) + (e - z) + (p - z)"
  by (simp add: window_def)

lemma drop_window_front: "a + n \<le> z \<Longrightarrow> z \<le> p \<Longrightarrow> p \<le> length xs \<Longrightarrow> drop n (window a z e p xs) = window (a + n) z e p xs"
  by (simp add: window_def add.commute)

lemma drop_window_zero:
  assumes "a \<le> z" "z \<le> a + n" "a + n \<le> e" "z \<le> p" "p \<le> length xs"
  shows "drop n (window a z e p xs) = window z z (e - (a + n - z)) p xs"
proof -
  have "n - (z - a) = a + n - z" "e - z - (a + n - z) = e - (a + n)" "e - (a + n - z) - z = e - (a + n)" using assms by arith+
  then show ?thesis using assms by (simp add: window_def)
qed

lemma drop_window_rear:
  assumes "a \<le> z" "z \<le> e" "e \<le> a + n" "z \<le> p" "p \<le> length xs"
  shows "drop n (window a z e p xs) = window (a + n - (e - z)) (a + n - (e - z)) (a + n - (e - z)) p xs"
proof -
  have "n - (z - a) - (e - z) = a + n - e" "a + n - e + z = a + n - (e - z)" using assms by arith+
  then show ?thesis using assms by (simp add: window_def)
qed

lemma take_window_tail:
  assumes "a \<le> z" "z \<le> e" "z \<le> q" "q \<le> p" "p \<le> length xs"
  shows "take ((z - a) + (e - z) + (q - z)) (window a z e p xs) = window a z e q xs"
proof -
  have split: "take (length A + length B + k) (A @ B @ C) = A @ B @ take k C" for A B C :: "u8 list" and k by simp
  have A: "length (drop a (take z xs)) = z - a" and B: "length (replicate (e - z) (0::u8)) = e - z" using assms by simp_all
  have "take ((z - a) + (e - z) + (q - z)) (window a z e p xs)
      = drop a (take z xs) @ replicate (e - z) 0 @ take (q - z) (drop z (take p xs))"
    unfolding window_def using split[of "drop a (take z xs)" "replicate (e - z) 0" "q - z" "drop z (take p xs)"] by (simp only: A B)
  also have "take (q - z) (drop z (take p xs)) = drop z (take q xs)" using assms by (simp add: take_drop)
  finally show ?thesis by (simp add: window_def)
qed

lemma take_window_zero:
  assumes "a \<le> z" "z \<le> f" "f \<le> e" "z \<le> p" "p \<le> length xs"
  shows "take (f - a) (window a z e p xs) = window a z f z xs"
proof -
  have "f - a - (z - a) = f - z" "min (f - z) (e - z) = f - z" using assms by arith+
  then show ?thesis using assms by (simp add: window_def)
qed

lemma take_window_front:
  assumes "a \<le> f" "f \<le> z" "z \<le> p" "p \<le> length xs"
  shows "take (f - a) (window a z e p xs) = window a f f f xs"
  using assms by (simp add: window_def take_drop min_def)

text \<open>Overwriting bytes.\<close>

definition poke :: "nat \<Rightarrow> u8 list \<Rightarrow> u8 list \<Rightarrow> u8 list" where
  "poke i bs xs = take i xs @ bs @ drop (i + length bs) xs"

lemma length_poke [simp]: "i + length bs \<le> length xs \<Longrightarrow> length (poke i bs xs) = length xs"
  by (simp add: poke_def)

lemma drop_poke: "i + length bs \<le> a \<Longrightarrow> i + length bs \<le> length xs \<Longrightarrow> drop a (poke i bs xs) = drop a xs"
  by (simp add: poke_def)

lemma take_poke: "p \<le> i \<Longrightarrow> i + length bs \<le> length xs \<Longrightarrow> take p (poke i bs xs) = take p xs"
  by (simp add: poke_def)

lemma poke_append1: "i + length bs \<le> length xs \<Longrightarrow> poke i bs (xs @ ys) = poke i bs xs @ ys"
  by (simp add: poke_def)

lemma poke_append2: "length xs \<le> i \<Longrightarrow> poke i bs (xs @ ys) = xs @ poke (i - length xs) bs ys"
  by (simp add: poke_def)

lemma poke_slice:
  assumes "a \<le> i" "i + length bs \<le> z" "z \<le> length xs"
  shows "drop a (take z (poke i bs xs)) = poke (i - a) bs (drop a (take z xs))"
proof (rule nth_equalityI)
  show "length (drop a (take z (poke i bs xs))) = length (poke (i - a) bs (drop a (take z xs)))"
    using assms by simp
  fix k assume "k < length (drop a (take z (poke i bs xs)))"
  then have "k < z - a" using assms by simp
  then show "drop a (take z (poke i bs xs)) ! k = poke (i - a) bs (drop a (take z xs)) ! k"
    using assms by (auto simp: poke_def nth_append algebra_simps)
qed

lemma window_poke_before:
  assumes "i + length bs \<le> a" "a \<le> z" "i + length bs \<le> length xs"
  shows "window a z e p (poke i bs xs) = window a z e p xs"
  using assms by (simp add: window_def drop_take drop_poke)

lemma window_poke_after:
  assumes "p \<le> i" "z \<le> p" "i + length bs \<le> length xs"
  shows "window a z e p (poke i bs xs) = window a z e p xs"
  using assms by (simp add: window_def take_poke)

lemma window_poke_front:
  assumes "a \<le> i" "i + length bs \<le> z" "z \<le> p" "p \<le> length xs"
  shows "window a z e p (poke i bs xs) = poke (i - a) bs (window a z e p xs)"
proof -
  have "drop z (take p (poke i bs xs)) = drop z (take p xs)" using assms by (simp add: drop_take drop_poke)
  then show ?thesis using assms by (simp add: window_def poke_slice poke_append1)
qed

lemma window_poke_rear:
  assumes "a \<le> z" "z \<le> i" "i + length bs \<le> p" "p \<le> length xs"
  shows "window a z e p (poke i bs xs) = poke (i - z + (z - a) + (e - z)) bs (window a z e p xs)"
proof -
  have "take z (poke i bs xs) = take z xs" using assms by (simp add: take_poke)
  then show ?thesis using assms by (simp add: window_def poke_slice poke_append2)
qed

subsection \<open>The contents of a buffer\<close>

definition wf_buf :: "buf \<Rightarrow> bool" where
  "wf_buf b \<longleftrightarrow> bf_start b \<le> bf_zeroAreaStart b \<and> bf_zeroAreaStart b \<le> bf_zeroAreaEnd b \<and> bf_zeroAreaEnd b \<le> bf_end b"

definition content :: "u8 list \<Rightarrow> buf \<Rightarrow> u8 list" where
  "content xs b =
     window (unat (bf_start b)) (unat (bf_zeroAreaStart b)) (unat (bf_zeroAreaEnd b)) (unat (GetInternalEnd b)) xs"

lemma unat_add_u32: "unat (a :: u32) + unat b < 2 ^ 32 \<Longrightarrow> unat (a + b) = unat a + unat b"
  by (simp add: unat_word_ariths)

lemma wf_nat:
  assumes "wf_buf b"
  shows "unat (bf_start b) \<le> unat (bf_zeroAreaStart b)" "unat (bf_zeroAreaStart b) \<le> unat (bf_zeroAreaEnd b)"
    "unat (bf_zeroAreaEnd b) \<le> unat (bf_end b)"
    "unat (bf_zeroAreaEnd b - bf_zeroAreaStart b) = unat (bf_zeroAreaEnd b) - unat (bf_zeroAreaStart b)"
    "unat (GetInternalEnd b) + unat (bf_zeroAreaEnd b) = unat (bf_end b) + unat (bf_zeroAreaStart b)"
    "unat (buf_GetSize b) = unat (bf_end b) - unat (bf_start b)"
    "unat (GetInternalSize b) = unat (GetInternalEnd b) - unat (bf_start b)"
proof -
  show a: "unat (bf_start b) \<le> unat (bf_zeroAreaStart b)" "unat (bf_zeroAreaStart b) \<le> unat (bf_zeroAreaEnd b)"
    "unat (bf_zeroAreaEnd b) \<le> unat (bf_end b)"
    using assms by (simp_all add: wf_buf_def word_le_nat_alt)
  show z: "unat (bf_zeroAreaEnd b - bf_zeroAreaStart b) = unat (bf_zeroAreaEnd b) - unat (bf_zeroAreaStart b)"
    using assms by (simp add: wf_buf_def unat_minus_le)
  have e: "unat (GetInternalEnd b) = unat (bf_end b) - (unat (bf_zeroAreaEnd b) - unat (bf_zeroAreaStart b))"
    unfolding GetInternalEnd_def using a z by (subst unat_minus_le) (simp_all add: word_le_nat_alt)
  then show "unat (GetInternalEnd b) + unat (bf_zeroAreaEnd b) = unat (bf_end b) + unat (bf_zeroAreaStart b)"
    using a by simp
  show "unat (buf_GetSize b) = unat (bf_end b) - unat (bf_start b)"
    unfolding buf_GetSize_def using a by (subst unat_minus_le) (simp_all add: word_le_nat_alt)
  have "GetInternalSize b = GetInternalEnd b - bf_start b" by (simp add: GetInternalSize_def GetInternalEnd_def)
  then show "unat (GetInternalSize b) = unat (GetInternalEnd b) - unat (bf_start b)"
    using a e by (simp add: unat_minus_le word_le_nat_alt)
qed

lemma length_content:
  assumes "wf_buf b" "unat (GetInternalEnd b) \<le> length xs"
  shows "length (content xs b) = unat (bf_end b) - unat (bf_start b)"
  using wf_nat(1-3,5)[OF assms(1)] assms(2) by (simp add: content_def length_window)

lemma noteMax_fields [simp]:
  "bf_data (noteMax b) = bf_data b" "bf_zeroAreaStart (noteMax b) = bf_zeroAreaStart b" "bf_zeroAreaEnd (noteMax b) = bf_zeroAreaEnd b"
  "bf_start (noteMax b) = bf_start b" "bf_end (noteMax b) = bf_end b" "GetInternalEnd (noteMax b) = GetInternalEnd b"
  "GetInternalSize (noteMax b) = GetInternalSize b" "buf_GetSize (noteMax b) = buf_GetSize b"
  by (simp_all add: noteMax_def GetInternalEnd_def GetInternalSize_def buf_GetSize_def)

lemma noteMax_content [simp]: "content xs (noteMax b) = content xs b" "wf_buf (noteMax b) = wf_buf b"
  by (simp_all add: content_def wf_buf_def)

subsection \<open>Removing bytes\<close>

text \<open>
  A removal stays within the old window, and if it does not move the (virtual) end it does not
  move the end of the stored bytes either.
\<close>

definition shrinks :: "buf \<Rightarrow> buf \<Rightarrow> bool" where
  "shrinks b b' \<longleftrightarrow> bf_data b' = bf_data b \<and> wf_buf b' \<and> unat (bf_start b) \<le> unat (bf_start b')
     \<and> unat (bf_end b') \<le> unat (bf_end b) \<and> unat (GetInternalEnd b') \<le> unat (GetInternalEnd b)
     \<and> (bf_end b' = bf_end b \<longrightarrow> GetInternalEnd b' = GetInternalEnd b)"

lemma RemoveAtStart_content:
  assumes wf: "wf_buf b" and len: "unat (GetInternalEnd b) \<le> length xs" and n: "unat (bf_start b) + unat n < 2 ^ 32"
  shows "\<exists>b'. RemoveAtStart n b = Inr b' \<and> shrinks b b' \<and> content xs b' = drop (unat n) (content xs b)"
proof -
  note w = wf_nat(1-3,5)[OF wf]
  have zp: "unat (bf_zeroAreaStart b) \<le> unat (GetInternalEnd b)" using w by linarith
  have ns: "unat (bf_start b + n) = unat (bf_start b) + unat n" using n by (rule unat_add_u32)
  consider (front) "bf_start b + n \<le> bf_zeroAreaStart b"
    | (zero) "\<not> bf_start b + n \<le> bf_zeroAreaStart b" "bf_start b + n \<le> bf_zeroAreaEnd b"
    | (rear) "\<not> bf_start b + n \<le> bf_zeroAreaEnd b" "bf_start b + n \<le> bf_end b"
    | (all) "\<not> bf_start b + n \<le> bf_end b"
    by blast
  then show ?thesis
  proof cases
    case front
    define b' where "b' = b\<lparr>bf_start := bf_start b + n\<rparr>"
    have r: "RemoveAtStart n b = Inr (noteMax b')" using front by (simp add: RemoveAtStart_def b'_def Let_def)
    have ie: "GetInternalEnd b' = GetInternalEnd b" by (simp add: GetInternalEnd_def b'_def)
    have "wf_buf b'" using front wf by (simp add: wf_buf_def b'_def)
    then have "shrinks b b'" using ns by (simp add: shrinks_def ie) (simp add: b'_def)
    moreover have "content xs b' = drop (unat n) (content xs b)"
      unfolding content_def ie using drop_window_front[OF _ zp len] front ns by (simp add: b'_def word_le_nat_alt)
    ultimately show ?thesis using r by (auto simp: shrinks_def)
  next
    case zero
    define d where "d = bf_start b + n - bf_zeroAreaStart b"
    define b' where "b' = b\<lparr>bf_start := bf_zeroAreaStart b, bf_zeroAreaEnd := bf_zeroAreaEnd b - d, bf_end := bf_end b - d\<rparr>"
    have r: "RemoveAtStart n b = Inr (noteMax b')" using zero by (simp add: RemoveAtStart_def b'_def d_def Let_def)
    have ie: "GetInternalEnd b' = GetInternalEnd b" by (simp add: GetInternalEnd_def b'_def)
    have z: "unat (bf_zeroAreaStart b) < unat (bf_start b) + unat n" "unat (bf_start b) + unat n \<le> unat (bf_zeroAreaEnd b)"
      using zero ns by (simp_all add: word_le_nat_alt)
    have d: "unat d = unat (bf_start b) + unat n - unat (bf_zeroAreaStart b)"
      using z ns by (simp add: d_def unat_minus_le word_le_nat_alt)
    have dle: "unat d \<le> unat (bf_zeroAreaEnd b)" "unat d \<le> unat (bf_end b)" "0 < unat d" using d z w by linarith+
    have u: "unat (bf_zeroAreaEnd b - d) = unat (bf_zeroAreaEnd b) - unat d" "unat (bf_end b - d) = unat (bf_end b) - unat d"
      using dle by (simp_all add: unat_minus_le word_le_nat_alt)
    have "unat (bf_zeroAreaStart b) \<le> unat (bf_zeroAreaEnd b) - unat d" using d z w by linarith
    then have "wf_buf b'" using u w(3) by (simp add: wf_buf_def b'_def word_le_nat_alt)
    moreover have "unat (bf_end b - d) < unat (bf_end b)" using u dle by linarith
    ultimately have "shrinks b b'" using w(1) by (simp add: shrinks_def ie) (auto simp: b'_def)
    moreover have "content xs b' = drop (unat n) (content xs b)"
      unfolding content_def ie using drop_window_zero[OF w(1) _ z(2) zp len] z u d by (simp add: b'_def)
    ultimately show ?thesis using r by (auto simp: shrinks_def)
  next
    case rear
    define z where "z = bf_zeroAreaEnd b - bf_zeroAreaStart b"
    define st where "st = bf_start b + n - z"
    define b' where "b' = b\<lparr>bf_start := st, bf_end := bf_end b - z, bf_zeroAreaStart := st, bf_zeroAreaEnd := st\<rparr>"
    have c: "unat (bf_zeroAreaEnd b) < unat (bf_start b) + unat n" "unat (bf_start b) + unat n \<le> unat (bf_end b)"
      using rear ns by (simp_all add: word_le_nat_alt)
    then have r: "RemoveAtStart n b = Inr (noteMax b')"
      using rear w ns unfolding RemoveAtStart_def b'_def st_def z_def Let_def by (simp add: word_le_nat_alt)
    have ie: "GetInternalEnd b' = GetInternalEnd b" by (simp add: GetInternalEnd_def b'_def z_def)
    have z: "unat z = unat (bf_zeroAreaEnd b) - unat (bf_zeroAreaStart b)" using wf_nat(4)[OF wf] by (simp add: z_def)
    have u: "unat st = unat (bf_start b) + unat n - unat z" "unat (bf_end b - z) = unat (bf_end b) - unat z"
      using z c w(1-3) ns by (simp_all add: st_def unat_minus_le word_le_nat_alt)
    have le: "unat st \<le> unat (bf_end b) - unat z" "unat (bf_start b) \<le> unat st" using u z c w(1-3) by linarith+
    then have "wf_buf b'" using u by (simp add: wf_buf_def b'_def word_le_nat_alt)
    then have "shrinks b b'" using le u by (simp add: shrinks_def ie) (simp add: b'_def)
    moreover have "content xs b' = drop (unat n) (content xs b)"
      unfolding content_def ie using drop_window_rear[OF w(1,2) _ zp len, of "unat n"] c u z by (simp add: b'_def)
    ultimately show ?thesis using r by (auto simp: shrinks_def)
  next
    case all
    define b' where "b' = b\<lparr>bf_end := GetInternalEnd b, bf_start := GetInternalEnd b, bf_zeroAreaEnd := GetInternalEnd b, bf_zeroAreaStart := GetInternalEnd b\<rparr>"
    have c: "unat (bf_end b) < unat (bf_start b) + unat n" using all ns by (simp add: word_le_nat_alt)
    then have r: "RemoveAtStart n b = Inr (noteMax b')"
      using w(1-3) ns unfolding RemoveAtStart_def b'_def Let_def by (simp add: word_le_nat_alt GetInternalEnd_def)
    have ie: "GetInternalEnd b' = GetInternalEnd b" by (simp add: GetInternalEnd_def b'_def)
    have "wf_buf b'" by (simp add: wf_buf_def b'_def)
    moreover have "unat (bf_start b) \<le> unat (GetInternalEnd b)" "unat (GetInternalEnd b) \<le> unat (bf_end b)" using w by linarith+
    ultimately have "shrinks b b'" by (simp add: shrinks_def ie) (simp add: b'_def)
    moreover have "content xs b' = drop (unat n) (content xs b)"
      using c length_content[OF wf len] by (simp add: content_def ie) (simp add: b'_def window_def)
    ultimately show ?thesis using r by (auto simp: shrinks_def)
  qed
qed

lemma RemoveAtEnd_content:
  assumes wf: "wf_buf b" and len: "unat (GetInternalEnd b) \<le> length xs"
  shows "shrinks b (RemoveAtEnd n b) \<and> content xs (RemoveAtEnd n b) = take (length (content xs b) - unat n) (content xs b)"
proof -
  note w = wf_nat(1-3,5)[OF wf]
  have zp: "unat (bf_zeroAreaStart b) \<le> unat (GetInternalEnd b)" using w by linarith
  define m where "m = min n (bf_end b - bf_start b)"
  define e where "e = bf_end b - m"
  have m: "unat m = min (unat n) (unat (bf_end b) - unat (bf_start b))"
    using wf_nat(6)[OF wf] by (simp add: m_def buf_GetSize_def min_def word_le_nat_alt)
  have e: "unat e = unat (bf_end b) - unat m" using m by (simp add: e_def unat_minus_le word_le_nat_alt)
  have k: "length (content xs b) - unat n = unat e - unat (bf_start b)" "unat (bf_start b) \<le> unat e" "unat e \<le> unat (bf_end b)"
    using length_content[OF wf len] m e w(1-3) by (auto simp: min_def)
  have sz: "length (content xs b) = unat (bf_end b) - unat (bf_start b)" by (rule length_content[OF wf len])
  consider (tail) "e > bf_zeroAreaEnd b"
    | (zero) "\<not> e > bf_zeroAreaEnd b" "e > bf_zeroAreaStart b"
    | (front) "\<not> e > bf_zeroAreaStart b" "e > bf_start b"
    | (all) "\<not> e > bf_start b"
    by blast
  then show ?thesis
  proof cases
    case tail
    define b' where "b' = b\<lparr>bf_end := e\<rparr>"
    have r: "RemoveAtEnd n b = noteMax b'" using tail by (simp add: RemoveAtEnd_def b'_def Let_def e_def m_def)
    have wf': "wf_buf b'" using tail wf by (auto simp: wf_buf_def b'_def)
    have ie: "unat (GetInternalEnd b') + unat (bf_zeroAreaEnd b) = unat e + unat (bf_zeroAreaStart b)"
      using wf_nat(5)[OF wf'] by (simp add: b'_def)
    have t: "unat (bf_zeroAreaEnd b) < unat e" using tail by (simp add: word_less_nat_alt)
    have q: "unat (bf_zeroAreaStart b) \<le> unat (GetInternalEnd b')" "unat (GetInternalEnd b') \<le> unat (GetInternalEnd b)"
      using ie t w k by linarith+
    have "e = bf_end b \<Longrightarrow> GetInternalEnd b' = GetInternalEnd b" by (simp add: b'_def GetInternalEnd_def)
    then have "shrinks b b'" using wf' q k by (simp add: shrinks_def) (simp add: b'_def)
    moreover have "unat e - unat (bf_start b) = (unat (bf_zeroAreaStart b) - unat (bf_start b)) + (unat (bf_zeroAreaEnd b) - unat (bf_zeroAreaStart b))
        + (unat (GetInternalEnd b') - unat (bf_zeroAreaStart b))" using ie t w(1,2) by linarith
    then have "content xs b' = take (length (content xs b) - unat n) (content xs b)"
      unfolding k(1) using take_window_tail[OF w(1,2) q len] by (simp add: content_def) (simp add: b'_def)
    ultimately show ?thesis using r by (simp add: shrinks_def)
  next
    case zero
    define b' where "b' = b\<lparr>bf_end := e, bf_zeroAreaEnd := e\<rparr>"
    have r: "RemoveAtEnd n b = noteMax b'" using zero by (simp add: RemoveAtEnd_def b'_def Let_def e_def m_def)
    have z: "unat (bf_zeroAreaStart b) < unat e" "unat e \<le> unat (bf_zeroAreaEnd b)" using zero by (simp_all add: word_less_nat_alt)
    have wf': "wf_buf b'" using zero wf by (auto simp: wf_buf_def b'_def)
    have ie: "GetInternalEnd b' = bf_zeroAreaStart b" by (simp add: GetInternalEnd_def b'_def)
    have "GetInternalEnd b = bf_zeroAreaStart b" if "e = bf_end b"
    proof -
      have "unat (GetInternalEnd b) = unat (bf_zeroAreaStart b)" using that w z by simp
      then show ?thesis by (simp add: word_unat_eq_iff)
    qed
    then have "shrinks b b'" using wf' zp k by (auto simp: shrinks_def ie) (auto simp: b'_def)
    moreover have "content xs b' = take (length (content xs b) - unat n) (content xs b)"
      unfolding k(1) unfolding content_def ie using take_window_zero[OF w(1) _ z(2) zp len] z by (simp add: b'_def)
    ultimately show ?thesis using r by (simp add: shrinks_def)
  next
    case front
    define b' where "b' = b\<lparr>bf_end := e, bf_zeroAreaEnd := e, bf_zeroAreaStart := e\<rparr>"
    have c: "unat e \<le> unat (bf_zeroAreaStart b)" "unat (bf_start b) < unat e" using front by (simp_all add: word_less_nat_alt)
    have r: "RemoveAtEnd n b = noteMax b'" using front wf by (auto simp: RemoveAtEnd_def b'_def Let_def e_def m_def wf_buf_def)
    have wf': "wf_buf b'" using front by (auto simp: wf_buf_def b'_def)
    have ie: "GetInternalEnd b' = e" by (simp add: GetInternalEnd_def b'_def)
    have "GetInternalEnd b = e" if "e = bf_end b"
    proof -
      have "unat (GetInternalEnd b) = unat e" using that w c by simp
      then show ?thesis by (simp add: word_unat_eq_iff)
    qed
    then have "shrinks b b'" using wf' zp k c by (auto simp: shrinks_def ie) (auto simp: b'_def)
    moreover have "content xs b' = take (length (content xs b) - unat n) (content xs b)"
      unfolding k(1) unfolding content_def ie using take_window_front[OF k(2) c(1) zp len] by (simp add: b'_def)
    ultimately show ?thesis using r by (simp add: shrinks_def)
  next
    case all
    define b' where "b' = b\<lparr>bf_end := bf_start b, bf_zeroAreaEnd := bf_start b, bf_zeroAreaStart := bf_start b\<rparr>"
    have c: "unat e = unat (bf_start b)" using all k(2) by (simp add: word_less_nat_alt)
    have r: "RemoveAtEnd n b = noteMax b'" using all wf by (auto simp: RemoveAtEnd_def b'_def Let_def e_def m_def wf_buf_def)
    have wf': "wf_buf b'" by (simp add: wf_buf_def b'_def)
    have ie: "GetInternalEnd b' = bf_start b" by (simp add: GetInternalEnd_def b'_def)
    have "GetInternalEnd b = bf_start b" if "bf_start b = bf_end b"
    proof -
      have "unat (GetInternalEnd b) = unat (bf_start b)" using that w by simp
      then show ?thesis by (simp add: word_unat_eq_iff)
    qed
    then have "shrinks b b'" using wf' zp k c w by (auto simp: shrinks_def ie) (auto simp: b'_def)
    moreover have "content xs b' = take (length (content xs b) - unat n) (content xs b)"
      unfolding k(1) unfolding content_def ie by (simp add: b'_def c window_def)
    ultimately show ?thesis using r by (simp add: shrinks_def)
  qed
qed

subsection \<open>Reference counts\<close>

text \<open>
  \<open>R\<close> are the references to blocks that exist.  Every block knows its number of references, the
  free list holds exactly the blocks without any, and no reference dangles.
\<close>

definition freeBlocks :: "bheap \<Rightarrow> nat list" where
  "freeBlocks s = (case g_freeList s of None \<Rightarrow> [] | Some fl \<Rightarrow> fl)"

definition block_ok :: "bheap \<Rightarrow> nat multiset \<Rightarrow> nat \<Rightarrow> bufData \<Rightarrow> bool" where
  "block_ok s R d D \<longleftrightarrow> d < bh_next s \<and> length (bd_bytes D) = unat (bd_size D) \<and> unat (bd_count D) = count R d
     \<and> (count R d = 0 \<longleftrightarrow> d \<in> set (freeBlocks s))"

definition refs_ok :: "bheap \<Rightarrow> nat multiset \<Rightarrow> bool" where
  "refs_ok s R \<longleftrightarrow> (\<forall>d D. bh_data s d = Some D \<longrightarrow> block_ok s R d D) \<and> (\<forall>d\<in>#R. bh_data s d \<noteq> None)
     \<and> distinct (freeBlocks s) \<and> (\<forall>d\<in>set (freeBlocks s). bh_data s d \<noteq> None) \<and> (R \<noteq> {#} \<longrightarrow> g_freeList s \<noteq> None)"

lemma refs_okD:
  assumes "refs_ok s R"
  shows "bh_data s d = Some D \<Longrightarrow> block_ok s R d D" "d \<in># R \<Longrightarrow> \<exists>D. bh_data s d = Some D"
    "distinct (freeBlocks s)" "d \<in> set (freeBlocks s) \<Longrightarrow> \<exists>D. bh_data s d = Some D" "R \<noteq> {#} \<Longrightarrow> g_freeList s \<noteq> None"
  using assms by (auto simp: refs_ok_def)

lemma getD_Some [simp]: "bh_data s d = Some D \<Longrightarrow> getD d s = Inr D"
  by (simp add: getD_def)

lemma putD_fields [simp]:
  "bh_data (putD d D s) = (bh_data s)(d \<mapsto> D)" "bh_next (putD d D s) = bh_next s" "g_freeList (putD d D s) = g_freeList s"
  "g_recommendedStart (putD d D s) = g_recommendedStart s" "freeBlocks (putD d D s) = freeBlocks s"
  by (simp_all add: putD_def freeBlocks_def)

text \<open>Changing the bytes or the dirty area of a block.\<close>

lemma refs_ok_put:
  assumes "refs_ok s R" "bh_data s d = Some D" "bd_count D' = bd_count D" "bd_size D' = bd_size D"
    "length (bd_bytes D') = length (bd_bytes D)"
  shows "refs_ok (putD d D' s) R"
  using assms by (auto simp: refs_ok_def block_ok_def)

lemma refs_ok_g [simp]: "refs_ok (s\<lparr>g_recommendedStart := x\<rparr>) R = refs_ok s R" "refs_ok (s\<lparr>g_bufMaxSize := m\<rparr>) R = refs_ok s R"
  by (simp_all add: refs_ok_def block_ok_def freeBlocks_def)

lemma unat_dec:
  fixes w :: u32
  assumes "0 < unat w"
  shows "unat (w - 1) = unat w - 1"
  using assms by (simp add: unat_minus_le word_le_nat_alt)

lemma Deallocate_ok:
  assumes "refs_ok s R" "d \<in> set (freeBlocks s)" "g_freeList s = Some (rev (d # ds))"
  shows "\<exists>s'. Buffer_Deallocate d (s\<lparr>g_freeList := Some (rev ds)\<rparr>) = Inr s' \<and> refs_ok s' R
    \<and> g_freeList s' = Some (rev ds) \<and> (\<forall>e\<in>#R. bh_data s' e = bh_data s e) \<and> g_recommendedStart s' = g_recommendedStart s"
proof -
  obtain D where D: "bh_data s d = Some D" using refs_okD(4)[OF assms(1,2)] by auto
  have "count R d = 0" "unat (bd_count D) = 0" using refs_okD(1)[OF assms(1) D] assms(2) by (simp_all add: block_ok_def)
  then have c: "d \<notin># R" "bd_count D = 0" by (simp_all add: count_eq_zero_iff unat_eq_zero)
  define s' where "s' = s\<lparr>g_freeList := Some (rev ds), bh_data := (bh_data s)(d := None)\<rparr>"
  have f: "freeBlocks s = rev ds @ [d]" "freeBlocks s' = rev ds" using assms(3) by (simp_all add: freeBlocks_def s'_def)
  have "distinct (d # ds)" using refs_okD(3)[OF assms(1)] unfolding f(1) by auto
  then have "refs_ok s' R"
    using assms(1) c unfolding refs_ok_def block_ok_def f by (auto simp: s'_def count_eq_zero_iff split: if_splits)
  moreover have "Buffer_Deallocate d (s\<lparr>g_freeList := Some (rev ds)\<rparr>) = Inr s'"
    using D c by (simp add: Buffer_Deallocate_def getD_def s'_def)
  moreover have "\<forall>e\<in>#R. bh_data s' e = bh_data s e" using c(1) by (auto simp: s'_def)
  ultimately show ?thesis by (auto simp: s'_def)
qed

lemma takeFree_ok:
  assumes "refs_ok s R" "g_freeList s = Some (rev ds)"
  shows "\<exists>r s'. takeFree n ds s = Inr (r, s') \<and> (\<forall>e\<in>#R. bh_data s' e = bh_data s e) \<and> g_recommendedStart s' = g_recommendedStart s
    \<and> (case r of None \<Rightarrow> refs_ok s' R \<and> g_freeList s' = Some []
       | Some d \<Rightarrow> refs_ok s' (add_mset d R) \<and> d \<notin># R \<and> (\<exists>D. bh_data s' d = Some D \<and> n \<le> bd_size D))"
  using assms
proof (induction ds arbitrary: s)
  case Nil
  then show ?case by simp
next
  case (Cons d ds)
  have d: "d \<in> set (freeBlocks s)" using Cons.prems(2) by (simp add: freeBlocks_def)
  obtain D where D: "bh_data s d = Some D" using refs_okD(4)[OF Cons.prems(1) d] by auto
  have c: "d \<notin># R" using refs_okD(1)[OF Cons.prems(1) D] d by (simp add: block_ok_def count_eq_zero_iff)
  show ?case
  proof (cases "n \<le> bd_size D")
    case True
    define s' where "s' = putD d (D\<lparr>bd_count := 1\<rparr>) (s\<lparr>g_freeList := Some (rev ds)\<rparr>)"
    have f: "freeBlocks s = rev ds @ [d]" "freeBlocks s' = rev ds" using Cons.prems(2) by (simp_all add: freeBlocks_def s'_def)
    have "distinct (d # ds)" using refs_okD(3)[OF Cons.prems(1)] unfolding f(1) by auto
    then have "refs_ok s' (add_mset d R)"
      using Cons.prems(1) c D unfolding refs_ok_def block_ok_def f by (auto simp: s'_def count_eq_zero_iff)
    moreover have "takeFree n (d # ds) s = Inr (Some d, s')" using D True by (simp add: s'_def Let_def)
    ultimately show ?thesis using c True by (auto simp: s'_def)
  next
    case False
    obtain s1 where s1: "Buffer_Deallocate d (s\<lparr>g_freeList := Some (rev ds)\<rparr>) = Inr s1" "refs_ok s1 R"
      "g_freeList s1 = Some (rev ds)" "\<forall>e\<in>#R. bh_data s1 e = bh_data s e" "g_recommendedStart s1 = g_recommendedStart s"
      using Deallocate_ok[OF Cons.prems(1) d Cons.prems(2)] by auto
    have "takeFree n (d # ds) s = takeFree n ds s1" using D False s1(1) by (simp add: Let_def)
    then show ?thesis using Cons.IH[OF s1(2,3)] s1(4,5) by (simp del: takeFree.simps)
  qed
qed

lemma Allocate_ok:
  assumes "refs_ok s R" "g_freeList s \<noteq> None" "unat n + 101 < 2 ^ 32"
  shows "\<exists>d s'. Buffer_Allocate n s = Inr (d, s') \<and> (\<forall>e\<in>#R. bh_data s' e = bh_data s e) \<and> g_recommendedStart s' = g_recommendedStart s
    \<and> refs_ok s' (add_mset d R) \<and> d \<notin># R \<and> (\<exists>D. bh_data s' d = Some D \<and> n \<le> bd_size D)"
proof -
  define d where "d = bh_next s"
  define m where "m = (if n = 0 then 1 else n) + ALLOC_OVER_PROVISION"
  define D where "D = \<lparr>bd_count = 1, bd_size = m, bd_dirtyStart = 0, bd_dirtyEnd = 0, bd_bytes = map (bh_fill s d) [0..<unat m]\<rparr>"
  define s' where "s' = putD d D (s\<lparr>bh_next := Suc d\<rparr>)"
  have new: "bh_data s d = None"
    using refs_okD(1)[OF assms(1), of d] by (cases "bh_data s d") (auto simp: block_ok_def d_def)
  have out: "d \<notin># R" "d \<notin> set (freeBlocks s)" using new refs_okD(2,4)[OF assms(1)] by force+
  have f: "freeBlocks s' = freeBlocks s" by (simp add: s'_def freeBlocks_def)
  have "n \<le> m" using assms(3) by (auto simp: m_def ALLOC_OVER_PROVISION_def word_le_nat_alt unat_word_ariths)
  moreover have "refs_ok s' (add_mset d R)"
    using assms(1,2) out unfolding refs_ok_def block_ok_def f by (auto simp: s'_def D_def d_def less_Suc_eq count_eq_zero_iff)
  moreover have "Buffer_Allocate n s = Inr (d, s')" by (simp add: Buffer_Allocate_def Let_def s'_def D_def d_def m_def)
  ultimately show ?thesis using out by (auto simp: s'_def D_def)
qed

lemma Create_ok:
  assumes "refs_ok s R" "unat n + 101 < 2 ^ 32"
  shows "\<exists>d s'. Buffer_Create n s = Inr (d, s') \<and> (\<forall>e\<in>#R. bh_data s' e = bh_data s e) \<and> g_recommendedStart s' = g_recommendedStart s
    \<and> refs_ok s' (add_mset d R) \<and> d \<notin># R \<and> (\<exists>D. bh_data s' d = Some D \<and> n \<le> bd_size D)"
proof (cases "g_freeList s")
  case None
  then have "refs_ok (s\<lparr>g_freeList := Some []\<rparr>) R"
    using assms(1) by (auto simp: refs_ok_def block_ok_def freeBlocks_def)
  from Allocate_ok[OF this _ assms(2)] show ?thesis using None by (auto simp: Buffer_Create_def)
next
  case (Some fl)
  then obtain r s1 where t: "takeFree n (rev fl) s = Inr (r, s1)" "\<forall>e\<in>#R. bh_data s1 e = bh_data s e"
    "g_recommendedStart s1 = g_recommendedStart s"
    and r: "case r of None \<Rightarrow> refs_ok s1 R \<and> g_freeList s1 = Some []
       | Some d \<Rightarrow> refs_ok s1 (add_mset d R) \<and> d \<notin># R \<and> (\<exists>D. bh_data s1 d = Some D \<and> n \<le> bd_size D)"
    using takeFree_ok[OF assms(1), of "rev fl" n] by auto
  show ?thesis
  proof (cases r)
    case None
    then show ?thesis using Allocate_ok[OF _ _ assms(2), of s1 R] r t Some by (auto simp: Buffer_Create_def)
  next
    case (Some d)
    then show ?thesis using r t \<open>g_freeList s = Some fl\<close> by (auto simp: Buffer_Create_def)
  qed
qed

text \<open>What the buffers see of a block: everything but its reference count.\<close>

definition blk :: "bheap \<Rightarrow> nat \<Rightarrow> bufData option" where
  "blk s d = map_option (\<lambda>D. D\<lparr>bd_count := 0\<rparr>) (bh_data s d)"

lemma blk_cong: "bh_data s' d = bh_data s d \<Longrightarrow> blk s' d = blk s d"
  by (simp add: blk_def)

lemma Recycle_ok:
  assumes "refs_ok s (add_mset d R)" "d \<notin># R" "bh_data s d = Some D"
  defines "s1 \<equiv> putD d (D\<lparr>bd_count := 0\<rparr>) s"
  shows "\<exists>s'. Buffer_Recycle d s1 = Inr s' \<and> refs_ok s' R \<and> (\<forall>e\<in>#R. blk s' e = blk s e) \<and> g_recommendedStart s' = g_recommendedStart s"
proof -
  obtain fl where fl: "g_freeList s = Some fl" using refs_okD(5)[OF assms(1)] by auto
  have f: "freeBlocks s = fl" using fl by (simp add: freeBlocks_def)
  have nf: "d \<notin> set fl" using refs_okD(1)[OF assms(1,3)] f by (simp add: block_ok_def)
  define m where "m = max (g_bufMaxSize s) (bd_size D)"
  show ?thesis
  proof (cases "bd_size D < m \<or> length fl > 1000")
    case True
    define s' where "s' = s\<lparr>g_bufMaxSize := m, bh_data := (bh_data s)(d := None)\<rparr>"
    have "Buffer_Recycle d s1 = Inr s'"
      using True fl by (simp add: Buffer_Recycle_def Buffer_Deallocate_def s1_def s'_def putD_def getD_def m_def Let_def)
    moreover have "freeBlocks s' = fl" using fl by (simp add: s'_def freeBlocks_def)
    then have "refs_ok s' R"
      using assms(1,2) nf unfolding refs_ok_def block_ok_def f by (auto simp: s'_def count_eq_zero_iff split: if_splits)
    ultimately show ?thesis using assms(2) by (auto simp: s'_def blk_def)
  next
    case False
    define s' where "s' = s1\<lparr>g_bufMaxSize := m, g_freeList := Some (fl @ [d])\<rparr>"
    have "Buffer_Recycle d s1 = Inr s'"
      using False fl by (simp add: Buffer_Recycle_def s1_def s'_def putD_def getD_def m_def Let_def)
    moreover have f': "freeBlocks s' = fl @ [d]" by (simp add: s'_def freeBlocks_def)
    then have "refs_ok s' R"
      using assms(1,2,3) nf unfolding refs_ok_def block_ok_def f f' by (auto simp: s'_def s1_def count_eq_zero_iff split: if_splits)
    ultimately show ?thesis using assms(2) by (auto simp: s'_def s1_def blk_def)
  qed
qed

lemma unref_ok:
  assumes "refs_ok s (add_mset d R)"
  shows "\<exists>s'. unref d s = Inr s' \<and> refs_ok s' R \<and> (\<forall>e\<in>#R. blk s' e = blk s e) \<and> g_recommendedStart s' = g_recommendedStart s"
proof -
  obtain D where D: "bh_data s d = Some D" using refs_okD(2)[OF assms, of d] by auto
  have c: "unat (bd_count D) = Suc (count R d)" using refs_okD(1)[OF assms D] by (simp add: block_ok_def)
  then have dec: "unat (bd_count D - 1) = count R d" by (simp add: unat_dec)
  show ?thesis
  proof (cases "d \<in># R")
    case False
    then have z: "bd_count D - 1 = 0" using dec by (simp add: count_eq_zero_iff[symmetric] unat_eq_zero)
    then show ?thesis using Recycle_ok[OF assms False D] D by (simp add: unref_def Let_def)
  next
    case True
    then have "0 < count R d" by simp
    then have z: "bd_count D - 1 \<noteq> 0" using dec by (metis unat_0 less_irrefl)
    let ?s = "putD d (D\<lparr>bd_count := bd_count D - 1\<rparr>) s"
    have "block_ok ?s R e E" if "bh_data ?s e = Some E" for e E
    proof (cases "e = d")
      case True
      then show ?thesis using that refs_okD(1)[OF assms D] dec \<open>0 < count R d\<close> by (auto simp: block_ok_def)
    next
      case False
      then show ?thesis using that refs_okD(1)[OF assms, of e E] by (simp add: block_ok_def)
    qed
    then have "refs_ok ?s R" using assms unfolding refs_ok_def by auto
    then show ?thesis using z D by (auto simp: unref_def blk_def)
  qed
qed

subsection \<open>The heap and its buffers\<close>

definition bytesOf :: "bheap \<Rightarrow> nat \<Rightarrow> u8 list" where
  "bytesOf s d = (case blk s d of None \<Rightarrow> [] | Some D \<Rightarrow> bd_bytes D)"

definition view :: "bheap \<Rightarrow> buf \<Rightarrow> u8 list" where
  "view s b = content (bytesOf s (bf_data b)) b"

definition in_blk :: "bheap \<Rightarrow> buf \<Rightarrow> bool" where
  "in_blk s b \<longleftrightarrow> wf_buf b \<and> (\<exists>D. blk s (bf_data b) = Some D \<and> bd_dirtyStart D \<le> bf_start b \<and> bf_end b \<le> bd_dirtyEnd D
     \<and> GetInternalEnd b \<le> bd_size D)"

text \<open>A buffer that ends where the dirty area ends has stored bytes up to the end of all stored bytes.\<close>

definition atEnd :: "bheap \<Rightarrow> buf \<Rightarrow> bool" where
  "atEnd s b \<longleftrightarrow> (\<exists>D. blk s (bf_data b) = Some D \<and> bf_end b = bd_dirtyEnd D)"

definition ends_ok :: "bheap \<Rightarrow> buf \<Rightarrow> buf \<Rightarrow> bool" where
  "ends_ok s b c \<longleftrightarrow> (bf_data b = bf_data c \<and> atEnd s b \<longrightarrow> unat (GetInternalEnd c) \<le> unat (GetInternalEnd b))"

definition heap_ok :: "bheap \<Rightarrow> buf multiset \<Rightarrow> bool" where
  "heap_ok s B \<longleftrightarrow> refs_ok s (image_mset bf_data B) \<and> (\<forall>b\<in>#B. in_blk s b) \<and> (\<forall>b\<in>#B. \<forall>c\<in>#B. ends_ok s b c)"

text \<open>The bytes at the start or at the end of a buffer that no other buffer uses.\<close>

definition own_front :: "buf multiset \<Rightarrow> buf \<Rightarrow> nat \<Rightarrow> bool" where
  "own_front B b n \<longleftrightarrow> unat (bf_start b) + n \<le> unat (bf_zeroAreaStart b)
     \<and> (\<forall>c\<in>#B. bf_data c = bf_data b \<longrightarrow> unat (bf_start b) + n \<le> unat (bf_start c))"

definition own_rear :: "buf multiset \<Rightarrow> buf \<Rightarrow> nat \<Rightarrow> bool" where
  "own_rear B b n \<longleftrightarrow> unat (bf_zeroAreaStart b) + n \<le> unat (GetInternalEnd b)
     \<and> (\<forall>c\<in>#B. bf_data c = bf_data b \<longrightarrow> unat (GetInternalEnd c) + n \<le> unat (GetInternalEnd b))"

definition views_kept :: "bheap \<Rightarrow> bheap \<Rightarrow> buf multiset \<Rightarrow> bool" where
  "views_kept s s' B \<longleftrightarrow> (\<forall>c\<in>#B. view s' c = view s c)"

lemma blk_facts:
  assumes "blk s' (bf_data b) = blk s (bf_data b)"
  shows "view s' b = view s b" "in_blk s' b = in_blk s b" "atEnd s' b = atEnd s b"
  using assms by (simp_all add: view_def bytesOf_def in_blk_def atEnd_def)

lemma heap_okD:
  assumes "heap_ok s B"
  shows "refs_ok s (image_mset bf_data B)" "b \<in># B \<Longrightarrow> in_blk s b" "b \<in># B \<Longrightarrow> c \<in># B \<Longrightarrow> ends_ok s b c"
  using assms by (auto simp: heap_ok_def)

lemma in_blkD:
  assumes "heap_ok s B" "b \<in># B"
  shows "\<exists>D. bh_data s (bf_data b) = Some D \<and> wf_buf b \<and> bd_dirtyStart D \<le> bf_start b \<and> bf_end b \<le> bd_dirtyEnd D
    \<and> GetInternalEnd b \<le> bd_size D \<and> length (bd_bytes D) = unat (bd_size D)
    \<and> unat (bd_count D) = count (image_mset bf_data B) (bf_data b) \<and> bytesOf s (bf_data b) = bd_bytes D"
proof -
  obtain D0 where D0: "blk s (bf_data b) = Some D0" "wf_buf b" "bd_dirtyStart D0 \<le> bf_start b" "bf_end b \<le> bd_dirtyEnd D0"
    "GetInternalEnd b \<le> bd_size D0"
    using heap_okD(2)[OF assms] by (auto simp: in_blk_def)
  then obtain D where D: "bh_data s (bf_data b) = Some D" "D0 = D\<lparr>bd_count := 0\<rparr>" by (auto simp: blk_def)
  then show ?thesis using D0 refs_okD(1)[OF heap_okD(1)[OF assms(1)] D(1)]
    by (simp add: block_ok_def bytesOf_def)
qed

lemma view_length:
  assumes "heap_ok s B" "b \<in># B"
  shows "length (view s b) = unat (buf_GetSize b)" "unat (GetInternalEnd b) \<le> length (bytesOf s (bf_data b))" "wf_buf b"
proof -
  obtain D :: bufData where "wf_buf b" "GetInternalEnd b \<le> bd_size D" "length (bd_bytes D) = unat (bd_size D)" "bytesOf s (bf_data b) = bd_bytes D"
    using in_blkD[OF assms] by blast
  then show "length (view s b) = unat (buf_GetSize b)" "unat (GetInternalEnd b) \<le> length (bytesOf s (bf_data b))" "wf_buf b"
    using length_content[of b "bd_bytes D"] wf_nat(6)[of b] by (simp_all add: view_def word_le_nat_alt)
qed

lemma heap_ok_same_blocks:
  assumes "refs_ok s' (image_mset bf_data B)" "\<forall>b\<in>#B. in_blk s b" "\<forall>b\<in>#B. \<forall>c\<in>#B. ends_ok s b c"
    "\<And>b. b \<in># B \<Longrightarrow> blk s' (bf_data b) = blk s (bf_data b)"
  shows "heap_ok s' B" "views_kept s s' B"
  using assms blk_facts[OF assms(4)] by (simp_all add: heap_ok_def ends_ok_def views_kept_def)

lemma destroy_ok:
  assumes "heap_ok s (add_mset b B)"
  shows "\<exists>s'. Buffer_destroy b s = Inr s' \<and> heap_ok s' B \<and> views_kept s s' B"
proof -
  define s1 where "s1 = s\<lparr>g_recommendedStart := max (g_recommendedStart s) (bf_maxZeroAreaStart b)\<rparr>"
  have "refs_ok s1 (add_mset (bf_data b) (image_mset bf_data B))" using heap_okD(1)[OF assms] by (simp add: s1_def)
  from unref_ok[OF this] obtain s' where s': "unref (bf_data b) s1 = Inr s'" "refs_ok s' (image_mset bf_data B)"
    "\<forall>e\<in>#image_mset bf_data B. blk s' e = blk s1 e" by auto
  have "blk s' (bf_data c) = blk s (bf_data c)" if "c \<in># B" for c using s'(3) that by (auto simp: s1_def blk_def)
  then show ?thesis
    using heap_ok_same_blocks[OF s'(2), of s] heap_okD(2,3)[OF assms] s'(1) by (simp add: Buffer_destroy_def s1_def)
qed

lemma shrink_ok:
  assumes "heap_ok s (add_mset b B)" "shrinks b b'"
  shows "heap_ok s (add_mset b' B)"
proof -
  obtain D where D: "bh_data s (bf_data b) = Some D" "bd_dirtyStart D \<le> bf_start b" "bf_end b \<le> bd_dirtyEnd D" "GetInternalEnd b \<le> bd_size D"
    using in_blkD[OF assms(1), of b] by auto
  have h: "bf_data b' = bf_data b" "wf_buf b'" "bf_start b \<le> bf_start b'" "bf_end b' \<le> bf_end b" "GetInternalEnd b' \<le> GetInternalEnd b"
    "bf_end b' = bf_end b \<Longrightarrow> GetInternalEnd b' = GetInternalEnd b"
    using assms(2) by (auto simp: shrinks_def word_le_nat_alt)
  have "in_blk s b'" using D h by (auto simp: in_blk_def blk_def)
  moreover have "ends_ok s c b'" if "c \<in># B" for c
    using heap_okD(3)[OF assms(1), of c b] that h by (auto simp: ends_ok_def word_le_nat_alt)
  moreover have "atEnd s b' \<Longrightarrow> atEnd s b \<and> bf_end b' = bf_end b" using D h by (auto simp: atEnd_def blk_def)
  then have "ends_ok s b' c" if "c \<in># B" for c
    using heap_okD(3)[OF assms(1), of b c] that h by (auto simp: ends_ok_def)
  ultimately show ?thesis using assms(1) h(1) unfolding heap_ok_def by (auto simp: ends_ok_def)
qed

subsection \<open>Copies\<close>

lemma refs_incr:
  assumes "refs_ok s R" "d \<in># R" "bh_data s d = Some D" "Suc (size R) < 2 ^ 32"
  shows "refs_ok (putD d (D\<lparr>bd_count := bd_count D + 1\<rparr>) s) (add_mset d R)"
proof -
  let ?s = "putD d (D\<lparr>bd_count := bd_count D + 1\<rparr>) s"
  have c: "unat (bd_count D) = count R d" "d \<notin> set (freeBlocks s)"
    using refs_okD(1)[OF assms(1,3)] assms(2) by (auto simp: block_ok_def count_eq_zero_iff)
  have "count R d \<le> size R" by (rule count_le_size)
  then have "unat (bd_count D + 1) = Suc (count R d)" using c(1) assms(4) by (simp add: unat_word_ariths)
  then have "block_ok ?s (add_mset d R) e E" if "bh_data ?s e = Some E" for e E
    using that refs_okD(1)[OF assms(1), of e] assms(3) c by (auto simp: block_ok_def split: if_splits)
  then show ?thesis using assms(1,2) unfolding refs_ok_def by auto
qed

lemma copy_ok:
  assumes "heap_ok s B" "b \<in># B" "Suc (size B) < 2 ^ 32"
  shows "\<exists>b' s'. Buffer_copy b s = Inr (b', s') \<and> heap_ok s' (add_mset b' B) \<and> views_kept s s' B \<and> view s' b' = view s b
    \<and> b' = b\<lparr>bf_maxZeroAreaStart := bf_zeroAreaStart b\<rparr>"
proof -
  obtain D where D: "bh_data s (bf_data b) = Some D" using in_blkD[OF assms(1,2)] by auto
  define b' where "b' = b\<lparr>bf_maxZeroAreaStart := bf_zeroAreaStart b\<rparr>"
  define s' where "s' = putD (bf_data b) (D\<lparr>bd_count := bd_count D + 1\<rparr>) s"
  have blk: "blk s' e = blk s e" for e using D by (simp add: blk_def s'_def)
  have same: "view s' b' = view s b" "in_blk s' b' = in_blk s b" "ends_ok s' b' c = ends_ok s b c" "ends_ok s' c b' = ends_ok s c b" for c
    using blk by (simp_all add: b'_def view_def bytesOf_def content_def in_blk_def wf_buf_def GetInternalEnd_def ends_ok_def atEnd_def fun_eq_iff)
  have "ends_ok s' c1 c2 = ends_ok s c1 c2" "in_blk s' c1 = in_blk s c1" "view s' c1 = view s c1" for c1 c2
    using blk_facts[OF blk] by (simp_all add: ends_ok_def)
  moreover have "refs_ok s' (image_mset bf_data (add_mset b' B))"
    using refs_incr[OF heap_okD(1)[OF assms(1)] _ D] assms(2,3) by (simp add: s'_def b'_def)
  moreover have "Buffer_copy b s = Inr (b', s')" using D by (simp add: Buffer_copy_def b'_def s'_def)
  moreover have "ends_ok s' b' b'" by (simp add: ends_ok_def)
  ultimately show ?thesis
    using same heap_okD(2,3)[OF assms(1)] assms(2) by (auto simp: heap_ok_def views_kept_def b'_def[symmetric])
qed

lemma assign_ok:
  assumes "heap_ok s (add_mset b B)" "o1 \<in># B" "Suc (size B) < 2 ^ 32"
  shows "\<exists>s'. Buffer_assign b o1 s = Inr (o1, s') \<and> heap_ok s' (add_mset o1 B) \<and> views_kept s s' B"
proof -
  have refs: "refs_ok s (add_mset (bf_data b) (image_mset bf_data B))" using heap_okD(1)[OF assms(1)] by simp
  have B: "\<forall>b\<in>#B. in_blk s b" "\<forall>b\<in>#B. \<forall>c\<in>#B. ends_ok s b c" using heap_okD(2,3)[OF assms(1)] by auto
  let ?m = "max (g_recommendedStart s) (bf_maxZeroAreaStart b)"
  obtain s1 where s1: "Buffer_assign b o1 s = Inr (o1, s1)" "refs_ok s1 (add_mset (bf_data o1) (image_mset bf_data B))"
    "\<And>c. c \<in># B \<Longrightarrow> blk s1 (bf_data c) = blk s (bf_data c)"
  proof (cases "bf_data b = bf_data o1")
    case True
    then show ?thesis using that[of "s\<lparr>g_recommendedStart := ?m\<rparr>"] refs by (auto simp: Buffer_assign_def blk_def)
  next
    case False
    obtain s2 where s2: "unref (bf_data b) s = Inr s2" "refs_ok s2 (image_mset bf_data B)" "\<forall>e\<in>#image_mset bf_data B. blk s2 e = blk s e"
      "g_recommendedStart s2 = g_recommendedStart s"
      using unref_ok[OF refs] by auto
    obtain D where D: "bh_data s2 (bf_data o1) = Some D" using refs_okD(2)[OF s2(2)] assms(2) by fastforce
    let ?s = "putD (bf_data o1) (D\<lparr>bd_count := bd_count D + 1\<rparr>) s2"
    have "refs_ok ?s (add_mset (bf_data o1) (image_mset bf_data B))"
      using refs_incr[OF s2(2) _ D] assms(2,3) by simp
    moreover have "blk ?s e = blk s2 e" for e using D by (simp add: blk_def)
    ultimately show ?thesis using that[of "?s\<lparr>g_recommendedStart := ?m\<rparr>"] False s2 D
      by (auto simp: Buffer_assign_def blk_def)
  qed
  have "refs_ok s1 (image_mset bf_data (add_mset o1 B))" using s1(2) by simp
  moreover have "blk s1 (bf_data c) = blk s (bf_data c)" if "c \<in># add_mset o1 B" for c using that s1(3) assms(2) by auto
  ultimately show ?thesis
    using heap_ok_same_blocks[of s1 "add_mset o1 B" s] B assms(2) s1(1) by (auto simp: views_kept_def)
qed

subsection \<open>Writing\<close>

lemma bytesOf_Some: "bh_data s d = Some D \<Longrightarrow> bytesOf s d = bd_bytes D"
  by (simp add: bytesOf_def blk_def)

lemma poke_ok:
  assumes "heap_ok s B" "b \<in># B" "i + length bs \<le> length (bytesOf s (bf_data b))"
  shows "\<exists>s'. pokeM (bf_data b) i bs s = Inr s' \<and> heap_ok s' B
    \<and> bytesOf s' (bf_data b) = poke i bs (bytesOf s (bf_data b)) \<and> (\<forall>e. e \<noteq> bf_data b \<longrightarrow> bytesOf s' e = bytesOf s e)"
proof -
  obtain D where D: "bh_data s (bf_data b) = Some D" "bytesOf s (bf_data b) = bd_bytes D" using in_blkD[OF assms(1,2)] by auto
  define D' where "D' = D\<lparr>bd_bytes := poke i bs (bd_bytes D)\<rparr>"
  define s' where "s' = putD (bf_data b) D' s"
  have r: "refs_ok s' (image_mset bf_data B)"
    using refs_ok_put[OF heap_okD(1)[OF assms(1)] D(1), of D'] assms(3) D by (simp add: s'_def D'_def)
  have "in_blk s' c = in_blk s c" "atEnd s' c = atEnd s c" for c
    using D(1) by (auto simp: in_blk_def atEnd_def blk_def s'_def D'_def)
  then have "heap_ok s' B" using assms(1) r by (simp add: heap_ok_def ends_ok_def)
  moreover have "pokeM (bf_data b) i bs s = Inr s'"
    using D assms(3) by (simp add: pokeM_def s'_def D'_def poke_def)
  moreover have "bytesOf s' (bf_data b) = poke i bs (bytesOf s (bf_data b))"
    using D by (simp add: bytesOf_def blk_def s'_def D'_def)
  ultimately show ?thesis by (auto simp: bytesOf_def blk_def s'_def)
qed

lemma write_front:
  assumes ok: "heap_ok s (add_mset b B)" and own: "own_front B b n"
    and i: "unat (bf_start b) \<le> i" "i + length bs \<le> unat (bf_start b) + n"
  shows "\<exists>s'. pokeM (bf_data b) i bs s = Inr s' \<and> heap_ok s' (add_mset b B) \<and> views_kept s s' B
    \<and> view s' b = poke (i - unat (bf_start b)) bs (view s b)"
proof -
  note v = view_length[OF ok, of b, simplified] and w = wf_nat(1-3,5)[OF view_length(3)[OF ok, of b, simplified]]
  have z: "i + length bs \<le> unat (bf_zeroAreaStart b)" "unat (bf_zeroAreaStart b) \<le> unat (GetInternalEnd b)"
    using own i w by (auto simp: own_front_def)
  obtain s' where s': "pokeM (bf_data b) i bs s = Inr s'" "heap_ok s' (add_mset b B)"
    "bytesOf s' (bf_data b) = poke i bs (bytesOf s (bf_data b))" "\<forall>e. e \<noteq> bf_data b \<longrightarrow> bytesOf s' e = bytesOf s e"
    using poke_ok[OF ok, of b i bs] z v by auto
  have "view s' c = view s c" if c: "c \<in># B" for c
  proof (cases "bf_data c = bf_data b")
    case True
    then have "i + length bs \<le> unat (bf_start c)" using own c i by (auto simp: own_front_def)
    moreover have "unat (bf_start c) \<le> unat (bf_zeroAreaStart c)" using wf_nat(1)[OF view_length(3)[OF ok, of c]] c by simp
    ultimately show ?thesis using True s'(3) z v by (simp add: view_def content_def window_poke_before)
  next
    case False
    then show ?thesis using s'(4) by (simp add: view_def)
  qed
  moreover have "view s' b = poke (i - unat (bf_start b)) bs (view s b)"
    using s'(3) window_poke_front[OF i(1) z v(2)] by (simp add: view_def content_def)
  ultimately show ?thesis using s'(1,2) by (auto simp: views_kept_def)
qed

lemma write_rear:
  assumes ok: "heap_ok s (add_mset b B)" and own: "own_rear B b n"
    and i: "unat (GetInternalEnd b) \<le> i + n" "i + length bs \<le> unat (GetInternalEnd b)"
  shows "\<exists>s'. pokeM (bf_data b) i bs s = Inr s' \<and> heap_ok s' (add_mset b B) \<and> views_kept s s' B
    \<and> view s' b = poke (i + unat (bf_zeroAreaEnd b) - unat (bf_zeroAreaStart b) - unat (bf_start b)) bs (view s b)"
proof -
  note v = view_length[OF ok, of b, simplified] and w = wf_nat(1-3,5)[OF view_length(3)[OF ok, of b, simplified]]
  have z: "unat (bf_zeroAreaStart b) \<le> i" using own i by (auto simp: own_rear_def)
  obtain s' where s': "pokeM (bf_data b) i bs s = Inr s'" "heap_ok s' (add_mset b B)"
    "bytesOf s' (bf_data b) = poke i bs (bytesOf s (bf_data b))" "\<forall>e. e \<noteq> bf_data b \<longrightarrow> bytesOf s' e = bytesOf s e"
    using poke_ok[OF ok, of b i bs] i v by auto
  have "view s' c = view s c" if c: "c \<in># B" for c
  proof (cases "bf_data c = bf_data b")
    case True
    then have "unat (GetInternalEnd c) \<le> i" using own c i by (auto simp: own_rear_def)
    moreover have "unat (bf_zeroAreaStart c) \<le> unat (GetInternalEnd c)" using wf_nat(2,3,5)[OF view_length(3)[OF ok, of c]] c by simp
    ultimately show ?thesis using True s'(3) i v by (simp add: view_def content_def window_poke_after)
  next
    case False
    then show ?thesis using s'(4) by (simp add: view_def)
  qed
  moreover have "i - unat (bf_zeroAreaStart b) + (unat (bf_zeroAreaStart b) - unat (bf_start b)) + (unat (bf_zeroAreaEnd b) - unat (bf_zeroAreaStart b))
      = i + unat (bf_zeroAreaEnd b) - unat (bf_zeroAreaStart b) - unat (bf_start b)" using z w by linarith
  then have "view s' b = poke (i + unat (bf_zeroAreaEnd b) - unat (bf_zeroAreaStart b) - unat (bf_start b)) bs (view s b)"
    using s'(3) window_poke_rear[OF w(1) z i(2) v(2)] by (simp add: view_def content_def)
  ultimately show ?thesis using s'(1,2) by (auto simp: views_kept_def)
qed

end
