(* ===== verification/Buffer_Operations.thy ===== *)
theory Buffer_Operations
  imports Buffer_Sharing
begin

text \<open>
  The operations of a buffer on the list of its bytes: what each does to its own contents, that no
  other buffer changes, and which bytes of the result belong to this buffer alone.
\<close>

lemma slice_split:
  assumes "a' \<le> a" "a \<le> z" "z \<le> length xs"
  shows "drop a' (take z xs) = drop a' (take a xs) @ drop a (take z xs)"
proof -
  have "take z xs = take a xs @ drop a (take z xs)"
    using append_take_drop_id[of a "take z xs"] assms by (simp add: min_def)
  then have "drop a' (take z xs) = drop a' (take a xs @ drop a (take z xs))" by (rule arg_cong)
  also have "\<dots> = drop a' (take a xs) @ drop a (take z xs)" using assms by simp
  finally show ?thesis .
qed

lemma window_grow:
  assumes "a' \<le> a" "a \<le> z" "z \<le> length xs"
  shows "window a' z e p xs = drop a' (take a xs) @ window a z e p xs"
  using slice_split[OF assms] by (simp add: window_def)

lemma window_grow_end:
  assumes "z \<le> p" "p \<le> p'" "p' \<le> length xs"
  shows "window a z e p' xs = window a z e p xs @ drop p (take p' xs)"
  using slice_split[OF assms] by (simp add: window_def)

lemma slice_moved:
  fixes xs ys :: "u8 list"
  assumes "take m (drop a' ys) = take m (drop a xs)" "i \<le> j" "j \<le> m"
  shows "drop (a' + i) (take (a' + j) ys) = drop (a + i) (take (a + j) xs)"
proof -
  have e: "drop (b + i) (take (b + j) zs) = drop i (take j (take m (drop b zs)))" for b and zs :: "u8 list"
    using assms(2,3) by (simp add: drop_take add.commute min_def)
  show ?thesis unfolding e[of a' ys] e[of a xs] assms(1) ..
qed

lemma window_move:
  assumes "take (p - a) (drop a' ys) = take (p - a) (drop a xs)" "a \<le> z" "z \<le> p"
  shows "window a' (a' + (z - a)) (a' + (z - a) + (e - z)) (a' + (p - a)) ys = window a z e p xs"
  using slice_moved[OF assms(1), of 0 "z - a"] slice_moved[OF assms(1), of "z - a" "p - a"] assms(2,3)
  by (simp add: window_def)

subsection \<open>A block of its own\<close>

lemma new_block_ok:
  assumes refs: "refs_ok s (add_mset d (image_mset bf_data B))" "d \<notin># image_mset bf_data B"
    and B: "\<forall>b\<in>#B. in_blk s b" "\<forall>b\<in>#B. \<forall>c\<in>#B. ends_ok s b c"
    and D: "bh_data s d = Some D" and b: "bf_data b = d" "wf_buf b" "GetInternalEnd b \<le> bd_size D"
  shows "\<exists>s'. setDirty d (bf_start b) (bf_end b) s = Inr s' \<and> heap_ok s' (add_mset b B) \<and> views_kept s s' B
    \<and> bytesOf s' d = bd_bytes D"
proof -
  define D' where "D' = D\<lparr>bd_dirtyStart := bf_start b, bd_dirtyEnd := bf_end b\<rparr>"
  define s' where "s' = putD d D' s"
  have r: "refs_ok s' (image_mset bf_data (add_mset b B))"
    using refs_ok_put[OF refs(1) D, of D'] b(1) by (simp add: s'_def D'_def)
  have other: "bf_data c \<noteq> d" if "c \<in># B" for c using refs(2) that by auto
  have same: "blk s' (bf_data c) = blk s (bf_data c)" if "c \<in># B" for c
    using other[OF that] by (simp add: blk_def s'_def)
  have "in_blk s' b" using b by (simp add: in_blk_def blk_def s'_def D'_def)
  moreover have "ends_ok s' b b" "ends_ok s' b c" "ends_ok s' c b" if "c \<in># B" for c
    using other[OF that] b(1) by (auto simp: ends_ok_def)
  moreover have "ends_ok s' b b" by (simp add: ends_ok_def)
  moreover have "ends_ok s' c e" "in_blk s' c" "view s' c = view s c" if "c \<in># B" "e \<in># B" for c e
    using blk_facts[OF same[OF that(1)]] B that by (auto simp: ends_ok_def)
  ultimately have "heap_ok s' (add_mset b B)" "views_kept s s' B" using r by (auto simp: heap_ok_def views_kept_def)
  moreover have "setDirty d (bf_start b) (bf_end b) s = Inr s'" using D by (simp add: setDirty_def s'_def D'_def)
  moreover have "bytesOf s' d = bd_bytes D" by (simp add: bytesOf_def blk_def s'_def D'_def)
  ultimately show ?thesis by blast
qed

lemma moveTo_ok:
  assumes ok: "heap_ok s (add_mset b B)"
    and n: "unat off + unat (GetInternalSize b) \<le> unat newSize" "unat newSize + 101 < 2 ^ 32"
  shows "\<exists>d s' D. moveTo newSize off b s = Inr (d, s') \<and> refs_ok s' (add_mset d (image_mset bf_data B)) \<and> d \<notin># image_mset bf_data B
    \<and> (\<forall>c\<in>#B. blk s' (bf_data c) = blk s (bf_data c)) \<and> bh_data s' d = Some D \<and> newSize \<le> bd_size D
    \<and> take (unat (GetInternalSize b)) (drop (unat off) (bd_bytes D))
      = take (unat (GetInternalSize b)) (drop (unat (bf_start b)) (bytesOf s (bf_data b)))"
proof -
  let ?R = "image_mset bf_data B" and ?m = "unat (GetInternalSize b)"
  have refs: "refs_ok s (add_mset (bf_data b) ?R)" using heap_okD(1)[OF ok] by simp
  obtain d s1 D where c: "Buffer_Create newSize s = Inr (d, s1)" "\<forall>e\<in>#add_mset (bf_data b) ?R. bh_data s1 e = bh_data s e"
    "refs_ok s1 (add_mset d (add_mset (bf_data b) ?R))" "d \<notin># add_mset (bf_data b) ?R" "bh_data s1 d = Some D" "newSize \<le> bd_size D"
    using Create_ok[OF refs n(2)] by auto
  obtain Db where Db: "bh_data s (bf_data b) = Some Db" "bytesOf s (bf_data b) = bd_bytes Db" "wf_buf b" "GetInternalEnd b \<le> bd_size Db"
    "length (bd_bytes Db) = unat (bd_size Db)"
    using in_blkD[OF ok, of b] by auto
  have ie: "unat (bf_start b) + ?m \<le> length (bd_bytes Db)" using wf_nat[OF Db(3)] Db(4,5) by (simp add: word_le_nat_alt)
  define bs where "bs = take ?m (drop (unat (bf_start b)) (bd_bytes Db))"
  have p1: "peekM (bf_data b) (unat (bf_start b)) ?m s1 = Inr bs" using c(2) Db(1) ie by (simp add: peekM_def bs_def)
  have lbs: "length bs = ?m" using ie by (simp add: bs_def)
  have lD: "length (bd_bytes D) = unat (bd_size D)" using refs_okD(1)[OF c(3,5)] by (simp add: block_ok_def)
  define D' where "D' = D\<lparr>bd_bytes := poke (unat off) bs (bd_bytes D)\<rparr>"
  have room: "unat off + length bs \<le> length (bd_bytes D)" using n(1) c(6) lbs lD by (simp add: word_le_nat_alt)
  have p2: "pokeM d (unat off) bs s1 = Inr (putD d D' s1)" using c(5) room by (simp add: pokeM_def D'_def poke_def)
  have "refs_ok (putD d D' s1) (add_mset d (add_mset (bf_data b) ?R))" using refs_ok_put[OF c(3,5), of D'] room by (simp add: D'_def)
  then have r2: "refs_ok (putD d D' s1) (add_mset (bf_data b) (add_mset d ?R))" by (simp add: add_mset_commute)
  obtain s' where s': "unref (bf_data b) (putD d D' s1) = Inr s'" "refs_ok s' (add_mset d ?R)"
    "\<forall>e\<in>#add_mset d ?R. blk s' e = blk (putD d D' s1) e"
    using unref_ok[OF r2] by auto
  then have "blk s' d = Some (D'\<lparr>bd_count := 0\<rparr>)" by (simp add: blk_def)
  then obtain D2 where D2: "bh_data s' d = Some D2" "D2\<lparr>bd_count := 0\<rparr> = D'\<lparr>bd_count := 0\<rparr>" by (auto simp: blk_def)
  then have D2': "bd_size D2 = bd_size D'" "bd_bytes D2 = bd_bytes D'"
    by (metis bufData.select_convs(2) bufData.surjective bufData.update_convs(1), metis bufData.select_convs(5) bufData.surjective bufData.update_convs(1))
  have "take ?m (drop (unat off) (bd_bytes D')) = bs" using room lbs by (simp add: D'_def poke_def)
  moreover have "blk s' (bf_data e) = blk s (bf_data e)" if "e \<in># B" for e
    using s'(3) c(2,4) that by (auto simp: blk_def)
  moreover have "moveTo newSize off b s = Inr (d, s')" using c(1) p1 p2 s'(1) by (simp add: moveTo_def)
  ultimately show ?thesis using s'(2) D2 D2' c(4,6) Db(2) by (auto simp: D'_def bs_def)
qed

lemma views_kept_trans: "views_kept s s1 B \<Longrightarrow> views_kept s1 s2 B \<Longrightarrow> views_kept s s2 B"
  by (simp add: views_kept_def)

lemma kept_blocks:
  assumes "\<forall>c\<in>#B. blk s' (bf_data c) = blk s (bf_data c)" "\<forall>c\<in>#B. in_blk s c" "\<forall>b\<in>#B. \<forall>c\<in>#B. ends_ok s b c"
  shows "\<forall>c\<in>#B. in_blk s' c" "\<forall>b\<in>#B. \<forall>c\<in>#B. ends_ok s' b c" "views_kept s s' B"
  using assms blk_facts[of s' _ s] by (simp_all add: ends_ok_def views_kept_def)

lemma Initialize_ok:
  assumes ok: "heap_ok s B" and z: "unat (g_recommendedStart s) + unat z < 2 ^ 32"
  shows "\<exists>b s'. Buffer_Initialize z s = Inr (b, s') \<and> heap_ok s' (add_mset b B) \<and> views_kept s s' B
    \<and> view s' b = replicate (unat z) 0 \<and> unat (bf_end b) \<le> unat (g_recommendedStart s) + unat z"
proof -
  obtain d s1 D where c: "Buffer_Create 0 s = Inr (d, s1)" "\<forall>e\<in>#image_mset bf_data B. bh_data s1 e = bh_data s e"
    "g_recommendedStart s1 = g_recommendedStart s" "refs_ok s1 (add_mset d (image_mset bf_data B))" "d \<notin># image_mset bf_data B"
    "bh_data s1 d = Some D"
    using Create_ok[OF heap_okD(1)[OF ok], of 0] by auto
  define st where "st = min (bd_size D) (g_recommendedStart s)"
  define b where "b = \<lparr>bf_data = d, bf_maxZeroAreaStart = st, bf_zeroAreaStart = st, bf_zeroAreaEnd = st + z, bf_start = st, bf_end = st + z\<rparr>"
  have st: "unat st \<le> unat (g_recommendedStart s)" by (simp add: st_def min_def word_le_nat_alt)
  then have ze: "unat (st + z) = unat st + unat z" using z by (intro unat_add_u32) simp
  have en: "unat (bf_end b) \<le> unat (g_recommendedStart s) + unat z" using st ze by (simp add: b_def)
  have wf: "wf_buf b" using ze by (simp add: wf_buf_def b_def word_le_nat_alt)
  have ie: "GetInternalEnd b = st" by (simp add: GetInternalEnd_def b_def)
  have le: "GetInternalEnd b \<le> bd_size D" by (simp add: ie st_def)
  have "\<forall>c\<in>#B. blk s1 (bf_data c) = blk s (bf_data c)" using c(2) by (auto simp: blk_def)
  note k = kept_blocks[OF this, simplified] 
  have B: "\<forall>c\<in>#B. in_blk s c" "\<forall>b\<in>#B. \<forall>c\<in>#B. ends_ok s b c" using heap_okD(2,3)[OF ok] by auto
  obtain s' where s': "setDirty d (bf_start b) (bf_end b) s1 = Inr s'" "heap_ok s' (add_mset b B)" "views_kept s1 s' B" "bytesOf s' d = bd_bytes D"
    using new_block_ok[OF c(4,5) k(1,2)[OF B] c(6) _ wf le] by (auto simp: b_def)
  have "Buffer_Initialize z s = Inr (b, s')"
    using c(1,3,6) s'(1) by (simp add: Buffer_Initialize_def Let_def st_def b_def)
  moreover have "view s' b = replicate (unat z) 0"
    using ze by (simp add: view_def content_def ie) (simp add: b_def window_def)
  ultimately show ?thesis using s' views_kept_trans[OF k(3)[OF B] s'(3)] en by blast
qed

lemma sole_owner:
  assumes "heap_ok s (add_mset b B)" "bh_data s (bf_data b) = Some D" "bd_count D = 1" "c \<in># B"
  shows "bf_data c \<noteq> bf_data b"
proof
  assume "bf_data c = bf_data b"
  then have "0 < count (image_mset bf_data B) (bf_data b)" using assms(4) by (metis count_greater_zero_iff image_eqI set_image_mset)
  moreover have "unat (bd_count D) = Suc (count (image_mset bf_data B) (bf_data b))"
    using refs_okD(1)[OF heap_okD(1)[OF assms(1)] assms(2)] by (simp add: block_ok_def)
  moreover have "unat (bd_count D) = 1" using assms(3) by simp
  ultimately show False by linarith
qed

text \<open>Moving one end of the dirty area of a shared block without touching its bytes.\<close>

lemma redirty_ok:
  assumes ok: "heap_ok s (add_mset b B)" and D: "bh_data s (bf_data b) = Some D"
    and b': "bf_data b' = bf_data b" "wf_buf b'" "ds \<le> bf_start b'" "bf_end b' \<le> de" "GetInternalEnd b' \<le> bd_size D"
    and others: "\<And>c. c \<in># B \<Longrightarrow> bf_data c = bf_data b \<Longrightarrow> ds \<le> bf_start c \<and> bf_end c \<le> de"
    and ends: "\<And>c. c \<in># B \<Longrightarrow> bf_data c = bf_data b \<Longrightarrow>
        (bf_end b' = de \<longrightarrow> unat (GetInternalEnd c) \<le> unat (GetInternalEnd b')) \<and> (bf_end c = de \<longrightarrow> unat (GetInternalEnd b') \<le> unat (GetInternalEnd c))
        \<and> (bf_end c = de \<longrightarrow> bd_dirtyEnd D = de)"
  defines "s' \<equiv> putD (bf_data b) (D\<lparr>bd_dirtyStart := ds, bd_dirtyEnd := de\<rparr>) s"
  shows "heap_ok s' (add_mset b' B)" "views_kept s s' B" "bytesOf s' = bytesOf s"
proof -
  show bo: "bytesOf s' = bytesOf s" using D by (auto simp: bytesOf_def blk_def s'_def fun_eq_iff)
  then show "views_kept s s' B" by (simp add: views_kept_def view_def)
  have r: "refs_ok s' (image_mset bf_data (add_mset b' B))"
    using refs_ok_put[OF heap_okD(1)[OF ok], of "bf_data b" D] D b'(1) by (simp add: s'_def)
  have i: "in_blk s' c" if "c \<in># B" for c
    using heap_okD(2)[OF ok, of c] that others[OF that] D by (auto simp: in_blk_def blk_def s'_def)
  have ib: "in_blk s' b'" using b' by (simp add: in_blk_def blk_def s'_def)
  have at: "atEnd s' c \<longleftrightarrow> (if bf_data c = bf_data b then bf_end c = de else atEnd s c)" for c
    by (simp add: atEnd_def blk_def s'_def)
  have at0: "atEnd s c \<longleftrightarrow> bf_end c = bd_dirtyEnd D" if "bf_data c = bf_data b" for c
    using that D by (simp add: atEnd_def blk_def)
  have e1: "ends_ok s' c e" if "c \<in># B" "e \<in># B" for c e
  proof (cases "bf_data c = bf_data b")
    case True
    then show ?thesis using heap_okD(3)[OF ok, of c e] that ends[OF that(1) True] at[of c] at0[OF True] True by (auto simp: ends_ok_def)
  next
    case False
    then show ?thesis using heap_okD(3)[OF ok, of c e] that at by (auto simp: ends_ok_def)
  qed
  have e2: "ends_ok s' b' c" "ends_ok s' c b'" if "c \<in># B" for c using ends[OF that] b'(1) at by (auto simp: ends_ok_def)
  have e3: "ends_ok s' b' b'" by (simp add: ends_ok_def)
  show "heap_ok s' (add_mset b' B)" using r i ib e1 e2 e3 unfolding heap_ok_def by auto
qed

subsection \<open>Adding bytes\<close>

lemma shift_nat:
  assumes wf: "wf_buf b" and fits: "unat (bf_end b) + unat k < 2 ^ 32"
  defines "b' \<equiv> shift (k - bf_start b) b"
  shows "wf_buf b'" "bf_start b' = k" "unat (bf_zeroAreaStart b') = unat k + (unat (bf_zeroAreaStart b) - unat (bf_start b))"
    "unat (bf_zeroAreaEnd b') = unat k + (unat (bf_zeroAreaEnd b) - unat (bf_start b))"
    "unat (bf_end b') = unat k + (unat (bf_end b) - unat (bf_start b))"
    "unat (GetInternalEnd b') = unat k + (unat (GetInternalEnd b) - unat (bf_start b))"
proof -
  note w = wf_nat(1-3,5)[OF wf]
  have add: "unat (x + (k - bf_start b)) = unat k + (unat x - unat (bf_start b))" if "bf_start b \<le> x" "unat x \<le> unat (bf_end b)" for x
  proof -
    have e: "x + (k - bf_start b) = k + (x - bf_start b)" by simp
    have u: "unat (x - bf_start b) = unat x - unat (bf_start b)" using that(1) by (rule unat_minus_le)
    have "unat k + unat (x - bf_start b) < 2 ^ 32" using that(2) fits u by linarith
    then show ?thesis unfolding e by (simp only: unat_add_u32 u)
  qed
  have f: "bf_start b' = k" "bf_zeroAreaStart b' = bf_zeroAreaStart b + (k - bf_start b)"
    "bf_zeroAreaEnd b' = bf_zeroAreaEnd b + (k - bf_start b)" "bf_end b' = bf_end b + (k - bf_start b)"
    by (simp_all add: b'_def shift_def)
  show z: "unat (bf_zeroAreaStart b') = unat k + (unat (bf_zeroAreaStart b) - unat (bf_start b))"
    "unat (bf_zeroAreaEnd b') = unat k + (unat (bf_zeroAreaEnd b) - unat (bf_start b))"
    "unat (bf_end b') = unat k + (unat (bf_end b) - unat (bf_start b))"
    unfolding f by (rule add; use w in \<open>simp add: word_le_nat_alt\<close>)+
  show "bf_start b' = k" by (rule f)
  show wf': "wf_buf b'" unfolding wf_buf_def word_le_nat_alt z f(1) using w by (intro conjI; linarith)
  show "unat (GetInternalEnd b') = unat k + (unat (GetInternalEnd b) - unat (bf_start b))"
    using wf_nat(5)[OF wf'] z w by linarith
qed

lemma shift_content:
  assumes wf: "wf_buf b" and fits: "unat (bf_end b) + unat k < 2 ^ 32"
    and moved: "take (unat (GetInternalSize b)) (drop (unat k) ys) = take (unat (GetInternalSize b)) (drop (unat (bf_start b)) xs)"
  shows "content ys (shift (k - bf_start b) b) = content xs b"
proof -
  note w = wf_nat(1-3,5)[OF wf] and sh = shift_nat[OF wf fits]
  have m: "take (unat (GetInternalEnd b) - unat (bf_start b)) (drop (unat k) ys)
      = take (unat (GetInternalEnd b) - unat (bf_start b)) (drop (unat (bf_start b)) xs)"
    using moved wf_nat(7)[OF wf] by simp
  have zp: "unat (bf_zeroAreaStart b) \<le> unat (GetInternalEnd b)" using w by linarith
  have e: "unat k + (unat (bf_zeroAreaStart b) - unat (bf_start b)) + (unat (bf_zeroAreaEnd b) - unat (bf_zeroAreaStart b))
      = unat k + (unat (bf_zeroAreaEnd b) - unat (bf_start b))" using w by linarith
  show ?thesis using window_move[OF m w(1) zp, of "unat (bf_zeroAreaEnd b)"] unfolding e content_def sh by simp
qed

text \<open>What adding \<open>n\<close> bytes at the start achieves.\<close>

definition grown_front :: "bheap \<Rightarrow> buf \<Rightarrow> buf multiset \<Rightarrow> nat \<Rightarrow> buf \<Rightarrow> bheap \<Rightarrow> bool" where
  "grown_front s b B n b' s' \<longleftrightarrow> heap_ok s' (add_mset b' B) \<and> views_kept s s' B \<and> own_front B b' n
     \<and> (\<exists>pre. length pre = n \<and> view s' b' = pre @ view s b) \<and> unat (bf_end b') \<le> unat (bf_end b) + n"

lemma AddAtStart_in_place:
  assumes ok: "heap_ok s (add_mset b B)" and D: "bh_data s (bf_data b) = Some D"
    and n: "n \<le> bf_start b" and sole: "bd_count D = 1 \<or> bf_start b = bd_dirtyStart D"
  defines "b1 \<equiv> b\<lparr>bf_start := bf_start b - n\<rparr>"
  shows "grown_front s b B (unat n) (noteMax b1) (putD (bf_data b) (D\<lparr>bd_dirtyStart := bf_start b1\<rparr>) s)"
proof -
  have Db: "wf_buf b" "bf_end b \<le> bd_dirtyEnd D" "unat (GetInternalEnd b) \<le> unat (bd_size D)" "length (bd_bytes D) = unat (bd_size D)"
    "bytesOf s (bf_data b) = bd_bytes D"
    using in_blkD[OF ok, of b] D by (auto simp: word_le_nat_alt)
  note w = wf_nat(1-3,5)[OF Db(1)]
  have st: "unat (bf_start b1) + unat n = unat (bf_start b)" using n by (simp add: b1_def unat_minus_le word_le_nat_alt)
  have f: "bf_data b1 = bf_data b" "bf_zeroAreaStart b1 = bf_zeroAreaStart b" "bf_zeroAreaEnd b1 = bf_zeroAreaEnd b" "bf_end b1 = bf_end b"
    "GetInternalEnd b1 = GetInternalEnd b" by (simp_all add: b1_def GetInternalEnd_def)
  have later: "bf_start b \<le> bf_start c" "bf_end c \<le> bd_dirtyEnd D" if c: "c \<in># B" "bf_data c = bf_data b" for c
  proof -
    have "bf_start b = bd_dirtyStart D" using sole sole_owner[OF ok D _ c(1)] c(2) by blast
    then show "bf_start b \<le> bf_start c" "bf_end c \<le> bd_dirtyEnd D" using in_blkD[OF ok, of c] c D by auto
  qed
  have others: "bf_start b1 \<le> bf_start c \<and> bf_end c \<le> bd_dirtyEnd D" if "c \<in># B" "bf_data c = bf_data b" for c
    using later[OF that] st by (simp add: word_le_nat_alt)
  have ends: "(bf_end (noteMax b1) = bd_dirtyEnd D \<longrightarrow> unat (GetInternalEnd c) \<le> unat (GetInternalEnd (noteMax b1)))
      \<and> (bf_end c = bd_dirtyEnd D \<longrightarrow> unat (GetInternalEnd (noteMax b1)) \<le> unat (GetInternalEnd c))
      \<and> (bf_end c = bd_dirtyEnd D \<longrightarrow> bd_dirtyEnd D = bd_dirtyEnd D)" if c: "c \<in># B" "bf_data c = bf_data b" for c
    using heap_okD(3)[OF ok, of b c] heap_okD(3)[OF ok, of c b] c D f by (auto simp: ends_ok_def atEnd_def blk_def)
  have b1: "bf_data (noteMax b1) = bf_data b" "wf_buf (noteMax b1)" "bf_start b1 \<le> bf_start (noteMax b1)"
    "bf_end (noteMax b1) \<le> bd_dirtyEnd D" "GetInternalEnd (noteMax b1) \<le> bd_size D"
    using f st w Db(2,3) by (simp_all add: wf_buf_def word_le_nat_alt)
  define s' where "s' = putD (bf_data b) (D\<lparr>bd_dirtyStart := bf_start b1, bd_dirtyEnd := bd_dirtyEnd D\<rparr>) s"
  note r = redirty_ok[OF ok D b1 others ends, folded s'_def]
  have zl: "unat (bf_zeroAreaStart b) \<le> length (bd_bytes D)" "unat (bf_start b) \<le> length (bd_bytes D)" using w Db(3,4) by linarith+
  define pre where "pre = drop (unat (bf_start b1)) (take (unat (bf_start b)) (bd_bytes D))"
  have "unat (bf_start b1) \<le> unat (bf_start b)" using st by linarith
  from window_grow[OF this w(1) zl(1), of "unat (bf_zeroAreaEnd b)" "unat (GetInternalEnd b)"]
  have "content (bd_bytes D) b1 = pre @ content (bd_bytes D) b" unfolding content_def f pre_def .
  then have "view s' (noteMax b1) = pre @ view s b" by (simp only: view_def noteMax_content noteMax_fields f r(3) Db(5))
  moreover have "length pre = unat n" using st zl(2) by (simp add: pre_def)
  moreover have "unat (bf_start b) \<le> unat (bf_start c)" if "c \<in># B" "bf_data c = bf_data b" for c
    using later(1)[OF that] by (simp only: word_le_nat_alt)
  then have "own_front B (noteMax b1) (unat n)" unfolding own_front_def noteMax_fields f st using w(1) by blast
  moreover have "s' = putD (bf_data b) (D\<lparr>bd_dirtyStart := bf_start b1\<rparr>) s" by (simp add: s'_def)
  moreover have "unat (bf_end (noteMax b1)) \<le> unat (bf_end b) + unat n" using f by simp
  ultimately show ?thesis using r(1,2) unfolding grown_front_def by blast
qed

lemma AddAtStart_moved:
  assumes ok: "heap_ok s (add_mset b B)" and n: "unat (bf_end b) + unat n + 101 < 2 ^ 32"
  defines "b1 \<equiv> \<lambda>d. noteMax ((shift (n - bf_start b) b)\<lparr>bf_data := d, bf_start := 0\<rparr>)"
  shows "\<exists>d s1 s'. moveTo (GetInternalSize b + n) n b s = Inr (d, s1)
    \<and> setDirty d (bf_start (b1 d)) (bf_end (b1 d)) s1 = Inr s' \<and> grown_front s b B (unat n) (b1 d) s'"
proof -
  have wfb: "wf_buf b" using in_blkD[OF ok, of b] by auto
  note w = wf_nat(1-3,5)[OF wfb]
  have isz: "unat (GetInternalSize b) \<le> unat (bf_end b)" using wf_nat(7)[OF wfb] w by linarith
  then have ns: "unat (GetInternalSize b + n) = unat (GetInternalSize b) + unat n" using n by (intro unat_add_u32) linarith
  have n2: "unat n + unat (GetInternalSize b) \<le> unat (GetInternalSize b + n)" "unat (GetInternalSize b + n) + 101 < 2 ^ 32"
    using n isz ns by linarith+
  obtain d s1 D1 where m: "moveTo (GetInternalSize b + n) n b s = Inr (d, s1)" "refs_ok s1 (add_mset d (image_mset bf_data B))"
    "d \<notin># image_mset bf_data B" "\<forall>c\<in>#B. blk s1 (bf_data c) = blk s (bf_data c)" "bh_data s1 d = Some D1" "GetInternalSize b + n \<le> bd_size D1"
    "take (unat (GetInternalSize b)) (drop (unat n) (bd_bytes D1)) = take (unat (GetInternalSize b)) (drop (unat (bf_start b)) (bytesOf s (bf_data b)))"
    using moveTo_ok[OF ok n2] by blast
  have B: "\<forall>c\<in>#B. in_blk s c" "\<forall>b\<in>#B. \<forall>c\<in>#B. ends_ok s b c" using heap_okD(2,3)[OF ok] by auto
  note k = kept_blocks[OF m(4) B]
  have nn: "unat (bf_end b) + unat n < 2 ^ 32" using n by simp
  define b0 where "b0 = shift (n - bf_start b) b"
  note sh = shift_nat[OF wfb nn, folded b0_def]
  have f: "bf_data (b1 d) = d" "bf_start (b1 d) = 0" "bf_zeroAreaStart (b1 d) = bf_zeroAreaStart b0" "bf_zeroAreaEnd (b1 d) = bf_zeroAreaEnd b0"
    "bf_end (b1 d) = bf_end b0" "GetInternalEnd (b1 d) = GetInternalEnd b0" by (simp_all add: b1_def b0_def GetInternalEnd_def)
  have wf: "wf_buf (b1 d)" using sh(1) f by (simp add: wf_buf_def)
  have lD: "length (bd_bytes D1) = unat (bd_size D1)" using refs_okD(1)[OF m(2,5)] by (simp add: block_ok_def)
  have m6: "unat (GetInternalSize b) + unat n \<le> unat (bd_size D1)" using m(6) ns by (simp add: word_le_nat_alt)
  have p: "unat (GetInternalEnd b0) = unat n + unat (GetInternalSize b)" using sh(6) wf_nat(7)[OF wfb] by simp
  have le: "GetInternalEnd (b1 d) \<le> bd_size D1" using m6 p f(6) by (simp add: word_le_nat_alt)
  obtain s' where s': "setDirty d (bf_start (b1 d)) (bf_end (b1 d)) s1 = Inr s'" "heap_ok s' (add_mset (b1 d) B)" "views_kept s1 s' B" "bytesOf s' d = bd_bytes D1"
    using new_block_ok[OF m(2,3) k(1,2) m(5) f(1) wf le] by blast
  have zl: "unat n \<le> unat (bf_zeroAreaStart b0)" "unat (bf_zeroAreaStart b0) \<le> length (bd_bytes D1)"
    using sh(3) wf_nat(2,3,5)[OF sh(1)] p m6 lD by linarith+
  have "content (bd_bytes D1) b0 = view s b" using shift_content[OF wfb nn m(7)] by (simp add: b0_def view_def)
  moreover have "content (bd_bytes D1) (b1 d) = take (unat n) (bd_bytes D1) @ content (bd_bytes D1) b0"
    using window_grow[OF _ zl, of 0 "unat (bf_zeroAreaEnd b0)" "unat (GetInternalEnd b0)"] sh(2) f by (simp add: content_def)
  ultimately have v: "view s' (b1 d) = take (unat n) (bd_bytes D1) @ view s b" using s'(4) f(1) by (simp add: view_def)
  have "length (take (unat n) (bd_bytes D1)) = unat n" using m6 lD by simp
  moreover have "own_front B (b1 d) (unat n)" unfolding own_front_def f using m(3) zl(1) by auto
  moreover have "unat (bf_end (b1 d)) \<le> unat (bf_end b) + unat n" using sh(5) f(5) by simp
  ultimately have "grown_front s b B (unat n) (b1 d) s'"
    using s'(2) v views_kept_trans[OF k(3) s'(3)] unfolding grown_front_def by blast
  then show ?thesis using m(1) s'(1) by blast
qed

lemma block_count_pos:
  assumes "heap_ok s (add_mset b B)" "bh_data s (bf_data b) = Some D"
  shows "0 < unat (bd_count D)"
  using refs_okD(1)[OF heap_okD(1)[OF assms(1)] assms(2)] by (simp add: block_ok_def)

lemma not_above_one: "0 < unat (w :: u32) \<Longrightarrow> \<not> 1 < w \<Longrightarrow> w = 1"
  by (simp add: word_less_nat_alt word_unat_eq_iff)

lemma AddAtStart_ok:
  assumes ok: "heap_ok s (add_mset b B)" and n: "unat (bf_end b) + unat n + 101 < 2 ^ 32"
  shows "\<exists>b' s'. AddAtStart n b s = Inr (b', s') \<and> grown_front s b B (unat n) b' s'"
proof -
  obtain D where D: "bh_data s (bf_data b) = Some D" "bd_dirtyStart D \<le> bf_start b" using in_blkD[OF ok, of b] by auto
  show ?thesis
  proof (cases "bf_start b \<ge> n \<and> \<not> (bd_count D > 1 \<and> bf_start b > bd_dirtyStart D)")
    case True
    then have sole: "bd_count D = 1 \<or> bf_start b = bd_dirtyStart D"
      using not_above_one[OF block_count_pos[OF ok D(1)]] D(2) by auto
    have "AddAtStart n b s = Inr (noteMax (b\<lparr>bf_start := bf_start b - n\<rparr>), putD (bf_data b) (D\<lparr>bd_dirtyStart := bf_start b - n\<rparr>) s)"
      using D(1) True sole by (simp add: AddAtStart_def Let_def)
    then show ?thesis using AddAtStart_in_place[OF ok D(1) _ sole] True by auto
  next
    case False
    obtain d s1 s' where m: "moveTo (GetInternalSize b + n) n b s = Inr (d, s1)"
      "setDirty d 0 (bf_end (shift (n - bf_start b) b)) s1 = Inr s'"
      "grown_front s b B (unat n) (noteMax ((shift (n - bf_start b) b)\<lparr>bf_data := d, bf_start := 0\<rparr>)) s'"
      using AddAtStart_moved[OF ok n] by auto
    have "AddAtStart n b s = Inr (noteMax ((shift (n - bf_start b) b)\<lparr>bf_data := d, bf_start := 0\<rparr>), s')"
      using D(1) False m(1,2) by (auto simp: AddAtStart_def Let_def shift_def)
    then show ?thesis using m(3) by blast
  qed
qed

definition grown_rear :: "bheap \<Rightarrow> buf \<Rightarrow> buf multiset \<Rightarrow> nat \<Rightarrow> buf \<Rightarrow> bheap \<Rightarrow> bool" where
  "grown_rear s b B n b' s' \<longleftrightarrow> heap_ok s' (add_mset b' B) \<and> views_kept s s' B \<and> own_rear B b' n
     \<and> (\<exists>post. length post = n \<and> view s' b' = view s b @ post) \<and> unat (bf_end b') \<le> unat (bf_end b) + n"

lemma longer_end:
  assumes wf: "wf_buf b" and n: "unat (bf_end b) + unat n < 2 ^ 32"
  defines "b1 \<equiv> b\<lparr>bf_end := bf_end b + n\<rparr>"
  shows "wf_buf b1" "unat (bf_end b1) = unat (bf_end b) + unat n" "unat (GetInternalEnd b1) = unat (GetInternalEnd b) + unat n"
proof -
  have f: "bf_start b1 = bf_start b" "bf_zeroAreaStart b1 = bf_zeroAreaStart b" "bf_zeroAreaEnd b1 = bf_zeroAreaEnd b" by (simp_all add: b1_def)
  show e: "unat (bf_end b1) = unat (bf_end b) + unat n" using unat_add_u32[OF n] by (simp add: b1_def)
  show wf': "wf_buf b1" using wf e f by (simp add: wf_buf_def word_le_nat_alt)
  show "unat (GetInternalEnd b1) = unat (GetInternalEnd b) + unat n" using wf_nat(5)[OF wf'] wf_nat(5)[OF wf] e f by simp
qed

lemma AddAtEnd_in_place:
  assumes ok: "heap_ok s (add_mset b B)" and D: "bh_data s (bf_data b) = Some D"
    and n: "unat (bf_end b) + unat n < 2 ^ 32" "unat (GetInternalEnd b) + unat n \<le> unat (bd_size D)"
    and sole: "bd_count D = 1 \<or> bf_end b = bd_dirtyEnd D"
  defines "b1 \<equiv> b\<lparr>bf_end := bf_end b + n\<rparr>"
  shows "grown_rear s b B (unat n) (noteMax b1) (putD (bf_data b) (D\<lparr>bd_dirtyEnd := bf_end b1\<rparr>) s)"
proof -
  have Db: "wf_buf b" "bd_dirtyStart D \<le> bf_start b" "length (bd_bytes D) = unat (bd_size D)" "bytesOf s (bf_data b) = bd_bytes D"
    using in_blkD[OF ok, of b] D by auto
  note w = wf_nat(1-3,5)[OF Db(1)] and l = longer_end[OF Db(1) n(1), folded b1_def]
  have f: "bf_data b1 = bf_data b" "bf_zeroAreaStart b1 = bf_zeroAreaStart b" "bf_zeroAreaEnd b1 = bf_zeroAreaEnd b" "bf_start b1 = bf_start b"
    by (simp_all add: b1_def)
  have shared: "bf_end b = bd_dirtyEnd D" if "c \<in># B" "bf_data c = bf_data b" for c
    using sole sole_owner[OF ok D _ that(1)] that(2) by blast
  have cb: "bd_dirtyStart D \<le> bf_start c" "unat (bf_end c) \<le> unat (bf_end b)" "unat (GetInternalEnd c) \<le> unat (GetInternalEnd b)"
    "bf_end c = bf_end b \<Longrightarrow> unat (GetInternalEnd b) \<le> unat (GetInternalEnd c)" if c: "c \<in># B" "bf_data c = bf_data b" for c
    using in_blkD[OF ok, of c] c D shared[OF c] heap_okD(3)[OF ok, of b c] heap_okD(3)[OF ok, of c b]
    by (auto simp: ends_ok_def atEnd_def blk_def word_le_nat_alt)
  have others: "bd_dirtyStart D \<le> bf_start c \<and> bf_end c \<le> bf_end b1" if "c \<in># B" "bf_data c = bf_data b" for c
    using cb(1,2)[OF that] l(2) by (simp add: word_le_nat_alt)
  have same: "n = 0 \<and> bf_end c = bf_end b" if c: "c \<in># B" "bf_data c = bf_data b" and e: "bf_end c = bf_end b1" for c
  proof -
    have "unat n = 0" using cb(2)[OF c] l(2) e by simp
    then have "n = 0" by (simp add: unat_eq_zero)
    then show ?thesis using e by (simp add: b1_def)
  qed
  have ends: "(bf_end (noteMax b1) = bf_end b1 \<longrightarrow> unat (GetInternalEnd c) \<le> unat (GetInternalEnd (noteMax b1)))
      \<and> (bf_end c = bf_end b1 \<longrightarrow> unat (GetInternalEnd (noteMax b1)) \<le> unat (GetInternalEnd c))
      \<and> (bf_end c = bf_end b1 \<longrightarrow> bd_dirtyEnd D = bf_end b1)" if c: "c \<in># B" "bf_data c = bf_data b" for c
    using cb(3,4)[OF c] same[OF c] l(3) shared[OF c] by auto
  have b1: "bf_data (noteMax b1) = bf_data b" "wf_buf (noteMax b1)" "bd_dirtyStart D \<le> bf_start (noteMax b1)"
    "bf_end (noteMax b1) \<le> bf_end b1" "GetInternalEnd (noteMax b1) \<le> bd_size D"
    using f l Db(2) n(2) by (simp_all add: word_le_nat_alt)
  define s' where "s' = putD (bf_data b) (D\<lparr>bd_dirtyStart := bd_dirtyStart D, bd_dirtyEnd := bf_end b1\<rparr>) s"
  note r = redirty_ok[OF ok D b1 others ends, folded s'_def]
  define post where "post = drop (unat (GetInternalEnd b)) (take (unat (GetInternalEnd b1)) (bd_bytes D))"
  have g: "unat (bf_zeroAreaStart b) \<le> unat (GetInternalEnd b)" "unat (GetInternalEnd b) \<le> unat (GetInternalEnd b1)"
    "unat (GetInternalEnd b1) \<le> length (bd_bytes D)"
    using w l(3) n(2) Db(3) by linarith+
  from window_grow_end[OF g, of "unat (bf_start b)" "unat (bf_zeroAreaEnd b)"]
  have "content (bd_bytes D) b1 = content (bd_bytes D) b @ post" unfolding content_def f post_def .
  then have "view s' (noteMax b1) = view s b @ post" by (simp only: view_def noteMax_content noteMax_fields f r(3) Db(4))
  moreover have "length post = unat n" using g l(3) by (simp add: post_def)
  moreover have "own_rear B (noteMax b1) (unat n)" unfolding own_rear_def noteMax_fields f l(3) using g(1) cb(3) by auto
  moreover have "s' = putD (bf_data b) (D\<lparr>bd_dirtyEnd := bf_end b1\<rparr>) s" by (simp add: s'_def)
  moreover have "unat (bf_end (noteMax b1)) \<le> unat (bf_end b) + unat n" using l(2) by simp
  ultimately show ?thesis using r(1,2) unfolding grown_rear_def by blast
qed

lemma AddAtEnd_moved:
  assumes ok: "heap_ok s (add_mset b B)" and n: "unat (bf_end b) + unat n + 101 < 2 ^ 32"
  defines "b1 \<equiv> \<lambda>d. noteMax ((shift (- bf_start b) b)\<lparr>bf_data := d, bf_end := bf_end (shift (- bf_start b) b) + n\<rparr>)"
  shows "\<exists>d s1 s'. moveTo (GetInternalSize b + n) 0 b s = Inr (d, s1)
    \<and> setDirty d (bf_start (b1 d)) (bf_end (b1 d)) s1 = Inr s' \<and> grown_rear s b B (unat n) (b1 d) s'"
proof -
  have wfb: "wf_buf b" using in_blkD[OF ok, of b] by auto
  note w = wf_nat(1-3,5)[OF wfb]
  have isz: "unat (GetInternalSize b) \<le> unat (bf_end b)" using wf_nat(7)[OF wfb] w by linarith
  then have ns: "unat (GetInternalSize b + n) = unat (GetInternalSize b) + unat n" using n by (intro unat_add_u32) linarith
  have n2: "unat (0 :: u32) + unat (GetInternalSize b) \<le> unat (GetInternalSize b + n)" "unat (GetInternalSize b + n) + 101 < 2 ^ 32"
    using n isz ns by simp_all
  obtain d s1 D1 where m: "moveTo (GetInternalSize b + n) 0 b s = Inr (d, s1)" "refs_ok s1 (add_mset d (image_mset bf_data B))"
    "d \<notin># image_mset bf_data B" "\<forall>c\<in>#B. blk s1 (bf_data c) = blk s (bf_data c)" "bh_data s1 d = Some D1" "GetInternalSize b + n \<le> bd_size D1"
    "take (unat (GetInternalSize b)) (drop (unat (0 :: u32)) (bd_bytes D1)) = take (unat (GetInternalSize b)) (drop (unat (bf_start b)) (bytesOf s (bf_data b)))"
    using moveTo_ok[OF ok n2] by blast
  have B: "\<forall>c\<in>#B. in_blk s c" "\<forall>b\<in>#B. \<forall>c\<in>#B. ends_ok s b c" using heap_okD(2,3)[OF ok] by auto
  note k = kept_blocks[OF m(4) B]
  have nn: "unat (bf_end b) + unat (0 :: u32) < 2 ^ 32" using n by simp
  define b0 where "b0 = shift (- bf_start b) b"
  have b0': "shift (0 - bf_start b) b = b0" by (simp add: b0_def)
  note sh = shift_nat[OF wfb nn, unfolded b0', simplified]
  have "unat (bf_end b0) + unat n < 2 ^ 32" using sh(5) n by simp
  note l = longer_end[OF sh(1) this]
  define b2 where "b2 = b0\<lparr>bf_end := bf_end b0 + n\<rparr>"
  note l = l[folded b2_def]
  have f: "bf_data (b1 d) = d" "bf_start (b1 d) = bf_start b0" "bf_zeroAreaStart (b1 d) = bf_zeroAreaStart b0" "bf_zeroAreaEnd (b1 d) = bf_zeroAreaEnd b0"
    "bf_end (b1 d) = bf_end b2" "GetInternalEnd (b1 d) = GetInternalEnd b2" by (simp_all add: b1_def b2_def b0_def GetInternalEnd_def)
  have wf: "wf_buf (b1 d)" using l(1) f by (simp add: wf_buf_def b2_def)
  have lD: "length (bd_bytes D1) = unat (bd_size D1)" using refs_okD(1)[OF m(2,5)] by (simp add: block_ok_def)
  have m6: "unat (GetInternalSize b) + unat n \<le> unat (bd_size D1)" using m(6) ns by (simp add: word_le_nat_alt)
  have p: "unat (GetInternalEnd b2) = unat (GetInternalSize b) + unat n" using l(3) sh(6) wf_nat(7)[OF wfb] by simp
  have le: "GetInternalEnd (b1 d) \<le> bd_size D1" using m6 p f(6) by (simp add: word_le_nat_alt)
  obtain s' where s': "setDirty d (bf_start (b1 d)) (bf_end (b1 d)) s1 = Inr s'" "heap_ok s' (add_mset (b1 d) B)" "views_kept s1 s' B" "bytesOf s' d = bd_bytes D1"
    using new_block_ok[OF m(2,3) k(1,2) m(5) f(1) wf le] by blast
  have g: "unat (bf_zeroAreaStart b0) \<le> unat (GetInternalEnd b0)" "unat (GetInternalEnd b0) \<le> unat (GetInternalEnd b2)"
    "unat (GetInternalEnd b2) \<le> length (bd_bytes D1)"
    using wf_nat(2,3,5)[OF sh(1)] l(3) p m6 lD by linarith+
  define post where "post = drop (unat (GetInternalEnd b0)) (take (unat (GetInternalEnd b2)) (bd_bytes D1))"
  have "content (bd_bytes D1) b0 = view s b" using shift_content[OF wfb nn m(7)] by (simp add: b0_def view_def)
  moreover from window_grow_end[OF g, of "unat (bf_start b0)" "unat (bf_zeroAreaEnd b0)"]
  have "content (bd_bytes D1) (b1 d) = content (bd_bytes D1) b0 @ post" unfolding content_def f post_def .
  ultimately have v: "view s' (b1 d) = view s b @ post" using s'(4) f(1) by (simp add: view_def)
  have "length post = unat n" using g l(3) by (simp add: post_def)
  moreover have "own_rear B (b1 d) (unat n)" unfolding own_rear_def f l(3) using m(3) g(1) by auto
  moreover have "unat (bf_end (b1 d)) \<le> unat (bf_end b) + unat n" using sh(5) l(2) f(5) by simp
  ultimately have "grown_rear s b B (unat n) (b1 d) s'"
    using s'(2) v views_kept_trans[OF k(3) s'(3)] unfolding grown_rear_def by blast
  then show ?thesis using m(1) s'(1) by blast
qed

lemma AddAtEnd_ok:
  assumes ok: "heap_ok s (add_mset b B)" and n: "unat (bf_end b) + unat n + 101 < 2 ^ 32"
  shows "\<exists>b' s'. AddAtEnd n b s = Inr (b', s') \<and> grown_rear s b B (unat n) b' s'"
proof -
  obtain D where D: "bh_data s (bf_data b) = Some D" "bf_end b \<le> bd_dirtyEnd D" "wf_buf b" using in_blkD[OF ok, of b] by auto
  show ?thesis
  proof (cases "GetInternalEnd b + n \<le> bd_size D \<and> \<not> (bd_count D > 1 \<and> bf_end b < bd_dirtyEnd D)")
    case True
    then have sole: "bd_count D = 1 \<or> bf_end b = bd_dirtyEnd D"
      using not_above_one[OF block_count_pos[OF ok D(1)]] D(2) by auto
    have "unat (GetInternalEnd b) \<le> unat (bf_end b)" using wf_nat(2,3,5)[OF D(3)] by linarith
    then have "unat (GetInternalEnd b) + unat n < 2 ^ 32" using n by linarith
    then have le: "unat (GetInternalEnd b) + unat n \<le> unat (bd_size D)"
      using True unat_add_u32[of "GetInternalEnd b" n] by (simp add: word_le_nat_alt)
    have fits: "unat (bf_end b) + unat n < 2 ^ 32" using n by simp
    have "AddAtEnd n b s = Inr (noteMax (b\<lparr>bf_end := bf_end b + n\<rparr>), putD (bf_data b) (D\<lparr>bd_dirtyEnd := bf_end b + n\<rparr>) s)"
      using D(1) True sole by (simp add: AddAtEnd_def Let_def)
    then show ?thesis using AddAtEnd_in_place[OF ok D(1) fits le sole] by auto
  next
    case False
    define b0 where "b0 = shift (- bf_start b) b"
    obtain d s1 s' where m: "moveTo (GetInternalSize b + n) 0 b s = Inr (d, s1)"
      "setDirty d (bf_start b0) (bf_end b0 + n) s1 = Inr s'"
      "grown_rear s b B (unat n) (noteMax (b0\<lparr>bf_data := d, bf_end := bf_end b0 + n\<rparr>)) s'"
      using AddAtEnd_moved[OF ok n] by (auto simp: b0_def)
    have "AddAtEnd n b s = Inr (noteMax (b0\<lparr>bf_data := d, bf_end := bf_end b0 + n\<rparr>), s')"
      using D(1) False m(1,2) by (auto simp: AddAtEnd_def Let_def b0_def[symmetric])
    then show ?thesis using m(3) by blast
  qed
qed

end
