(* ===== verification/Buffer_Iterators.thy ===== *)
theory Buffer_Iterators
  imports Buffer_Operations
begin

text \<open>
  Iterators of a buffer (network/model/buffer.h 824-1057, buffer.cc 831-1138): the operations that
  read and write integers, and two contracts for the code built from them.  \<open>writes f bs\<close> says that
  \<open>f\<close>, started in bytes that belong to the buffer alone, stores exactly \<open>bs\<close> and moves the iterator
  behind them; \<open>reads f n g\<close> says that \<open>f\<close> returns \<open>g\<close> of the next \<open>n\<close> bytes.
\<close>

subsection \<open>Integers\<close>

text \<open>The bytes of an integer, least significant first, and the integer of such bytes.\<close>

definition leBytes :: "nat \<Rightarrow> 'a::len word \<Rightarrow> u8 list" where
  "leBytes n w = map (\<lambda>k. ucast (drop_bit (8 * k) w)) [0..<n]"

definition of_le :: "u8 list \<Rightarrow> 'a::len word" where
  "of_le bs = foldr (\<lambda>b acc. push_bit 8 acc OR ucast b) bs 0"

definition of_be :: "u8 list \<Rightarrow> 'a::len word" where
  "of_be bs = foldl (\<lambda>acc b. push_bit 8 acc OR ucast b) 0 bs"

fun writeAll :: "u8 list \<Rightarrow> iter \<Rightarrow> bheap \<Rightarrow> (iter \<times> bheap) res" where
  "writeAll [] i s = Inr (i, s)"
| "writeAll (v # vs) i s = bindr (WriteU8 v i s) (\<lambda>(i, s). writeAll vs i s)"

definition WriteU16 :: "u16 \<Rightarrow> iter \<Rightarrow> bheap \<Rightarrow> (iter \<times> bheap) res" where
  "WriteU16 v = writeAll (leBytes 2 v)"

definition WriteU32 :: "u32 \<Rightarrow> iter \<Rightarrow> bheap \<Rightarrow> (iter \<times> bheap) res" where
  "WriteU32 v = writeAll (leBytes 4 v)"

definition WriteU64 :: "u64 \<Rightarrow> iter \<Rightarrow> bheap \<Rightarrow> (iter \<times> bheap) res" where
  "WriteU64 v = writeAll (leBytes 8 v)"

definition writeHton :: "u8 list \<Rightarrow> iter \<Rightarrow> bheap \<Rightarrow> (iter \<times> bheap) res" where
  "writeHton bs i s =
     (let n = of_nat (length bs) in
      if \<not> CheckNoZero (it_current i) (it_current i + n) i then Inl Assert
      else
        bindr (pokeM (it_data i) (unat (if it_current i + n \<le> it_zeroStart i then it_current i else behind i)) bs s) (\<lambda>s.
        Inr (i\<lparr>it_current := it_current i + n\<rparr>, s)))"

definition WriteHtonU16 :: "u16 \<Rightarrow> iter \<Rightarrow> bheap \<Rightarrow> (iter \<times> bheap) res" where
  "WriteHtonU16 v = writeHton (rev (leBytes 2 v))"

definition WriteHtonU32 :: "u32 \<Rightarrow> iter \<Rightarrow> bheap \<Rightarrow> (iter \<times> bheap) res" where
  "WriteHtonU32 v = writeHton (rev (leBytes 4 v))"

definition readLe :: "nat \<Rightarrow> iter \<Rightarrow> bheap \<Rightarrow> (iter \<times> 'a::len word) res" where
  "readLe n i s = bindr (ReadBytes n i s) (\<lambda>(i, bs). Inr (i, of_le bs))"

definition ReadU16 :: "iter \<Rightarrow> bheap \<Rightarrow> (iter \<times> u16) res" where "ReadU16 = readLe 2"
definition ReadU32 :: "iter \<Rightarrow> bheap \<Rightarrow> (iter \<times> u32) res" where "ReadU32 = readLe 4"
definition ReadU64 :: "iter \<Rightarrow> bheap \<Rightarrow> (iter \<times> u64) res" where "ReadU64 = readLe 8"

definition readNtoh :: "nat \<Rightarrow> iter \<Rightarrow> bheap \<Rightarrow> (iter \<times> 'a::len word) res" where
  "readNtoh n i s =
     (if it_current i + of_nat n \<le> it_zeroStart i then
        bindr (peekM (it_data i) (unat (it_current i)) n s) (\<lambda>bs. Inr (i\<lparr>it_current := it_current i + of_nat n\<rparr>, of_be bs))
      else if it_current i \<ge> it_zeroEnd i then
        bindr (peekM (it_data i) (unat (behind i)) n s) (\<lambda>bs. Inr (i\<lparr>it_current := it_current i + of_nat n\<rparr>, of_be bs))
      else bindr (ReadBytes n i s) (\<lambda>(i, bs). Inr (i, of_be bs)))"

definition ReadNtohU16 :: "iter \<Rightarrow> bheap \<Rightarrow> (iter \<times> u16) res" where "ReadNtohU16 = readNtoh 2"
definition ReadNtohU32 :: "iter \<Rightarrow> bheap \<Rightarrow> (iter \<times> u32) res" where "ReadNtohU32 = readNtoh 4"

text \<open>The variants with a fixed byte order; those of 64 bits have no fast path.\<close>

definition WriteHtolsbU16 :: "u16 \<Rightarrow> iter \<Rightarrow> bheap \<Rightarrow> (iter \<times> bheap) res" where
  "WriteHtolsbU16 v = writeAll (leBytes 2 v)"

definition WriteHtolsbU32 :: "u32 \<Rightarrow> iter \<Rightarrow> bheap \<Rightarrow> (iter \<times> bheap) res" where
  "WriteHtolsbU32 v = writeAll (leBytes 4 v)"

definition WriteHtolsbU64 :: "u64 \<Rightarrow> iter \<Rightarrow> bheap \<Rightarrow> (iter \<times> bheap) res" where
  "WriteHtolsbU64 v = writeAll (leBytes 8 v)"

definition WriteHtonU64 :: "u64 \<Rightarrow> iter \<Rightarrow> bheap \<Rightarrow> (iter \<times> bheap) res" where
  "WriteHtonU64 v = writeAll (rev (leBytes 8 v))"

definition ReadLsbtohU16 :: "iter \<Rightarrow> bheap \<Rightarrow> (iter \<times> u16) res" where "ReadLsbtohU16 = readLe 2"
definition ReadLsbtohU32 :: "iter \<Rightarrow> bheap \<Rightarrow> (iter \<times> u32) res" where "ReadLsbtohU32 = readLe 4"
definition ReadLsbtohU64 :: "iter \<Rightarrow> bheap \<Rightarrow> (iter \<times> u64) res" where "ReadLsbtohU64 = readLe 8"

definition ReadNtohU64 :: "iter \<Rightarrow> bheap \<Rightarrow> (iter \<times> u64) res" where
  "ReadNtohU64 i s = bindr (ReadBytes 8 i s) (\<lambda>(i, bs). Inr (i, of_be bs))"

text \<open>Positions of an iterator.\<close>

definition GetDistanceFrom :: "iter \<Rightarrow> iter \<Rightarrow> u32 res" where
  "GetDistanceFrom o1 i =
     (if it_data i \<noteq> it_data o1 then Inl Assert
      else let diff = it_current i - it_current o1 in Inr (if sint diff < 0 then - diff else diff))"

definition IsEnd :: "iter \<Rightarrow> bool" where "IsEnd i \<longleftrightarrow> it_current i = it_dataEnd i"
definition IsStart :: "iter \<Rightarrow> bool" where "IsStart i \<longleftrightarrow> it_current i = it_dataStart i"

lemma length_leBytes [simp]: "length (leBytes n w) = n"
  by (simp add: leBytes_def)

lemma bit_of_le:
  "bit (of_le bs :: 'a::len word) k \<longleftrightarrow> k < LENGTH('a) \<and> k div 8 < length bs \<and> bit (bs ! (k div 8)) (k mod 8)"
proof (induction bs arbitrary: k)
  case Nil
  then show ?case by (simp add: of_le_def)
next
  case (Cons b bs)
  have e: "(of_le (b # bs) :: 'a word) = push_bit 8 (of_le bs) OR ucast b" by (simp add: of_le_def)
  show ?case
  proof (cases "k < 8")
    case True
    then show ?thesis by (simp add: e bit_or_iff bit_push_bit_iff bit_ucast_iff)
  next
    case False
    then have "k div 8 = Suc ((k - 8) div 8)" "k mod 8 = (k - 8) mod 8" by (simp_all add: le_div_geq le_mod_geq)
    moreover have "\<not> bit b k" using False by (auto dest: bit_imp_le_length)
    ultimately show ?thesis using False Cons[of "k - 8"]
      by (auto simp: e bit_or_iff bit_push_bit_iff bit_ucast_iff)
  qed
qed

lemma of_le_leBytes:
  assumes "8 * n = LENGTH('a)"
  shows "of_le (leBytes n w) = (w :: 'a::len word)"
proof (rule bit_word_eqI)
  fix k assume k: "k < LENGTH('a)"
  then have "k div 8 < n" using assms by (simp add: div_less_iff_less_mult)
  then show "bit (of_le (leBytes n w) :: 'a word) k = bit w k"
    using k by (simp add: bit_of_le leBytes_def bit_ucast_iff bit_drop_bit_eq)
qed

lemma of_be_rev: "of_be (rev bs) = of_le bs"
  by (simp add: of_be_def of_le_def foldl_conv_foldr)

lemma int_decode [simp]:
  "of_le (leBytes 2 (a :: u16)) = a" "of_le (leBytes 4 (b :: u32)) = b" "of_le (leBytes 8 (c :: u64)) = c"
  "of_be (rev (leBytes 2 a)) = a" "of_be (rev (leBytes 4 b)) = b"
  by (simp_all add: of_be_rev of_le_leBytes)

subsection \<open>Positions\<close>

definition iter_at :: "buf \<Rightarrow> nat \<Rightarrow> iter" where
  "iter_at b k = (iter_Construct b)\<lparr>it_current := bf_start b + of_nat k\<rparr>"

lemma iter_at_fields [simp]:
  "it_zeroStart (iter_at b k) = bf_zeroAreaStart b" "it_zeroEnd (iter_at b k) = bf_zeroAreaEnd b" "it_dataStart (iter_at b k) = bf_start b"
  "it_dataEnd (iter_at b k) = bf_end b" "it_current (iter_at b k) = bf_start b + of_nat k" "it_data (iter_at b k) = bf_data b"
  by (simp_all add: iter_at_def iter_Construct_def)

lemma iter_at_0: "Begin b = iter_at b 0"
  by (simp add: Begin_def iter_at_def)

lemma iter_at_add [simp]: "(iter_at b k)\<lparr>it_current := bf_start b + of_nat k + of_nat n\<rparr> = iter_at b (k + n)"
  by (simp add: iter_at_def add.assoc)

lemma iter_at_word: "(iter_at b k)\<lparr>it_current := bf_start b + of_nat k + n\<rparr> = iter_at b (k + unat n)"
  by (simp add: iter_at_def add.assoc)

lemma iter_at_Suc [simp]: "(iter_at b k)\<lparr>it_current := bf_start b + of_nat k + 1\<rparr> = iter_at b (Suc k)"
  by (simp add: iter_at_def add.assoc add.commute)

lemma unat_pos:
  assumes "wf_buf b" "k \<le> unat (bf_end b) - unat (bf_start b)"
  shows "unat (bf_start b + of_nat k) = unat (bf_start b) + k"
proof -
  note w = wf_nat(1-3)[OF assms(1)]
  have "unat (bf_start b) + k \<le> unat (bf_end b)" using assms(2) w by linarith
  then have "unat (bf_start b) + k < 2 ^ 32" by (rule le_less_trans) (rule unat_u32_bound)
  moreover then have "unat (of_nat k :: u32) = k" by (simp add: unat_of_nat)
  ultimately show ?thesis using unat_add_u32[of "bf_start b" "of_nat k"] by simp
qed

lemma unat_behind:
  assumes wf: "wf_buf b" and k: "k \<le> unat (bf_end b) - unat (bf_start b)" and ge: "unat (bf_zeroAreaEnd b) \<le> unat (bf_start b) + k"
  shows "unat (behind (iter_at b k)) = unat (bf_start b) + k - (unat (bf_zeroAreaEnd b) - unat (bf_zeroAreaStart b))"
proof -
  have "bf_zeroAreaEnd b - bf_zeroAreaStart b \<le> bf_start b + of_nat k"
    using unat_pos[OF wf k] wf_nat(4)[OF wf] ge by (simp add: word_le_nat_alt)
  from unat_minus_le[OF this] show ?thesis using unat_pos[OF wf k] wf_nat(4)[OF wf] by (simp add: behind_def)
qed

subsection \<open>Reading\<close>

definition reads :: "(iter \<Rightarrow> bheap \<Rightarrow> (iter \<times> 'x) res) \<Rightarrow> nat \<Rightarrow> (u8 list \<Rightarrow> 'x) \<Rightarrow> bool" where
  "reads f n g \<longleftrightarrow> (\<forall>s B b k. heap_ok s B \<and> b \<in># B \<and> k + n \<le> length (view s b)
     \<longrightarrow> f (iter_at b k) s = Inr (iter_at b (k + n), g (take n (drop k (view s b)))))"

lemma readsD:
  "reads f n g \<Longrightarrow> heap_ok s B \<Longrightarrow> b \<in># B \<Longrightarrow> k + n \<le> length (view s b)
   \<Longrightarrow> f (iter_at b k) s = Inr (iter_at b (k + n), g (take n (drop k (view s b))))"
  by (auto simp: reads_def)

lemma window_nth:
  assumes "a \<le> z" "z \<le> e" "z \<le> p" "p \<le> length xs" "k < (z - a) + (e - z) + (p - z)"
  shows "window a z e p xs ! k = (if a + k < z then xs ! (a + k) else if a + k < e then 0 else xs ! (a + k - (e - z)))"
proof -
  have "a + k - (e - z) = z + (k - (z - a) - (e - z))" if "e \<le> a + k" using assms that by linarith
  then show ?thesis using assms by (auto simp: window_def nth_append)
qed

lemma view_nth:
  assumes ok: "heap_ok s B" "b \<in># B" and k: "k < length (view s b)"
  shows "view s b ! k =
    (if unat (bf_start b) + k < unat (bf_zeroAreaStart b) then bytesOf s (bf_data b) ! (unat (bf_start b) + k)
     else if unat (bf_start b) + k < unat (bf_zeroAreaEnd b) then 0
     else bytesOf s (bf_data b) ! (unat (bf_start b) + k - (unat (bf_zeroAreaEnd b) - unat (bf_zeroAreaStart b))))"
proof -
  note v = view_length[OF ok] and w = wf_nat[OF view_length(3)[OF ok]]
  have "unat (bf_zeroAreaStart b) \<le> unat (GetInternalEnd b)" using w by linarith
  moreover have "k < (unat (bf_zeroAreaStart b) - unat (bf_start b)) + (unat (bf_zeroAreaEnd b) - unat (bf_zeroAreaStart b))
      + (unat (GetInternalEnd b) - unat (bf_zeroAreaStart b))" using k v(1) w by linarith
  ultimately show ?thesis unfolding view_def content_def using window_nth[OF w(1,2) _ v(2)] by blast
qed

lemma peekM_ok: "bh_data s d = Some D \<Longrightarrow> i + n \<le> length (bytesOf s d) \<Longrightarrow> peekM d i n s = Inr (take n (drop i (bytesOf s d)))"
  by (simp add: peekM_def bytesOf_Some)

lemma ReadU8_at:
  assumes ok: "heap_ok s B" "b \<in># B" and k: "k < length (view s b)"
  shows "ReadU8 (iter_at b k) s = Inr (iter_at b (Suc k), view s b ! k)"
proof -
  note v = view_length[OF ok] and w = wf_nat[OF view_length(3)[OF ok]]
  obtain D where D: "bh_data s (bf_data b) = Some D" using in_blkD[OF ok] by auto
  have kk: "k \<le> unat (bf_end b) - unat (bf_start b)" "unat (bf_start b) + k < unat (bf_end b)" using k v(1) w by linarith+
  note u = unat_pos[OF v(3) kk(1)]
  have one: "peekM (bf_data b) i 1 s = Inr [bytesOf s (bf_data b) ! i]" if "i < length (bytesOf s (bf_data b))" for i
    using peekM_ok[OF D, of i 1] that by (simp add: take_Suc hd_drop_conv_nth)
  have "PeekU8 (iter_at b k) s = Inr (view s b ! k)"
  proof (cases "unat (bf_start b) + k < unat (bf_zeroAreaStart b)")
    case True
    then have "unat (bf_start b) + k < length (bytesOf s (bf_data b))" using v(2) w by linarith
    then show ?thesis using True u kk one view_nth[OF ok k] by (simp add: PeekU8_def word_le_nat_alt word_less_nat_alt)
  next
    case False
    show ?thesis
    proof (cases "unat (bf_start b) + k < unat (bf_zeroAreaEnd b)")
      case True
      then show ?thesis using False u kk view_nth[OF ok k] by (simp add: PeekU8_def word_le_nat_alt word_less_nat_alt)
    next
      case far: False
      then have "unat (behind (iter_at b k)) = unat (bf_start b) + k - (unat (bf_zeroAreaEnd b) - unat (bf_zeroAreaStart b))"
        by (intro unat_behind[OF v(3) kk(1)]) simp
      moreover have "unat (bf_start b) + k - (unat (bf_zeroAreaEnd b) - unat (bf_zeroAreaStart b)) < length (bytesOf s (bf_data b))"
        using far v(2) w kk by linarith
      ultimately show ?thesis using False far u kk one view_nth[OF ok k]
        by (simp add: PeekU8_def word_le_nat_alt word_less_nat_alt)
    qed
  qed
  then show ?thesis by (simp add: ReadU8_def)
qed

lemma reads_bytes: "reads (ReadBytes n) n (\<lambda>bs. bs)"
proof -
  have "ReadBytes n (iter_at b k) s = Inr (iter_at b (k + n), take n (drop k (view s b)))"
    if "heap_ok s B" "b \<in># B" "k + n \<le> length (view s b)" for s B b k
    using that(3)
  proof (induction n arbitrary: k)
    case (Suc n)
    then show ?case using ReadU8_at[OF that(1,2), of k] Suc.IH[of "Suc k"]
      by (simp add: take_Suc hd_drop_conv_nth tl_drop drop_Suc)
  qed simp
  then show ?thesis by (auto simp: reads_def)
qed

lemma reads_U8: "reads ReadU8 1 hd"
  by (auto simp: reads_def ReadU8_at hd_drop_conv_nth take_Suc)

lemma reads_map: "reads f n g \<Longrightarrow> reads (\<lambda>i s. bindr (f i s) (\<lambda>(i, x). Inr (i, h x))) n (\<lambda>bs. h (g bs))"
  by (auto simp: reads_def)

lemma reads_le: "reads (readLe n) n of_le"
  using reads_map[OF reads_bytes, where h = of_le] unfolding readLe_def .

text \<open>The two fast paths of the source read the same bytes as the slow one.\<close>

lemma view_slice_front:
  assumes ok: "heap_ok s B" "b \<in># B" and k: "unat (bf_start b) + k + n \<le> unat (bf_zeroAreaStart b)"
  shows "take n (drop (unat (bf_start b) + k) (bytesOf s (bf_data b))) = take n (drop k (view s b))"
proof (rule nth_equalityI)
  note v = view_length[OF ok] and w = wf_nat[OF view_length(3)[OF ok]]
  have l: "unat (bf_start b) + k + n \<le> length (bytesOf s (bf_data b))" "k + n \<le> length (view s b)" using k v w by linarith+
  then show "length (take n (drop (unat (bf_start b) + k) (bytesOf s (bf_data b)))) = length (take n (drop k (view s b)))" by simp
  fix j assume "j < length (take n (drop (unat (bf_start b) + k) (bytesOf s (bf_data b))))"
  then have "j < n" by simp
  then show "take n (drop (unat (bf_start b) + k) (bytesOf s (bf_data b))) ! j = take n (drop k (view s b)) ! j"
    using l k view_nth[OF ok, of "k + j"] by (simp add: add.assoc)
qed

lemma view_slice_rear:
  assumes ok: "heap_ok s B" "b \<in># B" and k: "unat (bf_zeroAreaEnd b) \<le> unat (bf_start b) + k" "k + n \<le> length (view s b)"
  defines "i \<equiv> unat (bf_start b) + k - (unat (bf_zeroAreaEnd b) - unat (bf_zeroAreaStart b))"
  shows "i + n \<le> length (bytesOf s (bf_data b))" "take n (drop i (bytesOf s (bf_data b))) = take n (drop k (view s b))"
proof -
  note v = view_length[OF ok] and w = wf_nat[OF view_length(3)[OF ok]]
  show l: "i + n \<le> length (bytesOf s (bf_data b))" using k v w unfolding i_def by linarith
  show "take n (drop i (bytesOf s (bf_data b))) = take n (drop k (view s b))"
  proof (rule nth_equalityI)
    show "length (take n (drop i (bytesOf s (bf_data b)))) = length (take n (drop k (view s b)))" using l k by simp
    fix j assume "j < length (take n (drop i (bytesOf s (bf_data b))))"
    then have j: "j < n" by simp
    have e: "unat (bf_start b) + (k + j) - (unat (bf_zeroAreaEnd b) - unat (bf_zeroAreaStart b)) = i + j"
      unfolding i_def using k(1) w by linarith
    have "\<not> unat (bf_start b) + (k + j) < unat (bf_zeroAreaStart b)" "\<not> unat (bf_start b) + (k + j) < unat (bf_zeroAreaEnd b)"
      using k(1) w by linarith+
    then have "view s b ! (k + j) = bytesOf s (bf_data b) ! (i + j)" using view_nth[OF ok, of "k + j"] j k(2) e by simp
    then show "take n (drop i (bytesOf s (bf_data b))) ! j = take n (drop k (view s b)) ! j" using l j k(2) by simp
  qed
qed

lemma reads_ntoh: "reads (readNtoh n) n of_be"
proof -
  have "(readNtoh n (iter_at b k) s :: (iter \<times> 'a word) res) = Inr (iter_at b (k + n), of_be (take n (drop k (view s b))))"
    if ok: "heap_ok s B" "b \<in># B" and k: "k + n \<le> length (view s b)" for s B b k
  proof -
    note v = view_length[OF ok] and w = wf_nat[OF view_length(3)[OF ok]]
    obtain D where D: "bh_data s (bf_data b) = Some D" using in_blkD[OF ok] by auto
    have kk: "k \<le> unat (bf_end b) - unat (bf_start b)" "k + n \<le> unat (bf_end b) - unat (bf_start b)" using k v(1) w by linarith+
    note u = unat_pos[OF v(3) kk(1)] and u2 = unat_pos[OF v(3) kk(2)]
    have u2': "unat (bf_start b + of_nat k + of_nat n) = unat (bf_start b) + k + n" using u2 by (simp add: add.assoc)
    consider (front) "unat (bf_start b) + k + n \<le> unat (bf_zeroAreaStart b)"
      | (rear) "\<not> unat (bf_start b) + k + n \<le> unat (bf_zeroAreaStart b)" "unat (bf_zeroAreaEnd b) \<le> unat (bf_start b) + k"
      | (mid) "\<not> unat (bf_start b) + k + n \<le> unat (bf_zeroAreaStart b)" "\<not> unat (bf_zeroAreaEnd b) \<le> unat (bf_start b) + k"
      by blast
    then show ?thesis
    proof cases
      case front
      then have "unat (bf_start b) + k + n \<le> length (bytesOf s (bf_data b))" using v(2) w by linarith
      then show ?thesis using front u u2' peekM_ok[OF D, of "unat (bf_start b) + k" n] view_slice_front[OF ok front]
        by (simp add: readNtoh_def word_le_nat_alt)
    next
      case rear
      note r = view_slice_rear[OF ok rear(2) k]
      show ?thesis using rear u u2' unat_behind[OF v(3) kk(1) rear(2)] peekM_ok[OF D r(1)] r(2)
        by (simp add: readNtoh_def word_le_nat_alt)
    next
      case mid
      then show ?thesis using u u2' readsD[OF reads_bytes ok k] by (simp add: readNtoh_def word_le_nat_alt)
    qed
  qed
  then show ?thesis by (auto simp: reads_def)
qed

lemma reads_seq:
  assumes "reads f n g" "\<And>x. reads (f' x) m (g' x)"
  shows "reads (\<lambda>i s. bindr (f i s) (\<lambda>(i, x). f' x i s)) (n + m) (\<lambda>bs. g' (g (take n bs)) (drop n bs))"
proof -
  have cut: "take m (drop (k + n) xs) = drop n (take (n + m) (drop k xs))" "take n (drop k xs) = take n (take (n + m) (drop k xs))" for k and xs :: "u8 list"
    by (simp_all add: drop_take add.commute)
  show ?thesis unfolding reads_def
  proof (intro allI impI, elim conjE)
    fix s B b k assume ok: "heap_ok s B" "b \<in># B" and k: "k + (n + m) \<le> length (view s b)"
    have "f (iter_at b k) s = Inr (iter_at b (k + n), g (take n (drop k (view s b))))"
      by (rule readsD[OF assms(1) ok]) (use k in simp)
    moreover have "f' x (iter_at b (k + n)) s = Inr (iter_at b (k + n + m), g' x (take m (drop (k + n) (view s b))))" for x
      by (rule readsD[OF assms(2) ok]) (use k in simp)
    ultimately show "bindr (f (iter_at b k) s) (\<lambda>(i, x). f' x i s)
        = Inr (iter_at b (k + (n + m)), g' (g (take n (take (n + m) (drop k (view s b))))) (drop n (take (n + m) (drop k (view s b)))))"
      unfolding cut by (simp add: add.assoc)
  qed
qed

lemma reads_return: "reads (\<lambda>i s. Inr (i, x)) 0 (\<lambda>_. x)"
  by (simp add: reads_def)

lemma reads_int:
  "reads ReadU8 1 hd" "reads ReadU16 2 of_le" "reads ReadU32 4 of_le" "reads ReadU64 8 of_le"
  "reads ReadNtohU16 2 of_be" "reads ReadNtohU32 4 of_be"
  by (simp_all only: reads_U8 ReadU16_def ReadU32_def ReadU64_def ReadNtohU16_def ReadNtohU32_def reads_le reads_ntoh)

subsection \<open>Writing\<close>

definition writes :: "(iter \<Rightarrow> bheap \<Rightarrow> (iter \<times> bheap) res) \<Rightarrow> u8 list \<Rightarrow> bool" where
  "writes f bs \<longleftrightarrow> (\<forall>s b B n k. heap_ok s (add_mset b B) \<and> own_front B b n \<and> k + length bs \<le> n
     \<longrightarrow> (\<exists>s'. f (iter_at b k) s = Inr (iter_at b (k + length bs), s') \<and> heap_ok s' (add_mset b B)
           \<and> views_kept s s' B \<and> view s' b = poke k bs (view s b)))"

lemma writesD:
  assumes "writes f bs" "heap_ok s (add_mset b B)" "own_front B b n" "k + length bs \<le> n"
  shows "\<exists>s'. f (iter_at b k) s = Inr (iter_at b (k + length bs), s') \<and> heap_ok s' (add_mset b B)
           \<and> views_kept s s' B \<and> view s' b = poke k bs (view s b)"
  using assms unfolding writes_def by blast

lemma poke_poke:
  assumes "k + length bs + length cs \<le> length xs"
  shows "poke (k + length bs) cs (poke k bs xs) = poke k (bs @ cs) xs"
proof -
  have "poke k bs xs = take k xs @ bs @ drop (k + length bs) xs" by (simp add: poke_def)
  then show ?thesis using assms by (simp add: poke_def ac_simps)
qed

lemma own_front_room:
  assumes "heap_ok s (add_mset b B)" "own_front B b n"
  shows "n \<le> length (view s b)" "unat (bf_start b) + n \<le> unat (bf_zeroAreaStart b)" "wf_buf b"
proof -
  note v = view_length[OF assms(1), of b, simplified]
  show "unat (bf_start b) + n \<le> unat (bf_zeroAreaStart b)" "wf_buf b" using assms(2) v(3) by (simp_all add: own_front_def)
  then show "n \<le> length (view s b)" using v(1) wf_nat(2,3,6)[OF v(3)] by linarith
qed

lemma writes_seq:
  assumes "writes f bs" "writes g cs"
  shows "writes (\<lambda>i s. bindr (f i s) (\<lambda>(i, s). g i s)) (bs @ cs)"
  unfolding writes_def
proof (intro allI impI, elim conjE)
  fix s b B n k
  assume ok: "heap_ok s (add_mset b B)" and own: "own_front B b n" and k: "k + length (bs @ cs) \<le> n"
  obtain s1 where s1: "f (iter_at b k) s = Inr (iter_at b (k + length bs), s1)" "heap_ok s1 (add_mset b B)" "views_kept s s1 B"
    "view s1 b = poke k bs (view s b)"
    using writesD[OF assms(1) ok own, of k] k by auto
  moreover obtain s2 where "g (iter_at b (k + length bs)) s1 = Inr (iter_at b (k + length bs + length cs), s2)" "heap_ok s2 (add_mset b B)" "views_kept s1 s2 B"
    "view s2 b = poke (k + length bs) cs (view s1 b)"
    using writesD[OF assms(2) s1(2) own, of "k + length bs"] k by auto
  moreover have "poke (k + length bs) cs (poke k bs (view s b)) = poke k (bs @ cs) (view s b)"
    by (rule poke_poke) (use own_front_room(1)[OF ok own] k in simp)
  ultimately show "\<exists>s'. bindr (f (iter_at b k) s) (\<lambda>(i, s). g i s) = Inr (iter_at b (k + length (bs @ cs)), s')
      \<and> heap_ok s' (add_mset b B) \<and> views_kept s s' B \<and> view s' b = poke k (bs @ cs) (view s b)"
    using views_kept_trans by (auto simp: add.assoc)
qed

lemma writes_return: "writes (\<lambda>i s. Inr (i, s)) []"
  by (simp add: writes_def views_kept_def poke_def)

lemma writes_poke:
  assumes "\<And>b k s. wf_buf b \<Longrightarrow> unat (bf_start b + of_nat k) = unat (bf_start b) + k \<Longrightarrow>
      unat (bf_start b) + k + length bs \<le> unat (bf_zeroAreaStart b) \<Longrightarrow> unat (bf_start b + of_nat k + of_nat (length bs)) = unat (bf_start b) + k + length bs \<Longrightarrow>
      f (iter_at b k) s = bindr (pokeM (bf_data b) (unat (bf_start b) + k) bs s) (\<lambda>s. Inr (iter_at b (k + length bs), s))"
  shows "writes f bs"
  unfolding writes_def
proof (intro allI impI, elim conjE)
  fix s b B n k
  assume ok: "heap_ok s (add_mset b B)" and own: "own_front B b n" and k: "k + length bs \<le> n"
  note r = own_front_room[OF ok own] and w = wf_nat(1-3)[OF own_front_room(3)[OF ok own]]
  have kk: "k \<le> unat (bf_end b) - unat (bf_start b)" "k + length bs \<le> unat (bf_end b) - unat (bf_start b)" using r(2) k w by linarith+
  have "unat (bf_start b) + k + length bs \<le> unat (bf_zeroAreaStart b)" using r(2) k by linarith
  moreover have "unat (bf_start b + of_nat k + of_nat (length bs)) = unat (bf_start b) + k + length bs"
    using unat_pos[OF r(3) kk(2)] by (simp add: add.assoc)
  ultimately have f: "f (iter_at b k) s = bindr (pokeM (bf_data b) (unat (bf_start b) + k) bs s) (\<lambda>s. Inr (iter_at b (k + length bs), s))"
    using assms[OF r(3) unat_pos[OF r(3) kk(1)]] by blast
  show "\<exists>s'. f (iter_at b k) s = Inr (iter_at b (k + length bs), s') \<and> heap_ok s' (add_mset b B)
      \<and> views_kept s s' B \<and> view s' b = poke k bs (view s b)"
    using write_front[OF ok own, of "unat (bf_start b) + k" bs] k f by auto
qed

lemma writes_U8: "writes (WriteU8 v) [v]"
proof (rule writes_poke, goal_cases)
  case (1 b k s)
  then show ?case using wf_nat(2,3)[OF 1(1)] by (simp add: WriteU8_def iter_Check_def word_le_nat_alt word_less_nat_alt)
qed

lemma writes_all: "writes (writeAll bs) bs"
proof (induction bs)
  case Nil
  then show ?case using writes_return by (simp add: fun_eq_iff writes_def)
next
  case (Cons v bs)
  have "writeAll (v # bs) = (\<lambda>i s. bindr (WriteU8 v i s) (\<lambda>(i, s). writeAll bs i s))" by (simp add: fun_eq_iff)
  then show ?case using writes_seq[OF writes_U8[of v] Cons] by simp
qed

lemma writes_hton: "writes (writeHton bs) bs"
proof (rule writes_poke, goal_cases)
  case (1 b k s)
  then show ?case using wf_nat(2,3)[OF 1(1)]
    by (simp add: writeHton_def CheckNoZero_def word_le_nat_alt word_less_nat_alt Let_def)
qed

lemma writes_raw: "length bs < 2 ^ 32 \<Longrightarrow> writes (WriteRaw bs) bs"
proof (rule writes_poke, goal_cases)
  case (1 b k s)
  then have "unat (of_nat (length bs) :: u32) = length bs" by (simp add: unat_of_nat)
  then show ?case using 1 wf_nat(2,3)[OF 1(2)]
    by (simp add: WriteRaw_def CheckNoZero_def word_le_nat_alt word_less_nat_alt Let_def)
qed

lemma writes_U8s: "writes (WriteU8s v n) (replicate (unat n) v)"
proof (rule writes_poke, goal_cases)
  case (1 b k s)
  then show ?case using wf_nat(2,3)[OF 1(1)]
    by (simp add: iter_at_word WriteU8s_def CheckNoZero_def word_le_nat_alt word_less_nat_alt)
qed

lemmas writes_int = writes_U8 writes_all[of "leBytes 2 (v :: u16)" for v, folded WriteU16_def]
  writes_all[of "leBytes 4 (v :: u32)" for v, folded WriteU32_def] writes_all[of "leBytes 8 (v :: u64)" for v, folded WriteU64_def]
  writes_hton[of "rev (leBytes 2 (v :: u16))" for v, folded WriteHtonU16_def] writes_hton[of "rev (leBytes 4 (v :: u32))" for v, folded WriteHtonU32_def]

text \<open>
  The contract of a \<^verbatim>\<open>Serialize\<close> function, which is called at the start of a buffer: the bytes it stores
  may depend on the size of the buffer.
\<close>

definition serializes :: "(iter \<Rightarrow> bheap \<Rightarrow> (iter \<times> bheap) res) \<Rightarrow> (u32 \<Rightarrow> u8 list) \<Rightarrow> bool" where
  "serializes ser e \<longleftrightarrow> (\<forall>s b B n. heap_ok s (add_mset b B) \<and> own_front B b n \<and> length (e (buf_GetSize b)) \<le> n
     \<longrightarrow> (\<exists>i s'. ser (Begin b) s = Inr (i, s') \<and> heap_ok s' (add_mset b B) \<and> views_kept s s' B
           \<and> view s' b = poke 0 (e (buf_GetSize b)) (view s b)))"

lemma serializesD:
  assumes "serializes ser e" "heap_ok s (add_mset b B)" "own_front B b n" "length (e (buf_GetSize b)) \<le> n"
  shows "\<exists>i s'. ser (Begin b) s = Inr (i, s') \<and> heap_ok s' (add_mset b B) \<and> views_kept s s' B
           \<and> view s' b = poke 0 (e (buf_GetSize b)) (view s b)"
  using assms unfolding serializes_def by blast

lemma writes_serializes:
  assumes "\<And>b s. ser (Begin b) s = f (buf_GetSize b) (Begin b) s" "\<And>z. writes (f z) (e z)"
  shows "serializes ser e"
proof -
  have "\<exists>i s'. ser (Begin b) s = Inr (i, s') \<and> heap_ok s' (add_mset b B) \<and> views_kept s s' B
      \<and> view s' b = poke 0 (e (buf_GetSize b)) (view s b)"
    if "heap_ok s (add_mset b B)" "own_front B b n" "length (e (buf_GetSize b)) \<le> n" for s b B n
    using writesD[OF assms(2) that(1,2), of 0 "buf_GetSize b"] that(3) assms(1)[of b s] by (auto simp: iter_at_0)
  then show ?thesis unfolding serializes_def by blast
qed

subsection \<open>Parsing\<close>

text \<open>
  \<open>parses f bs x\<close>: started where the buffer has the bytes \<open>bs\<close>, \<open>f\<close> moves the iterator behind them and
  returns \<open>x\<close>.
\<close>

definition parses :: "(iter \<Rightarrow> bheap \<Rightarrow> (iter \<times> 'x) res) \<Rightarrow> u8 list \<Rightarrow> 'x \<Rightarrow> bool" where
  "parses f bs x \<longleftrightarrow> (\<forall>s B b pre rest. heap_ok s B \<and> b \<in># B \<and> view s b = pre @ bs @ rest
     \<longrightarrow> f (iter_at b (length pre)) s = Inr (iter_at b (length pre + length bs), x))"

lemma parsesD:
  "parses f bs x \<Longrightarrow> heap_ok s B \<Longrightarrow> b \<in># B \<Longrightarrow> view s b = pre @ bs @ rest
   \<Longrightarrow> f (iter_at b (length pre)) s = Inr (iter_at b (length pre + length bs), x)"
  unfolding parses_def by blast

lemma parses_at_start:
  "parses f bs x \<Longrightarrow> heap_ok s B \<Longrightarrow> b \<in># B \<Longrightarrow> view s b = bs @ rest \<Longrightarrow> f (Begin b) s = Inr (iter_at b (length bs), x)"
  using parsesD[of f bs x s B b "[]" rest] by (simp add: iter_at_0)

lemma reads_parses: "reads f n g \<Longrightarrow> length bs = n \<Longrightarrow> g bs = x \<Longrightarrow> parses f bs x"
  by (auto simp: parses_def reads_def)

lemma parses_seq:
  assumes "parses f bs x" "parses (g x) cs y"
  shows "parses (\<lambda>i s. bindr (f i s) (\<lambda>(i, v). g v i s)) (bs @ cs) y"
  unfolding parses_def
proof (intro allI impI, elim conjE)
  fix s B b pre rest
  assume ok: "heap_ok s B" "b \<in># B" and v: "view s b = pre @ (bs @ cs) @ rest"
  show "bindr (f (iter_at b (length pre)) s) (\<lambda>(i, v). g v i s) = Inr (iter_at b (length pre + length (bs @ cs)), y)"
    using parsesD[OF assms(1) ok, of pre "cs @ rest"] parsesD[OF assms(2) ok, of "pre @ bs" rest] v by (simp add: add.assoc)
qed

lemma parses_map: "parses f bs x \<Longrightarrow> parses (\<lambda>i s. bindr (f i s) (\<lambda>(i, v). Inr (i, h v))) bs (h x)"
  unfolding parses_def by (metis (mono_tags, lifting) bindr_simps(2) case_prod_conv)

lemma parses_return: "parses (\<lambda>i s. Inr (i, x)) [] x"
  by (simp add: parses_def)

lemma parses_eq: "parses f bs x \<Longrightarrow> bs = cs \<Longrightarrow> x = y \<Longrightarrow> parses f cs y"
  by simp

lemma Next_at:
  assumes ok: "heap_ok s B" "b \<in># B" and k: "k + unat n \<le> length (view s b)"
  shows "Next n (iter_at b k) = Inr (iter_at b (k + unat n))"
proof -
  note v = view_length[OF ok] and w = wf_nat[OF view_length(3)[OF ok]]
  have kk: "k + unat n \<le> unat (bf_end b) - unat (bf_start b)" using k v(1) w by linarith
  have "unat (bf_start b + of_nat k + n) = unat (bf_start b) + (k + unat n)"
    using unat_pos[OF v(3) kk] by (simp add: add.assoc)
  moreover have "unat (bf_start b) + (k + unat n) \<le> unat (bf_end b)" using kk w(1-3) by linarith
  ultimately show ?thesis by (simp add: Next_def word_le_nat_alt iter_at_word)
qed

definition skipBytes :: "u32 \<Rightarrow> iter \<Rightarrow> bheap \<Rightarrow> (iter \<times> unit) res" where
  "skipBytes n i s = bindr (Next n i) (\<lambda>i. Inr (i, ()))"

lemma parses_skip: "length bs = unat n \<Longrightarrow> parses (skipBytes n) bs ()"
  unfolding parses_def skipBytes_def by (metis (no_types, lifting) Next_at bindr_simps(2) le_add1 length_append add.assoc)

lemma parses_int:
  "parses ReadU8 [a] a" "parses ReadU16 (leBytes 2 b) b" "parses ReadU32 (leBytes 4 c) c" "parses ReadU64 (leBytes 8 d) d"
  "parses ReadNtohU16 (rev (leBytes 2 b)) b" "parses ReadNtohU32 (rev (leBytes 4 c)) c"
  by (rule reads_int[THEN reads_parses], simp, simp)+

text \<open>The variants read what they wrote.\<close>

lemma writes_fixed:
  "writes (WriteHtolsbU16 a) (leBytes 2 a)" "writes (WriteHtolsbU32 b) (leBytes 4 b)" "writes (WriteHtolsbU64 c) (leBytes 8 c)"
  "writes (WriteHtonU64 c) (rev (leBytes 8 c))"
  by (simp_all add: WriteHtolsbU16_def WriteHtolsbU32_def WriteHtolsbU64_def WriteHtonU64_def writes_all)

lemma parses_fixed:
  "parses ReadLsbtohU16 (leBytes 2 a) a" "parses ReadLsbtohU32 (leBytes 4 b) b" "parses ReadLsbtohU64 (leBytes 8 c) c"
  "parses ReadNtohU64 (rev (leBytes 8 c)) c"
proof -
  show "parses ReadLsbtohU16 (leBytes 2 a) a" "parses ReadLsbtohU32 (leBytes 4 b) b" "parses ReadLsbtohU64 (leBytes 8 c) c"
    unfolding ReadLsbtohU16_def ReadLsbtohU32_def ReadLsbtohU64_def by (rule reads_parses[OF reads_le], simp, simp)+
  show "parses ReadNtohU64 (rev (leBytes 8 c)) c"
    unfolding ReadNtohU64_def
    using parses_map[OF reads_parses[OF reads_bytes _ refl, of "rev (leBytes 8 c)" 8], of "of_be :: u8 list \<Rightarrow> u64"]
    by (simp add: of_be_rev of_le_leBytes)
qed

end
