(* ===== verification/Packet_Store.thy ===== *)
theory Packet_Store
  imports Buffer_Iterators
begin

text \<open>
  Packets (network/model/packet.cc), their bytes only: byte tags, packet tags and the metadata for
  printing are left out.  A state is the heap of blocks and the packets that exist, by number.  The
  specification is a map from packets to lists of bytes: each operation changes the list of its own
  packet only, whatever blocks the packets share.
\<close>

record pstate =
  ps_heap :: bheap
  ps_pkts :: "nat \<rightharpoonup> buf"

definition getP :: "nat \<Rightarrow> pstate \<Rightarrow> buf res" where
  "getP h s = (case ps_pkts s h of None \<Rightarrow> Inl NullDeref | Some b \<Rightarrow> Inr b)"

definition putP :: "nat \<Rightarrow> buf \<Rightarrow> bheap \<Rightarrow> pstate \<Rightarrow> pstate" where
  "putP h b H s = s\<lparr>ps_heap := H, ps_pkts := (ps_pkts s)(h \<mapsto> b)\<rparr>"

definition Packet_new :: "nat \<Rightarrow> u32 \<Rightarrow> pstate \<Rightarrow> pstate res" where
  "Packet_new h n s = bindr (Buffer_Initialize n (ps_heap s)) (\<lambda>(b, H). Inr (putP h b H s))"

definition Packet_Copy :: "nat \<Rightarrow> nat \<Rightarrow> pstate \<Rightarrow> pstate res" where
  "Packet_Copy h k s = bindr (getP h s) (\<lambda>b. bindr (Buffer_copy b (ps_heap s)) (\<lambda>(b, H). Inr (putP k b H s)))"

definition Packet_destroy :: "nat \<Rightarrow> pstate \<Rightarrow> pstate res" where
  "Packet_destroy h s =
     bindr (getP h s) (\<lambda>b. bindr (Buffer_destroy b (ps_heap s)) (\<lambda>H. Inr (s\<lparr>ps_heap := H, ps_pkts := (ps_pkts s)(h := None)\<rparr>)))"

definition Packet_CreateFragment :: "nat \<Rightarrow> nat \<Rightarrow> u32 \<Rightarrow> u32 \<Rightarrow> pstate \<Rightarrow> pstate res" where
  "Packet_CreateFragment h k start len s =
     bindr (getP h s) (\<lambda>b.
     bindr (buf_CreateFragment start len b (ps_heap s)) (\<lambda>(tmp, H).
     if \<not> buf_GetSize b \<ge> start + len then Inl Assert
     else
       bindr (Buffer_copy tmp H) (\<lambda>(b', H).
       bindr (Buffer_destroy tmp H) (\<lambda>H. Inr (putP k b' H s)))))"

definition addHeader :: "u32 \<Rightarrow> (iter \<Rightarrow> bheap \<Rightarrow> (iter \<times> bheap) res) \<Rightarrow> buf \<Rightarrow> bheap \<Rightarrow> (buf \<times> bheap) res" where
  "addHeader n ser b H = bindr (AddAtStart n b H) (\<lambda>(b, H). bindr (ser (Begin b) H) (\<lambda>(_, H). Inr (b, H)))"

definition Packet_AddHeader :: "nat \<Rightarrow> u32 \<Rightarrow> (iter \<Rightarrow> bheap \<Rightarrow> (iter \<times> bheap) res) \<Rightarrow> pstate \<Rightarrow> pstate res" where
  "Packet_AddHeader h n ser s = bindr (getP h s) (\<lambda>b. bindr (addHeader n ser b (ps_heap s)) (\<lambda>(b, H). Inr (putP h b H s)))"

definition Packet_AddPaddingAtEnd :: "nat \<Rightarrow> u32 \<Rightarrow> pstate \<Rightarrow> pstate res" where
  "Packet_AddPaddingAtEnd h n s = bindr (getP h s) (\<lambda>b. bindr (AddAtEnd n b (ps_heap s)) (\<lambda>(b, H). Inr (putP h b H s)))"

definition Packet_RemoveAtEnd :: "nat \<Rightarrow> u32 \<Rightarrow> pstate \<Rightarrow> pstate res" where
  "Packet_RemoveAtEnd h n s = bindr (getP h s) (\<lambda>b. Inr (putP h (RemoveAtEnd n b) (ps_heap s) s))"

definition Packet_RemoveAtStart :: "nat \<Rightarrow> u32 \<Rightarrow> pstate \<Rightarrow> pstate res" where
  "Packet_RemoveAtStart h n s = bindr (getP h s) (\<lambda>b. bindr (RemoveAtStart n b) (\<lambda>b. Inr (putP h b (ps_heap s) s)))"

text \<open>The operations as one type; \<open>ser\<close> is the \<^verbatim>\<open>Serialize\<close> function of a header.\<close>

datatype pop =
    New nat u32
  | Copy nat nat
  | Destroy nat
  | Fragment nat nat u32 u32
  | AddHeader nat u32 "iter \<Rightarrow> bheap \<Rightarrow> (iter \<times> bheap) res"
  | AddPaddingAtEnd nat u32
  | DropEnd nat u32
  | DropStart nat u32

fun pktOp :: "pop \<Rightarrow> pstate \<Rightarrow> pstate res" where
  "pktOp (New h n) s = Packet_new h n s"
| "pktOp (Copy h k) s = Packet_Copy h k s"
| "pktOp (Destroy h) s = Packet_destroy h s"
| "pktOp (Fragment h k start len) s = Packet_CreateFragment h k start len s"
| "pktOp (AddHeader h n ser) s = Packet_AddHeader h n ser s"
| "pktOp (AddPaddingAtEnd h n) s = Packet_AddPaddingAtEnd h n s"
| "pktOp (DropEnd h n) s = Packet_RemoveAtEnd h n s"
| "pktOp (DropStart h n) s = Packet_RemoveAtStart h n s"

text \<open>The program starts without packets; the contents of fresh memory are arbitrary.\<close>

definition pkt_init :: "(nat \<Rightarrow> nat \<Rightarrow> u8) \<Rightarrow> pstate" where
  "pkt_init fill =
     \<lparr>ps_heap = \<lparr>bh_data = Map.empty, bh_next = 0, bh_fill = fill, g_freeList = None, g_bufMaxSize = 0, g_recommendedStart = 0\<rparr>,
      ps_pkts = Map.empty\<rparr>"

subsection \<open>The specification\<close>

inductive pkt_spec :: "pop \<Rightarrow> (nat \<rightharpoonup> u8 list) \<Rightarrow> (nat \<rightharpoonup> u8 list) \<Rightarrow> bool" where
  new: "pkt_spec (New h n) a (a(h \<mapsto> replicate (unat n) 0))"
| copy: "a h = Some xs \<Longrightarrow> pkt_spec (Copy h k) a (a(k \<mapsto> xs))"
| destroy: "pkt_spec (Destroy h) a (a(h := None))"
| fragment: "a h = Some xs \<Longrightarrow> pkt_spec (Fragment h k start len) a (a(k \<mapsto> take (unat len) (drop (unat start) xs)))"
| addHeader: "a h = Some xs \<Longrightarrow> serializes ser e \<Longrightarrow> bs = e (of_nat (length xs) + n) \<Longrightarrow> length bs + length rest = unat n
    \<Longrightarrow> pkt_spec (AddHeader h n ser) a (a(h \<mapsto> bs @ rest @ xs))"
| addPadding: "a h = Some xs \<Longrightarrow> length pad = unat n \<Longrightarrow> pkt_spec (AddPaddingAtEnd h n) a (a(h \<mapsto> xs @ pad))"
| dropEnd: "a h = Some xs \<Longrightarrow> pkt_spec (DropEnd h n) a (a(h \<mapsto> take (length xs - unat n) xs))"
| dropStart: "a h = Some xs \<Longrightarrow> pkt_spec (DropStart h n) a (a(h \<mapsto> drop (unat n) xs))"

definition packets :: "pstate \<Rightarrow> nat \<rightharpoonup> u8 list" where
  "packets s h = map_option (view (ps_heap s)) (ps_pkts s h)"

text \<open>
  When an operation may be called: the packets it names exist or are new, there are fewer than
  \<open>2 ^ 32\<close> packets, no 32-bit offset overflows, a fragment lies within its packet, and a header writes
  at most the bytes it asked for.
\<close>

definition room :: "buf \<Rightarrow> u32 \<Rightarrow> bool" where
  "room b n \<longleftrightarrow> unat (bf_end b) + unat n + 101 < 2 ^ 32"

fun enabled :: "pop \<Rightarrow> pstate \<Rightarrow> bool" where
  "enabled (New h n) s \<longleftrightarrow> ps_pkts s h = None \<and> unat (g_recommendedStart (ps_heap s)) + unat n < 2 ^ 32"
| "enabled (Copy h k) s \<longleftrightarrow> ps_pkts s h \<noteq> None \<and> ps_pkts s k = None \<and> Suc (card (dom (ps_pkts s))) < 2 ^ 32"
| "enabled (Destroy h) s \<longleftrightarrow> ps_pkts s h \<noteq> None"
| "enabled (Fragment h k start len) s \<longleftrightarrow> ps_pkts s k = None \<and> Suc (Suc (card (dom (ps_pkts s)))) < 2 ^ 32
     \<and> (\<exists>b. ps_pkts s h = Some b \<and> unat start + unat len \<le> unat (buf_GetSize b))"
| "enabled (AddHeader h n ser) s \<longleftrightarrow> (\<exists>b. ps_pkts s h = Some b \<and> room b n) \<and> (\<exists>e. serializes ser e \<and> (\<forall>z. length (e z) \<le> unat n))"
| "enabled (AddPaddingAtEnd h n) s \<longleftrightarrow> (\<exists>b. ps_pkts s h = Some b \<and> room b n)"
| "enabled (DropEnd h n) s \<longleftrightarrow> ps_pkts s h \<noteq> None"
| "enabled (DropStart h n) s \<longleftrightarrow> (\<exists>b. ps_pkts s h = Some b \<and> unat (bf_start b) + unat n < 2 ^ 32)"

inductive pkt_reach :: "(nat \<Rightarrow> nat \<Rightarrow> u8) \<Rightarrow> pstate \<Rightarrow> bool" for fill where
  init: "pkt_reach fill (pkt_init fill)"
| step: "pkt_reach fill s \<Longrightarrow> enabled op s \<Longrightarrow> pktOp op s = Inr s' \<Longrightarrow> pkt_reach fill s'"

subsection \<open>The packets that exist\<close>

definition livePkts :: "(nat \<rightharpoonup> buf) \<Rightarrow> buf multiset" where
  "livePkts m = image_mset (\<lambda>h. the (m h)) (mset_set (dom m))"

lemma live_upd:
  assumes "finite (dom m)" "m h = None"
  shows "livePkts (m(h \<mapsto> b)) = add_mset b (livePkts m)"
proof -
  have h: "h \<notin> dom m" using assms(2) by auto
  have "image_mset (\<lambda>k. the ((m(h \<mapsto> b)) k)) (mset_set (dom m)) = image_mset (\<lambda>k. the (m k)) (mset_set (dom m))"
    using assms(1) h by (intro image_mset_cong) auto
  then show ?thesis using assms(1) h by (simp add: livePkts_def)
qed

lemma live_remove:
  assumes "finite (dom m)" "m h = Some b"
  shows "livePkts m = add_mset b (livePkts (m(h := None)))"
proof -
  have "m = (m(h := None))(h \<mapsto> b)" using assms(2) by (auto simp: fun_eq_iff)
  then show ?thesis using live_upd[of "m(h := None)" h b] assms(1) by simp
qed

lemma live_replace:
  assumes "finite (dom m)"
  shows "livePkts (m(h \<mapsto> b)) = add_mset b (livePkts (m(h := None)))"
  using live_upd[of "m(h := None)" h b] assms by simp

lemma in_live: "finite (dom m) \<Longrightarrow> m h = Some b \<Longrightarrow> b \<in># livePkts m"
  by (simp add: live_remove)

lemma size_live: "size (livePkts m) = card (dom m)"
  by (simp add: livePkts_def)

definition store_ok :: "pstate \<Rightarrow> bool" where
  "store_ok s \<longleftrightarrow> finite (dom (ps_pkts s)) \<and> heap_ok (ps_heap s) (livePkts (ps_pkts s))"

text \<open>An operation that replaces the buffer of one packet and keeps the views of the others.\<close>

lemma replace_ok:
  assumes fin: "finite (dom m)" and ok: "heap_ok H' (add_mset b' (livePkts (m(h := None))))" and kept: "views_kept H H' (livePkts (m(h := None)))"
  defines "s' \<equiv> \<lparr>ps_heap = H', ps_pkts = m(h \<mapsto> b')\<rparr>"
  shows "store_ok s' \<and> packets s' = (packets \<lparr>ps_heap = H, ps_pkts = m\<rparr>)(h \<mapsto> view H' b')"
proof
  show "store_ok s'" using fin ok by (simp add: store_ok_def s'_def live_replace)
  have "packets s' k = ((packets \<lparr>ps_heap = H, ps_pkts = m\<rparr>)(h \<mapsto> view H' b')) k" for k
  proof (cases "k = h \<or> m k = None")
    case False
    then obtain c where c: "m k = Some c" "k \<noteq> h" by auto
    then have "c \<in># livePkts (m(h := None))" using fin by (intro in_live[of _ k]) auto
    then show ?thesis using c kept by (simp add: packets_def s'_def views_kept_def)
  qed (auto simp: packets_def s'_def)
  then show "packets s' = (packets \<lparr>ps_heap = H, ps_pkts = m\<rparr>)(h \<mapsto> view H' b')" by (rule ext)
qed

lemma put_ok:
  assumes "finite (dom (ps_pkts s))" "heap_ok H' (add_mset b' (livePkts ((ps_pkts s)(h := None))))"
    "views_kept (ps_heap s) H' (livePkts ((ps_pkts s)(h := None)))"
  shows "store_ok (putP h b' H' s)" "packets (putP h b' H' s) = (packets s)(h \<mapsto> view H' b')"
  using replace_ok[OF assms] by (cases s, simp add: putP_def)+

lemma put_new_ok:
  assumes "store_ok s" "ps_pkts s k = None" "heap_ok H' (add_mset b' (livePkts (ps_pkts s)))" "views_kept (ps_heap s) H' (livePkts (ps_pkts s))"
  shows "store_ok (putP k b' H' s)" "packets (putP k b' H' s) = (packets s)(k \<mapsto> view H' b')"
proof -
  have "(ps_pkts s)(k := None) = ps_pkts s" using assms(2) by (simp add: fun_upd_idem)
  then show "store_ok (putP k b' H' s)" "packets (putP k b' H' s) = (packets s)(k \<mapsto> view H' b')"
    using assms put_ok[of s H' b' k] by (simp_all add: store_ok_def)
qed

lemma store_okD:
  assumes "store_ok s"
  shows "finite (dom (ps_pkts s))" "heap_ok (ps_heap s) (livePkts (ps_pkts s))"
    "ps_pkts s h = Some b \<Longrightarrow> heap_ok (ps_heap s) (add_mset b (livePkts ((ps_pkts s)(h := None))))"
    "ps_pkts s h = Some b \<Longrightarrow> b \<in># livePkts (ps_pkts s)"
  using assms live_remove[of "ps_pkts s" h b] in_live[of "ps_pkts s" h b] by (simp_all add: store_ok_def)

lemma packets_Some: "ps_pkts s h = Some b \<Longrightarrow> packets s h = Some (view (ps_heap s) b)"
  by (simp add: packets_def)

lemma getP_Some [simp]: "ps_pkts s h = Some b \<Longrightarrow> getP h s = Inr b"
  by (simp add: getP_def)

lemma store_ok_init: "store_ok (pkt_init fill)"
  by (simp add: store_ok_def pkt_init_def livePkts_def heap_ok_def refs_ok_def freeBlocks_def)

subsection \<open>Each operation refines its specification\<close>

definition refines :: "pop \<Rightarrow> pstate \<Rightarrow> bool" where
  "refines op s \<longleftrightarrow> (\<exists>s'. pktOp op s = Inr s' \<and> store_ok s' \<and> pkt_spec op (packets s) (packets s'))"

lemma New_refines:
  assumes "store_ok s" "enabled (New h n) s"
  shows "refines (New h n) s"
proof -
  obtain b H where "Buffer_Initialize n (ps_heap s) = Inr (b, H)" "heap_ok H (add_mset b (livePkts (ps_pkts s)))"
    "views_kept (ps_heap s) H (livePkts (ps_pkts s))" "view H b = replicate (unat n) 0"
    using Initialize_ok[OF store_okD(2)[OF assms(1)], of n] assms(2) by auto
  then show ?thesis using put_new_ok[OF assms(1), of h H b] assms(2) pkt_spec.new[of h n "packets s"]
    by (simp add: refines_def Packet_new_def)
qed

lemma Copy_refines:
  assumes "store_ok s" "enabled (Copy h k) s"
  shows "refines (Copy h k) s"
proof -
  obtain b where b: "ps_pkts s h = Some b" using assms(2) by auto
  have "Suc (size (livePkts (ps_pkts s))) < 2 ^ 32" using assms(2) by (simp add: size_live)
  then obtain b' H where "Buffer_copy b (ps_heap s) = Inr (b', H)" "heap_ok H (add_mset b' (livePkts (ps_pkts s)))"
    "views_kept (ps_heap s) H (livePkts (ps_pkts s))" "view H b' = view (ps_heap s) b"
    using copy_ok[OF store_okD(2,4)[OF assms(1)]] b by metis
  then show ?thesis using put_new_ok[OF assms(1), of k H b'] assms(2) pkt_spec.copy[where a = "packets s" and h = h, OF packets_Some[OF b], where k = k] b
    by (simp add: refines_def Packet_Copy_def)
qed

lemma Destroy_refines:
  assumes "store_ok s" "enabled (Destroy h) s"
  shows "refines (Destroy h) s"
proof -
  obtain b where b: "ps_pkts s h = Some b" using assms(2) by auto
  let ?m = "(ps_pkts s)(h := None)"
  obtain H where H: "Buffer_destroy b (ps_heap s) = Inr H" "heap_ok H (livePkts ?m)" "views_kept (ps_heap s) H (livePkts ?m)"
    using destroy_ok[OF store_okD(3)[OF assms(1) b]] by blast
  let ?s = "s\<lparr>ps_heap := H, ps_pkts := ?m\<rparr>"
  have fin: "finite (dom ?m)" using store_okD(1)[OF assms(1)] by simp
  have "packets ?s k = ((packets s)(h := None)) k" for k
    using H(3) in_live[OF fin, of k] by (cases "?m k") (auto simp: packets_def views_kept_def split: if_splits)
  then have "packets ?s = (packets s)(h := None)" by (rule ext)
  then show ?thesis using fin H b pkt_spec.destroy[of h "packets s"] by (simp add: refines_def Packet_destroy_def store_ok_def)
qed

lemma addHeader_ok:
  assumes ok: "heap_ok s (add_mset b B)" and r: "room b n" and e: "serializes ser e" "\<And>z. length (e z) \<le> unat n"
  defines "bs \<equiv> e (of_nat (length (view s b)) + n)"
  shows "\<exists>b' s' rest. addHeader n ser b s = Inr (b', s') \<and> heap_ok s' (add_mset b' B) \<and> views_kept s s' B
    \<and> length bs + length rest = unat n \<and> view s' b' = bs @ rest @ view s b \<and> unat (bf_end b') \<le> unat (bf_end b) + unat n"
proof -
  obtain b' H pre where g: "AddAtStart n b s = Inr (b', H)" "heap_ok H (add_mset b' B)" "views_kept s H B"
    "own_front B b' (unat n)" "length pre = unat n" "view H b' = pre @ view s b" "unat (bf_end b') \<le> unat (bf_end b) + unat n"
    using AddAtStart_ok[OF ok, of n] r unfolding room_def grown_front_def by blast
  have "unat (buf_GetSize b') = unat n + length (view s b)" using view_length(1)[OF g(2), of b'] g(5,6) by simp
  then have sz: "buf_GetSize b' = of_nat (length (view s b)) + n" by (metis add.commute of_nat_add of_nat_unat ucast_id)
  obtain i H' where w: "ser (Begin b') H = Inr (i, H')" "heap_ok H' (add_mset b' B)" "views_kept H H' B" "view H' b' = poke 0 bs (view H b')"
    using serializesD[OF e(1) g(2,4) e(2)] sz unfolding bs_def by auto
  have le: "length bs \<le> unat n" using e(2) by (simp add: bs_def)
  then have "view H' b' = bs @ drop (length bs) pre @ view s b" using w(4) g(5,6) by (simp add: poke_def)
  moreover have "length bs + length (drop (length bs) pre) = unat n" using le g(5) by simp
  ultimately show ?thesis using g(1,7) w(1,2) views_kept_trans[OF g(3) w(3)] by (fastforce simp: addHeader_def)
qed

lemma AddHeader_refines:
  assumes "store_ok s" "enabled (AddHeader h n ser) s"
  shows "refines (AddHeader h n ser) s"
proof -
  obtain b e where b: "ps_pkts s h = Some b" "room b n" and e: "serializes ser e" "\<And>z. length (e z) \<le> unat n" using assms(2) by auto
  let ?B = "livePkts ((ps_pkts s)(h := None))"
  obtain b' H rest where g: "addHeader n ser b (ps_heap s) = Inr (b', H)" "heap_ok H (add_mset b' ?B)" "views_kept (ps_heap s) H ?B"
    "length (e (of_nat (length (view (ps_heap s) b)) + n)) + length rest = unat n"
    "view H b' = e (of_nat (length (view (ps_heap s) b)) + n) @ rest @ view (ps_heap s) b"
    using addHeader_ok[OF store_okD(3)[OF assms(1) b(1)] b(2) e] by blast
  have "pkt_spec (AddHeader h n ser) (packets s) ((packets s)(h \<mapsto> view H b'))"
    unfolding g(5) by (rule pkt_spec.addHeader[where a = "packets s" and h = h, OF packets_Some[OF b(1)] e(1) refl g(4)])
  then show ?thesis using put_ok[OF store_okD(1)[OF assms(1)] g(2,3)] b(1) g(1)
    by (simp add: refines_def Packet_AddHeader_def)
qed

lemma AddPadding_refines:
  assumes "store_ok s" "enabled (AddPaddingAtEnd h n) s"
  shows "refines (AddPaddingAtEnd h n) s"
proof -
  obtain b where b: "ps_pkts s h = Some b" "room b n" using assms(2) by auto
  let ?B = "livePkts ((ps_pkts s)(h := None))"
  obtain b' H pad where g: "AddAtEnd n b (ps_heap s) = Inr (b', H)" "heap_ok H (add_mset b' ?B)" "views_kept (ps_heap s) H ?B"
    "length pad = unat n" "view H b' = view (ps_heap s) b @ pad"
    using AddAtEnd_ok[OF store_okD(3)[OF assms(1) b(1)], of n] b(2) unfolding room_def grown_rear_def by blast
  then show ?thesis using put_ok[OF store_okD(1)[OF assms(1)] g(2,3)] pkt_spec.addPadding[where a = "packets s" and h = h, OF packets_Some[OF b(1)] g(4)] b(1)
    by (simp add: refines_def Packet_AddPaddingAtEnd_def)
qed

text \<open>The two removals keep the block and narrow the window.\<close>

lemma RemoveAtEnd_ok:
  assumes "heap_ok H (add_mset b B)"
  shows "heap_ok H (add_mset (RemoveAtEnd n b) B)" "view H (RemoveAtEnd n b) = take (length (view H b) - unat n) (view H b)"
proof -
  note v = view_length[OF assms, of b, simplified]
  note r = RemoveAtEnd_content[OF v(3,2), of n]
  then show "heap_ok H (add_mset (RemoveAtEnd n b) B)" using shrink_ok[OF assms] by blast
  show "view H (RemoveAtEnd n b) = take (length (view H b) - unat n) (view H b)" using r by (simp add: view_def shrinks_def)
qed

lemma RemoveAtStart_ok:
  assumes "heap_ok H (add_mset b B)" "unat (bf_start b) + unat n < 2 ^ 32"
  shows "\<exists>b'. RemoveAtStart n b = Inr b' \<and> heap_ok H (add_mset b' B) \<and> view H b' = drop (unat n) (view H b)"
proof -
  note v = view_length[OF assms(1), of b, simplified]
  obtain b' where "RemoveAtStart n b = Inr b'" "shrinks b b'" "content (bytesOf H (bf_data b)) b' = drop (unat n) (view H b)"
    using RemoveAtStart_content[OF v(3,2) assms(2)] by (auto simp: view_def)
  then show ?thesis using shrink_ok[OF assms(1)] by (auto simp: view_def shrinks_def)
qed

lemma views_kept_refl: "views_kept s s B"
  by (simp add: views_kept_def)

lemma DropEnd_refines:
  assumes "store_ok s" "enabled (DropEnd h n) s"
  shows "refines (DropEnd h n) s"
proof -
  obtain b where b: "ps_pkts s h = Some b" using assms(2) by auto
  note r = RemoveAtEnd_ok[OF store_okD(3)[OF assms(1) b], of n]
  show ?thesis
    using put_ok[OF store_okD(1)[OF assms(1)] r(1) views_kept_refl] r(2) pkt_spec.dropEnd[where a = "packets s" and h = h, OF packets_Some[OF b]] b
    by (simp add: refines_def Packet_RemoveAtEnd_def)
qed

lemma DropStart_refines:
  assumes "store_ok s" "enabled (DropStart h n) s"
  shows "refines (DropStart h n) s"
proof -
  obtain b where b: "ps_pkts s h = Some b" "unat (bf_start b) + unat n < 2 ^ 32" using assms(2) by auto
  obtain b' where r: "RemoveAtStart n b = Inr b'" "heap_ok (ps_heap s) (add_mset b' (livePkts ((ps_pkts s)(h := None))))"
    "view (ps_heap s) b' = drop (unat n) (view (ps_heap s) b)"
    using RemoveAtStart_ok[OF store_okD(3)[OF assms(1) b(1)] b(2)] by blast
  show ?thesis
    using put_ok[OF store_okD(1)[OF assms(1)] r(2) views_kept_refl] r pkt_spec.dropStart[where a = "packets s" and h = h, OF packets_Some[OF b(1)]] b
    by (simp add: refines_def Packet_RemoveAtStart_def)
qed

text \<open>A fragment: a copy, narrowed at both ends.\<close>

lemma CreateFragment_ok:
  assumes ok: "heap_ok H B" "b \<in># B" "Suc (size B) < 2 ^ 32" and len: "unat start + unat n \<le> unat (buf_GetSize b)"
  shows "\<exists>b' H'. buf_CreateFragment start n b H = Inr (b', H') \<and> heap_ok H' (add_mset b' B) \<and> views_kept H H' B
    \<and> view H' b' = take (unat n) (drop (unat start) (view H b))"
proof -
  obtain t H' where t: "Buffer_copy b H = Inr (t, H')" "heap_ok H' (add_mset t B)" "views_kept H H' B" "view H' t = view H b"
    "t = b\<lparr>bf_maxZeroAreaStart := bf_zeroAreaStart b\<rparr>" using copy_ok[OF ok] by blast
  note v = view_length[OF ok(1,2)] and w = wf_nat[OF view_length(3)[OF ok(1,2)]]
  have sz: "unat (buf_GetSize b) = unat (bf_end b) - unat (bf_start b)" using w by simp
  have "unat (bf_start b) + unat start \<le> unat (bf_end b)" using len sz w(1-3) by linarith
  then have "unat (bf_start t) + unat start < 2 ^ 32" using unat_u32_bound[of "bf_end b"] t(5) by simp
  from RemoveAtStart_ok[OF t(2) this] obtain t1 where t1: "RemoveAtStart start t = Inr t1" "heap_ok H' (add_mset t1 B)"
    "view H' t1 = drop (unat start) (view H b)" using t(4) by metis
  have lt: "unat start + unat n < 2 ^ 32" using len unat_u32_bound[of "buf_GetSize b"] by linarith
  then have a: "unat (start + n) = unat start + unat n" by (rule unat_add_u32)
  then have "start + n \<le> buf_GetSize b" using len by (simp add: word_le_nat_alt)
  then have e: "unat (buf_GetSize b - (start + n)) = unat (buf_GetSize b) - (unat start + unat n)" using a by (simp add: unat_minus_le)
  note r = RemoveAtEnd_ok[OF t1(2), of "buf_GetSize b - (start + n)"]
  have "view H' (RemoveAtEnd (buf_GetSize b - (start + n)) t1) = take (unat n) (drop (unat start) (view H b))"
    using r(2) e t1(3) v(1) len by simp
  then show ?thesis using t(1,3) t1(1) r(1) by (simp add: buf_CreateFragment_def)
qed

lemma Fragment_refines:
  assumes "store_ok s" "enabled (Fragment h k start n) s"
  shows "refines (Fragment h k start n) s"
proof -
  let ?B = "livePkts (ps_pkts s)"
  obtain b where b: "ps_pkts s h = Some b" and len: "unat start + unat n \<le> unat (buf_GetSize b)" using assms(2) by auto
  note ok = store_okD(2)[OF assms(1)] and mem = store_okD(4)[OF assms(1) b]
  have sz: "Suc (Suc (size ?B)) < 2 ^ 32" using assms(2) by (simp add: size_live)
  obtain t H1 where t: "buf_CreateFragment start n b (ps_heap s) = Inr (t, H1)" "heap_ok H1 (add_mset t ?B)" "views_kept (ps_heap s) H1 ?B"
    "view H1 t = take (unat n) (drop (unat start) (view (ps_heap s) b))"
    using CreateFragment_ok[OF ok mem _ len] sz by auto
  obtain b' H2 where c: "Buffer_copy t H1 = Inr (b', H2)" "heap_ok H2 (add_mset b' (add_mset t ?B))" "views_kept H1 H2 (add_mset t ?B)"
    "view H2 b' = view H1 t" using copy_ok[OF t(2), of t] sz by auto
  obtain H3 where d: "Buffer_destroy t H2 = Inr H3" "heap_ok H3 (add_mset b' ?B)" "views_kept H2 H3 (add_mset b' ?B)"
    using destroy_ok[of H2 t "add_mset b' ?B"] c(2) by (auto simp: add_mset_commute)
  have kept: "views_kept (ps_heap s) H3 ?B" "view H3 b' = view H1 t" using t(3) c(3,4) d(3) by (auto simp: views_kept_def)
  have "unat start + unat n < 2 ^ 32" using len unat_u32_bound[of "buf_GetSize b"] by linarith
  then have le: "start + n \<le> buf_GetSize b" using len by (simp add: word_le_nat_alt unat_add_u32)
  have spec: "pkt_spec (Fragment h k start n) (packets s) ((packets s)(k \<mapsto> view H3 b'))"
    unfolding kept(2) t(4) by (rule pkt_spec.fragment[where a = "packets s" and h = h, OF packets_Some[OF b]])
  have "pktOp (Fragment h k start n) s = Inr (putP k b' H3 s)"
    using b t(1) c(1) d(1) le by (simp add: Packet_CreateFragment_def)
  then show ?thesis using put_new_ok[OF assms(1) _ d(2) kept(1), of k] assms(2) spec by (simp add: refines_def)
qed

lemma pktOp_refines: "store_ok s \<Longrightarrow> enabled op s \<Longrightarrow> refines op s"
  by (cases op) (simp_all only: New_refines Copy_refines Destroy_refines Fragment_refines AddHeader_refines AddPadding_refines
      DropEnd_refines DropStart_refines)

lemma pkt_reach_ok: "pkt_reach fill s \<Longrightarrow> store_ok s"
proof (induction rule: pkt_reach.induct)
  case (step s op s')
  then show ?case using pktOp_refines[of s op] by (auto simp: refines_def)
qed (rule store_ok_init)

subsection \<open>Joining two buffers\<close>

text \<open>
  \<^verbatim>\<open>Buffer::AddAtEnd(const Buffer&)\<close> is not among the operations above: two short runs show why.  In the
  first, two zero payloads of 1000 bytes are joined, the second with four stored bytes behind its
  zeroes: the joined zero area is 2000 bytes long, and \<^verbatim>\<open>Iterator::Write(start, end)\<close> stores the four
  bytes at the virtual offset 2000 of a block of 101 bytes, because it does not subtract the zero
  area from its own offset.  In the second, a buffer of four stored bytes is joined with a copy of
  itself: the new bytes fit into the block both share, and the assertion that source and
  destination are different blocks fails.
\<close>

definition join_trailer :: "(nat \<Rightarrow> nat \<Rightarrow> u8) \<Rightarrow> (buf \<times> bheap) res" where
  "join_trailer fill =
     bindr (Buffer_Initialize 1000 (ps_heap (pkt_init fill))) (\<lambda>(a, s).
     bindr (Buffer_Initialize 1000 s) (\<lambda>(o1, s).
     bindr (AddAtEnd 4 o1 s) (\<lambda>(o1, s). AddAtEndBuffer o1 a s)))"

definition join_copy :: "(nat \<Rightarrow> nat \<Rightarrow> u8) \<Rightarrow> (buf \<times> bheap) res" where
  "join_copy fill =
     bindr (Buffer_Initialize 0 (ps_heap (pkt_init fill))) (\<lambda>(a, s).
     bindr (AddAtEnd 4 a s) (\<lambda>(a, s).
     bindr (Buffer_copy a s) (\<lambda>(o1, s). AddAtEndBuffer o1 a s)))"

lemmas buffer_run = Buffer_Initialize_def Buffer_Create_def Buffer_Allocate_def pkt_init_def setDirty_def getD_def
  ALLOC_OVER_PROVISION_def putD_def Let_def AddAtEnd_def GetInternalEnd_def noteMax_def AddAtEndBuffer_def Prev_def End_def Begin_def
  iter_Construct_def WriteIter_def peekM_def pokeM_def CheckNoZero_def behind_def Buffer_copy_def TransformIntoRealBuffer_def
  CreateFullCopy_def Buffer_assign_def Buffer_destroy_def unref_def buf_GetSize_def

lemma join_trailer_writes_outside: "join_trailer fill = Inl OutOfBounds"
  by (simp add: join_trailer_def buffer_run del: upt_Suc upt_rec_numeral)

lemma join_copy_fails: "join_copy fill = Inl Assert"
  by (simp add: join_copy_def buffer_run del: upt_Suc upt_rec_numeral)

text \<open>
  \<^verbatim>\<open>Iterator::Write(buffer, size)\<close> passes \<^verbatim>\<open>size\<close> where its check expects the end of the range: a write
  in front of the zero area is never refused by the check, wherever it ends.
\<close>

lemma WriteRaw_unchecked:
  assumes "it_dataStart i \<le> it_current i" "it_current i \<le> it_zeroStart i" "it_zeroStart i \<le> it_dataEnd i"
    "of_nat (length bs) \<le> it_zeroStart i"
  shows "WriteRaw bs i s = bindr (pokeM (it_data i) (unat (it_current i)) bs s) (\<lambda>s. Inr (i\<lparr>it_current := it_current i + of_nat (length bs)\<rparr>, s))"
proof -
  have "CheckNoZero (it_current i) (of_nat (length bs)) i"
    using assms by (auto simp: CheckNoZero_def not_less intro: order_trans)
  then show ?thesis using assms(2) by (simp add: WriteRaw_def Let_def)
qed

subsection \<open>Properties\<close>

text \<open>
  C7. Packets behave as lists of bytes of their own.  In every state the program reaches from the
  start by enabled operations, every enabled operation (a new packet with a zero payload, a copy, a
  fragment, adding a header or padding, removing bytes at either end, destroying a packet) returns
  without a failed assertion, an access outside of a block or a use of freed memory, and changes the
  contents of the packets as its specification says: all packets but its own keep their bytes,
  although copies and fragments share blocks and headers are written in place where that is possible.
\<close>

theorem packets_are_lists:
  assumes "pkt_reach fill s" "enabled op s"
  shows "\<exists>s'. pktOp op s = Inr s' \<and> pkt_reach fill s' \<and> pkt_spec op (packets s) (packets s')"
  using pktOp_refines[OF pkt_reach_ok[OF assms(1)] assms(2)] pkt_reach.step[OF assms] by (auto simp: refines_def)

theorem packets_are_lists_witness:
  "\<exists>s'. pktOp (New 3 1000) (pkt_init (\<lambda>_ _. 7)) = Inr s' \<and> pkt_reach (\<lambda>_ _. 7) s'
     \<and> pkt_spec (New 3 1000) (packets (pkt_init (\<lambda>_ _. 7))) (packets s')"
  using packets_are_lists[OF pkt_reach.init, of "New 3 1000" "\<lambda>_ _. 7"] by (simp add: pkt_init_def)

text \<open>
  C14. The check the source has disabled: in every reachable state \<^verbatim>\<open>CheckInternalState\<close> succeeds for
  the buffer of every packet: its block is referenced, its offsets are in order, it lies in the dirty
  area of the block, and its stored bytes lie within the block.
\<close>

theorem CheckInternalState_holds:
  assumes "pkt_reach fill s" "ps_pkts s h = Some b"
  shows "CheckInternalState b (ps_heap s)"
proof -
  note ok = store_okD(2)[OF pkt_reach_ok[OF assms(1)]] and mem = store_okD(4)[OF pkt_reach_ok[OF assms(1)] assms(2)]
  obtain D where D: "bh_data (ps_heap s) (bf_data b) = Some D" "wf_buf b" "bd_dirtyStart D \<le> bf_start b" "bf_end b \<le> bd_dirtyEnd D"
    "GetInternalEnd b \<le> bd_size D" "unat (bd_count D) = count (image_mset bf_data (livePkts (ps_pkts s))) (bf_data b)"
    using in_blkD[OF ok mem] by blast
  have "bf_data b \<in># image_mset bf_data (livePkts (ps_pkts s))" using mem by simp
  then have "0 < unat (bd_count D)" using D(6) by (simp only: count_greater_zero_iff)
  then have pos: "0 < bd_count D" by (simp add: word_less_nat_alt)
  have "bf_zeroAreaStart b \<le> GetInternalEnd b" using wf_nat[OF D(2)] by (simp add: word_le_nat_alt)
  then have "bf_zeroAreaStart b \<le> bd_size D" "bf_start b \<le> bd_size D" using D(2,5) unfolding wf_buf_def by (elim conjE, order)+
  then show ?thesis using D pos by (simp add: CheckInternalState_def wf_buf_def GetInternalEnd_def)
qed

theorem CheckInternalState_holds_witness:
  "\<exists>s b. pktOp (New 3 1000) (pkt_init (\<lambda>_ _. 7)) = Inr s \<and> ps_pkts s 3 = Some b \<and> CheckInternalState b (ps_heap s)"
proof -
  have e: "enabled (New 3 1000) (pkt_init (\<lambda>_ _. 7))" by (simp add: pkt_init_def)
  obtain s where s: "pktOp (New 3 1000) (pkt_init (\<lambda>_ _. 7)) = Inr s" using New_refines[OF store_ok_init e] by (auto simp: refines_def)
  then obtain b where "ps_pkts s 3 = Some b" by (auto simp: Packet_new_def putP_def bindr_def split: sum.splits)
  then show ?thesis using CheckInternalState_holds[OF pkt_reach.step[OF pkt_reach.init e s], of 3] s by blast
qed

end
