(* ===== verification/Header_Bytes.thy ===== *)
theory Header_Bytes
  imports Packet_Store Int_Header
begin

text \<open>
  Headers as bytes: \<^verbatim>\<open>Serialize\<close> and \<^verbatim>\<open>Deserialize\<close> of the headers of the RDMA network
  (network/utils/int-header.cc, seq-ts-header.cc, point-to-point/model/qbb-header.cc, pause-header.cc,
  cn-header.cc, ppp-header.cc), and what \<^verbatim>\<open>Packet::AddHeader\<close>, \<^verbatim>\<open>PeekHeader\<close> and \<^verbatim>\<open>RemoveHeader\<close> do with
  them.  A function that takes an iterator by value returns its local copy in the model, for the
  proofs; its callers drop it.  The members of a header that its bytes do not carry keep the values
  they had in the object the bytes are read into.

  The locale \<open>header_codec\<close> is the contract of a header; its lemmas are the round trips through a
  packet, and every header interprets it.
\<close>

subsection \<open>Headers of a packet\<close>

fun writeSeq :: "(iter \<Rightarrow> bheap \<Rightarrow> (iter \<times> bheap) res) list \<Rightarrow> iter \<Rightarrow> bheap \<Rightarrow> (iter \<times> bheap) res" where
  "writeSeq [] i s = Inr (i, s)"
| "writeSeq (f # fs) i s = bindr (f i s) (\<lambda>(i, s). writeSeq fs i s)"

definition peekHeader :: "(iter \<Rightarrow> bheap \<Rightarrow> (iter \<times> 'h \<times> u32) res) \<Rightarrow> buf \<Rightarrow> bheap \<Rightarrow> ('h \<times> u32) res" where
  "peekHeader des b s = bindr (des (Begin b) s) (\<lambda>(_, h, deserialized). Inr (h, deserialized))"

definition removeHeader :: "(iter \<Rightarrow> bheap \<Rightarrow> (iter \<times> 'h \<times> u32) res) \<Rightarrow> buf \<Rightarrow> bheap \<Rightarrow> (buf \<times> 'h \<times> u32) res" where
  "removeHeader des b s =
     bindr (des (Begin b) s) (\<lambda>(_, h, deserialized). bindr (RemoveAtStart deserialized b) (\<lambda>b. Inr (b, h, deserialized)))"

subsection \<open>IntHeader\<close>

text \<open>A hop is written as its two halves, the low one first.\<close>

fun writeHops :: "u64 list \<Rightarrow> iter \<Rightarrow> bheap \<Rightarrow> (iter \<times> bheap) res" where
  "writeHops [] i s = Inr (i, s)"
| "writeHops (w # ws) i s =
     bindr (WriteU32 (ucast w) i s) (\<lambda>(i, s). bindr (WriteU32 (ucast (drop_bit 32 w)) i s) (\<lambda>(i, s). writeHops ws i s))"

fun readHops :: "nat \<Rightarrow> iter \<Rightarrow> bheap \<Rightarrow> (iter \<times> u64 list) res" where
  "readHops 0 i s = Inr (i, [])"
| "readHops (Suc n) i s =
     bindr (ReadU32 i s) (\<lambda>(i, lo). bindr (ReadU32 i s) (\<lambda>(i, hi).
     bindr (readHops n i s) (\<lambda>(i, ws). Inr (i, (ucast lo OR push_bit 32 (ucast hi)) # ws))))"

definition IntHeader_Serialize :: "Mode \<Rightarrow> int \<Rightarrow> IntHeader \<Rightarrow> iter \<Rightarrow> bheap \<Rightarrow> (iter \<times> bheap) res" where
  "IntHeader_Serialize mode pint_bytes h =
     (case mode of
        NORMAL \<Rightarrow> writeSeq [writeHops (take maxHop (hop h)), WriteU16 (nhop h)]
      | TS \<Rightarrow> WriteU64 (hop h ! 0)
      | PINT \<Rightarrow> if pint_bytes = 1 then WriteU8 (ucast (hop h ! 0))
                else if pint_bytes = 2 then WriteU16 (ucast (hop h ! 0)) else writeSeq []
      | NONE \<Rightarrow> writeSeq [])"

definition IntHeader_Deserialize :: "Mode \<Rightarrow> int \<Rightarrow> IntHeader \<Rightarrow> iter \<Rightarrow> bheap \<Rightarrow> (iter \<times> IntHeader \<times> u32) res" where
  "IntHeader_Deserialize mode pint_bytes h i s =
     bindr (case mode of
        NORMAL \<Rightarrow> bindr (readHops maxHop i s) (\<lambda>(i, ws). bindr (ReadU16 i s) (\<lambda>(i, n). Inr (i, h\<lparr>hop := ws, nhop := n\<rparr>)))
      | TS \<Rightarrow> bindr (ReadU64 i s) (\<lambda>(i, t). Inr (i, h\<lparr>hop := (hop h)[0 := t]\<rparr>))
      | PINT \<Rightarrow>
          if pint_bytes = 1 then bindr (ReadU8 i s) (\<lambda>(i, p). Inr (i, h\<lparr>hop := (hop h)[0 := putField 0 8 (ucast p) (hop h ! 0)]\<rparr>))
          else if pint_bytes = 2 then
            bindr (ReadU16 i s) (\<lambda>(i, p). Inr (i, h\<lparr>hop := (hop h)[0 := putField 0 16 (ucast p) (hop h ! 0)]\<rparr>))
          else Inr (i, h)
      | NONE \<Rightarrow> Inr (i, h)) (\<lambda>(i, h). Inr (i, h, of_nat (IntHeader_GetStaticSize mode)))"

text \<open>The bytes of a header, and the header that reading them into \<open>h0\<close> gives.\<close>

definition hopBytes :: "u64 \<Rightarrow> u8 list" where
  "hopBytes w = leBytes 4 (ucast w :: u32) @ leBytes 4 (ucast (drop_bit 32 w) :: u32)"

definition intBytes :: "Mode \<Rightarrow> int \<Rightarrow> IntHeader \<Rightarrow> u8 list" where
  "intBytes mode pint_bytes h =
     (case mode of
        NORMAL \<Rightarrow> concat (map hopBytes (take maxHop (hop h))) @ leBytes 2 (nhop h)
      | TS \<Rightarrow> leBytes 8 (hop h ! 0)
      | PINT \<Rightarrow> if pint_bytes = 1 then [ucast (hop h ! 0)] else if pint_bytes = 2 then leBytes 2 (ucast (hop h ! 0) :: u16) else []
      | NONE \<Rightarrow> [])"

definition intRestored :: "Mode \<Rightarrow> int \<Rightarrow> IntHeader \<Rightarrow> IntHeader \<Rightarrow> IntHeader" where
  "intRestored mode pint_bytes h0 h =
     (case mode of
        NORMAL \<Rightarrow> h
      | TS \<Rightarrow> h0\<lparr>hop := (hop h0)[0 := hop h ! 0]\<rparr>
      | PINT \<Rightarrow> if pint_bytes = 1 then h0\<lparr>hop := (hop h0)[0 := putField 0 8 (hop h ! 0) (hop h0 ! 0)]\<rparr>
                else if pint_bytes = 2 then h0\<lparr>hop := (hop h0)[0 := putField 0 16 (hop h ! 0) (hop h0 ! 0)]\<rparr> else h0
      | NONE \<Rightarrow> h0)"

definition wf_int :: "IntHeader \<Rightarrow> bool" where
  "wf_int h \<longleftrightarrow> length (hop h) = maxHop"

lemma writeSeq_fun: "writeSeq (f # fs) = (\<lambda>i s. bindr (f i s) (\<lambda>(i, s). writeSeq fs i s))" "writeSeq [] = (\<lambda>i s. Inr (i, s))"
  by (simp_all add: fun_eq_iff)

lemma writes_writeSeq: "list_all2 writes fs bss \<Longrightarrow> writes (writeSeq fs) (concat bss)"
proof (induction rule: list_all2_induct)
  case Nil
  then show ?case using writes_return by (simp add: writeSeq_fun)
next
  case (Cons f fs bs bss)
  then show ?case using writes_seq[of f bs "writeSeq fs"] by (simp add: writeSeq_fun)
qed

lemma writes_hops:
  "writes (writeHops ws) (concat (map hopBytes ws))"
proof (induction ws)
  case Nil
  have "writeHops [] = (\<lambda>i s. Inr (i, s))" by (simp add: fun_eq_iff)
  then show ?case using writes_return by simp
next
  case (Cons w ws)
  have "writeHops (w # ws) = writeSeq [WriteU32 (ucast w), WriteU32 (ucast (drop_bit 32 w)), writeHops ws]"
    by (auto simp: fun_eq_iff bindr_def split: sum.splits)
  moreover have "list_all2 writes [WriteU32 (ucast w), WriteU32 (ucast (drop_bit 32 w)), writeHops ws]
      [leBytes 4 (ucast w :: u32), leBytes 4 (ucast (drop_bit 32 w) :: u32), concat (map hopBytes ws)]"
    using Cons by (simp add: writes_int)
  ultimately show ?case using writes_writeSeq by (metis (no_types, lifting) append.assoc append_Nil2 concat.simps hopBytes_def list.simps(9))
qed

lemma hop_halves: "(ucast (ucast w :: u32) OR push_bit 32 (ucast (ucast (drop_bit 32 w) :: u32)) :: u64) = w"
  by (rule bit_word_eqI) (auto simp: bit_or_iff bit_push_bit_iff bit_ucast_iff bit_drop_bit_eq)

lemma parses_hops:
  "parses (readHops (length ws)) (concat (map hopBytes ws)) ws"
proof (induction ws)
  case Nil
  have "readHops 0 = (\<lambda>i s. Inr (i, []))" by (simp add: fun_eq_iff)
  then show ?case using parses_return by simp
next
  case (Cons w ws)
  have "readHops (Suc (length ws)) = (\<lambda>i s. bindr (ReadU32 i s) (\<lambda>(i, lo). bindr (ReadU32 i s) (\<lambda>(i, hi).
     bindr (readHops (length ws) i s) (\<lambda>(i, ws). Inr (i, (ucast lo OR push_bit 32 (ucast hi)) # ws)))))" by (simp add: fun_eq_iff)
  moreover have "parses (\<lambda>i s. bindr (ReadU32 i s) (\<lambda>(i, lo). bindr (ReadU32 i s) (\<lambda>(i, hi).
     bindr (readHops (length ws) i s) (\<lambda>(i, ws). Inr (i, (ucast lo OR push_bit 32 (ucast hi)) # ws)))))
     (leBytes 4 (ucast w :: u32) @ leBytes 4 (ucast (drop_bit 32 w) :: u32) @ concat (map hopBytes ws))
     ((ucast (ucast w :: u32) OR push_bit 32 (ucast (ucast (drop_bit 32 w) :: u32))) # ws)"
    by (rule parses_seq, rule parses_int, rule parses_seq, rule parses_int, rule parses_map, rule Cons)
  ultimately show ?case by (simp add: hop_halves hopBytes_def[of w])
qed

lemma writes_IntHeader: "writes (IntHeader_Serialize mode pb h) (intBytes mode pb h)"
proof (cases mode)
  case NORMAL
  then show ?thesis using writes_writeSeq[of "[writeHops (take maxHop (hop h)), WriteU16 (nhop h)]" "[_, leBytes 2 (nhop h)]"]
      writes_hops[of "take maxHop (hop h)"] by (simp add: IntHeader_Serialize_def intBytes_def writes_int)
qed (simp_all add: IntHeader_Serialize_def intBytes_def writes_int writeSeq_fun writes_return)

lemma length_intBytes: "length (intBytes mode pb h) \<le> IntHeader_GetStaticSize mode"
proof -
  have "length (concat (map hopBytes (ws :: u64 list))) = 8 * length ws" for ws
    by (induction ws) (simp_all add: hopBytes_def)
  then show ?thesis by (simp add: intBytes_def IntHeader_GetStaticSize_def split: Mode.split)
qed

lemma putField_ucast: "width \<le> LENGTH('a) \<Longrightarrow> putField 0 width (ucast (ucast w :: 'a::len word)) v = putField 0 width w v"
  by (rule bit_word_eqI) (auto simp: bit_putField bit_ucast_iff)

lemma parses_IntHeader:
  assumes "wf_int h"
  shows "parses (IntHeader_Deserialize mode pb h0) (intBytes mode pb h) (intRestored mode pb h0 h, of_nat (IntHeader_GetStaticSize mode))"
proof -
  let ?n = "of_nat (IntHeader_GetStaticSize mode) :: u32"
  have hops: "parses (readHops maxHop) (concat (map hopBytes (take maxHop (hop h)))) (hop h)"
    using assms parses_hops[of "hop h"] by (simp add: wf_int_def)
  have normal: "parses (\<lambda>i s. bindr (readHops maxHop i s) (\<lambda>(i, ws). bindr (ReadU16 i s) (\<lambda>(i, n). Inr (i, h0\<lparr>hop := ws, nhop := n\<rparr>))))
      (concat (map hopBytes (take maxHop (hop h))) @ leBytes 2 (nhop h)) (h0\<lparr>hop := hop h, nhop := nhop h\<rparr>)"
    by (rule parses_seq, rule hops, rule parses_map, rule parses_int)
  note out = parses_map[where h = "\<lambda>h. (h, ?n)"] and defs = IntHeader_Deserialize_def[abs_def] intBytes_def intRestored_def
  show ?thesis
  proof (cases mode)
    case NORMAL
    have eq: "h0\<lparr>hop := hop h, nhop := nhop h\<rparr> = h" by (cases h; cases h0) simp
    show ?thesis using NORMAL out[OF normal, unfolded eq] by (simp add: defs)
  next
    case TS
    then show ?thesis
      using out[OF parses_map[OF parses_int(4)[of "hop h ! 0"], where h = "\<lambda>t. h0\<lparr>hop := (hop h0)[0 := t]\<rparr>"]] by (simp add: defs)
  next
    case PINT
    have one: "parses (\<lambda>i s. bindr (ReadU8 i s) (\<lambda>(i, p). Inr (i, h0\<lparr>hop := (hop h0)[0 := putField 0 8 (ucast p) (hop h0 ! 0)]\<rparr>)))
        [ucast (hop h ! 0)] (h0\<lparr>hop := (hop h0)[0 := putField 0 8 (hop h ! 0) (hop h0 ! 0)]\<rparr>)"
      by (rule parses_eq[OF parses_map[OF parses_int(1)] refl]) (simp add: putField_ucast)
    have two: "parses (\<lambda>i s. bindr (ReadU16 i s) (\<lambda>(i, p). Inr (i, h0\<lparr>hop := (hop h0)[0 := putField 0 16 (ucast p) (hop h0 ! 0)]\<rparr>)))
        (leBytes 2 (ucast (hop h ! 0) :: u16)) (h0\<lparr>hop := (hop h0)[0 := putField 0 16 (hop h ! 0) (hop h0 ! 0)]\<rparr>)"
      by (rule parses_eq[OF parses_map[OF parses_int(2)] refl]) (simp add: putField_ucast)
    show ?thesis using PINT out[OF one] out[OF two] parses_return[of "(h0, ?n)"] by (simp add: defs)
  next
    case NONE
    then show ?thesis by (simp add: defs parses_return)
  qed
qed

subsection \<open>The contract of a header\<close>

locale header_codec =
  fixes ser :: "'h \<Rightarrow> iter \<Rightarrow> bheap \<Rightarrow> (iter \<times> bheap) res"
    and des :: "'h \<Rightarrow> iter \<Rightarrow> bheap \<Rightarrow> (iter \<times> 'h \<times> u32) res"
    and hsize :: u32
    and enc :: "'h \<Rightarrow> u32 \<Rightarrow> u8 list"
    and restored :: "u32 \<Rightarrow> 'h \<Rightarrow> 'h \<Rightarrow> 'h"
    and ok :: "'h \<Rightarrow> bool"
  assumes ser_enc: "ok h \<Longrightarrow> serializes (ser h) (enc h)"
    and enc_fits: "ok h \<Longrightarrow> length (enc h z) \<le> unat hsize"
    and des_enc: "ok h \<Longrightarrow> ok h0 \<Longrightarrow> parses (des h0) (enc h z) (restored z h0 h, hsize)"
begin

lemma add:
  assumes ok: "heap_ok s (add_mset b B)" and r: "room b hsize" and h: "ok h"
  defines "z \<equiv> of_nat (length (view s b)) + hsize"
  shows "\<exists>b' s' rest. addHeader hsize (ser h) b s = Inr (b', s') \<and> heap_ok s' (add_mset b' B) \<and> views_kept s s' B
    \<and> length (enc h z) + length rest = unat hsize \<and> view s' b' = enc h z @ rest @ view s b \<and> unat (bf_end b') \<le> unat (bf_end b) + unat hsize"
  using addHeader_ok[OF ok r ser_enc[OF h] enc_fits[OF h]] unfolding z_def by blast

text \<open>Adding a header to a packet, looking at it and removing it again.\<close>

lemma add_remove:
  assumes ok: "heap_ok s (add_mset b B)" and r: "room b hsize" and h: "ok h" "ok h0"
  defines "z \<equiv> of_nat (length (view s b)) + hsize"
  shows "\<exists>b' s' b''. addHeader hsize (ser h) b s = Inr (b', s') \<and> heap_ok s' (add_mset b' B) \<and> views_kept s s' B
    \<and> peekHeader (des h0) b' s' = Inr (restored z h0 h, hsize)
    \<and> removeHeader (des h0) b' s' = Inr (b'', restored z h0 h, hsize) \<and> heap_ok s' (add_mset b'' B) \<and> view s' b'' = view s b"
proof -
  obtain b' s' rest where a: "addHeader hsize (ser h) b s = Inr (b', s')" "heap_ok s' (add_mset b' B)" "views_kept s s' B"
    "length (enc h z) + length rest = unat hsize" "view s' b' = enc h z @ rest @ view s b"
    using add[OF ok r h(1)] unfolding z_def by blast
  have d: "des h0 (Begin b') s' = Inr (iter_at b' (length (enc h z)), restored z h0 h, hsize)"
    by (rule parses_at_start[OF des_enc[OF h] a(2) _ a(5)]) simp
  note v = view_length[OF a(2), of b', simplified]
  have "unat (bf_start b') + unat hsize \<le> unat (bf_end b')" using v(1) wf_nat(1-3,6)[OF v(3)] a(4,5) by simp
  then have lt: "unat (bf_start b') + unat hsize < 2 ^ 32" using unat_u32_bound[of "bf_end b'"] by linarith
  obtain b'' where "RemoveAtStart hsize b' = Inr b''" "heap_ok s' (add_mset b'' B)" "view s' b'' = drop (unat hsize) (view s' b')"
    using RemoveAtStart_ok[OF a(2) lt] by blast
  moreover then have "view s' b'' = view s b" using a(4,5) by (metis append.assoc append_eq_conv_conj length_append)
  ultimately show ?thesis using a(1-3) d by (simp add: peekHeader_def removeHeader_def)
qed

end

subsection \<open>The headers of the RDMA network\<close>

record SeqTsHeader =
  st_seq :: u32
  st_pg :: u16
  st_ih :: IntHeader

definition SeqTsHeader_GetSerializedSize :: "Mode \<Rightarrow> u32" where
  "SeqTsHeader_GetSerializedSize mode = 6 + of_nat (IntHeader_GetStaticSize mode)"

definition SeqTsHeader_Serialize :: "Mode \<Rightarrow> int \<Rightarrow> SeqTsHeader \<Rightarrow> iter \<Rightarrow> bheap \<Rightarrow> (iter \<times> bheap) res" where
  "SeqTsHeader_Serialize mode pb h = writeSeq [WriteHtonU32 (st_seq h), WriteHtonU16 (st_pg h), IntHeader_Serialize mode pb (st_ih h)]"

definition SeqTsHeader_Deserialize :: "Mode \<Rightarrow> int \<Rightarrow> SeqTsHeader \<Rightarrow> iter \<Rightarrow> bheap \<Rightarrow> (iter \<times> SeqTsHeader \<times> u32) res" where
  "SeqTsHeader_Deserialize mode pb h i s =
     bindr (ReadNtohU32 i s) (\<lambda>(i, seq).
     bindr (ReadNtohU16 i s) (\<lambda>(i, pg).
     bindr (IntHeader_Deserialize mode pb (st_ih h) i s) (\<lambda>(i, ih, _).
     Inr (i, h\<lparr>st_seq := seq, st_pg := pg, st_ih := ih\<rparr>, SeqTsHeader_GetSerializedSize mode))))"

record qbbHeader =
  qh_sport :: u16
  qh_dport :: u16
  qh_flags :: u16
  qh_pg :: u16
  qh_seq :: u32
  qh_ih :: IntHeader

definition qbbHeader_size :: "Mode \<Rightarrow> u32" where
  "qbbHeader_size mode = (2 + 2 + 2 + 2 + 4) + of_nat (IntHeader_GetStaticSize mode)"

definition qbbHeader_Serialize :: "Mode \<Rightarrow> int \<Rightarrow> qbbHeader \<Rightarrow> iter \<Rightarrow> bheap \<Rightarrow> (iter \<times> bheap) res" where
  "qbbHeader_Serialize mode pb h =
     writeSeq [WriteU16 (qh_sport h), WriteU16 (qh_dport h), WriteU16 (qh_flags h), WriteU16 (qh_pg h), WriteU32 (qh_seq h),
               IntHeader_Serialize mode pb (qh_ih h)]"

definition qbbHeader_Deserialize :: "Mode \<Rightarrow> int \<Rightarrow> qbbHeader \<Rightarrow> iter \<Rightarrow> bheap \<Rightarrow> (iter \<times> qbbHeader \<times> u32) res" where
  "qbbHeader_Deserialize mode pb h i s =
     bindr (ReadU16 i s) (\<lambda>(i, sp).
     bindr (ReadU16 i s) (\<lambda>(i, dp).
     bindr (ReadU16 i s) (\<lambda>(i, fl).
     bindr (ReadU16 i s) (\<lambda>(i, pg).
     bindr (ReadU32 i s) (\<lambda>(i, seq).
     bindr (IntHeader_Deserialize mode pb (qh_ih h) i s) (\<lambda>(i, ih, _).
     Inr (i, h\<lparr>qh_sport := sp, qh_dport := dp, qh_flags := fl, qh_pg := pg, qh_seq := seq, qh_ih := ih\<rparr>,
          qbbHeader_size mode)))))))"

definition qbbHeader_SetCnp :: "qbbHeader \<Rightarrow> qbbHeader" where
  "qbbHeader_SetCnp h = h\<lparr>qh_flags := qh_flags h OR push_bit 0 1\<rparr>"

definition qbbHeader_GetCnp :: "qbbHeader \<Rightarrow> u8" where
  "qbbHeader_GetCnp h = ucast (drop_bit 0 (qh_flags h) AND 1)"

record PauseHeader =
  ph_time :: u32
  ph_qlen :: u32
  ph_qindex :: u8

definition PauseHeader_GetSerializedSize :: u32 where "PauseHeader_GetSerializedSize = 9"

definition PauseHeader_Serialize :: "PauseHeader \<Rightarrow> iter \<Rightarrow> bheap \<Rightarrow> (iter \<times> bheap) res" where
  "PauseHeader_Serialize h = writeSeq [WriteU32 (ph_time h), WriteU32 (ph_qlen h), WriteU8 (ph_qindex h)]"

definition PauseHeader_Deserialize :: "PauseHeader \<Rightarrow> iter \<Rightarrow> bheap \<Rightarrow> (iter \<times> PauseHeader \<times> u32) res" where
  "PauseHeader_Deserialize h i s =
     bindr (ReadU32 i s) (\<lambda>(i, t). bindr (ReadU32 i s) (\<lambda>(i, q). bindr (ReadU8 i s) (\<lambda>(i, x).
     Inr (i, h\<lparr>ph_time := t, ph_qlen := q, ph_qindex := x\<rparr>, PauseHeader_GetSerializedSize))))"

record CnHeader =
  cn_fid :: u16
  cn_qIndex :: u8
  cn_qfb :: u16
  cn_ecnBits :: u8
  cn_total :: u16

text \<open>\<^verbatim>\<open>m_seq\<close> is a union with the feedback and the total.\<close>

definition CnHeader_SetSeq :: "u32 \<Rightarrow> CnHeader \<Rightarrow> CnHeader" where
  "CnHeader_SetSeq v h = h\<lparr>cn_qfb := ucast v, cn_total := ucast (drop_bit 16 v)\<rparr>"

definition CnHeader_GetSeq :: "CnHeader \<Rightarrow> u32" where
  "CnHeader_GetSeq h = ucast (cn_qfb h) OR push_bit 16 (ucast (cn_total h))"

definition CnHeader_GetSerializedSize :: u32 where "CnHeader_GetSerializedSize = 8"

definition CnHeader_Serialize :: "CnHeader \<Rightarrow> iter \<Rightarrow> bheap \<Rightarrow> (iter \<times> bheap) res" where
  "CnHeader_Serialize h =
     writeSeq [WriteU8 (cn_qIndex h), WriteU16 (cn_fid h), WriteU8 (cn_ecnBits h), WriteU16 (cn_qfb h), WriteU16 (cn_total h)]"

definition CnHeader_Deserialize :: "CnHeader \<Rightarrow> iter \<Rightarrow> bheap \<Rightarrow> (iter \<times> CnHeader \<times> u32) res" where
  "CnHeader_Deserialize h i s =
     bindr (ReadU8 i s) (\<lambda>(i, qi). bindr (ReadU16 i s) (\<lambda>(i, f). bindr (ReadU8 i s) (\<lambda>(i, e).
     bindr (ReadU16 i s) (\<lambda>(i, q). bindr (ReadU16 i s) (\<lambda>(i, t).
     Inr (i, h\<lparr>cn_qIndex := qi, cn_fid := f, cn_ecnBits := e, cn_qfb := q, cn_total := t\<rparr>, CnHeader_GetSerializedSize))))))"

record PppHeader = m_protocol :: u16

definition PppHeader_GetSerializedSize :: u32 where "PppHeader_GetSerializedSize = 14"

definition PppHeader_Serialize :: "PppHeader \<Rightarrow> iter \<Rightarrow> bheap \<Rightarrow> (iter \<times> bheap) res" where
  "PppHeader_Serialize h = WriteHtonU16 (m_protocol h)"

definition PppHeader_Deserialize :: "PppHeader \<Rightarrow> iter \<Rightarrow> bheap \<Rightarrow> (iter \<times> PppHeader \<times> u32) res" where
  "PppHeader_Deserialize h i s = bindr (ReadNtohU16 i s) (\<lambda>(i, p). Inr (i, h\<lparr>m_protocol := p\<rparr>, PppHeader_GetSerializedSize))"

subsection \<open>Their bytes\<close>

definition seqTsBytes :: "Mode \<Rightarrow> int \<Rightarrow> SeqTsHeader \<Rightarrow> u8 list" where
  "seqTsBytes mode pb h = rev (leBytes 4 (st_seq h)) @ rev (leBytes 2 (st_pg h)) @ intBytes mode pb (st_ih h)"

definition qbbBytes :: "Mode \<Rightarrow> int \<Rightarrow> qbbHeader \<Rightarrow> u8 list" where
  "qbbBytes mode pb h = leBytes 2 (qh_sport h) @ leBytes 2 (qh_dport h) @ leBytes 2 (qh_flags h) @ leBytes 2 (qh_pg h)
     @ leBytes 4 (qh_seq h) @ intBytes mode pb (qh_ih h)"

definition pauseBytes :: "PauseHeader \<Rightarrow> u8 list" where
  "pauseBytes h = leBytes 4 (ph_time h) @ leBytes 4 (ph_qlen h) @ [ph_qindex h]"

definition cnBytes :: "CnHeader \<Rightarrow> u8 list" where
  "cnBytes h = [cn_qIndex h] @ leBytes 2 (cn_fid h) @ [cn_ecnBits h] @ leBytes 2 (cn_qfb h) @ leBytes 2 (cn_total h)"

definition pppBytes :: "PppHeader \<Rightarrow> u8 list" where
  "pppBytes h = rev (leBytes 2 (m_protocol h))"

lemmas header_bytes = seqTsBytes_def qbbBytes_def pauseBytes_def cnBytes_def pppBytes_def

lemma parses_map2: "parses f bs (x, y) \<Longrightarrow> parses (\<lambda>i s. bindr (f i s) (\<lambda>(i, u, v). Inr (i, h u v))) bs (h x y)"
  unfolding parses_def by (metis (mono_tags, lifting) bindr_simps(2) case_prod_conv)

lemma writes_const: "writes f bs \<Longrightarrow> serializes f (\<lambda>_. bs)"
  by (rule writes_serializes[where f = "\<lambda>_. f"]) simp_all

lemma writes_list: "list_all2 writes fs bss \<Longrightarrow> bs = concat bss \<Longrightarrow> writes (writeSeq fs) bs"
  using writes_writeSeq by simp

interpretation seqTs: header_codec "SeqTsHeader_Serialize mode pb" "SeqTsHeader_Deserialize mode pb" "SeqTsHeader_GetSerializedSize mode"
  "\<lambda>h _. seqTsBytes mode pb h" "\<lambda>_ h0 h. h\<lparr>st_ih := intRestored mode pb (st_ih h0) (st_ih h)\<rparr>" "\<lambda>h. wf_int (st_ih h)" for mode pb
proof (unfold_locales, goal_cases)
  case (1 h)
  have "writes (SeqTsHeader_Serialize mode pb h) (seqTsBytes mode pb h)"
    unfolding SeqTsHeader_Serialize_def
    by (rule writes_list[where bss = "[rev (leBytes 4 (st_seq h)), rev (leBytes 2 (st_pg h)), intBytes mode pb (st_ih h)]"])
      (simp_all add: writes_int writes_IntHeader header_bytes)
  then show ?case by (rule writes_const)
next
  case (2 h z)
  then show ?case using length_intBytes[of mode pb "st_ih h"]
    by (cases mode) (simp_all add: header_bytes SeqTsHeader_GetSerializedSize_def IntHeader_GetStaticSize_def maxHop_def)
next
  case (3 h h0 z)
  note ih = parses_IntHeader[OF 3(1), of mode pb "st_ih h0"]
  show ?case unfolding SeqTsHeader_Deserialize_def seqTsBytes_def
    by (rule parses_eq[OF _ refl], (rule parses_seq, rule parses_int)+, rule parses_map2, rule ih) (cases h, cases h0, simp)
qed

interpretation qbb: header_codec "qbbHeader_Serialize mode pb" "qbbHeader_Deserialize mode pb" "qbbHeader_size mode"
  "\<lambda>h _. qbbBytes mode pb h" "\<lambda>_ h0 h. h\<lparr>qh_ih := intRestored mode pb (qh_ih h0) (qh_ih h)\<rparr>" "\<lambda>h. wf_int (qh_ih h)" for mode pb
proof (unfold_locales, goal_cases)
  case (1 h)
  have "writes (qbbHeader_Serialize mode pb h) (qbbBytes mode pb h)"
    unfolding qbbHeader_Serialize_def
    by (rule writes_list[where bss = "[leBytes 2 (qh_sport h), leBytes 2 (qh_dport h), leBytes 2 (qh_flags h), leBytes 2 (qh_pg h),
        leBytes 4 (qh_seq h), intBytes mode pb (qh_ih h)]"])
      (simp_all add: writes_int writes_IntHeader header_bytes)
  then show ?case by (rule writes_const)
next
  case (2 h z)
  then show ?case using length_intBytes[of mode pb "qh_ih h"]
    by (cases mode) (simp_all add: header_bytes qbbHeader_size_def IntHeader_GetStaticSize_def maxHop_def)
next
  case (3 h h0 z)
  note ih = parses_IntHeader[OF 3(1), of mode pb "qh_ih h0"]
  show ?case unfolding qbbHeader_Deserialize_def qbbBytes_def
    by (rule parses_eq[OF _ refl], (rule parses_seq, rule parses_int)+, rule parses_map2, rule ih) (cases h, cases h0, simp)
qed

interpretation pause: header_codec PauseHeader_Serialize PauseHeader_Deserialize PauseHeader_GetSerializedSize
  "\<lambda>h _. pauseBytes h" "\<lambda>_ h0 h. h" "\<lambda>_. True"
proof (unfold_locales, goal_cases)
  case (1 h)
  have "writes (PauseHeader_Serialize h) (pauseBytes h)"
    unfolding PauseHeader_Serialize_def
    by (rule writes_list[where bss = "[leBytes 4 (ph_time h), leBytes 4 (ph_qlen h), [ph_qindex h]]"]) (simp_all add: writes_int header_bytes)
  then show ?case by (rule writes_const)
next
  case (2 h z)
  show ?case by (simp add: header_bytes PauseHeader_GetSerializedSize_def)
next
  case (3 h h0 z)
  show ?case unfolding PauseHeader_Deserialize_def pauseBytes_def
    by (rule parses_eq[OF _ refl], rule parses_seq, rule parses_int, rule parses_seq, rule parses_int, rule parses_map, rule parses_int) (cases h, cases h0, simp)
qed

interpretation cn: header_codec CnHeader_Serialize CnHeader_Deserialize CnHeader_GetSerializedSize
  "\<lambda>h _. cnBytes h" "\<lambda>_ h0 h. h" "\<lambda>_. True"
proof (unfold_locales, goal_cases)
  case (1 h)
  have "writes (CnHeader_Serialize h) (cnBytes h)"
    unfolding CnHeader_Serialize_def
    by (rule writes_list[where bss = "[[cn_qIndex h], leBytes 2 (cn_fid h), [cn_ecnBits h], leBytes 2 (cn_qfb h), leBytes 2 (cn_total h)]"])
      (simp_all add: writes_int header_bytes)
  then show ?case by (rule writes_const)
next
  case (2 h z)
  show ?case by (simp add: header_bytes CnHeader_GetSerializedSize_def)
next
  case (3 h h0 z)
  show ?case unfolding CnHeader_Deserialize_def cnBytes_def
    by (rule parses_eq[OF _ refl], rule parses_seq, rule parses_int, rule parses_seq, rule parses_int, rule parses_seq, rule parses_int,
        rule parses_seq, rule parses_int, rule parses_map, rule parses_int) (cases h, cases h0, simp)
qed

interpretation ppp: header_codec PppHeader_Serialize PppHeader_Deserialize PppHeader_GetSerializedSize
  "\<lambda>h _. pppBytes h" "\<lambda>_ h0 h. h" "\<lambda>_. True"
proof (unfold_locales, goal_cases)
  case (1 h)
  show ?case by (rule writes_const) (simp add: PppHeader_Serialize_def writes_int header_bytes)
next
  case (2 h z)
  show ?case by (simp add: header_bytes PppHeader_GetSerializedSize_def)
next
  case (3 h h0 z)
  show ?case unfolding PppHeader_Deserialize_def pppBytes_def
    by (rule parses_eq[OF _ refl], rule parses_map, rule parses_int) (cases h, cases h0, simp)
qed

lemma CnHeader_seq: "CnHeader_GetSeq (CnHeader_SetSeq v h) = v"
  by (rule bit_word_eqI) (auto simp: CnHeader_GetSeq_def CnHeader_SetSeq_def bit_or_iff bit_push_bit_iff bit_ucast_iff bit_drop_bit_eq)

lemma qbbHeader_cnp: "qbbHeader_GetCnp (qbbHeader_SetCnp h) = 1"
proof -
  have "(qh_flags h OR 1) AND 1 = (1 :: u16)" by (rule bit_word_eqI) (auto simp: bit_and_iff bit_or_iff bit_1_iff)
  then show ?thesis by (simp add: qbbHeader_GetCnp_def qbbHeader_SetCnp_def)
qed

end
