(* ===== verification/Ip_Headers.thy ===== *)
theory Ip_Headers
  imports Header_Bytes
begin

text \<open>
  The internet headers of an RDMA packet (internet/model/ipv4-header.cc, udp-header.cc), with the
  internet checksum (network/model/buffer.cc, \<^verbatim>\<open>CalculateIpChecksum\<close>).  A network address of the UDP
  pseudo header is its bytes and whether it is an IPv4, an IPv6 or another address.
\<close>

subsection \<open>The internet checksum\<close>

text \<open>\<^verbatim>\<open>while (sum >> 16) sum = (sum & 0xffff) + (sum >> 16)\<close>\<close>

function foldSum :: "u32 \<Rightarrow> u32" where
  "foldSum w = (if drop_bit 16 w = 0 then w else foldSum ((w AND 0xffff) + drop_bit 16 w))"
  by auto

lemma unat_high: "unat (drop_bit 16 w :: u32) = unat w div 65536"
  by (simp add: drop_bit_eq_div unat_div)

lemma unat_fold_step:
  "unat ((w AND 0xffff) + drop_bit 16 w :: u32) = unat w mod 65536 + unat w div 65536"
proof -
  have "w AND 0xffff = w mod 65536" using take_bit_eq_mask[of 16 w] by (simp add: take_bit_eq_mod mask_eq_exp_minus_1)
  then have m: "unat (w AND 0xffff) = unat w mod 65536" by (simp add: unat_mod)
  have "unat w < 2 ^ 32" by (rule unat_u32_bound)
  then show ?thesis using m unat_high[of w] by (subst unat_add_u32) (simp_all add: less_mult_imp_div_less)
qed

lemma high_nonzero: "drop_bit 16 w \<noteq> (0 :: u32) \<longleftrightarrow> 65536 \<le> unat w"
proof -
  have "drop_bit 16 w = 0 \<longleftrightarrow> unat w div 65536 = 0" unfolding unat_high[symmetric] by (rule unat_eq_zero[symmetric])
  then show ?thesis by (auto simp: div_eq_0_iff)
qed

termination foldSum
proof (relation "measure unat")
  fix w :: u32
  assume "drop_bit 16 w \<noteq> 0"
  then have "65536 \<le> unat w" by (simp only: high_nonzero)
  then have "0 < unat w div 65536" by (simp add: div_greater_zero_iff)
  moreover have "65536 * (unat w div 65536) + unat w mod 65536 = unat w" by simp
  ultimately have "unat w mod 65536 + unat w div 65536 < unat w" by linarith
  then show "((w AND 0xffff) + drop_bit 16 w, w) \<in> measure unat" unfolding in_measure unat_fold_step .
qed simp

declare foldSum.simps [simp del]

lemma foldSum_spec:
  "unat (foldSum w) < 65536 \<and> unat (foldSum w) mod 65535 = unat w mod 65535 \<and> (foldSum w = 0 \<longleftrightarrow> w = 0)"
proof (induction w rule: foldSum.induct)
  case (1 w)
  show ?case
  proof (cases "drop_bit 16 w = 0")
    case True
    then have "unat w < 65536" using high_nonzero[of w] by linarith
    then show ?thesis using True by (subst (1 2 3) foldSum.simps) simp
  next
    case False
    let ?v = "(w AND 0xffff) + drop_bit 16 w"
    have e: "foldSum w = foldSum ?v" using False by (subst foldSum.simps) simp
    have d: "65536 * (unat w div 65536) + unat w mod 65536 = unat w" by simp
    have "unat w mod 65535 = (65535 * (unat w div 65536) + (unat w mod 65536 + unat w div 65536)) mod 65535" using d by (simp add: algebra_simps)
    then have m: "unat ?v mod 65535 = unat w mod 65535" unfolding unat_fold_step by (simp only: mod_mult_self4 mult.commute)
    have "65536 \<le> unat w" using False by (simp only: high_nonzero)
    then have "0 < unat w div 65536" by (simp add: div_greater_zero_iff)
    then have "unat ?v \<noteq> 0" unfolding unat_fold_step by simp
    then have z: "?v \<noteq> 0" "w \<noteq> 0" using \<open>65536 \<le> unat w\<close> by auto
    show ?thesis using 1[OF False] m z unfolding e by simp
  qed
qed

fun sumU16 :: "nat \<Rightarrow> u32 \<Rightarrow> iter \<Rightarrow> bheap \<Rightarrow> (iter \<times> u32) res" where
  "sumU16 0 w i s = Inr (i, w)"
| "sumU16 (Suc n) w i s = bindr (ReadU16 i s) (\<lambda>(i, v). sumU16 n (w + ucast v) i s)"

definition CalculateIpChecksum :: "u16 \<Rightarrow> u32 \<Rightarrow> iter \<Rightarrow> bheap \<Rightarrow> (iter \<times> u16) res" where
  "CalculateIpChecksum sz initialChecksum i s =
     bindr (sumU16 (unat sz div 2) initialChecksum i s) (\<lambda>(i, w).
     bindr (if odd (unat sz) then bindr (ReadU8 i s) (\<lambda>(i, v). Inr (i, w + ucast v)) else Inr (i, w)) (\<lambda>(i, w).
     Inr (i, ucast (NOT (foldSum w)))))"

text \<open>The sum of the 16-bit words of some bytes, and the checksum it gives.\<close>

fun ipSum :: "u8 list \<Rightarrow> nat" where
  "ipSum (a # b # bs) = unat a + 256 * unat b + ipSum bs"
| "ipSum [a] = unat a"
| "ipSum [] = 0"

definition ipChecksum :: "u32 \<Rightarrow> u8 list \<Rightarrow> u16" where
  "ipChecksum w bs = ucast (NOT (foldSum (w + of_nat (ipSum bs))))"

lemma ipSum_append: "even (length xs) \<Longrightarrow> ipSum (xs @ ys) = ipSum xs + ipSum ys"
  by (induction xs rule: ipSum.induct) simp_all

lemma unat_u8_bound: "unat (a :: u8) < 256"
proof -
  have "unat a < 2 ^ LENGTH(8)" by (rule unsigned_less)
  then show ?thesis by simp
qed

lemma of_le_two: "(of_le [a, b] :: u16) = ucast a + 256 * ucast b"
proof -
  have "(ucast a :: u16) AND push_bit 8 (ucast b) = 0" by (rule bit_word_eqI) (auto simp: bit_and_iff bit_push_bit_iff bit_ucast_iff dest: bit_imp_le_length)
  then have "(ucast a :: u16) + push_bit 8 (ucast b) = ucast a OR push_bit 8 (ucast b)" by (rule disjunctive_add_eq_or)
  then show ?thesis by (simp add: of_le_def push_bit_eq_mult or.commute mult.commute)
qed

lemma unat_of_le_two: "unat (of_le [a, b] :: u16) = unat a + 256 * unat b"
proof -
  have "unat a < 256" "unat b < 256" using unat_u8_bound by (auto simp: less_Suc_eq_le[symmetric])
  then show ?thesis by (simp add: of_le_two unat_word_ariths unsigned_ucast_eq take_bit_eq_mod)
qed

lemma ipSum_leBytes: "ipSum (leBytes 2 (c :: u16)) = unat c"
proof -
  have "leBytes 2 c = [ucast c, ucast (drop_bit 8 c)]" by (simp add: leBytes_def upt_rec)
  then obtain a b where ab: "leBytes 2 c = [a, b]" by blast
  then have "of_le [a, b] = c" using int_decode(1)[of c] by simp
  then show ?thesis using ab unat_of_le_two[of a b] by simp
qed

lemma parses_sum:
  "length bs = 2 * n \<Longrightarrow> parses (sumU16 n w) bs (w + of_nat (ipSum bs))"
proof (induction n arbitrary: bs w)
  case 0
  have "sumU16 0 w = (\<lambda>i s. Inr (i, w))" by (simp add: fun_eq_iff)
  then show ?case using 0 parses_return by simp
next
  case (Suc n)
  then obtain a b cs where bs: "bs = [a, b] @ cs" "length cs = 2 * n" by (auto simp: length_Suc_conv)
  have "sumU16 (Suc n) w = (\<lambda>i s. bindr (ReadU16 i s) (\<lambda>(i, v). sumU16 n (w + ucast v) i s))" by (simp add: fun_eq_iff)
  moreover have "parses (\<lambda>i s. bindr (ReadU16 i s) (\<lambda>(i, v). sumU16 n (w + ucast v) i s)) ([a, b] @ cs)
      (w + ucast (of_le [a, b] :: u16) + of_nat (ipSum cs))"
    by (rule parses_seq, rule reads_parses[OF reads_int(2)], simp, rule refl, rule Suc.IH[OF bs(2)])
  moreover have "(ucast (of_le [a, b] :: u16) :: u32) = of_nat (unat a + 256 * unat b)"
    using unat_of_le_two[of a b] by (metis of_nat_unat)
  ultimately show ?case using bs(1) by (simp add: add.assoc)
qed

lemma parses_checksum:
  assumes "even (length bs)" "length bs = unat sz"
  shows "parses (CalculateIpChecksum sz w) bs (ipChecksum w bs)"
  unfolding CalculateIpChecksum_def ipChecksum_def
proof -
  have "length bs = 2 * (unat sz div 2)" using assms by simp
  from parses_map[OF parses_sum[OF this], of _ "\<lambda>w. ucast (NOT (foldSum w))"]
  show "parses (\<lambda>i s. bindr (sumU16 (unat sz div 2) w i s) (\<lambda>(i, w).
     bindr (if odd (unat sz) then bindr (ReadU8 i s) (\<lambda>(i, v). Inr (i, w + ucast v)) else Inr (i, w)) (\<lambda>(i, w).
     Inr (i, ucast (NOT (foldSum w)))))) bs (ucast (NOT (foldSum (w + of_nat (ipSum bs)))))" using assms by simp
qed

text \<open>The checksum of bytes that hold their own checksum is zero.\<close>

lemma ipSum_bound: "ipSum bs \<le> 65535 * length bs"
proof (induction bs rule: ipSum.induct)
  case (1 a b bs)
  have "unat a \<le> 255" "unat b \<le> 255" using unat_u8_bound by (auto simp: less_Suc_eq_le[symmetric])
  then show ?case using 1 by simp
next
  case (2 a)
  have "unat a \<le> 255" using unat_u8_bound[of a] by simp
  then show ?case by simp
qed simp

lemma unat_not16:
  assumes "unat (x :: u32) < 65536"
  shows "unat (ucast (NOT x) :: u16) = 65535 - unat x"
proof -
  have "NOT x = - 1 - x" by (simp add: not_eq_complement)
  moreover have "unat (- 1 :: u32) = 4294967295" by (simp add: unsigned_minus_1_eq_mask mask_eq_exp_minus_1)
  ultimately have "unat (NOT x) = 4294967295 - unat x" using unat_minus_le[of x "- 1"] by simp
  also have "\<dots> = 65535 * 65536 + (65535 - unat x)" using assms by simp
  finally have "unat (NOT x) mod 65536 = 65535 - unat x" by (simp only: mod_mult_self4 mod_mult_self3) simp
  then show ?thesis by (simp add: unsigned_ucast_eq take_bit_eq_mod)
qed

lemma checksum_closes:
  assumes n: "0 < n" "n + 65535 < 2 ^ 32"
  defines "c \<equiv> ucast (NOT (foldSum (of_nat n))) :: u16"
  shows "(ucast (NOT (foldSum (of_nat (n + unat c)))) :: u16) = 0"
proof -
  let ?f = "foldSum (of_nat n)" and ?g = "foldSum (of_nat (n + unat c))"
  have un: "unat (of_nat n :: u32) = n" using n(2) by (simp add: unat_of_nat)
  then have f: "unat ?f < 65536" "unat ?f mod 65535 = n mod 65535" using foldSum_spec[of "of_nat n"] by simp_all
  then have c: "unat c = 65535 - unat ?f" unfolding c_def by (intro unat_not16)
  then have uc: "unat (of_nat (n + unat c) :: u32) = n + unat c" using n(2) by (simp only: unat_of_nat) simp
  have "(n + unat c) mod 65535 = (unat ?f + (65535 - unat ?f)) mod 65535" using f(2) c by (metis mod_add_left_eq)
  also have "\<dots> = 0" using f(1) by simp
  finally have g: "unat ?g < 65536" "unat ?g mod 65535 = 0" using foldSum_spec[of "of_nat (n + unat c)"] uc by simp_all
  have "(of_nat (n + unat c) :: u32) \<noteq> 0" using uc n(1) by (metis add_gr_0 not_less_zero unat_0)
  then have "unat ?g \<noteq> 0" using foldSum_spec[of "of_nat (n + unat c)"] by (simp add: unat_eq_zero)
  then have "unat ?g = 65535" using g mod_less[of "unat ?g" 65535] by (cases "unat ?g < 65535") simp_all
  then have "unat (ucast (NOT ?g) :: u16) = 0" using unat_not16[OF g(1)] by simp
  then show ?thesis by (simp only: unat_eq_zero)
qed

subsection \<open>IPv4\<close>

record Ipv4Header =
  ip_calcChecksum :: bool
  ip_payloadSize :: u16
  ip_identification :: u16
  ip_tos :: u8
  ip_ttl :: u8
  ip_protocol :: u8
  ip_flags :: "3 word"
  ip_fragmentOffset :: u16
  ip_source :: u32
  ip_destination :: u32
  ip_checksum :: u16
  ip_goodChecksum :: bool
  ip_headerSize :: u16

definition Ipv4Header_init :: Ipv4Header where
  "Ipv4Header_init =
     \<lparr>ip_calcChecksum = False, ip_payloadSize = 0, ip_identification = 0, ip_tos = 0, ip_ttl = 0, ip_protocol = 0, ip_flags = 0,
      ip_fragmentOffset = 0, ip_source = 0x66666666, ip_destination = 0x66666666, ip_checksum = 0, ip_goodChecksum = True, ip_headerSize = 20\<rparr>"

definition Ipv4Header_GetSerializedSize :: "Ipv4Header \<Rightarrow> u32" where
  "Ipv4Header_GetSerializedSize h = ucast (ip_headerSize h)"

definition DONT_FRAGMENT :: "3 word" where "DONT_FRAGMENT = push_bit 0 1"
definition MORE_FRAGMENTS :: "3 word" where "MORE_FRAGMENTS = push_bit 1 1"

definition flagsFrag :: "3 word \<Rightarrow> u16 \<Rightarrow> u8" where
  "flagsFrag fl off =
     (let fragmentOffset = (ucast (off div 8) :: u32); r = ucast (drop_bit 8 fragmentOffset AND 0x1f);
          r = (if fl AND DONT_FRAGMENT \<noteq> 0 then r OR push_bit 6 1 else r)
      in if fl AND MORE_FRAGMENTS \<noteq> 0 then r OR push_bit 5 1 else r)"

definition fragLow :: "u16 \<Rightarrow> u8" where
  "fragLow off = ucast ((ucast (off div 8) :: u32) AND 0xff)"

definition Ipv4Header_Serialize :: "Ipv4Header \<Rightarrow> iter \<Rightarrow> bheap \<Rightarrow> (iter \<times> bheap) res" where
  "Ipv4Header_Serialize h start s =
     bindr (writeSeq
       [WriteU8 (push_bit 4 4 OR 5), WriteU8 (ip_tos h), WriteHtonU16 (ip_payloadSize h + 5 * 4), WriteHtonU16 (ip_identification h),
        WriteU8 (flagsFrag (ip_flags h) (ip_fragmentOffset h)), WriteU8 (fragLow (ip_fragmentOffset h)), WriteU8 (ip_ttl h),
        WriteU8 (ip_protocol h), WriteHtonU16 0, WriteHtonU32 (ip_source h), WriteHtonU32 (ip_destination h)] start s) (\<lambda>(i, s).
     if ip_calcChecksum h then
       bindr (CalculateIpChecksum 20 0 start s) (\<lambda>(_, checksum).
       bindr (Next 10 start) (\<lambda>i. WriteU16 checksum i s))
     else Inr (i, s))"

text \<open>Reading a byte, stepping back and reading it again.\<close>

definition reread :: "iter \<Rightarrow> bheap \<Rightarrow> (iter \<times> u8 \<times> u8) res" where
  "reread i s =
     bindr (ReadU8 i s) (\<lambda>(i, a). bindr (Prev 1 i) (\<lambda>i. bindr (ReadU8 i s) (\<lambda>(i, b). Inr (i, a, b))))"

definition flagsOf :: "u8 \<Rightarrow> 3 word" where
  "flagsOf v =
     (let r = (if v AND push_bit 6 1 \<noteq> 0 then DONT_FRAGMENT else 0)
      in if v AND push_bit 5 1 \<noteq> 0 then r OR MORE_FRAGMENTS else r)"

definition offsetOf :: "u8 \<Rightarrow> u8 \<Rightarrow> u16" where
  "offsetOf a b = push_bit 3 (push_bit 8 (ucast (a AND 0x1f)) OR ucast b)"

text \<open>The fields of an IPv4 header; \<open>None\<close> when the version is not 4.\<close>

definition ipFields :: "Ipv4Header \<Rightarrow> iter \<Rightarrow> bheap \<Rightarrow> (iter \<times> Ipv4Header option) res" where
  "ipFields h i s =
     bindr (ReadU8 i s) (\<lambda>(i, verIhl).
     if drop_bit 4 verIhl \<noteq> 4 then Inr (i, None)
     else
       bindr (ReadU8 i s) (\<lambda>(i, tos).
       bindr (ReadNtohU16 i s) (\<lambda>(i, sz).
       bindr (ReadNtohU16 i s) (\<lambda>(i, ident).
       bindr (reread i s) (\<lambda>(i, fl).
       bindr (ReadU8 i s) (\<lambda>(i, lo).
       bindr (ReadU8 i s) (\<lambda>(i, ttl).
       bindr (ReadU8 i s) (\<lambda>(i, prot).
       bindr (ReadU16 i s) (\<lambda>(i, csum).
       bindr (ReadNtohU32 i s) (\<lambda>(i, src).
       bindr (ReadNtohU32 i s) (\<lambda>(i, dst).
       Inr (i, let headerSize = ucast (verIhl AND 0x0f) * 4 in
         Some (h\<lparr>ip_tos := tos, ip_payloadSize := sz - headerSize, ip_identification := ident, ip_flags := flagsOf (fst fl),
                 ip_fragmentOffset := offsetOf (snd fl) lo, ip_ttl := ttl, ip_protocol := prot, ip_checksum := csum, ip_source := src,
                 ip_destination := dst, ip_headerSize := headerSize\<rparr>)))))))))))))"

definition Ipv4Header_Deserialize :: "Ipv4Header \<Rightarrow> iter \<Rightarrow> bheap \<Rightarrow> (iter \<times> Ipv4Header \<times> u32) res" where
  "Ipv4Header_Deserialize h start s =
     bindr (ipFields h start s) (\<lambda>(i, r). case r of None \<Rightarrow> Inr (i, h, 0)
     | Some h \<Rightarrow>
         if ip_calcChecksum h then
           bindr (CalculateIpChecksum (ip_headerSize h) 0 start s) (\<lambda>(_, checksum).
           Inr (i, h\<lparr>ip_goodChecksum := (checksum = 0)\<rparr>, Ipv4Header_GetSerializedSize h))
         else Inr (i, h, Ipv4Header_GetSerializedSize h))"

subsection \<open>UDP\<close>

datatype addrKind = Ipv4Kind | Ipv6Kind | OtherKind

record netAddress =
  na_kind :: addrKind
  na_bytes :: "u8 list"

record UdpHeader =
  ud_sourcePort :: u16
  ud_destinationPort :: u16
  ud_payloadSize :: u16
  ud_source :: netAddress
  ud_destination :: netAddress
  ud_protocol :: u8
  ud_checksum :: u16
  ud_calcChecksum :: bool
  ud_goodChecksum :: bool

definition UdpHeader_GetSerializedSize :: u32 where "UdpHeader_GetSerializedSize = 8"

definition iter_GetSize :: "iter \<Rightarrow> u32" where
  "iter_GetSize i = it_dataEnd i - it_dataStart i"

definition iter_GetRemainingSize :: "iter \<Rightarrow> u32" where
  "iter_GetRemainingSize i = it_dataEnd i - it_current i"

definition CalculateHeaderChecksum :: "UdpHeader \<Rightarrow> u16 \<Rightarrow> bheap \<Rightarrow> (u16 \<times> bheap) res" where
  "CalculateHeaderChecksum h sz s =
     bindr (Buffer_Initialize (2 * 20 + 8) s) (\<lambda>(b, s).
     bindr (AddAtStart (2 * 20 + 8) b s) (\<lambda>(b, s).
     bindr (writeSeq
       ([WriteRaw (na_bytes (ud_source h)), WriteRaw (na_bytes (ud_destination h))] @
        (case na_kind (ud_source h) of
           Ipv4Kind \<Rightarrow> [WriteU8 0, WriteU8 (ud_protocol h), WriteU8 (ucast (drop_bit 8 sz)), WriteU8 (ucast (sz AND 0xff))]
         | Ipv6Kind \<Rightarrow> [WriteU16 0, WriteU8 (ucast (drop_bit 8 sz)), WriteU8 (ucast (sz AND 0xff)), WriteU16 0, WriteU8 0, WriteU8 (ud_protocol h)]
         | OtherKind \<Rightarrow> [])) (Begin b) s) (\<lambda>(_, s).
     bindr (CalculateIpChecksum (case na_kind (ud_source h) of Ipv4Kind \<Rightarrow> 12 | Ipv6Kind \<Rightarrow> 40 | OtherKind \<Rightarrow> 0) 0 (Begin b) s) (\<lambda>(_, c).
     bindr (Buffer_destroy b s) (\<lambda>s. Inr (NOT c, s))))))"

definition UdpHeader_Serialize :: "UdpHeader \<Rightarrow> iter \<Rightarrow> bheap \<Rightarrow> (iter \<times> bheap) res" where
  "UdpHeader_Serialize h start s =
     bindr (writeSeq
       [WriteHtonU16 (ud_sourcePort h), WriteHtonU16 (ud_destinationPort h),
        WriteHtonU16 (if ud_payloadSize h = 0 then ucast (iter_GetSize start) else ud_payloadSize h)] start s) (\<lambda>(i, s).
     if ud_checksum h = 0 then
       bindr (WriteU16 0 i s) (\<lambda>(i, s).
       if ud_calcChecksum h then
         bindr (CalculateHeaderChecksum h (ucast (iter_GetSize start)) s) (\<lambda>(headerChecksum, s).
         bindr (CalculateIpChecksum (ucast (iter_GetSize start)) (ucast headerChecksum) start s) (\<lambda>(_, checksum).
         bindr (Next 6 start) (\<lambda>i. WriteU16 checksum i s)))
       else Inr (i, s))
     else WriteU16 (ud_checksum h) i s)"

definition UdpHeader_Deserialize :: "UdpHeader \<Rightarrow> iter \<Rightarrow> bheap \<Rightarrow> (iter \<times> (UdpHeader \<times> u32) \<times> bheap) res" where
  "UdpHeader_Deserialize h start s =
     bindr (ReadNtohU16 start s) (\<lambda>(i, sp).
     bindr (ReadNtohU16 i s) (\<lambda>(i, dp).
     bindr (ReadNtohU16 i s) (\<lambda>(i, sz).
     bindr (ReadU16 i s) (\<lambda>(i, c).
     let h = h\<lparr>ud_sourcePort := sp, ud_destinationPort := dp, ud_payloadSize := sz - ucast UdpHeader_GetSerializedSize, ud_checksum := c\<rparr> in
     if ud_calcChecksum h then
       bindr (CalculateHeaderChecksum h (ucast (iter_GetSize start)) s) (\<lambda>(headerChecksum, s).
       bindr (CalculateIpChecksum (ucast (iter_GetSize start)) (ucast headerChecksum) start s) (\<lambda>(_, checksum).
       Inr (i, (h\<lparr>ud_goodChecksum := (checksum = 0)\<rparr>, UdpHeader_GetSerializedSize), s)))
     else Inr (i, (h, UdpHeader_GetSerializedSize), s)))))"

subsection \<open>The bytes of an IPv4 header\<close>

definition ipBytes :: "Ipv4Header \<Rightarrow> u16 \<Rightarrow> u8 list" where
  "ipBytes h c =
     [push_bit 4 4 OR 5] @ [ip_tos h] @ rev (leBytes 2 (ip_payloadSize h + 5 * 4)) @ rev (leBytes 2 (ip_identification h))
     @ [flagsFrag (ip_flags h) (ip_fragmentOffset h)] @ [fragLow (ip_fragmentOffset h)] @ [ip_ttl h] @ [ip_protocol h]
     @ leBytes 2 c @ rev (leBytes 4 (ip_source h)) @ rev (leBytes 4 (ip_destination h))"

definition ipEnc :: "Ipv4Header \<Rightarrow> u8 list" where
  "ipEnc h = ipBytes h (if ip_calcChecksum h then ipChecksum 0 (ipBytes h 0) else 0)"

lemma length_ipBytes [simp]: "length (ipBytes h c) = 20" "length (ipEnc h) = 20"
  by (simp_all add: ipBytes_def ipEnc_def)

lemma ipBytes_split:
  obtains A C where "\<And>c. ipBytes h c = A @ leBytes 2 c @ C" "length A = 10" "length C = 8" "hd A = 69"
proof
  let ?A = "[push_bit 4 4 OR 5] @ [ip_tos h] @ rev (leBytes 2 (ip_payloadSize h + 5 * 4)) @ rev (leBytes 2 (ip_identification h))
     @ [flagsFrag (ip_flags h) (ip_fragmentOffset h)] @ [fragLow (ip_fragmentOffset h)] @ [ip_ttl h] @ [ip_protocol h]"
  let ?C = "rev (leBytes 4 (ip_source h)) @ rev (leBytes 4 (ip_destination h))"
  show "ipBytes h c = ?A @ leBytes 2 c @ ?C" for c by (simp only: ipBytes_def append_assoc)
  show "length ?A = 10" "length ?C = 8" "hd ?A = 69" by simp_all
qed

lemma ipBytes_poke:
  assumes "20 \<le> length xs"
  shows "poke 10 (leBytes 2 c) (poke 0 (ipBytes h 0) xs) = poke 0 (ipBytes h c) xs"
proof -
  obtain A C where e: "\<And>c. ipBytes h c = A @ leBytes 2 c @ C" and l: "length A = 10" "length C = 8" using ipBytes_split[of h] by metis
  have "poke 0 (A @ leBytes 2 (0 :: u16) @ C) xs = A @ (leBytes 2 (0 :: u16) @ C @ drop 20 xs)" using l by (simp add: poke_def)
  then show ?thesis unfolding e using l by (simp add: poke_def)
qed

lemma leBytes_zero: "rev (leBytes 2 (0 :: u16)) = leBytes 2 (0 :: u16)"
  by (simp add: leBytes_def upt_rec)

lemma writes_ip:
  "writes (writeSeq
       [WriteU8 (push_bit 4 4 OR 5), WriteU8 (ip_tos h), WriteHtonU16 (ip_payloadSize h + 5 * 4), WriteHtonU16 (ip_identification h),
        WriteU8 (flagsFrag (ip_flags h) (ip_fragmentOffset h)), WriteU8 (fragLow (ip_fragmentOffset h)), WriteU8 (ip_ttl h),
        WriteU8 (ip_protocol h), WriteHtonU16 0, WriteHtonU32 (ip_source h), WriteHtonU32 (ip_destination h)]) (ipBytes h 0)"
  by (rule writes_list[where bss = "[[push_bit 4 4 OR 5], [ip_tos h], rev (leBytes 2 (ip_payloadSize h + 5 * 4)), rev (leBytes 2 (ip_identification h)),
       [flagsFrag (ip_flags h) (ip_fragmentOffset h)], [fragLow (ip_fragmentOffset h)], [ip_ttl h], [ip_protocol h],
       rev (leBytes 2 (0 :: u16)), rev (leBytes 4 (ip_source h)), rev (leBytes 4 (ip_destination h))]"])
    (simp_all add: writes_int ipBytes_def leBytes_zero writes_int(5)[of 0, simplified leBytes_zero])

lemma serializes_ip: "serializes (Ipv4Header_Serialize h) (\<lambda>_. ipEnc h)"
  unfolding serializes_def
proof (intro allI impI, elim conjE)
  fix s b B n
  assume ok: "heap_ok s (add_mset b B)" and own: "own_front B b n" and n: "length (ipEnc h) \<le> n"
  obtain s1 where s1: "writeSeq
       [WriteU8 (push_bit 4 4 OR 5), WriteU8 (ip_tos h), WriteHtonU16 (ip_payloadSize h + 5 * 4), WriteHtonU16 (ip_identification h),
        WriteU8 (flagsFrag (ip_flags h) (ip_fragmentOffset h)), WriteU8 (fragLow (ip_fragmentOffset h)), WriteU8 (ip_ttl h),
        WriteU8 (ip_protocol h), WriteHtonU16 0, WriteHtonU32 (ip_source h), WriteHtonU32 (ip_destination h)] (Begin b) s
      = Inr (iter_at b 20, s1)" "heap_ok s1 (add_mset b B)" "views_kept s s1 B" "view s1 b = poke 0 (ipBytes h 0) (view s b)"
    using writesD[OF writes_ip ok own, of 0 h] n by (auto simp: iter_at_0)
  show "\<exists>i s'. Ipv4Header_Serialize h (Begin b) s = Inr (i, s') \<and> heap_ok s' (add_mset b B) \<and> views_kept s s' B
      \<and> view s' b = poke 0 (ipEnc h) (view s b)"
  proof (cases "ip_calcChecksum h")
    case False
    then show ?thesis using s1 by (simp add: Ipv4Header_Serialize_def ipEnc_def)
  next
    case True
    let ?c = "ipChecksum 0 (ipBytes h 0)"
    have len: "20 \<le> length (view s b)" using own_front_room(1)[OF ok own] n by simp
    have v: "view s1 b = ipBytes h 0 @ drop 20 (view s b)" using s1(4) by (simp add: poke_def)
    have c: "CalculateIpChecksum 20 0 (Begin b) s1 = Inr (iter_at b 20, ?c)"
      using parses_at_start[OF parses_checksum[of "ipBytes h 0" 20 0] s1(2) _ v] by simp
    have nx: "Next 10 (Begin b) = Inr (iter_at b 10)" using Next_at[OF s1(2), of b 0 10] v by (simp add: iter_at_0)
    obtain s2 where s2: "WriteU16 ?c (iter_at b 10) s1 = Inr (iter_at b 12, s2)" "heap_ok s2 (add_mset b B)" "views_kept s1 s2 B"
      "view s2 b = poke 10 (leBytes 2 ?c) (view s1 b)"
      using writesD[OF writes_int(2) s1(2) own, of 10 ?c] n by auto
    have "view s2 b = poke 0 (ipEnc h) (view s b)" using s2(4) s1(4) ipBytes_poke[OF len] True by (simp add: ipEnc_def)
    then show ?thesis using True s1(1) c nx s2 views_kept_trans[OF s1(3) s2(3)] by (simp add: Ipv4Header_Serialize_def)
  qed
qed

subsection \<open>Reading it back\<close>

lemma parses_else: "\<not> c \<Longrightarrow> parses g bs x \<Longrightarrow> parses (\<lambda>i s. if c then f i s else g i s) bs x"
  by simp

lemma Prev_at:
  assumes ok: "heap_ok s B" "b \<in># B" and k: "Suc k \<le> length (view s b)"
  shows "Prev 1 (iter_at b (Suc k)) = Inr (iter_at b k)"
proof -
  note v = view_length[OF ok] and w = wf_nat[OF view_length(3)[OF ok]]
  have "Suc k \<le> unat (bf_end b) - unat (bf_start b)" using k v(1) w by linarith
  from unat_pos[OF v(3) this] have "1 \<le> it_current (iter_at b (Suc k))" by (simp add: word_le_nat_alt)
  then show ?thesis by (simp add: Prev_def iter_at_def add.assoc)
qed

lemma parses_reread: "parses reread [v] (v, v)"
  unfolding parses_def
proof (intro allI impI, elim conjE)
  fix s B b pre rest
  assume ok: "heap_ok s B" "b \<in># B" and v: "view s b = pre @ [v] @ rest"
  have "ReadU8 (iter_at b (length pre)) s = Inr (iter_at b (Suc (length pre)), v)" using parsesD[OF parses_int(1) ok v] by simp
  moreover have "Prev 1 (iter_at b (Suc (length pre))) = Inr (iter_at b (length pre))" by (rule Prev_at[OF ok]) (simp add: v)
  ultimately show "reread (iter_at b (length pre)) s = Inr (iter_at b (length pre + length [v]), v, v)" by (simp add: reread_def)
qed

lemma parses_again:
  assumes "parses f bs x" "parses (f' x) bs y"
  shows "parses (\<lambda>i s. bindr (f i s) (\<lambda>(j, v). bindr (f' v i s) (\<lambda>(_, w). Inr (j, g v w)))) bs (g x y)"
  unfolding parses_def
proof (intro allI impI, elim conjE)
  fix s B b pre rest
  assume ok: "heap_ok s B" "b \<in># B" and v: "view s b = pre @ bs @ rest"
  show "bindr (f (iter_at b (length pre)) s) (\<lambda>(j, v). bindr (f' v (iter_at b (length pre)) s) (\<lambda>(_, w). Inr (j, g v w)))
      = Inr (iter_at b (length pre + length bs), g x y)"
    using parsesD[OF assms(1) ok v] parsesD[OF assms(2) ok v] by simp
qed

text \<open>Flags and fragment offset survive, up to the third flag and the three low bits of the offset.\<close>

lemma bit_u8: "bit (v :: u8) n \<Longrightarrow> n < 8"
  using bit_imp_le_length by fastforce

lemma flag_bit: "(v AND push_bit n 1 \<noteq> (0 :: 'a::len word)) = (n < LENGTH('a) \<and> bit v n)"
proof
  assume "v AND push_bit n 1 \<noteq> 0"
  then obtain k where "bit (v AND push_bit n 1) k" by (metis bit_word_eqI bit_0_eq bot_apply bot_bool_def)
  then show "n < LENGTH('a) \<and> bit v n" by (auto simp: bit_and_iff bit_exp_iff possible_bit_def)
next
  assume "n < LENGTH('a) \<and> bit v n"
  then have "bit (v AND push_bit n 1) n" by (simp add: bit_and_iff bit_exp_iff possible_bit_def)
  then show "v AND push_bit n 1 \<noteq> 0" by auto
qed

lemma masks: "w AND 31 = take_bit 5 (w :: 'a::len word)" "w AND 255 = take_bit 8 (w :: 'a::len word)"
  by (simp_all add: take_bit_eq_mask mask_eq_exp_minus_1)

lemma div8: "(off :: u16) div 8 = drop_bit 3 off"
  by (simp add: drop_bit_eq_div)

lemma bits:
  "bit (64 :: nat) n = (n = 6)" "bit (32 :: nat) n = (n = 5)" "bit (2 :: nat) n = (n = 1)"
  "bit (64 :: int) n = (n = 6)" "bit (32 :: int) n = (n = 5)" "bit (2 :: int) n = (n = 1)"
  using bit_exp_iff[where ?'a = nat, of 6 n] bit_exp_iff[where ?'a = nat, of 5 n] bit_exp_iff[where ?'a = nat, of 1 n]
    bit_exp_iff[where ?'a = int, of 6 n] bit_exp_iff[where ?'a = int, of 5 n] bit_exp_iff[where ?'a = int, of 1 n]
  by auto

lemma bit_flagsFrag:
  "bit (flagsFrag fl off) n \<longleftrightarrow> (n < 5 \<and> bit off (n + 11)) \<or> (n = 6 \<and> bit fl 0) \<or> (n = 5 \<and> bit fl 1)"
  unfolding flagsFrag_def DONT_FRAGMENT_def MORE_FRAGMENTS_def flag_bit masks div8 Let_def
  by (auto simp: bit_or_iff bits bit_ucast_iff bit_take_bit_iff bit_drop_bit_eq add.commute dest: bit_imp_le_length)

lemma bit_fragLow: "bit (fragLow off) n \<longleftrightarrow> n < 8 \<and> bit off (n + 3)"
  unfolding fragLow_def masks div8
  by (auto simp: bit_ucast_iff bit_take_bit_iff bit_drop_bit_eq add.commute dest: bit_imp_le_length)

lemma flags_restored: "flagsOf (flagsFrag fl off) = fl AND 3"
proof (rule bit_word_eqI)
  fix n assume "n < LENGTH(3)"
  then have "n = 0 \<or> n = 1 \<or> n = 2" by auto
  moreover have "bit (3 :: 3 word) 0" "bit (3 :: 3 word) 1" "\<not> bit (3 :: 3 word) 2" by (simp_all add: bit_iff_odd)
  ultimately show "bit (flagsOf (flagsFrag fl off)) n = bit (fl AND 3) n"
    unfolding flagsOf_def DONT_FRAGMENT_def MORE_FRAGMENTS_def flag_bit Let_def
    by (auto simp: bit_flagsFrag bit_or_iff bits bit_and_iff)
qed

lemma offset_restored: "offsetOf (flagsFrag fl off) (fragLow off) = push_bit 3 (drop_bit 3 off)"
proof (rule bit_word_eqI)
  fix n assume "n < LENGTH(16)"
  then show "bit (offsetOf (flagsFrag fl off) (fragLow off)) n = bit (push_bit 3 (drop_bit 3 off)) n"
    unfolding offsetOf_def masks
    by (auto simp: bit_flagsFrag bit_fragLow bit_or_iff bit_push_bit_iff bit_ucast_iff bit_take_bit_iff bit_drop_bit_eq)
qed

text \<open>A header that was sent with a checksum is found good.\<close>

lemma ipSum_hd: "xs \<noteq> [] \<Longrightarrow> unat (hd xs) \<le> ipSum xs"
  by (cases xs rule: ipSum.cases) simp_all

lemma ipChecksum_good:
  assumes "ip_calcChecksum h"
  shows "ipChecksum 0 (ipEnc h) = 0"
proof -
  obtain A C where s: "\<And>c. ipBytes h c = A @ leBytes 2 c @ C" and l: "length A = 10" "length C = 8" "hd A = 69" using ipBytes_split[of h] by metis
  let ?n = "ipSum A + ipSum C"
  have e: "ipSum (ipBytes h c) = ?n + unat c" for c using l by (simp add: s ipSum_append ipSum_leBytes)
  have "A \<noteq> []" using l(1) by auto
  then have pos: "0 < ?n" using ipSum_hd[of A] l(3) by simp
  have "ipSum A \<le> 655350" "ipSum C \<le> 524280" using ipSum_bound[of A] ipSum_bound[of C] l by simp_all
  then have "?n + 65535 < 2 ^ 32" by simp
  note z = checksum_closes[OF pos this]
  have c: "ipChecksum 0 (ipBytes h 0) = ucast (NOT (foldSum (of_nat ?n)))" unfolding ipChecksum_def e by simp
  show ?thesis using assms z unfolding ipEnc_def c[symmetric] ipChecksum_def e by simp
qed

definition ipRestored :: "Ipv4Header \<Rightarrow> Ipv4Header \<Rightarrow> Ipv4Header" where
  "ipRestored h0 h =
     h\<lparr>ip_calcChecksum := ip_calcChecksum h0, ip_flags := ip_flags h AND 3,
       ip_fragmentOffset := push_bit 3 (drop_bit 3 (ip_fragmentOffset h)),
       ip_checksum := (if ip_calcChecksum h then ipChecksum 0 (ipBytes h 0) else 0),
       ip_goodChecksum := (if ip_calcChecksum h0 then ip_calcChecksum h \<or> ipChecksum 0 (ipEnc h) = 0 else ip_goodChecksum h0)\<rparr>"

lemma parses_ipFields:
  "parses (ipFields h0) (ipBytes h c)
     (Some (h\<lparr>ip_calcChecksum := ip_calcChecksum h0, ip_flags := ip_flags h AND 3, ip_headerSize := 20,
       ip_fragmentOffset := push_bit 3 (drop_bit 3 (ip_fragmentOffset h)), ip_checksum := c, ip_goodChecksum := ip_goodChecksum h0\<rparr>))"
proof -
  have v: "drop_bit 4 (69 :: u8) = 4" "(69 :: u8) AND 15 = 5" by simp_all
  have ver: "push_bit 4 4 OR 5 = (69 :: u8)" by simp
  show ?thesis unfolding ipFields_def ipBytes_def ver
    by (rule parses_eq[OF _ refl], rule parses_seq, rule parses_int, rule parses_else, simp,
        (rule parses_seq, rule parses_int)+, rule parses_seq, rule parses_reread, (rule parses_seq, rule parses_int)+, rule parses_map, rule parses_int)
      (cases h, cases h0, simp add: Let_def flags_restored offset_restored)
qed

lemma parses_ip:
  assumes "ip_headerSize h = 20"
  shows "parses (Ipv4Header_Deserialize h0) (ipEnc h) (ipRestored h0 h, 20)"
proof -
  let ?c = "if ip_calcChecksum h then ipChecksum 0 (ipBytes h 0) else 0"
  let ?r = "h\<lparr>ip_calcChecksum := ip_calcChecksum h0, ip_flags := ip_flags h AND 3, ip_headerSize := 20,
       ip_fragmentOffset := push_bit 3 (drop_bit 3 (ip_fragmentOffset h)), ip_checksum := ?c, ip_goodChecksum := ip_goodChecksum h0\<rparr>"
  have f: "parses (ipFields h0) (ipEnc h) (Some ?r)" unfolding ipEnc_def by (rule parses_ipFields)
  show ?thesis unfolding parses_def
  proof (intro allI impI, elim conjE)
    fix s B b pre rest
    assume ok: "heap_ok s B" "b \<in># B" and v: "view s b = pre @ ipEnc h @ rest"
    have "parses (CalculateIpChecksum 20 0) (ipEnc h) (ipChecksum 0 (ipEnc h))" by (rule parses_checksum) simp_all
    note c = parsesD[OF this ok v]
    show "Ipv4Header_Deserialize h0 (iter_at b (length pre)) s = Inr (iter_at b (length pre + length (ipEnc h)), ipRestored h0 h, 20)"
      using parsesD[OF f ok v] c assms ipChecksum_good[of h] by (auto simp: Ipv4Header_Deserialize_def Ipv4Header_GetSerializedSize_def ipRestored_def)
  qed
qed

interpretation ipv4: header_codec Ipv4Header_Serialize Ipv4Header_Deserialize 20 "\<lambda>h _. ipEnc h" "\<lambda>_. ipRestored" "\<lambda>h. ip_headerSize h = 20"
  by unfold_locales (simp_all add: serializes_ip parses_ip)

subsection \<open>The bytes of a UDP header\<close>

definition udpBytes :: "UdpHeader \<Rightarrow> u32 \<Rightarrow> u8 list" where
  "udpBytes h z = rev (leBytes 2 (ud_sourcePort h)) @ rev (leBytes 2 (ud_destinationPort h))
     @ rev (leBytes 2 (if ud_payloadSize h = 0 then ucast z else ud_payloadSize h)) @ leBytes 2 (ud_checksum h)"

definition udpRestored :: "u32 \<Rightarrow> UdpHeader \<Rightarrow> UdpHeader \<Rightarrow> UdpHeader" where
  "udpRestored z h0 h =
     h0\<lparr>ud_sourcePort := ud_sourcePort h, ud_destinationPort := ud_destinationPort h,
        ud_payloadSize := (if ud_payloadSize h = 0 then ucast z else ud_payloadSize h) - 8, ud_checksum := ud_checksum h\<rparr>"

lemma serializes_udp:
  assumes "\<not> ud_calcChecksum h"
  shows "serializes (UdpHeader_Serialize h) (udpBytes h)"
proof (rule writes_serializes)
  let ?f = "\<lambda>z. writeSeq [WriteHtonU16 (ud_sourcePort h), WriteHtonU16 (ud_destinationPort h),
     WriteHtonU16 (if ud_payloadSize h = 0 then ucast z else ud_payloadSize h), WriteU16 (ud_checksum h)]"
  show "UdpHeader_Serialize h (Begin b) s = ?f (buf_GetSize b) (Begin b) s" for b s
    using assms by (auto simp: UdpHeader_Serialize_def iter_GetSize_def Begin_def iter_Construct_def buf_GetSize_def bindr_def split: sum.splits)
  show "writes (?f z) (udpBytes h z)" for z
    by (rule writes_list[where bss = "[rev (leBytes 2 (ud_sourcePort h)), rev (leBytes 2 (ud_destinationPort h)),
        rev (leBytes 2 (if ud_payloadSize h = 0 then ucast z else ud_payloadSize h)), leBytes 2 (ud_checksum h)]"])
      (simp_all add: writes_int udpBytes_def)
qed

text \<open>Without a checksum, reading the header does not change the heap.\<close>

definition udpRead :: "UdpHeader \<Rightarrow> iter \<Rightarrow> bheap \<Rightarrow> (iter \<times> UdpHeader \<times> u32) res" where
  "udpRead h i s = bindr (UdpHeader_Deserialize h i s) (\<lambda>(i, r, _). Inr (i, r))"

lemma parses_udp:
  assumes "\<not> ud_calcChecksum h0"
  shows "parses (udpRead h0) (udpBytes h z) (udpRestored z h0 h, 8)"
proof -
  have e: "udpRead h0 = (\<lambda>i s. bindr (ReadNtohU16 i s) (\<lambda>(i, sp). bindr (ReadNtohU16 i s) (\<lambda>(i, dp). bindr (ReadNtohU16 i s) (\<lambda>(i, sz).
     bindr (ReadU16 i s) (\<lambda>(i, c). Inr (i, h0\<lparr>ud_sourcePort := sp, ud_destinationPort := dp, ud_payloadSize := sz - ucast UdpHeader_GetSerializedSize, ud_checksum := c\<rparr>,
       UdpHeader_GetSerializedSize))))))"
    using assms by (auto simp: udpRead_def UdpHeader_Deserialize_def fun_eq_iff bindr_def split: sum.splits)
  show ?thesis unfolding e udpBytes_def
    by (rule parses_eq[OF _ refl], rule parses_seq, rule parses_int, rule parses_seq, rule parses_int, rule parses_seq, rule parses_int,
        rule parses_map, rule parses_int) (simp add: udpRestored_def UdpHeader_GetSerializedSize_def)
qed

lemma UdpHeader_Deserialize_heap:
  assumes "\<not> ud_calcChecksum h0" "UdpHeader_Deserialize h0 i s = Inr (j, r, s')"
  shows "s' = s"
  using assms by (auto simp: UdpHeader_Deserialize_def Let_def bindr_def split: sum.splits prod.splits)

interpretation udp: header_codec UdpHeader_Serialize udpRead UdpHeader_GetSerializedSize udpBytes udpRestored "\<lambda>h. \<not> ud_calcChecksum h"
proof (unfold_locales, goal_cases)
  case (2 h z)
  show ?case by (simp add: udpBytes_def UdpHeader_GetSerializedSize_def)
next
  case (3 h h0 z)
  then show ?case using parses_udp by (simp add: UdpHeader_GetSerializedSize_def)
qed (rule serializes_udp)

subsection \<open>All headers\<close>

text \<open>
  \<^verbatim>\<open>Packet::AddHeader\<close> and \<^verbatim>\<open>Packet::RemoveHeader\<close> take a \<^verbatim>\<open>Header&\<close> and call its virtual functions: the sum
  of the headers, with the functions by case.
\<close>

datatype Header =
    HSeqTs SeqTsHeader
  | HQbb qbbHeader
  | HPause PauseHeader
  | HCn CnHeader
  | HPpp PppHeader
  | HIpv4 Ipv4Header
  | HUdp UdpHeader

fun hdr_GetSerializedSize :: "Mode \<Rightarrow> Header \<Rightarrow> u32" where
  "hdr_GetSerializedSize mode (HSeqTs h) = SeqTsHeader_GetSerializedSize mode"
| "hdr_GetSerializedSize mode (HQbb h) = qbbHeader_size mode"
| "hdr_GetSerializedSize mode (HPause h) = PauseHeader_GetSerializedSize"
| "hdr_GetSerializedSize mode (HCn h) = CnHeader_GetSerializedSize"
| "hdr_GetSerializedSize mode (HPpp h) = PppHeader_GetSerializedSize"
| "hdr_GetSerializedSize mode (HIpv4 h) = Ipv4Header_GetSerializedSize h"
| "hdr_GetSerializedSize mode (HUdp h) = UdpHeader_GetSerializedSize"

fun hdr_Serialize :: "Mode \<Rightarrow> int \<Rightarrow> Header \<Rightarrow> iter \<Rightarrow> bheap \<Rightarrow> (iter \<times> bheap) res" where
  "hdr_Serialize mode pb (HSeqTs h) = SeqTsHeader_Serialize mode pb h"
| "hdr_Serialize mode pb (HQbb h) = qbbHeader_Serialize mode pb h"
| "hdr_Serialize mode pb (HPause h) = PauseHeader_Serialize h"
| "hdr_Serialize mode pb (HCn h) = CnHeader_Serialize h"
| "hdr_Serialize mode pb (HPpp h) = PppHeader_Serialize h"
| "hdr_Serialize mode pb (HIpv4 h) = Ipv4Header_Serialize h"
| "hdr_Serialize mode pb (HUdp h) = UdpHeader_Serialize h"

definition mapHdr :: "('h \<Rightarrow> 'g) \<Rightarrow> (iter \<Rightarrow> bheap \<Rightarrow> (iter \<times> 'h \<times> u32) res) \<Rightarrow> iter \<Rightarrow> bheap \<Rightarrow> (iter \<times> 'g \<times> u32) res" where
  "mapHdr C des i s = bindr (des i s) (\<lambda>(i, h, n). Inr (i, C h, n))"

fun hdr_Deserialize :: "Mode \<Rightarrow> int \<Rightarrow> Header \<Rightarrow> iter \<Rightarrow> bheap \<Rightarrow> (iter \<times> Header \<times> u32) res" where
  "hdr_Deserialize mode pb (HSeqTs h) = mapHdr HSeqTs (SeqTsHeader_Deserialize mode pb h)"
| "hdr_Deserialize mode pb (HQbb h) = mapHdr HQbb (qbbHeader_Deserialize mode pb h)"
| "hdr_Deserialize mode pb (HPause h) = mapHdr HPause (PauseHeader_Deserialize h)"
| "hdr_Deserialize mode pb (HCn h) = mapHdr HCn (CnHeader_Deserialize h)"
| "hdr_Deserialize mode pb (HPpp h) = mapHdr HPpp (PppHeader_Deserialize h)"
| "hdr_Deserialize mode pb (HIpv4 h) = mapHdr HIpv4 (Ipv4Header_Deserialize h)"
| "hdr_Deserialize mode pb (HUdp h) = mapHdr HUdp (udpRead h)"

text \<open>
  What reading a header into the object \<open>h0\<close> of its class gives, for a buffer of size \<open>z\<close>: the header
  itself, but for the members that are not sent; \<open>None\<close> for objects of another class.  The headers are
  well-formed: five hops, an IPv4 header of 20 bytes, no UDP checksum.
\<close>

fun hdr_restored :: "Mode \<Rightarrow> int \<Rightarrow> u32 \<Rightarrow> Header \<Rightarrow> Header \<Rightarrow> Header option" where
  "hdr_restored mode pb z (HSeqTs h0) (HSeqTs h) = Some (HSeqTs (h\<lparr>st_ih := intRestored mode pb (st_ih h0) (st_ih h)\<rparr>))"
| "hdr_restored mode pb z (HQbb h0) (HQbb h) = Some (HQbb (h\<lparr>qh_ih := intRestored mode pb (qh_ih h0) (qh_ih h)\<rparr>))"
| "hdr_restored mode pb z (HPause h0) (HPause h) = Some (HPause h)"
| "hdr_restored mode pb z (HCn h0) (HCn h) = Some (HCn h)"
| "hdr_restored mode pb z (HPpp h0) (HPpp h) = Some (HPpp h)"
| "hdr_restored mode pb z (HIpv4 h0) (HIpv4 h) = Some (HIpv4 (ipRestored h0 h))"
| "hdr_restored mode pb z (HUdp h0) (HUdp h) = Some (HUdp (udpRestored z h0 h))"
| "hdr_restored mode pb z _ _ = None"

fun hdr_ok :: "Header \<Rightarrow> bool" where
  "hdr_ok (HSeqTs h) \<longleftrightarrow> wf_int (st_ih h)"
| "hdr_ok (HQbb h) \<longleftrightarrow> wf_int (qh_ih h)"
| "hdr_ok (HIpv4 h) \<longleftrightarrow> ip_headerSize h = 20"
| "hdr_ok (HUdp h) \<longleftrightarrow> \<not> ud_calcChecksum h"
| "hdr_ok _ \<longleftrightarrow> True"

definition trips :: "u32 \<Rightarrow> (iter \<Rightarrow> bheap \<Rightarrow> (iter \<times> bheap) res) \<Rightarrow> (iter \<Rightarrow> bheap \<Rightarrow> (iter \<times> 'h \<times> u32) res) \<Rightarrow> 'h
    \<Rightarrow> buf \<Rightarrow> bheap \<Rightarrow> buf multiset \<Rightarrow> bool" where
  "trips n ser des r b s B \<longleftrightarrow> (\<exists>b' s' b''. addHeader n ser b s = Inr (b', s') \<and> views_kept s s' B
     \<and> peekHeader des b' s' = Inr (r, n) \<and> removeHeader des b' s' = Inr (b'', r, n) \<and> view s' b'' = view s b)"

lemma trips_map:
  assumes "trips n ser des r b s B"
  shows "trips n ser (mapHdr C des) (C r) b s B"
proof -
  obtain b' s' b'' where t: "addHeader n ser b s = Inr (b', s')" "views_kept s s' B" "peekHeader des b' s' = Inr (r, n)"
    "removeHeader des b' s' = Inr (b'', r, n)" "view s' b'' = view s b" using assms unfolding trips_def by blast
  have "peekHeader (mapHdr C des) b' s' = Inr (C r, n)" "removeHeader (mapHdr C des) b' s' = Inr (b'', C r, n)"
    using t(3,4) by (auto simp: peekHeader_def removeHeader_def mapHdr_def bindr_def split: sum.splits)
  then show ?thesis using t unfolding trips_def by blast
qed

lemma header_trips:
  assumes ok: "heap_ok s (add_mset b B)" "room b (hdr_GetSerializedSize mode h)" "hdr_ok h" "hdr_ok h0"
    and r: "hdr_restored mode pb (of_nat (length (view s b)) + hdr_GetSerializedSize mode h) h0 h = Some r"
  shows "trips (hdr_GetSerializedSize mode h) (hdr_Serialize mode pb h) (hdr_Deserialize mode pb h0) r b s B"
proof (cases h)
  case (HSeqTs x)
  then obtain y where y: "h0 = HSeqTs y" "r = HSeqTs (x\<lparr>st_ih := intRestored mode pb (st_ih y) (st_ih x)\<rparr>)" using r by (cases h0) auto
  show ?thesis unfolding y HSeqTs hdr_Serialize.simps hdr_Deserialize.simps hdr_GetSerializedSize.simps
    by (rule trips_map) (use seqTs.add_remove[OF ok(1), of mode x y pb] ok(2-4) HSeqTs y in \<open>auto simp: trips_def\<close>)
next
  case (HQbb x)
  then obtain y where y: "h0 = HQbb y" "r = HQbb (x\<lparr>qh_ih := intRestored mode pb (qh_ih y) (qh_ih x)\<rparr>)" using r by (cases h0) auto
  show ?thesis unfolding y HQbb hdr_Serialize.simps hdr_Deserialize.simps hdr_GetSerializedSize.simps
    by (rule trips_map) (use qbb.add_remove[OF ok(1), of mode x y pb] ok(2-4) HQbb y in \<open>auto simp: trips_def\<close>)
next
  case (HPause x)
  then obtain y where y: "h0 = HPause y" "r = HPause x" using r by (cases h0) auto
  show ?thesis unfolding y HPause hdr_Serialize.simps hdr_Deserialize.simps hdr_GetSerializedSize.simps
    by (rule trips_map) (use pause.add_remove[OF ok(1), of x y] ok(2-4) HPause y in \<open>auto simp: trips_def\<close>)
next
  case (HCn x)
  then obtain y where y: "h0 = HCn y" "r = HCn x" using r by (cases h0) auto
  show ?thesis unfolding y HCn hdr_Serialize.simps hdr_Deserialize.simps hdr_GetSerializedSize.simps
    by (rule trips_map) (use cn.add_remove[OF ok(1), of x y] ok(2-4) HCn y in \<open>auto simp: trips_def\<close>)
next
  case (HPpp x)
  then obtain y where y: "h0 = HPpp y" "r = HPpp x" using r by (cases h0) auto
  show ?thesis unfolding y HPpp hdr_Serialize.simps hdr_Deserialize.simps hdr_GetSerializedSize.simps
    by (rule trips_map) (use ppp.add_remove[OF ok(1), of x y] ok(2-4) HPpp y in \<open>auto simp: trips_def\<close>)
next
  case (HIpv4 x)
  then obtain y where y: "h0 = HIpv4 y" "r = HIpv4 (ipRestored y x)" using r by (cases h0) auto
  have n: "Ipv4Header_GetSerializedSize x = 20" using ok(3) HIpv4 by (simp add: Ipv4Header_GetSerializedSize_def)
  show ?thesis unfolding y HIpv4 hdr_Serialize.simps hdr_Deserialize.simps hdr_GetSerializedSize.simps n
    by (rule trips_map) (use ipv4.add_remove[OF ok(1), of x y] ok(2-4) HIpv4 y n in \<open>auto simp: trips_def\<close>)
next
  case (HUdp x)
  then obtain y where y: "h0 = HUdp y" "r = HUdp (udpRestored (of_nat (length (view s b)) + UdpHeader_GetSerializedSize) y x)"
    using r by (cases h0) auto
  show ?thesis unfolding y HUdp hdr_Serialize.simps hdr_Deserialize.simps hdr_GetSerializedSize.simps
    by (rule trips_map) (use udp.add_remove[OF ok(1), of x y] ok(2-4) HUdp y in \<open>auto simp: trips_def\<close>)
qed

text \<open>
  C13. Headers survive a packet.  For every packet of a reachable state and every header of the RDMA
  network (telemetry, acknowledgement, pause, congestion notification, point-to-point, IPv4 with or
  without checksum, UDP), adding the header succeeds, looking at it and removing it both give the
  header back with its size, up to the members that are not sent, removing it restores the bytes of the packet,
  no other packet changes, and an IPv4 header that was sent with a checksum is found good.
\<close>

theorem header_roundtrip:
  assumes "pkt_reach fill s" "ps_pkts s k = Some b" "room b (hdr_GetSerializedSize mode h)" "hdr_ok h" "hdr_ok h0"
    "hdr_restored mode pb (buf_GetSize b + hdr_GetSerializedSize mode h) h0 h = Some r"
  shows "\<exists>b' s' b''. addHeader (hdr_GetSerializedSize mode h) (hdr_Serialize mode pb h) b (ps_heap s) = Inr (b', s')
    \<and> (\<forall>j c. ps_pkts s j = Some c \<and> j \<noteq> k \<longrightarrow> view s' c = view (ps_heap s) c)
    \<and> peekHeader (hdr_Deserialize mode pb h0) b' s' = Inr (r, hdr_GetSerializedSize mode h)
    \<and> removeHeader (hdr_Deserialize mode pb h0) b' s' = Inr (b'', r, hdr_GetSerializedSize mode h) \<and> view s' b'' = view (ps_heap s) b"
proof -
  note ok = store_okD[OF pkt_reach_ok[OF assms(1)]]
  let ?m = "(ps_pkts s)(k := None)"
  have sz: "buf_GetSize b = of_nat (length (view (ps_heap s) b))" using view_length(1)[OF ok(2) ok(4)[OF assms(2)]] by simp
  obtain b' s' b'' where t: "addHeader (hdr_GetSerializedSize mode h) (hdr_Serialize mode pb h) b (ps_heap s) = Inr (b', s')"
    "views_kept (ps_heap s) s' (livePkts ?m)" "peekHeader (hdr_Deserialize mode pb h0) b' s' = Inr (r, hdr_GetSerializedSize mode h)"
    "removeHeader (hdr_Deserialize mode pb h0) b' s' = Inr (b'', r, hdr_GetSerializedSize mode h)" "view s' b'' = view (ps_heap s) b"
    using header_trips[OF ok(3)[OF assms(2)] assms(3-5) assms(6)[unfolded sz]] unfolding trips_def by blast
  have "view s' c = view (ps_heap s) c" if "ps_pkts s j = Some c" "j \<noteq> k" for j c
    using t(2) in_live[of ?m j c] that ok(1) by (simp add: views_kept_def)
  then show ?thesis using t by blast
qed

theorem header_roundtrip_witness:
  "\<exists>s b b' s' b''. pktOp (New 3 1000) (pkt_init (\<lambda>_ _. 7)) = Inr s \<and> ps_pkts s 3 = Some b
     \<and> addHeader 9 (PauseHeader_Serialize \<lparr>ph_time = 5, ph_qlen = 6, ph_qindex = 3\<rparr>) b (ps_heap s) = Inr (b', s')
     \<and> removeHeader (hdr_Deserialize NONE 2 (HPause \<lparr>ph_time = 0, ph_qlen = 0, ph_qindex = 0\<rparr>)) b' s'
        = Inr (b'', HPause \<lparr>ph_time = 5, ph_qlen = 6, ph_qindex = 3\<rparr>, 9)"
proof -
  have e: "enabled (New 3 1000) (pkt_init (\<lambda>_ _. 7))" by (simp add: pkt_init_def)
  obtain s where s: "pktOp (New 3 1000) (pkt_init (\<lambda>_ _. 7)) = Inr s" using New_refines[OF store_ok_init e] by (auto simp: refines_def)
  then obtain b H where b: "Buffer_Initialize 1000 (ps_heap (pkt_init (\<lambda>_ _. 7))) = Inr (b, H)" "s = putP 3 b H (pkt_init (\<lambda>_ _. 7))"
    by (auto simp: Packet_new_def bindr_def split: sum.splits)
  have "heap_ok (ps_heap (pkt_init (\<lambda>_ _. 7))) {#}" using store_okD(2)[OF store_ok_init] by (simp add: pkt_init_def livePkts_def)
  from Initialize_ok[OF this, of 1000] b(1) have "unat (bf_end b) \<le> 1000" by (auto simp: pkt_init_def)
  then have room: "room b PauseHeader_GetSerializedSize" by (simp add: room_def PauseHeader_GetSerializedSize_def)
  have "ps_pkts s 3 = Some b" by (simp add: b putP_def)
  then show ?thesis
    using header_roundtrip[OF pkt_reach.step[OF pkt_reach.init e s], of 3 b NONE "HPause \<lparr>ph_time = 5, ph_qlen = 6, ph_qindex = 3\<rparr>"
        "HPause \<lparr>ph_time = 0, ph_qlen = 0, ph_qindex = 0\<rparr>" 2] room s
    by (auto simp: PauseHeader_GetSerializedSize_def)
qed

end
