(* ===== verification/Custom_Header.thy ===== *)
theory Custom_Header
  imports Ip_Headers
begin

text \<open>
  \<^verbatim>\<open>CustomHeader\<close> (network/utils/custom-header.h, custom-header.cc): the parser by which switches and
  hosts read all headers of a packet at once.  The union of the transport headers is its 64 bytes,
  laid out as the compiler does on a 64-bit little-endian machine: \<^verbatim>\<open>udp\<close> and \<^verbatim>\<open>ack\<close> have the same
  layout (ports at 0 and 2, payload size or flags at 4, group at 6, sequence number at 8, telemetry
  at 16), \<^verbatim>\<open>tcp\<close> has its sequence number at 4, acknowledgement at 8, length at 12, flags at 13, window
  at 14, urgent pointer at 16 and options at 18, \<^verbatim>\<open>cnp\<close> its flow at 0, queue at 2, feedback at 4, ECN
  bits at 6 and total at 8, \<^verbatim>\<open>pfc\<close> its time at 0, queue length at 4 and queue at 8.
\<close>

subsection \<open>The union\<close>

definition getM :: "nat \<Rightarrow> nat \<Rightarrow> u8 list \<Rightarrow> 'a::len word" where
  "getM off n raw = of_le (take n (drop off raw))"

definition putM :: "nat \<Rightarrow> nat \<Rightarrow> 'a::len word \<Rightarrow> u8 list \<Rightarrow> u8 list" where
  "putM off n v raw = poke off (leBytes n v) raw"

definition getIh :: "u8 list \<Rightarrow> IntHeader" where
  "getIh raw = \<lparr>hop = map (\<lambda>j. getM (16 + 8 * j) 8 raw) [0..<maxHop], nhop = getM 56 2 raw\<rparr>"

definition putIh :: "IntHeader \<Rightarrow> u8 list \<Rightarrow> u8 list" where
  "putIh h raw = putM 56 2 (nhop h) (poke 16 (concat (map (leBytes 8) (take maxHop (hop h)))) raw)"

record CustomHeader =
  ch_brief :: u32
  ch_headerType :: u32
  ch_getInt :: u32
  ch_pppProto :: u16
  ch_payloadSize :: u16
  ch_ipid :: u16
  ch_tos :: u8
  ch_ttl :: u8
  ch_l3Prot :: u8
  ch_ipv4Flags :: "3 word"
  ch_fragmentOffset :: u16
  ch_sip :: u32
  ch_dip :: u32
  ch_checksum :: u16
  ch_headerSize :: u16
  ch_l4 :: "u8 list"

definition L2_Header :: u32 where "L2_Header = 1"
definition L3_Header :: u32 where "L3_Header = 2"
definition L4_Header :: u32 where "L4_Header = 4"

text \<open>The constructor leaves addresses and union as they are in memory.\<close>

definition CustomHeader_new :: "u32 \<Rightarrow> u32 \<Rightarrow> u32 \<Rightarrow> u8 list \<Rightarrow> CustomHeader" where
  "CustomHeader_new headerType sip0 dip0 raw =
     \<lparr>ch_brief = 1, ch_headerType = headerType, ch_getInt = 1, ch_pppProto = 0, ch_payloadSize = 0, ch_ipid = 0, ch_tos = 0, ch_ttl = 0,
      ch_l3Prot = 0, ch_ipv4Flags = 0, ch_fragmentOffset = 0, ch_sip = sip0, ch_dip = dip0, ch_checksum = 0, ch_headerSize = 5 * 4, ch_l4 = raw\<rparr>"

definition has :: "u32 \<Rightarrow> CustomHeader \<Rightarrow> bool" where
  "has layer h \<longleftrightarrow> ch_headerType h AND layer \<noteq> 0"

definition ch_GetAckSerializedSize :: "Mode \<Rightarrow> u32" where
  "ch_GetAckSerializedSize mode = 2 + 2 + 2 + 2 + 4 + of_nat (IntHeader_GetStaticSize mode)"

definition ch_GetUdpHeaderSize :: "Mode \<Rightarrow> u32" where
  "ch_GetUdpHeaderSize mode = 8 + 2 + 4 + of_nat (IntHeader_GetStaticSize mode)"

definition tcp_length :: "CustomHeader \<Rightarrow> u8" where
  "tcp_length h = getM 12 1 (ch_l4 h)"

definition CustomHeader_GetSerializedSize :: "Mode \<Rightarrow> CustomHeader \<Rightarrow> u32" where
  "CustomHeader_GetSerializedSize mode h =
     (if has L2_Header h then 14 else 0) + (if has L3_Header h then 5 * 4 else 0)
     + (if has L4_Header h then
          if ch_l3Prot h = 0x6 then ucast (tcp_length h) * 4
          else if ch_l3Prot h = 0x11 then ch_GetUdpHeaderSize mode
          else if ch_l3Prot h = 0xFC \<or> ch_l3Prot h = 0xFD then ch_GetAckSerializedSize mode
          else if ch_l3Prot h = 0xFF then 8
          else if ch_l3Prot h = 0xFE then 9
          else 0
        else 0)"

subsection \<open>Writing\<close>

definition tcpOptionLen :: "u8 \<Rightarrow> u32" where
  "tcpOptionLen len = (ucast len - 5) * 4"

definition l4Writes :: "Mode \<Rightarrow> int \<Rightarrow> CustomHeader \<Rightarrow> (iter \<Rightarrow> bheap \<Rightarrow> (iter \<times> bheap) res) list" where
  "l4Writes mode pb h =
     (let raw = ch_l4 h in
      if ch_l3Prot h = 0x6 then
        [WriteHtonU16 (getM 0 2 raw), WriteHtonU16 (getM 2 2 raw), WriteHtonU32 (getM 4 4 raw), WriteHtonU32 (getM 8 4 raw),
         WriteHtonU16 (push_bit 12 (ucast (tcp_length h)) OR ucast (getM 13 1 raw :: u8)), WriteHtonU16 (getM 14 2 raw), WriteHtonU16 0,
         WriteHtonU16 (getM 16 2 raw)]
        @ (if tcpOptionLen (tcp_length h) \<le> 32 then [WriteRaw (take (unat (tcpOptionLen (tcp_length h))) (drop 18 raw))] else [])
      else if ch_l3Prot h = 0x11 then
        [WriteHtonU16 (getM 0 2 raw), WriteHtonU16 (getM 2 2 raw), WriteHtonU16 (getM 4 2 raw), WriteHtonU16 0,
         WriteHtonU32 (getM 8 4 raw), WriteHtonU16 (getM 6 2 raw), IntHeader_Serialize mode pb (getIh raw)]
      else if ch_l3Prot h = 0xFF then
        [WriteU8 (getM 2 1 raw), WriteU16 (getM 0 2 raw), WriteU8 (getM 6 1 raw), WriteU16 (getM 4 2 raw), WriteU16 (getM 8 2 raw)]
      else if ch_l3Prot h = 0xFC \<or> ch_l3Prot h = 0xFD then
        [WriteU16 (getM 0 2 raw), WriteU16 (getM 2 2 raw), WriteU16 (getM 4 2 raw), WriteU16 (getM 6 2 raw), WriteU32 (getM 8 4 raw),
         IntHeader_Serialize mode pb (getIh raw)]
      else if ch_l3Prot h = 0xFE then
        [WriteU32 (getM 0 4 raw), WriteU32 (getM 4 4 raw), WriteU8 (getM 8 1 raw)]
      else [])"

definition CustomHeader_Serialize :: "Mode \<Rightarrow> int \<Rightarrow> CustomHeader \<Rightarrow> iter \<Rightarrow> bheap \<Rightarrow> (iter \<times> bheap) res" where
  "CustomHeader_Serialize mode pb h =
     writeSeq
      ((if has L2_Header h then [WriteHtonU16 (ch_pppProto h), WriteU64 0, WriteU32 0] else [])
       @ (if has L3_Header h then
            [WriteU8 (push_bit 4 4 OR 5), WriteU8 (ch_tos h), WriteHtonU16 (ch_payloadSize h + 5 * 4), WriteHtonU16 (ch_ipid h),
             WriteU8 (flagsFrag (ch_ipv4Flags h) (ch_fragmentOffset h)), WriteU8 (fragLow (ch_fragmentOffset h)), WriteU8 (ch_ttl h),
             WriteU8 (ch_l3Prot h), WriteHtonU16 0, WriteHtonU32 (ch_sip h), WriteHtonU32 (ch_dip h)]
          else [])
       @ (if has L4_Header h then l4Writes mode pb h else []))"

subsection \<open>Reading\<close>

definition chL2 :: "CustomHeader \<Rightarrow> iter \<Rightarrow> bheap \<Rightarrow> (iter \<times> CustomHeader) res" where
  "chL2 h i s = bindr (ReadNtohU16 i s) (\<lambda>(i, p). bindr (skipBytes 12 i s) (\<lambda>(i, _). Inr (i, h\<lparr>ch_pppProto := p\<rparr>)))"

text \<open>The network layer: the header with its size, or \<open>None\<close> for a version other than 4.\<close>

definition chL3 :: "CustomHeader \<Rightarrow> iter \<Rightarrow> bheap \<Rightarrow> (iter \<times> (CustomHeader \<times> u32) option) res" where
  "chL3 h i s =
     bindr (ReadU8 i s) (\<lambda>(i, verIhl).
     if drop_bit 4 verIhl \<noteq> 4 then Inr (i, None)
     else
       bindr (if ch_brief h \<noteq> 0 then
           bindr (ReadU8 i s) (\<lambda>(i, tos).
           bindr (skipBytes 2 i s) (\<lambda>(i, _).
           bindr (ReadNtohU16 i s) (\<lambda>(i, ident).
           bindr (skipBytes 3 i s) (\<lambda>(i, _).
           bindr (ReadU8 i s) (\<lambda>(i, prot).
           bindr (skipBytes 2 i s) (\<lambda>(i, _).
           bindr (ReadNtohU32 i s) (\<lambda>(i, src).
           bindr (ReadNtohU32 i s) (\<lambda>(i, dst).
           Inr (i, h\<lparr>ch_tos := tos, ch_ipid := ident, ch_l3Prot := prot, ch_sip := src, ch_dip := dst\<rparr>)))))))))
         else
           bindr (ReadU8 i s) (\<lambda>(i, tos).
           bindr (ReadNtohU16 i s) (\<lambda>(i, sz).
           bindr (ReadNtohU16 i s) (\<lambda>(i, ident).
           bindr (reread i s) (\<lambda>(i, fl).
           bindr (ReadU8 i s) (\<lambda>(i, lo).
           bindr (ReadU8 i s) (\<lambda>(i, ttl).
           bindr (ReadU8 i s) (\<lambda>(i, prot).
           bindr (ReadU16 i s) (\<lambda>(i, csum).
           bindr (ReadNtohU32 i s) (\<lambda>(i, src).
           bindr (ReadNtohU32 i s) (\<lambda>(i, dst).
           Inr (i, h\<lparr>ch_tos := tos, ch_payloadSize := sz - ucast (verIhl AND 0x0f) * 4, ch_ipid := ident, ch_ipv4Flags := flagsOf (fst fl),
                     ch_fragmentOffset := offsetOf (snd fl) lo, ch_ttl := ttl, ch_l3Prot := prot, ch_checksum := csum, ch_sip := src,
                     ch_dip := dst, ch_headerSize := ucast (verIhl AND 0x0f) * 4\<rparr>))))))))))))
         (\<lambda>(i, h). Inr (i, Some (h, ucast (verIhl AND 0x0f) * 4))))"

text \<open>TCP: the header and the size of the options is \<open>None\<close> when they are longer than 32 bytes.\<close>

definition chTcp :: "CustomHeader \<Rightarrow> iter \<Rightarrow> bheap \<Rightarrow> (iter \<times> CustomHeader \<times> bool) res" where
  "chTcp h i s =
     bindr (ReadNtohU16 i s) (\<lambda>(i, sp).
     bindr (ReadNtohU16 i s) (\<lambda>(i, dp).
     bindr (ReadNtohU32 i s) (\<lambda>(i, seq).
     bindr (ReadNtohU32 i s) (\<lambda>(i, ack).
     let raw = putM 8 4 ack (putM 4 4 seq (putM 2 2 dp (putM 0 2 sp (ch_l4 h)))) in
     bindr (ReadNtohU16 i s) (\<lambda>(i, field).
     let raw = putM 13 1 (ucast (field AND 0x3f) :: u8) raw in
     if ch_brief h \<noteq> 0 then Inr (i, h\<lparr>ch_l4 := raw\<rparr>, True)
     else
       let raw = putM 12 1 (ucast (drop_bit 12 field) :: u8) raw in
       bindr (ReadNtohU16 i s) (\<lambda>(i, win).
       bindr (skipBytes 2 i s) (\<lambda>(i, _).
       bindr (ReadNtohU16 i s) (\<lambda>(i, urg).
       let raw = putM 16 2 urg (putM 14 2 win raw); optionLen = tcpOptionLen (getM 12 1 raw) in
       if optionLen > 32 then Inr (i, h\<lparr>ch_l4 := raw\<rparr>, False)
       else bindr (ReadBytes (unat optionLen) i s) (\<lambda>(i, bs). Inr (i, h\<lparr>ch_l4 := poke 18 bs raw\<rparr>, True)))))))))) "

definition chUdp :: "Mode \<Rightarrow> int \<Rightarrow> CustomHeader \<Rightarrow> iter \<Rightarrow> bheap \<Rightarrow> (iter \<times> CustomHeader) res" where
  "chUdp mode pb h i s =
     bindr (ReadNtohU16 i s) (\<lambda>(i, sp).
     bindr (ReadNtohU16 i s) (\<lambda>(i, dp).
     bindr (if ch_brief h \<noteq> 0 then bindr (skipBytes 4 i s) (\<lambda>(i, _). Inr (i, getM 4 2 (ch_l4 h)))
            else bindr (ReadNtohU16 i s) (\<lambda>(i, ps). bindr (skipBytes 2 i s) (\<lambda>(i, _). Inr (i, ps)))) (\<lambda>(i, ps :: u16).
     bindr (ReadNtohU32 i s) (\<lambda>(i, seq).
     bindr (ReadNtohU16 i s) (\<lambda>(i, pg).
     let raw = putM 6 2 pg (putM 8 4 seq (putM 4 2 ps (putM 2 2 dp (putM 0 2 sp (ch_l4 h))))) in
     if ch_getInt h \<noteq> 0 then
       bindr (IntHeader_Deserialize mode pb (getIh raw) i s) (\<lambda>(i, ih, _). Inr (i, h\<lparr>ch_l4 := putIh ih raw\<rparr>))
     else Inr (i, h\<lparr>ch_l4 := raw\<rparr>))))))"

definition chCnp :: "CustomHeader \<Rightarrow> iter \<Rightarrow> bheap \<Rightarrow> (iter \<times> CustomHeader) res" where
  "chCnp h i s =
     bindr (ReadU8 i s) (\<lambda>(i, qi). bindr (ReadU16 i s) (\<lambda>(i, fid). bindr (ReadU8 i s) (\<lambda>(i, ecn).
     bindr (ReadU16 i s) (\<lambda>(i, qfb). bindr (ReadU16 i s) (\<lambda>(i, total).
     Inr (i, h\<lparr>ch_l4 := putM 8 2 total (putM 4 2 qfb (putM 6 1 ecn (putM 0 2 fid (putM 2 1 qi (ch_l4 h)))))\<rparr>))))))"

definition chAck :: "Mode \<Rightarrow> int \<Rightarrow> CustomHeader \<Rightarrow> iter \<Rightarrow> bheap \<Rightarrow> (iter \<times> CustomHeader) res" where
  "chAck mode pb h i s =
     bindr (ReadU16 i s) (\<lambda>(i, sp).
     bindr (ReadU16 i s) (\<lambda>(i, dp).
     bindr (ReadU16 i s) (\<lambda>(i, fl).
     bindr (ReadU16 i s) (\<lambda>(i, pg).
     bindr (ReadU32 i s) (\<lambda>(i, seq).
     let raw = putM 8 4 seq (putM 6 2 pg (putM 4 2 fl (putM 2 2 dp (putM 0 2 sp (ch_l4 h))))) in
     if ch_getInt h \<noteq> 0 then
       bindr (IntHeader_Deserialize mode pb (getIh raw) i s) (\<lambda>(i, ih, _). Inr (i, h\<lparr>ch_l4 := putIh ih raw\<rparr>))
     else Inr (i, h\<lparr>ch_l4 := raw\<rparr>))))))"

definition chPfc :: "CustomHeader \<Rightarrow> iter \<Rightarrow> bheap \<Rightarrow> (iter \<times> CustomHeader) res" where
  "chPfc h i s =
     bindr (ReadU32 i s) (\<lambda>(i, t). bindr (ReadU32 i s) (\<lambda>(i, q). bindr (ReadU8 i s) (\<lambda>(i, x).
     Inr (i, h\<lparr>ch_l4 := putM 8 1 x (putM 4 4 q (putM 0 4 t (ch_l4 h)))\<rparr>))))"

definition CustomHeader_Deserialize :: "Mode \<Rightarrow> int \<Rightarrow> CustomHeader \<Rightarrow> iter \<Rightarrow> bheap \<Rightarrow> (iter \<times> CustomHeader \<times> u32) res" where
  "CustomHeader_Deserialize mode pb h start s =
     bindr (if has L2_Header h then bindr (chL2 h start s) (\<lambda>(i, h). Inr (i, h, 14)) else Inr (start, h, 0)) (\<lambda>(i, h, l2Size).
     bindr (if has L3_Header h then bindr (Next l2Size start) (\<lambda>i. chL3 h i s) else Inr (i, Some (h, 0))) (\<lambda>(i, r).
     case r of None \<Rightarrow> Inr (i, h, 0)
     | Some (h, l3Size) \<Rightarrow>
       if has L4_Header h then
         if ch_l3Prot h = 0x6 then
           bindr (Next (l2Size + l3Size) start) (\<lambda>i. bindr (chTcp h i s) (\<lambda>(i, h, fits).
           Inr (i, h, if fits then l2Size + l3Size + ucast (tcp_length h) * 4 else 20)))
         else if ch_l3Prot h = 0x11 then
           bindr (Next (l2Size + l3Size) start) (\<lambda>i. bindr (chUdp mode pb h i s) (\<lambda>(i, h). Inr (i, h, l2Size + l3Size + ch_GetUdpHeaderSize mode)))
         else if ch_l3Prot h = 0xFF then bindr (chCnp h i s) (\<lambda>(i, h). Inr (i, h, l2Size + l3Size + 8))
         else if ch_l3Prot h = 0xFC \<or> ch_l3Prot h = 0xFD then
           bindr (chAck mode pb h i s) (\<lambda>(i, h). Inr (i, h, l2Size + l3Size + ch_GetAckSerializedSize mode))
         else if ch_l3Prot h = 0xFE then bindr (chPfc h i s) (\<lambda>(i, h). Inr (i, h, l2Size + l3Size + 9))
         else Inr (i, h, l2Size + l3Size)
       else Inr (i, h, l2Size + l3Size)))"

definition GetIpv4EcnBits :: "CustomHeader \<Rightarrow> u8" where
  "GetIpv4EcnBits h = ch_tos h AND 0x3"

subsection \<open>The fields of the union\<close>

lemma length_putM [simp]: "off + n \<le> length raw \<Longrightarrow> length (putM off n v raw) = length raw"
  by (simp add: putM_def)

lemma getM_putM: "off + n \<le> length raw \<Longrightarrow> 8 * n = LENGTH('a) \<Longrightarrow> getM off n (putM off n (v :: 'a::len word) raw) = v"
  by (simp add: getM_def putM_def poke_def of_le_leBytes)

lemma slice_poke_other:
  assumes "off + n \<le> i \<or> i + length bs \<le> off" "i + length bs \<le> length raw"
  shows "take n (drop off (poke i bs raw)) = take n (drop off raw)"
proof (cases "off + n \<le> i")
  case True
  then have "take n (drop off (poke i bs raw)) = take n (drop off (take (off + n) (poke i bs raw)))" by (simp add: take_drop add.commute)
  also have "\<dots> = take n (drop off raw)" using take_poke[OF True assms(2)] by (simp add: take_drop add.commute)
  finally show ?thesis .
next
  case False
  then show ?thesis using drop_poke[of i bs off raw] assms by simp
qed

lemma getM_putM_other:
  "off + n \<le> off' \<or> off' + n' \<le> off \<Longrightarrow> off' + n' \<le> length raw \<Longrightarrow> getM off n (putM off' n' v raw) = getM off n raw"
  by (simp add: getM_def putM_def slice_poke_other)

lemma concat_chunk:
  assumes "j < length ws"
  shows "take 8 (drop (8 * j) (concat (map (leBytes 8) (ws :: u64 list)))) = leBytes 8 (ws ! j)"
  using assms
proof (induction ws arbitrary: j)
  case (Cons w ws)
  then show ?case by (cases j) simp_all
qed simp

lemma length_chunks [simp]: "length (concat (map (leBytes 8) (ws :: u64 list))) = 8 * length ws"
  by (induction ws) simp_all

lemma putIh_keeps:
  assumes "length raw = 64" "wf_int ih"
  shows "length (putIh ih raw) = 64" "off + n \<le> 16 \<Longrightarrow> getM off n (putIh ih raw) = getM off n raw" "getIh (putIh ih raw) = ih"
proof -
  have w: "take maxHop (hop ih) = hop ih" "length (hop ih) = 5" using assms(2) by (simp_all add: wf_int_def maxHop_def)
  let ?p = "poke 16 (concat (map (leBytes 8) (hop ih))) raw"
  have p: "length ?p = 64" using assms(1) w by simp
  then show "length (putIh ih raw) = 64" by (simp add: putIh_def w)
  show "getM off n (putIh ih raw) = getM off n raw" if "off + n \<le> 16"
    using that p assms(1) w by (simp add: putIh_def getM_putM_other) (simp add: getM_def slice_poke_other)
  have "getM (16 + 8 * j) 8 (putIh ih raw) = hop ih ! j" if "j < 5" for j
  proof -
    have "getM (16 + 8 * j) 8 (putIh ih raw) = (getM (16 + 8 * j) 8 ?p :: u64)" using that p by (simp add: putIh_def w getM_putM_other)
    also have "\<dots> = of_le (take 8 (drop (8 * j) (concat (map (leBytes 8) (hop ih)))))"
      using that assms(1) w by (simp add: getM_def poke_def)
    also have "\<dots> = hop ih ! j" using that w by (simp add: concat_chunk)
    finally show ?thesis .
  qed
  then have "map (\<lambda>j. getM (16 + 8 * j) 8 (putIh ih raw)) [0..<maxHop] = hop ih"
    using w by (intro nth_equalityI) (simp_all add: maxHop_def)
  moreover have "getM 56 2 (putIh ih raw) = nhop ih" using p by (simp add: putIh_def w getM_putM)
  ultimately show "getIh (putIh ih raw) = ih" by (simp add: getIh_def)
qed

lemma wf_getIh [simp]: "wf_int (getIh raw)"
  by (simp add: wf_int_def getIh_def)

lemma wf_intRestored: "wf_int h0 \<Longrightarrow> wf_int h \<Longrightarrow> wf_int (intRestored mode pb h0 h)"
  by (simp add: wf_int_def intRestored_def split: Mode.split)

subsection \<open>Parsing the headers of a packet\<close>

definition l3Read :: "Ipv4Header \<Rightarrow> CustomHeader \<Rightarrow> CustomHeader" where
  "l3Read ip h = h\<lparr>ch_tos := ip_tos ip, ch_ipid := ip_identification ip, ch_l3Prot := ip_protocol ip, ch_sip := ip_source ip, ch_dip := ip_destination ip\<rparr>"

lemma parses_chL2: "length junk = 12 \<Longrightarrow> parses (chL2 h) (pppBytes p @ junk) (h\<lparr>ch_pppProto := m_protocol p\<rparr>)"
  unfolding chL2_def pppBytes_def by (rule parses_seq, rule parses_int, rule parses_map, rule parses_skip) simp

lemma parses_chL3:
  assumes "ch_brief h \<noteq> 0"
  shows "parses (chL3 h) (ipBytes ip c) (Some (l3Read ip h, 20))"
proof -
  have ver: "push_bit 4 4 OR 5 = (69 :: u8)" by simp
  have b: "ipBytes ip c = [69] @ [ip_tos ip] @ rev (leBytes 2 (ip_payloadSize ip + 5 * 4)) @ rev (leBytes 2 (ip_identification ip))
     @ [flagsFrag (ip_flags ip) (ip_fragmentOffset ip), fragLow (ip_fragmentOffset ip), ip_ttl ip] @ [ip_protocol ip]
     @ leBytes 2 c @ rev (leBytes 4 (ip_source ip)) @ rev (leBytes 4 (ip_destination ip))" unfolding ipBytes_def ver by simp
  have l: "(ch_brief h \<noteq> 0) = True" using assms by simp
  show ?thesis unfolding chL3_def b l if_True
    by (rule parses_eq[OF _ refl], rule parses_seq, rule parses_int, rule parses_else, simp, rule parses_map,
        rule parses_seq, rule parses_int, rule parses_seq, rule parses_skip, simp, rule parses_seq, rule parses_int,
        rule parses_seq, rule parses_skip, simp, rule parses_seq, rule parses_int, rule parses_seq, rule parses_skip, simp,
        rule parses_seq, rule parses_int, rule parses_map, rule parses_int) (simp add: l3Read_def)
qed

text \<open>The transport layer of the union, as the receiver reads it.\<close>

definition c_sport :: "CustomHeader \<Rightarrow> u16" where "c_sport h = getM 0 2 (ch_l4 h)"
definition c_dport :: "CustomHeader \<Rightarrow> u16" where "c_dport h = getM 2 2 (ch_l4 h)"
definition c_flags :: "CustomHeader \<Rightarrow> u16" where "c_flags h = getM 4 2 (ch_l4 h)"
definition c_pg :: "CustomHeader \<Rightarrow> u16" where "c_pg h = getM 6 2 (ch_l4 h)"
definition c_seq :: "CustomHeader \<Rightarrow> u32" where "c_seq h = getM 8 4 (ch_l4 h)"
definition c_ih :: "CustomHeader \<Rightarrow> IntHeader" where "c_ih h = getIh (ch_l4 h)"
definition c_pfc :: "CustomHeader \<Rightarrow> u32 \<times> u32 \<times> u8" where
  "c_pfc h = (getM 0 4 (ch_l4 h), getM 4 4 (ch_l4 h), getM 8 1 (ch_l4 h))"
definition c_cnp :: "CustomHeader \<Rightarrow> u8 \<times> u16 \<times> u8 \<times> u16 \<times> u16" where
  "c_cnp h = (getM 2 1 (ch_l4 h), getM 0 2 (ch_l4 h), getM 6 1 (ch_l4 h), getM 4 2 (ch_l4 h), getM 8 2 (ch_l4 h))"

lemmas l4_fields = c_sport_def c_dport_def c_flags_def c_pg_def c_seq_def c_ih_def c_pfc_def c_cnp_def

definition udpRaw :: "UdpHeader \<Rightarrow> SeqTsHeader \<Rightarrow> u8 list \<Rightarrow> u8 list" where
  "udpRaw u st raw =
     putM 6 2 (st_pg st) (putM 8 4 (st_seq st) (putM 4 2 (getM 4 2 raw :: u16) (putM 2 2 (ud_destinationPort u) (putM 0 2 (ud_sourcePort u) raw))))"

definition ackRaw :: "qbbHeader \<Rightarrow> u8 list \<Rightarrow> u8 list" where
  "ackRaw q raw = putM 8 4 (qh_seq q) (putM 6 2 (qh_pg q) (putM 4 2 (qh_flags q) (putM 2 2 (qh_dport q) (putM 0 2 (qh_sport q) raw))))"

lemma parses_chUdp:
  fixes u :: UdpHeader
  assumes "ch_brief h \<noteq> 0" "ch_getInt h \<noteq> 0" "wf_int (st_ih st)"
  defines "raw \<equiv> udpRaw u st (ch_l4 h)"
  shows "parses (chUdp mode pb h) (udpBytes u z @ seqTsBytes mode pb st) (h\<lparr>ch_l4 := putIh (intRestored mode pb (getIh raw) (st_ih st)) raw\<rparr>)"
proof -
  have l: "(ch_brief h \<noteq> 0) = True" "(ch_getInt h \<noteq> 0) = True" using assms by simp_all
  have b: "udpBytes u z @ seqTsBytes mode pb st = rev (leBytes 2 (ud_sourcePort u)) @ rev (leBytes 2 (ud_destinationPort u))
     @ (rev (leBytes 2 (if ud_payloadSize u = 0 then ucast z else ud_payloadSize u)) @ leBytes 2 (ud_checksum u))
     @ rev (leBytes 4 (st_seq st)) @ rev (leBytes 2 (st_pg st)) @ intBytes mode pb (st_ih st)" by (simp add: udpBytes_def seqTsBytes_def)
  show ?thesis unfolding chUdp_def b l if_True Let_def
    by (rule parses_eq[OF _ refl], rule parses_seq, rule parses_int, rule parses_seq, rule parses_int, rule parses_seq,
        rule parses_map, rule parses_skip, simp, rule parses_seq, rule parses_int, rule parses_seq, rule parses_int,
        rule parses_map2, rule parses_IntHeader[OF assms(3)]) (simp add: raw_def udpRaw_def)
qed

lemma parses_chAck:
  assumes "ch_getInt h \<noteq> 0" "wf_int (qh_ih q)"
  defines "raw \<equiv> ackRaw q (ch_l4 h)"
  shows "parses (chAck mode pb h) (qbbBytes mode pb q) (h\<lparr>ch_l4 := putIh (intRestored mode pb (getIh raw) (qh_ih q)) raw\<rparr>)"
proof -
  have l: "(ch_getInt h \<noteq> 0) = True" using assms by simp
  show ?thesis unfolding chAck_def qbbBytes_def l if_True Let_def
    by (rule parses_eq[OF _ refl], rule parses_seq, rule parses_int, rule parses_seq, rule parses_int, rule parses_seq, rule parses_int,
        rule parses_seq, rule parses_int, rule parses_seq, rule parses_int, rule parses_map2, rule parses_IntHeader[OF assms(2)])
      (simp add: raw_def ackRaw_def)
qed

lemma parses_chPfc:
  "parses (chPfc h) (pauseBytes p) (h\<lparr>ch_l4 := putM 8 1 (ph_qindex p) (putM 4 4 (ph_qlen p) (putM 0 4 (ph_time p) (ch_l4 h)))\<rparr>)"
  unfolding chPfc_def pauseBytes_def
  by (rule parses_eq[OF _ refl], rule parses_seq, rule parses_int, rule parses_seq, rule parses_int, rule parses_map, rule parses_int) simp

text \<open>The three layers of a packet that starts with a point-to-point and an IPv4 header.\<close>

definition receives :: "CustomHeader \<Rightarrow> bool" where
  "receives h \<longleftrightarrow> ch_headerType h = L2_Header OR L3_Header OR L4_Header \<and> ch_brief h \<noteq> 0 \<and> ch_getInt h \<noteq> 0 \<and> length (ch_l4 h) = 64"

lemma receives_has: "receives h \<Longrightarrow> has L2_Header h \<and> has L3_Header h \<and> has L4_Header h"
  by (simp add: receives_def has_def L2_Header_def L3_Header_def L4_Header_def)

lemma receives_new: "length raw = 64 \<Longrightarrow> receives (CustomHeader_new (L2_Header OR L3_Header OR L4_Header) a b raw)"
  by (simp add: receives_def CustomHeader_new_def)

definition l23Read :: "PppHeader \<Rightarrow> Ipv4Header \<Rightarrow> CustomHeader \<Rightarrow> CustomHeader" where
  "l23Read p ip h = l3Read ip (h\<lparr>ch_pppProto := m_protocol p\<rparr>)"

lemma receives_l23 [simp]: "receives (l23Read p ip h) = receives h" "ch_l4 (l23Read p ip h) = ch_l4 h" "ch_l3Prot (l23Read p ip h) = ip_protocol ip"
  "ch_brief (l23Read p ip h) = ch_brief h" "ch_getInt (l23Read p ip h) = ch_getInt h"
  by (simp_all add: receives_def l23Read_def l3Read_def)

lemma layers:
  assumes ok: "heap_ok s B" "b \<in># B" and v: "view s b = pppBytes p @ junk @ ipEnc ip @ rest" "length junk = 12" and h: "receives h"
  shows "chL2 h (Begin b) s = Inr (iter_at b 14, h\<lparr>ch_pppProto := m_protocol p\<rparr>)"
    "Next 14 (Begin b) = Inr (iter_at b 14)" "Next 34 (Begin b) = Inr (iter_at b 34)"
    "chL3 (h\<lparr>ch_pppProto := m_protocol p\<rparr>) (iter_at b 14) s = Inr (iter_at b 34, Some (l23Read p ip h, 20))"
    "parses f l4 x \<Longrightarrow> rest = l4 @ rest' \<Longrightarrow> f (iter_at b 34) s = Inr (iter_at b (34 + length l4), x)"
proof -
  have lp: "length (pppBytes p) = 2" by (simp add: pppBytes_def)
  have v2: "view s b = (pppBytes p @ junk) @ ipEnc ip @ rest" using v(1) by simp
  show "chL2 h (Begin b) s = Inr (iter_at b 14, h\<lparr>ch_pppProto := m_protocol p\<rparr>)"
    using parses_at_start[OF parses_chL2[OF v(2)] ok v2] lp v(2) by simp
  show "Next 14 (Begin b) = Inr (iter_at b 14)" "Next 34 (Begin b) = Inr (iter_at b 34)"
    using Next_at[OF ok, of 0 14] Next_at[OF ok, of 0 34] v lp by (simp_all add: iter_at_0)
  have "ch_brief (h\<lparr>ch_pppProto := m_protocol p\<rparr>) \<noteq> 0" using h by (simp add: receives_def)
  from parsesD[OF parses_chL3[OF this] ok v2[unfolded ipEnc_def]] lp v(2)
  show "chL3 (h\<lparr>ch_pppProto := m_protocol p\<rparr>) (iter_at b 14) s = Inr (iter_at b 34, Some (l23Read p ip h, 20))" by (simp add: l23Read_def)
  show "f (iter_at b 34) s = Inr (iter_at b (34 + length l4), x)" if "parses f l4 x" "rest = l4 @ rest'"
    using parsesD[OF that(1) ok, of "pppBytes p @ junk @ ipEnc ip" rest'] v lp that(2) by simp
qed

lemmas custom_run = CustomHeader_Deserialize_def peekHeader_def Let_def

lemma custom_udp:
  assumes ok: "heap_ok s B" "b \<in># B" and v: "view s b = pppBytes p @ junk @ ipEnc ip @ (udpBytes u z @ seqTsBytes mode pb st) @ rest"
    and j: "length junk = 12" and h: "receives h" and prot: "ip_protocol ip = 0x11" and ih: "wf_int (st_ih st)"
  defines "raw \<equiv> udpRaw u st (ch_l4 h)"
  shows "peekHeader (CustomHeader_Deserialize mode pb h) b s
    = Inr ((l23Read p ip h)\<lparr>ch_l4 := putIh (intRestored mode pb (getIh raw) (st_ih st)) raw\<rparr>, 34 + ch_GetUdpHeaderSize mode)"
proof -
  note l = layers[OF ok v j h]
  have b: "ch_brief (l23Read p ip h) \<noteq> 0" "ch_getInt (l23Read p ip h) \<noteq> 0" using h by (simp_all add: receives_def)
  have hs: "has L2_Header h" "has L3_Header (h\<lparr>ch_pppProto := x\<rparr>)" "has L4_Header (l23Read p ip h)" for x
    using receives_has[OF h] receives_has[of "l23Read p ip h"] h by (simp_all add: has_def)
  show ?thesis using l(1-4) l(5)[OF parses_chUdp[OF b ih, of mode pb u z] refl] prot hs by (simp add: custom_run raw_def)
qed

lemma custom_ack:
  assumes ok: "heap_ok s B" "b \<in># B" and v: "view s b = pppBytes p @ junk @ ipEnc ip @ qbbBytes mode pb q @ rest"
    and j: "length junk = 12" and h: "receives h" and prot: "ip_protocol ip = 0xFC \<or> ip_protocol ip = 0xFD" and ih: "wf_int (qh_ih q)"
  defines "raw \<equiv> ackRaw q (ch_l4 h)"
  shows "peekHeader (CustomHeader_Deserialize mode pb h) b s
    = Inr ((l23Read p ip h)\<lparr>ch_l4 := putIh (intRestored mode pb (getIh raw) (qh_ih q)) raw\<rparr>, 34 + ch_GetAckSerializedSize mode)"
proof -
  note l = layers[OF ok v j h]
  have b: "ch_getInt (l23Read p ip h) \<noteq> 0" using h by (simp add: receives_def)
  have hs: "has L2_Header h" "has L3_Header (h\<lparr>ch_pppProto := x\<rparr>)" "has L4_Header (l23Read p ip h)" for x
    using receives_has[OF h] receives_has[of "l23Read p ip h"] h by (simp_all add: has_def)
  show ?thesis using l(1-4) l(5)[OF parses_chAck[OF b ih, of mode pb] refl] prot hs by (auto simp: custom_run raw_def)
qed

lemma custom_pfc:
  assumes ok: "heap_ok s B" "b \<in># B" and v: "view s b = pppBytes p @ junk @ ipEnc ip @ pauseBytes pz @ rest"
    and j: "length junk = 12" and h: "receives h" and prot: "ip_protocol ip = 0xFE"
  shows "peekHeader (CustomHeader_Deserialize mode pb h) b s
    = Inr ((l23Read p ip h)\<lparr>ch_l4 := putM 8 1 (ph_qindex pz) (putM 4 4 (ph_qlen pz) (putM 0 4 (ph_time pz) (ch_l4 h)))\<rparr>, 34 + 9)"
proof -
  note l = layers[OF ok v j h]
  have hs: "has L2_Header h" "has L3_Header (h\<lparr>ch_pppProto := x\<rparr>)" "has L4_Header (l23Read p ip h)" for x
    using receives_has[OF h] receives_has[of "l23Read p ip h"] h by (simp_all add: has_def)
  show ?thesis using l(1-4) l(5)[OF parses_chPfc refl] prot hs by (simp add: custom_run)
qed

text \<open>What the receiver reads from the union.\<close>

lemma udp_fields:
  fixes u :: UdpHeader and st :: SeqTsHeader
  assumes "length raw0 = 64" "wf_int ih"
  defines "raw \<equiv> udpRaw u st raw0"
  shows "c_sport (h\<lparr>ch_l4 := putIh ih raw\<rparr>) = ud_sourcePort u" "c_dport (h\<lparr>ch_l4 := putIh ih raw\<rparr>) = ud_destinationPort u"
    "c_pg (h\<lparr>ch_l4 := putIh ih raw\<rparr>) = st_pg st" "c_seq (h\<lparr>ch_l4 := putIh ih raw\<rparr>) = st_seq st" "c_ih (h\<lparr>ch_l4 := putIh ih raw\<rparr>) = ih"
proof -
  have l: "length raw = 64" using assms(1) by (simp add: raw_def udpRaw_def)
  note k = putIh_keeps[OF l assms(2)]
  show "c_sport (h\<lparr>ch_l4 := putIh ih raw\<rparr>) = ud_sourcePort u" "c_dport (h\<lparr>ch_l4 := putIh ih raw\<rparr>) = ud_destinationPort u"
    "c_pg (h\<lparr>ch_l4 := putIh ih raw\<rparr>) = st_pg st" "c_seq (h\<lparr>ch_l4 := putIh ih raw\<rparr>) = st_seq st" "c_ih (h\<lparr>ch_l4 := putIh ih raw\<rparr>) = ih"
    using assms(1) by (simp_all add: l4_fields k) (simp_all add: raw_def udpRaw_def getM_putM getM_putM_other)
qed

lemma ack_fields:
  fixes q :: qbbHeader
  assumes "length raw0 = 64" "wf_int ih"
  defines "raw \<equiv> ackRaw q raw0"
  shows "c_sport (h\<lparr>ch_l4 := putIh ih raw\<rparr>) = qh_sport q" "c_dport (h\<lparr>ch_l4 := putIh ih raw\<rparr>) = qh_dport q"
    "c_flags (h\<lparr>ch_l4 := putIh ih raw\<rparr>) = qh_flags q"
    "c_pg (h\<lparr>ch_l4 := putIh ih raw\<rparr>) = qh_pg q" "c_seq (h\<lparr>ch_l4 := putIh ih raw\<rparr>) = qh_seq q" "c_ih (h\<lparr>ch_l4 := putIh ih raw\<rparr>) = ih"
proof -
  have l: "length raw = 64" using assms(1) by (simp add: raw_def ackRaw_def)
  note k = putIh_keeps[OF l assms(2)]
  show "c_sport (h\<lparr>ch_l4 := putIh ih raw\<rparr>) = qh_sport q" "c_dport (h\<lparr>ch_l4 := putIh ih raw\<rparr>) = qh_dport q"
    "c_flags (h\<lparr>ch_l4 := putIh ih raw\<rparr>) = qh_flags q"
    "c_pg (h\<lparr>ch_l4 := putIh ih raw\<rparr>) = qh_pg q" "c_seq (h\<lparr>ch_l4 := putIh ih raw\<rparr>) = qh_seq q" "c_ih (h\<lparr>ch_l4 := putIh ih raw\<rparr>) = ih"
    using assms(1) by (simp_all add: l4_fields k) (simp_all add: raw_def ackRaw_def getM_putM getM_putM_other)
qed

lemma pfc_fields:
  "length raw = 64 \<Longrightarrow> c_pfc (h\<lparr>ch_l4 := putM 8 1 (ph_qindex p) (putM 4 4 (ph_qlen p) (putM 0 4 (ph_time p) raw))\<rparr>) = (ph_time p, ph_qlen p, ph_qindex p)"
  by (simp add: l4_fields getM_putM getM_putM_other)

text \<open>In the brief mode the length of a TCP header is not read: it stays what the union held.\<close>

lemma tcp_brief_length:
  assumes "ch_brief h \<noteq> 0" "length (ch_l4 h) = 64" "chTcp h i s = Inr (i', h', r)"
  shows "tcp_length h' = tcp_length h"
  using assms by (auto simp: chTcp_def Let_def tcp_length_def getM_putM_other bindr_def split: sum.splits prod.splits)

end
