(* ===== verification/Wire_Format.thy ===== *)
theory Wire_Format
  imports Custom_Header Host_Refinement
begin

text \<open>
  From the records of \<open>Rdma_Host\<close> and \<open>Switch_Node\<close> to bytes and back.  The host and switch models
  pass packets as records of header fields; here the same code is followed to the bytes: how
  \<^verbatim>\<open>RdmaHw::GetNxtPacket\<close> and \<^verbatim>\<open>RdmaHw::ReceiveUdp\<close> put the headers of a data packet and of an
  acknowledgement into a buffer, and what the \<^verbatim>\<open>CustomHeader\<close> of the receiver reads from it.  The theorems
  say that it reads the fields of the record.
\<close>

subsection \<open>Building packets\<close>

definition UdpHeader_new :: "u8 \<Rightarrow> UdpHeader" where
  "UdpHeader_new prot0 =
     \<lparr>ud_sourcePort = 0xfffd, ud_destinationPort = 0xfffd, ud_payloadSize = 0, ud_source = \<lparr>na_kind = OtherKind, na_bytes = []\<rparr>,
      ud_destination = \<lparr>na_kind = OtherKind, na_bytes = []\<rparr>, ud_protocol = prot0, ud_checksum = 0, ud_calcChecksum = False, ud_goodChecksum = True\<rparr>"

text \<open>The IPv4 and the point-to-point header; \<^verbatim>\<open>EtherToPpp(0x800)\<close> is \<^verbatim>\<open>0x0021\<close>.\<close>

definition addIpPpp :: "Ipv4Header \<Rightarrow> buf \<Rightarrow> bheap \<Rightarrow> (buf \<times> bheap) res" where
  "addIpPpp ip b s =
     bindr (addHeader (Ipv4Header_GetSerializedSize ip) (Ipv4Header_Serialize ip) b s) (\<lambda>(b, s).
     addHeader PppHeader_GetSerializedSize (PppHeader_Serialize \<lparr>m_protocol = 0x0021\<rparr>) b s)"

definition wireData :: "hwenv \<Rightarrow> int \<Rightarrow> u8 \<Rightarrow> u32 \<Rightarrow> RdmaQueuePair \<Rightarrow> bheap \<Rightarrow> (buf \<times> bheap) res" where
  "wireData e pb prot0 payload qp s =
     bindr (Buffer_Initialize payload s) (\<lambda>(b, s).
     bindr (addHeader (SeqTsHeader_GetSerializedSize (h_mode e))
       (SeqTsHeader_Serialize (h_mode e) pb \<lparr>st_seq = ucast (snd_nxt qp), st_pg = m_pg qp, st_ih = SeqTs_ih e\<rparr>) b s) (\<lambda>(b, s).
     bindr (addHeader UdpHeader_GetSerializedSize
       (UdpHeader_Serialize ((UdpHeader_new prot0)\<lparr>ud_destinationPort := dport qp, ud_sourcePort := sport qp\<rparr>)) b s) (\<lambda>(b, s).
     addIpPpp (Ipv4Header_init\<lparr>ip_source := sip qp, ip_destination := dip qp, ip_protocol := 0x11, ip_payloadSize := ucast (buf_GetSize b),
       ip_ttl := 64, ip_tos := 0, ip_identification := m_ipid qp\<rparr>) b s)))"

definition wireAck :: "hwenv \<Rightarrow> int \<Rightarrow> bool \<Rightarrow> hpkt \<Rightarrow> RdmaRxQueuePair \<Rightarrow> bheap \<Rightarrow> (buf \<times> bheap) res" where
  "wireAck e pb nack p q s =
     (let seqh = \<lparr>qh_sport = p_dport p, qh_dport = p_sport p, qh_flags = 0, qh_pg = p_pg p, qh_seq = ReceiverNextExpectedSeq q, qh_ih = p_int p\<rparr>;
          seqh = (if p_ecn p \<noteq> 0 then qbbHeader_SetCnp seqh else seqh);
          n = qbbHeader_size (h_mode e)
      in
      bindr (Buffer_Initialize (of_nat (60 - 14 - 20 - unat n)) s) (\<lambda>(b, s).
      bindr (addHeader n (qbbHeader_Serialize (h_mode e) pb seqh) b s) (\<lambda>(b, s).
      addIpPpp (Ipv4Header_init\<lparr>ip_destination := p_src p, ip_source := p_dst p, ip_protocol := (if nack then 0xFD else 0xFC), ip_ttl := 64,
        ip_payloadSize := ucast (buf_GetSize b), ip_identification := rx_ipid q\<rparr>) b s)))"

lemma addIpPpp_ok:
  assumes ok: "heap_ok s (add_mset b B)" and r: "unat (bf_end b) + 34 + 101 < 2 ^ 32" and ip: "ip_headerSize ip = 20"
  shows "\<exists>b' s' junk. addIpPpp ip b s = Inr (b', s') \<and> heap_ok s' (add_mset b' B) \<and> views_kept s s' B
    \<and> length junk = 12 \<and> view s' b' = pppBytes \<lparr>m_protocol = 0x0021\<rparr> @ junk @ ipEnc ip @ view s b"
proof -
  have n: "Ipv4Header_GetSerializedSize ip = 20" "PppHeader_GetSerializedSize = 14"
    using ip by (simp_all add: Ipv4Header_GetSerializedSize_def PppHeader_GetSerializedSize_def)
  have r1: "room b 20" using r by (simp add: room_def)
  obtain b1 s1 rest where a: "addHeader 20 (Ipv4Header_Serialize ip) b s = Inr (b1, s1)" "heap_ok s1 (add_mset b1 B)" "views_kept s s1 B"
    "length (ipEnc ip) + length rest = 20" "view s1 b1 = ipEnc ip @ rest @ view s b" "unat (bf_end b1) \<le> unat (bf_end b) + 20"
    using ipv4.add[OF ok r1 ip] by auto
  have r2: "room b1 PppHeader_GetSerializedSize" using r a(6) by (simp add: room_def n)
  obtain b2 s2 junk where p: "addHeader PppHeader_GetSerializedSize (PppHeader_Serialize \<lparr>m_protocol = 0x0021\<rparr>) b1 s1 = Inr (b2, s2)"
    "heap_ok s2 (add_mset b2 B)" "views_kept s1 s2 B" "length (pppBytes \<lparr>m_protocol = 0x0021\<rparr>) + length junk = unat PppHeader_GetSerializedSize"
    "view s2 b2 = pppBytes \<lparr>m_protocol = 0x0021\<rparr> @ junk @ view s1 b1"
    using ppp.add[OF a(2) r2 TrueI] by blast
  have "length junk = 12" using p(4) by (simp add: n pppBytes_def)
  moreover have "rest = []" using a(4) by simp
  ultimately show ?thesis using a(1,5) p(1,2,5) n(1) views_kept_trans[OF a(3) p(3)] by (simp add: addIpPpp_def)
qed

text \<open>What of a telemetry header reaches the receiver, by mode.\<close>

definition sameInt :: "Mode \<Rightarrow> int \<Rightarrow> IntHeader \<Rightarrow> IntHeader \<Rightarrow> bool" where
  "sameInt mode pb a b \<longleftrightarrow> (mode = NORMAL \<longrightarrow> a = b) \<and> GetTs mode a = GetTs mode b \<and> (pb = 1 \<or> pb = 2 \<longrightarrow> GetPower mode pb a = GetPower mode pb b)"

lemma sameInt_restored:
  assumes "wf_int h0"
  shows "sameInt mode pb (intRestored mode pb h0 h) h"
proof -
  have "hop h0 \<noteq> []" using assms by (auto simp: wf_int_def maxHop_def)
  then have "(hop h0)[0 := x] ! 0 = x" for x by simp
  moreover have "getField 0 8 (putField 0 8 x y) = getField 0 8 x" "getField 0 16 (putField 0 16 x y) = getField 0 16 x" for x y
    by (simp_all add: get_put_same) (simp_all add: getField_def)
  ultimately show ?thesis by (auto simp: sameInt_def intRestored_def GetTs_def GetPower_def split: Mode.split)
qed

subsection \<open>Data packets\<close>

text \<open>The fields of a packet record that the receiver of the packet uses.\<close>

definition reads_as :: "Mode \<Rightarrow> int \<Rightarrow> CustomHeader \<Rightarrow> hpkt \<Rightarrow> bool" where
  "reads_as mode pb h p \<longleftrightarrow>
     ch_sip h = p_src p \<and> ch_dip h = p_dst p \<and> ch_l3Prot h = p_proto p \<and> GetIpv4EcnBits h = p_ecn p \<and> ch_ipid h = p_ipid p
     \<and> c_sport h = p_sport p \<and> c_dport h = p_dport p \<and> c_pg h = p_pg p \<and> c_seq h = p_seq p \<and> sameInt mode pb (c_ih h) (p_int p)"

lemma wf_SeqTs_ih: "wf_int (SeqTs_ih e)"
  by (simp add: SeqTs_ih_def IntHeader_init_def wf_int_def maxHop_def)

lemma wireData_bytes:
  assumes ok: "heap_ok s B" and r: "unat (g_recommendedStart s) + unat payload + 300 < 2 ^ 32"
  shows "\<exists>b s' junk ip u z st rest. wireData e pb prot0 payload qp s = Inr (b, s') \<and> heap_ok s' (add_mset b B) \<and> views_kept s s' B
    \<and> view s' b = pppBytes \<lparr>m_protocol = 0x0021\<rparr> @ junk @ ipEnc ip @ (udpBytes u z @ seqTsBytes (h_mode e) pb st) @ rest @ replicate (unat payload) 0
    \<and> length junk = 12 \<and> length (seqTsBytes (h_mode e) pb st) + length rest = unat (SeqTsHeader_GetSerializedSize (h_mode e))
    \<and> st = \<lparr>st_seq = ucast (snd_nxt qp), st_pg = m_pg qp, st_ih = SeqTs_ih e\<rparr> \<and> ud_sourcePort u = sport qp \<and> ud_destinationPort u = dport qp
    \<and> ip_source ip = sip qp \<and> ip_destination ip = dip qp \<and> ip_protocol ip = 0x11 \<and> ip_tos ip = 0 \<and> ip_identification ip = m_ipid qp"
proof -
  let ?m = "h_mode e"
  define st where "st = \<lparr>st_seq = ucast (snd_nxt qp), st_pg = m_pg qp, st_ih = SeqTs_ih e\<rparr>"
  define u where "u = (UdpHeader_new prot0)\<lparr>ud_destinationPort := dport qp, ud_sourcePort := sport qp\<rparr>"
  have sz: "unat (SeqTsHeader_GetSerializedSize ?m) \<le> 48" "unat UdpHeader_GetSerializedSize = 8"
    by (cases ?m; simp add: SeqTsHeader_GetSerializedSize_def IntHeader_GetStaticSize_def maxHop_def) (simp add: UdpHeader_GetSerializedSize_def)
  obtain b0 s0 where i: "Buffer_Initialize payload s = Inr (b0, s0)" "heap_ok s0 (add_mset b0 B)" "views_kept s s0 B"
    "view s0 b0 = replicate (unat payload) 0" "unat (bf_end b0) \<le> unat (g_recommendedStart s) + unat payload"
    using Initialize_ok[OF ok, of payload] r by auto
  have r0: "room b0 (SeqTsHeader_GetSerializedSize ?m)" using i(5) sz(1) r by (simp add: room_def)
  have wf: "wf_int (st_ih st)" by (simp add: st_def wf_SeqTs_ih)
  obtain b1 s1 rest where a: "addHeader (SeqTsHeader_GetSerializedSize ?m) (SeqTsHeader_Serialize ?m pb st) b0 s0 = Inr (b1, s1)"
    "heap_ok s1 (add_mset b1 B)" "views_kept s0 s1 B" "length (seqTsBytes ?m pb st) + length rest = unat (SeqTsHeader_GetSerializedSize ?m)"
    "view s1 b1 = seqTsBytes ?m pb st @ rest @ view s0 b0" "unat (bf_end b1) \<le> unat (bf_end b0) + unat (SeqTsHeader_GetSerializedSize ?m)"
    using seqTs.add[OF i(2) r0 wf, of pb] by blast
  have r1: "room b1 UdpHeader_GetSerializedSize" using i(5) a(6) sz r by (simp add: room_def)
  have cu: "\<not> ud_calcChecksum u" by (simp add: u_def UdpHeader_new_def)
  obtain b2 s2 z rest2 where c: "addHeader UdpHeader_GetSerializedSize (UdpHeader_Serialize u) b1 s1 = Inr (b2, s2)" "heap_ok s2 (add_mset b2 B)"
    "views_kept s1 s2 B" "length (udpBytes u z) + length rest2 = unat UdpHeader_GetSerializedSize" "view s2 b2 = udpBytes u z @ rest2 @ view s1 b1"
    "unat (bf_end b2) \<le> unat (bf_end b1) + unat UdpHeader_GetSerializedSize"
    using udp.add[OF a(2) r1 cu] by blast
  have "length (udpBytes u z) = 8" by (simp add: udpBytes_def)
  then have e2: "rest2 = []" using c(4) sz(2) by simp
  define ip where "ip = Ipv4Header_init\<lparr>ip_source := sip qp, ip_destination := dip qp, ip_protocol := 0x11, ip_payloadSize := ucast (buf_GetSize b2),
       ip_ttl := 64, ip_tos := 0, ip_identification := m_ipid qp\<rparr>"
  have "unat (bf_end b2) + 34 + 101 < 2 ^ 32" using i(5) a(6) c(6) sz r by simp
  then obtain b s' junk where f: "addIpPpp ip b2 s2 = Inr (b, s')" "heap_ok s' (add_mset b B)" "views_kept s2 s' B" "length junk = 12"
    "view s' b = pppBytes \<lparr>m_protocol = 0x0021\<rparr> @ junk @ ipEnc ip @ view s2 b2"
    using addIpPpp_ok[OF c(2), of ip] by (auto simp: ip_def Ipv4Header_init_def)
  have k: "views_kept s s' B" using views_kept_trans[OF views_kept_trans[OF i(3) a(3)] views_kept_trans[OF c(3) f(3)]] .
  have w: "wireData e pb prot0 payload qp s = Inr (b, s')"
    using i(1) a(1) c(1) f(1) by (simp add: wireData_def st_def[symmetric] u_def[symmetric] ip_def[symmetric])
  show ?thesis
    by (rule exI[of _ b], rule exI[of _ s'], rule exI[of _ junk], rule exI[of _ ip], rule exI[of _ u], rule exI[of _ z], rule exI[of _ st], rule exI[of _ rest])
      (simp add: w f k i(4) a(4,5) c(5) e2 st_def[symmetric], simp add: st_def u_def ip_def)
qed

lemma size_of_view:
  assumes "heap_ok s (add_mset b B)"
  shows "buf_GetSize b = of_nat (length (view s b))"
  using view_length(1)[OF assms, of b] by simp

lemma ecn_zero: "(0 :: u8) AND 3 = 0"
  by simp

lemma received_size:
  assumes "receives h0" "ch_headerType h = ch_headerType h0" "ch_l3Prot h = 0x11 \<or> ch_l3Prot h = 0xFC \<or> ch_l3Prot h = 0xFD"
  shows "CustomHeader_GetSerializedSize mode h = 34 + (if ch_l3Prot h = 0x11 then ch_GetUdpHeaderSize mode else ch_GetAckSerializedSize mode)"
  using assms by (auto simp: CustomHeader_GetSerializedSize_def receives_def has_def L2_Header_def L3_Header_def L4_Header_def)

lemma wireData_read:
  fixes e :: hwenv and unsched :: bool and qp :: RdmaQueuePair
  assumes ok: "heap_ok s B" and r: "unat (g_recommendedStart s) + unat payload + 300 < 2 ^ 32" and h: "receives ch0"
  defines "p \<equiv> dataPkt e unsched payload qp" and "m \<equiv> h_mode e"
  shows "\<exists>b s' ch. wireData e pb prot0 payload qp s = Inr (b, s') \<and> heap_ok s' (add_mset b B) \<and> views_kept s s' B \<and> buf_GetSize b = p_size p
    \<and> peekHeader (CustomHeader_Deserialize m pb ch0) b s' = Inr (ch, CustomHeader_GetSerializedSize m ch) \<and> reads_as m pb ch p
    \<and> buf_GetSize b - CustomHeader_GetSerializedSize m ch = payload"
proof -
  obtain b s' junk ip u z st rest where w: "wireData e pb prot0 payload qp s = Inr (b, s')" "heap_ok s' (add_mset b B)" "views_kept s s' B"
    "view s' b = pppBytes \<lparr>m_protocol = 0x0021\<rparr> @ junk @ ipEnc ip @ (udpBytes u z @ seqTsBytes m pb st) @ rest @ replicate (unat payload) 0"
    "length junk = 12" "length (seqTsBytes m pb st) + length rest = unat (SeqTsHeader_GetSerializedSize m)"
    "st = \<lparr>st_seq = ucast (snd_nxt qp), st_pg = m_pg qp, st_ih = SeqTs_ih e\<rparr>" "ud_sourcePort u = sport qp" "ud_destinationPort u = dport qp"
    "ip_source ip = sip qp" "ip_destination ip = dip qp" "ip_protocol ip = 0x11" "ip_tos ip = 0" "ip_identification ip = m_ipid qp"
    using wireData_bytes[OF ok r, of e pb prot0 qp] unfolding m_def by blast
  have wf: "wf_int (st_ih st)" by (simp add: w(7) wf_SeqTs_ih)
  let ?raw = "udpRaw u st (ch_l4 ch0)"
  let ?ih = "intRestored m pb (getIh ?raw) (st_ih st)"
  define ch where "ch = (l23Read \<lparr>m_protocol = 0x0021\<rparr> ip ch0)\<lparr>ch_l4 := putIh ?ih ?raw\<rparr>"
  have l64: "length (ch_l4 ch0) = 64" using h by (simp add: receives_def)
  have "peekHeader (CustomHeader_Deserialize m pb ch0) b s' = Inr (ch, 34 + ch_GetUdpHeaderSize m)"
    using custom_udp[OF w(2) _ w(4,5) h w(12) wf] by (simp add: ch_def)
  moreover have n: "CustomHeader_GetSerializedSize m ch = 34 + ch_GetUdpHeaderSize m"
    using received_size[OF h, of ch m] w(12) by (simp add: ch_def l23Read_def l3Read_def)
  moreover have "reads_as m pb ch p"
    using udp_fields[OF l64 wf_intRestored[OF wf_getIh wf]]
      sameInt_restored[OF wf_getIh, of m pb ?raw "st_ih st"] w(7-14)
    by (simp add: reads_as_def ch_def p_def dataPkt_def GetIpv4EcnBits_def ecn_zero) (simp add: l23Read_def l3Read_def)
  moreover have "length (view s' b) = 42 + unat (SeqTsHeader_GetSerializedSize m) + unat payload"
    using w(4-6) by (simp add: pppBytes_def udpBytes_def)
  then have sz: "buf_GetSize b = 42 + SeqTsHeader_GetSerializedSize m + payload" using size_of_view[OF w(2)] by simp
  moreover have "buf_GetSize b = p_size p"
    by (simp add: sz p_def dataPkt_def udpHeaders_def GetUdpHeaderSize_def intSize_def SeqTsHeader_GetSerializedSize_def m_def)
  moreover have "buf_GetSize b - CustomHeader_GetSerializedSize m ch = payload"
    by (simp add: sz n ch_GetUdpHeaderSize_def SeqTsHeader_GetSerializedSize_def)
  ultimately show ?thesis using w(1-3) by metis
qed

subsection \<open>Acknowledgements\<close>

definition ackHeader :: "hpkt \<Rightarrow> RdmaRxQueuePair \<Rightarrow> qbbHeader" where
  "ackHeader p q = \<lparr>qh_sport = p_dport p, qh_dport = p_sport p, qh_flags = (if p_ecn p \<noteq> 0 then 1 else 0), qh_pg = p_pg p,
     qh_seq = ReceiverNextExpectedSeq q, qh_ih = p_int p\<rparr>"

lemma wireAck_eq:
  "wireAck e pb nack p q s =
     bindr (Buffer_Initialize (of_nat (60 - 14 - 20 - unat (qbbHeader_size (h_mode e)))) s) (\<lambda>(b, s).
     bindr (addHeader (qbbHeader_size (h_mode e)) (qbbHeader_Serialize (h_mode e) pb (ackHeader p q)) b s) (\<lambda>(b, s).
     addIpPpp (Ipv4Header_init\<lparr>ip_destination := p_src p, ip_source := p_dst p, ip_protocol := (if nack then 0xFD else 0xFC), ip_ttl := 64,
        ip_payloadSize := ucast (buf_GetSize b), ip_identification := rx_ipid q\<rparr>) b s))"
  by (simp add: wireAck_def ackHeader_def qbbHeader_SetCnp_def Let_def)

lemma wireAck_bytes:
  fixes e :: hwenv
  assumes ok: "heap_ok s B" and r: "unat (g_recommendedStart s) + 300 < 2 ^ 32" and wf: "wf_int (p_int p)"
  defines "m \<equiv> h_mode e"
  shows "\<exists>b s' junk ip rest. wireAck e pb nack p q s = Inr (b, s') \<and> heap_ok s' (add_mset b B) \<and> views_kept s s' B
    \<and> view s' b = pppBytes \<lparr>m_protocol = 0x0021\<rparr> @ junk @ ipEnc ip @ qbbBytes m pb (ackHeader p q) @ rest @ replicate (60 - 14 - 20 - unat (qbbHeader_size m)) 0
    \<and> length junk = 12 \<and> length (qbbBytes m pb (ackHeader p q)) + length rest = unat (qbbHeader_size m)
    \<and> ip_source ip = p_dst p \<and> ip_destination ip = p_src p \<and> ip_protocol ip = (if nack then 0xFD else 0xFC) \<and> ip_tos ip = 0 \<and> ip_identification ip = rx_ipid q"
proof -
  let ?n = "60 - 14 - 20 - unat (qbbHeader_size m)"
  have sz: "unat (qbbHeader_size m) \<le> 54"
    by (cases m; simp add: qbbHeader_size_def IntHeader_GetStaticSize_def maxHop_def)
  have un: "unat (of_nat ?n :: u32) = ?n" by (simp add: unat_of_nat)
  have lt: "unat (g_recommendedStart s) + ?n < 2 ^ 32" using r by simp
  obtain b0 s0 where i: "Buffer_Initialize (of_nat ?n) s = Inr (b0, s0)" "heap_ok s0 (add_mset b0 B)" "views_kept s s0 B"
    "view s0 b0 = replicate ?n 0" "unat (bf_end b0) \<le> unat (g_recommendedStart s) + ?n"
    using Initialize_ok[OF ok, of "of_nat ?n", unfolded un] lt by blast
  have r0: "room b0 (qbbHeader_size m)" using i(5) sz r by (simp add: room_def)
  have wfa: "wf_int (qh_ih (ackHeader p q))" using wf by (simp add: ackHeader_def)
  obtain b1 s1 rest where a: "addHeader (qbbHeader_size m) (qbbHeader_Serialize m pb (ackHeader p q)) b0 s0 = Inr (b1, s1)"
    "heap_ok s1 (add_mset b1 B)" "views_kept s0 s1 B" "length (qbbBytes m pb (ackHeader p q)) + length rest = unat (qbbHeader_size m)"
    "view s1 b1 = qbbBytes m pb (ackHeader p q) @ rest @ view s0 b0" "unat (bf_end b1) \<le> unat (bf_end b0) + unat (qbbHeader_size m)"
    using qbb.add[OF i(2) r0 wfa, of pb] by blast
  define ip where "ip = Ipv4Header_init\<lparr>ip_destination := p_src p, ip_source := p_dst p, ip_protocol := (if nack then 0xFD else 0xFC), ip_ttl := 64,
        ip_payloadSize := ucast (buf_GetSize b1), ip_identification := rx_ipid q\<rparr>"
  have "unat (bf_end b1) + 34 + 101 < 2 ^ 32" using i(5) a(6) sz r by simp
  then obtain b s' junk where f: "addIpPpp ip b1 s1 = Inr (b, s')" "heap_ok s' (add_mset b B)" "views_kept s1 s' B" "length junk = 12"
    "view s' b = pppBytes \<lparr>m_protocol = 0x0021\<rparr> @ junk @ ipEnc ip @ view s1 b1"
    using addIpPpp_ok[OF a(2), of ip] by (auto simp: ip_def Ipv4Header_init_def)
  have k: "views_kept s s' B" using views_kept_trans[OF views_kept_trans[OF i(3) a(3)] f(3)] .
  have w: "wireAck e pb nack p q s = Inr (b, s')"
    unfolding wireAck_eq m_def[symmetric] using i(1) a(1) f(1) by (simp add: ip_def[symmetric])
  show ?thesis
    by (rule exI[of _ b], rule exI[of _ s'], rule exI[of _ junk], rule exI[of _ ip], rule exI[of _ rest])
      (simp add: w f k i(4) a(4,5), simp add: ip_def Ipv4Header_init_def)
qed

lemma wireAck_read:
  fixes e :: hwenv and q :: RdmaRxQueuePair and nack :: bool
  assumes ok: "heap_ok s B" and r: "unat (g_recommendedStart s) + 300 < 2 ^ 32" and wf: "wf_int (p_int p)" and h: "receives ch0"
  defines "a \<equiv> ackPkt e nack p q" and "m \<equiv> h_mode e"
  shows "\<exists>b s' ch. wireAck e pb nack p q s = Inr (b, s') \<and> heap_ok s' (add_mset b B) \<and> views_kept s s' B \<and> buf_GetSize b = p_size a
    \<and> peekHeader (CustomHeader_Deserialize m pb ch0) b s' = Inr (ch, CustomHeader_GetSerializedSize m ch) \<and> reads_as m pb ch a \<and> c_flags ch = p_flags a"
proof -
  obtain b s' junk ip rest where w: "wireAck e pb nack p q s = Inr (b, s')" "heap_ok s' (add_mset b B)" "views_kept s s' B"
    "view s' b = pppBytes \<lparr>m_protocol = 0x0021\<rparr> @ junk @ ipEnc ip @ qbbBytes m pb (ackHeader p q) @ rest @ replicate (60 - 14 - 20 - unat (qbbHeader_size m)) 0"
    "length junk = 12" "length (qbbBytes m pb (ackHeader p q)) + length rest = unat (qbbHeader_size m)"
    "ip_source ip = p_dst p" "ip_destination ip = p_src p" "ip_protocol ip = (if nack then 0xFD else 0xFC)" "ip_tos ip = 0" "ip_identification ip = rx_ipid q"
    using wireAck_bytes[OF ok r wf, of e pb nack q] unfolding m_def by blast
  have wfa: "wf_int (qh_ih (ackHeader p q))" using wf by (simp add: ackHeader_def)
  let ?raw = "ackRaw (ackHeader p q) (ch_l4 ch0)"
  let ?ih = "intRestored m pb (getIh ?raw) (qh_ih (ackHeader p q))"
  define ch where "ch = (l23Read \<lparr>m_protocol = 0x0021\<rparr> ip ch0)\<lparr>ch_l4 := putIh ?ih ?raw\<rparr>"
  have l64: "length (ch_l4 ch0) = 64" using h by (simp add: receives_def)
  have prot: "ip_protocol ip = 0xFC \<or> ip_protocol ip = 0xFD" using w(9) by simp
  have "peekHeader (CustomHeader_Deserialize m pb ch0) b s' = Inr (ch, 34 + ch_GetAckSerializedSize m)"
    using custom_ack[OF w(2) _ w(4,5) h prot wfa] by (simp add: ch_def)
  moreover have n: "CustomHeader_GetSerializedSize m ch = 34 + ch_GetAckSerializedSize m"
    using received_size[OF h, of ch m] prot by (auto simp: ch_def l23Read_def l3Read_def)
  moreover have f: "c_sport ch = p_dport p" "c_dport ch = p_sport p" "c_flags ch = (if p_ecn p \<noteq> 0 then 1 else 0)" "c_pg ch = p_pg p"
    "c_seq ch = ReceiverNextExpectedSeq q" "c_ih ch = ?ih"
    using ack_fields[OF l64 wf_intRestored[OF wf_getIh wfa]] unfolding ch_def by (simp_all add: ackHeader_def)
  moreover have "sameInt m pb ?ih (p_int p)" using sameInt_restored[OF wf_getIh, of m pb ?raw "qh_ih (ackHeader p q)"] by (simp add: ackHeader_def)
  moreover then have "reads_as m pb ch a \<and> c_flags ch = p_flags a"
    using w(7-11) f unfolding reads_as_def a_def ackPkt_def Let_def GetIpv4EcnBits_def
    by (simp add: ch_def l23Read_def l3Read_def ecn_zero)
  moreover have "buf_GetSize b = p_size a"
  proof -
    have qs: "Rdma_Host.qbbHeader_GetSerializedSize m = qbbHeader_size m" by (simp add: Rdma_Host.qbbHeader_GetSerializedSize_def qbbHeader_size_def intSize_def)
    have "length (view s' b) = 34 + unat (qbbHeader_size m) + (60 - 14 - 20 - unat (qbbHeader_size m))"
      using w(4-6) by (simp add: pppBytes_def)
    then show ?thesis using size_of_view[OF w(2)] by (simp add: a_def ackPkt_def Let_def qs m_def[symmetric])
  qed
  ultimately show ?thesis using w(1-3) by metis
qed

subsection \<open>Pause frames\<close>

definition wirePfc :: "nat \<Rightarrow> bool \<Rightarrow> u32 \<Rightarrow> u16 \<Rightarrow> port \<Rightarrow> bheap \<Rightarrow> (buf \<times> bheap) res" where
  "wirePfc qIndex resume qlen ident dev s =
     bindr (Buffer_Initialize 0 s) (\<lambda>(b, s).
     bindr (addHeader PauseHeader_GetSerializedSize
       (PauseHeader_Serialize \<lparr>ph_time = (if resume then 0 else m_pausetime dev), ph_qlen = qlen, ph_qindex = of_nat qIndex\<rparr>) b s) (\<lambda>(b, s).
     addIpPpp (Ipv4Header_init\<lparr>ip_protocol := 0xFE, ip_source := m_addr dev, ip_destination := 0xffffffff,
       ip_payloadSize := ucast (buf_GetSize b), ip_ttl := 1, ip_identification := ident\<rparr>) b s))"

lemma wirePfc_read:
  assumes ok: "heap_ok s B" and r: "unat (g_recommendedStart s) + 300 < 2 ^ 32" and h: "receives ch0"
  shows "\<exists>b s' ch. wirePfc qIndex resume qlen ident dev s = Inr (b, s') \<and> views_kept s s' B \<and> buf_GetSize b = p_size (pfcFrame qIndex resume qlen dev)
    \<and> peekHeader (CustomHeader_Deserialize mode pb ch0) b s' = Inr (ch, p_size (pfcFrame qIndex resume qlen dev))
    \<and> ch_sip ch = p_src (pfcFrame qIndex resume qlen dev) \<and> ch_dip ch = p_dst (pfcFrame qIndex resume qlen dev)
    \<and> ch_l3Prot ch = p_proto (pfcFrame qIndex resume qlen dev) \<and> c_pfc ch = p_pfc (pfcFrame qIndex resume qlen dev)"
proof -
  let ?ph = "\<lparr>ph_time = (if resume then 0 else m_pausetime dev), ph_qlen = qlen, ph_qindex = of_nat qIndex\<rparr>"
  have sz: "unat PauseHeader_GetSerializedSize = 9" by (simp add: PauseHeader_GetSerializedSize_def)
  have lt: "unat (g_recommendedStart s) + unat (0 :: u32) < 2 ^ 32" using r by simp
  obtain b0 s0 where i: "Buffer_Initialize 0 s = Inr (b0, s0)" "heap_ok s0 (add_mset b0 B)" "views_kept s s0 B" "view s0 b0 = []"
    "unat (bf_end b0) \<le> unat (g_recommendedStart s)"
    using Initialize_ok[OF ok lt] by auto
  have r0: "room b0 PauseHeader_GetSerializedSize" using i(5) sz r by (simp add: room_def)
  obtain b1 s1 rest where a: "addHeader PauseHeader_GetSerializedSize (PauseHeader_Serialize ?ph) b0 s0 = Inr (b1, s1)"
    "heap_ok s1 (add_mset b1 B)" "views_kept s0 s1 B" "length (pauseBytes ?ph) + length rest = 9" "view s1 b1 = pauseBytes ?ph @ rest @ view s0 b0"
    "unat (bf_end b1) \<le> unat (bf_end b0) + 9"
    using pause.add[OF i(2) r0 TrueI, of ?ph] sz by auto
  define ip where "ip = Ipv4Header_init\<lparr>ip_protocol := 0xFE, ip_source := m_addr dev, ip_destination := 0xffffffff,
       ip_payloadSize := ucast (buf_GetSize b1), ip_ttl := 1, ip_identification := ident\<rparr>"
  have "unat (bf_end b1) + 34 + 101 < 2 ^ 32" using i(5) a(6) r by simp
  then obtain b s' junk where f: "addIpPpp ip b1 s1 = Inr (b, s')" "heap_ok s' (add_mset b B)" "views_kept s1 s' B" "length junk = 12"
    "view s' b = pppBytes \<lparr>m_protocol = 0x0021\<rparr> @ junk @ ipEnc ip @ view s1 b1"
    using addIpPpp_ok[OF a(2), of ip] by (auto simp: ip_def Ipv4Header_init_def)
  have w: "wirePfc qIndex resume qlen ident dev s = Inr (b, s')"
    using i(1) a(1) f(1) by (simp add: wirePfc_def ip_def[symmetric])
  have v: "view s' b = pppBytes \<lparr>m_protocol = 0x0021\<rparr> @ junk @ ipEnc ip @ pauseBytes ?ph @ rest" using f(5) a(5) i(4) by simp
  have "length (view s' b) = 43" using v f(4) a(4) by (simp add: pppBytes_def)
  then have size: "buf_GetSize b = p_size (pfcFrame qIndex resume qlen dev)" using size_of_view[OF f(2)] by (simp add: pfcFrame_def)
  have prot: "ip_protocol ip = 0xFE" by (simp add: ip_def)
  have l64: "length (ch_l4 ch0) = 64" using h by (simp add: receives_def)
  define ch where "ch = (l23Read \<lparr>m_protocol = 0x0021\<rparr> ip ch0)\<lparr>ch_l4 := putM 8 1 (ph_qindex ?ph) (putM 4 4 (ph_qlen ?ph) (putM 0 4 (ph_time ?ph) (ch_l4 ch0)))\<rparr>"
  have p: "peekHeader (CustomHeader_Deserialize mode pb ch0) b s' = Inr (ch, p_size (pfcFrame qIndex resume qlen dev))"
    using custom_pfc[OF f(2) _ v f(4) h prot] by (simp add: ch_def pfcFrame_def)
  have "c_pfc ch = p_pfc (pfcFrame qIndex resume qlen dev)"
    unfolding ch_def pfc_fields[OF l64] by (simp add: pfcFrame_def)
  then have "ch_sip ch = p_src (pfcFrame qIndex resume qlen dev) \<and> ch_dip ch = p_dst (pfcFrame qIndex resume qlen dev)
    \<and> ch_l3Prot ch = p_proto (pfcFrame qIndex resume qlen dev) \<and> c_pfc ch = p_pfc (pfcFrame qIndex resume qlen dev)"
    by (simp add: ch_def l23Read_def l3Read_def ip_def pfcFrame_def)
  then show ?thesis using w size p views_kept_trans[OF views_kept_trans[OF i(3) a(3)] f(3)] by blast
qed

subsection \<open>Properties\<close>

lemma receives_example: "receives (CustomHeader_new 7 0 0 (replicate 64 0))"
  using receives_new[of "replicate 64 0" 0 0] by (simp add: L2_Header_def L3_Header_def L4_Header_def)

text \<open>
  C8. A data packet on the wire.  In every reachable state of the packet store, putting the telemetry,
  UDP, IPv4 and point-to-point headers of a data packet into a new buffer succeeds and leaves all other
  packets as they are; the buffer has the size the host model gives the packet, and the parser of the
  receiver, whatever memory its object holds, reads from it the addresses, protocol, ECN bits,
  identification, ports, group, sequence number and telemetry of the packet record; the size the
  receiver subtracts leaves the payload.
\<close>

theorem data_packet_on_wire:
  assumes "pkt_reach fill ps" "unat (g_recommendedStart (ps_heap ps)) + unat payload + 300 < 2 ^ 32" "receives ch0"
  shows "\<exists>b s' ch. wireData e pb prot0 payload qp (ps_heap ps) = Inr (b, s')
    \<and> (\<forall>h c. ps_pkts ps h = Some c \<longrightarrow> view s' c = view (ps_heap ps) c)
    \<and> buf_GetSize b = p_size (dataPkt e unsched payload qp)
    \<and> peekHeader (CustomHeader_Deserialize (h_mode e) pb ch0) b s' = Inr (ch, CustomHeader_GetSerializedSize (h_mode e) ch)
    \<and> reads_as (h_mode e) pb ch (dataPkt e unsched payload qp)
    \<and> buf_GetSize b - CustomHeader_GetSerializedSize (h_mode e) ch = payload"
proof -
  note ok = store_okD[OF pkt_reach_ok[OF assms(1)]]
  obtain b s' ch where w: "wireData e pb prot0 payload qp (ps_heap ps) = Inr (b, s')" "views_kept (ps_heap ps) s' (livePkts (ps_pkts ps))"
    "buf_GetSize b = p_size (dataPkt e unsched payload qp)"
    "peekHeader (CustomHeader_Deserialize (h_mode e) pb ch0) b s' = Inr (ch, CustomHeader_GetSerializedSize (h_mode e) ch)"
    "reads_as (h_mode e) pb ch (dataPkt e unsched payload qp)" "buf_GetSize b - CustomHeader_GetSerializedSize (h_mode e) ch = payload"
    using wireData_read[OF ok(2) assms(2,3)] by blast
  have "view s' c = view (ps_heap ps) c" if "ps_pkts ps h = Some c" for h c using w(2) ok(4)[OF that] by (simp add: views_kept_def)
  then show ?thesis using w by blast
qed

theorem data_packet_on_wire_witness:
  "\<exists>b s' ch. wireData (exampleHwenv 0) 1 0 1000 (exampleQp 1000 0) (ps_heap (pkt_init (\<lambda>_ _. 7))) = Inr (b, s') \<and> buf_GetSize b = p_size exampleSent
    \<and> peekHeader (CustomHeader_Deserialize (h_mode (exampleHwenv 0)) 1 (CustomHeader_new 7 0 0 (replicate 64 0))) b s'
       = Inr (ch, CustomHeader_GetSerializedSize (h_mode (exampleHwenv 0)) ch)
    \<and> reads_as (h_mode (exampleHwenv 0)) 1 ch exampleSent"
  using data_packet_on_wire[OF pkt_reach.init _ receives_example, of "\<lambda>_ _. 7" 1000 "exampleHwenv 0" 1 0 "exampleQp 1000 0" True]
  by (auto simp: pkt_init_def exampleSent_def)

text \<open>
  C15. An acknowledgement on the wire.  For every data packet a host received, the acknowledgement or
  negative acknowledgement it sends is built without failure, has at least the size of the smallest
  Ethernet frame, and the sender's parser reads from it the addresses, ports and group of the flow, the
  next expected byte, the congestion flag and the telemetry of the data packet.
\<close>

theorem ack_packet_on_wire:
  assumes "pkt_reach fill ps" "unat (g_recommendedStart (ps_heap ps)) + 300 < 2 ^ 32" "wf_int (p_int p)" "receives ch0"
  shows "\<exists>b s' ch. wireAck e pb nack p q (ps_heap ps) = Inr (b, s')
    \<and> (\<forall>h c. ps_pkts ps h = Some c \<longrightarrow> view s' c = view (ps_heap ps) c)
    \<and> buf_GetSize b = p_size (ackPkt e nack p q) \<and> 60 \<le> buf_GetSize b
    \<and> peekHeader (CustomHeader_Deserialize (h_mode e) pb ch0) b s' = Inr (ch, CustomHeader_GetSerializedSize (h_mode e) ch)
    \<and> reads_as (h_mode e) pb ch (ackPkt e nack p q) \<and> c_flags ch = p_flags (ackPkt e nack p q)"
proof -
  note ok = store_okD[OF pkt_reach_ok[OF assms(1)]]
  obtain b s' ch where w: "wireAck e pb nack p q (ps_heap ps) = Inr (b, s')" "views_kept (ps_heap ps) s' (livePkts (ps_pkts ps))"
    "buf_GetSize b = p_size (ackPkt e nack p q)"
    "peekHeader (CustomHeader_Deserialize (h_mode e) pb ch0) b s' = Inr (ch, CustomHeader_GetSerializedSize (h_mode e) ch)"
    "reads_as (h_mode e) pb ch (ackPkt e nack p q)" "c_flags ch = p_flags (ackPkt e nack p q)"
    using wireAck_read[OF ok(2) assms(2-4)] by blast
  have "view s' c = view (ps_heap ps) c" if "ps_pkts ps h = Some c" for h c using w(2) ok(4)[OF that] by (simp add: views_kept_def)
  moreover have "60 \<le> p_size (ackPkt e nack p q)"
    by (cases "h_mode e") (simp_all add: ackPkt_def Let_def Rdma_Host.qbbHeader_GetSerializedSize_def intSize_def IntHeader_GetStaticSize_def maxHop_def)
  ultimately show ?thesis using w by metis
qed

theorem ack_packet_on_wire_witness:
  "\<exists>b s' ch. wireAck (exampleHwenv 0) 1 True exampleSent RdmaRxQueuePair (ps_heap (pkt_init (\<lambda>_ _. 7))) = Inr (b, s') \<and> 60 \<le> buf_GetSize b
    \<and> peekHeader (CustomHeader_Deserialize (h_mode (exampleHwenv 0)) 1 (CustomHeader_new 7 0 0 (replicate 64 0))) b s'
       = Inr (ch, CustomHeader_GetSerializedSize (h_mode (exampleHwenv 0)) ch)
    \<and> reads_as (h_mode (exampleHwenv 0)) 1 ch (ackPkt (exampleHwenv 0) True exampleSent RdmaRxQueuePair)"
proof -
  have "wf_int (p_int exampleSent)" by (simp add: exampleSent_def dataPkt_def wf_SeqTs_ih)
  then show ?thesis
    using ack_packet_on_wire[OF pkt_reach.init _ _ receives_example, of "\<lambda>_ _. 7" exampleSent "exampleHwenv 0" 1 True RdmaRxQueuePair]
    by (auto simp: pkt_init_def)
qed

end
