(* ===== verification/Spec2Isabelle.thy ===== *)
theory Spec2Isabelle
  imports Switch_Mmu_Ledger Simulator Egress_Queue Switch_Forwarding Murmur_Hash Host_Invariant Wire_Format
begin

text \<open>
  A verification development for a datacentre network simulator, a fork of ns-3 with RDMA hosts,
  priority flow control (PFC), shared-memory switches and in-band telemetry (INT).  Source paths
  below are relative to src/src/.

  \<^bold>\<open>The program.\<close>  The simulator core (core/model) keeps pending events in a scheduler and executes
  them in order of time.  A node is a switch or a host (point-to-point/model).  A switch
  (\<^verbatim>\<open>SwitchNode\<close>) receives a packet on a port (\<^verbatim>\<open>QbbNetDevice\<close>), chooses the output port by a
  hash of the flow, asks its buffer manager (\<^verbatim>\<open>SwitchMmu\<close>) for admission, pauses the upstream port
  when a priority enters its headroom and resumes it later, queues the packet (\<^verbatim>\<open>BEgressQueue\<close>) and
  adds its telemetry when the packet leaves.  A host (\<^verbatim>\<open>RdmaHw\<close> behind a \<^verbatim>\<open>QbbNetDevice\<close>) cuts
  flows (\<^verbatim>\<open>RdmaQueuePair\<close>) into packets, paces them by one of six congestion-control algorithms,
  acknowledges what it receives in order and goes back to the first missing byte on a negative
  acknowledgement.  A packet on the way is a byte buffer (network/model) to which each layer adds
  its header and from which a receiver parses all headers at once; copies of a packet share the
  bytes until one of them is written.

  \<^bold>\<open>Conventions.\<close>  Machine integers are words of their width; a \<^verbatim>\<open>double\<close> is a rational number and
  every operation rounds to 53 bits (\<open>Cpp_Double\<close>).  A failing assertion, a process exit, an index
  out of bounds, a null dereference, a conversion out of range and a division by zero are values of
  the error type of \<open>Prelude\<close>; functions that can fail return \<open>err + 'a\<close>.  Objects are records with
  the member names of the source; queue pairs, which the table of flows and the cards share, live in
  a store and are referred to by number.  Uninitialised members are arguments of the constructors.
  Log output and trace sources without effect on the simulation are left out.

  \<^bold>\<open>The theories.\<close>

  \<^item> \<open>Prelude\<close>, \<open>Cpp_Double\<close>: results, arrays, words, doubles; shared lemmas.
  \<^item> \<open>Switch_Mmu\<close>, \<open>Switch_Mmu_Threshold\<close>, \<open>Switch_Mmu_Admission\<close>: switch-mmu.h/.cc, the buffer's
    configuration, the buffer-sharing algorithms (dynamic thresholds, ABM, FAB, Reverie) and admission
    and accounting.  \<open>Switch_Mmu_Ledger\<close> states what the buffer promises by a multiset of packets:
    every counter is the sum of the packets it stands for, the headroom of every queue is bounded, and
    a drained buffer is idle.  No threshold with a factor of at most one exceeds what its pool still has.
  \<^item> \<open>Event_Scheduler\<close>, \<open>Scheduler_Programs\<close>: scheduler.h.  The locales \<open>event_queue\<close>,
    \<open>event_queue_remove\<close> and \<open>scheduler_switch\<close> are the contract of a scheduler; \<open>timed_queue\<close>,
    \<open>timed_queue_remove\<close> and \<open>timed_switch\<close> the weaker one towards a client whose clock does not go
    back, which follows from the first as a sublocale.  Programs of scheduler calls and their reference answers.
  \<^item> \<open>Ordered_Schedulers\<close>, \<open>Heap_Scheduler\<close>, \<open>Priority_Scheduler\<close>, \<open>Calendar_Scheduler\<close>,
    \<open>Scheduler_Equivalence\<close>: list-, map-, heap-, priority-queue- and calendar-scheduler.cc.  List, map and
    priority queue fulfil the whole contract, the heap scheduler all but \<^verbatim>\<open>Remove\<close> (which can break
    the order of execution), the calendar the contract along the clock.
  \<^item> \<open>Simulator\<close>: default-simulator-impl.cc, event-id.cc, event-impl.cc, generic in the
    contract along the clock: time does not go back, no event is lost or executed twice,
    \<^verbatim>\<open>IsExpired\<close> is exact, and the final assertion of \<^verbatim>\<open>Run\<close> holds.
  \<^item> \<open>Drop_Tail_Queue\<close>, \<open>Egress_Queue\<close>: queue.h/.cc, drop-tail-queue.h, broadcom-egress-queue.cc, with
    the locale \<open>packet_fifo\<close> as the interface between them: any program of queue operations runs as on
    a bounded list; FIFO order, strict priority of queue 0,
    round robin among the others with a bounded wait, exact statistics.
  \<^item> \<open>Int_Header\<close>, \<open>Pint\<close>: int-header.h/.cc, pint.cc: bit fields of a hop, wrap-around differences,
    the ring of the last five hops, compressed telemetry.
  \<^item> \<open>Switch_Node\<close>, \<open>Switch_Invariant\<close>, \<open>Switch_Forwarding\<close>: switch-node.cc and the switch half of
    qbb-net-device.cc.  After any sequence of events the buffer's counters agree with the packets that
    really are queued, pauses and resumes alternate, a queue in its headroom has paused its upstream,
    and no port is idle while an unpaused packet waits.  The locale \<open>urgent_sender\<close> is the interface
    between forwarding and the mutually recursive transmission functions.
  \<^item> \<open>Murmur_Hash\<close>: hash-murmur3.cc; the hash the switch computes inline is Murmur3.
  \<^item> \<open>Data_Rate\<close>, \<open>Rdma_Queue_Pair\<close>, \<open>Rdma_Rate\<close>, \<open>Rdma_Rate_Bounds\<close>: data-rate.cc,
    rdma-queue-pair.h/.cc and rdma-hw.cc 636-1294: DCQCN, HPCC, PowerTCP, TIMELY, DCTCP and HPCC-PINT;
    whatever feedback arrives, the rates of a queue pair as \<^verbatim>\<open>AddQueuePair\<close> makes it stay between the
    minimum and the line rate, as long as every division has a finite result.
  \<^item> \<open>Rdma_Egress\<close>: \<^verbatim>\<open>RdmaEgressQueue\<close> (qbb-net-device.cc 89-215), the choice of the next packet.
  \<^item> \<open>Rdma_Host\<close>: rdma-hw.cc 184-634, rdma-driver.cc and the host half of qbb-net-device.cc as
    handlers on one state.
  \<^item> \<open>Rdma_Frame\<close>: rate control changes nothing of what the transport reads.
  \<^item> \<open>Go_Back_N\<close>: one flow over a network that loses, delays, reorders and duplicates: safety of
    go-back-N, and the flows that cannot end.
  \<^item> \<open>Host_Refinement\<close>, \<open>Host_Invariant\<close>: each event of a whole host is, for each of its flows, a run
    of the sender of \<open>Go_Back_N\<close>; the tables of a host are well formed after any sequence of events.

  \<^item> \<open>Packet_Buffer\<close>, \<open>Buffer_Sharing\<close>, \<open>Buffer_Operations\<close>: network/model/buffer.h/.cc: reference-counted
    blocks in an explicit heap with a free list, copy on write, and the virtual zero area.  The
    invariant \<open>heap_ok\<close> (every count is the number of buffers on the block, nobody writes bytes that
    another buffer shows) is kept by every operation.
  \<^item> \<open>Buffer_Iterators\<close>: \<^verbatim>\<open>Buffer::Iterator\<close>, with the contracts of a sequence of reads or writes.
  \<^item> \<open>Packet_Store\<close>: the byte operations of packet.cc; a program over shared packets refines the same
    program over independent byte lists, and the two runs of \<^verbatim>\<open>AddAtEnd (const Buffer&)\<close> that fail.
  \<^item> \<open>Header_Bytes\<close>, \<open>Ip_Headers\<close>: seq-ts-header.cc, qbb-header.cc, pause-header.cc, cn-header.cc,
    ppp-header.cc, ipv4-header.cc, udp-header.cc and the internet checksum.  The locale
    \<open>header_codec\<close> is the contract of a header; each of the seven headers interprets it, so that
    adding and removing a header returns its fields and restores the packet.
  \<^item> \<open>Custom_Header\<close>: custom-header.h/.cc, the parser of all headers of a packet, with its C++ union
    as 64 bytes.
  \<^item> \<open>Wire_Format\<close>: the bytes the hosts and switches build for data packets, acknowledgements and pause
    frames parse to the packet records that \<open>Rdma_Host\<close> and \<open>Switch_Node\<close> work on.

  \<^bold>\<open>Bounds and fuel.\<close>  \<^verbatim>\<open>DequeueAndTransmit\<close>, \<^verbatim>\<open>SwitchNotifyDequeue\<close> and the sending of pause
  frames call each other; the recursion is cut off at depth 2, and \<open>depth_enough\<close> shows that the
  limit is never reached: every call returns.  Loops over a queue (flushing, draining, moving events) take a number of
  iterations as an argument and report divergence when it is used up; the theorems about them show
  that one more than the length of the queue is enough.  The search of the calendar scheduler gets
  one iteration more than there are buckets; its times are below \<open>2 ^ 63\<close>, as all times of the
  simulator.  Rate bounds are shown for rates of up to
  \<open>2 ^ 52\<close> bits per second, on which doubles are exact, and thresholds for pools of up to \<open>2 ^ 53\<close> bytes; go-back-N for flows of fewer than \<open>2 ^ 32\<close>
  bytes, the range of its sequence numbers; buffers of fewer than \<open>2 ^ 52\<close> bytes.  Packet bytes are
  treated for packets whose 32-bit offsets do not overflow and fewer than \<open>2 ^ 32\<close> copies; the round
  trip of the UDP header is stated with its checksum off, as the hosts use it.

  \<^bold>\<open>Not modelled.\<close>  Packet tags, packet metadata, trailers and \<^verbatim>\<open>Buffer::Serialize\<close> (used by the
  distributed engine);
  the real-time, distributed and visual simulator engines, which depend on the operating system; the flow
  statistics a card writes to a text file; channels (a delay); the attribute and trace systems; the
  protocol stacks, wireless models, routing protocols, bindings, examples and tools of ns-3, which
  the datacentre code does not use or only configures.
\<close>

end
